(* ===== verification/Prelude.thy ===== *)
theory Prelude
  imports Main "HOL-Library.Word"
begin

unbundle bit_operations_syntax

text \<open>
  Shared types, collections of facts and generic lemmas of the development.
  Machine words are kept at their width where the code relies on it (pointers, hashes,
  lock words); C++ \<open>int\<close> counters, whose overflow is undefined, are HOL \<open>int\<close>.
\<close>

type_synonym u16 = "16 word"
type_synonym u32 = "32 word"
type_synonym u64 = "64 word"

text \<open>An \<open>rdma_ptr<T>\<close> is its raw 64-bit word; \<open>nullptr\<close> is the word 0.\<close>

type_synonym rptr = u64

named_theorems tag_simps \<open>rewriting of pointer tag operations\<close>
named_theorems step_defs \<open>definitions of the operations of a component\<close>

section \<open>Lists used as arrays\<close>

lemma take_Suc_update:
  assumes "n < length xs"
  shows "take (Suc n) (xs[n := x]) = take n xs @ [x]"
  using assms by (simp add: take_Suc_conv_app_nth)

lemma count_list_remove1:
  "x \<in> set xs \<Longrightarrow> count_list (remove1 x xs) y = count_list xs y - (if x = y then 1 else 0)"
proof (induction xs)
  case Nil
  then show ?case by simp
next
  case (Cons a xs)
  show ?case
  proof (cases "a = x")
    case True
    then show ?thesis by simp
  next
    case False
    with Cons have "count_list (remove1 x xs) y = count_list xs y - (if x = y then 1 else 0)"
      and "x \<in> set xs" by auto
    moreover have "0 < count_list xs x" using \<open>x \<in> set xs\<close>
      by (metis count_list_0_iff gr0I)
    ultimately show ?thesis using False by auto
  qed
qed

lemma distinct_map_updD:
  assumes "distinct (map f xs)" and "i < length xs" and "j < length xs" and "f (xs ! i) = f (xs ! j)"
  shows "i = j"
  using assms by (metis length_map nth_eq_iff_index_eq nth_map)

lemma nth_mem_remove1:
  assumes "i < length xs" and "j < length xs" and "i \<noteq> j"
  shows "xs ! j \<in> set (remove1 (xs ! i) xs)"
  using assms
proof (induction xs arbitrary: i j)
  case Nil
  then show ?case by simp
next
  case (Cons x xs)
  show ?case
  proof (cases i)
    case 0
    with Cons.prems show ?thesis by (cases j) auto
  next
    case (Suc i')
    with Cons show ?thesis by (cases j) auto
  qed
qed

text \<open>Updating a literal list at a literal index.\<close>

lemma list_update_Cons': "(x # xs)[n := y] = (if n = 0 then y # xs else x # xs[n - 1 := y])"
  by (cases n) simp_all

section \<open>Words\<close>

lemma u64_eq_bit: "a = b \<longleftrightarrow> (\<forall>n<64. bit (a :: u64) n = bit b n)"
  by (auto intro: bit_word_eqI)

section \<open>Options as results\<close>

lemma option_case_Some_iff:
  "(case x of None \<Rightarrow> None | Some y \<Rightarrow> f y) = Some z \<longleftrightarrow> (\<exists>y. x = Some y \<and> f y = Some z)"
  by (cases x) auto

section \<open>Sums as results\<close>

text \<open>An operation that may fail, and what is done with its result.\<close>

definition then_do :: "'e + 'a \<Rightarrow> ('a \<Rightarrow> 'e + 'b) \<Rightarrow> 'e + 'b" where
  "then_do x f = (case x of Inl err \<Rightarrow> Inl err | Inr a \<Rightarrow> f a)"

lemma then_do_simps [simp]: "then_do (Inl err) f = Inl err" "then_do (Inr a) f = f a"
  by (simp_all add: then_do_def)

lemma then_do_Inr: "then_do x f = Inr z \<longleftrightarrow> (\<exists>y. x = Inr y \<and> f y = Inr z)"
  by (cases x) auto

lemma then_do_cong [fundef_cong]: "x = x' \<Longrightarrow> (\<And>y. x' = Inr y \<Longrightarrow> f y = g y) \<Longrightarrow> then_do x f = then_do x' g"
  by (cases x') simp_all

end
