(* ===== verification/MarkPtr.thy ===== *)
theory MarkPtr
  imports Prelude
begin

text \<open>
  The tag bits the program packs into a pointer word.
  \<^item> \<open>dcache/include/dcache/mark_ptr.h\<close>: bit 63, "use the cache protocol".
  \<^item> \<open>iht/cached/ds/rdmask_cached.h\<close>: bit 0, "the node is being unlinked".
  \<^item> \<open>iht/cached/sherman/lockfree_sk.h\<close>: bit 0 of a local pointer, the same use.
  The contract both tags share is the locale \<open>pointer_tag\<close>, interpreted on the
  operations of each file.
\<close>

section \<open>The contract of a tag bit\<close>

locale pointer_tag =
  fixes tag :: "u64 \<Rightarrow> u64"
    and is_tagged :: "u64 \<Rightarrow> bool"
    and untag :: "u64 \<Rightarrow> u64"
  assumes tagged_tag: "is_tagged (tag p)"
    and not_tagged_untag: "\<not> is_tagged (untag p)"
    and untag_tag: "untag (tag p) = untag p"
    and tag_untag: "tag (untag p) = tag p"
    and untag_id: "\<not> is_tagged p \<Longrightarrow> untag p = p"
    and tag_id: "is_tagged p \<Longrightarrow> tag p = p"
begin

lemma untag_untag: "untag (untag p) = untag p"
  by (rule untag_id) (rule not_tagged_untag)

lemma tag_tag: "tag (tag p) = tag p"
  by (rule tag_id) (rule tagged_tag)

text \<open>A word is determined by its tag bit and its untagged part.\<close>

lemma tag_cases: "p = (if is_tagged p then tag (untag p) else untag p)"
  by (simp add: tag_untag tag_id untag_id)

lemma untag_eq_iff: "untag p = untag q \<longleftrightarrow> tag p = tag q"
proof
  assume "untag p = untag q"
  then have "tag (untag p) = tag (untag q)" by simp
  then show "tag p = tag q" by (simp add: tag_untag)
next
  assume "tag p = tag q"
  then have "untag (tag p) = untag (tag q)" by simp
  then show "untag p = untag q" by (simp add: untag_tag)
qed

lemma tag_inj: "\<lbrakk> tag p = tag q; is_tagged p = is_tagged q \<rbrakk> \<Longrightarrow> p = q"
  by (metis tag_cases untag_eq_iff)

lemma tag_neq_untagged: "\<not> is_tagged q \<Longrightarrow> tag p \<noteq> q"
  using tagged_tag by auto

end

section \<open>Bit 63: the cache mark (mark\_ptr.h)\<close>

definition ptr_mask :: u64 where
  "ptr_mask = push_bit 63 1"

definition mark_ptr :: "rptr \<Rightarrow> rptr" where
  "mark_ptr p = p OR ptr_mask"

definition cond_mark_ptr :: "bool \<Rightarrow> rptr \<Rightarrow> rptr" where
  "cond_mark_ptr c p = (if c then p OR ptr_mask else p)"

definition is_marked :: "rptr \<Rightarrow> bool" where
  "is_marked p \<longleftrightarrow> p AND ptr_mask \<noteq> 0"

definition unmark_ptr :: "rptr \<Rightarrow> rptr" where
  "unmark_ptr p = p AND NOT ptr_mask"

section \<open>Bit 0: the deletion mark (rdmask\_cached.h, lockfree\_sk.h)\<close>

definition is_marked_del :: "rptr \<Rightarrow> bool" where
  "is_marked_del p \<longleftrightarrow> p AND 1 \<noteq> 0"

definition marked_del :: "rptr \<Rightarrow> rptr" where
  "marked_del p = p OR 1"

definition sans :: "rptr \<Rightarrow> rptr" where
  "sans p = p AND NOT 1"

text \<open>\<open>LockFreeSkiplist::IsMarked\<close> returns the clean pointer and the mark together.\<close>

definition sk_IsMarked :: "u64 \<Rightarrow> u64 \<times> bool" where
  "sk_IsMarked p = (p AND NOT 1, p AND 1 \<noteq> 0)"

definition sk_Marked :: "u64 \<Rightarrow> u64" where
  "sk_Marked p = p OR 1"

definition sk_Unmark :: "u64 \<Rightarrow> u64" where
  "sk_Unmark p = p AND NOT 1"

section \<open>Bitwise characterisations\<close>

lemma bit_ptr_mask [tag_simps]: "bit ptr_mask n \<longleftrightarrow> n = 63"
  by (simp add: ptr_mask_def bit_push_bit_iff bit_1_iff del: push_bit_of_1 push_bit_numeral) (cases "n = 63"; auto)

lemma bit_mark_ptr [tag_simps]: "bit (mark_ptr p) n \<longleftrightarrow> bit p n \<or> n = 63"
  by (simp add: mark_ptr_def bit_or_iff bit_ptr_mask)

lemma bit_unmark_ptr [tag_simps]: "bit (unmark_ptr p) n \<longleftrightarrow> bit p n \<and> n \<noteq> 63"
  by (auto simp: unmark_ptr_def bit_simps bit_ptr_mask dest: bit_imp_le_length)

lemma bit_marked_del [tag_simps]: "bit (marked_del p) n \<longleftrightarrow> bit p n \<or> n = 0"
  by (auto simp: marked_del_def bit_simps)

lemma bit_sans [tag_simps]: "bit (sans p) n \<longleftrightarrow> bit p n \<and> n \<noteq> 0"
  by (auto simp: sans_def bit_simps dest: bit_imp_le_length)

lemma is_marked_bit [tag_simps]: "is_marked p \<longleftrightarrow> bit p 63"
proof -
  have "p AND ptr_mask = 0 \<longleftrightarrow> \<not> bit p 63"
    by (auto simp: u64_eq_bit bit_and_iff bit_ptr_mask dest: spec [of _ 63])
  then show ?thesis by (simp add: is_marked_def)
qed

lemma is_marked_del_bit [tag_simps]: "is_marked_del p \<longleftrightarrow> bit p 0"
proof -
  have "p AND 1 = 0 \<longleftrightarrow> \<not> bit p 0"
    by (auto simp: u64_eq_bit bit_and_iff bit_1_iff intro!: gr0I dest: spec [of _ 0])
  then show ?thesis by (simp add: is_marked_del_def)
qed

interpretation cache_mark: pointer_tag mark_ptr is_marked unmark_ptr
  by unfold_locales (auto simp: tag_simps u64_eq_bit)

interpretation del_mark: pointer_tag marked_del is_marked_del sans
  by unfold_locales (auto simp: tag_simps u64_eq_bit intro!: gr0I)

lemma sk_tag_eqs: "sk_IsMarked p = (sans p, is_marked_del p)" "sk_Marked p = marked_del p"
    "sk_Unmark p = sans p"
  by (simp_all add: sk_IsMarked_def sk_Marked_def sk_Unmark_def sans_def is_marked_del_def
      marked_del_def)

lemma cond_mark_ptr_eq: "cond_mark_ptr c p = (if c then mark_ptr p else p)"
  by (simp add: cond_mark_ptr_def mark_ptr_def)

text \<open>The facts the cache and the data structures use about the cache mark.\<close>

lemmas mark_simps = cache_mark.tagged_tag cache_mark.not_tagged_untag cache_mark.untag_tag
  cache_mark.tag_untag cache_mark.untag_untag cache_mark.tag_tag

declare mark_simps [simp]

lemmas del_simps = del_mark.tagged_tag del_mark.not_tagged_untag del_mark.untag_tag
  del_mark.tag_untag del_mark.untag_untag del_mark.tag_tag

declare del_simps [simp]

lemma unmark_null [simp]: "unmark_ptr 0 = 0"
  by (simp add: unmark_ptr_def)

lemma sans_null [simp]: "sans 0 = 0"
  by (simp add: sans_def)

section \<open>Properties\<close>

text \<open>
  Marking a pointer for caching and marking it for deletion are independent: each
  operation on one tag keeps the other tag and commutes with the operations on it, so a
  skip list link can carry both.
\<close>

theorem tags_independent:
  "is_marked (marked_del p) = is_marked p \<and> is_marked (sans p) = is_marked p \<and>
   is_marked_del (mark_ptr p) = is_marked_del p \<and> is_marked_del (unmark_ptr p) = is_marked_del p \<and>
   sans (mark_ptr p) = mark_ptr (sans p) \<and> sans (unmark_ptr p) = unmark_ptr (sans p) \<and>
   marked_del (mark_ptr p) = mark_ptr (marked_del p) \<and>
   marked_del (unmark_ptr p) = unmark_ptr (marked_del p)"
  by (auto simp: tag_simps u64_eq_bit)

end
