(* ===== verification/ObjectPool.thy ===== *)
theory ObjectPool
  imports Prelude
begin

text \<open>
  \<open>dcache/include/dcache/object_pool.h\<close>: a thread-local FIFO of reusable objects
  that calls a generator when it is empty. The queue is a list, head first; the generator
  may allocate, so it passes the state \<open>'s\<close> it works on.
\<close>

section \<open>The operations\<close>

definition pool_fetch :: "('s \<Rightarrow> 'a \<times> 's) \<Rightarrow> 'a list \<Rightarrow> 's \<Rightarrow> 'a \<times> 'a list \<times> 's" where
  "pool_fetch gen q s =
     (case q of
        [] \<Rightarrow> (let (x, s') = gen s in (x, [], s'))
      | x # xs \<Rightarrow> (x, xs, s))"

definition pool_release :: "'a list \<Rightarrow> 'a \<Rightarrow> 'a list" where
  "pool_release q x = q @ [x]"

definition pool_empty :: "'a list \<Rightarrow> bool" where
  "pool_empty q \<longleftrightarrow> q = []"

section \<open>The contract a client of a recycling queue relies on\<close>

locale recycler =
  fixes fetch :: "('s \<Rightarrow> 'a \<times> 's) \<Rightarrow> 'q \<Rightarrow> 's \<Rightarrow> 'a \<times> 'q \<times> 's"
    and release :: "'q \<Rightarrow> 'a \<Rightarrow> 'q"
    and isempty :: "'q \<Rightarrow> bool"
    and items :: "'q \<Rightarrow> 'a list"
  assumes isempty_items: "isempty q \<longleftrightarrow> items q = []"
    and items_release: "items (release q x) = items q @ [x]"
    and fetch_recycles: "items q = y # ys \<Longrightarrow> \<exists>q'. fetch gen q s = (y, q', s) \<and> items q' = ys"
    and fetch_generates: "items q = [] \<Longrightarrow>
           \<exists>q'. fetch gen q s = (fst (gen s), q', snd (gen s)) \<and> items q' = []"
begin

lemma release_not_empty: "\<not> isempty (release q x)"
  by (simp add: isempty_items items_release)

text \<open>A fetched object was in the pool, or is newly generated; the rest stays in order.\<close>

lemma fetch_cases:
  assumes "fetch gen q s = (x, q', s')"
  shows "(items q = x # items q' \<and> s' = s) \<or>
         (items q = [] \<and> items q' = [] \<and> x = fst (gen s) \<and> s' = snd (gen s))"
proof (cases "items q")
  case Nil
  with fetch_generates [OF Nil, of gen s] assms show ?thesis by auto
next
  case (Cons y ys)
  with fetch_recycles [OF Cons, of gen s] assms show ?thesis by auto
qed

text \<open>First in, first out: what is released to an empty pool comes back first.\<close>

lemma fetch_release_empty:
  assumes "isempty q"
  shows "\<exists>q'. fetch gen (release q x) s = (x, q', s) \<and> isempty q'"
proof -
  have "items (release q x) = x # []" using assms by (simp add: isempty_items items_release)
  from fetch_recycles [OF this, of gen s] show ?thesis by (auto simp: isempty_items)
qed

lemma fetch_release_nonempty:
  assumes "\<not> isempty q" and "fetch gen q s = (y, q', s)"
  shows "\<exists>q''. fetch gen (release q x) s = (y, q'', s) \<and> items q'' = items q' @ [x]"
proof -
  from assms fetch_cases [OF assms(2)] have it: "items q = y # items q'"
    by (auto simp: isempty_items)
  then have "items (release q x) = y # (items q' @ [x])" by (simp add: items_release)
  from fetch_recycles [OF this, of gen s] show ?thesis by auto
qed

end

interpretation obj_pool: recycler pool_fetch pool_release pool_empty "\<lambda>q. q"
  by unfold_locales (auto simp: pool_fetch_def pool_release_def pool_empty_def split: prod.splits)

end
