(* ===== verification/Metrics.thy ===== *)
theory Metrics
  imports Prelude
begin

text \<open>
  \<open>dcache/include/dcache/metrics.h\<close>: the counters a thread keeps for its caches and
  the report it prints.
\<close>

section \<open>The counters\<close>

record cache_metrics =
  remote_reads :: int
  remote_writes :: int
  remote_cas :: int
  allocation :: int
  deallocation :: int
  coherence_misses :: int
  conflict_misses :: int
  cold_misses :: int
  priority_misses :: int
  hits :: int
  empty_lines :: int
  successful_invalidations :: int

definition CacheMetrics :: cache_metrics where
  "CacheMetrics =
     \<lparr> remote_reads = 0, remote_writes = 0, remote_cas = 0, allocation = 0, deallocation = 0,
       coherence_misses = 0, conflict_misses = 0, cold_misses = 0, priority_misses = 0,
       hits = 0, empty_lines = 0, successful_invalidations = 0 \<rparr>"

section \<open>The report\<close>

text \<open>\<open>std::to_string\<close> on an \<open>int\<close>: decimal digits, most significant first.\<close>

fun nat_digits :: "nat \<Rightarrow> string" where
  "nat_digits n =
     (if n < 10 then [char_of (48 + n)] else nat_digits (n div 10) @ [char_of (48 + n mod 10)])"

declare nat_digits.simps [simp del]

definition to_string :: "int \<Rightarrow> string" where
  "to_string i = (if i < 0 then ''-'' @ nat_digits (nat (- i)) else nat_digits (nat i))"

definition nl :: string where
  "nl = [char_of (10 :: nat)]"

definition metric_line :: "string \<Rightarrow> int \<Rightarrow> string" where
  "metric_line name v = ''  <'' @ name @ '' = '' @ to_string v @ ''/>'' @ nl"

definition as_string :: "cache_metrics \<Rightarrow> string" where
  "as_string m =
     ''<Metrics>'' @ nl
     @ metric_line ''Allocations'' (allocation m)
     @ metric_line ''Deallocations'' (deallocation m)
     @ metric_line ''CoherenceMiss'' (coherence_misses m)
     @ metric_line ''ConflictMiss'' (conflict_misses m)
     @ metric_line ''ColdMiss'' (cold_misses m)
     @ metric_line ''PriorityMiss'' (priority_misses m)
     @ metric_line ''RemoteRead'' (remote_reads m)
     @ metric_line ''RemoteWrite'' (remote_writes m)
     @ metric_line ''RemoteCAS'' (remote_cas m)
     @ metric_line ''CacheHits'' (hits m)
     @ metric_line ''EmptyLines'' (empty_lines m)
     @ metric_line ''Invalidations'' (successful_invalidations m)
     @ ''</Metrics>'' @ nl"

section \<open>Accounting of reads\<close>

text \<open>How a read was served; every read is of exactly one kind.\<close>

definition served :: "cache_metrics \<Rightarrow> int" where
  "served m = hits m + coherence_misses m + conflict_misses m + cold_misses m + allocation m"

text \<open>The invariant of the counters: a remote read is made by every read but a hit.\<close>

definition reads_accounted :: "cache_metrics \<Rightarrow> bool" where
  "reads_accounted m \<longleftrightarrow>
     remote_reads m = coherence_misses m + conflict_misses m + cold_misses m + allocation m \<and>
     priority_misses m \<le> allocation m \<and> 0 \<le> hits m"

lemma reads_accounted_init: "reads_accounted CacheMetrics"
  by (simp add: reads_accounted_def CacheMetrics_def)

end
