(* ===== verification/Hashing.thy ===== *)
theory Hashing
  imports Prelude
begin

text \<open>
  The 64-bit finaliser "mix13" that the object cache (\<open>cache_store.h\<close>) and the three
  interlocked hash tables (\<open>iht_ds.h\<close>, \<open>iht_ds_cached.h\<close>, \<open>iht_local.h\<close>) share.
  All arithmetic is modulo \<open>2 ^ 64\<close>.
\<close>

definition xorshift33 :: "u64 \<Rightarrow> u64" where
  "xorshift33 h = h XOR drop_bit 33 h"

definition mix13 :: "u64 \<Rightarrow> u64" where
  "mix13 h =
     xorshift33 (xorshift33 (xorshift33 h * 0xff51afd7ed558ccd) * 0xc4ceb9fe1a85ec53)"

text \<open>
  The finaliser is a permutation of the 64-bit words: no two prehashes are merged before
  the reduction to a bucket number. The two multipliers are odd; their inverses modulo
  \<open>2 ^ 64\<close> undo them.
\<close>

definition unmix13 :: "u64 \<Rightarrow> u64" where
  "unmix13 h =
     xorshift33 (xorshift33 (xorshift33 h * 0x9cb4b2f8129337db) * 0x4f74430c22a54005)"

lemma xorshift33_inverse: "xorshift33 (xorshift33 h) = h"
proof -
  have "bit (xorshift33 (xorshift33 h)) n = bit h n" if "n < 64" for n
    using that by (auto simp: xorshift33_def bit_xor_iff bit_drop_bit_eq dest: bit_imp_le_length)
  then show ?thesis by (simp add: u64_eq_bit)
qed

lemma mul_inverses:
  "x * 0xc4ceb9fe1a85ec53 * 0x9cb4b2f8129337db = (x :: u64)"
  "x * 0xff51afd7ed558ccd * 0x4f74430c22a54005 = (x :: u64)"
proof -
  have "(0xc4ceb9fe1a85ec53 * 0x9cb4b2f8129337db :: u64) = 1"
    and "(0xff51afd7ed558ccd * 0x4f74430c22a54005 :: u64) = 1" by simp_all
  then show "x * 0xc4ceb9fe1a85ec53 * 0x9cb4b2f8129337db = (x :: u64)"
    and "x * 0xff51afd7ed558ccd * 0x4f74430c22a54005 = (x :: u64)"
    by (simp_all only: mult.assoc mult_1_right)
qed

theorem unmix13_mix13: "unmix13 (mix13 h) = h"
  by (simp add: mix13_def unmix13_def xorshift33_inverse mul_inverses)

lemma mix13_inj: "mix13 a = mix13 b \<longleftrightarrow> a = b"
  by (metis unmix13_mix13)

lemma mix13_0: "mix13 0 = 0"
  by (simp add: mix13_def xorshift33_def)

end
