(* ===== verification/MemPool.thy ===== *)
theory MemPool
  imports Prelude
begin

text \<open>
  The memory pool the cache and the data structures are templates over (\<open>Pool\<close>,
  \<open>capability\<close>). The production pool, \<open>rdma_capability_thread\<close>, belongs to the
  Remus library and is a parameter here: a record of operations on a memory state \<open>'m\<close>.
  What the cache relies on is the locale \<open>memory_pool\<close>. The repository's own pool,
  \<open>CountingPool\<close> of \<open>dcache/test/faux_mempool.h\<close>, is modelled below and interprets
  the locale.
\<close>

section \<open>The interface\<close>

text \<open>Failed assertions and aborts are values.\<close>

datatype cache_err =
    NullPointer
  | AliasedPrealloc
  | OutOfMemory
  | DoubleFree rptr
  | WrongFreeSize rptr int int
  | SizeMismatch int int
  | NegativeRefs
  | LiveReferences int
  | WrongPeerCount nat nat

text \<open>
  Sizes are in bytes. \<open>cap_read m p n q\<close> copies \<open>n\<close> bytes from \<open>p\<close> to the
  preallocated \<open>q\<close>, or to a new object when \<open>q\<close> is null, and returns where it
  copied to. \<open>cap_cas m p e x\<close> returns the old word. \<open>cap_write m p v q\<close>
  writes the value \<open>v\<close> to \<open>p\<close>, through the preallocated \<open>q\<close> when it is not null.
\<close>

record 'm capability =
  cap_read :: "'m \<Rightarrow> rptr \<Rightarrow> int \<Rightarrow> rptr \<Rightarrow> cache_err + (rptr \<times> 'm)"
  cap_alloc :: "'m \<Rightarrow> int \<Rightarrow> cache_err + (rptr \<times> 'm)"
  cap_free :: "'m \<Rightarrow> rptr \<Rightarrow> int \<Rightarrow> cache_err + 'm"
  cap_cas :: "'m \<Rightarrow> rptr \<Rightarrow> u64 \<Rightarrow> u64 \<Rightarrow> u64 \<times> 'm"
  cap_write :: "'m \<Rightarrow> rptr \<Rightarrow> u64 \<Rightarrow> rptr \<Rightarrow> cache_err + 'm"

locale memory_pool =
  fixes C :: "'m capability"
    and W :: "rptr set" \<comment> \<open>the address words of the other nodes' cache lines\<close>
    and ok :: "'m \<Rightarrow> bool"
    and owned :: "'m \<Rightarrow> rptr \<Rightarrow> int option"
    and word :: "'m \<Rightarrow> rptr \<Rightarrow> u64"
  assumes alloc_fresh: "\<lbrakk> ok m; cap_alloc C m n = Inr (q, m') \<rbrakk> \<Longrightarrow>
      ok m' \<and> q \<noteq> 0 \<and> owned m q = None \<and> owned m' = (owned m)(q \<mapsto> n)"
    and alloc_err: "\<lbrakk> ok m; cap_alloc C m n = Inl err \<rbrakk> \<Longrightarrow> err = OutOfMemory"
    and read_new: "\<lbrakk> ok m; p \<noteq> 0; cap_read C m p n 0 = Inr (q, m') \<rbrakk> \<Longrightarrow>
      ok m' \<and> q \<noteq> 0 \<and> owned m q = None \<and> owned m' = (owned m)(q \<mapsto> n)"
    and read_new_err: "\<lbrakk> ok m; p \<noteq> 0; cap_read C m p n 0 = Inl err \<rbrakk> \<Longrightarrow> err = OutOfMemory"
    and read_into: "\<lbrakk> ok m; p \<noteq> 0; q \<noteq> 0; q \<noteq> p \<rbrakk> \<Longrightarrow>
      \<exists>m'. cap_read C m p n q = Inr (q, m') \<and> ok m' \<and> owned m' = owned m"
    and free_owned: "\<lbrakk> ok m; q \<noteq> 0; owned m q = Some n \<rbrakk> \<Longrightarrow>
      \<exists>m'. cap_free C m q n = Inr m' \<and> ok m' \<and> owned m' = (owned m)(q := None)"
    and cas_word: "\<lbrakk> ok m; p \<in> W \<rbrakk> \<Longrightarrow>
      \<exists>m'. cap_cas C m p old new = (word m p, m') \<and> ok m' \<and> owned m' = owned m \<and>
           word m' = (word m)(p := if word m p = old then new else word m p)"
    and write_word: "\<lbrakk> ok m; p \<noteq> 0; q \<noteq> p \<rbrakk> \<Longrightarrow>
      \<exists>m'. cap_write C m p v q = Inr m' \<and> ok m' \<and> owned m' = owned m"

section \<open>CountingPool\<close>

text \<open>
  \<open>allocat\<close> maps an object's address to its size; \<open>heap\<close> is the memory, read and
  written a word at a time here (an object is identified by its first word, which is the
  one the lock words and the cache line addresses live in); \<open>free_addrs\<close> holds the addresses
  \<open>malloc\<close> returns next, to which \<open>free\<close> gives an address back.
\<close>

record cpool =
  allocat :: "rptr \<Rightarrow> int option"
  heap :: "rptr \<Rightarrow> u64"
  free_addrs :: "rptr list"
  total_allocations :: int
  total_deallocations :: int

definition faux_Allocate :: "cpool \<Rightarrow> int \<Rightarrow> cache_err + (rptr \<times> cpool)" where
  "faux_Allocate m bytes =
     (case free_addrs m of
        [] \<Rightarrow> Inl OutOfMemory
      | p # ps \<Rightarrow> Inr (p, m\<lparr> allocat := (allocat m)(p := Some bytes), free_addrs := ps,
                            total_allocations := total_allocations m + 1 \<rparr>))"

definition faux_Deallocate :: "cpool \<Rightarrow> rptr \<Rightarrow> int \<Rightarrow> cache_err + cpool" where
  "faux_Deallocate m p bytes =
     (if p = 0 then Inl NullPointer
      else case allocat m p of
        None \<Rightarrow> Inl (DoubleFree p)
      | Some n \<Rightarrow>
          if n \<noteq> bytes then Inl (WrongFreeSize p n bytes)
          else Inr (m\<lparr> allocat := (allocat m)(p := None), free_addrs := free_addrs m @ [p],
                      total_deallocations := total_deallocations m + 1 \<rparr>))"

definition faux_ExtendedRead :: "cpool \<Rightarrow> rptr \<Rightarrow> int \<Rightarrow> rptr \<Rightarrow> cache_err + (rptr \<times> cpool)" where
  "faux_ExtendedRead m p bytes prealloc =
     (if p = 0 then Inl NullPointer
      else if prealloc = p then Inl AliasedPrealloc
      else if prealloc = 0 then
        (case faux_Allocate m bytes of
           Inl e \<Rightarrow> Inl e
         | Inr (q, m') \<Rightarrow> Inr (q, m'\<lparr> heap := (heap m')(q := heap m' p) \<rparr>))
      else Inr (prealloc, m\<lparr> heap := (heap m)(prealloc := heap m p) \<rparr>))"

definition faux_CompareAndSwap :: "cpool \<Rightarrow> rptr \<Rightarrow> u64 \<Rightarrow> u64 \<Rightarrow> u64 \<times> cpool" where
  "faux_CompareAndSwap m p e x =
     (let prev = heap m p in
      (prev, if prev = e then m\<lparr> heap := (heap m)(p := x) \<rparr> else m))"

definition faux_Write :: "cpool \<Rightarrow> rptr \<Rightarrow> u64 \<Rightarrow> rptr \<Rightarrow> cache_err + cpool" where
  "faux_Write m p v prealloc =
     (if prealloc = p then Inl AliasedPrealloc
      else if prealloc = 0 then Inr (m\<lparr> heap := (heap m)(p := v) \<rparr>)
      else Inr (m\<lparr> heap := (heap m)(prealloc := v, p := v) \<rparr>))"

definition HasNoLeaks :: "cpool \<Rightarrow> rptr list \<Rightarrow> bool" where
  "HasNoLeaks m universe \<longleftrightarrow> list_all (\<lambda>p. allocat m p = None) universe"

definition counting_pool :: "cpool capability" where
  "counting_pool =
     \<lparr> cap_read = faux_ExtendedRead, cap_alloc = faux_Allocate, cap_free = faux_Deallocate,
       cap_cas = faux_CompareAndSwap, cap_write = faux_Write \<rparr>"

text \<open>\<open>malloc\<close> returns addresses that are not in use.\<close>

definition faux_ok :: "cpool \<Rightarrow> bool" where
  "faux_ok m \<longleftrightarrow>
     distinct (free_addrs m) \<and> 0 \<notin> set (free_addrs m) \<and>
     (\<forall>p \<in> set (free_addrs m). allocat m p = None) \<and> allocat m 0 = None"

lemmas faux_defs = faux_Allocate_def faux_Deallocate_def faux_ExtendedRead_def
  faux_CompareAndSwap_def faux_Write_def faux_ok_def Let_def

interpretation faux: memory_pool counting_pool UNIV faux_ok allocat heap
  by unfold_locales
    (auto simp: counting_pool_def faux_defs fun_eq_iff split: list.splits if_splits sum.splits)

end
