(* ===== verification/CachedObject.thy ===== *)
theory CachedObject
  imports MemPool ObjectPool Metrics
begin

text \<open>
  \<open>dcache/include/dcache/cached_ptr.h\<close>: the handle a read returns. It either shares the
  reference counter of a cache line (\<open>ref_count\<close>) or owns a temporary object that its
  deallocator frees (\<open>temp\<close>). The counters live in \<open>refs\<close>, a store from counter
  addresses to values; the deallocator closure of \<open>ExtendedRead\<close> (\<open>cache_store.h\<close>
  lines 466 to 470) is the data it captures: the object, the caller's preallocated object
  and the size in bytes.
\<close>

section \<open>State\<close>

record dealloc_task =
  t_ptr :: rptr
  t_size :: int
  t_ref :: nat

record cline =
  address :: u64
  priority :: int
  local_ptr :: rptr
  lsize :: int
  ref_counter :: nat

record 'm cache =
  lines :: "cline list"
  remote_caches :: "rptr list"
  prealloc_cas_result :: "rptr list"
  origin_address :: rptr
  refs :: "nat \<Rightarrow> int"
  next_ref :: nat
  reference_pool :: "nat list"
  dealloc_pool :: "dealloc_task list"
  metrics :: cache_metrics
  is_leader :: bool
  mem :: 'm

record cobj =
  ref_count :: "nat option"
  parent :: rptr
  obj :: rptr
  temp :: bool
  dealloc :: "(rptr \<times> rptr \<times> int) option"

section \<open>Constructors\<close>

definition cobj_empty :: cobj where
  "cobj_empty = \<lparr> ref_count = None, parent = 0, obj = 0, temp = False, dealloc = None \<rparr>"

definition cobj_shared :: "rptr \<Rightarrow> rptr \<Rightarrow> nat \<Rightarrow> cobj" where
  "cobj_shared p q r =
     \<lparr> ref_count = Some r, parent = p, obj = q, temp = False, dealloc = None \<rparr>"

definition cobj_temp :: "rptr \<Rightarrow> rptr \<Rightarrow> rptr \<times> rptr \<times> int \<Rightarrow> cobj" where
  "cobj_temp p q d =
     \<lparr> ref_count = None, parent = p, obj = q, temp = True, dealloc = Some d \<rparr>"

section \<open>Destruction and moves\<close>

text \<open>The deallocator: never frees the caller's preallocated object.\<close>

definition run_dealloc :: "'m capability \<Rightarrow> rptr \<times> rptr \<times> int \<Rightarrow> 'm cache \<Rightarrow> cache_err + 'm cache" where
  "run_dealloc C d s =
     (case d of (result, prealloc, bytes) \<Rightarrow>
        if result \<noteq> prealloc then
          (case cap_free C (mem s) result bytes of
             Inl e \<Rightarrow> Inl e
           | Inr m \<Rightarrow> Inr (s\<lparr> mem := m \<rparr>))
        else Inr s)"

text \<open>\<open>ref_count->fetch_sub(1) - 1\<close> and the assertion on it.\<close>

definition drop_ref :: "nat \<Rightarrow> 'm cache \<Rightarrow> cache_err + 'm cache" where
  "drop_ref r s =
     (let n = refs s r - 1 in
      if n < 0 then Inl NegativeRefs else Inr (s\<lparr> refs := (refs s)(r := n) \<rparr>))"

definition cobj_destroy :: "'m capability \<Rightarrow> cobj \<Rightarrow> 'm cache \<Rightarrow> cache_err + 'm cache" where
  "cobj_destroy C h s =
     (if temp h then
        (case dealloc h of None \<Rightarrow> Inr s | Some d \<Rightarrow> run_dealloc C d s)
      else case ref_count h of
        None \<Rightarrow> Inr s
      | Some r \<Rightarrow> drop_ref r s)"

text \<open>The move constructor returns the new handle and the emptied source.\<close>

definition cobj_move :: "cobj \<Rightarrow> cobj \<times> cobj" where
  "cobj_move h =
     (\<lparr> ref_count = ref_count h, parent = parent h, obj = obj h, temp = temp h,
        dealloc = dealloc h \<rparr>,
      h\<lparr> ref_count := None, obj := 0, parent := 0, temp := False \<rparr>)"

text \<open>Move assignment \<open>g = std::move(h)\<close> releases what \<open>g\<close> held first.\<close>

definition cobj_assign ::
  "'m capability \<Rightarrow> cobj \<Rightarrow> cobj \<Rightarrow> 'm cache \<Rightarrow> cache_err + (cobj \<times> cobj \<times> 'm cache)" where
  "cobj_assign C g h s =
     (case (if temp g then (case dealloc g of None \<Rightarrow> Inr s | Some d \<Rightarrow> run_dealloc C d s)
            else Inr s) of
        Inl e \<Rightarrow> Inl e
      | Inr s1 \<Rightarrow>
          (case (case ref_count g of None \<Rightarrow> Inr s1 | Some r \<Rightarrow> drop_ref r s1) of
             Inl e \<Rightarrow> Inl e
           | Inr s2 \<Rightarrow>
               (case cobj_move h of (g', h') \<Rightarrow> Inr (g', h', s2))))"

definition remote_origin :: "cobj \<Rightarrow> rptr" where
  "remote_origin h = parent h"

definition get_ref_count :: "cobj \<Rightarrow> 'm cache \<Rightarrow> int" where
  "get_ref_count h s = (case ref_count h of None \<Rightarrow> 0 | Some r \<Rightarrow> refs s r)"

section \<open>Handles held by the program\<close>

text \<open>How many of the live handles \<open>H\<close> count on the counter \<open>r\<close>.\<close>

definition hcount :: "cobj list \<Rightarrow> nat \<Rightarrow> nat" where
  "hcount H r = length (filter (\<lambda>h. ref_count h = Some r) H)"

text \<open>The objects the live handles will free themselves.\<close>

definition temps :: "cobj list \<Rightarrow> (rptr \<times> int) list" where
  "temps H = concat (map (\<lambda>h. case dealloc h of
       None \<Rightarrow> []
     | Some (q, pre, n) \<Rightarrow> if temp h \<and> q \<noteq> pre then [(q, n)] else []) H)"

lemma hcount_simps [simp]:
  "hcount [] r = 0"
  "hcount (h # H) r = (if ref_count h = Some r then 1 else 0) + hcount H r"
  by (simp_all add: hcount_def)

lemma hcount_append [simp]: "hcount (G @ H) r = hcount G r + hcount H r"
  by (simp add: hcount_def)

lemma hcount_0_iff: "hcount H r = 0 \<longleftrightarrow> (\<forall>h\<in>set H. ref_count h \<noteq> Some r)"
  by (auto simp: hcount_def filter_empty_conv)

lemma hcount_pos: "h \<in> set H \<Longrightarrow> ref_count h = Some r \<Longrightarrow> 0 < hcount H r"
  using hcount_0_iff by (metis gr0I)

lemma temps_simps [simp]:
  "temps [] = []"
  "temps (h # H) = (case dealloc h of
       None \<Rightarrow> []
     | Some (q, pre, n) \<Rightarrow> if temp h \<and> q \<noteq> pre then [(q, n)] else []) @ temps H"
  by (simp_all add: temps_def)

lemma temps_append [simp]: "temps (G @ H) = temps G @ temps H"
  by (simp add: temps_def)

lemma cobj_kinds [simp]:
  "ref_count cobj_empty = None" "temp cobj_empty = False" "dealloc cobj_empty = None"
  "ref_count (cobj_shared p q r) = Some r" "temp (cobj_shared p q r) = False"
  "dealloc (cobj_shared p q r) = None" "obj (cobj_shared p q r) = q"
  "parent (cobj_shared p q r) = p"
  "ref_count (cobj_temp p q d) = None" "temp (cobj_temp p q d) = True"
  "dealloc (cobj_temp p q d) = Some d" "obj (cobj_temp p q d) = q" "parent (cobj_temp p q d) = p"
  by (simp_all add: cobj_empty_def cobj_shared_def cobj_temp_def)

text \<open>A handle that never mixes the two kinds of ownership.\<close>

definition cobj_wf :: "cobj \<Rightarrow> bool" where
  "cobj_wf h \<longleftrightarrow> \<not> (temp h \<and> ref_count h \<noteq> None)"

lemma cobj_wf_intros [simp]:
  "cobj_wf cobj_empty" "cobj_wf (cobj_shared p q r)" "cobj_wf (cobj_temp p q d)"
  by (simp_all add: cobj_wf_def)

text \<open>Moving transfers the ownership: the source owns nothing, the target what it owned.\<close>

lemma cobj_move_hcount:
  "cobj_move h = (g, h') \<Longrightarrow> hcount [g, h'] r = hcount [h] r \<and> temps [g, h'] = temps [h]"
  by (auto simp: cobj_move_def split: option.splits)

text \<open>Move assignment is destruction of the target followed by a move.\<close>

lemma cobj_assign_destroy:
  assumes "cobj_wf g"
  shows "cobj_assign C g h s =
     (case cobj_destroy C g s of Inl e \<Rightarrow> Inl e
      | Inr s' \<Rightarrow> Inr (fst (cobj_move h), snd (cobj_move h), s'))"
  using assms
  by (auto simp: cobj_assign_def cobj_destroy_def cobj_wf_def cobj_move_def
      split: option.splits sum.splits)

end
