(* ===== verification/CacheStore.thy ===== *)
theory CacheStore
  imports Complex_Main CachedObject MarkPtr Hashing
begin

text \<open>
  \<open>dcache/include/dcache/cache_store.h\<close>: the cache of one node, as one thread sees it.
  A cache line holds the tagged address of the remote object it caches, the local copy, its
  size, its priority and the reference counter of the copy. Operations run one after the
  other here, so the line lock is not part of the state and the re-check after the lock
  upgrade (lines 350 to 356 and 404 to 411) always succeeds; the lock, the upgrade window
  and the other nodes are the subject of the theory Coherence.
\<close>

section \<open>Placement\<close>

text \<open>
  What the code uses of Remus' \<open>rdma_ptr\<close> (\<open>id()\<close>, \<open>address()\<close>) and of the
  floating-point rounding is a parameter.
\<close>

record rdma_env =
  ptr_id :: "rptr \<Rightarrow> nat"
  ptr_address :: "rptr \<Rightarrow> u64"
  dbl :: "rat \<Rightarrow> rat"

definition hash_offset :: "rdma_env \<Rightarrow> nat \<Rightarrow> nat \<Rightarrow> rptr \<Rightarrow> u64" where
  "hash_offset E number_of_lines ids_n p =
     word_of_int \<lfloor>dbl E (dbl E (of_nat number_of_lines / of_nat ids_n) * of_nat (ptr_id E p))\<rfloor>"

definition cache_hash :: "rdma_env \<Rightarrow> nat \<Rightarrow> nat \<Rightarrow> rptr \<Rightarrow> u64" where
  "cache_hash E number_of_lines ids_n p =
     (mix13 (ptr_address E p div 64) + hash_offset E number_of_lines ids_n p)
       mod of_nat number_of_lines"

definition line_index :: "rdma_env \<Rightarrow> 'm cache \<Rightarrow> rptr \<Rightarrow> nat" where
  "line_index E s p = unat (cache_hash E (length (lines s)) (length (remote_caches s) + 1) p)"

text \<open>\<open>remote_caches[i][h]\<close>: lines are 64 bytes and the address is their first word.\<close>

definition remote_line :: "rptr \<Rightarrow> nat \<Rightarrow> rptr" where
  "remote_line rt i = rt + 64 * of_nat i"

section \<open>Reference counters and deferred frees\<close>

definition set_line :: "nat \<Rightarrow> (cline \<Rightarrow> cline) \<Rightarrow> 'm cache \<Rightarrow> 'm cache" where
  "set_line i f s = s\<lparr> lines := (lines s)[i := f (lines s ! i)] \<rparr>"

definition ref_generator :: "'m cache \<Rightarrow> nat \<times> 'm cache" where
  "ref_generator s =
     (next_ref s, s\<lparr> next_ref := next_ref s + 1, refs := (refs s)(next_ref s := 0) \<rparr>)"

definition fetch_ref :: "'m cache \<Rightarrow> nat \<times> 'm cache" where
  "fetch_ref s =
     (case pool_fetch ref_generator (reference_pool s) s of
        (r, q, s') \<Rightarrow> (r, s'\<lparr> reference_pool := q \<rparr>))"

definition release_ref :: "nat \<Rightarrow> 'm cache \<Rightarrow> 'm cache" where
  "release_ref r s = s\<lparr> reference_pool := pool_release (reference_pool s) r \<rparr>"

text \<open>\<open>try_free_some\<close>: free queued objects up to the first that is still referenced.\<close>

fun free_loop :: "'m capability \<Rightarrow> dealloc_task list \<Rightarrow> 'm cache \<Rightarrow> cache_err + 'm cache" where
  "free_loop C [] s = Inr (s\<lparr> dealloc_pool := [] \<rparr>)"
| "free_loop C (t # ts) s =
     (if refs s (t_ref t) \<noteq> 0 then Inr (s\<lparr> dealloc_pool := pool_release ts t \<rparr>)
      else case cap_free C (mem s) (t_ptr t) (t_size t) of
        Inl e \<Rightarrow> Inl e
      | Inr m \<Rightarrow> free_loop C ts (release_ref (t_ref t) (s\<lparr> dealloc_pool := ts, mem := m \<rparr>)))"

definition try_free_some :: "'m capability \<Rightarrow> 'm cache \<Rightarrow> cache_err + 'm cache" where
  "try_free_some C s = free_loop C (dealloc_pool s) s"

definition handle_free ::
  "'m capability \<Rightarrow> rptr \<Rightarrow> int \<Rightarrow> nat \<Rightarrow> 'm cache \<Rightarrow> cache_err + 'm cache" where
  "handle_free C ptr sz r s =
     (let s1 = s\<lparr> refs := (refs s)(r := refs s r - 1) \<rparr> in
      if refs s1 r = 0 then
        (if ptr \<noteq> 0 then
           (case cap_free C (mem s1) ptr sz of
              Inl e \<Rightarrow> Inl e
            | Inr m \<Rightarrow> Inr (release_ref r (s1\<lparr> mem := m \<rparr>)))
         else Inr (release_ref r s1))
      else if ptr \<noteq> 0 then
        Inr (s1\<lparr> dealloc_pool := pool_release (dealloc_pool s1)
                   \<lparr> t_ptr = ptr, t_size = sz, t_ref = r \<rparr> \<rparr>)
      else Inr (release_ref r s1))"

section \<open>Construction and teardown\<close>

text \<open>The size of a fresh line is not initialised: \<open>junk\<close>.\<close>

fun make_lines :: "int \<Rightarrow> nat \<Rightarrow> 'm cache \<Rightarrow> 'm cache" where
  "make_lines junk 0 s = s"
| "make_lines junk (Suc n) s =
     (case fetch_ref s of (r, s') \<Rightarrow>
        make_lines junk n
          (s'\<lparr> refs := (refs s')(r := 0),
              lines := lines s' @ [\<lparr> address = 0, priority = 2147483647, local_ptr = 0,
                                     lsize = junk, ref_counter = r \<rparr>] \<rparr>))"

definition RemoteCacheImpl :: "'m capability \<Rightarrow> int \<Rightarrow> nat \<Rightarrow> 'm \<Rightarrow> cache_err + 'm cache" where
  "RemoteCacheImpl C junk number_of_lines m =
     (case cap_alloc C m (64 * int number_of_lines) of
        Inl e \<Rightarrow> Inl e
      | Inr (org, m') \<Rightarrow> Inr (make_lines junk number_of_lines
          \<lparr> lines = [], remote_caches = [], prealloc_cas_result = [], origin_address = org,
            refs = (\<lambda>_. 0), next_ref = 0, reference_pool = [], dealloc_pool = [],
            metrics = CacheMetrics, is_leader = False, mem = m' \<rparr>))"

definition claim_master :: "'m cache \<Rightarrow> 'm cache" where
  "claim_master s = s\<lparr> is_leader := True \<rparr>"

definition cache_root :: "'m cache \<Rightarrow> u64" where
  "cache_root s = origin_address s"

fun init_loop ::
  "'m capability \<Rightarrow> (rptr \<Rightarrow> bool) \<Rightarrow> u64 list \<Rightarrow> 'm cache \<Rightarrow> cache_err + 'm cache" where
  "init_loop C loc [] s = Inr s"
| "init_loop C loc (p # ps) s =
     (if p = cache_root s then init_loop C loc ps s
      else if loc p then init_loop C loc ps s
      else if p \<in> set (remote_caches s) then init_loop C loc ps s
      else case cap_alloc C (mem s) 8 of
        Inl e \<Rightarrow> Inl e
      | Inr (q, m) \<Rightarrow> init_loop C loc ps
          (s\<lparr> remote_caches := remote_caches s @ [p],
             prealloc_cas_result := prealloc_cas_result s @ [q], mem := m \<rparr>))"

definition cache_init ::
  "'m capability \<Rightarrow> (rptr \<Rightarrow> bool) \<Rightarrow> u64 list \<Rightarrow> nat \<Rightarrow> 'm cache \<Rightarrow> cache_err + 'm cache" where
  "cache_init C loc peer_roots expected_length s =
     (case init_loop C loc peer_roots s of
        Inl e \<Rightarrow> Inl e
      | Inr s' \<Rightarrow>
          if length (remote_caches s') \<noteq> expected_length
          then Inl (WrongPeerCount (length (remote_caches s')) expected_length) else Inr s')"

fun destroy_lines :: "'m capability \<Rightarrow> cline list \<Rightarrow> 'm cache \<Rightarrow> cache_err + 'm cache" where
  "destroy_lines C [] s = Inr s"
| "destroy_lines C (l # ls) s =
     (if \<not> refs s (ref_counter l) \<le> 1 then Inl (LiveReferences (refs s (ref_counter l)))
      else if local_ptr l \<noteq> 0 then
        (case cap_free C (mem s) (local_ptr l) (lsize l) of
           Inl e \<Rightarrow> Inl e
         | Inr m \<Rightarrow> destroy_lines C ls (s\<lparr> mem := m \<rparr>))
      else destroy_lines C ls s)"

fun free_cas_results :: "'m capability \<Rightarrow> rptr list \<Rightarrow> 'm cache \<Rightarrow> cache_err + 'm cache" where
  "free_cas_results C [] s = Inr s"
| "free_cas_results C (q # qs) s =
     (case cap_free C (mem s) q (8 * 8) of
        Inl e \<Rightarrow> Inl e
      | Inr m \<Rightarrow> free_cas_results C qs (s\<lparr> mem := m \<rparr>))"

definition cache_destroy :: "'m capability \<Rightarrow> 'm cache \<Rightarrow> cache_err + 'm cache" where
  "cache_destroy C s =
     (case destroy_lines C (lines s) s of
        Inl e \<Rightarrow> Inl e
      | Inr s1 \<Rightarrow>
          (case cap_free C (mem s1) (origin_address s1) (64 * int (length (lines s1))) of
             Inl e \<Rightarrow> Inl e
           | Inr m \<Rightarrow> free_cas_results C (prealloc_cas_result s1) (s1\<lparr> mem := m \<rparr>)))"

fun free_all_loop :: "'m capability \<Rightarrow> dealloc_task list \<Rightarrow> 'm cache \<Rightarrow> cache_err + 'm cache" where
  "free_all_loop C [] s = Inr (s\<lparr> dealloc_pool := [] \<rparr>)"
| "free_all_loop C (t # ts) s =
     (if \<not> refs s (t_ref t) \<le> 1 then Inl (LiveReferences (refs s (t_ref t)))
      else if t_ptr t = 0 then free_all_loop C ts s
      else case cap_free C (mem s) (t_ptr t) (t_size t) of
        Inl e \<Rightarrow> Inl e
      | Inr m \<Rightarrow> free_all_loop C ts (s\<lparr> mem := m \<rparr>))"

definition free_all_tmp_objects :: "'m capability \<Rightarrow> 'm cache \<Rightarrow> cache_err + 'm cache" where
  "free_all_tmp_objects C s = free_all_loop C (dealloc_pool s) s"

section \<open>Statistics\<close>

definition calculate_bytes :: "'m cache \<Rightarrow> int" where
  "calculate_bytes s = sum_list (map (\<lambda>l. if address l \<noteq> 0 then lsize l else 0) (lines s))"

definition count_empty_lines :: "'m cache \<Rightarrow> int \<times> 'm cache" where
  "count_empty_lines s =
     (let n = int (length (filter (\<lambda>l. address l = 0) (lines s))) in
      (n, s\<lparr> metrics := (metrics s)\<lparr> empty_lines := n \<rparr> \<rparr>))"

definition reset_metrics :: "'m cache \<Rightarrow> 'm cache" where
  "reset_metrics s = s\<lparr> metrics := CacheMetrics \<rparr>"

definition bump :: "(cache_metrics \<Rightarrow> cache_metrics) \<Rightarrow> 'm cache \<Rightarrow> 'm cache" where
  "bump f s = s\<lparr> metrics := f (metrics s) \<rparr>"

section \<open>Reading\<close>

text \<open>
  A shared handle is returned with the counter raised before the line is unlocked
  (line 443).
\<close>

definition share_line :: "rptr \<Rightarrow> nat \<Rightarrow> 'm cache \<Rightarrow> cobj \<times> 'm cache" where
  "share_line ptr i s =
     (let l = lines s ! i; r = ref_counter l in
      (cobj_shared (mark_ptr ptr) (local_ptr l) r, s\<lparr> refs := (refs s)(r := refs s r + 1) \<rparr>))"

text \<open>The new copy replaces the old one: lines 368 to 373 and 425 to 430.\<close>

definition install_line ::
  "'m capability \<Rightarrow> nat \<Rightarrow> rptr \<Rightarrow> int \<Rightarrow> int \<Rightarrow> 'm cache \<Rightarrow> cache_err + 'm cache" where
  "install_line C i data sz prio s =
     (let l = lines s ! i in
      case handle_free C (local_ptr l) (lsize l) (ref_counter l) s of
        Inl e \<Rightarrow> Inl e
      | Inr s1 \<Rightarrow>
          (case fetch_ref s1 of (r, s2) \<Rightarrow>
             Inr (set_line i (\<lambda>l. l\<lparr> local_ptr := data, lsize := sz, priority := prio,
                                    ref_counter := r \<rparr>)
                    (s2\<lparr> refs := (refs s2)(r := 1) \<rparr>))))"

definition coherence_miss ::
  "'m capability \<Rightarrow> nat \<Rightarrow> rptr \<Rightarrow> int \<Rightarrow> int \<Rightarrow> 'm cache \<Rightarrow> cache_err + (cobj \<times> 'm cache)" where
  "coherence_miss C i ptr bytes prio s =
     (let s1 = set_line i (\<lambda>l. l\<lparr> address := unmark_ptr (address l) \<rparr>) s in
      case cap_read C (mem s1) ptr bytes 0 of
        Inl e \<Rightarrow> Inl e
      | Inr (data, m) \<Rightarrow>
          if lsize (lines s1 ! i) \<noteq> bytes then Inl (SizeMismatch (lsize (lines s1 ! i)) bytes)
          else (case install_line C i data bytes prio (s1\<lparr> mem := m \<rparr>) of
             Inl e \<Rightarrow> Inl e
           | Inr s2 \<Rightarrow> Inr (share_line ptr i (bump (\<lambda>t. t\<lparr> remote_reads := remote_reads t + 1,
               coherence_misses := coherence_misses t + 1 \<rparr>) s2))))"

definition cache_hit ::
  "nat \<Rightarrow> rptr \<Rightarrow> int \<Rightarrow> 'm cache \<Rightarrow> cache_err + (cobj \<times> 'm cache)" where
  "cache_hit i ptr bytes s =
     (if lsize (lines s ! i) \<noteq> bytes then Inl (SizeMismatch (lsize (lines s ! i)) bytes)
      else Inr (share_line ptr i (bump (\<lambda>t. t\<lparr> hits := hits t + 1 \<rparr>) s)))"

definition conflict_miss ::
  "'m capability \<Rightarrow> nat \<Rightarrow> rptr \<Rightarrow> int \<Rightarrow> int \<Rightarrow> 'm cache \<Rightarrow> cache_err + (cobj \<times> 'm cache)" where
  "conflict_miss C i ptr bytes prio s =
     (let old_address = address (lines s ! i);
          s1 = set_line i (\<lambda>l. l\<lparr> address := ptr \<rparr>) s in
      case cap_read C (mem s1) ptr bytes 0 of
        Inl e \<Rightarrow> Inl e
      | Inr (data, m) \<Rightarrow>
          (case install_line C i data bytes prio (s1\<lparr> mem := m \<rparr>) of
             Inl e \<Rightarrow> Inl e
           | Inr s2 \<Rightarrow> Inr (share_line ptr i (bump (\<lambda>t.
               if old_address \<noteq> 0
               then t\<lparr> remote_reads := remote_reads t + 1, conflict_misses := conflict_misses t + 1 \<rparr>
               else t\<lparr> remote_reads := remote_reads t + 1, cold_misses := cold_misses t + 1 \<rparr>) s2))))"

definition unmarked_execution ::
  "'m capability \<Rightarrow> rptr \<Rightarrow> int \<Rightarrow> rptr \<Rightarrow> 'm cache \<Rightarrow> cache_err + (cobj \<times> 'm cache)" where
  "unmarked_execution C ptr_m bytes prealloc s =
     (case cap_read C (mem s) (unmark_ptr ptr_m) bytes prealloc of
        Inl e \<Rightarrow> Inl e
      | Inr (result, m) \<Rightarrow>
          Inr (cobj_temp ptr_m result (result, prealloc, bytes),
               bump (\<lambda>t. t\<lparr> remote_reads := remote_reads t + 1, allocation := allocation t + 1 \<rparr>)
                 (s\<lparr> mem := m \<rparr>)))"

definition ExtendedRead ::
  "rdma_env \<Rightarrow> 'm capability \<Rightarrow> rptr \<Rightarrow> int \<Rightarrow> int \<Rightarrow> rptr \<Rightarrow> int \<Rightarrow> 'm cache \<Rightarrow>
     cache_err + (cobj \<times> 'm cache)" where
  "ExtendedRead E C ptr_m sz sizeof_T prealloc prio s0 =
     (case try_free_some C s0 of
        Inl e \<Rightarrow> Inl e
      | Inr s \<Rightarrow>
          let bytes = sz * sizeof_T in
          if is_marked ptr_m then
            let ptr = unmark_ptr ptr_m; i = line_index E s ptr; l = lines s ! i in
            if unmark_ptr (address l) = ptr then
              if is_marked (address l) then coherence_miss C i ptr bytes prio s
              else cache_hit i ptr bytes s
            else if priority l < prio then
              unmarked_execution C ptr_m bytes prealloc
                (bump (\<lambda>t. t\<lparr> priority_misses := priority_misses t + 1 \<rparr>) s)
            else conflict_miss C i ptr bytes prio s
          else unmarked_execution C ptr_m bytes prealloc s)"

definition Read ::
  "rdma_env \<Rightarrow> 'm capability \<Rightarrow> rptr \<Rightarrow> int \<Rightarrow> rptr \<Rightarrow> int \<Rightarrow> 'm cache \<Rightarrow>
     cache_err + (cobj \<times> 'm cache)" where
  "Read E C ptr_m sizeof_T prealloc prio s = ExtendedRead E C ptr_m 1 sizeof_T prealloc prio s"

section \<open>Writing and invalidating\<close>

fun invalidate_remote ::
  "'m capability \<Rightarrow> nat \<Rightarrow> rptr \<Rightarrow> bool \<Rightarrow> rptr list \<Rightarrow> 'm cache \<Rightarrow> 'm cache" where
  "invalidate_remote C h ptr ack [] s = s"
| "invalidate_remote C h ptr ack (rt # rts) s =
     (case cap_cas C (mem s) (remote_line rt h) ptr (ptr OR ptr_mask) of
        (old, m) \<Rightarrow> invalidate_remote C h ptr ack rts
          (bump (\<lambda>t. t\<lparr> remote_cas := remote_cas t + 1,
                        successful_invalidations := successful_invalidations t +
                          (if ack \<and> old = ptr then 1 else 0) \<rparr>) (s\<lparr> mem := m \<rparr>)))"

definition invalidate ::
  "rdma_env \<Rightarrow> 'm capability \<Rightarrow> nat \<Rightarrow> rptr \<Rightarrow> bool \<Rightarrow> 'm cache \<Rightarrow> 'm cache" where
  "invalidate E C i ptr ack s =
     (let s1 = set_line i (\<lambda>l. if unmark_ptr (address l) = ptr
                              then l\<lparr> address := address l OR ptr_mask \<rparr> else l) s in
      invalidate_remote C (line_index E s1 ptr) ptr ack (remote_caches s1) s1)"

definition Write ::
  "rdma_env \<Rightarrow> 'm capability \<Rightarrow> rptr \<Rightarrow> u64 \<Rightarrow> rptr \<Rightarrow> bool \<Rightarrow> 'm cache \<Rightarrow> cache_err + 'm cache" where
  "Write E C p val prealloc ack s =
     (if is_marked p then
        let ptr = unmark_ptr p in
        (case cap_write C (mem s) ptr val prealloc of
           Inl e \<Rightarrow> Inl e
         | Inr m \<Rightarrow> Inr (invalidate E C (line_index E s ptr) ptr ack
             (bump (\<lambda>t. t\<lparr> remote_writes := remote_writes t + 1 \<rparr>) (s\<lparr> mem := m \<rparr>))))
      else
        (case cap_write C (mem s) p val prealloc of
           Inl e \<Rightarrow> Inl e
         | Inr m \<Rightarrow> Inr (bump (\<lambda>t. t\<lparr> remote_writes := remote_writes t + 1 \<rparr>) (s\<lparr> mem := m \<rparr>))))"

definition Invalidate :: "rdma_env \<Rightarrow> 'm capability \<Rightarrow> rptr \<Rightarrow> 'm cache \<Rightarrow> 'm cache" where
  "Invalidate E C p s =
     (if \<not> is_marked p then s
      else let ptr = unmark_ptr p in invalidate E C (line_index E s ptr) ptr True s)"

end
