(* ===== verification/CacheSafety.thy ===== *)
theory CacheSafety
  imports CacheStore "HOL-Library.Multiset"
begin

text \<open>
  Memory safety of the object cache. The invariant relates the reference counters, the
  lines, the deferred frees, the counter pool, the live handles and the objects the memory
  pool has handed out:
  \<^item> every counter is used once: by one line, by one deferred free, or it is in the pool;
  \<^item> the counter of a filled line is one more than the number of handles on it, the counter
    of a deferred free is exactly that number;
  \<^item> every object owned by a line, a deferred free or a temporary handle is allocated with
    the size it will be freed with, and no two owners share an object.
  Under it no operation fails an assertion of the pool, and no object is freed while a handle
  refers to it.
\<close>

section \<open>The invariant\<close>

text \<open>
  An owner is a counter, an object and a size. \<open>Ls\<close> are the owners among the lines,
  kept as a parameter so that a line can be taken out while its object is replaced.
\<close>

type_synonym owner = "nat \<times> rptr \<times> int"

definition line_owner :: "cline \<Rightarrow> owner" where
  "line_owner l = (ref_counter l, local_ptr l, lsize l)"

definition task_owner :: "dealloc_task \<Rightarrow> owner" where
  "task_owner t = (t_ref t, t_ptr t, t_size t)"

definition task_owners :: "'m cache \<Rightarrow> owner list" where
  "task_owners s = map task_owner (dealloc_pool s)"

definition owned_objs :: "owner list \<Rightarrow> 'm cache \<Rightarrow> cobj list \<Rightarrow> (rptr \<times> int) list" where
  "owned_objs Ls s H =
     filter (\<lambda>(p, n). p \<noteq> 0) (map snd Ls) @ map snd (task_owners s) @ temps H"

definition counters_ok :: "owner list \<Rightarrow> 'm cache \<Rightarrow> cobj list \<Rightarrow> bool" where
  "counters_ok Ls s H \<longleftrightarrow>
     distinct (map fst Ls @ map fst (task_owners s) @ reference_pool s) \<and>
     (\<forall>r \<in> fst ` set Ls \<union> fst ` set (task_owners s) \<union> set (reference_pool s). r < next_ref s) \<and>
     (\<forall>(r, p, n) \<in> set Ls. refs s r = (if p = 0 then 0 else 1 + int (hcount H r)) \<and>
                           (p = 0 \<longrightarrow> hcount H r = 0)) \<and>
     (\<forall>(r, p, n) \<in> set (task_owners s). refs s r = int (hcount H r))"

definition handles_ok :: "owner list \<Rightarrow> 'm cache \<Rightarrow> cobj list \<Rightarrow> bool" where
  "handles_ok Ls s H \<longleftrightarrow>
     (\<forall>h \<in> set H. cobj_wf h \<and>
        (\<forall>r. ref_count h = Some r \<longrightarrow>
           (\<exists>n. (r, obj h, n) \<in> set Ls \<union> set (task_owners s)) \<and> obj h \<noteq> 0))"

definition objects_ok ::
  "('m \<Rightarrow> rptr \<Rightarrow> int option) \<Rightarrow> owner list \<Rightarrow> 'm cache \<Rightarrow> cobj list \<Rightarrow> bool" where
  "objects_ok owned Ls s H \<longleftrightarrow>
     distinct (map fst (owned_objs Ls s H)) \<and>
     (\<forall>(p, n) \<in> set (owned_objs Ls s H). p \<noteq> 0 \<and> owned (mem s) p = Some n)"

definition core ::
  "('m \<Rightarrow> bool) \<Rightarrow> ('m \<Rightarrow> rptr \<Rightarrow> int option) \<Rightarrow> owner list \<Rightarrow> 'm cache \<Rightarrow> cobj list \<Rightarrow> bool" where
  "core ok owned Ls s H \<longleftrightarrow>
     ok (mem s) \<and> counters_ok Ls s H \<and> handles_ok Ls s H \<and> objects_ok owned Ls s H"

definition cache_inv ::
  "('m \<Rightarrow> bool) \<Rightarrow> ('m \<Rightarrow> rptr \<Rightarrow> int option) \<Rightarrow> 'm cache \<Rightarrow> cobj list \<Rightarrow> bool" where
  "cache_inv ok owned s H \<longleftrightarrow>
     core ok owned (map line_owner (lines s)) s H \<and>
     0 < length (lines s) \<and> length (lines s) < 2 ^ 31 \<and>
     (\<forall>l \<in> set (lines s). local_ptr l = 0 \<longrightarrow> unmark_ptr (address l) = 0)"

lemmas core_defs = core_def counters_ok_def handles_ok_def objects_ok_def owned_objs_def

lemma owner_simps [simp]:
  "fst (line_owner l) = ref_counter l" "snd (line_owner l) = (local_ptr l, lsize l)"
  "fst (task_owner t) = t_ref t" "snd (task_owner t) = (t_ptr t, t_size t)"
  by (simp_all add: line_owner_def task_owner_def)

text \<open>The order of the line owners does not matter.\<close>

lemma core_perm:
  assumes "mset Ls = mset Ls'"
  shows "core ok owned Ls s H \<longleftrightarrow> core ok owned Ls' s H"
proof -
  let ?f = "\<lambda>L. filter (\<lambda>(p, n). p \<noteq> (0 :: rptr)) (map snd (L :: owner list))"
  have s: "set Ls = set Ls'" using assms by (rule mset_eq_setD)
  have f: "mset (?f Ls) = mset (?f Ls')"
    by (simp add: assms)
  have "mset (map fst Ls @ map fst (task_owners s) @ reference_pool s) =
        mset (map fst Ls' @ map fst (task_owners s) @ reference_pool s)"
    by (simp add: assms)
  then have d: "distinct (map fst Ls @ map fst (task_owners s) @ reference_pool s) \<longleftrightarrow>
             distinct (map fst Ls' @ map fst (task_owners s) @ reference_pool s)"
    by (rule mset_eq_imp_distinct_iff)
  have "mset (map fst (owned_objs Ls s H)) = mset (map fst (owned_objs Ls' s H))"
    by (simp only: owned_objs_def mset_map mset_append f)
  then have o1: "distinct (map fst (owned_objs Ls s H)) \<longleftrightarrow> distinct (map fst (owned_objs Ls' s H))"
    by (rule mset_eq_imp_distinct_iff)
  have o2: "set (owned_objs Ls s H) = set (owned_objs Ls' s H)"
    using s by (simp add: owned_objs_def)
  show ?thesis
    unfolding core_def counters_ok_def handles_ok_def objects_ok_def d o1 o2 s ..
qed

section \<open>The building blocks keep the invariant\<close>

text \<open>Fields a step on counters and frees does not touch.\<close>

definition same_frame :: "'m cache \<Rightarrow> 'm cache \<Rightarrow> bool" where
  "same_frame s s' \<longleftrightarrow>
     lines s' = lines s \<and> remote_caches s' = remote_caches s \<and> metrics s' = metrics s \<and>
     origin_address s' = origin_address s \<and> prealloc_cas_result s' = prealloc_cas_result s"

lemma same_frame_refl [simp]: "same_frame s s"
  by (simp add: same_frame_def)

lemma same_frame_trans [trans]: "same_frame s t \<Longrightarrow> same_frame t u \<Longrightarrow> same_frame s u"
  by (simp add: same_frame_def)

lemma same_frame_upd [simp]:
  "same_frame s (t\<lparr> refs := R \<rparr>) = same_frame s t"
  "same_frame s (t\<lparr> mem := m \<rparr>) = same_frame s t"
  "same_frame s (t\<lparr> dealloc_pool := d \<rparr>) = same_frame s t"
  "same_frame s (release_ref r t) = same_frame s t"
  "same_frame s (t\<lparr> reference_pool := q \<rparr>) = same_frame s t"
  "same_frame s (t\<lparr> next_ref := n \<rparr>) = same_frame s t"
  by (simp_all add: same_frame_def release_ref_def)

lemma same_frameD:
  "same_frame s s' \<Longrightarrow> lines s' = lines s"
  "same_frame s s' \<Longrightarrow> remote_caches s' = remote_caches s"
  "same_frame s s' \<Longrightarrow> metrics s' = metrics s"
  "same_frame s s' \<Longrightarrow> origin_address s' = origin_address s"
  by (simp_all add: same_frame_def)

lemma owner_ref_ne: "r \<notin> fst ` set L \<Longrightarrow> (x, q, k) \<in> set L \<Longrightarrow> x \<noteq> r"
  by force

lemma obj_ne: "p \<notin> fst ` set L \<Longrightarrow> (q, k) \<in> set L \<Longrightarrow> q \<noteq> p"
  by force

lemma counters_okD:
  assumes "counters_ok ((r, p, n) # Ls) s H"
  shows "r \<notin> fst ` set Ls" "r \<notin> fst ` set (task_owners s)" "r \<notin> set (reference_pool s)"
    "r < next_ref s" "distinct (map fst Ls @ map fst (task_owners s) @ reference_pool s)"
    "fst ` set Ls \<inter> fst ` set (task_owners s) = {}"
  using assms by (auto simp: counters_ok_def)

lemma hcount_no_owner:
  assumes "handles_ok Ls s H" and "r \<notin> fst ` set Ls \<union> fst ` set (task_owners s)"
  shows "hcount H r = 0"
proof -
  have "ref_count h \<noteq> Some r" if "h \<in> set H" for h
  proof
    assume "ref_count h = Some r"
    with assms(1) that obtain n where "(r, obj h, n) \<in> set Ls \<union> set (task_owners s)"
      by (auto simp: handles_ok_def)
    then have "r \<in> fst ` set Ls \<union> fst ` set (task_owners s)" by force
    with assms(2) show False ..
  qed
  then show ?thesis by (simp add: hcount_0_iff)
qed

text \<open>Nor does the order of the handles.\<close>

lemma hcount_remove1:
  "h \<in> set H \<Longrightarrow> hcount (h # remove1 h H) r = hcount H r"
  by (induction H) auto

lemma temps_remove1: "h \<in> set H \<Longrightarrow> mset (temps (h # remove1 h H)) = mset (temps H)"
  by (induction H) (auto simp del: temps_simps(2) simp: temps_def)

lemma core_perm_handles:
  assumes "h \<in> set H"
  shows "core ok owned Ls s H \<longleftrightarrow> core ok owned Ls s (h # remove1 h H)" (is "_ \<longleftrightarrow> core _ _ _ _ ?H")
proof -
  have "mset ?H = mset H" using assms by simp
  then have s: "set ?H = set H" by (rule mset_eq_setD)
  have hc: "hcount ?H r = hcount H r" for r using assms by (rule hcount_remove1)
  have t: "mset (temps ?H) = mset (temps H)" using assms by (rule temps_remove1)
  then have "mset (map fst (owned_objs Ls s ?H)) = mset (map fst (owned_objs Ls s H))"
    by (simp only: owned_objs_def map_append mset_append mset_map)
  then have o1: "distinct (map fst (owned_objs Ls s ?H)) \<longleftrightarrow> distinct (map fst (owned_objs Ls s H))"
    by (rule mset_eq_imp_distinct_iff)
  have o2: "set (owned_objs Ls s ?H) = set (owned_objs Ls s H)"
    using mset_eq_setD [OF t] by (simp only: owned_objs_def set_append)
  show ?thesis
    unfolding core_def counters_ok_def handles_ok_def objects_ok_def o1 o2 s hc ..
qed

lemma uncounted_handle:
  assumes "ref_count h = None"
  shows "counters_ok Ls s (h # H) = counters_ok Ls s H"
proof -
  have "hcount (h # H) r = hcount H r" for r using assms by simp
  then show ?thesis unfolding counters_ok_def by (simp only:)
qed

context memory_pool
begin

text \<open>Freeing an owned object that nobody counts on.\<close>

lemma core_free:
  assumes c: "core ok owned ((r, p, n) # Ls) s H" and p: "p \<noteq> 0" and h: "hcount H r = 0"
    and R: "\<And>x. x \<noteq> r \<Longrightarrow> R x = refs s x"
  shows "\<exists>m. cap_free C (mem s) p n = Inr m \<and>
             core ok owned Ls (release_ref r (s\<lparr> refs := R, mem := m \<rparr>)) H"
proof -
  from c p have "owned (mem s) p = Some n" and ok: "ok (mem s)"
    by (auto simp: core_defs)
  from free_owned [OF ok p this(1)] obtain m where
    m: "cap_free C (mem s) p n = Inr m" "ok m" "owned m = (owned (mem s))(p := None)" by blast
  have nr: "\<forall>h\<in>set H. ref_count h \<noteq> Some r" using h by (simp add: hcount_0_iff)
  let ?s = "release_ref r (s\<lparr> refs := R, mem := m \<rparr>)"
  have co: "counters_ok ((r, p, n) # Ls) s H" using c by (simp add: core_def)
  have ne: "x \<noteq> r" if "(x, q, k) \<in> set Ls \<or> (x, q, k) \<in> set (task_owners s)" for x q k
    using that counters_okD(1,2) [OF co] by (auto dest: owner_ref_ne)
  have eqs: "task_owners ?s = task_owners s" "reference_pool ?s = reference_pool s @ [r]"
    "next_ref ?s = next_ref s" "refs ?s = R"
    by (simp_all add: release_ref_def pool_release_def task_owners_def)
  have "counters_ok Ls ?s H"
    unfolding counters_ok_def eqs
  proof (intro conjI)
    show "distinct (map fst Ls @ map fst (task_owners s) @ reference_pool s @ [r])"
      using co by (auto simp: counters_ok_def)
    show "\<forall>r'\<in>fst ` set Ls \<union> fst ` set (task_owners s) \<union> set (reference_pool s @ [r]). r' < next_ref s"
      using co by (auto simp: counters_ok_def)
    show "\<forall>(r, p, n)\<in>set Ls. R r = (if p = 0 then 0 else 1 + int (hcount H r)) \<and>
        (p = 0 \<longrightarrow> hcount H r = 0)"
      using co ne R by (fastforce simp: counters_ok_def)
    show "\<forall>(r, p, n)\<in>set (task_owners s). R r = int (hcount H r)"
      using co ne R by (fastforce simp: counters_ok_def)
  qed
  moreover have "handles_ok Ls ?s H"
    using c nr by (fastforce simp: core_def handles_ok_def release_ref_def task_owners_def)
  moreover have "objects_ok owned Ls ?s H"
  proof -
    have sub: "owned_objs ((r, p, n) # Ls) s H = (p, n) # owned_objs Ls ?s H"
      using p by (simp add: owned_objs_def eqs)
    have ob: "objects_ok owned ((r, p, n) # Ls) s H" using c by (simp add: core_def)
    then have "p \<notin> fst ` set (owned_objs Ls ?s H)" by (simp add: objects_ok_def sub)
    then show ?thesis
      using ob m(3) by (auto simp: objects_ok_def sub release_ref_def dest: obj_ne)
  qed
  ultimately show ?thesis using m by (simp add: core_def release_ref_def)
qed

text \<open>The first deferred free seen as a line owner.\<close>

lemma core_task_as_line:
  assumes "core ok owned Ls s H" and "dealloc_pool s = t # ts"
  shows "core ok owned (task_owner t # Ls)
           (s\<lparr> dealloc_pool := ts, refs := (refs s)(t_ref t := 1 + int (hcount H (t_ref t))) \<rparr>) H"
proof -
  let ?s = "s\<lparr> dealloc_pool := ts, refs := (refs s)(t_ref t := 1 + int (hcount H (t_ref t))) \<rparr>"
  have T: "task_owners s = task_owner t # task_owners ?s"
    using assms(2) by (simp add: task_owners_def)
  have t0: "t_ptr t \<noteq> 0" using assms T by (auto simp: core_defs)
  have co: "counters_ok Ls s H" using assms(1) by (simp add: core_def)
  then have "t_ref t \<notin> fst ` set Ls" "t_ref t \<notin> fst ` set (task_owners ?s)"
    by (auto simp: counters_ok_def T)
  then have ne: "x \<noteq> t_ref t"
    if "(x, q, k) \<in> set Ls \<or> (x, q, k) \<in> set (task_owners ?s)" for x q k
    using that by (auto dest: owner_ref_ne)
  have "counters_ok (task_owner t # Ls) ?s H"
    unfolding counters_ok_def
  proof (intro conjI)
    show "distinct (map fst (task_owner t # Ls) @ map fst (task_owners ?s) @ reference_pool ?s)"
      using co by (auto simp: counters_ok_def T)
    show "\<forall>r\<in>fst ` set (task_owner t # Ls) \<union> fst ` set (task_owners ?s) \<union> set (reference_pool ?s).
        r < next_ref ?s"
      using co by (auto simp: counters_ok_def T)
    show "\<forall>(r, p, n)\<in>set (task_owner t # Ls).
        refs ?s r = (if p = 0 then 0 else 1 + int (hcount H r)) \<and> (p = 0 \<longrightarrow> hcount H r = 0)"
      using co ne t0 by (fastforce simp: counters_ok_def task_owner_def)
    show "\<forall>(r, p, n)\<in>set (task_owners ?s). refs ?s r = int (hcount H r)"
      using co ne by (fastforce simp: counters_ok_def T)
  qed
  moreover have "handles_ok (task_owner t # Ls) ?s H"
    using assms(1) by (fastforce simp: core_def handles_ok_def T)
  moreover have "objects_ok owned (task_owner t # Ls) ?s H"
    using assms(1) t0 by (auto simp: core_def objects_ok_def owned_objs_def T)
  ultimately show ?thesis using assms(1) by (simp add: core_def)
qed

text \<open>\<open>try_free_some\<close> keeps the invariant and never fails.\<close>

lemma core_rotate_tasks:
  assumes "core ok owned Ls s H" and "dealloc_pool s = t # ts"
  shows "core ok owned Ls (s\<lparr> dealloc_pool := pool_release ts t \<rparr>) H"
  using assms
  by (auto simp: core_def counters_ok_def handles_ok_def objects_ok_def owned_objs_def
      task_owners_def pool_release_def)

lemma free_loop_core:
  assumes "core ok owned Ls s H" and "dealloc_pool s = ts"
  shows "\<exists>s'. free_loop C ts s = Inr s' \<and> core ok owned Ls s' H \<and> same_frame s s'"
  using assms
proof (induction ts arbitrary: s)
  case Nil
  then have e: "s\<lparr> dealloc_pool := [] \<rparr> = s" by simp
  show ?case using Nil(1) by (simp add: e)
next
  case (Cons t ts)
  show ?case
  proof (cases "refs s (t_ref t) = 0")
    case False
    with core_rotate_tasks [OF Cons.prems] show ?thesis by simp
  next
    case True
    let ?u = "s\<lparr> dealloc_pool := ts, refs := (refs s)(t_ref t := 1 + int (hcount H (t_ref t))) \<rparr>"
    have h: "hcount H (t_ref t) = 0" and p: "t_ptr t \<noteq> 0"
      using Cons.prems True by (auto simp: core_defs task_owners_def task_owner_def)
    have "core ok owned ((t_ref t, t_ptr t, t_size t) # Ls) ?u H"
      using core_task_as_line [OF Cons.prems] by (simp add: task_owner_def)
    from core_free [OF this p h, of "refs s"] obtain m where
      m: "cap_free C (mem s) (t_ptr t) (t_size t) = Inr m"
        "core ok owned Ls (release_ref (t_ref t) (s\<lparr> dealloc_pool := ts, mem := m \<rparr>)) H"
      by (auto simp: release_ref_def)
    from Cons.IH [OF m(2)] m(1) True show ?thesis
      by (auto simp: release_ref_def same_frame_def)
  qed
qed

lemma try_free_some_core:
  assumes "core ok owned Ls s H"
  shows "\<exists>s'. try_free_some C s = Inr s' \<and> core ok owned Ls s' H \<and> same_frame s s'"
  unfolding try_free_some_def by (rule free_loop_core [OF assms refl])

text \<open>\<open>handle_free\<close> takes the owner out of the lines.\<close>

lemma core_defer:
  assumes c: "core ok owned ((r, p, n) # Ls) s H" and p: "p \<noteq> 0"
  shows "core ok owned Ls (s\<lparr> refs := (refs s)(r := refs s r - 1),
           dealloc_pool := pool_release (dealloc_pool s)
             \<lparr> t_ptr = p, t_size = n, t_ref = r \<rparr> \<rparr>) H" (is "core ok owned Ls ?s H")
proof -
  have co: "counters_ok ((r, p, n) # Ls) s H" using c by (simp add: core_def)
  have T: "task_owners ?s = task_owners s @ [(r, p, n)]"
    by (simp add: task_owners_def pool_release_def task_owner_def)
  have ne: "x \<noteq> r" if "(x, q, k) \<in> set Ls \<or> (x, q, k) \<in> set (task_owners s)" for x q k
    using that counters_okD(1,2) [OF co] by (auto dest: owner_ref_ne)
  have rr: "refs s r = 1 + int (hcount H r)" using co p by (auto simp: counters_ok_def)
  have "counters_ok Ls ?s H"
    unfolding counters_ok_def T
  proof (intro conjI)
    show "distinct (map fst Ls @ map fst (task_owners s @ [(r, p, n)]) @ reference_pool ?s)"
      using co by (auto simp: counters_ok_def)
    show "\<forall>r'\<in>fst ` set Ls \<union> fst ` set (task_owners s @ [(r, p, n)]) \<union> set (reference_pool ?s).
        r' < next_ref ?s"
      using co by (auto simp: counters_ok_def)
    show "\<forall>(r, p, n)\<in>set Ls. refs ?s r = (if p = 0 then 0 else 1 + int (hcount H r)) \<and>
        (p = 0 \<longrightarrow> hcount H r = 0)"
      using co ne by (fastforce simp: counters_ok_def)
    show "\<forall>(r, p, n)\<in>set (task_owners s @ [(r, p, n)]). refs ?s r = int (hcount H r)"
      using co ne rr by (fastforce simp: counters_ok_def)
  qed
  moreover have "handles_ok Ls ?s H"
    using c unfolding handles_ok_def T by (fastforce simp: core_def handles_ok_def)
  moreover have "objects_ok owned Ls ?s H"
    using c p by (auto simp: core_def objects_ok_def owned_objs_def T)
  ultimately show ?thesis using c by (simp add: core_def)
qed

lemma core_drop_empty:
  assumes c: "core ok owned ((r, 0, n) # Ls) s H"
  shows "core ok owned Ls (release_ref r (s\<lparr> refs := (refs s)(r := k) \<rparr>)) H"
    (is "core ok owned Ls ?s H")
proof -
  have co: "counters_ok ((r, 0, n) # Ls) s H" using c by (simp add: core_def)
  have eqs: "task_owners ?s = task_owners s" "reference_pool ?s = reference_pool s @ [r]"
    "next_ref ?s = next_ref s" "refs ?s = (refs s)(r := k)" "mem ?s = mem s"
    by (simp_all add: release_ref_def pool_release_def task_owners_def)
  have ne: "x \<noteq> r" if "(x, q, k) \<in> set Ls \<or> (x, q, k) \<in> set (task_owners s)" for x q k
    using that counters_okD(1,2) [OF co] by (auto dest: owner_ref_ne)
  have "counters_ok Ls ?s H"
    unfolding counters_ok_def eqs
  proof (intro conjI)
    show "distinct (map fst Ls @ map fst (task_owners s) @ reference_pool s @ [r])"
      using co by (auto simp: counters_ok_def)
    show "\<forall>r'\<in>fst ` set Ls \<union> fst ` set (task_owners s) \<union> set (reference_pool s @ [r]). r' < next_ref s"
      using co by (auto simp: counters_ok_def)
    show "\<forall>(r', p, n)\<in>set Ls. ((refs s)(r := k)) r' = (if p = 0 then 0 else 1 + int (hcount H r')) \<and>
        (p = 0 \<longrightarrow> hcount H r' = 0)"
      using co ne by (fastforce simp: counters_ok_def)
    show "\<forall>(r', p, n)\<in>set (task_owners s). ((refs s)(r := k)) r' = int (hcount H r')"
      using co ne by (fastforce simp: counters_ok_def)
  qed
  moreover have "handles_ok Ls ?s H"
    using c unfolding handles_ok_def eqs by (fastforce simp: core_def handles_ok_def)
  moreover have "objects_ok owned Ls ?s H"
    using c unfolding objects_ok_def owned_objs_def eqs by (simp add: core_def objects_ok_def owned_objs_def)
  ultimately show ?thesis using c by (simp add: core_def eqs)
qed

lemma handle_free_core:
  assumes c: "core ok owned ((r, p, n) # Ls) s H"
  shows "\<exists>s'. handle_free C p n r s = Inr s' \<and> core ok owned Ls s' H \<and> same_frame s s'"
proof (cases "p = 0")
  case True
  with c core_drop_empty [of r n Ls s H "refs s r - 1"] show ?thesis
    by (auto simp: handle_free_def Let_def)
next
  case False
  then have rr: "refs s r = 1 + int (hcount H r)" using c by (auto simp: core_defs)
  show ?thesis
  proof (cases "hcount H r = 0")
    case True
    from core_free [OF c False True, of "(refs s)(r := refs s r - 1)"] rr True False show ?thesis
      by (auto simp: handle_free_def Let_def)
  next
    case nz: False
    with core_defer [OF c False] False rr show ?thesis
      by (simp add: handle_free_def Let_def)
  qed
qed

text \<open>A fetched counter and a fresh object make a new owner.\<close>

lemma fetch_ref_core:
  assumes c: "core ok owned Ls s H" and f: "fetch_ref s = (r, s2)"
    and p: "p \<noteq> 0 \<Longrightarrow> owned (mem s) p = Some n" "p \<noteq> 0 \<Longrightarrow> p \<notin> fst ` set (owned_objs Ls s H)"
    and k: "k = (if p = 0 then 0 else 1)"
  shows "core ok owned ((r, p, n) # Ls) (s2\<lparr> refs := (refs s2)(r := k) \<rparr>) H \<and> same_frame s s2"
    (is "core ok owned ?Ls ?s H \<and> _")
proof -
  have co: "counters_ok Ls s H" using c by (simp add: core_def)
  have F: "task_owners s2 = task_owners s" "mem s2 = mem s" "same_frame s s2"
    and R: "\<And>x. x \<noteq> r \<Longrightarrow> refs s2 x = refs s x"
    using f by (auto simp: fetch_ref_def pool_fetch_def ref_generator_def task_owners_def
        same_frame_def Let_def split: list.splits)
  have D: "r \<notin> fst ` set Ls \<union> fst ` set (task_owners s) \<and> r < next_ref s2 \<and>
      next_ref s \<le> next_ref s2 \<and> distinct (r # reference_pool s2) \<and>
      set (reference_pool s2) \<subseteq> set (reference_pool s)"
  proof (cases "reference_pool s")
    case Nil
    with f have "r = next_ref s" "next_ref s2 = Suc r" "reference_pool s2 = []"
      by (auto simp: fetch_ref_def pool_fetch_def ref_generator_def)
    moreover from this co have "r \<notin> fst ` set Ls \<union> fst ` set (task_owners s)"
      unfolding counters_ok_def by (meson UnI1 less_irrefl)
    ultimately show ?thesis by simp
  next
    case (Cons x xs)
    with f have "r = x" "next_ref s2 = next_ref s" "reference_pool s2 = xs"
      by (auto simp: fetch_ref_def pool_fetch_def)
    with co Cons show ?thesis by (auto simp: counters_ok_def)
  qed
  note D = D [THEN conjunct1] D [THEN conjunct2, THEN conjunct1]
    D [THEN conjunct2, THEN conjunct2, THEN conjunct1]
    D [THEN conjunct2, THEN conjunct2, THEN conjunct2, THEN conjunct1]
    D [THEN conjunct2, THEN conjunct2, THEN conjunct2, THEN conjunct2]
  have h: "hcount H r = 0"
    using hcount_no_owner [of Ls s H r] c D(1) by (simp add: core_def)
  have ne: "x \<noteq> r" if "(x, q, k) \<in> set Ls \<or> (x, q, k) \<in> set (task_owners s)" for x q k
    using that D(1) by (auto dest: owner_ref_ne)
  have eqs: "task_owners ?s = task_owners s" "reference_pool ?s = reference_pool s2"
    "next_ref ?s = next_ref s2" "refs ?s = (refs s2)(r := k)" "mem ?s = mem s"
    using F by (simp_all add: task_owners_def)
  have "counters_ok ?Ls ?s H"
    unfolding counters_ok_def eqs
  proof (intro conjI)
    show "distinct (map fst ?Ls @ map fst (task_owners s) @ reference_pool s2)"
      using co D by (auto simp: counters_ok_def)
    show "\<forall>r'\<in>fst ` set ?Ls \<union> fst ` set (task_owners s) \<union> set (reference_pool s2). r' < next_ref s2"
    proof
      fix x assume "x \<in> fst ` set ?Ls \<union> fst ` set (task_owners s) \<union> set (reference_pool s2)"
      then have "x = r \<or> x < next_ref s" using co D(5) by (auto simp: counters_ok_def)
      then show "x < next_ref s2" using D(2,3) by auto
    qed
    show "\<forall>(r', p, n)\<in>set ?Ls. ((refs s2)(r := k)) r' = (if p = 0 then 0 else 1 + int (hcount H r')) \<and>
        (p = 0 \<longrightarrow> hcount H r' = 0)"
      using co ne R h k by (fastforce simp: counters_ok_def)
    show "\<forall>(r', p, n)\<in>set (task_owners s). ((refs s2)(r := k)) r' = int (hcount H r')"
      using co ne R by (fastforce simp: counters_ok_def)
  qed
  moreover have "handles_ok ?Ls ?s H"
    using c unfolding handles_ok_def eqs by (fastforce simp: core_def handles_ok_def)
  moreover have "objects_ok owned ?Ls ?s H"
  proof -
    have "owned_objs ?Ls ?s H = (if p = 0 then [] else [(p, n)]) @ owned_objs Ls s H"
      by (simp add: owned_objs_def eqs)
    then show ?thesis using c p by (simp add: core_def objects_ok_def eqs)
  qed
  ultimately show ?thesis using c F by (simp add: core_def)
qed

text \<open>Reading into a new object: nothing owned before is touched.\<close>

lemma core_new_object:
  assumes c: "core ok owned Ls s H" and m: "ok m" "owned (mem s) q = None"
    "owned m = (owned (mem s))(q \<mapsto> n)"
  shows "core ok owned Ls (s\<lparr> mem := m \<rparr>) H \<and> q \<notin> fst ` set (owned_objs Ls s H)"
proof -
  have q: "q \<notin> fst ` set (owned_objs Ls s H)"
    using c m(2) by (force simp: core_def objects_ok_def)
  have e: "owned_objs Ls (s\<lparr> mem := m \<rparr>) H = owned_objs Ls s H"
    by (simp add: owned_objs_def task_owners_def)
  have "objects_ok owned Ls (s\<lparr> mem := m \<rparr>) H"
    using c m(3) q unfolding objects_ok_def e
    by (auto simp: core_def objects_ok_def dest: obj_ne)
  then show ?thesis using c m(1) q
    by (simp add: core_def counters_ok_def handles_ok_def task_owners_def)
qed

lemma core_same_owned:
  assumes "core ok owned Ls s H" and "ok m" "owned m = owned (mem s)"
  shows "core ok owned Ls (s\<lparr> mem := m \<rparr>) H"
  using assms by (simp add: core_defs task_owners_def)

text \<open>A new shared handle is counted.\<close>

lemma core_share:
  assumes c: "core ok owned Ls s H" and l: "(r, p, n) \<in> set Ls" "p \<noteq> 0"
  shows "core ok owned Ls (s\<lparr> refs := (refs s)(r := refs s r + 1) \<rparr>) (cobj_shared a p r # H)"
    (is "core ok owned Ls ?s ?H")
proof -
  have co: "counters_ok Ls s H" using c by (simp add: core_def)
  have T: "task_owners ?s = task_owners s" by (simp add: task_owners_def)
  have nt: "r \<notin> fst ` set (task_owners s)" using co l by (force simp: counters_ok_def)
  have np: "q \<noteq> 0" if "(r, q, k) \<in> set Ls" for q k
    using eq_key_imp_eq_value [of Ls r "(q, k)" "(p, n)"] co that l by (simp add: counters_ok_def)
  have "counters_ok Ls ?s ?H"
    unfolding counters_ok_def T
  proof (intro conjI)
    show "distinct (map fst Ls @ map fst (task_owners s) @ reference_pool ?s)"
      using co by (simp add: counters_ok_def)
    show "\<forall>r\<in>fst ` set Ls \<union> fst ` set (task_owners s) \<union> set (reference_pool ?s). r < next_ref ?s"
      using co by (simp add: counters_ok_def)
    show "\<forall>(r', p, n)\<in>set Ls. refs ?s r' = (if p = 0 then 0 else 1 + int (hcount ?H r')) \<and>
        (p = 0 \<longrightarrow> hcount ?H r' = 0)"
      using co np by (fastforce simp: counters_ok_def)
    show "\<forall>(r', p, n)\<in>set (task_owners s). refs ?s r' = int (hcount ?H r')"
      using co nt by (fastforce simp: counters_ok_def dest: owner_ref_ne)
  qed
  moreover have "handles_ok Ls ?s ?H"
    using c l unfolding handles_ok_def T by (fastforce simp: core_def handles_ok_def)
  moreover have "objects_ok owned Ls ?s ?H"
    using c by (simp add: core_def objects_ok_def owned_objs_def task_owners_def)
  ultimately show ?thesis using c by (simp add: core_def)
qed

text \<open>A dropped handle, of either kind.\<close>

lemma drop_ref_core:
  assumes c: "core ok owned Ls s (h # H)" and r: "ref_count h = Some r" and t: "temp h = False"
  shows "\<exists>s'. drop_ref r s = Inr s' \<and> core ok owned Ls s' H \<and> same_frame s s'"
proof -
  let ?s = "s\<lparr> refs := (refs s)(r := refs s r - 1) \<rparr>"
  have co: "counters_ok Ls s (h # H)" and ho: "handles_ok Ls s (h # H)"
    using c by (simp_all add: core_def)
  from ho r obtain n where own: "(r, obj h, n) \<in> set Ls \<union> set (task_owners s)" and "obj h \<noteq> 0"
    by (auto simp: handles_ok_def)
  then have pos: "1 \<le> refs s r"
    using co r by (fastforce simp: counters_ok_def)
  have T: "task_owners ?s = task_owners s" by (simp add: task_owners_def)
  have "counters_ok Ls ?s H"
    unfolding counters_ok_def T
  proof (intro conjI)
    show "distinct (map fst Ls @ map fst (task_owners s) @ reference_pool ?s)"
      using co by (simp add: counters_ok_def)
    show "\<forall>r\<in>fst ` set Ls \<union> fst ` set (task_owners s) \<union> set (reference_pool ?s). r < next_ref ?s"
      using co by (simp add: counters_ok_def)
    show "\<forall>(r', p, n)\<in>set Ls. refs ?s r' = (if p = 0 then 0 else 1 + int (hcount H r')) \<and>
        (p = 0 \<longrightarrow> hcount H r' = 0)"
      using co r by (fastforce simp: counters_ok_def)
    show "\<forall>(r', p, n)\<in>set (task_owners s). refs ?s r' = int (hcount H r')"
      using co r by (fastforce simp: counters_ok_def)
  qed
  moreover have "handles_ok Ls ?s H" using ho by (simp add: handles_ok_def T)
  moreover have "objects_ok owned Ls ?s H"
    using c t by (auto simp: core_def objects_ok_def owned_objs_def T split: option.splits if_splits)
  ultimately have "core ok owned Ls ?s H" using c by (simp add: core_def)
  then show ?thesis using pos by (simp add: drop_ref_def Let_def)
qed

lemma core_tempD:
  assumes c: "core ok owned Ls s (h # H)" and t: "temp h"
    and d: "dealloc h = Some (q, pre, n)" and q: "q \<noteq> pre"
  shows "core ok owned Ls s H" "owned (mem s) q = Some n" "q \<noteq> 0"
    "q \<notin> fst ` set (owned_objs Ls s H)"
proof -
  have nr: "ref_count h = None" using c t by (auto simp: core_def handles_ok_def cobj_wf_def)
  have co: "counters_ok Ls s H" and ho: "handles_ok Ls s H"
    using c nr by (simp_all add: core_def uncounted_handle handles_ok_def)
  have ms: "mset (owned_objs Ls s (h # H)) = mset ((q, n) # owned_objs Ls s H)"
    using t d q by (simp add: owned_objs_def)
  have eq: "mset (map fst (owned_objs Ls s (h # H))) = mset (map fst ((q, n) # owned_objs Ls s H))"
    by (simp only: mset_map ms)
  have st: "set (owned_objs Ls s (h # H)) = set ((q, n) # owned_objs Ls s H)"
    using ms by (rule mset_eq_setD)
  have dist: "distinct (map fst ((q, n) # owned_objs Ls s H))"
    using c mset_eq_imp_distinct_iff [OF eq] by (simp add: core_def objects_ok_def)
  have all: "\<forall>(p, k) \<in> set ((q, n) # owned_objs Ls s H). p \<noteq> 0 \<and> owned (mem s) p = Some k"
    using c st by (simp add: core_def objects_ok_def)
  from all dist show "owned (mem s) q = Some n" "q \<noteq> 0"
    "q \<notin> fst ` set (owned_objs Ls s H)" by simp_all
  from all dist have "objects_ok owned Ls s H" by (simp add: objects_ok_def)
  with c co ho show "core ok owned Ls s H" by (simp add: core_def)
qed

text \<open>A temporary handle on a fresh object.\<close>

lemma core_new_temp:
  assumes c: "core ok owned Ls s H" and m: "ok m" "owned (mem s) q = None"
    "owned m = (owned (mem s))(q \<mapsto> n)" and q: "q \<noteq> 0" "q \<noteq> pre"
  shows "core ok owned Ls (s\<lparr> mem := m \<rparr>) (cobj_temp a q (q, pre, n) # H)"
proof -
  let ?s = "s\<lparr> mem := m \<rparr>" and ?h = "cobj_temp a q (q, pre, n)"
  have c': "core ok owned Ls ?s H" and nq: "q \<notin> fst ` set (owned_objs Ls s H)"
    using core_new_object [OF c m] by simp_all
  have T: "owned_objs Ls ?s H = owned_objs Ls s H"
    by (simp add: owned_objs_def task_owners_def)
  have ms: "mset (owned_objs Ls ?s (?h # H)) = mset ((q, n) # owned_objs Ls ?s H)"
    using q by (simp add: owned_objs_def)
  have eq: "mset (map fst (owned_objs Ls ?s (?h # H))) = mset (map fst ((q, n) # owned_objs Ls ?s H))"
    by (simp only: mset_map ms)
  have st: "set (owned_objs Ls ?s (?h # H)) = set ((q, n) # owned_objs Ls ?s H)"
    using ms by (rule mset_eq_setD)
  have "objects_ok owned Ls ?s H" using c' by (simp add: core_def)
  then have "distinct (map fst (owned_objs Ls ?s (?h # H)))"
    and "\<forall>(p, k) \<in> set (owned_objs Ls ?s (?h # H)). p \<noteq> 0 \<and> owned (mem ?s) p = Some k"
    using nq q m(3) by (simp_all add: mset_eq_imp_distinct_iff [OF eq] st objects_ok_def T)
  then have "objects_ok owned Ls ?s (?h # H)" by (simp add: objects_ok_def)
  then show ?thesis using c'
    by (simp add: core_def uncounted_handle handles_ok_def)
qed

lemma drop_temp_core:
  assumes c: "core ok owned Ls s (h # H)" and t: "temp h"
  shows "\<exists>s'. cobj_destroy C h s = Inr s' \<and> core ok owned Ls s' H \<and> same_frame s s'"
proof (cases "temps [h]")
  case Nil
  have nr: "ref_count h = None" using c t by (auto simp: core_def handles_ok_def cobj_wf_def)
  have "cobj_destroy C h s = Inr s"
    using t Nil by (auto simp: cobj_destroy_def run_dealloc_def split: option.splits if_splits)
  moreover have "owned_objs Ls s (h # H) = owned_objs Ls s H"
    using Nil by (auto simp: owned_objs_def)
  ultimately show ?thesis using c nr
    by (auto simp: core_def objects_ok_def uncounted_handle handles_ok_def)
next
  case (Cons x xs)
  then obtain q pre n where d: "dealloc h = Some (q, pre, n)" and q: "q \<noteq> pre"
    by (auto split: option.splits if_splits)
  note D = core_tempD [OF c t d q]
  have ok: "ok (mem s)" and co: "counters_ok Ls s H" and ho: "handles_ok Ls s H"
    and ob: "objects_ok owned Ls s H"
    using D(1) by (simp_all add: core_def)
  from free_owned [OF ok D(3) D(2)] obtain m where
    m: "cap_free C (mem s) q n = Inr m" "ok m" "owned m = (owned (mem s))(q := None)" by blast
  let ?s = "s\<lparr> mem := m \<rparr>"
  have e: "owned_objs Ls ?s H = owned_objs Ls s H"
    by (simp add: owned_objs_def task_owners_def)
  have "objects_ok owned Ls ?s H"
    using D(4) m(3) ob unfolding objects_ok_def e by (auto dest: obj_ne)
  then have "core ok owned Ls ?s H"
    using co ho m(2) by (simp add: core_def counters_ok_def handles_ok_def task_owners_def)
  then show ?thesis using m(1) t d q by (simp add: cobj_destroy_def run_dealloc_def)
qed

lemma cobj_destroy_core:
  assumes c: "core ok owned Ls s H" and h: "h \<in> set H"
  shows "\<exists>s'. cobj_destroy C h s = Inr s' \<and> core ok owned Ls s' (remove1 h H) \<and> same_frame s s'"
proof -
  have c': "core ok owned Ls s (h # remove1 h H)" using c core_perm_handles [OF h] by blast
  show ?thesis
  proof (cases "temp h")
    case True
    with drop_temp_core [OF c'] show ?thesis by simp
  next
    case False
    show ?thesis
    proof (cases "ref_count h")
      case None
      then have "counters_ok Ls s (remove1 h H)" "handles_ok Ls s (remove1 h H)"
        using c' by (simp_all add: core_def uncounted_handle handles_ok_def)
      moreover have "owned_objs Ls s (h # remove1 h H) = owned_objs Ls s (remove1 h H)"
        using False by (simp add: owned_objs_def split: option.splits)
      ultimately have "core ok owned Ls s (remove1 h H)"
        using c' by (simp add: core_def objects_ok_def)
      with None False show ?thesis by (auto simp: cobj_destroy_def)
    next
      case (Some r)
      with drop_ref_core [OF c' Some] False show ?thesis by (simp add: cobj_destroy_def)
    qed
  qed
qed

lemma install_line_core:
  assumes c: "core ok owned (map line_owner (lines s)) s (cobj_temp a q (q, 0, n) # H)"
    and i: "i < length (lines s)" and q: "q \<noteq> 0"
  shows "\<exists>s' r. install_line C i q n prio s = Inr s' \<and>
     core ok owned (map line_owner (lines s')) s' H \<and>
     lines s' = (lines s)[i := (lines s ! i)\<lparr> local_ptr := q, lsize := n, priority := prio,
                                           ref_counter := r \<rparr>] \<and>
     metrics s' = metrics s \<and> remote_caches s' = remote_caches s"
proof -
  let ?h = "cobj_temp a q (q, 0, n)" and ?l = "lines s ! i"
  define R where "R = map line_owner (take i (lines s)) @ map line_owner (drop (Suc i) (lines s))"
  have split_upd: "mset (map line_owner ((lines s)[i := x])) = mset (line_owner x # R)" for x
    using i by (simp add: upd_conv_take_nth_drop R_def)
  have "mset (map line_owner (lines s)) = mset (line_owner ?l # R)"
    using split_upd [of ?l] by simp
  then have "core ok owned ((ref_counter ?l, local_ptr ?l, lsize ?l) # R) s (?h # H)"
    using c core_perm by (metis line_owner_def)
  from handle_free_core [OF this] obtain s1 where
    s1: "handle_free C (local_ptr ?l) (lsize ?l) (ref_counter ?l) s = Inr s1"
      "core ok owned R s1 (?h # H)" "same_frame s s1" by blast
  have t: "temp ?h" "dealloc ?h = Some (q, 0, n)" by simp_all
  note D = core_tempD [OF s1(2) t q]
  obtain r s2 where f: "fetch_ref s1 = (r, s2)" by fastforce
  let ?l' = "?l\<lparr> local_ptr := q, lsize := n, priority := prio, ref_counter := r \<rparr>"
  let ?s2 = "s2\<lparr> refs := (refs s2)(r := 1) \<rparr>"
  have F: "core ok owned ((r, q, n) # R) ?s2 H" "same_frame s1 s2"
    using fetch_ref_core [OF D(1) f D(2) D(4), of 1] q by simp_all
  from same_frame_trans [OF s1(3) F(2)] have
    S: "lines s2 = lines s" "metrics s2 = metrics s" "remote_caches s2 = remote_caches s"
    by (simp_all add: same_frameD)
  let ?s3 = "set_line i (\<lambda>l. l\<lparr> local_ptr := q, lsize := n, priority := prio, ref_counter := r \<rparr>) ?s2"
  have L: "lines ?s3 = (lines s)[i := ?l']" by (simp add: set_line_def S)
  have "line_owner ?l' = (r, q, n)" by (simp add: line_owner_def)
  then have "mset (map line_owner (lines ?s3)) = mset ((r, q, n) # R)"
    using split_upd [of ?l'] L by simp
  moreover have "core ok owned ((r, q, n) # R) ?s3 H"
    using F(1) by (simp add: core_defs set_line_def task_owners_def)
  ultimately have "core ok owned (map line_owner (lines ?s3)) ?s3 H"
    using core_perm by blast
  moreover have "install_line C i q n prio s = Inr ?s3"
    using s1(1) f by (simp add: install_line_def Let_def)
  ultimately show ?thesis using L S by (auto simp: set_line_def)
qed

lemma core_frame:
  assumes "core ok owned Ls s H" and "mem s' = mem s" "dealloc_pool s' = dealloc_pool s"
    "reference_pool s' = reference_pool s" "next_ref s' = next_ref s" "refs s' = refs s"
  shows "core ok owned Ls s' H"
  using assms by (simp add: core_defs task_owners_def)

lemma share_line_core:
  assumes c: "core ok owned (map line_owner (lines s)) s H"
    and i: "i < length (lines s)" and l: "local_ptr (lines s ! i) \<noteq> 0"
    and sh: "share_line ptr i s = (h, s')"
  shows "core ok owned (map line_owner (lines s')) s' (h # H) \<and> lines s' = lines s \<and>
         metrics s' = metrics s \<and> remote_caches s' = remote_caches s \<and> mem s' = mem s \<and>
         obj h = local_ptr (lines s ! i) \<and> parent h = mark_ptr ptr \<and> \<not> temp h"
proof -
  let ?l = "lines s ! i"
  have "(ref_counter ?l, local_ptr ?l, lsize ?l) \<in> set (map line_owner (lines s))"
    using i by (auto simp: line_owner_def)
  from core_share [OF c this l] sh show ?thesis
    by (auto simp: share_line_def Let_def)
qed

lemma miss_core:
  assumes c: "core ok owned (map line_owner (lines s)) s H"
    and i: "i < length (lines s)" and a: "ok m" "owned (mem s) q = None"
    "owned m = (owned (mem s))(q \<mapsto> n)" "q \<noteq> 0"
  shows "\<exists>s2 r. install_line C i q n prio (s\<lparr> mem := m \<rparr>) = Inr s2 \<and>
     (\<forall>f. case share_line ptr i (bump f s2) of (h, s') \<Rightarrow>
        core ok owned (map line_owner (lines s')) s' (h # H) \<and>
        lines s' = (lines s)[i := (lines s ! i)\<lparr> local_ptr := q, lsize := n, priority := prio,
                                           ref_counter := r \<rparr>] \<and>
        metrics s' = f (metrics s) \<and> remote_caches s' = remote_caches s \<and>
        obj h = q \<and> parent h = mark_ptr ptr \<and> \<not> temp h)"
proof -
  have "core ok owned (map line_owner (lines (s\<lparr> mem := m \<rparr>))) (s\<lparr> mem := m \<rparr>)
          (cobj_temp 0 q (q, 0, n) # H)"
    using core_new_temp [OF c a(1-3) a(4) a(4)] by simp
  from install_line_core [OF this _ a(4), of i prio] i obtain s2 r where
    s2: "install_line C i q n prio (s\<lparr> mem := m \<rparr>) = Inr s2"
      "core ok owned (map line_owner (lines s2)) s2 H"
      "lines s2 = (lines s)[i := (lines s ! i)\<lparr> local_ptr := q, lsize := n, priority := prio,
                                           ref_counter := r \<rparr>]"
      "metrics s2 = metrics s" "remote_caches s2 = remote_caches s" by auto
  have "case share_line ptr i (bump f s2) of (h, s') \<Rightarrow>
        core ok owned (map line_owner (lines s')) s' (h # H) \<and>
        lines s' = lines s2 \<and> metrics s' = f (metrics s) \<and> remote_caches s' = remote_caches s \<and>
        obj h = q \<and> parent h = mark_ptr ptr \<and> \<not> temp h" for f
  proof -
    have "core ok owned (map line_owner (lines s2)) (bump f s2) H"
      using s2(2) by (rule core_frame) (simp_all add: bump_def)
    then have C: "core ok owned (map line_owner (lines (bump f s2))) (bump f s2) H"
      by (simp add: bump_def)
    have B: "lines (bump f s2) = lines s2" "metrics (bump f s2) = f (metrics s)"
      "remote_caches (bump f s2) = remote_caches s"
      using s2(4,5) by (simp_all add: bump_def)
    have I: "i < length (lines (bump f s2))" "local_ptr (lines (bump f s2) ! i) = q"
      using i by (simp_all add: B s2(3))
    obtain h s' where sh: "share_line ptr i (bump f s2) = (h, s')" by fastforce
    from I(2) a(4) have "local_ptr (lines (bump f s2) ! i) \<noteq> 0" by simp
    note X = share_line_core [OF C I(1) this sh, unfolded I(2), unfolded B]
    from X show ?thesis unfolding sh prod.case by blast
  qed
  with s2(1,3) show ?thesis by (intro exI [of _ s2] exI [of _ r]) simp
qed

end

end
