(* ===== verification/CacheProps.thy ===== *)
theory CacheProps
  imports CacheSafety
begin

text \<open>
  The operations of \<open>cache_store.h\<close> and \<open>cached_ptr.h\<close> keep the invariant of the
  theory CacheSafety: no assertion of the memory pool or of the reference counters fails, on
  any branch of a read, a write, an invalidation, or of destroying or assigning a handle.
\<close>

section \<open>Lines\<close>

lemma line_index_less:
  assumes "0 < length (lines s)" and "length (lines s) < 2 ^ 31"
  shows "line_index E s p < length (lines s)"
proof -
  have "unat (of_nat (length (lines s)) :: u64) = length (lines s)"
    using assms(2) by (simp add: unat_of_nat take_bit_nat_eq_self)
  then show ?thesis using assms(1)
    by (simp add: line_index_def cache_hash_def unat_mod)
qed

text \<open>Changing only tag or address words of a line does not change what it owns.\<close>

lemma core_set_address:
  assumes "core ok owned (map line_owner (lines s)) s H"
  shows "core ok owned (map line_owner (lines (set_line i (\<lambda>l. l\<lparr> address := f l \<rparr>) s)))
           (set_line i (\<lambda>l. l\<lparr> address := f l \<rparr>) s) H"
proof -
  have "map line_owner ((lines s)[i := (lines s ! i)\<lparr> address := a \<rparr>]) = map line_owner (lines s)" for a
    by (cases "i < length (lines s)")
      (auto simp: map_update line_owner_def intro!: nth_equalityI simp: nth_list_update)
  then show ?thesis using assms
    by (simp add: core_defs set_line_def task_owners_def)
qed

lemma null_lines_upd:
  assumes "\<forall>l \<in> set ls. local_ptr l = 0 \<longrightarrow> unmark_ptr (address l) = 0"
    and "local_ptr x = 0 \<longrightarrow> unmark_ptr (address x) = 0"
  shows "\<forall>l \<in> set (ls[i := x]). local_ptr l = 0 \<longrightarrow> unmark_ptr (address l) = 0"
  using assms set_update_subset_insert [of ls i x] by blast

section \<open>Reads\<close>

text \<open>What a read that returns leaves: the handle is live, and exactly one counter says how
  the read was served.\<close>

definition read_post ::
  "('m \<Rightarrow> bool) \<Rightarrow> ('m \<Rightarrow> rptr \<Rightarrow> int option) \<Rightarrow> 'm cache \<Rightarrow> cobj list \<Rightarrow> cobj \<times> 'm cache \<Rightarrow> bool" where
  "read_post ok owned s H r \<longleftrightarrow>
     (case r of (h, s') \<Rightarrow>
        cache_inv ok owned s' (h # H) \<and> length (lines s') = length (lines s) \<and>
        served (metrics s') = served (metrics s) + 1 \<and>
        (reads_accounted (metrics s) \<longrightarrow> reads_accounted (metrics s')))"

text \<open>The ways a read aborts: no memory for the copy, or the caller asks for the object with
  another size than the one it was cached with.\<close>

definition read_abort :: "cache_err \<Rightarrow> bool" where
  "read_abort e \<longleftrightarrow> e = OutOfMemory \<or> (\<exists>a b. e = SizeMismatch a b)"

lemma read_abort_simps [simp]: "read_abort OutOfMemory" "read_abort (SizeMismatch a b)"
  by (simp_all add: read_abort_def)

lemmas metric_defs = served_def reads_accounted_def

context memory_pool
begin

lemma cache_invD:
  assumes "cache_inv ok owned s H"
  shows "core ok owned (map line_owner (lines s)) s H" "ok (mem s)" "0 < length (lines s)"
    "length (lines s) < 2 ^ 31"
    "\<forall>l \<in> set (lines s). local_ptr l = 0 \<longrightarrow> unmark_ptr (address l) = 0"
    "line_index E s p < length (lines s)"
  using assms line_index_less [of s E p] by (simp_all add: cache_inv_def core_def)

lemma cache_inv_same_frame:
  assumes "cache_inv ok owned s H" and "core ok owned (map line_owner (lines s)) s' H'"
    and "same_frame s s'"
  shows "cache_inv ok owned s' H'"
  using assms by (simp add: cache_inv_def same_frame_def)

definition uncached_post ::
  "'m cache \<Rightarrow> cobj list \<Rightarrow> cobj \<times> 'm cache \<Rightarrow> bool" where
  "uncached_post s H r \<longleftrightarrow>
     (case r of (h, s') \<Rightarrow>
        cache_inv ok owned s' (h # H) \<and> length (lines s') = length (lines s) \<and>
        metrics s' = (metrics s)\<lparr> remote_reads := remote_reads (metrics s) + 1,
                                  allocation := allocation (metrics s) + 1 \<rparr>)"

lemma unmarked_execution_post:
  assumes inv: "cache_inv ok owned s H" and p: "unmark_ptr ptr \<noteq> 0" "prealloc \<noteq> unmark_ptr ptr"
  shows "case unmarked_execution C ptr bytes prealloc s of
           Inl e \<Rightarrow> read_abort e | Inr r \<Rightarrow> uncached_post s H r"
proof -
  note I = cache_invD [OF inv]
  let ?f = "\<lambda>t. t\<lparr> remote_reads := remote_reads t + 1, allocation := allocation t + 1 \<rparr>"
  have post: "uncached_post s H (cobj_temp ptr q (q, prealloc, bytes), bump ?f (s\<lparr> mem := m \<rparr>))"
    if c: "core ok owned (map line_owner (lines s)) (s\<lparr> mem := m \<rparr>)
             (cobj_temp ptr q (q, prealloc, bytes) # H)" for q m
  proof -
    have "core ok owned (map line_owner (lines s)) (bump ?f (s\<lparr> mem := m \<rparr>))
             (cobj_temp ptr q (q, prealloc, bytes) # H)"
      using c by (rule core_frame) (simp_all add: bump_def)
    then have "cache_inv ok owned (bump ?f (s\<lparr> mem := m \<rparr>)) (cobj_temp ptr q (q, prealloc, bytes) # H)"
      using I(3-5) by (simp add: cache_inv_def bump_def)
    then show ?thesis by (simp add: uncached_post_def bump_def)
  qed
  show ?thesis
  proof (cases "prealloc = 0")
    case True
    show ?thesis
    proof (cases "cap_read C (mem s) (unmark_ptr ptr) bytes 0")
      case (Inl e)
      with True read_new_err [OF I(2) p(1) Inl] show ?thesis by (simp add: unmarked_execution_def)
    next
      case (Inr r)
      then obtain q m where r: "cap_read C (mem s) (unmark_ptr ptr) bytes 0 = Inr (q, m)"
        by (cases r) simp
      note R = read_new [OF I(2) p(1) r]
      from core_new_temp [OF I(1), of m q bytes prealloc ptr] R True
      have "core ok owned (map line_owner (lines s)) (s\<lparr> mem := m \<rparr>)
              (cobj_temp ptr q (q, prealloc, bytes) # H)" by simp
      from post [OF this] r True show ?thesis by (simp add: unmarked_execution_def)
    qed
  next
    case False
    from read_into [OF I(2) p(1) False p(2), of bytes] obtain m where
      m: "cap_read C (mem s) (unmark_ptr ptr) bytes prealloc = Inr (prealloc, m)" "ok m"
        "owned m = owned (mem s)" by blast
    have "core ok owned (map line_owner (lines s)) (s\<lparr> mem := m \<rparr>) H"
      using core_same_owned [OF I(1) m(2,3)] .
    moreover have "owned_objs (map line_owner (lines s)) (s\<lparr> mem := m \<rparr>)
        (cobj_temp ptr prealloc (prealloc, prealloc, bytes) # H) =
        owned_objs (map line_owner (lines s)) (s\<lparr> mem := m \<rparr>) H"
      by (simp add: owned_objs_def)
    ultimately have "core ok owned (map line_owner (lines s)) (s\<lparr> mem := m \<rparr>)
        (cobj_temp ptr prealloc (prealloc, prealloc, bytes) # H)"
      by (simp add: core_def objects_ok_def uncounted_handle handles_ok_def)
    from post [OF this] m(1) show ?thesis by (simp add: unmarked_execution_def)
  qed
qed

text \<open>The two misses differ in the address they leave and in the counter they raise.\<close>

lemma miss_post:
  assumes inv: "cache_inv ok owned s H" and i: "i < length (lines s)" and p: "ptr \<noteq> 0"
    and s1: "s1 = set_line i (\<lambda>l. l\<lparr> address := a \<rparr>) s"
    and r: "cap_read C (mem s1) ptr bytes 0 = Inr (q, m)"
    and f: "\<And>t. served (f t) = served t + 1" "\<And>t. reads_accounted t \<Longrightarrow> reads_accounted (f t)"
  shows "\<exists>s2. install_line C i q bytes prio (s1\<lparr> mem := m \<rparr>) = Inr s2 \<and>
             read_post ok owned s H (share_line ptr i (bump f s2))"
proof -
  note I = cache_invD [OF inv]
  have L1: "lines s1 = (lines s)[i := (lines s ! i)\<lparr> address := a \<rparr>]" "mem s1 = mem s"
    "metrics s1 = metrics s" "remote_caches s1 = remote_caches s"
    by (simp_all add: s1 set_line_def)
  have c1: "core ok owned (map line_owner (lines s1)) s1 H"
    using core_set_address [OF I(1), of i "\<lambda>_. a"] by (simp add: s1)
  have i1: "i < length (lines s1)" using i by (simp add: L1)
  note R = read_new [OF I(2) p r [unfolded L1]]
  have R1: "ok m" "owned (mem s1) q = None" "owned m = (owned (mem s1))(q \<mapsto> bytes)" "q \<noteq> 0"
    using R by (simp_all add: L1)
  from miss_core [OF c1 i1 R1, of prio ptr] obtain s2 rc where
    s2: "install_line C i q bytes prio (s1\<lparr> mem := m \<rparr>) = Inr s2"
    and sh: "case share_line ptr i (bump f s2) of (h, s') \<Rightarrow>
        core ok owned (map line_owner (lines s')) s' (h # H) \<and>
        lines s' = (lines s1)[i := (lines s1 ! i)\<lparr> local_ptr := q, lsize := bytes, priority := prio,
                                           ref_counter := rc \<rparr>] \<and>
        metrics s' = f (metrics s1) \<and> remote_caches s' = remote_caches s1 \<and>
        obj h = q \<and> parent h = mark_ptr ptr \<and> \<not> temp h"
    by (elim exE conjE) (rule that, assumption, erule spec)
  obtain h s' where e: "share_line ptr i (bump f s2) = (h, s')" by fastforce
  note sh' = sh [unfolded e prod.case L1 list_update_overwrite]
  from sh' have S: "core ok owned (map line_owner (lines s')) s' (h # H)"
    "metrics s' = f (metrics s)" by blast+
  from sh' obtain x where x: "lines s' = (lines s)[i := x]" "local_ptr x = q"
    by (elim conjE) (rule that, assumption, simp)
  have "\<forall>l \<in> set (lines s'). local_ptr l = 0 \<longrightarrow> unmark_ptr (address l) = 0"
    unfolding x(1) using I(5) by (rule null_lines_upd) (use R x(2) in simp)
  moreover have "length (lines s') = length (lines s)" by (simp add: x(1))
  ultimately have "read_post ok owned s H (h, s')"
    using S I(3,4) f by (simp add: read_post_def cache_inv_def del: length_greater_0_conv)
  with s2 e show ?thesis by simp
qed

lemma coherence_miss_post:
  assumes inv: "cache_inv ok owned s H" and i: "i < length (lines s)" and p: "ptr \<noteq> 0"
  shows "case coherence_miss C i ptr bytes prio s of
           Inl e \<Rightarrow> read_abort e | Inr r \<Rightarrow> read_post ok owned s H r"
proof -
  let ?s1 = "set_line i (\<lambda>l. l\<lparr> address := unmark_ptr (address l) \<rparr>) s"
  have s1: "?s1 = set_line i (\<lambda>l. l\<lparr> address := unmark_ptr (address (lines s ! i)) \<rparr>) s"
    by (simp add: set_line_def)
  have m: "mem ?s1 = mem s" by (simp add: set_line_def)
  show ?thesis
  proof (cases "cap_read C (mem ?s1) ptr bytes 0")
    case (Inl e)
    with read_new_err [of "mem s" ptr bytes e] cache_invD(2) [OF inv] p m show ?thesis
      by (simp add: coherence_miss_def Let_def)
  next
    case (Inr x)
    then obtain q m where r: "cap_read C (mem ?s1) ptr bytes 0 = Inr (q, m)" by (cases x) simp
    let ?f = "\<lambda>t. t\<lparr> remote_reads := remote_reads t + 1, coherence_misses := coherence_misses t + 1 \<rparr>"
    have f: "served (?f t) = served t + 1" "reads_accounted t \<Longrightarrow> reads_accounted (?f t)" for t
      by (simp_all add: metric_defs)
    from miss_post [OF inv i p s1 r f, where prio = prio] r show ?thesis
      by (auto simp: coherence_miss_def Let_def)
  qed
qed

lemma conflict_miss_post:
  assumes inv: "cache_inv ok owned s H" and i: "i < length (lines s)" and p: "ptr \<noteq> 0"
  shows "case conflict_miss C i ptr bytes prio s of
           Inl e \<Rightarrow> read_abort e | Inr r \<Rightarrow> read_post ok owned s H r"
proof -
  let ?s1 = "set_line i (\<lambda>l. l\<lparr> address := ptr \<rparr>) s"
  have m: "mem ?s1 = mem s" by (simp add: set_line_def)
  show ?thesis
  proof (cases "cap_read C (mem ?s1) ptr bytes 0")
    case (Inl e)
    with read_new_err [of "mem s" ptr bytes e] cache_invD(2) [OF inv] p m show ?thesis
      by (simp add: conflict_miss_def Let_def)
  next
    case (Inr x)
    then obtain q m where r: "cap_read C (mem ?s1) ptr bytes 0 = Inr (q, m)" by (cases x) simp
    let ?f = "\<lambda>t. if address (lines s ! i) \<noteq> 0
       then t\<lparr> remote_reads := remote_reads t + 1, conflict_misses := conflict_misses t + 1 \<rparr>
       else t\<lparr> remote_reads := remote_reads t + 1, cold_misses := cold_misses t + 1 \<rparr>"
    have f: "served (?f t) = served t + 1" "reads_accounted t \<Longrightarrow> reads_accounted (?f t)" for t
      by (simp_all add: metric_defs)
    from miss_post [OF inv i p refl r f, where prio = prio] r show ?thesis
      by (auto simp: conflict_miss_def Let_def)
  qed
qed

lemma cache_hit_post:
  assumes inv: "cache_inv ok owned s H" and i: "i < length (lines s)"
    and p: "unmark_ptr (address (lines s ! i)) = ptr" "ptr \<noteq> 0"
  shows "case cache_hit i ptr bytes s of
           Inl e \<Rightarrow> read_abort e | Inr r \<Rightarrow> read_post ok owned s H r"
proof -
  note I = cache_invD [OF inv]
  let ?f = "\<lambda>t. t\<lparr> hits := hits t + 1 \<rparr>"
  have B: "lines (bump ?f s) = lines s" "metrics (bump ?f s) = ?f (metrics s)"
    by (simp_all add: bump_def)
  have "core ok owned (map line_owner (lines s)) (bump ?f s) H"
    using I(1) by (rule core_frame) (simp_all add: bump_def)
  then have c: "core ok owned (map line_owner (lines (bump ?f s))) (bump ?f s) H"
    by (simp only: B)
  have l: "local_ptr (lines (bump ?f s) ! i) \<noteq> 0"
    using I(5) i p B nth_mem [OF i] by auto
  obtain h s' where e: "share_line ptr i (bump ?f s) = (h, s')" by fastforce
  have i': "i < length (lines (bump ?f s))" using i by (simp only: B)
  note S = share_line_core [OF c i' l e, unfolded B]
  then have L: "lines s' = lines s" by blast
  have "read_post ok owned s H (h, s')"
    using S I(3-5) unfolding L read_post_def prod.case cache_inv_def by (simp add: metric_defs)
  with e show ?thesis by (simp add: cache_hit_def)
qed

lemma ExtendedRead_post:
  assumes inv: "cache_inv ok owned s H" and p: "unmark_ptr ptr \<noteq> 0" "prealloc \<noteq> unmark_ptr ptr"
  shows "case ExtendedRead E C ptr sz szT prealloc prio s of
           Inl e \<Rightarrow> read_abort e | Inr r \<Rightarrow> read_post ok owned s H r"
proof -
  from try_free_some_core [OF cache_invD(1) [OF inv]] obtain s1 where
    t: "try_free_some C s = Inr s1" "core ok owned (map line_owner (lines s)) s1 H" "same_frame s s1"
    by blast
  have inv1: "cache_inv ok owned s1 H" using inv t(2,3) by (rule cache_inv_same_frame)
  have post: "read_post ok owned s1 H r = read_post ok owned s H r" for r
    using t(3) by (simp add: read_post_def same_frameD)
  have i: "line_index E s1 (unmark_ptr ptr) < length (lines s1)" by (rule cache_invD(6) [OF inv1])
  let ?pm = "\<lambda>t. t\<lparr> priority_misses := priority_misses t + 1 \<rparr>"
  have un: "uncached_post s1 H r \<Longrightarrow> read_post ok owned s1 H r" for r
    by (auto simp: uncached_post_def read_post_def metric_defs split: prod.splits)
  have un2: "uncached_post (bump ?pm s1) H r \<Longrightarrow> read_post ok owned s1 H r" for r
    by (auto simp: uncached_post_def read_post_def metric_defs bump_def split: prod.splits)
  have invb: "cache_inv ok owned (bump ?pm s1) H"
  proof -
    have "core ok owned (map line_owner (lines s1)) (bump ?pm s1) H"
      using cache_invD(1) [OF inv1] by (rule core_frame) (simp_all add: bump_def)
    then show ?thesis using cache_invD(3-5) [OF inv1] by (simp add: cache_inv_def bump_def)
  qed
  have E: "ExtendedRead E C ptr sz szT prealloc prio s =
      (if is_marked ptr then
         let i = line_index E s1 (unmark_ptr ptr); l = lines s1 ! i in
         if unmark_ptr (address l) = unmark_ptr ptr then
           if is_marked (address l) then coherence_miss C i (unmark_ptr ptr) (sz * szT) prio s1
           else cache_hit i (unmark_ptr ptr) (sz * szT) s1
         else if priority l < prio then
           unmarked_execution C ptr (sz * szT) prealloc (bump ?pm s1)
         else conflict_miss C i (unmark_ptr ptr) (sz * szT) prio s1
       else unmarked_execution C ptr (sz * szT) prealloc s1)"
    by (simp add: ExtendedRead_def t(1) Let_def)
  have U: "case unmarked_execution C ptr (sz * szT) prealloc s1 of
      Inl e \<Rightarrow> read_abort e | Inr r \<Rightarrow> read_post ok owned s1 H r"
    using unmarked_execution_post [OF inv1 p, of "sz * szT"] un by (auto split: sum.splits)
  have U2: "case unmarked_execution C ptr (sz * szT) prealloc (bump ?pm s1) of
      Inl e \<Rightarrow> read_abort e | Inr r \<Rightarrow> read_post ok owned s1 H r"
    using unmarked_execution_post [OF invb p, of "sz * szT"] un2 by (auto split: sum.splits)
  show ?thesis
    unfolding E post [symmetric] Let_def
    using U U2 coherence_miss_post [OF inv1 i p(1)] conflict_miss_post [OF inv1 i p(1)]
      cache_hit_post [OF inv1 i _ p(1)] by simp
qed

section \<open>Writes, invalidations and handles\<close>

lemma invalidate_remote_inv:
  assumes "cache_inv ok owned s H" and "\<forall>rt \<in> set rts. remote_line rt h \<in> W"
  shows "cache_inv ok owned (invalidate_remote C h ptr ack rts s) H"
  using assms
proof (induction rts arbitrary: s)
  case Nil
  then show ?case by simp
next
  case (Cons rt rts)
  note I = cache_invD [OF Cons.prems(1)]
  obtain m where m: "cap_cas C (mem s) (remote_line rt h) ptr (ptr OR ptr_mask) =
      (word (mem s) (remote_line rt h), m)" "ok m" "owned m = owned (mem s)"
    using cas_word [OF I(2), of "remote_line rt h" ptr "ptr OR ptr_mask"] Cons.prems(2) by auto
  let ?s = "bump (\<lambda>t. t\<lparr> remote_cas := remote_cas t + 1, successful_invalidations :=
      successful_invalidations t + (if ack \<and> word (mem s) (remote_line rt h) = ptr then 1 else 0) \<rparr>)
      (s\<lparr> mem := m \<rparr>)"
  have "core ok owned (map line_owner (lines s)) ?s H"
    by (rule core_frame [OF core_same_owned [OF I(1) m(2,3)]]) (simp_all add: bump_def)
  then have inv: "cache_inv ok owned ?s H" using I(3-5) by (simp add: cache_inv_def bump_def)
  have step: "invalidate_remote C h ptr ack (rt # rts) s = invalidate_remote C h ptr ack rts ?s"
    by (simp only: invalidate_remote.simps m(1) prod.case)
  have "\<forall>rt \<in> set rts. remote_line rt h \<in> W" using Cons.prems(2) by simp
  with inv show ?case unfolding step by (rule Cons.IH)
qed

lemma invalidate_inv:
  assumes inv: "cache_inv ok owned s H"
    and w: "\<And>rt h. rt \<in> set (remote_caches s) \<Longrightarrow> h < length (lines s) \<Longrightarrow> remote_line rt h \<in> W"
    and p: "ptr \<noteq> 0"
  shows "cache_inv ok owned (invalidate E C i ptr ack s) H"
proof -
  note I = cache_invD [OF inv]
  let ?f = "\<lambda>l. l\<lparr> address := if unmark_ptr (address l) = ptr then address l OR ptr_mask
                             else address l \<rparr>"
  have f: "(if unmark_ptr (address l) = ptr then l\<lparr> address := address l OR ptr_mask \<rparr> else l) = ?f l"
    for l :: cline by simp
  let ?s = "set_line i ?f s"
  have c: "core ok owned (map line_owner (lines ?s)) ?s H" by (rule core_set_address [OF I(1)])
  have K: "unmark_ptr (address (?f l)) = 0" if "unmark_ptr (address l) = 0" for l :: cline
    using that p by simp
  have nul: "\<forall>l \<in> set (lines ?s). local_ptr l = 0 \<longrightarrow> unmark_ptr (address l) = 0"
  proof (cases "i < length (lines s)")
    case True
    then have "lines s ! i \<in> set (lines s)" by simp
    with I(5) K have "local_ptr (?f (lines s ! i)) = 0 \<longrightarrow> unmark_ptr (address (?f (lines s ! i))) = 0"
      by fastforce
    from null_lines_upd [OF I(5) this, of i]
    have "\<forall>l \<in> set ((lines s)[i := ?f (lines s ! i)]). local_ptr l = 0 \<longrightarrow> unmark_ptr (address l) = 0" .
    moreover have "lines ?s = (lines s)[i := ?f (lines s ! i)]" by (simp add: set_line_def)
    ultimately show ?thesis by (simp only:)
  next
    case False
    then have "lines ?s = lines s" by (simp add: set_line_def not_less list_update_beyond)
    with I(5) show ?thesis by (simp only:)
  qed
  have len: "length (lines ?s) = length (lines s)" by (simp add: set_line_def)
  have rcs: "remote_caches ?s = remote_caches s" by (simp add: set_line_def)
  have inv1: "cache_inv ok owned ?s H"
    unfolding cache_inv_def len using c nul I(3,4) by blast
  have "\<forall>rt \<in> set (remote_caches ?s). remote_line rt (line_index E ?s ptr) \<in> W"
    using w cache_invD(6) [OF inv1] unfolding len rcs by blast
  from invalidate_remote_inv [OF inv1 this] show ?thesis
    by (simp only: invalidate_def f Let_def)
qed

lemma Write_inv:
  assumes inv: "cache_inv ok owned s H"
    and w: "\<And>rt h. rt \<in> set (remote_caches s) \<Longrightarrow> h < length (lines s) \<Longrightarrow> remote_line rt h \<in> W"
    and p: "unmark_ptr p \<noteq> 0" "q \<noteq> unmark_ptr p"
  shows "\<exists>s'. Write E C p v q ack s = Inr s' \<and> cache_inv ok owned s' H"
proof -
  note I = cache_invD [OF inv]
  have p2: "\<not> is_marked p \<Longrightarrow> unmark_ptr p = p" by (rule cache_mark.untag_id)
  from write_word [OF I(2) p, of v] obtain m where
    m: "cap_write C (mem s) (unmark_ptr p) v q = Inr m" "ok m" "owned m = owned (mem s)" by blast
  let ?s = "bump (\<lambda>t. t\<lparr> remote_writes := remote_writes t + 1 \<rparr>) (s\<lparr> mem := m \<rparr>)"
  have "core ok owned (map line_owner (lines s)) ?s H"
    by (rule core_frame [OF core_same_owned [OF I(1) m(2,3)]]) (simp_all add: bump_def)
  then have inv1: "cache_inv ok owned ?s H" using I(3-5) by (simp add: cache_inv_def bump_def)
  have "cache_inv ok owned (invalidate E C i (unmark_ptr p) ack ?s) H" for i
    by (rule invalidate_inv [OF inv1 _ p(1)]) (use w in \<open>simp add: bump_def\<close>)
  then show ?thesis using m(1) inv1 p2 by (cases "is_marked p") (auto simp: Write_def Let_def)
qed

lemma Invalidate_inv:
  assumes "cache_inv ok owned s H"
    and "\<And>rt h. rt \<in> set (remote_caches s) \<Longrightarrow> h < length (lines s) \<Longrightarrow> remote_line rt h \<in> W"
    and "unmark_ptr p \<noteq> 0"
  shows "cache_inv ok owned (Invalidate E C p s) H"
  using assms invalidate_inv by (simp add: Invalidate_def Let_def)

lemma cobj_destroy_inv:
  assumes "cache_inv ok owned s H" and "h \<in> set H"
  shows "\<exists>s'. cobj_destroy C h s = Inr s' \<and> cache_inv ok owned s' (remove1 h H)"
  using cobj_destroy_core [OF cache_invD(1) [OF assms(1)] assms(2)] cache_inv_same_frame [OF assms(1)]
  by blast

lemma core_add_inert:
  assumes c: "core ok owned Ls s H" and h: "ref_count h = None" "\<not> temp h"
  shows "core ok owned Ls s (h # H)"
proof -
  have "owned_objs Ls s (h # H) = owned_objs Ls s H"
    using h(2) by (simp add: owned_objs_def split: option.splits)
  then show ?thesis using c h
    by (simp add: core_def objects_ok_def uncounted_handle handles_ok_def cobj_wf_def)
qed

lemma cobj_assign_inv:
  assumes inv: "cache_inv ok owned s H" and g: "g \<in> set H" and h: "h \<in> set (remove1 g H)"
  shows "\<exists>g' h' s'. cobj_assign C g h s = Inr (g', h', s') \<and> g' = h \<and> h' = snd (cobj_move h) \<and>
           cache_inv ok owned s' (h' # remove1 g H)"
proof -
  from cobj_destroy_inv [OF inv g] obtain s' where
    s': "cobj_destroy C g s = Inr s'" "cache_inv ok owned s' (remove1 g H)" by blast
  have wf: "cobj_wf g"
    using cache_invD(1) [OF inv] g by (simp add: core_def handles_ok_def)
  let ?h = "snd (cobj_move h)"
  have m: "fst (cobj_move h) = h" "ref_count ?h = None" "\<not> temp ?h"
    by (simp_all add: cobj_move_def)
  have "core ok owned (map line_owner (lines s')) s' (?h # remove1 g H)"
    using core_add_inert [OF cache_invD(1) [OF s'(2)] m(2,3)] .
  then have "cache_inv ok owned s' (?h # remove1 g H)"
    using s'(2) by (simp add: cache_inv_def)
  then show ?thesis using s'(1) m(1) by (simp add: cobj_assign_destroy [OF wf])
qed

section \<open>A fresh cache\<close>

lemma make_lines_core:
  assumes "core ok owned (map line_owner (lines s)) s H"
    and "\<forall>l \<in> set (lines s). local_ptr l = 0 \<and> address l = 0"
  shows "core ok owned (map line_owner (lines (make_lines junk n s))) (make_lines junk n s) H \<and>
         (\<forall>l \<in> set (lines (make_lines junk n s)). local_ptr l = 0 \<and> address l = 0) \<and>
         length (lines (make_lines junk n s)) = length (lines s) + n"
  using assms
proof (induction junk n s rule: make_lines.induct)
  case (1 junk s)
  then show ?case by simp
next
  case (2 junk n s)
  obtain r s2 where f: "fetch_ref s = (r, s2)" by fastforce
  let ?l = "\<lparr> address = 0, priority = 2147483647, local_ptr = 0, lsize = junk, ref_counter = r \<rparr>"
  let ?s2 = "s2\<lparr> refs := (refs s2)(r := 0) \<rparr>"
  let ?s3 = "s2\<lparr> refs := (refs s2)(r := 0), lines := lines s2 @ [?l] \<rparr>"
  from fetch_ref_core [OF 2(2) f, of 0 junk 0] have
    c: "core ok owned ((r, 0, junk) # map line_owner (lines s)) ?s2 H" and fr: "same_frame s s2"
    by simp_all
  have L: "lines s2 = lines s" using fr by (rule same_frameD)
  have "core ok owned ((r, 0, junk) # map line_owner (lines s)) ?s3 H"
    using c by (rule core_frame) simp_all
  moreover have "mset (map line_owner (lines ?s3)) = mset ((r, 0, junk) # map line_owner (lines s))"
    by (simp add: L line_owner_def)
  ultimately have "core ok owned (map line_owner (lines ?s3)) ?s3 H" using core_perm by blast
  moreover have "\<forall>l \<in> set (lines ?s3). local_ptr l = 0 \<and> address l = 0"
    using 2(3) by (simp add: L)
  moreover have len: "length (lines ?s3) = Suc (length (lines s))" by (simp add: L)
  ultimately have "core ok owned (map line_owner (lines (make_lines junk n ?s3))) (make_lines junk n ?s3) H \<and>
         (\<forall>l \<in> set (lines (make_lines junk n ?s3)). local_ptr l = 0 \<and> address l = 0) \<and>
         length (lines (make_lines junk n ?s3)) = Suc (length (lines s)) + n"
    using 2(1) [OF f [symmetric]] by (metis)
  then show ?case by (simp add: f)
qed

lemma RemoteCacheImpl_inv:
  assumes "ok m" and "0 < n" "n < 2 ^ 31"
  shows "case RemoteCacheImpl C junk n m of
           Inl e \<Rightarrow> e = OutOfMemory
         | Inr s \<Rightarrow> cache_inv ok owned s [] \<and> length (lines s) = n"
proof (cases "cap_alloc C m (64 * int n)")
  case (Inl e)
  with alloc_err [OF assms(1) Inl] show ?thesis by (simp add: RemoteCacheImpl_def)
next
  case (Inr x)
  then obtain q m' where r: "cap_alloc C m (64 * int n) = Inr (q, m')" by (cases x) simp
  let ?s = "\<lparr> lines = [], remote_caches = [], prealloc_cas_result = [], origin_address = q,
            refs = (\<lambda>_. 0), next_ref = 0, reference_pool = [], dealloc_pool = [],
            metrics = CacheMetrics, is_leader = False, mem = m' \<rparr>"
  have "core ok owned (map line_owner (lines ?s)) ?s []"
    using alloc_fresh [OF assms(1) r] by (simp add: core_defs task_owners_def)
  from make_lines_core [OF this, of junk n] assms(2,3) r show ?thesis
    by (auto simp: RemoteCacheImpl_def cache_inv_def)
qed

end

section \<open>Properties\<close>

text \<open>A program's use of one thread's cache, as a script of operations on the cache \<open>s\<close> and
  the live handles \<open>H\<close>.\<close>

datatype cop =
    CRead rptr int int rptr int
  | CWrite rptr u64 rptr bool
  | CInvalidate rptr
  | CDrop nat
  | CAssign nat nat

definition cache_step ::
  "rdma_env \<Rightarrow> 'm capability \<Rightarrow> cop \<Rightarrow> 'm cache \<times> cobj list \<Rightarrow> cache_err + ('m cache \<times> cobj list)" where
  "cache_step E C c st =
     (case st of (s, H) \<Rightarrow>
        (case c of
           CRead p sz szT pre prio \<Rightarrow>
             (case ExtendedRead E C p sz szT pre prio s of
                Inl e \<Rightarrow> Inl e | Inr (h, s') \<Rightarrow> Inr (s', h # H))
         | CWrite p v pre ack \<Rightarrow>
             (case Write E C p v pre ack s of Inl e \<Rightarrow> Inl e | Inr s' \<Rightarrow> Inr (s', H))
         | CInvalidate p \<Rightarrow> Inr (Invalidate E C p s, H)
         | CDrop i \<Rightarrow>
             (if i < length H then
                (case cobj_destroy C (H ! i) s of
                   Inl e \<Rightarrow> Inl e | Inr s' \<Rightarrow> Inr (s', remove1 (H ! i) H))
              else Inr (s, H))
         | CAssign i j \<Rightarrow>
             (if i < length H \<and> j < length H \<and> i \<noteq> j then
                (case cobj_assign C (H ! i) (H ! j) s of
                   Inl e \<Rightarrow> Inl e | Inr (g, h, s') \<Rightarrow> Inr (s', h # remove1 (H ! i) H))
              else Inr (s, H))))"

fun cache_run ::
  "rdma_env \<Rightarrow> 'm capability \<Rightarrow> cop list \<Rightarrow> 'm cache \<times> cobj list \<Rightarrow> cache_err + ('m cache \<times> cobj list)"
where
  "cache_run E C [] st = Inr st"
| "cache_run E C (c # cs) st =
     (case cache_step E C c st of Inl e \<Rightarrow> Inl e | Inr st' \<Rightarrow> cache_run E C cs st')"

text \<open>The null pointer is never accessed, and a scratch object never is the accessed object.\<close>

definition cop_ok :: "cop \<Rightarrow> bool" where
  "cop_ok c = (case c of
     CRead p sz szT pre prio \<Rightarrow> unmark_ptr p \<noteq> 0 \<and> pre \<noteq> unmark_ptr p
   | CWrite p v pre ack \<Rightarrow> unmark_ptr p \<noteq> 0 \<and> pre \<noteq> unmark_ptr p
   | CInvalidate p \<Rightarrow> unmark_ptr p \<noteq> 0
   | _ \<Rightarrow> True)"

lemma cache_step_safe:
  assumes inv: "cache_inv faux_ok allocat s H" and c: "cop_ok c"
  shows "case cache_step E counting_pool c (s, H) of
           Inl e \<Rightarrow> read_abort e | Inr (s', H') \<Rightarrow> cache_inv faux_ok allocat s' H'"
proof (cases c)
  case (CRead p sz szT pre prio)
  with c have "unmark_ptr p \<noteq> 0" "pre \<noteq> unmark_ptr p" by (simp_all add: cop_ok_def)
  from faux.ExtendedRead_post [OF inv this, of E sz szT prio] CRead show ?thesis
    by (auto simp: cache_step_def read_post_def split: sum.splits)
next
  case (CWrite p v pre ack)
  with c have "unmark_ptr p \<noteq> 0" "pre \<noteq> unmark_ptr p" by (simp_all add: cop_ok_def)
  from faux.Write_inv [OF inv UNIV_I this, where E = E and v = v and ack = ack] CWrite
  show ?thesis by (auto simp: cache_step_def)
next
  case (CInvalidate p)
  with c have "unmark_ptr p \<noteq> 0" by (simp add: cop_ok_def)
  from faux.Invalidate_inv [OF inv UNIV_I this] CInvalidate show ?thesis by (simp add: cache_step_def)
next
  case (CDrop i)
  with faux.cobj_destroy_inv [OF inv, of "H ! i"] inv show ?thesis
    by (fastforce simp: cache_step_def)
next
  case (CAssign i j)
  with faux.cobj_assign_inv [OF inv, of "H ! i" "H ! j"] nth_mem_remove1 [of i H j] inv
  show ?thesis by (fastforce simp: cache_step_def)
qed

text \<open>
  C2: memory safety of the cache under any use. From a state satisfying the invariant, any
  script of reads, writes, invalidations, handle destructions and handle assignments on a
  thread's cache either stops because the pool has no memory left or because an object is
  read with two different sizes, or ends in a state satisfying the invariant again: no object
  is freed twice, with a wrong size or while a handle refers to it, no reference counter drops
  below zero, and every handle's object is allocated.
\<close>

theorem cache_session_safe:
  assumes "cache_inv faux_ok allocat s H" and "\<forall>c \<in> set cs. cop_ok c"
  shows "case cache_run E counting_pool cs (s, H) of
           Inl e \<Rightarrow> read_abort e | Inr (s', H') \<Rightarrow> cache_inv faux_ok allocat s' H'"
  using assms
proof (induction cs arbitrary: s H)
  case Nil
  then show ?case by simp
next
  case (Cons c cs)
  then have step: "case cache_step E counting_pool c (s, H) of
           Inl e \<Rightarrow> read_abort e | Inr (s', H') \<Rightarrow> cache_inv faux_ok allocat s' H'"
    by (intro cache_step_safe) simp_all
  show ?case
  proof (cases "cache_step E counting_pool c (s, H)")
    case (Inl e)
    with step show ?thesis by simp
  next
    case (Inr st)
    obtain s' H' where st: "st = (s', H')" by fastforce
    with step Inr have "cache_inv faux_ok allocat s' H'" by simp
    from Cons.IH [OF this] Cons.prems(2) show ?thesis by (simp add: Inr st)
  qed
qed

text \<open>
  C9: every read that returns is accounted exactly once: the counters of hits, coherence,
  conflict and cold misses and uncached reads together grow by one, and the number of remote
  reads stays the number of reads that were not hits.
\<close>

theorem read_accounting:
  assumes "memory_pool C W ok owned word" and "cache_inv ok owned s H"
    and "unmark_ptr p \<noteq> 0" and "pre \<noteq> unmark_ptr p"
    and "ExtendedRead E C p sz szT pre prio s = Inr (h, s')"
  shows "served (metrics s') = served (metrics s) + 1 \<and>
         (reads_accounted (metrics s) \<longrightarrow> reads_accounted (metrics s'))"
  using memory_pool.ExtendedRead_post [OF assms(1-4), of E sz szT prio] assms(5)
  by (simp add: read_post_def)

text \<open>
  The constructor establishes the invariant, with every line empty, for any line count the
  code can index.
\<close>

theorem constructor_inv:
  assumes "memory_pool C W ok owned word" and "ok m" and "0 < n" and "n < 2 ^ 31"
  shows "case RemoteCacheImpl C junk n m of
           Inl e \<Rightarrow> e = OutOfMemory
         | Inr s \<Rightarrow> cache_inv ok owned s [] \<and> length (lines s) = n"
  by (rule memory_pool.RemoteCacheImpl_inv [OF assms])

section \<open>Witnesses\<close>

definition env0 :: rdma_env where
  "env0 = \<lparr> ptr_id = (\<lambda>p. 0), ptr_address = (\<lambda>p. p), dbl = (\<lambda>q. q) \<rparr>"

definition mem0 :: cpool where
  "mem0 = \<lparr> allocat = (\<lambda>p. if p = 64 then Some 8 else None), heap = (\<lambda>p. if p = 64 then 5 else 0),
            free_addrs = [1024, 2048, 4096, 8192], total_allocations = 1, total_deallocations = 0 \<rparr>"

definition cache0 :: "cpool cache" where
  "cache0 = (case RemoteCacheImpl counting_pool 0 2 mem0 of Inr s \<Rightarrow> s)"

lemma mem0_ok: "faux_ok mem0"
  by (simp add: faux_ok_def mem0_def)

lemma cache0_eval: "RemoteCacheImpl counting_pool 0 2 mem0 = Inr cache0"
  by (simp add: cache0_def RemoteCacheImpl_def counting_pool_def faux_Allocate_def mem0_def)

lemma cache0_inv: "cache_inv faux_ok allocat cache0 []"
  using faux.RemoteCacheImpl_inv [OF mem0_ok, of 2 0] by (simp add: cache0_eval)

theorem cache_session_safe_witness:
  "case cache_run env0 counting_pool [CRead (mark_ptr 64) 1 8 0 0, CWrite (mark_ptr 64) 7 0 True,
          CRead (mark_ptr 64) 1 8 0 0, CDrop 1] (cache0, []) of
     Inl e \<Rightarrow> read_abort e | Inr (s', H') \<Rightarrow> cache_inv faux_ok allocat s' H'"
  by (rule cache_session_safe [OF cache0_inv])
    (simp add: cop_ok_def mark_ptr_def unmark_ptr_def ptr_mask_def)

theorem constructor_inv_witness:
  "case RemoteCacheImpl counting_pool 0 2 mem0 of
     Inl e \<Rightarrow> e = OutOfMemory
   | Inr s \<Rightarrow> cache_inv faux_ok allocat s [] \<and> length (lines s) = 2"
  by (rule constructor_inv [OF faux.memory_pool_axioms mem0_ok]) simp_all

lemma make_lines_2: "make_lines j 2 s = make_lines j (Suc (Suc 0)) s"
  by (simp only: numeral_2_eq_2)

lemma cache0_fields: "dealloc_pool cache0 = []" "free_addrs (mem cache0) = [2048, 4096, 8192]"
  by (simp_all add: cache0_def RemoteCacheImpl_def counting_pool_def faux_Allocate_def mem0_def
      make_lines_2 fetch_ref_def pool_fetch_def ref_generator_def)

theorem read_accounting_witness:
  "\<exists>h s'. ExtendedRead env0 counting_pool 64 1 8 0 0 cache0 = Inr (h, s') \<and>
          served (metrics s') = served (metrics cache0) + 1"
proof -
  have "\<exists>h s'. ExtendedRead env0 counting_pool 64 1 8 0 0 cache0 = Inr (h, s')"
    by (simp add: ExtendedRead_def try_free_some_def cache0_fields is_marked_def ptr_mask_def
        unmarked_execution_def unmark_ptr_def counting_pool_def faux_defs)
  then obtain h s' where e: "ExtendedRead env0 counting_pool 64 1 8 0 0 cache0 = Inr (h, s')" by blast
  have "unmark_ptr 64 \<noteq> 0" "0 \<noteq> unmark_ptr 64" by (simp_all add: unmark_ptr_def ptr_mask_def)
  from read_accounting [OF faux.memory_pool_axioms cache0_inv this e] e show ?thesis by blast
qed

end
