(* ===== verification/CacheTransparency.thy ===== *)
theory CacheTransparency
  imports CacheProps
begin

text \<open>
  The cache of one node is transparent: through any sequence of reads, writes and
  invalidations by the thread, a cached read returns an object that holds what memory holds.
  The program's shared objects \<open>D\<close>, and \<open>R\<close>, the objects that hold the lines of the other
  nodes' caches, are kept in the invariant as objects that somebody owns, so no cache line's
  copy ever aliases one of them. This is one thread with its node's cache: what the other nodes
  do meanwhile is the subject of \<open>Coherence\<close>.
\<close>

section \<open>A pool that stores values\<close>

locale memory_pool_values = memory_pool +
  assumes read_new_word: "\<lbrakk> ok m; p \<noteq> 0; cap_read C m p n 0 = Inr (q, m') \<rbrakk> \<Longrightarrow>
      word m' = (word m)(q := word m p)"
    and free_word: "cap_free C m q n = Inr m' \<Longrightarrow> word m' = word m"
    and write_word_value: "\<lbrakk> ok m; p \<noteq> 0; cap_write C m p v 0 = Inr m' \<rbrakk> \<Longrightarrow>
      word m' = (word m)(p := v)"
begin

section \<open>What frees keep\<close>

lemma handle_free_word:
  "handle_free C p n r s = Inr s' \<Longrightarrow> same_frame s s' \<and> word (mem s') = word (mem s)"
  by (auto simp: handle_free_def Let_def same_frame_def release_ref_def dest: free_word
      split: if_splits sum.splits)

lemma free_loop_word:
  "free_loop C ts s = Inr s' \<Longrightarrow> same_frame s s' \<and> word (mem s') = word (mem s)"
proof (induction ts arbitrary: s)
  case Nil
  then show ?case by (auto simp: same_frame_def)
next
  case (Cons t ts)
  show ?case
  proof (cases "refs s (t_ref t) \<noteq> 0")
    case True
    with Cons.prems show ?thesis by (auto simp: same_frame_def)
  next
    case False
    with Cons.prems obtain m where m: "cap_free C (mem s) (t_ptr t) (t_size t) = Inr m"
      and r: "free_loop C ts (release_ref (t_ref t) (s\<lparr> dealloc_pool := ts, mem := m \<rparr>)) = Inr s'"
      by (auto split: sum.splits)
    from Cons.IH [OF r] free_word [OF m] show ?thesis
      by (simp add: same_frame_def release_ref_def)
  qed
qed

lemma try_free_some_word:
  "try_free_some C s = Inr s' \<Longrightarrow> same_frame s s' \<and> word (mem s') = word (mem s)"
  unfolding try_free_some_def by (rule free_loop_word)

lemma install_line_word:
  assumes "install_line C i q n prio s = Inr s'"
  shows "\<exists>r. lines s' = (lines s)[i := (lines s ! i)\<lparr> local_ptr := q, lsize := n, priority := prio,
                                           ref_counter := r \<rparr>] \<and>
     remote_caches s' = remote_caches s \<and> word (mem s') = word (mem s)"
proof -
  let ?l = "lines s ! i"
  from assms obtain s1 where h: "handle_free C (local_ptr ?l) (lsize ?l) (ref_counter ?l) s = Inr s1"
    by (auto simp: install_line_def Let_def split: sum.splits)
  obtain r s2 where f: "fetch_ref s1 = (r, s2)" by fastforce
  have s2: "lines s2 = lines s1" "remote_caches s2 = remote_caches s1" "mem s2 = mem s1"
    using f by (auto simp: fetch_ref_def pool_fetch_def ref_generator_def Let_def split: list.splits)
  from handle_free_word [OF h] have s1: "lines s1 = lines s" "remote_caches s1 = remote_caches s"
    "word (mem s1) = word (mem s)" by (simp_all add: same_frameD)
  show ?thesis using assms h f
    by (intro exI [of _ r]) (auto simp: install_line_def Let_def set_line_def s1 s2)
qed

end

interpretation faux: memory_pool_values counting_pool UNIV faux_ok allocat heap
  by unfold_locales
    (auto simp: counting_pool_def faux_defs fun_eq_iff split: list.splits if_splits sum.splits option.splits)

section \<open>The invariant\<close>

definition data_handles :: "(rptr \<times> int) list \<Rightarrow> cobj list" where
  "data_handles D = map (\<lambda>(p, n). cobj_temp 0 p (p, 0, n)) D"

text \<open>Line \<open>i\<close> caches an object that hashes to it, and unless it is marked invalid its copy
  holds what memory holds.\<close>

definition line_fresh ::
  "rdma_env \<Rightarrow> ('m \<Rightarrow> rptr \<Rightarrow> u64) \<Rightarrow> rptr set \<Rightarrow> 'm cache \<Rightarrow> nat \<Rightarrow> cline \<Rightarrow> bool" where
  "line_fresh E word P s i l \<longleftrightarrow>
     unmark_ptr (address l) \<noteq> 0 \<longrightarrow>
       unmark_ptr (address l) \<in> P \<and> line_index E s (unmark_ptr (address l)) = i \<and>
       (\<not> is_marked (address l) \<longrightarrow> word (mem s) (local_ptr l) = word (mem s) (address l))"

text \<open>The compare-and-swaps of \<open>invalidate\<close> go to words of \<open>R\<close>.\<close>

definition peers_in :: "rptr set \<Rightarrow> (rptr \<times> int) list \<Rightarrow> 'm cache \<Rightarrow> bool" where
  "peers_in W R s \<longleftrightarrow>
     (\<forall>rt \<in> set (remote_caches s). \<forall>h < length (lines s). remote_line rt h \<in> W \<inter> fst ` set R)"

definition transparent ::
  "rdma_env \<Rightarrow> rptr set \<Rightarrow> ('m \<Rightarrow> bool) \<Rightarrow> ('m \<Rightarrow> rptr \<Rightarrow> int option) \<Rightarrow> ('m \<Rightarrow> rptr \<Rightarrow> u64) \<Rightarrow>
     (rptr \<times> int) list \<Rightarrow> (rptr \<times> int) list \<Rightarrow> 'm cache \<Rightarrow> cobj list \<Rightarrow> bool" where
  "transparent E W ok owned word D R s H \<longleftrightarrow>
     cache_inv ok owned s (H @ data_handles (D @ R)) \<and> peers_in W R s \<and> 0 \<notin> fst ` set (D @ R) \<and>
     (\<forall>i < length (lines s). line_fresh E word (fst ` set D) s i (lines s ! i))"

lemma line_index_cong:
  "length (lines s') = length (lines s) \<Longrightarrow> length (remote_caches s') = length (remote_caches s) \<Longrightarrow>
   line_index E s' p = line_index E s p"
  by (simp add: line_index_def)

lemma temps_data: "0 \<notin> fst ` set D \<Longrightarrow> temps (data_handles D) = D"
  by (induction D) (auto simp: data_handles_def)

lemma transparentD:
  assumes "transparent E W ok owned word D R s H"
  shows "cache_inv ok owned s (H @ data_handles (D @ R))" "peers_in W R s" "0 \<notin> fst ` set (D @ R)"
    "\<And>i. i < length (lines s) \<Longrightarrow> line_fresh E word (fst ` set D) s i (lines s ! i)"
  using assms unfolding transparent_def by blast+

lemma peers_in_same:
  "\<lbrakk> peers_in W R s; remote_caches s' = remote_caches s; length (lines s') = length (lines s) \<rbrakk> \<Longrightarrow>
   peers_in W R s'"
  by (simp add: peers_in_def)

lemma distinct_first_last: "distinct (a @ b @ c @ d) \<Longrightarrow> set a \<inter> set d = {}"
  by auto

text \<open>No copy aliases a shared object.\<close>

lemma data_apart:
  assumes inv: "cache_inv ok owned s (H @ data_handles D)" and z: "0 \<notin> fst ` set D"
  shows "p \<in> fst ` set D \<Longrightarrow> owned (mem s) p \<noteq> None"
    and "\<lbrakk> l \<in> set (lines s); local_ptr l \<noteq> 0 \<rbrakk> \<Longrightarrow>
           owned (mem s) (local_ptr l) \<noteq> None \<and> local_ptr l \<notin> fst ` set D"
proof -
  let ?L = "map line_owner (lines s)" and ?H = "H @ data_handles D"
  have ob: "objects_ok owned ?L s ?H" using inv by (simp add: cache_inv_def core_def)
  have all: "\<forall>(p, n) \<in> set (owned_objs ?L s ?H). owned (mem s) p = Some n"
    and dist: "distinct (map fst (owned_objs ?L s ?H))"
    using ob by (auto simp: objects_ok_def)
  have T: "temps ?H = temps H @ D" using temps_data [OF z] by simp
  { assume "p \<in> fst ` set D"
    then have "p \<in> fst ` set (owned_objs ?L s ?H)" unfolding owned_objs_def T by auto
    with all show "owned (mem s) p \<noteq> None" by auto }
  { assume l: "l \<in> set (lines s)" "local_ptr l \<noteq> 0"
    let ?A = "filter (\<lambda>(p, n). p \<noteq> 0) (map snd ?L)"
    have "line_owner l \<in> set ?L" using l(1) by simp
    then have "snd (line_owner l) \<in> set (map snd ?L)" unfolding set_map by (rule imageI)
    then have m: "(local_ptr l, lsize l) \<in> set ?A" using l(2) by (simp only: set_filter owner_simps) simp
    then have "(local_ptr l, lsize l) \<in> set (owned_objs ?L s ?H)" unfolding owned_objs_def by simp
    with all have "owned (mem s) (local_ptr l) = Some (lsize l)" by blast
    moreover have "distinct (map fst ?A @ map fst (map snd (task_owners s)) @ map fst (temps H) @ map fst D)"
      using dist by (simp only: owned_objs_def T map_append)
    from distinct_first_last [OF this] have "fst ` set ?A \<inter> fst ` set D = {}" by (simp only: set_map)
    moreover from m have "local_ptr l \<in> fst ` set ?A" by (rule rev_image_eqI) simp
    ultimately show "owned (mem s) (local_ptr l) \<noteq> None \<and> local_ptr l \<notin> fst ` set D"
      by blast }
qed

lemma data_nonzero: "\<lbrakk> 0 \<notin> fst ` set (D @ R); x \<in> fst ` set D \<rbrakk> \<Longrightarrow> x \<noteq> 0"
  by auto

lemma data_disjoint:
  assumes inv: "cache_inv ok owned s (H @ data_handles (D @ R))" and z: "0 \<notin> fst ` set (D @ R)"
  shows "fst ` set D \<inter> fst ` set R = {}"
proof -
  have "distinct (map fst (owned_objs (map line_owner (lines s)) s (H @ data_handles (D @ R))))"
    using inv by (simp add: cache_inv_def core_def objects_ok_def)
  moreover have "temps (H @ data_handles (D @ R)) = temps H @ D @ R" using temps_data [OF z] by simp
  ultimately have "distinct (map fst D @ map fst R)" by (simp add: owned_objs_def)
  then show ?thesis by auto
qed

text \<open>The cache of a node with peers.\<close>

definition with_peers :: "rptr list \<Rightarrow> rptr list \<Rightarrow> 'm cache \<Rightarrow> 'm cache" where
  "with_peers rts qs s = s\<lparr> remote_caches := rts, prealloc_cas_result := qs \<rparr>"

context memory_pool_values
begin

text \<open>Memory may change at one place that is neither shared nor a copy.\<close>

lemma line_fresh_frame:
  assumes "line_fresh E word P s i l" and "word (mem s') = (word (mem s))(q := v)"
    and "q \<notin> P" and "unmark_ptr (address l) \<noteq> 0 \<Longrightarrow> local_ptr l \<noteq> q"
    and "length (lines s') = length (lines s)" "remote_caches s' = remote_caches s"
  shows "line_fresh E word P s' i l"
proof -
  have li: "line_index E s' p = line_index E s p" for p
    by (rule line_index_cong) (simp_all only: assms(5,6))
  show ?thesis unfolding line_fresh_def li
  proof (intro impI conjI)
    assume u: "unmark_ptr (address l) \<noteq> 0"
    note F = assms(1) [unfolded line_fresh_def, THEN mp, OF u]
    from F show P: "unmark_ptr (address l) \<in> P" "line_index E s (unmark_ptr (address l)) = i"
      by blast+
    assume um: "\<not> is_marked (address l)"
    then have "unmark_ptr (address l) = address l" by (rule cache_mark.untag_id)
    with P(1) assms(3) have "address l \<noteq> q" by auto
    moreover have "word (mem s) (local_ptr l) = word (mem s) (address l)"
      using F um by blast
    ultimately show "word (mem s') (local_ptr l) = word (mem s') (address l)"
      using assms(4) [OF u] by (simp add: assms(2))
  qed
qed

lemma miss_transparent:
  assumes t: "transparent E W ok owned word D R s H" and p: "ptr \<in> fst ` set D" "unmark_ptr ptr = ptr"
    and i: "i = line_index E s ptr" and s1: "s1 = set_line i (\<lambda>l. l\<lparr> address := ptr \<rparr>) s"
    and r: "cap_read C (mem s1) ptr bytes 0 = Inr (q, m)"
    and ins: "install_line C i q bytes prio (s1\<lparr> mem := m \<rparr>) = Inr s2"
    and sh: "share_line ptr i (bump f s2) = (h, s')"
  shows "remote_caches s' = remote_caches s" "length (lines s') = length (lines s)"
    "word (mem s') = (word (mem s))(q := word (mem s) ptr)" "obj h = q" "\<And>j. j < length (lines s') \<Longrightarrow> line_fresh E word (fst ` set D) s' j (lines s' ! j)"
proof -
  note T = transparentD [OF t]
  note I = cache_invD [OF T(1)]
  note A = data_apart [OF T(1,3)]
  have il: "i < length (lines s)" using I(6) i by simp
  have S1: "mem s1 = mem s" "remote_caches s1 = remote_caches s" "length (lines s1) = length (lines s)"
    "lines s1 = (lines s)[i := (lines s ! i)\<lparr> address := ptr \<rparr>]"
    by (simp_all add: s1 set_line_def)
  have p0: "ptr \<noteq> 0" using p T(3) by auto
  note N = read_new [OF I(2) p0 r [unfolded S1]]
  from N have "owned (mem s) q = None" by (elim conjE)
  with A(1) have q: "q \<notin> fst ` set D" by fastforce
  from install_line_word [OF ins] obtain rc where
    s2: "lines s2 = (lines s)[i := (lines s1 ! i)\<lparr> local_ptr := q, lsize := bytes, priority := prio,
           ref_counter := rc \<rparr>]" "remote_caches s2 = remote_caches s" "word (mem s2) = word m"
    using S1 by auto
  have w: "word m = (word (mem s))(q := word (mem s) ptr)"
    using read_new_word [OF I(2) p0 r [unfolded S1]] .
  have S': "lines s' = lines s2" "remote_caches s' = remote_caches s" "word (mem s') = word m"
    "obj h = local_ptr (lines s2 ! i)"
    using sh s2 by (auto simp: share_line_def bump_def Let_def)
  show "remote_caches s' = remote_caches s" "length (lines s') = length (lines s)"
    "word (mem s') = (word (mem s))(q := word (mem s) ptr)"
    using S' s2 w by simp_all
  show "obj h = q" using S'(4) s2(1) il by simp
  fix j assume j: "j < length (lines s')"
  then have jl: "j < length (lines s)" using S' s2 by simp
  show "line_fresh E word (fst ` set D) s' j (lines s' ! j)"
  proof (cases "j = i")
    case True
    have "line_index E s' ptr = i"
      using i line_index_cong [of s' s E ptr] S' s2 by simp
    moreover have "lines s' ! j = (lines s ! i)\<lparr> address := ptr, local_ptr := q, lsize := bytes,
        priority := prio, ref_counter := rc \<rparr>"
      using True il S' s2 S1 by simp
    moreover have "ptr \<noteq> q" using p q by auto
    ultimately show ?thesis using p S' w True by (simp add: line_fresh_def)
  next
    case False
    have nl: "local_ptr (lines s ! j) \<noteq> q" if "unmark_ptr (address (lines s ! j)) \<noteq> 0"
    proof -
      have "lines s ! j \<in> set (lines s)" using jl by simp
      moreover from this that I(5) have "local_ptr (lines s ! j) \<noteq> 0" by auto
      ultimately have "owned (mem s) (local_ptr (lines s ! j)) \<noteq> None" using A(2) by blast
      with N show ?thesis by metis
    qed
    have "line_fresh E word (fst ` set D) s' j (lines s ! j)"
      by (rule line_fresh_frame [OF T(4) [OF jl] _ q nl]) (use S' s2 w in simp_all)
    then show ?thesis using False S' s2 by simp
  qed
qed

lemma line_fresh_same:
  assumes "line_fresh E word P s i l" and "word (mem s') = word (mem s)"
    and "length (lines s') = length (lines s)" "remote_caches s' = remote_caches s"
  shows "line_fresh E word P s' i l"
proof -
  have "line_index E s' p = line_index E s p" for p
    by (rule line_index_cong) (simp_all only: assms(3,4))
  with assms(1,2) show ?thesis by (simp only: line_fresh_def)
qed

lemma try_free_some_transparent:
  assumes t: "transparent E W ok owned word D R s H" and f: "try_free_some C s = Inr s1"
  shows "transparent E W ok owned word D R s1 H" "word (mem s1) = word (mem s)"
    "length (lines s1) = length (lines s)"
proof -
  note T = transparentD [OF t]
  from try_free_some_word [OF f] have fr: "same_frame s s1" and w: "word (mem s1) = word (mem s)"
    by simp_all
  have L: "lines s1 = lines s" "remote_caches s1 = remote_caches s" using fr by (simp_all add: same_frameD)
  from try_free_some_core [OF cache_invD(1) [OF T(1)]] f
  have "core ok owned (map line_owner (lines s)) s1 (H @ data_handles (D @ R))" by auto
  from cache_inv_same_frame [OF T(1) this fr] have "cache_inv ok owned s1 (H @ data_handles (D @ R))" .
  moreover have "line_fresh E word (fst ` set D) s1 i (lines s1 ! i)" if "i < length (lines s1)" for i
    unfolding L(1) by (rule line_fresh_same [OF T(4) w]) (use that L in simp_all)
  ultimately show "transparent E W ok owned word D R s1 H"
    using peers_in_same [OF T(2) L(2)] T(3) L(1) unfolding transparent_def by simp
  show "word (mem s1) = word (mem s)" by (rule w)
  show "length (lines s1) = length (lines s)" by (simp add: L)
qed

text \<open>What a read leaves, the invariant of the counters apart.\<close>

definition read_values :: "rdma_env \<Rightarrow> (rptr \<times> int) list \<Rightarrow> 'a cache \<Rightarrow> rptr \<Rightarrow> cobj \<times> 'a cache \<Rightarrow> bool" where
  "read_values E D s ptr r \<longleftrightarrow>
     (case r of (h, s') \<Rightarrow>
        remote_caches s' = remote_caches s \<and> length (lines s') = length (lines s) \<and>
        word (mem s') (obj h) = word (mem s) ptr \<and>
        (\<forall>d \<in> fst ` set D. word (mem s') d = word (mem s) d) \<and>
        (\<forall>j < length (lines s'). line_fresh E word (fst ` set D) s' j (lines s' ! j)))"

lemma miss_values:
  assumes t: "transparent E W ok owned word D R s H" and p: "ptr \<in> fst ` set D" "unmark_ptr ptr = ptr"
    and i: "i = line_index E s ptr" and s1: "s1 = set_line i (\<lambda>l. l\<lparr> address := ptr \<rparr>) s"
    and r: "cap_read C (mem s1) ptr bytes 0 = Inr (q, m)"
    and ins: "install_line C i q bytes prio (s1\<lparr> mem := m \<rparr>) = Inr s2"
  shows "read_values E D s ptr (share_line ptr i (bump f s2))"
proof -
  obtain h s' where sh: "share_line ptr i (bump f s2) = (h, s')" by fastforce
  note M = miss_transparent [OF t p i s1 r ins sh]
  note T = transparentD [OF t]
  have "ptr \<noteq> 0" using p T(3) by auto
  from read_new [OF cache_invD(2) [OF T(1)] this r [unfolded s1 set_line_def, simplified]]
  have "owned (mem s) q = None" by (elim conjE)
  with data_apart(1) [OF T(1,3)] have "q \<notin> fst ` set D" by fastforce
  then have "word (mem s') d = word (mem s) d" if "d \<in> fst ` set D" for d
    using that M(3) by (metis fun_upd_other)
  moreover have "word (mem s') (obj h) = word (mem s) ptr" using M(3,4) by simp
  ultimately show ?thesis using M(1,2,5) unfolding sh read_values_def prod.case by blast
qed

lemma hit_values:
  assumes t: "transparent E W ok owned word D R s H" and i: "i < length (lines s)"
    and a: "unmark_ptr (address (lines s ! i)) = ptr" "\<not> is_marked (address (lines s ! i))" "ptr \<noteq> 0"
  shows "read_values E D s ptr (share_line ptr i (bump f s))"
proof -
  obtain h s' where sh: "share_line ptr i (bump f s) = (h, s')" by fastforce
  note T = transparentD [OF t]
  have S: "lines s' = lines s" "remote_caches s' = remote_caches s" "mem s' = mem s"
    "obj h = local_ptr (lines s ! i)"
    using sh by (auto simp: share_line_def bump_def Let_def)
  have ad: "address (lines s ! i) = ptr" using a(1) cache_mark.untag_id [OF a(2)] by simp
  have "word (mem s) (local_ptr (lines s ! i)) = word (mem s) ptr"
    using T(4) [OF i, unfolded line_fresh_def] a ad by simp
  moreover have "line_fresh E word (fst ` set D) s' j (lines s' ! j)" if "j < length (lines s')" for j
    unfolding S(1) by (rule line_fresh_same [OF T(4)]) (use that S in simp_all)
  ultimately show ?thesis using S by (simp add: read_values_def sh)
qed

lemma uncached_values:
  assumes t: "transparent E W ok owned word D R s H" and p: "unmark_ptr ptr \<in> fst ` set D"
    and r: "unmarked_execution C ptr bytes 0 s = Inr r"
  shows "read_values E D s (unmark_ptr ptr) r"
proof -
  note T = transparentD [OF t]
  note I = cache_invD [OF T(1)]
  have p0: "unmark_ptr ptr \<noteq> 0" using data_nonzero [OF T(3)] p by blast
  from r obtain q m where m: "cap_read C (mem s) (unmark_ptr ptr) bytes 0 = Inr (q, m)"
    and rr: "r = (cobj_temp ptr q (q, 0, bytes), bump (\<lambda>t. t\<lparr> remote_reads := remote_reads t + 1,
        allocation := allocation t + 1 \<rparr>) (s\<lparr> mem := m \<rparr>))" (is "r = (?h, ?s)")
    by (auto simp: unmarked_execution_def split: sum.splits)
  from read_new [OF I(2) p0 m] have "owned (mem s) q = None" by (elim conjE)
  then have q: "q \<notin> fst ` set D" and ql: "\<And>l. \<lbrakk> l \<in> set (lines s); local_ptr l \<noteq> 0 \<rbrakk> \<Longrightarrow> local_ptr l \<noteq> q"
    using data_apart [OF T(1,3)] by fastforce+
  have S: "word (mem ?s) = (word (mem s))(q := word (mem s) (unmark_ptr ptr))"
    "lines ?s = lines s" "remote_caches ?s = remote_caches s"
    using read_new_word [OF I(2) p0 m] by (simp_all add: bump_def)
  have nl: "local_ptr (lines s ! j) \<noteq> q" if "j < length (lines s)" "unmark_ptr (address (lines s ! j)) \<noteq> 0" for j
  proof -
    have "lines s ! j \<in> set (lines s)" using that(1) by simp
    moreover from this that(2) I(5) have "local_ptr (lines s ! j) \<noteq> 0" by auto
    ultimately show ?thesis by (rule ql)
  qed
  have "line_fresh E word (fst ` set D) ?s j (lines ?s ! j)" if "j < length (lines ?s)" for j
  proof -
    from that have j: "j < length (lines s)" by (simp only: S(2))
    show ?thesis unfolding S(2)
      by (rule line_fresh_frame [OF T(4) [OF j] S(1) q nl [OF j]]) (simp_all only: S not_False_eq_True)
  qed
  moreover have "word (mem ?s) d = word (mem s) d" if "d \<in> fst ` set D" for d
    using q that by (simp only: S(1)) (metis fun_upd_other)
  moreover have "word (mem ?s) (obj ?h) = word (mem s) (unmark_ptr ptr)"
    by (simp only: S(1) cobj_kinds fun_upd_same)
  ultimately show ?thesis unfolding rr read_values_def prod.case using S(2,3) by simp
qed

lemma ExtendedRead_values:
  assumes t: "transparent E W ok owned word D R s H" and p: "unmark_ptr ptr \<in> fst ` set D"
    and r: "ExtendedRead E C ptr sz szT 0 prio s = Inr r"
  shows "read_values E D s (unmark_ptr ptr) r"
proof -
  note T = transparentD [OF t]
  from try_free_some_core [OF cache_invD(1) [OF T(1)]] obtain s1 where
    f: "try_free_some C s = Inr s1" by blast
  note T1 = try_free_some_transparent [OF t f]
  have T1r: "remote_caches s1 = remote_caches s"
    using try_free_some_word [OF f] by (simp add: same_frameD)
  have w: "read_values E D s1 x r \<Longrightarrow> read_values E D s x r" for x
    by (simp only: read_values_def T1(2,3) T1r)
  note I = cache_invD [OF transparentD(1) [OF T1(1)]]
  have p0: "unmark_ptr ptr \<noteq> 0" using data_nonzero [OF T(3)] p by blast
  let ?u = "unmark_ptr ptr" and ?i = "line_index E s1 (unmark_ptr ptr)"
  let ?pm = "\<lambda>t. t\<lparr> priority_misses := priority_misses t + 1 \<rparr>"
  have tb: "transparent E W ok owned word D R (bump ?pm s1) H"
  proof -
    have "core ok owned (map line_owner (lines s1)) (bump ?pm s1) (H @ data_handles (D @ R))"
      using I(1) by (rule core_frame) (simp_all add: bump_def)
    moreover have "line_fresh E word (fst ` set D) (bump ?pm s1) j (lines s1 ! j)"
      if "j < length (lines s1)" for j
      by (rule line_fresh_same [OF transparentD(4) [OF T1(1) that]]) (simp_all add: bump_def)
    moreover have "peers_in W R (bump ?pm s1)"
      by (rule peers_in_same [OF transparentD(2) [OF T1(1)]]) (simp_all add: bump_def)
    ultimately show ?thesis using I(3-5) transparentD(3) [OF T1(1)]
      unfolding transparent_def cache_inv_def by (simp add: bump_def)
  qed
  have ub: "read_values E D (bump ?pm s1) x r \<Longrightarrow> read_values E D s1 x r" for x
    by (simp only: read_values_def) (simp add: bump_def)
  consider (uncached) "unmarked_execution C ptr (sz * szT) 0 s1 = Inr r"
    | (priority) "unmarked_execution C ptr (sz * szT) 0 (bump ?pm s1) = Inr r"
    | (coherence) "unmark_ptr (address (lines s1 ! ?i)) = ?u" "coherence_miss C ?i ?u (sz * szT) prio s1 = Inr r"
    | (hit) "unmark_ptr (address (lines s1 ! ?i)) = ?u" "\<not> is_marked (address (lines s1 ! ?i))"
        "cache_hit ?i ?u (sz * szT) s1 = Inr r"
    | (conflict) "conflict_miss C ?i ?u (sz * szT) prio s1 = Inr r"
    using r f by (auto simp: ExtendedRead_def Let_def split: if_splits)
  then have "read_values E D s1 ?u r"
  proof cases
    case uncached
    with T1(1) p show ?thesis by (rule uncached_values)
  next
    case priority
    from uncached_values [OF tb p this] show ?thesis by (rule ub)
  next
    case coherence
    let ?s1 = "set_line ?i (\<lambda>l. l\<lparr> address := unmark_ptr (address l) \<rparr>) s1"
    have s1: "?s1 = set_line ?i (\<lambda>l. l\<lparr> address := ?u \<rparr>) s1"
      using coherence(1) by (simp add: set_line_def)
    from coherence(2) obtain q m s2 f where
      m: "cap_read C (mem ?s1) ?u (sz * szT) 0 = Inr (q, m)"
        "install_line C ?i q (sz * szT) prio (?s1\<lparr> mem := m \<rparr>) = Inr s2"
        "r = share_line ?u ?i (bump f s2)"
      by (auto simp: coherence_miss_def Let_def split: sum.splits if_splits prod.splits)
    show ?thesis unfolding m(3)
      by (rule miss_values [OF T1(1) p _ refl s1 m(1,2)]) simp
  next
    case hit
    then show ?thesis
      by (auto simp: cache_hit_def split: if_splits intro!: hit_values [OF T1(1) I(6)] p0)
  next
    case conflict
    let ?s1 = "set_line ?i (\<lambda>l. l\<lparr> address := ?u \<rparr>) s1"
    from conflict obtain q m s2 f where
      m: "cap_read C (mem ?s1) ?u (sz * szT) 0 = Inr (q, m)"
        "install_line C ?i q (sz * szT) prio (?s1\<lparr> mem := m \<rparr>) = Inr s2"
        "r = share_line ?u ?i (bump f s2)"
      by (auto simp: conflict_miss_def Let_def split: sum.splits prod.splits)
    show ?thesis unfolding m(3)
      by (rule miss_values [OF T1(1) p _ refl refl m(1,2)]) simp
  qed
  then show ?thesis by (rule w)
qed

lemma ExtendedRead_transparent:
  assumes t: "transparent E W ok owned word D R s H" and p: "unmark_ptr ptr \<in> fst ` set D"
    and r: "ExtendedRead E C ptr sz szT 0 prio s = Inr (h, s')"
  shows "transparent E W ok owned word D R s' (h # H) \<and> word (mem s') (obj h) = word (mem s) (unmark_ptr ptr) \<and>
         (\<forall>d \<in> fst ` set D. word (mem s') d = word (mem s) d)"
proof -
  note T = transparentD [OF t]
  have p0: "unmark_ptr ptr \<noteq> 0" using data_nonzero [OF T(3)] p by blast
  from ExtendedRead_post [OF T(1) p0 p0 [symmetric], of E sz szT prio] r
  have "cache_inv ok owned s' ((h # H) @ data_handles (D @ R))" by (simp add: read_post_def)
  with ExtendedRead_values [OF t p r] T(3) peers_in_same [OF T(2)] show ?thesis
    unfolding transparent_def read_values_def prod.case by blast
qed

text \<open>The compare-and-swaps on the other nodes' lines change words of \<open>R\<close> only.\<close>

lemma invalidate_remote_word:
  assumes "ok (mem s)" and "\<forall>rt \<in> set rts. remote_line rt h \<in> W \<inter> X"
  shows "lines (invalidate_remote C h ptr ack rts s) = lines s \<and>
    remote_caches (invalidate_remote C h ptr ack rts s) = remote_caches s \<and>
    (\<forall>x. x \<notin> X \<longrightarrow> word (mem (invalidate_remote C h ptr ack rts s)) x = word (mem s) x)"
  using assms
proof (induction rts arbitrary: s)
  case Nil
  then show ?case by simp
next
  case (Cons rt rts)
  from Cons.prems cas_word [OF Cons.prems(1), of "remote_line rt h" ptr "ptr OR ptr_mask"] obtain m where
    m: "cap_cas C (mem s) (remote_line rt h) ptr (ptr OR ptr_mask) = (word (mem s) (remote_line rt h), m)"
      "ok m" "word m = (word (mem s))(remote_line rt h :=
        if word (mem s) (remote_line rt h) = ptr then ptr OR ptr_mask else word (mem s) (remote_line rt h))"
    by auto
  have x: "remote_line rt h \<in> X" "\<forall>rt \<in> set rts. remote_line rt h \<in> W \<inter> X" using Cons.prems(2) by auto
  then have "word m x = word (mem s) x" if "x \<notin> X" for x
    using that by (auto simp: m(3))
  moreover have "ok (mem (bump f (s\<lparr> mem := m \<rparr>)))" for f using m(2) by (simp add: bump_def)
  ultimately show ?case
    unfolding invalidate_remote.simps m(1) prod.case using Cons.IH [OF _ x(2)] by (simp add: bump_def)
qed

text \<open>A write invalidates the only line that can hold the object.\<close>

lemma invalidate_values:
  assumes l: "\<And>j. j < length (lines s) \<Longrightarrow> unmark_ptr (address (lines s ! j)) \<noteq> 0 \<Longrightarrow>
      unmark_ptr (address (lines s ! j)) \<in> P \<and> line_index E s (unmark_ptr (address (lines s ! j))) = j \<and>
      local_ptr (lines s ! j) \<notin> fst ` set R \<and>
      (\<not> is_marked (address (lines s ! j)) \<longrightarrow> address (lines s ! j) \<noteq> ptr \<longrightarrow>
         word (mem s) (local_ptr (lines s ! j)) = word (mem s) (address (lines s ! j)))"
    and ok: "ok (mem s)" and li: "line_index E s ptr < length (lines s)"
    and peers: "peers_in W R s" and PR: "P \<inter> fst ` set R = {}"
    and p0: "ptr \<noteq> 0" and i: "i = line_index E s ptr"
    and s': "s' = invalidate E C i ptr ack s"
  shows "remote_caches s' = remote_caches s \<and> length (lines s') = length (lines s) \<and>
         (\<forall>x. x \<notin> fst ` set R \<longrightarrow> word (mem s') x = word (mem s) x) \<and>
         (\<forall>j < length (lines s'). line_fresh E word P s' j (lines s' ! j))"
proof -
  let ?f = "\<lambda>l. if unmark_ptr (address l) = ptr then l\<lparr> address := address l OR ptr_mask \<rparr> else l"
  let ?s1 = "set_line i ?f s"
  have S1: "lines ?s1 = (lines s)[i := ?f (lines s ! i)]" "remote_caches ?s1 = remote_caches s" "mem ?s1 = mem s"
    by (simp_all add: set_line_def)
  have li1: "line_index E ?s1 x = line_index E s x" for x
    by (rule line_index_cong) (simp_all add: S1)
  have ok1: "ok (mem ?s1)" using ok by (simp add: S1)
  have pin: "\<forall>rt \<in> set (remote_caches s). remote_line rt (line_index E s ptr) \<in> W \<inter> fst ` set R"
    using peers li by (simp add: peers_in_def)
  have s'': "s' = invalidate_remote C (line_index E s ptr) ptr ack (remote_caches s) ?s1"
    by (simp add: s' invalidate_def Let_def li1 S1(2))
  have S: "lines s' = (lines s)[i := ?f (lines s ! i)]" "remote_caches s' = remote_caches s"
    "\<And>x. x \<notin> fst ` set R \<Longrightarrow> word (mem s') x = word (mem s) x"
    using invalidate_remote_word [OF ok1 pin, of ptr ack] unfolding s'' [symmetric] S1 by simp_all
  have mk: "unmark_ptr (address l OR ptr_mask) = unmark_ptr (address l)" "is_marked (address l OR ptr_mask)"
    for l :: cline using cache_mark.untag_tag cache_mark.tagged_tag by (simp_all add: mark_ptr_def)
  have li: "line_index E s' x = line_index E s x" for x
    by (rule line_index_cong) (simp_all add: S)
  have "line_fresh E word P s' j (lines s' ! j)" if j: "j < length (lines s')" for j
  proof (cases "unmark_ptr (address (lines s ! j)) = ptr")
    case False
    then have e: "lines s' ! j = lines s ! j" using j by (cases "j = i") (simp_all add: S)
    have jl: "j < length (lines s)" using j by (simp add: S)
    show ?thesis unfolding line_fresh_def e li
    proof (intro impI)
      assume u: "unmark_ptr (address (lines s ! j)) \<noteq> 0"
      note L = l [OF jl u]
      have a: "\<not> is_marked (address (lines s ! j)) \<Longrightarrow> unmark_ptr (address (lines s ! j)) = address (lines s ! j)"
        by (rule cache_mark.untag_id)
      have "word (mem s') (local_ptr (lines s ! j)) = word (mem s') (address (lines s ! j))"
        if um: "\<not> is_marked (address (lines s ! j))"
      proof -
        have "address (lines s ! j) \<in> P" "address (lines s ! j) \<noteq> ptr" using L False a [OF um] by simp_all
        moreover from this PR have "address (lines s ! j) \<notin> fst ` set R" by blast
        ultimately show ?thesis using L um S(3) by simp
      qed
      with L show "unmark_ptr (address (lines s ! j)) \<in> P \<and>
        line_index E s (unmark_ptr (address (lines s ! j))) = j \<and>
        (\<not> is_marked (address (lines s ! j)) \<longrightarrow>
          word (mem s') (local_ptr (lines s ! j)) = word (mem s') (address (lines s ! j)))"
        by blast
    qed
  next
    case True
    have jl: "j < length (lines s)" using j by (simp add: S)
    have u: "unmark_ptr (address (lines s ! j)) \<noteq> 0" using True p0 by simp
    from l [OF jl u] True i have ji: "j = i" and P: "ptr \<in> P" "line_index E s ptr = i" by simp_all
    have "lines s' ! j = (lines s ! j)\<lparr> address := address (lines s ! j) OR ptr_mask \<rparr>"
      using jl True ji by (simp add: S)
    then show ?thesis using P ji True by (simp add: line_fresh_def mk li)
  qed
  with S show ?thesis by simp
qed

lemma Write_transparent:
  assumes t: "transparent E W ok owned word D R s H" and p: "unmark_ptr p \<in> fst ` set D" "is_marked p"
    and r: "Write E C p v 0 ack s = Inr s'"
  shows "transparent E W ok owned word D R s' H \<and>
         (\<forall>d \<in> fst ` set D. word (mem s') d = ((word (mem s))(unmark_ptr p := v)) d)"
proof -
  note T = transparentD [OF t]
  note I = cache_invD [OF T(1)]
  have p0: "unmark_ptr p \<noteq> 0" using data_nonzero [OF T(3) p(1)] .
  from r p(2) obtain m where m: "cap_write C (mem s) (unmark_ptr p) v 0 = Inr m"
    and s': "s' = invalidate E C (line_index E s (unmark_ptr p)) (unmark_ptr p) ack
        (bump (\<lambda>t. t\<lparr> remote_writes := remote_writes t + 1 \<rparr>) (s\<lparr> mem := m \<rparr>))"
      (is "s' = invalidate E C ?i ?p ack ?s")
    by (auto simp: Write_def Let_def split: sum.splits)
  have w: "word m = (word (mem s))(?p := v)" by (rule write_word_value [OF I(2) p0 m])
  have S: "lines ?s = lines s" "remote_caches ?s = remote_caches s" "mem ?s = m"
    by (simp_all add: bump_def)
  have li: "line_index E ?s x = line_index E s x" for x
    by (rule line_index_cong) (simp_all add: S)
  have i: "?i = line_index E ?s ?p" by (simp only: li)
  have okm: "ok (mem ?s)" using write_word [OF I(2) p0, of 0 v] m p0 by (auto simp: S)
  have lp: "local_ptr (lines s ! j) \<notin> fst ` set (D @ R)"
    if "j < length (lines s)" "unmark_ptr (address (lines s ! j)) \<noteq> 0" for j
  proof -
    have "lines s ! j \<in> set (lines s)" using that(1) by simp
    moreover from this that(2) I(5) have "local_ptr (lines s ! j) \<noteq> 0" by auto
    ultimately show ?thesis using data_apart(2) [OF T(1,3)] by blast
  qed
  have peers: "peers_in W R ?s" by (rule peers_in_same [OF T(2)]) (simp_all add: S)
  have DR: "fst ` set D \<inter> fst ` set R = {}" by (rule data_disjoint [OF T(1,3)])
  have inv: "remote_caches s' = remote_caches ?s \<and> length (lines s') = length (lines ?s) \<and>
         (\<forall>x. x \<notin> fst ` set R \<longrightarrow> word (mem s') x = word (mem ?s) x) \<and>
         (\<forall>j < length (lines s'). line_fresh E word (fst ` set D) s' j (lines s' ! j))"
  proof (rule invalidate_values [OF _ okm _ peers DR p0 i s'])
    show "line_index E ?s ?p < length (lines ?s)" using I(6) by (simp only: li S)
    fix j assume j: "j < length (lines ?s)" and u: "unmark_ptr (address (lines ?s ! j)) \<noteq> 0"
    from j u have jl: "j < length (lines s)" "unmark_ptr (address (lines s ! j)) \<noteq> 0" by (simp_all only: S not_False_eq_True)
    have "?p \<in> fst ` set (D @ R)" using p(1) unfolding set_append image_Un by (rule UnI1)
    with lp [OF jl] have "local_ptr (lines s ! j) \<noteq> ?p" by metis
    moreover have "local_ptr (lines s ! j) \<notin> fst ` set R"
      using lp [OF jl] unfolding set_append image_Un by blast
    moreover note T(4) [OF jl(1), unfolded line_fresh_def, THEN mp, OF jl(2)]
    ultimately show "unmark_ptr (address (lines ?s ! j)) \<in> fst ` set D \<and>
      line_index E ?s (unmark_ptr (address (lines ?s ! j))) = j \<and>
      local_ptr (lines ?s ! j) \<notin> fst ` set R \<and>
      (\<not> is_marked (address (lines ?s ! j)) \<longrightarrow> address (lines ?s ! j) \<noteq> ?p \<longrightarrow>
         word (mem ?s) (local_ptr (lines ?s ! j)) = word (mem ?s) (address (lines ?s ! j)))"
      unfolding li S w by simp
  qed
  have W: "\<And>rt h. rt \<in> set (remote_caches s) \<Longrightarrow> h < length (lines s) \<Longrightarrow> remote_line rt h \<in> W"
    using T(2) by (simp add: peers_in_def)
  from Write_inv [OF T(1) W p0 p0 [symmetric], of E v ack] r
  have c: "cache_inv ok owned s' (H @ data_handles (D @ R))" by auto
  have pn: "peers_in W R s'" by (rule peers_in_same [OF T(2)]) (use inv S in simp_all)
  have "word (mem s') d = ((word (mem s))(?p := v)) d" if "d \<in> fst ` set D" for d
  proof -
    have "d \<notin> fst ` set R" using DR that by blast
    with inv show ?thesis unfolding S(3) w by blast
  qed
  with inv c pn T(3) show ?thesis unfolding transparent_def by blast
qed

text \<open>A peer that marks a line invalid keeps the invariant.\<close>

lemma marked_transparent:
  assumes t: "transparent E W ok owned word D R s H" and i: "i < length (lines s)"
    and u: "unmark_ptr (address (lines s ! i)) \<noteq> 0"
  shows "transparent E W ok owned word D R (set_line i (\<lambda>l. l\<lparr> address := address l OR ptr_mask \<rparr>) s) H"
    (is "transparent E W ok owned word D R ?s H")
proof -
  note T = transparentD [OF t]
  note I = cache_invD [OF T(1)]
  have S: "lines ?s = (lines s)[i := (lines s ! i)\<lparr> address := address (lines s ! i) OR ptr_mask \<rparr>]"
    "remote_caches ?s = remote_caches s" "mem ?s = mem s" by (simp_all add: set_line_def)
  have mk: "unmark_ptr (x OR ptr_mask) = unmark_ptr x" "is_marked (x OR ptr_mask)" for x
    using cache_mark.untag_tag cache_mark.tagged_tag by (simp_all add: mark_ptr_def)
  have li: "line_index E ?s x = line_index E s x" for x
    by (rule line_index_cong) (simp_all add: S)
  have f: "line_fresh E word (fst ` set D) ?s j (lines ?s ! j)" if "j < length (lines ?s)" for j
    using T(4) [of j] that i by (cases "j = i") (auto simp: line_fresh_def li S mk)
  have "core ok owned (map line_owner (lines ?s)) ?s (H @ data_handles (D @ R))"
    by (rule core_set_address [OF I(1)])
  moreover have "\<forall>l \<in> set (lines ?s). local_ptr l = 0 \<longrightarrow> unmark_ptr (address l) = 0"
    unfolding S by (rule null_lines_upd [OF I(5)]) (use u i I(5) nth_mem [OF i] in \<open>auto simp: mk\<close>)
  ultimately have "cache_inv ok owned ?s (H @ data_handles (D @ R))"
    using I(3,4) unfolding cache_inv_def by (simp add: S)
  moreover have "peers_in W R ?s" by (rule peers_in_same [OF T(2)]) (simp_all add: S)
  ultimately show ?thesis using f T(3) unfolding transparent_def by blast
qed

lemma make_lines_frame:
  "remote_caches (make_lines junk n s) = remote_caches s \<and> mem (make_lines junk n s) = mem s"
proof (induction junk n s rule: make_lines.induct)
  case (1 junk s)
  then show ?case by simp
next
  case (2 junk n s)
  obtain r s2 where f: "fetch_ref s = (r, s2)" by fastforce
  then have "remote_caches s2 = remote_caches s" "mem s2 = mem s"
    by (auto simp: fetch_ref_def pool_fetch_def ref_generator_def Let_def split: list.splits)
  with 2 [OF f [symmetric]] show ?case by (simp add: f)
qed

lemma fresh_transparent:
  assumes ok: "ok m" and n: "0 < n" "n < 2 ^ 31"
    and D: "0 \<notin> fst ` set (D @ R)" "distinct (map fst (D @ R))" "\<forall>(p, k) \<in> set (D @ R). owned m p = Some k"
    and r: "RemoteCacheImpl C junk n m = Inr s"
  shows "transparent E W ok owned word D R s []"
proof -
  from r obtain q m' where a: "cap_alloc C m (64 * int n) = Inr (q, m')"
    and s: "s = make_lines junk n \<lparr> lines = [], remote_caches = [], prealloc_cas_result = [], origin_address = q,
            refs = (\<lambda>_. 0), next_ref = 0, reference_pool = [], dealloc_pool = [],
            metrics = CacheMetrics, is_leader = False, mem = m' \<rparr>" (is "s = make_lines junk n ?s")
    by (auto simp: RemoteCacheImpl_def split: sum.splits)
  note A = alloc_fresh [OF ok a]
  have cnt: "ref_count h = None" "cobj_wf h" if "h \<in> set (data_handles (D @ R))" for h
    using that by (auto simp: data_handles_def)
  have ob: "owned_objs [] ?s (data_handles (D @ R)) = D @ R"
    by (simp add: owned_objs_def task_owners_def temps_data [OF D(1)])
  have "owned (mem ?s) p = Some k" "p \<noteq> 0" if "(p, k) \<in> set (D @ R)" for p k
  proof -
    from D(3) that have o: "owned m p = Some k" by auto
    with A have "p \<noteq> q" by auto
    with A o show "owned (mem ?s) p = Some k" by simp
    show "p \<noteq> 0" using D(1) that by (metis fst_conv image_eqI)
  qed
  then have "objects_ok owned [] ?s (data_handles (D @ R))"
    using D(2) unfolding objects_ok_def ob by blast
  moreover have "handles_ok [] ?s (data_handles (D @ R))" using cnt by (simp add: handles_ok_def)
  moreover have "counters_ok [] ?s (data_handles (D @ R))" by (simp add: counters_ok_def task_owners_def)
  ultimately have "core ok owned (map line_owner (lines ?s)) ?s (data_handles (D @ R))"
    using A by (simp add: core_def)
  from make_lines_core [OF this, of junk n] have
    M: "core ok owned (map line_owner (lines s)) s (data_handles (D @ R))"
      "\<forall>l \<in> set (lines s). local_ptr l = 0 \<and> address l = 0" "length (lines s) = n"
    by (simp_all add: s)
  have "cache_inv ok owned s (data_handles (D @ R))"
    using M n by (simp add: cache_inv_def)
  moreover have "remote_caches s = []" using make_lines_frame [of junk n ?s] by (simp add: s)
  moreover have "line_fresh E word (fst ` set D) s i (lines s ! i)" if "i < length (lines s)" for i
    using M(2) nth_mem [OF that] by (simp add: line_fresh_def)
  moreover from calculation have "peers_in W R s" by (simp add: peers_in_def)
  ultimately show ?thesis using D(1) by (simp add: transparent_def)
qed

lemma with_peers_transparent:
  assumes t: "transparent E W ok owned word D R s H" and e: "\<forall>l \<in> set (lines s). address l = 0"
    and w: "\<forall>rt \<in> set rts. \<forall>h < length (lines s). remote_line rt h \<in> W \<inter> fst ` set R"
  shows "transparent E W ok owned word D R (with_peers rts qs s) H"
proof -
  note T = transparentD [OF t]
  note I = cache_invD [OF T(1)]
  have "core ok owned (map line_owner (lines s)) (with_peers rts qs s) (H @ data_handles (D @ R))"
    using I(1) by (rule core_frame) (simp_all add: with_peers_def)
  then have "cache_inv ok owned (with_peers rts qs s) (H @ data_handles (D @ R))"
    using I(3-5) by (simp add: cache_inv_def with_peers_def)
  moreover have "peers_in W R (with_peers rts qs s)" using w by (simp add: peers_in_def with_peers_def)
  moreover have "line_fresh E word (fst ` set D) (with_peers rts qs s) i (lines s ! i)"
    if "i < length (lines s)" for i
    using e nth_mem [OF that] by (simp add: line_fresh_def)
  ultimately show ?thesis using T(3) unfolding transparent_def by (simp add: with_peers_def)
qed

end

section \<open>Properties\<close>


text \<open>
  C5: a read after a write by the same thread returns the value written, even when the object
  was cached before the write: the write invalidates the thread's own copy, and its
  compare-and-swaps on the peers' lines leave everything else as it is.
\<close>

theorem read_after_write:
  assumes "memory_pool_values C W ok owned word" and "transparent E W ok owned word D R s H"
    and "unmark_ptr p \<in> fst ` set D" and "is_marked p"
    and "Write E C p v 0 ack s = Inr s1" and "ExtendedRead E C p sz szT 0 prio s1 = Inr (h, s2)"
  shows "transparent E W ok owned word D R s2 (h # H) \<and> word (mem s2) (obj h) = v"
proof -
  from memory_pool_values.Write_transparent [OF assms(1-5)] assms(3)
  have t: "transparent E W ok owned word D R s1 H" and w: "word (mem s1) (unmark_ptr p) = v" by fastforce+
  from memory_pool_values.ExtendedRead_transparent [OF assms(1) t assms(3,6)] w show ?thesis by simp
qed

section \<open>Witnesses\<close>

text \<open>A node with one peer, whose two lines are at 256 and 320; the peer caches the object 64.\<close>

definition mem1 :: cpool where
  "mem1 = \<lparr> allocat = (\<lambda>p. if p = 64 then Some 8 else if p = 256 \<or> p = 320 then Some 64 else None),
     heap = (\<lambda>p. if p = 64 then 5 else if p = 256 then 64 else 0),
     free_addrs = [1024, 2048, 4096, 8192], total_allocations = 0, total_deallocations = 0 \<rparr>"

definition cache1 :: "cpool cache" where
  "cache1 = with_peers [256] [512] (case RemoteCacheImpl counting_pool 0 2 mem1 of Inr s \<Rightarrow> s)"

lemma mem1_ok: "faux_ok mem1"
  by (simp add: faux_ok_def mem1_def)

lemma cache1_eval: "\<exists>s. RemoteCacheImpl counting_pool 0 2 mem1 = Inr s \<and> cache1 = with_peers [256] [512] s \<and>
    (\<forall>l \<in> set (lines s). address l = 0) \<and> length (lines s) = 2"
  by (simp add: cache1_def RemoteCacheImpl_def counting_pool_def faux_Allocate_def mem1_def
      make_lines_2 fetch_ref_def pool_fetch_def ref_generator_def)

lemma cache1_transparent: "transparent env0 UNIV faux_ok allocat heap [(64, 8)] [(256, 64), (320, 64)] cache1 []"
proof -
  from cache1_eval obtain s where s: "RemoteCacheImpl counting_pool 0 2 mem1 = Inr s"
    "cache1 = with_peers [256] [512] s" "\<forall>l \<in> set (lines s). address l = 0" "length (lines s) = 2" by blast
  have "transparent env0 UNIV faux_ok allocat heap [(64, 8)] [(256, 64), (320, 64)] s []"
    by (rule faux.fresh_transparent [OF mem1_ok _ _ _ _ _ s(1)]) (simp_all add: mem1_def)
  then show ?thesis unfolding s(2)
    by (rule faux.with_peers_transparent) (use s in \<open>auto simp: remote_line_def less_2_cases_iff\<close>)
qed

lemma cache1_fields: "dealloc_pool cache1 = []" "free_addrs (mem cache1) = [2048, 4096, 8192]"
    "allocat (mem cache1) = (allocat mem1)(1024 := Some 128)" "heap (mem cache1) = heap mem1"
    "reference_pool cache1 = []"
  by (simp_all add: cache1_def with_peers_def RemoteCacheImpl_def counting_pool_def faux_Allocate_def mem1_def
      make_lines_2 fetch_ref_def pool_fetch_def ref_generator_def)

lemma cache1_lines: "lines cache1 =
    [\<lparr> address = 0, priority = 2147483647, local_ptr = 0, lsize = 0, ref_counter = 0 \<rparr>,
     \<lparr> address = 0, priority = 2147483647, local_ptr = 0, lsize = 0, ref_counter = 1 \<rparr>]"
    "remote_caches cache1 = [256]"
  by (simp_all add: cache1_def with_peers_def RemoteCacheImpl_def counting_pool_def faux_Allocate_def mem1_def
      make_lines_2 fetch_ref_def pool_fetch_def ref_generator_def)

lemma idx: "line_index env0 s 64 = 0" if "length (lines s) = 2"
  using that by (simp add: line_index_def cache_hash_def hash_offset_def env0_def mix13_def
      xorshift33_def unat_mod)

lemma u64_64: "unmark_ptr 64 = 64"
  by (simp add: unmark_ptr_def ptr_mask_def)

lemmas cache1_eval_simps = ExtendedRead_def try_free_some_def cache1_fields cache1_lines idx u64_64
  conflict_miss_def install_line_def handle_free_def fetch_ref_def pool_fetch_def
  ref_generator_def share_line_def bump_def set_line_def release_ref_def counting_pool_def
  pool_release_def faux_ExtendedRead_def faux_Allocate_def faux_Deallocate_def faux_Write_def

lemma cold_read: "\<exists>h s'. ExtendedRead env0 counting_pool (mark_ptr 64) 1 8 0 0 cache1 = Inr (h, s')"
  by (simp add: cache1_eval_simps Let_def split: list.split prod.split sum.split)


lemma write_then_read:
  "\<exists>s1 h s2. Write env0 counting_pool (mark_ptr 64) 7 0 True cache1 = Inr s1 \<and>
             ExtendedRead env0 counting_pool (mark_ptr 64) 1 8 0 0 s1 = Inr (h, s2)"
  by (simp add: cache1_eval_simps Write_def invalidate_def faux_CompareAndSwap_def remote_line_def Let_def split: list.split prod.split sum.split)

theorem read_after_write_witness:
  "\<exists>s1 h s2. Write env0 counting_pool (mark_ptr 64) 7 0 True cache1 = Inr s1 \<and>
             ExtendedRead env0 counting_pool (mark_ptr 64) 1 8 0 0 s1 = Inr (h, s2) \<and>
             heap (mem s2) (obj h) = 7"
proof -
  from write_then_read obtain s1 h s2 where
    w: "Write env0 counting_pool (mark_ptr 64) 7 0 True cache1 = Inr s1"
    and r: "ExtendedRead env0 counting_pool (mark_ptr 64) 1 8 0 0 s1 = Inr (h, s2)" by blast
  have "unmark_ptr (mark_ptr 64) \<in> fst ` set [(64 :: rptr, 8 :: int)]" "is_marked (mark_ptr 64)"
    by (simp_all add: u64_64)
  from read_after_write [OF faux.memory_pool_values_axioms cache1_transparent this w r] w r
  show ?thesis by blast
qed

end
