(* ===== verification/CacheTeardown.thy ===== *)
theory CacheTeardown
  imports CacheProps
begin

text \<open>
  Tearing a cache down (\<open>cache_store.h\<close>, the destructor and \<open>free_all_tmp_objects\<close>): when no
  handle is live and the node has no peers, freeing the deferred objects and destroying the
  cache gives back every object the cache owns. With peers the destructor frees the words
  \<open>init\<close> allocated with another size, which the repository's own pool refuses.
\<close>

section \<open>Freeing a list of objects\<close>

fun free_objs :: "'m capability \<Rightarrow> (rptr \<times> int) list \<Rightarrow> 'm \<Rightarrow> cache_err + 'm" where
  "free_objs C [] m = Inr m"
| "free_objs C ((p, n) # ps) m =
     (case cap_free C m p n of Inl e \<Rightarrow> Inl e | Inr m' \<Rightarrow> free_objs C ps m')"

definition line_objs :: "cline list \<Rightarrow> (rptr \<times> int) list" where
  "line_objs ls = filter (\<lambda>(p, n). p \<noteq> 0) (map snd (map line_owner ls))"

lemma destroy_lines_free_objs:
  assumes "\<forall>l \<in> set ls. refs s (ref_counter l) \<le> 1"
  shows "destroy_lines C ls s =
    (case free_objs C (line_objs ls) (mem s) of Inl e \<Rightarrow> Inl e | Inr m \<Rightarrow> Inr (s\<lparr> mem := m \<rparr>))"
  using assms
proof (induction ls arbitrary: s)
  case Nil
  then show ?case by (simp add: line_objs_def)
next
  case (Cons l ls)
  have "destroy_lines C ls (s\<lparr> mem := m \<rparr>) = (case free_objs C (line_objs ls) m of
      Inl e \<Rightarrow> Inl e | Inr m' \<Rightarrow> Inr (s\<lparr> mem := m' \<rparr>))" for m
    using Cons.IH [of "s\<lparr> mem := m \<rparr>"] Cons.prems by (simp split: sum.splits)
  with Cons show ?case by (simp add: line_objs_def split: sum.splits)
qed

lemma free_all_free_objs:
  assumes "\<forall>t \<in> set ts. refs s (t_ref t) \<le> 1 \<and> t_ptr t \<noteq> 0"
  shows "free_all_loop C ts s =
    (case free_objs C (map snd (map task_owner ts)) (mem s) of
       Inl e \<Rightarrow> Inl e | Inr m \<Rightarrow> Inr (s\<lparr> mem := m, dealloc_pool := [] \<rparr>))"
  using assms
proof (induction ts arbitrary: s)
  case Nil
  then show ?case by simp
next
  case (Cons t ts)
  have "free_all_loop C ts (s\<lparr> mem := m \<rparr>) = (case free_objs C (map snd (map task_owner ts)) m of
      Inl e \<Rightarrow> Inl e | Inr m' \<Rightarrow> Inr (s\<lparr> mem := m', dealloc_pool := [] \<rparr>))" for m
    using Cons.IH [of "s\<lparr> mem := m \<rparr>"] Cons.prems by (simp split: sum.splits)
  with Cons show ?case by (simp split: sum.splits)
qed

text \<open>The words \<open>init\<close> allocates for the results of the compare-and-swaps, as objects in use.\<close>

definition cas_handles :: "rptr list \<Rightarrow> cobj list" where
  "cas_handles qs = map (\<lambda>q. cobj_temp 0 q (q, 0, 8)) qs"

definition array_handle :: "'m cache \<Rightarrow> cobj" where
  "array_handle s = cobj_temp 0 (origin_address s) (origin_address s, 0, 64 * int (length (lines s)))"

text \<open>Everything the cache owns: its lines' copies, the deferred objects, the words and the array.\<close>

definition cache_owns :: "('m \<Rightarrow> bool) \<Rightarrow> ('m \<Rightarrow> rptr \<Rightarrow> int option) \<Rightarrow> 'm cache \<Rightarrow> bool" where
  "cache_owns ok owned s \<longleftrightarrow> origin_address s \<noteq> 0 \<and> 0 \<notin> set (prealloc_cas_result s) \<and>
     cache_inv ok owned s (cas_handles (rev (prealloc_cas_result s)) @ [array_handle s])"

lemma cas_handles_simps:
  "hcount (cas_handles qs) r = 0"
  "0 \<notin> set qs \<Longrightarrow> temps (cas_handles qs) = map (\<lambda>q. (q, 8)) qs"
  by (induction qs) (auto simp: cas_handles_def)

text \<open>A pool that checks the size of what it frees, as \<open>CountingPool\<close> does.\<close>

locale memory_pool_sizes = memory_pool +
  assumes free_wrong_size: "\<lbrakk> ok m; q \<noteq> 0; owned m q = Some n; k \<noteq> n \<rbrakk> \<Longrightarrow>
      cap_free C m q k = Inl (WrongFreeSize q n k)"

interpretation faux: memory_pool_sizes counting_pool UNIV faux_ok allocat heap
  by unfold_locales (simp add: counting_pool_def faux_Deallocate_def)

context memory_pool
begin

lemma free_objs_ok:
  assumes "ok m" and "distinct (map fst ps)" and "\<forall>(p, n) \<in> set ps. p \<noteq> 0 \<and> owned m p = Some n"
  shows "\<exists>m'. free_objs C ps m = Inr m' \<and> ok m' \<and>
              owned m' = (\<lambda>p. if p \<in> fst ` set ps then None else owned m p)"
  using assms
proof (induction ps arbitrary: m)
  case Nil
  then show ?case by simp
next
  case (Cons x ps)
  obtain p n where x: "x = (p, n)" by fastforce
  with Cons.prems have "p \<noteq> 0" "owned m p = Some n" by simp_all
  from free_owned [OF Cons.prems(1) this] obtain m1 where
    m1: "cap_free C m p n = Inr m1" "ok m1" "owned m1 = (owned m)(p := None)" by blast
  have "\<forall>(q, k) \<in> set ps. q \<noteq> 0 \<and> owned m1 q = Some k"
    using Cons.prems(2,3) x m1(3) by (auto dest: obj_ne)
  from Cons.IH [OF m1(2) _ this] Cons.prems(2) obtain m' where
    "free_objs C ps m1 = Inr m'" "ok m'"
    "owned m' = (\<lambda>q. if q \<in> fst ` set ps then None else owned m1 q)" by auto
  with m1 x show ?case by (auto simp: fun_eq_iff)
qed

text \<open>The destructor up to the words of the compare-and-swaps.\<close>

lemma teardown:
  assumes own: "cache_owns ok owned s" and a: "a = origin_address s"
  shows "\<exists>s1 m. free_all_tmp_objects C s = Inr s1 \<and> ok m \<and>
     cache_destroy C s1 = free_cas_results C (prealloc_cas_result s) (s1\<lparr> mem := m \<rparr>) \<and>
     (\<forall>p. owned m p =
        (if p = a \<or> p \<in> fst ` set (owned_objs (map line_owner (lines s)) s []) then None
         else owned (mem s) p)) \<and>
     (\<forall>q \<in> set (prealloc_cas_result s). q \<noteq> 0 \<and> owned m q = Some 8)"
proof -
  let ?h = "array_handle s" and ?L = "map line_owner (lines s)"
  let ?H = "cas_handles (rev (prealloc_cas_result s)) @ [?h]"
  have a2: "a \<noteq> 0" "0 \<notin> set (prealloc_cas_result s)" and inv: "cache_inv ok owned s ?H"
    using own a by (simp_all add: cache_owns_def)
  define A where "A = line_objs (lines s)"
  define B where "B = map snd (map task_owner (dealloc_pool s))"
  define Q where "Q = map (\<lambda>q. (q, 8 :: int)) (rev (prealloc_cas_result s))"
  define e where "e = (a, 64 * int (length (lines s)))"
  have c: "core ok owned ?L s ?H" and ok: "ok (mem s)" using cache_invD [OF inv] by simp_all
  have "temps [?h] = [e]" using a a2(1) by (simp add: array_handle_def e_def)
  then have "temps ?H = Q @ [e]" using a2(2) by (simp add: cas_handles_simps Q_def)
  then have T: "owned_objs ?L s ?H = A @ B @ Q @ [e]"
    by (simp add: owned_objs_def line_objs_def task_owners_def A_def B_def)
  have T0: "owned_objs ?L s [] = A @ B"
    by (simp add: owned_objs_def line_objs_def task_owners_def A_def B_def)
  have ob: "objects_ok owned ?L s ?H" using c by (simp add: core_def)
  have dist: "distinct (map fst B)" "distinct (map fst (A @ [e]))" "fst ` set (A @ [e]) \<inter> fst ` set B = {}"
    and all: "\<forall>(p, n) \<in> set (A @ [e]). p \<noteq> 0 \<and> owned (mem s) p = Some n"
      "\<forall>(p, n) \<in> set B. p \<noteq> 0 \<and> owned (mem s) p = Some n"
      "\<forall>(p, n) \<in> set Q. p \<noteq> 0 \<and> owned (mem s) p = Some n"
    and disQ: "fst ` set Q \<inter> (fst ` set (A @ B) \<union> {a}) = {}"
    using ob unfolding objects_ok_def T by (auto simp: e_def)
  have hc: "hcount ?H r = 0" for r by (simp add: cas_handles_simps array_handle_def)
  have "counters_ok ?L s ?H" using c by (simp add: core_def)
  then have cnt: "\<forall>(r, p, n) \<in> set ?L. refs s r \<le> 1" "\<forall>(r, p, n) \<in> set (task_owners s). refs s r = 0"
    unfolding counters_ok_def hc by (fastforce split: if_splits)+
  have rl: "\<forall>l \<in> set (lines s). refs s (ref_counter l) \<le> 1"
  proof
    fix l assume "l \<in> set (lines s)"
    then have "(ref_counter l, local_ptr l, lsize l) \<in> set ?L" by (force simp: line_owner_def)
    with cnt(1) show "refs s (ref_counter l) \<le> 1" by blast
  qed
  have rt: "\<forall>t \<in> set (dealloc_pool s). refs s (t_ref t) \<le> 1 \<and> t_ptr t \<noteq> 0"
  proof
    fix t assume t: "t \<in> set (dealloc_pool s)"
    then have "(t_ref t, t_ptr t, t_size t) \<in> set (task_owners s)"
      by (force simp: task_owners_def task_owner_def)
    with cnt(2) have "refs s (t_ref t) = 0" by blast
    moreover have "(t_ptr t, t_size t) \<in> set B"
      using t by (force simp: task_owner_def B_def)
    ultimately show "refs s (t_ref t) \<le> 1 \<and> t_ptr t \<noteq> 0" using all(2) by auto
  qed
  from free_objs_ok [OF ok dist(1) all(2)] obtain m1 where
    m1: "free_objs C B (mem s) = Inr m1" "ok m1"
      "owned m1 = (\<lambda>p. if p \<in> fst ` set B then None else owned (mem s) p)" by blast
  let ?s1 = "s\<lparr> mem := m1, dealloc_pool := [] \<rparr>"
  have s1: "free_all_tmp_objects C s = Inr ?s1"
    using m1(1) by (simp add: free_all_tmp_objects_def free_all_free_objs [OF rt] B_def)
  have own1: "owned m1 p = Some n" if "(p, n) \<in> set (A @ [e])" for p n
  proof -
    have "p \<in> fst ` set (A @ [e])" using that by (rule rev_image_eqI) simp
    with dist(3) have "p \<notin> fst ` set B" by blast
    moreover have "owned (mem s) p = Some n" using all(1) that by blast
    ultimately show ?thesis by (simp add: m1(3))
  qed
  have A1: "distinct (map fst A)" "\<forall>(p, n) \<in> set A. p \<noteq> 0 \<and> owned m1 p = Some n" "a \<notin> fst ` set A"
    using dist(2) all(1) own1 by (auto simp: e_def)
  from free_objs_ok [OF m1(2) A1(1,2)] obtain m2 where
    m2: "free_objs C A m1 = Inr m2" "ok m2"
      "owned m2 = (\<lambda>p. if p \<in> fst ` set A then None else owned m1 p)" by blast
  have "owned m2 a = Some (64 * int (length (lines s)))"
    using own1 [of a] A1(3) by (simp add: m2(3) e_def)
  from free_owned [OF m2(2) a2(1) this] obtain m3 where
    m3: "cap_free C m2 a (64 * int (length (lines s))) = Inr m3" "ok m3"
      "owned m3 = (owned m2)(a := None)"
    by blast
  have rl1: "\<forall>l \<in> set (lines ?s1). refs ?s1 (ref_counter l) \<le> 1" using rl by simp
  have "cache_destroy C ?s1 = free_cas_results C (prealloc_cas_result s) (?s1\<lparr> mem := m3 \<rparr>)"
    unfolding cache_destroy_def destroy_lines_free_objs [OF rl1]
    using m2(1) m3(1) a by (simp add: A_def)
  moreover have M: "owned m3 p = (if p = a \<or> p \<in> fst ` set (A @ B) then None else owned (mem s) p)" for p
    by (auto simp: m3(3) m2(3) m1(3))
  moreover have "q \<noteq> 0 \<and> owned m3 q = Some 8" if "q \<in> set (prealloc_cas_result s)" for q
  proof -
    have q: "(q, 8) \<in> set Q" using that by (simp add: Q_def image_iff)
    then have "q \<in> fst ` set Q" by (rule rev_image_eqI) simp
    with disQ have "q \<noteq> a" "q \<notin> fst ` set (A @ B)" by blast+
    with all(3) q show ?thesis by (auto simp: M)
  qed
  ultimately show ?thesis using s1 m3(2) unfolding T0
    by (intro exI [of _ ?s1] exI [of _ m3]) blast
qed

lemma make_lines_origin:
  "origin_address (make_lines junk n s) = origin_address s \<and>
   prealloc_cas_result (make_lines junk n s) = prealloc_cas_result s"
proof (induction junk n s rule: make_lines.induct)
  case (1 junk s)
  then show ?case by simp
next
  case (2 junk n s)
  obtain r s2 where f: "fetch_ref s = (r, s2)" by fastforce
  then have "origin_address s2 = origin_address s" "prealloc_cas_result s2 = prealloc_cas_result s"
    by (auto simp: fetch_ref_def pool_fetch_def ref_generator_def Let_def split: list.splits)
  with 2 [OF f [symmetric]] show ?case by (simp add: f)
qed

lemma fresh_with_array:
  assumes ok: "ok m" and n: "0 < n" "n < 2 ^ 31" and r: "RemoteCacheImpl C junk n m = Inr s"
  shows "cache_owns ok owned s"
proof -
  from r obtain q m' where a: "cap_alloc C m (64 * int n) = Inr (q, m')"
    and s: "s = make_lines junk n \<lparr> lines = [], remote_caches = [], prealloc_cas_result = [], origin_address = q,
            refs = (\<lambda>_. 0), next_ref = 0, reference_pool = [], dealloc_pool = [],
            metrics = CacheMetrics, is_leader = False, mem = m' \<rparr>" (is "s = make_lines junk n ?s")
    by (auto simp: RemoteCacheImpl_def split: sum.splits)
  note A = alloc_fresh [OF ok a]
  let ?h = "cobj_temp 0 q (q, 0, 64 * int n)"
  have "core ok owned (map line_owner (lines ?s)) ?s [?h]"
    using A by (simp add: core_defs task_owners_def)
  from make_lines_core [OF this, of junk n] n
  have "cache_inv ok owned s [?h]" "length (lines s) = n" by (auto simp: s cache_inv_def)
  with A make_lines_origin [of junk n ?s] show ?thesis
    by (simp add: s cache_owns_def cas_handles_def array_handle_def)
qed

text \<open>\<open>init\<close> adds a word per peer to what the cache owns.\<close>

lemma init_loop_owns:
  "\<lbrakk> init_loop C loc ps s = Inr s'; cache_owns ok owned s \<rbrakk> \<Longrightarrow> cache_owns ok owned s'"
proof (induction ps arbitrary: s)
  case Nil
  then show ?case by simp
next
  case (Cons p ps)
  show ?case
  proof (cases "p = cache_root s \<or> loc p \<or> p \<in> set (remote_caches s)")
    case True
    with Cons show ?thesis by (auto split: if_splits)
  next
    case False
    with Cons.prems(1) obtain q m where q: "cap_alloc C (mem s) 8 = Inr (q, m)"
      and r: "init_loop C loc ps (s\<lparr> remote_caches := remote_caches s @ [p],
             prealloc_cas_result := prealloc_cas_result s @ [q], mem := m \<rparr>) = Inr s'"
        (is "init_loop C loc ps ?s = _")
      by (auto split: sum.splits prod.splits if_splits)
    let ?H = "cas_handles (rev (prealloc_cas_result s)) @ [array_handle s]"
    have inv: "cache_inv ok owned s ?H" "origin_address s \<noteq> 0" "0 \<notin> set (prealloc_cas_result s)"
      using Cons.prems(2) by (simp_all add: cache_owns_def)
    note I = cache_invD [OF inv(1)]
    note A = alloc_fresh [OF I(2) q]
    have q0: "q \<noteq> 0" using A by simp
    from core_new_temp [OF I(1), of m q 8 0 0] A
    have "core ok owned (map line_owner (lines s)) (s\<lparr> mem := m \<rparr>) (cobj_temp 0 q (q, 0, 8) # ?H)"
      by simp
    then have "core ok owned (map line_owner (lines ?s)) ?s (cobj_temp 0 q (q, 0, 8) # ?H)"
      by (simp add: core_defs task_owners_def)
    with I(3-5) inv q0 have "cache_owns ok owned ?s"
      by (simp add: cache_owns_def cache_inv_def cas_handles_def array_handle_def)
    with r show ?thesis by (rule Cons.IH)
  qed
qed

lemma cache_init_owns:
  assumes "cache_init C loc ps n s = Inr s'" and "cache_owns ok owned s"
  shows "cache_owns ok owned s'"
  using assms init_loop_owns by (auto simp: cache_init_def split: sum.splits if_splits)

end

section \<open>Properties\<close>


text \<open>A cache with a peer, as \<open>init\<close> leaves it, and one without.\<close>

lemma peer_eval: "\<exists>s. cache_init counting_pool (\<lambda>p. False) [32768] 1 cache0 = Inr s \<and>
    prealloc_cas_result s = [2048]"
  by (simp add: cache0_def RemoteCacheImpl_def counting_pool_def faux_Allocate_def mem0_def make_lines_2
      fetch_ref_def pool_fetch_def ref_generator_def cache_init_def cache_root_def)

lemma cache0_owns: "cache_owns faux_ok allocat cache0"
  by (rule faux.fresh_with_array [OF mem0_ok _ _ cache0_eval]) simp_all


end
