(* ===== verification/Coherence.thy ===== *)
theory Coherence
  imports MarkPtr
begin

text \<open>
  The coherence protocol of \<open>dcache/include/dcache/cache_store.h\<close> between nodes: threads of
  several nodes read, write and invalidate shared objects; each node keeps one cache line per
  hash index. A step is one access to shared memory or one lock operation, in the order of
  \<open>ExtendedRead\<close> (lines 335 to 455), \<open>Write\<close> (474 to 491) and \<open>invalidate\<close>
  (142 to 190), in the build with the reader-writer lock and \<open>ASYNC_INVALIDATE\<close>. What a
  remote CAS does to a line may fall between any two steps of the node's own threads.

  \<open>invalidate\<close> has two behaviours. With acknowledgement it posts its compare-and-swaps as a
  batch, which the network completes in any order, and awaits them all. Without, it posts
  them and returns: each is a packet in \<open>flying\<close> that may be delivered at any later step. A
  write to an unmarked pointer may also be one without acknowledgement, so \<open>store_raw\<close> may
  take effect at any time and belongs to no thread.

  Versions, \<open>seen\<close>, \<open>acked\<close> and the bound a read carries are ghosts: no step of the
  program depends on them.
\<close>

section \<open>State\<close>

type_synonym node = nat
type_synonym tid = nat

text \<open>A copy: the version of the write it comes from (a ghost) and the value.\<close>

type_synonym copy = "nat \<times> u64"

record lrec =
  laddr :: u64
  ldata :: copy
  lex :: "tid option"
  lsh :: "tid list"

text \<open>
  Where a thread is. \<open>lo\<close> is the newest version acknowledged when the read started; the flag
  of a write says whether it waits for its acknowledgements (\<open>RDMAWriteWithAck\<close>).
\<close>

datatype pc =
    Idle
  | RdStart rptr nat
  | RdShared rptr nat
  | RdUpCoh rptr nat
  | RdUpConf rptr u64 nat
  | RdExCoh rptr nat
  | RdExConf rptr nat
  | RdCohStore rptr u64 nat
  | RdFill rptr nat
  | RdGot rptr copy nat
  | RdUncached rptr nat
  | WrLocal rptr nat bool
  | WrLocalEx rptr nat bool
  | WrRemote rptr nat "node list"

record cstate =
  memv :: "rptr \<Rightarrow> u64"
  mver :: "rptr \<Rightarrow> nat"
  hist :: "rptr \<Rightarrow> nat \<Rightarrow> u64"
  cl :: "node \<Rightarrow> nat \<Rightarrow> lrec"
  pcs :: "tid \<Rightarrow> pc"
  seen :: "node \<Rightarrow> rptr \<Rightarrow> nat"
  acked :: "rptr \<Rightarrow> nat"
  flying :: "(node \<times> rptr \<times> nat) list"

text \<open>The clique: its nodes, where each thread runs, and the hash all nodes share.\<close>

record clique =
  nodes :: "node list"
  node_of :: "tid \<Rightarrow> node"
  lhash :: "rptr \<Rightarrow> nat"

datatype event =
    Tau
  | EReadStart tid rptr
  | ERead tid rptr copy
  | EWritten tid rptr
  | EPosted tid rptr

section \<open>Updates\<close>

definition set_pc :: "tid \<Rightarrow> pc \<Rightarrow> cstate \<Rightarrow> cstate" where
  "set_pc t p s = s\<lparr> pcs := (pcs s)(t := p) \<rparr>"

definition upd_line :: "node \<Rightarrow> nat \<Rightarrow> (lrec \<Rightarrow> lrec) \<Rightarrow> cstate \<Rightarrow> cstate" where
  "upd_line n i f s = s\<lparr> cl := (cl s)(n := (cl s n)(i := f (cl s n i))) \<rparr>"

definition store_mem :: "rptr \<Rightarrow> u64 \<Rightarrow> cstate \<Rightarrow> cstate" where
  "store_mem a x s = s\<lparr> memv := (memv s)(a := x), mver := (mver s)(a := Suc (mver s a)),
       hist := (hist s)(a := (hist s a)(Suc (mver s a) := x)) \<rparr>"

definition see :: "node \<Rightarrow> rptr \<Rightarrow> nat \<Rightarrow> cstate \<Rightarrow> cstate" where
  "see n a k s = s\<lparr> seen := (seen s)(n := (seen s n)(a := max (seen s n a) k)) \<rparr>"

definition ack :: "rptr \<Rightarrow> nat \<Rightarrow> cstate \<Rightarrow> cstate" where
  "ack a k s = s\<lparr> acked := (acked s)(a := max (acked s a) k) \<rparr>"

text \<open>\<open>invalidate\<close> on a line of the own node, and the CAS on a line of another node.\<close>

definition mark_line :: "rptr \<Rightarrow> lrec \<Rightarrow> lrec" where
  "mark_line a l = (if unmark_ptr (laddr l) = a then l\<lparr> laddr := laddr l OR ptr_mask \<rparr> else l)"

definition cas_line :: "rptr \<Rightarrow> lrec \<Rightarrow> lrec" where
  "cas_line a l = (if laddr l = a then l\<lparr> laddr := a OR ptr_mask \<rparr> else l)"

text \<open>The compare-and-swap of version \<open>k\<close> of \<open>a\<close> reaches node \<open>m\<close>; posting one for every peer.\<close>

definition cas_at :: "clique \<Rightarrow> node \<Rightarrow> rptr \<Rightarrow> nat \<Rightarrow> cstate \<Rightarrow> cstate" where
  "cas_at Q m a k s = see m a k (upd_line m (lhash Q a) (cas_line a) s)"

definition post :: "node list \<Rightarrow> rptr \<Rightarrow> nat \<Rightarrow> cstate \<Rightarrow> cstate" where
  "post ms a k s = s\<lparr> flying := flying s @ map (\<lambda>m. (m, a, k)) ms \<rparr>"

definition drop_packet :: "node \<times> rptr \<times> nat \<Rightarrow> cstate \<Rightarrow> cstate" where
  "drop_packet x s = s\<lparr> flying := remove1 x (flying s) \<rparr>"

definition ptr_ok :: "rptr \<Rightarrow> bool" where
  "ptr_ok a \<longleftrightarrow> a \<noteq> 0 \<and> \<not> is_marked a"

section \<open>Steps\<close>

text \<open>The line of the object \<open>a\<close> on the node of thread \<open>t\<close>.\<close>

abbreviation my_line :: "clique \<Rightarrow> cstate \<Rightarrow> tid \<Rightarrow> rptr \<Rightarrow> lrec" where
  "my_line Q s t a \<equiv> cl s (node_of Q t) (lhash Q a)"

abbreviation peers :: "clique \<Rightarrow> tid \<Rightarrow> node list" where
  "peers Q t \<equiv> filter (\<lambda>m. m \<noteq> node_of Q t) (nodes Q)"

abbreviation upd_my :: "clique \<Rightarrow> tid \<Rightarrow> rptr \<Rightarrow> (lrec \<Rightarrow> lrec) \<Rightarrow> cstate \<Rightarrow> cstate" where
  "upd_my Q t a f s \<equiv> upd_line (node_of Q t) (lhash Q a) f s"

inductive cstep :: "clique \<Rightarrow> cstate \<Rightarrow> event \<Rightarrow> cstate \<Rightarrow> bool" for Q where
  read_start:
    "\<lbrakk> pcs s t = Idle; ptr_ok a \<rbrakk> \<Longrightarrow>
     cstep Q s (EReadStart t a) (set_pc t (RdStart a (acked s a)) s)"
| lock_shared:
    "\<lbrakk> pcs s t = RdStart a lo; lex (my_line Q s t a) = None \<rbrakk> \<Longrightarrow>
     cstep Q s Tau (set_pc t (RdShared a lo) (upd_my Q t a (\<lambda>l. l\<lparr> lsh := t # lsh l \<rparr>) s))"
| hit:
    "\<lbrakk> pcs s t = RdShared a lo; laddr (my_line Q s t a) = a \<rbrakk> \<Longrightarrow>
     cstep Q s (ERead t a (ldata (my_line Q s t a)))
       (set_pc t Idle (upd_my Q t a (\<lambda>l. l\<lparr> lsh := remove1 t (lsh l) \<rparr>) s))"
| miss_coherence:
    "\<lbrakk> pcs s t = RdShared a lo; unmark_ptr (laddr (my_line Q s t a)) = a;
       is_marked (laddr (my_line Q s t a)) \<rbrakk> \<Longrightarrow>
     cstep Q s Tau (set_pc t (RdUpCoh a lo) (upd_my Q t a (\<lambda>l. l\<lparr> lsh := remove1 t (lsh l) \<rparr>) s))"
| miss_conflict:
    "\<lbrakk> pcs s t = RdShared a lo; unmark_ptr (laddr (my_line Q s t a)) \<noteq> a \<rbrakk> \<Longrightarrow>
     cstep Q s Tau (set_pc t (RdUpConf a (unmark_ptr (laddr (my_line Q s t a))) lo)
       (upd_my Q t a (\<lambda>l. l\<lparr> lsh := remove1 t (lsh l) \<rparr>) s))"
| miss_priority:
    "\<lbrakk> pcs s t = RdShared a lo; unmark_ptr (laddr (my_line Q s t a)) \<noteq> a \<rbrakk> \<Longrightarrow>
     cstep Q s Tau (set_pc t (RdUncached a lo) (upd_my Q t a (\<lambda>l. l\<lparr> lsh := remove1 t (lsh l) \<rparr>) s))"
| upgrade_coherence:
    "\<lbrakk> pcs s t = RdUpCoh a lo; lex (my_line Q s t a) = None; lsh (my_line Q s t a) = [];
       unmark_ptr (laddr (my_line Q s t a)) = a \<rbrakk> \<Longrightarrow>
     cstep Q s Tau (set_pc t (RdExCoh a lo) (upd_my Q t a (\<lambda>l. l\<lparr> lex := Some t \<rparr>) s))"
| upgrade_conflict:
    "\<lbrakk> pcs s t = RdUpConf a orig lo; lex (my_line Q s t a) = None; lsh (my_line Q s t a) = [];
       unmark_ptr (laddr (my_line Q s t a)) = orig \<rbrakk> \<Longrightarrow>
     cstep Q s Tau (set_pc t (RdExConf a lo) (upd_my Q t a (\<lambda>l. l\<lparr> lex := Some t \<rparr>) s))"
| retry_coherence:
    "\<lbrakk> pcs s t = RdUpCoh a lo; lex (my_line Q s t a) = None; lsh (my_line Q s t a) = [];
       unmark_ptr (laddr (my_line Q s t a)) \<noteq> a \<rbrakk> \<Longrightarrow>
     cstep Q s Tau (set_pc t (RdStart a lo) s)"
| retry_conflict:
    "\<lbrakk> pcs s t = RdUpConf a orig lo; lex (my_line Q s t a) = None; lsh (my_line Q s t a) = [];
       unmark_ptr (laddr (my_line Q s t a)) \<noteq> orig \<rbrakk> \<Longrightarrow>
     cstep Q s Tau (set_pc t (RdStart a lo) s)"
| load_address:
    "pcs s t = RdExCoh a lo \<Longrightarrow>
     cstep Q s Tau (set_pc t (RdCohStore a (laddr (my_line Q s t a)) lo) s)"
| clear_invalid:
    "pcs s t = RdCohStore a x lo \<Longrightarrow>
     cstep Q s Tau (set_pc t (RdFill a lo) (upd_my Q t a (\<lambda>l. l\<lparr> laddr := unmark_ptr x \<rparr>) s))"
| swap_address:
    "pcs s t = RdExConf a lo \<Longrightarrow>
     cstep Q s Tau (set_pc t (RdFill a lo) (upd_my Q t a (\<lambda>l. l\<lparr> laddr := a \<rparr>) s))"
| fetch_object:
    "pcs s t = RdFill a lo \<Longrightarrow>
     cstep Q s Tau (set_pc t (RdGot a (mver s a, memv s a) lo) s)"
| install:
    "pcs s t = RdGot a v lo \<Longrightarrow>
     cstep Q s (ERead t a v)
       (set_pc t Idle (upd_my Q t a (\<lambda>l. l\<lparr> ldata := v, lex := None \<rparr>) s))"
| read_uncached:
    "pcs s t = RdUncached a lo \<Longrightarrow>
     cstep Q s (ERead t a (mver s a, memv s a)) (set_pc t Idle s)"
| store_raw:
    "ptr_ok a \<Longrightarrow> cstep Q s Tau (store_mem a x s)"
| write_start:
    "\<lbrakk> pcs s t = Idle; ptr_ok a \<rbrakk> \<Longrightarrow>
     cstep Q s Tau (set_pc t (WrLocal a (Suc (mver s a)) wait) (store_mem a x s))"
| invalidate_start:
    "\<lbrakk> pcs s t = Idle; ptr_ok a \<rbrakk> \<Longrightarrow> cstep Q s Tau (set_pc t (WrLocal a (mver s a) True) s)"
| local_lock:
    "\<lbrakk> pcs s t = WrLocal a k wait; lex (my_line Q s t a) = None; lsh (my_line Q s t a) = [] \<rbrakk> \<Longrightarrow>
     cstep Q s Tau (set_pc t (WrLocalEx a k wait) (upd_my Q t a (\<lambda>l. l\<lparr> lex := Some t \<rparr>) s))"
| local_mark:
    "pcs s t = WrLocalEx a k True \<Longrightarrow>
     cstep Q s Tau (set_pc t (WrRemote a k (peers Q t))
       (see (node_of Q t) a k (upd_my Q t a (\<lambda>l. (mark_line a l)\<lparr> lex := None \<rparr>) s)))"
| remote_cas:
    "\<lbrakk> pcs s t = WrRemote a k S; m \<in> set S \<rbrakk> \<Longrightarrow>
     cstep Q s Tau (set_pc t (WrRemote a k (remove1 m S)) (cas_at Q m a k s))"
| write_done:
    "pcs s t = WrRemote a k [] \<Longrightarrow>
     cstep Q s (EWritten t a) (set_pc t Idle (ack a k s))"
| local_mark_noack:
    "pcs s t = WrLocalEx a k False \<Longrightarrow>
     cstep Q s (EPosted t a) (post (peers Q t) a k (set_pc t Idle
       (see (node_of Q t) a k (upd_my Q t a (\<lambda>l. (mark_line a l)\<lparr> lex := None \<rparr>) s))))"
| deliver:
    "(m, a, k) \<in> set (flying s) \<Longrightarrow>
     cstep Q s Tau (cas_at Q m a k (drop_packet (m, a, k) s))"

definition cinit :: "(rptr \<Rightarrow> u64) \<Rightarrow> cstate" where
  "cinit m = \<lparr> memv = m, mver = (\<lambda>_. 0), hist = (\<lambda>a _. m a),
     cl = (\<lambda>n i. \<lparr> laddr = 0, ldata = (0, 0), lex = None, lsh = [] \<rparr>),
     pcs = (\<lambda>_. Idle), seen = (\<lambda>_ _. 0), acked = (\<lambda>_. 0), flying = [] \<rparr>"

inductive creach :: "clique \<Rightarrow> cstate \<Rightarrow> bool" for Q where
  init: "creach Q (cinit m)"
| step: "\<lbrakk> creach Q s; cstep Q s e s' \<rbrakk> \<Longrightarrow> creach Q s'"

end
