(* ===== verification/CoherenceInv.thy ===== *)
theory CoherenceInv
  imports Coherence
begin

text \<open>
  The invariant of the coherence protocol, and its preservation by every step. The crux is
  the line: an unmarked line that no thread is filling holds a copy at least as new as every
  write whose invalidation has passed the node. Each step is shown to be a \<open>frame\<close> for the
  other threads, so that only the stepping thread and the line it touches need an argument.
\<close>

section \<open>The invariant\<close>

definition copy_ok :: "cstate \<Rightarrow> rptr \<Rightarrow> copy \<Rightarrow> bool" where
  "copy_ok s a v \<longleftrightarrow> fst v \<le> mver s a \<and> snd v = hist s a (fst v)"

text \<open>The object whose line a thread has locked exclusively, and the fills among them.\<close>

fun ex_obj :: "pc \<Rightarrow> rptr option" where
  "ex_obj (RdExCoh a lo) = Some a"
| "ex_obj (RdExConf a lo) = Some a"
| "ex_obj (RdCohStore a x lo) = Some a"
| "ex_obj (RdFill a lo) = Some a"
| "ex_obj (RdGot a v lo) = Some a"
| "ex_obj (WrLocalEx a k wait) = Some a"
| "ex_obj _ = None"

fun fills :: "pc \<Rightarrow> bool" where
  "fills (RdFill a lo) = True"
| "fills (RdGot a v lo) = True"
| "fills _ = False"

lemma fills_ex: "fills p \<Longrightarrow> ex_obj p \<noteq> None"
  by (cases p) simp_all

definition settled :: "cstate \<Rightarrow> lrec \<Rightarrow> bool" where
  "settled s l \<longleftrightarrow> (case lex l of None \<Rightarrow> True | Some t \<Rightarrow> \<not> fills (pcs s t))"

definition line_inv :: "clique \<Rightarrow> cstate \<Rightarrow> node \<Rightarrow> nat \<Rightarrow> bool" where
  "line_inv Q s n i \<longleftrightarrow>
     (\<forall>t. lex (cl s n i) = Some t \<longrightarrow>
        (\<exists>a. ex_obj (pcs s t) = Some a \<and> node_of Q t = n \<and> lhash Q a = i)) \<and>
     (let l = cl s n i; a = unmark_ptr (laddr l) in
        (a \<noteq> 0 \<longrightarrow> lhash Q a = i) \<and>
        (settled s l \<longrightarrow> a \<noteq> 0 \<longrightarrow>
           copy_ok s a (ldata l) \<and> (\<not> is_marked (laddr l) \<longrightarrow> seen s n a \<le> fst (ldata l))))"

fun thread_inv :: "clique \<Rightarrow> cstate \<Rightarrow> tid \<Rightarrow> pc \<Rightarrow> bool" where
  "thread_inv Q s t Idle = True"
| "thread_inv Q s t (RdStart a lo) = (ptr_ok a \<and> lo \<le> acked s a)"
| "thread_inv Q s t (RdShared a lo) = (ptr_ok a \<and> lo \<le> acked s a \<and> t \<in> set (lsh (my_line Q s t a)))"
| "thread_inv Q s t (RdUpCoh a lo) = (ptr_ok a \<and> lo \<le> acked s a)"
| "thread_inv Q s t (RdUpConf a orig lo) = (ptr_ok a \<and> lo \<le> acked s a)"
| "thread_inv Q s t (RdExCoh a lo) = (ptr_ok a \<and> lo \<le> acked s a \<and> unmark_ptr (laddr (my_line Q s t a)) = a)"
| "thread_inv Q s t (RdExConf a lo) = (ptr_ok a \<and> lo \<le> acked s a)"
| "thread_inv Q s t (RdCohStore a x lo) = (ptr_ok a \<and> lo \<le> acked s a \<and> unmark_ptr x = a)"
| "thread_inv Q s t (RdFill a lo) = (ptr_ok a \<and> lo \<le> acked s a \<and> unmark_ptr (laddr (my_line Q s t a)) = a)"
| "thread_inv Q s t (RdGot a v lo) =
     (ptr_ok a \<and> unmark_ptr (laddr (my_line Q s t a)) = a \<and> lo \<le> fst v \<and> copy_ok s a v \<and>
      (\<not> is_marked (laddr (my_line Q s t a)) \<longrightarrow> seen s (node_of Q t) a \<le> fst v))"
| "thread_inv Q s t (RdUncached a lo) = (ptr_ok a \<and> lo \<le> acked s a)"
| "thread_inv Q s t (WrLocal a k wait) = (ptr_ok a \<and> k \<le> mver s a)"
| "thread_inv Q s t (WrLocalEx a k wait) = (ptr_ok a \<and> k \<le> mver s a)"
| "thread_inv Q s t (WrRemote a k S) =
     (ptr_ok a \<and> k \<le> mver s a \<and> (\<forall>m \<in> set (nodes Q) - set S. k \<le> seen s m a))"

definition lock_inv :: "clique \<Rightarrow> cstate \<Rightarrow> tid \<Rightarrow> bool" where
  "lock_inv Q s t \<longleftrightarrow>
     (\<forall>a. ex_obj (pcs s t) = Some a \<longrightarrow> lex (my_line Q s t a) = Some t)"

definition mem_inv :: "clique \<Rightarrow> cstate \<Rightarrow> bool" where
  "mem_inv Q s \<longleftrightarrow>
     (\<forall>a. memv s a = hist s a (mver s a)) \<and> (\<forall>n a. seen s n a \<le> mver s a) \<and>
     (\<forall>a. acked s a \<le> mver s a) \<and>
     (\<forall>n \<in> set (nodes Q). \<forall>a. acked s a \<le> seen s n a) \<and>
     (\<forall>m a k. (m, a, k) \<in> set (flying s) \<longrightarrow> ptr_ok a \<and> k \<le> mver s a)"

definition cinv :: "clique \<Rightarrow> cstate \<Rightarrow> bool" where
  "cinv Q s \<longleftrightarrow> mem_inv Q s \<and> (\<forall>n i. line_inv Q s n i) \<and>
     (\<forall>t. thread_inv Q s t (pcs s t) \<and> lock_inv Q s t)"

section \<open>Frames\<close>

text \<open>What a step of thread \<open>t\<close> may do to a line another thread relies on.\<close>

definition line_frame :: "cstate \<Rightarrow> cstate \<Rightarrow> node \<Rightarrow> lrec \<Rightarrow> lrec \<Rightarrow> bool" where
  "line_frame s s' n l l' \<longleftrightarrow>
     lex l' = lex l \<and> ldata l' = ldata l \<and> unmark_ptr (laddr l') = unmark_ptr (laddr l) \<and>
     (\<not> is_marked (laddr l') \<longrightarrow> \<not> is_marked (laddr l) \<and>
        seen s' n (unmark_ptr (laddr l)) = seen s n (unmark_ptr (laddr l)))"

definition mem_frame :: "cstate \<Rightarrow> cstate \<Rightarrow> bool" where
  "mem_frame s s' \<longleftrightarrow>
     (\<forall>a. mver s a \<le> mver s' a \<and> acked s a \<le> acked s' a \<and>
          (\<forall>k \<le> mver s a. hist s' a k = hist s a k)) \<and>
     (\<forall>n a. seen s n a \<le> seen s' n a)"

lemma mem_frameD:
  assumes "mem_frame s s'"
  shows "mver s a \<le> mver s' a" "acked s a \<le> acked s' a" "seen s n a \<le> seen s' n a"
    "k \<le> mver s a \<Longrightarrow> hist s' a k = hist s a k"
  using assms by (simp_all add: mem_frame_def)

lemma copy_ok_frame: "mem_frame s s' \<Longrightarrow> copy_ok s a v \<Longrightarrow> copy_ok s' a v"
  using mem_frameD(1,4) [of s s'] by (auto simp: copy_ok_def intro: order_trans)

lemma thread_frame:
  assumes inv: "thread_inv Q s t p" and m: "mem_frame s s'"
    and ex: "\<And>a. ex_obj p = Some a \<Longrightarrow> line_frame s s' (node_of Q t) (my_line Q s t a) (my_line Q s' t a)"
    and sh: "\<And>a lo. p = RdShared a lo \<Longrightarrow> t \<in> set (lsh (my_line Q s' t a))"
  shows "thread_inv Q s' t p"
proof -
  note M = mem_frameD [OF m]
  have up: "lo \<le> acked s a \<Longrightarrow> lo \<le> acked s' a" for lo a using M(2) [of a] by simp
  have uk: "k \<le> mver s a \<Longrightarrow> k \<le> mver s' a" for k a using M(1) [of a] by simp
  have us: "k \<le> seen s n a \<Longrightarrow> k \<le> seen s' n a" for k n a using M(3) [of n a] by simp
  show ?thesis
  proof (cases p)
    case (RdGot a v lo)
    with inv ex [of a] copy_ok_frame [OF m] show ?thesis by (auto simp: line_frame_def)
  next
    case (WrRemote a k S)
    with inv uk us show ?thesis by auto
  next
    case (RdShared a lo)
    with inv up sh show ?thesis by auto
  next
    case (RdExCoh a lo)
    with inv up ex [of a] show ?thesis by (auto simp: line_frame_def)
  next
    case (RdFill a lo)
    with inv up ex [of a] show ?thesis by (auto simp: line_frame_def)
  qed (use inv up uk in auto)
qed

text \<open>A line no step has touched, or whose holder is another thread.\<close>

lemma line_inv_frame:
  assumes inv: "line_inv Q s n i" and m: "mem_frame s s'"
    and f: "line_frame s s' n (cl s n i) (cl s' n i)"
    and pc: "\<And>t. lex (cl s n i) = Some t \<Longrightarrow> pcs s' t = pcs s t"
  shows "line_inv Q s' n i"
proof -
  let ?l = "cl s n i" and ?l' = "cl s' n i"
  have F: "lex ?l' = lex ?l" "ldata ?l' = ldata ?l" "unmark_ptr (laddr ?l') = unmark_ptr (laddr ?l)"
    "\<not> is_marked (laddr ?l') \<Longrightarrow> \<not> is_marked (laddr ?l) \<and>
        seen s' n (unmark_ptr (laddr ?l)) = seen s n (unmark_ptr (laddr ?l))"
    using f by (simp_all add: line_frame_def)
  have st: "settled s' ?l' = settled s ?l"
    using pc by (simp add: settled_def F split: option.splits)
  from inv F copy_ok_frame [OF m] pc show ?thesis
    unfolding line_inv_def Let_def st by auto
qed

section \<open>One step\<close>

lemma cinvD:
  assumes "cinv Q s"
  shows "mem_inv Q s" "line_inv Q s n i" "thread_inv Q s t (pcs s t)"
    "ex_obj (pcs s t) = Some a \<Longrightarrow> lex (my_line Q s t a) = Some t"
    "lex (cl s n i) = Some t \<Longrightarrow> \<exists>a. ex_obj (pcs s t) = Some a \<and> node_of Q t = n \<and> lhash Q a = i"
  using assms by (auto simp: cinv_def lock_inv_def line_inv_def)

lemma cinv_stepI:
  assumes inv: "cinv Q s" and m: "mem_frame s s'" and mi: "mem_inv Q s'"
    and pc: "\<And>t'. t' \<noteq> t \<Longrightarrow> pcs s' t' = pcs s t'"
    and un: "\<And>n i. (n, i) \<noteq> (nn, ii) \<Longrightarrow> cl s' n i = cl s n i"
    and sn: "\<And>n i. (n, i) \<noteq> (nn, ii) \<Longrightarrow>
        seen s' n (unmark_ptr (laddr (cl s n i))) = seen s n (unmark_ptr (laddr (cl s n i)))"
    and nt: "\<And>b. ex_obj (pcs s t) = Some b \<Longrightarrow> node_of Q t = nn \<and> lhash Q b = ii"
    and l0: "line_inv Q s' nn ii"
    and fr: "\<And>t'. lex (cl s nn ii) = Some t' \<Longrightarrow> t' \<noteq> t \<Longrightarrow>
        line_frame s s' nn (cl s nn ii) (cl s' nn ii)"
    and sh: "set (lsh (cl s nn ii)) - {t} \<subseteq> set (lsh (cl s' nn ii))"
    and ti: "thread_inv Q s' t (pcs s' t)" and li: "lock_inv Q s' t"
  shows "cinv Q s'"
proof -
  note D = cinvD [OF inv]
  have lf: "line_frame s s' n (cl s n i) (cl s' n i)" if "(n, i) \<noteq> (nn, ii)" for n i
    using un [OF that] sn [OF that] by (simp add: line_frame_def)
  have other: "line_frame s s' n (cl s n i) (cl s' n i)"
    if "lex (cl s n i) = Some t'" "t' \<noteq> t" for n i t'
    using lf [of n i] fr that by (cases "(n, i) = (nn, ii)") auto
  have "line_inv Q s' n i" for n i
  proof (cases "(n, i) = (nn, ii)")
    case True
    with l0 show ?thesis by simp
  next
    case False
    have "t' \<noteq> t" if "lex (cl s n i) = Some t'" for t'
      using D(5) [OF that] nt False by auto
    with pc show ?thesis by (intro line_inv_frame [OF D(2) m lf [OF False]]) blast
  qed
  moreover have "thread_inv Q s' t' (pcs s' t') \<and> lock_inv Q s' t'" for t'
  proof (cases "t' = t")
    case True
    with ti li show ?thesis by simp
  next
    case False
    have ex: "lex (my_line Q s t' a) = Some t'" if "ex_obj (pcs s t') = Some a" for a
      using D(4) that .
    have "thread_inv Q s' t' (pcs s t')"
    proof (rule thread_frame [OF D(3) m])
      show "line_frame s s' (node_of Q t') (my_line Q s t' a) (my_line Q s' t' a)"
        if "ex_obj (pcs s t') = Some a" for a
        using other [OF ex [OF that] False] .
      show "t' \<in> set (lsh (my_line Q s' t' a))" if p: "pcs s t' = RdShared a lo" for a lo
      proof -
        have "t' \<in> set (lsh (my_line Q s t' a))" using D(3) [of t'] p by simp
        then show ?thesis using un [of "node_of Q t'" "lhash Q a"] sh False
          by (cases "(node_of Q t', lhash Q a) = (nn, ii)") auto
      qed
    qed
    moreover have "lock_inv Q s' t'"
      using ex other False by (auto simp: lock_inv_def pc [OF False] line_frame_def)
    ultimately show ?thesis by (simp add: pc [OF False])
  qed
  ultimately show ?thesis using mi by (simp add: cinv_def)
qed

text \<open>A step of no thread, which every line survives.\<close>

lemma frame_step:
  assumes inv: "cinv Q s" and m: "mem_frame s s'" and mi: "mem_inv Q s'" and pc: "pcs s' = pcs s"
    and lf: "\<And>n i. line_frame s s' n (cl s n i) (cl s' n i)"
    and sh: "\<And>n i. lsh (cl s' n i) = lsh (cl s n i)"
  shows "cinv Q s'"
proof -
  note D = cinvD [OF inv]
  have "line_inv Q s' n i" for n i by (rule line_inv_frame [OF D(2) m lf]) (simp add: pc)
  moreover have "thread_inv Q s' t (pcs s' t) \<and> lock_inv Q s' t" for t
  proof
    show "thread_inv Q s' t (pcs s' t)"
      unfolding pc by (rule thread_frame [OF D(3) m lf]) (use D(3) [of t] in \<open>simp add: sh\<close>)
    show "lock_inv Q s' t" using D(4) lf by (auto simp: lock_inv_def pc line_frame_def)
  qed
  ultimately show ?thesis using mi by (simp add: cinv_def)
qed

text \<open>Steps that leave memory and its ghosts alone.\<close>

lemma upd_simps [simp]:
  "pcs (set_pc t p s) = (pcs s)(t := p)" "cl (set_pc t p s) = cl s" "memv (set_pc t p s) = memv s"
  "mver (set_pc t p s) = mver s" "hist (set_pc t p s) = hist s" "seen (set_pc t p s) = seen s"
  "acked (set_pc t p s) = acked s" "flying (set_pc t p s) = flying s"
  "pcs (upd_line n i f s) = pcs s" "memv (upd_line n i f s) = memv s"
  "mver (upd_line n i f s) = mver s" "hist (upd_line n i f s) = hist s"
  "seen (upd_line n i f s) = seen s" "acked (upd_line n i f s) = acked s"
  "flying (upd_line n i f s) = flying s"
  "pcs (store_mem a x s) = pcs s" "cl (store_mem a x s) = cl s" "seen (store_mem a x s) = seen s"
  "acked (store_mem a x s) = acked s" "flying (store_mem a x s) = flying s"
  "pcs (see n a k s) = pcs s" "cl (see n a k s) = cl s" "memv (see n a k s) = memv s"
  "mver (see n a k s) = mver s" "hist (see n a k s) = hist s" "acked (see n a k s) = acked s"
  "flying (see n a k s) = flying s" "flying (ack a k s) = flying s"
  "pcs (post ms a k s) = pcs s" "cl (post ms a k s) = cl s" "memv (post ms a k s) = memv s"
  "mver (post ms a k s) = mver s" "hist (post ms a k s) = hist s" "seen (post ms a k s) = seen s"
  "acked (post ms a k s) = acked s"
  "pcs (drop_packet y s) = pcs s" "cl (drop_packet y s) = cl s" "memv (drop_packet y s) = memv s"
  "mver (drop_packet y s) = mver s" "hist (drop_packet y s) = hist s"
  "seen (drop_packet y s) = seen s" "acked (drop_packet y s) = acked s"
  "pcs (ack a k s) = pcs s" "cl (ack a k s) = cl s" "memv (ack a k s) = memv s"
  "mver (ack a k s) = mver s" "hist (ack a k s) = hist s" "seen (ack a k s) = seen s"
  by (simp_all add: set_pc_def upd_line_def store_mem_def see_def ack_def post_def drop_packet_def)

lemma cl_upd_line: "cl (upd_line n i f s) m j = (if m = n \<and> j = i then f (cl s n i) else cl s m j)"
  by (simp add: upd_line_def)

lemma upd_line_id [simp]: "upd_line n i (\<lambda>l. l) s = s"
  by (simp add: upd_line_def)

lemma pure_step:
  assumes inv: "cinv Q s" and s': "s' = set_pc t p (upd_my Q t a f s)"
    and nt: "\<And>b. ex_obj (pcs s t) = Some b \<Longrightarrow> b = a"
    and l0: "line_inv Q s' (node_of Q t) (lhash Q a)"
    and fr: "\<And>t'. lex (my_line Q s t a) = Some t' \<Longrightarrow> t' \<noteq> t \<Longrightarrow>
        line_frame s s' (node_of Q t) (my_line Q s t a) (f (my_line Q s t a))"
    and sh: "set (lsh (my_line Q s t a)) - {t} \<subseteq> set (lsh (f (my_line Q s t a)))"
    and ti: "thread_inv Q s' t p"
    and li: "\<And>b. ex_obj p = Some b \<Longrightarrow> b = a \<and> lex (f (my_line Q s t a)) = Some t"
  shows "cinv Q s'"
proof (rule cinv_stepI [OF inv, where t = t and nn = "node_of Q t" and ii = "lhash Q a"])
  show "mem_frame s s'" by (simp add: mem_frame_def s')
  show "mem_inv Q s'" using cinvD(1) [OF inv] by (simp add: mem_inv_def s')
  show "lock_inv Q s' t" using li by (auto simp: lock_inv_def s' cl_upd_line)
qed (use nt l0 fr sh ti in \<open>auto simp: s' cl_upd_line\<close>)

text \<open>Steps of a thread without an exclusive lock that change at most who shares its line.\<close>

lemma quiet_step:
  assumes inv: "cinv Q s" and s': "s' = set_pc t p (upd_my Q t a f s)"
    and ex: "ex_obj (pcs s t) = None" "ex_obj p = None"
    and f: "\<And>l. lex (f l) = lex l \<and> laddr (f l) = laddr l \<and> ldata (f l) = ldata l"
    and sh: "set (lsh (my_line Q s t a)) - {t} \<subseteq> set (lsh (f (my_line Q s t a)))"
    and ti: "thread_inv Q s' t p"
  shows "cinv Q s'"
proof (rule pure_step [OF inv s' _ _ _ sh ti])
  have lf: "line_frame s s' n l (f l)" for n l
    by (simp add: line_frame_def f s')
  then show "line_frame s s' (node_of Q t) (my_line Q s t a) (f (my_line Q s t a))" .
  show "line_inv Q s' (node_of Q t) (lhash Q a)"
  proof (rule line_inv_frame [OF cinvD(2) [OF inv]])
    show "mem_frame s s'" by (simp add: mem_frame_def s')
    show "line_frame s s' (node_of Q t) (my_line Q s t a) (cl s' (node_of Q t) (lhash Q a))"
      using lf by (simp add: s' cl_upd_line)
    show "pcs s' t' = pcs s t'" if "lex (my_line Q s t a) = Some t'" for t'
      using cinvD(5) [OF inv that] ex(1) by (auto simp: s')
  qed
qed (use ex in auto)

text \<open>Taking the exclusive lock of a line.\<close>

lemma lock_step:
  assumes inv: "cinv Q s" and s': "s' = set_pc t p (upd_my Q t a (\<lambda>l. l\<lparr> lex := Some t \<rparr>) s)"
    and ex: "ex_obj (pcs s t) = None" "ex_obj p = Some a" "\<not> fills p"
    and free: "lex (my_line Q s t a) = None" and ti: "thread_inv Q s' t p"
  shows "cinv Q s'"
proof (rule pure_step [OF inv s' _ _ _ _ ti])
  have "settled s (my_line Q s t a)" using free by (simp add: settled_def)
  with cinvD(2) [OF inv, of "node_of Q t" "lhash Q a"]
  show "line_inv Q s' (node_of Q t) (lhash Q a)"
    using ex by (auto simp: line_inv_def Let_def s' cl_upd_line copy_ok_def)
qed (use ex free in auto)

text \<open>Steps of a thread that holds the exclusive lock of the object's line.\<close>

lemma held_step:
  assumes inv: "cinv Q s" and s': "s' = set_pc t p (upd_my Q t a f s)"
    and ex: "ex_obj (pcs s t) = Some a" "ex_obj p = Some a \<and> lex (f (my_line Q s t a)) = Some t \<or>
      ex_obj p = None \<and> lex (f (my_line Q s t a)) = None"
    and sh: "lsh (f (my_line Q s t a)) = lsh (my_line Q s t a)"
    and ad: "let x = unmark_ptr (laddr (f (my_line Q s t a))) in
        x \<noteq> 0 \<longrightarrow> lhash Q x = lhash Q a \<and> (fills p \<or>
          copy_ok s x (ldata (f (my_line Q s t a))) \<and>
          (\<not> is_marked (laddr (f (my_line Q s t a))) \<longrightarrow>
             seen s (node_of Q t) x \<le> fst (ldata (f (my_line Q s t a)))))"
    and ti: "thread_inv Q s' t p"
  shows "cinv Q s'"
proof -
  have own: "lex (my_line Q s t a) = Some t" using cinvD(4) [OF inv ex(1)] .
  show ?thesis
  proof (rule pure_step [OF inv s' _ _ _ _ ti])
    show "line_inv Q s' (node_of Q t) (lhash Q a)"
      using ex(2) ad fills_ex [of p]
      by (auto simp: line_inv_def Let_def s' cl_upd_line copy_ok_def settled_def)
  qed (use ex sh own in auto)
qed

text \<open>Steps on memory.\<close>

lemma store_step:
  assumes inv: "cinv Q s" and s': "s' = set_pc t p (store_mem a x s)"
    and ex: "ex_obj (pcs s t) = None" "ex_obj p = None" and ti: "thread_inv Q s' t p"
  shows "cinv Q s'"
proof -
  have m: "mem_frame s s'" by (auto simp: mem_frame_def s' store_mem_def)
  have lf: "line_frame s s' n l l" for n l by (simp add: line_frame_def s')
  show ?thesis
  proof (rule cinv_stepI [OF inv m, where t = t and nn = "node_of Q t" and ii = "lhash Q a"])
    show "mem_inv Q s'"
      using cinvD(1) [OF inv] by (auto simp: mem_inv_def s' store_mem_def le_SucI)
    show "line_inv Q s' (node_of Q t) (lhash Q a)"
      by (rule line_inv_frame [OF cinvD(2) [OF inv] m])
        (use lf cinvD(5) [OF inv, of "node_of Q t" "lhash Q a" t] ex(1) in \<open>auto simp: s'\<close>)
  qed (use ex ti lf in \<open>auto simp: s' lock_inv_def\<close>)
qed

lemma ack_step:
  assumes inv: "cinv Q s" and pc: "pcs s t = WrRemote a k []" and s': "s' = set_pc t Idle (ack a k s)"
  shows "cinv Q s'"
proof -
  have m: "mem_frame s s'" by (auto simp: mem_frame_def s' ack_def)
  have lf: "line_frame s s' n l l" for n l by (simp add: line_frame_def s')
  have ti: "thread_inv Q s t (WrRemote a k [])" using cinvD(3) [OF inv, of t] pc by simp
  show ?thesis
  proof (rule cinv_stepI [OF inv m, where t = t and nn = "node_of Q t" and ii = "lhash Q a"])
    show "mem_inv Q s'"
      using cinvD(1) [OF inv] ti by (auto simp: mem_inv_def s' ack_def)
    show "line_inv Q s' (node_of Q t) (lhash Q a)"
      by (rule line_inv_frame [OF cinvD(2) [OF inv] m])
        (use lf cinvD(5) [OF inv, of "node_of Q t" "lhash Q a" t] pc in \<open>auto simp: s'\<close>)
  qed (use pc lf in \<open>auto simp: s' lock_inv_def\<close>)
qed

lemma see_frame:
  assumes "mem_inv Q s" and "k \<le> mver s a" and "memv s' = memv s" "mver s' = mver s" "hist s' = hist s"
    "acked s' = acked s" "seen s' = (seen s)(n := (seen s n)(a := max (seen s n a) k))"
    "set (flying s') \<subseteq> set (flying s)"
  shows "mem_frame s s'" "mem_inv Q s'"
proof -
  show "mem_frame s s'" using assms by (simp add: mem_frame_def)
  show "mem_inv Q s'" using assms(1,2,8) unfolding mem_inv_def assms(3-7)
    by (fastforce simp: max.coboundedI1)
qed

text \<open>Packets that carry an invalidation of a version there has been may be posted.\<close>

lemma post_step:
  assumes inv: "cinv Q s" and a: "ptr_ok a" "k \<le> mver s a"
  shows "cinv Q (post ms a k s)"
proof (rule frame_step [OF inv])
  show "mem_frame s (post ms a k s)" by (simp add: mem_frame_def)
  show "mem_inv Q (post ms a k s)"
    using cinvD(1) [OF inv] a by (auto simp: mem_inv_def post_def)
qed (simp_all add: line_frame_def)

text \<open>An object has its line at its own index, so no other line is concerned.\<close>

lemma other_line:
  assumes inv: "cinv Q s" and "(n, i) \<noteq> (nn, lhash Q a)" and "a \<noteq> 0"
  shows "((seen s)(nn := (seen s nn)(a := k))) n (unmark_ptr (laddr (cl s n i))) =
         seen s n (unmark_ptr (laddr (cl s n i)))"
  using cinvD(2) [OF inv, of n i] assms(2,3) by (auto simp: line_inv_def Let_def)

lemma mark_mask:
  "unmark_ptr (x OR ptr_mask) = unmark_ptr x" "is_marked (x OR ptr_mask)"
  using cache_mark.untag_tag cache_mark.tagged_tag by (simp_all add: mark_ptr_def)

lemma local_mark_step:
  assumes inv: "cinv Q s" and pc: "pcs s t = WrLocalEx a k wait"
    and p: "p = Idle \<or> p = WrRemote a k (peers Q t)"
    and s': "s' = set_pc t p
       (see (node_of Q t) a k (upd_my Q t a (\<lambda>l. (mark_line a l)\<lparr> lex := None \<rparr>) s))"
  shows "cinv Q s'"
proof -
  let ?n = "node_of Q t" and ?i = "lhash Q a"
  have ti: "ptr_ok a" "k \<le> mver s a" using cinvD(3) [OF inv, of t] pc by simp_all
  have own: "lex (my_line Q s t a) = Some t" using cinvD(4) [OF inv, of t a] pc by simp
  have sn: "seen s' = (seen s)(?n := (seen s ?n)(a := max (seen s ?n a) k))"
    by (simp add: s' see_def upd_line_def)
  have l': "cl s' ?n ?i = (mark_line a (my_line Q s t a))\<lparr> lex := None \<rparr>"
    by (simp add: s' cl_upd_line)
  have F: "mem_frame s s'" "mem_inv Q s'"
    by (rule see_frame [OF cinvD(1) [OF inv] ti(2) _ _ _ _ sn]; simp add: s')+
  have st: "settled s (my_line Q s t a)" using own pc by (simp add: settled_def)
  show ?thesis
  proof (rule cinv_stepI [OF inv F(1) F(2), where t = t and nn = ?n and ii = ?i])
    have "unmark_ptr (laddr (mark_line a (my_line Q s t a))) = unmark_ptr (laddr (my_line Q s t a))"
      "ldata (mark_line a (my_line Q s t a)) = ldata (my_line Q s t a)"
      by (simp_all add: mark_line_def mark_mask)
    moreover have "\<not> is_marked (laddr (mark_line a (my_line Q s t a))) \<Longrightarrow>
        \<not> is_marked (laddr (my_line Q s t a)) \<and> unmark_ptr (laddr (my_line Q s t a)) \<noteq> a"
      by (auto simp: mark_line_def mark_mask split: if_splits)
    moreover have "copy_ok s' x v = copy_ok s x v" for x v by (simp add: copy_ok_def s')
    ultimately show "line_inv Q s' ?n ?i"
      using cinvD(2) [OF inv, of ?n ?i] st by (auto simp: line_inv_def Let_def l' sn)
    show "thread_inv Q s' t (pcs s' t)" using ti p by (auto simp: s' see_def)
    show "seen s' m (unmark_ptr (laddr (cl s m j))) = seen s m (unmark_ptr (laddr (cl s m j)))"
      if "(m, j) \<noteq> (?n, ?i)" for m j
      unfolding sn using other_line [OF inv that] ti(1) by (simp add: ptr_ok_def)
  qed (use pc own p in \<open>auto simp: s' cl_upd_line lock_inv_def mark_line_def\<close>)
qed

lemma cas_frame:
  assumes inv: "cinv Q s" and ti: "ptr_ok a" "k \<le> mver s a"
    and s1: "s1 = s \<or> s1 = drop_packet x s"
  shows "cinv Q (cas_at Q m a k s1)"
proof -
  let ?i = "lhash Q a" and ?s' = "cas_at Q m a k s1"
  have eq: "pcs s1 = pcs s" "cl s1 = cl s" "memv s1 = memv s" "mver s1 = mver s" "hist s1 = hist s"
    "seen s1 = seen s" "acked s1 = acked s" "set (flying s1) \<subseteq> set (flying s)"
    using s1 set_remove1_subset [of x "flying s"] by (auto simp: drop_packet_def)
  have sn: "seen ?s' = (seen s)(m := (seen s m)(a := max (seen s m a) k))"
    by (simp add: cas_at_def see_def upd_line_def eq)
  have F: "mem_frame s ?s'" "mem_inv Q ?s'"
    by (rule see_frame [OF cinvD(1) [OF inv] ti(2) _ _ _ _ sn]; simp add: cas_at_def eq)+
  show ?thesis
  proof (rule frame_step [OF inv F])
    show "line_frame s ?s' n (cl s n i) (cl ?s' n i)" for n i
    proof (cases "(n, i) = (m, ?i)")
      case False
      then have "cl ?s' n i = cl s n i" by (auto simp: cas_at_def cl_upd_line eq)
      moreover have "seen ?s' n (unmark_ptr (laddr (cl s n i))) = seen s n (unmark_ptr (laddr (cl s n i)))"
        unfolding sn using other_line [OF inv False] ti(1) by (simp add: ptr_ok_def)
      ultimately show ?thesis by (simp add: line_frame_def)
    next
      case True
      have "\<not> is_marked (laddr (cl s m ?i)) \<Longrightarrow> laddr (cl s m ?i) \<noteq> a \<Longrightarrow> unmark_ptr (laddr (cl s m ?i)) \<noteq> a"
        using cache_mark.untag_id by metis
      with True show ?thesis
        by (auto simp: line_frame_def cas_at_def cl_upd_line cas_line_def mark_mask see_def eq)
    qed
  qed (auto simp: cas_at_def cl_upd_line cas_line_def eq)
qed

lemma remote_cas_step:
  assumes inv: "cinv Q s" and pc: "pcs s t = WrRemote a k S" and m: "m \<in> set S"
    and s': "s' = set_pc t (WrRemote a k (remove1 m S)) (cas_at Q m a k s)"
  shows "cinv Q s'"
proof -
  have ti: "ptr_ok a" "k \<le> mver s a" "\<forall>n \<in> set (nodes Q) - set S. k \<le> seen s n a"
    using cinvD(3) [OF inv, of t] pc by simp_all
  have inv1: "cinv Q (cas_at Q m a k s)" using cas_frame [OF inv ti(1,2)] by blast
  have s1: "s' = set_pc t (WrRemote a k (remove1 m S)) (upd_my Q t a (\<lambda>l. l) (cas_at Q m a k s))"
    by (simp add: s')
  have "n = m \<or> k \<le> seen s n a" if "n \<in> set (nodes Q)" "n \<notin> set (remove1 m S)" for n
    using ti(3) that in_set_remove1 by fastforce
  then show ?thesis
    by (intro quiet_step [OF inv1 s1])
      (use pc ti in \<open>auto simp: cas_at_def s' see_def le_max_iff_disj upd_line_def set_pc_def\<close>)
qed

lemma mem_remove1: "x \<in> set xs \<Longrightarrow> x \<notin> set (remove1 t xs) \<Longrightarrow> x = t"
  by (metis in_set_remove1)

lemma cinv_step:
  assumes inv: "cinv Q s" and st: "cstep Q s e s'"
  shows "cinv Q s'"
  using st
proof cases
  case (read_start t a)
  have s': "s' = set_pc t (RdStart a (acked s a)) (upd_my Q t a (\<lambda>l. l) s)" using read_start by simp
  show ?thesis by (rule quiet_step [OF inv s']) (use read_start in simp_all)
next
  case (lock_shared t a lo)
  show ?thesis
    by (rule quiet_step [OF inv lock_shared(2)])
      (use lock_shared cinvD(3) [OF inv, of t] in \<open>auto simp: cl_upd_line\<close>)
next
  case (hit t a lo)
  show ?thesis by (rule quiet_step [OF inv hit(2)]) (use hit in \<open>auto dest: mem_remove1\<close>)
next
  case (miss_coherence t a lo)
  show ?thesis
    by (rule quiet_step [OF inv miss_coherence(2)])
      (use miss_coherence cinvD(3) [OF inv, of t] in \<open>auto dest: mem_remove1\<close>)
next
  case (miss_conflict t a lo)
  show ?thesis
    by (rule quiet_step [OF inv miss_conflict(2)])
      (use miss_conflict cinvD(3) [OF inv, of t] in \<open>auto dest: mem_remove1\<close>)
next
  case (miss_priority t a lo)
  show ?thesis
    by (rule quiet_step [OF inv miss_priority(2)])
      (use miss_priority cinvD(3) [OF inv, of t] in \<open>auto dest: mem_remove1\<close>)
next
  case (upgrade_coherence t a lo)
  show ?thesis
    by (rule lock_step [OF inv upgrade_coherence(2)])
      (use upgrade_coherence cinvD(3) [OF inv, of t] in \<open>auto simp: cl_upd_line\<close>)
next
  case (upgrade_conflict t a orig lo)
  show ?thesis
    by (rule lock_step [OF inv upgrade_conflict(2)])
      (use upgrade_conflict cinvD(3) [OF inv, of t] in \<open>auto simp: cl_upd_line\<close>)
next
  case (retry_coherence t a lo)
  have s': "s' = set_pc t (RdStart a lo) (upd_my Q t a (\<lambda>l. l) s)" using retry_coherence by simp
  show ?thesis
    by (rule quiet_step [OF inv s']) (use retry_coherence cinvD(3) [OF inv, of t] in auto)
next
  case (retry_conflict t a orig lo)
  have s': "s' = set_pc t (RdStart a lo) (upd_my Q t a (\<lambda>l. l) s)" using retry_conflict by simp
  show ?thesis
    by (rule quiet_step [OF inv s']) (use retry_conflict cinvD(3) [OF inv, of t] in auto)
next
  case (load_address t a lo)
  have s': "s' = set_pc t (RdCohStore a (laddr (my_line Q s t a)) lo) (upd_my Q t a (\<lambda>l. l) s)"
    using load_address by simp
  have own: "lex (my_line Q s t a) = Some t" using cinvD(4) [OF inv, of t a] load_address by simp
  have "settled s (my_line Q s t a)" using own load_address by (simp add: settled_def)
  then show ?thesis
    by (intro held_step [OF inv s'])
      (use load_address own cinvD(3) [OF inv, of t] cinvD(2) [OF inv, of "node_of Q t" "lhash Q a"] in
        \<open>auto simp: line_inv_def Let_def\<close>)
next
  case (clear_invalid t a x lo)
  have own: "lex (my_line Q s t a) = Some t" using cinvD(4) [OF inv, of t a] clear_invalid by simp
  show ?thesis
    by (rule held_step [OF inv clear_invalid(2)])
      (use clear_invalid own cinvD(3) [OF inv, of t] in \<open>auto simp: cl_upd_line\<close>)
next
  case (swap_address t a lo)
  have own: "lex (my_line Q s t a) = Some t" using cinvD(4) [OF inv, of t a] swap_address by simp
  have "ptr_ok a" using cinvD(3) [OF inv, of t] swap_address by simp
  then have "unmark_ptr a = a" by (simp add: ptr_ok_def cache_mark.untag_id)
  then show ?thesis
    by (intro held_step [OF inv swap_address(2)])
      (use swap_address own cinvD(3) [OF inv, of t] in \<open>auto simp: cl_upd_line\<close>)
next
  case (fetch_object t a lo)
  have s': "s' = set_pc t (RdGot a (mver s a, memv s a) lo) (upd_my Q t a (\<lambda>l. l) s)"
    using fetch_object by simp
  have own: "lex (my_line Q s t a) = Some t" using cinvD(4) [OF inv, of t a] fetch_object by simp
  have "lo \<le> mver s a"
    using cinvD(3) [OF inv, of t] cinvD(1) [OF inv] fetch_object
    by (auto simp: mem_inv_def intro: order_trans)
  then show ?thesis
    by (intro held_step [OF inv s'])
      (use fetch_object own cinvD(3) [OF inv, of t] cinvD(1) [OF inv] in
        \<open>auto simp: mem_inv_def copy_ok_def\<close>)
next
  case (install t a v lo)
  show ?thesis
    by (rule held_step [OF inv install(2)])
      (use install cinvD(3) [OF inv, of t] in auto)
next
  case (read_uncached t a lo)
  have s': "s' = set_pc t Idle (upd_my Q t a (\<lambda>l. l) s)" using read_uncached by simp
  show ?thesis by (rule quiet_step [OF inv s']) (use read_uncached in simp_all)
next
  case (store_raw a x)
  show ?thesis unfolding store_raw(2)
  proof (rule frame_step [OF inv])
    show "mem_frame s (store_mem a x s)" by (auto simp: mem_frame_def store_mem_def)
    show "mem_inv Q (store_mem a x s)"
      using cinvD(1) [OF inv] by (auto simp: mem_inv_def store_mem_def le_SucI)
  qed (simp_all add: line_frame_def)
next
  case (write_start t a wait x)
  show ?thesis
    by (rule store_step [OF inv write_start(2)]) (use write_start in \<open>simp_all add: store_mem_def\<close>)
next
  case (invalidate_start t a)
  have s': "s' = set_pc t (WrLocal a (mver s a) True) (upd_my Q t a (\<lambda>l. l) s)"
    using invalidate_start by simp
  show ?thesis by (rule quiet_step [OF inv s']) (use invalidate_start in simp_all)
next
  case (local_lock t a k wait)
  show ?thesis
    by (rule lock_step [OF inv local_lock(2)])
      (use local_lock cinvD(3) [OF inv, of t] in auto)
next
  case (local_mark t a k)
  show ?thesis by (rule local_mark_step [OF inv local_mark(3) _ local_mark(2)]) simp
next
  case (remote_cas t a k S m)
  show ?thesis by (rule remote_cas_step [OF inv remote_cas(3,4,2)])
next
  case (write_done t a k)
  show ?thesis by (rule ack_step [OF inv write_done(3,2)])
next
  case (local_mark_noack t a k)
  have ti: "ptr_ok a" "k \<le> mver s a" using cinvD(3) [OF inv, of t] local_mark_noack by simp_all
  show ?thesis unfolding local_mark_noack(2)
    by (rule post_step [OF local_mark_step [OF inv local_mark_noack(3) _ refl] ti(1)]) (simp_all add: ti)
next
  case (deliver m a k)
  then have "ptr_ok a" "k \<le> mver s a" using cinvD(1) [OF inv] by (auto simp: mem_inv_def)
  from cas_frame [OF inv this] show ?thesis unfolding deliver(2) by blast
qed

lemma cinv_init: "cinv Q (cinit m)"
  by (simp add: cinv_def mem_inv_def line_inv_def lock_inv_def cinit_def Let_def)

lemma cinv_reach: "creach Q s \<Longrightarrow> cinv Q s"
  by (induction rule: creach.induct) (auto intro: cinv_init cinv_step)

end
