(* ===== verification/CoherenceProps.thy ===== *)
theory CoherenceProps
  imports CoherenceInv
begin

text \<open>
  What the coherence protocol gives the readers and writers of an object, over runs of the
  step relation, and what it does not give.
\<close>

section \<open>Runs\<close>

inductive crun :: "clique \<Rightarrow> cstate \<Rightarrow> event list \<Rightarrow> cstate \<Rightarrow> bool" for Q where
  nil: "crun Q s [] s"
| cons: "\<lbrakk> cstep Q s e s'; crun Q s' es s'' \<rbrakk> \<Longrightarrow> crun Q s (e # es) s''"

lemma crun_reach: "crun Q s es s' \<Longrightarrow> creach Q s \<Longrightarrow> creach Q s'"
  by (induction rule: crun.induct) (auto intro: creach.step)

inductive_simps crun_simps: "crun Q s [] s'" "crun Q s (e # es) s'"

lemma acked_mono: "cstep Q s e s' \<Longrightarrow> acked s a \<le> acked s' a"
  by (cases rule: cstep.cases) (auto simp: ack_def cas_at_def)

lemma acked_mono_run: "crun Q s es s' \<Longrightarrow> acked s a \<le> acked s' a"
  by (induction rule: crun.induct) (auto dest: acked_mono [of Q _ _ _ a])

section \<open>What a reader carries\<close>

fun reading :: "pc \<Rightarrow> (rptr \<times> nat) option" where
  "reading (RdStart a lo) = Some (a, lo)"
| "reading (RdShared a lo) = Some (a, lo)"
| "reading (RdUpCoh a lo) = Some (a, lo)"
| "reading (RdUpConf a orig lo) = Some (a, lo)"
| "reading (RdExCoh a lo) = Some (a, lo)"
| "reading (RdExConf a lo) = Some (a, lo)"
| "reading (RdCohStore a x lo) = Some (a, lo)"
| "reading (RdFill a lo) = Some (a, lo)"
| "reading (RdGot a v lo) = Some (a, lo)"
| "reading (RdUncached a lo) = Some (a, lo)"
| "reading _ = None"

text \<open>The thread whose read returns.\<close>

fun read_of :: "event \<Rightarrow> tid option" where
  "read_of (ERead t a v) = Some t"
| "read_of _ = None"

lemma reading_step:
  assumes "cstep Q s e s'" and "reading (pcs s t) = Some (a, lo)" and "read_of e \<noteq> Some t"
  shows "reading (pcs s' t) = Some (a, lo)"
  using assms by (cases rule: cstep.cases) (auto simp: cas_at_def)

lemma reading_run:
  "\<lbrakk> crun Q s es s'; reading (pcs s t) = Some (a, lo); \<forall>e \<in> set es. read_of e \<noteq> Some t \<rbrakk> \<Longrightarrow>
   reading (pcs s' t) = Some (a, lo)"
proof (induction rule: crun.induct)
  case (nil s)
  then show ?case by simp
next
  case (cons s e s' es s'')
  from cons.prems(2) have "reading (pcs s' t) = Some (a, lo)"
    by (intro reading_step [OF cons.hyps(1) cons.prems(1)]) auto
  with cons show ?case by auto
qed

section \<open>The lock of a line\<close>

definition rw_inv :: "cstate \<Rightarrow> bool" where
  "rw_inv s \<longleftrightarrow> (\<forall>n i. lex (cl s n i) \<noteq> None \<longrightarrow> lsh (cl s n i) = [])"

lemma rw_step: "\<lbrakk> rw_inv s; cstep Q s e s' \<rbrakk> \<Longrightarrow> rw_inv s'"
  by (erule cstep.cases)
    (auto simp: rw_inv_def cl_upd_line mark_line_def cas_line_def see_def ack_def store_mem_def
      cas_at_def split: if_splits)

lemma rw_reach: "creach Q s \<Longrightarrow> rw_inv s"
proof (induction rule: creach.induct)
  case (init m)
  then show ?case by (simp add: rw_inv_def cinit_def)
next
  case (step s e s')
  then show ?case using rw_step by blast
qed

lemma lsh_lex:
  assumes "creach Q s" and "x \<in> set (lsh (cl s n i))"
  shows "lex (cl s n i) = None"
proof (rule ccontr)
  assume "lex (cl s n i) \<noteq> None"
  with rw_reach [OF assms(1)] have "lsh (cl s n i) = []" unfolding rw_inv_def by blast
  with assms(2) show False by simp
qed

section \<open>What a read returns\<close>

text \<open>A read returns a copy of a write that is not older than its bound.\<close>

lemma read_bound:
  assumes r: "creach Q s" and n: "node_of Q t \<in> set (nodes Q)"
    and st: "cstep Q s (ERead t a v) s'" and lo: "reading (pcs s t) = Some (b, lo)"
  shows "b = a \<and> lo \<le> fst v \<and> fst v \<le> mver s a \<and> snd v = hist s a (fst v)"
proof -
  note inv = cinv_reach [OF r]
  note M = cinvD(1) [OF inv, unfolded mem_inv_def]
  from st show ?thesis
  proof cases
    case (hit lo')
    let ?l = "my_line Q s t a"
    have ti: "ptr_ok a" "lo' \<le> acked s a" "t \<in> set (lsh ?l)"
      using cinvD(3) [OF inv, of t] hit by simp_all
    have um: "\<not> is_marked (laddr ?l)" "unmark_ptr (laddr ?l) = a" "a \<noteq> 0"
      using ti(1) hit cache_mark.untag_id [of a] by (simp_all add: ptr_ok_def)
    have "lex ?l = None" using lsh_lex [OF r ti(3)] .
    then have "settled s ?l" by (simp add: settled_def)
    with cinvD(2) [OF inv, of "node_of Q t" "lhash Q a"] um
    have L: "copy_ok s a (ldata ?l)" "seen s (node_of Q t) a \<le> fst (ldata ?l)"
      by (simp_all add: line_inv_def Let_def)
    have "acked s a \<le> seen s (node_of Q t) a" using M n by blast
    with L ti(2) hit lo show ?thesis by (simp add: copy_ok_def)
  next
    case (install lo')
    with cinvD(3) [OF inv, of t] lo show ?thesis by (simp add: copy_ok_def)
  next
    case (read_uncached lo')
    with cinvD(3) [OF inv, of t] lo M show ?thesis by (auto intro: order_trans)
  qed
qed

lemma written_acked:
  assumes "cstep Q s (EWritten w a) s'" and "pcs s w = WrRemote a k []"
  shows "k \<le> acked s' a"
  using assms by (cases rule: cstep.cases) (auto simp: ack_def)

section \<open>Properties\<close>


text \<open>
  C3: with no write of the object in flight, every valid cache line that holds it, on every
  node, has the contents of memory.
\<close>

theorem quiescent_lines_coherent:
  assumes "creach Q s" and "n \<in> set (nodes Q)" and "ptr_ok a"
    and "acked s a = mver s a" and "lex (cl s n i) = None" and "laddr (cl s n i) = a"
  shows "i = lhash Q a \<and> ldata (cl s n i) = (mver s a, memv s a)"
proof -
  let ?l = "cl s n i"
  note inv = cinv_reach [OF assms(1)]
  note M = cinvD(1) [OF inv, unfolded mem_inv_def]
  have um: "unmark_ptr (laddr ?l) = a" "\<not> is_marked (laddr ?l)" "a \<noteq> 0"
    using assms(3,6) cache_mark.untag_id by (simp_all add: ptr_ok_def)
  have "settled s ?l" using assms(5) by (simp add: settled_def)
  with cinvD(2) [OF inv, of n i] um
  have L: "lhash Q a = i" "copy_ok s a (ldata ?l)" "seen s n a \<le> fst (ldata ?l)"
    by (simp_all add: line_inv_def Let_def)
  have "acked s a \<le> seen s n a" using M assms(2) by blast
  with L(2,3) assms(4) have "fst (ldata ?l) = mver s a" by (simp add: copy_ok_def)
  with L M show ?thesis by (simp add: copy_ok_def prod_eq_iff)
qed

text \<open>Whoever holds the exclusive lock of a line is alone with it on the node.\<close>

lemma exclusive_alone:
  assumes "creach Q s" and "ex_obj (pcs s t) = Some a" and "node_of Q u = node_of Q t"
    and "lhash Q b = lhash Q a"
    and "ex_obj (pcs s u) = Some b \<or> (\<exists>lo. pcs s u = RdShared b lo)"
  shows "u = t \<and> b = a"
proof -
  note inv = cinv_reach [OF assms(1)]
  have lt: "lex (my_line Q s t a) = Some t" using cinvD(4) [OF inv assms(2)] .
  from assms(5) show ?thesis
  proof
    assume u: "ex_obj (pcs s u) = Some b"
    have "lex (my_line Q s u b) = Some u" using cinvD(4) [OF inv u] .
    with lt have "u = t" unfolding assms(3,4) by simp
    with u assms(2) show ?thesis by simp
  next
    assume "\<exists>lo. pcs s u = RdShared b lo"
    then have "u \<in> set (lsh (my_line Q s u b))" using cinvD(3) [OF inv, of u] by auto
    from lsh_lex [OF assms(1) this] have "lex (my_line Q s u b) = None" .
    with lt show ?thesis unfolding assms(3,4) by simp
  qed
qed

text \<open>A change of a line other than setting its invalid mark.\<close>

definition line_rewritten :: "lrec \<Rightarrow> lrec \<Rightarrow> bool" where
  "line_rewritten l l' \<longleftrightarrow> ldata l' \<noteq> ldata l \<or> unmark_ptr (laddr l') \<noteq> unmark_ptr (laddr l) \<or>
     is_marked (laddr l) \<and> \<not> is_marked (laddr l')"

lemma rewritten_by_holder:
  assumes "cstep Q s e s'" and "line_rewritten (cl s n i) (cl s' n i)"
  shows "\<exists>t a. ex_obj (pcs s t) = Some a \<and> pcs s' t \<noteq> pcs s t \<and> node_of Q t = n \<and> lhash Q a = i"
  using assms
  by (cases rule: cstep.cases)
    (auto simp: line_rewritten_def cl_upd_line cas_at_def mark_line_def cas_line_def mark_mask
      split: if_splits)


section \<open>A scheduler\<close>

text \<open>One command lets a thread take its next step, or start an operation.\<close>

datatype cmd =
    Go tid
  | Uncached tid
  | StartRead tid rptr
  | StartWrite tid rptr u64
  | PostWrite tid rptr u64
  | RawStore tid rptr u64
  | StartInvalidate tid rptr
  | Deliver node rptr nat

definition free_line :: "clique \<Rightarrow> cstate \<Rightarrow> tid \<Rightarrow> rptr \<Rightarrow> bool" where
  "free_line Q s t a \<longleftrightarrow> lex (my_line Q s t a) = None \<and> lsh (my_line Q s t a) = []"

definition leave_shared :: "clique \<Rightarrow> tid \<Rightarrow> rptr \<Rightarrow> pc \<Rightarrow> cstate \<Rightarrow> cstate" where
  "leave_shared Q t a p s = set_pc t p (upd_my Q t a (\<lambda>l. l\<lparr> lsh := remove1 t (lsh l) \<rparr>) s)"

fun go :: "clique \<Rightarrow> tid \<Rightarrow> pc \<Rightarrow> cstate \<Rightarrow> (event \<times> cstate) option" where
  "go Q t Idle s = None"
| "go Q t (RdStart a lo) s =
     (if lex (my_line Q s t a) = None
      then Some (Tau, set_pc t (RdShared a lo) (upd_my Q t a (\<lambda>l. l\<lparr> lsh := t # lsh l \<rparr>) s))
      else None)"
| "go Q t (RdShared a lo) s =
     (let x = laddr (my_line Q s t a) in
      if x = a then Some (ERead t a (ldata (my_line Q s t a)), leave_shared Q t a Idle s)
      else if unmark_ptr x \<noteq> a then Some (Tau, leave_shared Q t a (RdUpConf a (unmark_ptr x) lo) s)
      else if is_marked x then Some (Tau, leave_shared Q t a (RdUpCoh a lo) s)
      else None)"
| "go Q t (RdUpCoh a lo) s =
     (if \<not> free_line Q s t a then None
      else if unmark_ptr (laddr (my_line Q s t a)) = a
      then Some (Tau, set_pc t (RdExCoh a lo) (upd_my Q t a (\<lambda>l. l\<lparr> lex := Some t \<rparr>) s))
      else Some (Tau, set_pc t (RdStart a lo) s))"
| "go Q t (RdUpConf a orig lo) s =
     (if \<not> free_line Q s t a then None
      else if unmark_ptr (laddr (my_line Q s t a)) = orig
      then Some (Tau, set_pc t (RdExConf a lo) (upd_my Q t a (\<lambda>l. l\<lparr> lex := Some t \<rparr>) s))
      else Some (Tau, set_pc t (RdStart a lo) s))"
| "go Q t (RdExCoh a lo) s = Some (Tau, set_pc t (RdCohStore a (laddr (my_line Q s t a)) lo) s)"
| "go Q t (RdExConf a lo) s =
     Some (Tau, set_pc t (RdFill a lo) (upd_my Q t a (\<lambda>l. l\<lparr> laddr := a \<rparr>) s))"
| "go Q t (RdCohStore a x lo) s =
     Some (Tau, set_pc t (RdFill a lo) (upd_my Q t a (\<lambda>l. l\<lparr> laddr := unmark_ptr x \<rparr>) s))"
| "go Q t (RdFill a lo) s = Some (Tau, set_pc t (RdGot a (mver s a, memv s a) lo) s)"
| "go Q t (RdGot a v lo) s =
     Some (ERead t a v, set_pc t Idle (upd_my Q t a (\<lambda>l. l\<lparr> ldata := v, lex := None \<rparr>) s))"
| "go Q t (RdUncached a lo) s = Some (ERead t a (mver s a, memv s a), set_pc t Idle s)"
| "go Q t (WrLocal a k wait) s =
     (if free_line Q s t a
      then Some (Tau, set_pc t (WrLocalEx a k wait) (upd_my Q t a (\<lambda>l. l\<lparr> lex := Some t \<rparr>) s)) else None)"
| "go Q t (WrLocalEx a k wait) s =
     (let marked = see (node_of Q t) a k (upd_my Q t a (\<lambda>l. (mark_line a l)\<lparr> lex := None \<rparr>) s) in
      if wait then Some (Tau, set_pc t (WrRemote a k (peers Q t)) marked)
      else Some (EPosted t a, post (peers Q t) a k (set_pc t Idle marked)))"
| "go Q t (WrRemote a k (m # S)) s =
     Some (Tau, set_pc t (WrRemote a k S) (cas_at Q m a k s))"
| "go Q t (WrRemote a k []) s = Some (EWritten t a, set_pc t Idle (ack a k s))"

fun cexec :: "clique \<Rightarrow> cmd \<Rightarrow> cstate \<Rightarrow> (event \<times> cstate) option" where
  "cexec Q (Go t) s = go Q t (pcs s t) s"
| "cexec Q (Uncached t) s =
     (case pcs s t of
        RdShared a lo \<Rightarrow>
          if unmark_ptr (laddr (my_line Q s t a)) \<noteq> a
          then Some (Tau, leave_shared Q t a (RdUncached a lo) s) else None
      | _ \<Rightarrow> None)"
| "cexec Q (StartRead t a) s =
     (if pcs s t = Idle \<and> ptr_ok a
      then Some (EReadStart t a, set_pc t (RdStart a (acked s a)) s) else None)"
| "cexec Q (StartWrite t a x) s =
     (if pcs s t = Idle \<and> ptr_ok a
      then Some (Tau, set_pc t (WrLocal a (Suc (mver s a)) True) (store_mem a x s)) else None)"
| "cexec Q (PostWrite t a x) s =
     (if pcs s t = Idle \<and> ptr_ok a
      then Some (Tau, set_pc t (WrLocal a (Suc (mver s a)) False) (store_mem a x s)) else None)"
| "cexec Q (RawStore t a x) s = (if ptr_ok a then Some (Tau, store_mem a x s) else None)"
| "cexec Q (StartInvalidate t a) s =
     (if pcs s t = Idle \<and> ptr_ok a then Some (Tau, set_pc t (WrLocal a (mver s a) True) s) else None)"
| "cexec Q (Deliver m a k) s =
     (if (m, a, k) \<in> set (flying s)
      then Some (Tau, cas_at Q m a k (drop_packet (m, a, k) s)) else None)"

lemma first_cas:
  "pcs s t = WrRemote a k (m # S) \<Longrightarrow> cstep Q s Tau (set_pc t (WrRemote a k S) (cas_at Q m a k s))"
  using cstep.remote_cas [of s t a k "m # S" m Q] by simp

lemma go_sound: "go Q t p s = Some (e, s') \<Longrightarrow> pcs s t = p \<Longrightarrow> cstep Q s e s'"
  by (induction Q t p s rule: go.induct)
    (auto simp: leave_shared_def free_line_def Let_def intro: cstep.intros first_cas split: if_splits)

lemma cexec_sound: "cexec Q c s = Some (e, s') \<Longrightarrow> cstep Q s e s'"
  by (cases c) (auto dest: go_sound simp: leave_shared_def intro: cstep.intros
      split: if_splits pc.splits)

fun crun_cmds :: "clique \<Rightarrow> cmd list \<Rightarrow> cstate \<Rightarrow> (event list \<times> cstate) option" where
  "crun_cmds Q [] s = Some ([], s)"
| "crun_cmds Q (c # cs) s =
     (case cexec Q c s of
        None \<Rightarrow> None
      | Some (e, s') \<Rightarrow>
          (case crun_cmds Q cs s' of None \<Rightarrow> None | Some (es, s'') \<Rightarrow> Some (e # es, s'')))"

lemma crun_cmds_sound: "crun_cmds Q cs s = Some (es, s') \<Longrightarrow> crun Q s es s'"
proof (induction cs arbitrary: s es)
  case Nil
  then show ?case by (auto intro: crun.nil)
next
  case (Cons c cs)
  then obtain e s1 es' where
    "cexec Q c s = Some (e, s1)" "crun_cmds Q cs s1 = Some (es', s')" "es = e # es'"
    by (auto split: option.splits)
  with Cons.IH show ?case by (auto intro: crun.cons cexec_sound)
qed

section \<open>What the protocol does not give\<close>

definition clique2 :: clique where
  "clique2 = \<lparr> nodes = [0, 1], node_of = (\<lambda>t. if t = 1 then 1 else 0), lhash = (\<lambda>a. 0) \<rparr>"

definition inversion_run :: "cmd list" where
  "inversion_run =
     [StartRead 1 64, Go 1, Go 1, Go 1, Go 1, Go 1, Go 1,
      StartWrite 0 64 5,
      StartRead 2 64, Go 2, Go 2, Go 2, Go 2, Go 2, Go 2,
      StartRead 1 64, Go 1, Go 1]"

lemma tag_evals: "unmark_ptr 64 = 64" "is_marked 64 = False" "64 OR ptr_mask \<noteq> (64 :: u64)"
  by (simp_all add: unmark_ptr_def is_marked_def ptr_mask_def)

lemmas sched_defs = clique2_def inversion_run_def cinit_def set_pc_def upd_line_def store_mem_def
  see_def ack_def leave_shared_def free_line_def ptr_ok_def tag_evals cas_line_def mark_line_def
  cas_at_def post_def drop_packet_def

lemma inversion: "\<exists>s. crun_cmds clique2 inversion_run (cinit (\<lambda>a. 0)) =
    Some ([EReadStart 1 64, Tau, Tau, Tau, Tau, Tau, ERead 1 64 (0, 0),
           Tau,
           EReadStart 2 64, Tau, Tau, Tau, Tau, Tau, ERead 2 64 (1, 5),
           EReadStart 1 64, Tau, ERead 1 64 (0, 0)], s)"
  by (simp add: sched_defs Let_def)

text \<open>
  C7: the cache is coherent but its reads are not linearizable. While a write has reached
  memory and not yet the other nodes, a thread of the writer's node reads the new value, and a
  thread of another node that starts its read later still hits the old copy.
\<close>

theorem reads_not_linearizable:
  "\<exists>es s. crun clique2 (cinit (\<lambda>a. 0))
     (es @ [ERead 2 64 (1, 5), EReadStart 1 64, Tau, ERead 1 64 (0, 0)]) s"
proof -
  from inversion obtain s where
    "crun clique2 (cinit (\<lambda>a. 0))
       ([EReadStart 1 64, Tau, Tau, Tau, Tau, Tau, ERead 1 64 (0, 0), Tau,
         EReadStart 2 64, Tau, Tau, Tau, Tau, Tau] @
        [ERead 2 64 (1, 5), EReadStart 1 64, Tau, ERead 1 64 (0, 0)]) s"
    using crun_cmds_sound by fastforce
  then show ?thesis by blast
qed

section \<open>Witnesses\<close>

lemma creach_cmds: "crun_cmds Q cs (cinit m) = Some (es, s) \<Longrightarrow> creach Q s"
  using crun_reach [OF crun_cmds_sound creach.init] .

definition fill_run :: "cmd list" where
  "fill_run = [StartRead 1 64, Go 1, Go 1, Go 1, Go 1, Go 1, Go 1]"

definition write_run :: "cmd list" where
  "write_run = fill_run @ [StartWrite 0 64 5, Go 0, Go 0, Go 0]"

lemma write_run_eval: "\<exists>es s0 s1 s3 s4 s5.
    crun_cmds clique2 write_run (cinit (\<lambda>a. 0)) = Some (es, s0) \<and>
    pcs s0 0 = WrRemote 64 1 [] \<and> cexec clique2 (Go 0) s0 = Some (EWritten 0 64, s1) \<and>
    cexec clique2 (StartRead 1 64) s1 = Some (EReadStart 1 64, s3) \<and>
    crun_cmds clique2 [Go 1, Go 1, Go 1, Go 1, Go 1, Go 1] s3 = Some ([Tau, Tau, Tau, Tau, Tau, Tau], s4) \<and>
    cexec clique2 (Go 1) s4 = Some (ERead 1 64 (1, 5), s5)"
  by (simp add: sched_defs write_run_def fill_run_def Let_def mark_mask)


lemma fill_run_eval: "\<exists>es s. crun_cmds clique2 fill_run (cinit (\<lambda>a. 7)) = Some (es, s) \<and>
    acked s 64 = mver s 64 \<and> lex (cl s 1 0) = None \<and> laddr (cl s 1 0) = 64"
  by (simp add: sched_defs fill_run_def Let_def)

theorem quiescent_lines_coherent_witness:
  "\<exists>s. creach clique2 s \<and> ldata (cl s 1 0) = (mver s 64, memv s 64)"
proof -
  from fill_run_eval obtain es s where
    e: "crun_cmds clique2 fill_run (cinit (\<lambda>a. 7)) = Some (es, s)" "acked s 64 = mver s 64"
      "lex (cl s 1 0) = None" "laddr (cl s 1 0) = 64" by blast
  have "1 \<in> set (nodes clique2)" "ptr_ok 64" by (simp_all add: clique2_def ptr_ok_def tag_evals)
  from quiescent_lines_coherent [OF creach_cmds [OF e(1)] this e(2-4)] creach_cmds [OF e(1)]
  show ?thesis by blast
qed

lemma lock_run_eval: "\<exists>es s s'. crun_cmds clique2 [StartRead 1 64, Go 1, Go 1, Go 1] (cinit (\<lambda>a. 7)) = Some (es, s) \<and>
    cexec clique2 (Go 1) s = Some (Tau, s') \<and> laddr (cl s 1 0) = 0 \<and> laddr (cl s' 1 0) = 64"
  by (simp add: sched_defs Let_def)


section \<open>Writes without acknowledgement\<close>

definition posted_run :: "cmd list" where
  "posted_run = fill_run @ [PostWrite 0 64 5, Go 0, Go 0]"

lemma posted_run_eval: "\<exists>s s1 s2 s3.
    crun_cmds clique2 posted_run (cinit (\<lambda>a. 0)) =
      Some ([EReadStart 1 64, Tau, Tau, Tau, Tau, Tau, ERead 1 64 (0, 0), Tau, Tau] @ [EPosted 0 64], s) \<and>
    crun_cmds clique2 [StartRead 1 64, Go 1, Go 1] s =
      Some ([EReadStart 1 64, Tau, ERead 1 64 (0, 0)], s1) \<and>
    cexec clique2 (Deliver 1 64 1) s1 = Some (Tau, s2) \<and>
    crun_cmds clique2 [StartRead 1 64, Go 1, Go 1, Go 1, Go 1, Go 1, Go 1, Go 1] s2 =
      Some ([EReadStart 1 64, Tau, Tau, Tau, Tau, Tau, Tau] @ [ERead 1 64 (1, 5)], s3)"
  by (simp add: sched_defs posted_run_def fill_run_def Let_def mark_mask)

text \<open>
  A write without acknowledgement that has returned is not seen by a read on another node that
  starts later: its compare-and-swap may still be on its way. Once it has been delivered a read
  there sees the write.
\<close>

theorem noack_write_unseen:
  "\<exists>es es' s1 s2 s3 s4. crun clique2 (cinit (\<lambda>a. 0)) (es @ [EPosted 0 64]) s1 \<and>
     crun clique2 s1 [EReadStart 1 64, Tau, ERead 1 64 (0, 0)] s2 \<and>
     cstep clique2 s2 Tau s3 \<and> crun clique2 s3 (es' @ [ERead 1 64 (1, 5)]) s4"
  using posted_run_eval crun_cmds_sound cexec_sound by blast

end
