(* ===== verification/LevelHash.thy ===== *)
theory LevelHash
  imports Hashing "HOL-Library.Multiset"
begin

text \<open>
  What the three interlocked hash tables share: the hash of a key at a level, which XORs the
  level into the key's \<open>std::hash\<close> (a parameter) before the mix13 finaliser, and the
  element list, a fixed array of key/value pairs with a live count. The live prefix of the
  array is a list; inserting writes the next slot, removing overwrites the slot with the last
  live pair.
\<close>

section \<open>Hashing a key at a level\<close>

definition level_prehash :: "('k \<Rightarrow> u64) \<Rightarrow> 'k \<Rightarrow> nat \<Rightarrow> u64" where
  "level_prehash to_num key level = mix13 (to_num key XOR of_nat level)"

text \<open>\<open>iht_local.h\<close> reduces modulo the bucket count, the RDMA tables modulo one less.\<close>

definition level_hash :: "('k \<Rightarrow> u64) \<Rightarrow> 'k \<Rightarrow> nat \<Rightarrow> nat \<Rightarrow> nat" where
  "level_hash to_num key level cnt = unat (level_prehash to_num key level) mod cnt"

definition level_hash_rdma :: "('k \<Rightarrow> u64) \<Rightarrow> 'k \<Rightarrow> nat \<Rightarrow> nat \<Rightarrow> nat" where
  "level_hash_rdma to_num key level cnt = unat (level_prehash to_num key level) mod (cnt - 1)"

lemma level_hash_less: "0 < cnt \<Longrightarrow> level_hash h k l cnt < cnt"
  by (simp add: level_hash_def)

lemma level_hash_rdma_less: "1 < cnt \<Longrightarrow> level_hash_rdma h k l cnt < cnt - 1"
  by (simp add: level_hash_rdma_def)

text \<open>At one level, two keys get the same prehash only if their standard hashes agree.\<close>

lemma level_prehash_inj:
  "level_prehash h j l = level_prehash h k l \<Longrightarrow> h j = h k"
proof -
  assume "level_prehash h j l = level_prehash h k l"
  then have "h j XOR of_nat l = h k XOR of_nat l"
    unfolding level_prehash_def by (simp only: mix13_inj)
  then show ?thesis by (simp add: u64_eq_bit bit_xor_iff) blast
qed

section \<open>Element lists\<close>

type_synonym ('k, 'v) elist = "('k \<times> 'v) list"

definition elist_insert :: "'k \<Rightarrow> 'v \<Rightarrow> ('k, 'v) elist \<Rightarrow> ('k, 'v) elist" where
  "elist_insert key val e = e @ [(key, val)]"

text \<open>The linear search of \<open>get\<close>, \<open>insert\<close> and \<open>remove\<close>: the first match.\<close>

fun elist_find :: "'k \<Rightarrow> ('k, 'v) elist \<Rightarrow> nat option" where
  "elist_find key [] = None"
| "elist_find key (p # e) =
     (if fst p = key then Some 0 else map_option Suc (elist_find key e))"

text \<open>\<open>pairs[i] = pairs[cnt - 1]; cnt--\<close>, with the overwrite only when more than one is live.\<close>

definition elist_remove :: "nat \<Rightarrow> ('k, 'v) elist \<Rightarrow> ('k, 'v) elist" where
  "elist_remove i e = butlast (if 1 < length e then e[i := e ! (length e - 1)] else e)"

lemma length_elist_remove [simp]: "length (elist_remove i e) = length e - 1"
  by (simp add: elist_remove_def)

lemma elist_find_map_of:
  "(case elist_find key e of None \<Rightarrow> None | Some i \<Rightarrow> Some (snd (e ! i))) = map_of e key"
  by (induction e) (auto split: option.splits)

lemma elist_find_None: "elist_find key e = None \<longleftrightarrow> key \<notin> fst ` set e"
  by (induction e) auto

lemma elist_find_Some:
  "elist_find key e = Some i \<Longrightarrow> i < length e \<and> fst (e ! i) = key"
  by (induction e arbitrary: i) (auto split: if_splits)

lemma elist_find_val: "elist_find key e = Some i \<Longrightarrow> map_of e key = Some (snd (e ! i))"
  using elist_find_map_of [where key = key and e = e] by simp

lemma map_of_None_find: "elist_find key e = None \<Longrightarrow> map_of e key = None"
  using elist_find_map_of [where key = key and e = e] by simp

lemma map_of_elist_insert:
  assumes "key \<notin> fst ` set e"
  shows "map_of (elist_insert key val e) = (map_of e)(key \<mapsto> val)"
proof -
  have "map_of e key = None" using assms by (simp add: map_of_eq_None_iff)
  then show ?thesis by (auto simp: elist_insert_def fun_eq_iff map_add_def split: option.splits)
qed

lemma mset_elist_remove:
  assumes "i < length e"
  shows "add_mset (e ! i) (mset (elist_remove i e)) = mset e"
proof (cases e rule: rev_cases)
  case Nil
  with assms show ?thesis by simp
next
  case (snoc f x)
  show ?thesis
  proof (cases "i < length f")
    case True
    then have r: "elist_remove i e = f[i := x]"
      using snoc by (auto simp: elist_remove_def list_update_append1 nth_append)
    have "add_mset (f ! i) (mset (f[i := x])) = add_mset x (mset f)"
      using True by (simp add: mset_update)
    then show ?thesis using True by (simp only: r) (simp add: snoc nth_append)
  next
    case False
    with assms snoc have i: "i = length f" by simp
    then have "elist_remove i e = f"
      using snoc by (auto simp: elist_remove_def)
    then show ?thesis by (simp add: snoc i)
  qed
qed

lemma map_of_elist_remove:
  assumes d: "distinct (map fst e)" and f: "elist_find key e = Some i"
  shows "map_of (elist_remove i e) = (map_of e)(key := None)"
    and "distinct (map fst (elist_remove i e))"
proof -
  from elist_find_Some [OF f] have i: "i < length e" and k: "fst (e ! i) = key" by simp_all
  have m: "mset e = mset (e ! i # elist_remove i e)" using mset_elist_remove [OF i] by simp
  then have d': "distinct (map fst (e ! i # elist_remove i e))"
    using d by (metis distinct_map mset_eq_imp_distinct_iff set_mset_mset mset_map)
  then show "distinct (map fst (elist_remove i e))" by simp
  have "map_of e = map_of (e ! i # elist_remove i e)"
    using d d' m by (metis map_of_eqI map_of_inject_set set_mset_mset)
  moreover have "key \<notin> fst ` set (elist_remove i e)" using d' k by auto
  ultimately show "map_of (elist_remove i e) = (map_of e)(key := None)"
    using k by (cases "e ! i") (auto simp: fun_eq_iff map_of_eq_None_iff)
qed

section \<open>Bucket locks\<close>

text \<open>
  The lock of a bucket also says what the bucket points to; \<open>P_UNLOCKED\<close> is for ever.
  \<open>acquire\<close> returns whether it got the lock and the new lock value; it spins while another
  thread holds the lock (\<open>None\<close>).
\<close>

datatype lock_state = E_LOCKED | E_UNLOCKED | P_UNLOCKED

definition acquire :: "lock_state \<Rightarrow> (bool \<times> lock_state) option" where
  "acquire v = (case v of
      E_UNLOCKED \<Rightarrow> Some (True, E_LOCKED)
    | P_UNLOCKED \<Rightarrow> Some (False, P_UNLOCKED)
    | E_LOCKED \<Rightarrow> None)"

lemma acquire_simps [simp]:
  "acquire E_UNLOCKED = Some (True, E_LOCKED)" "acquire P_UNLOCKED = Some (False, P_UNLOCKED)"
  "acquire E_LOCKED = None"
  by (simp_all add: acquire_def)

text \<open>Distributing the pairs of a list over buckets: what \<open>rehash\<close> leaves in each.\<close>

lemma fold_distribute:
  assumes "\<And>p. p \<in> set ps \<Longrightarrow> slot p < length bs"
  shows "fold (\<lambda>p bs. bs[slot p := f p (bs ! slot p)]) ps bs ! b =
           (if b < length bs then fold f (filter (\<lambda>p. slot p = b) ps) (bs ! b) else bs ! b)
         \<and> length (fold (\<lambda>p bs. bs[slot p := f p (bs ! slot p)]) ps bs) = length bs"
  using assms
proof (induction ps arbitrary: bs)
  case Nil
  then show ?case by simp
next
  case (Cons p ps)
  let ?bs = "bs[slot p := f p (bs ! slot p)]"
  have "slot p < length bs" using Cons.prems by simp
  moreover from Cons.IH [of ?bs] Cons.prems show ?case by (auto simp: nth_list_update)
qed

lemma map_of_filter_slot:
  "slot k = b \<Longrightarrow> map_of (filter (\<lambda>p. slot (fst p) = b) ps) k = map_of ps k"
  by (induction ps) auto

end
