(* ===== verification/IhtLocal.thy ===== *)
theory IhtLocal
  imports LevelHash
begin

text \<open>
  \<open>iht/iht_local.h\<close>: the interlocked hash table of one process (\<open>iht_carumap\<close>). A P-list
  is an array of buckets; a bucket is a lock and a pointer, null, to an E-list, or to a P-list
  twice as long. P-lists are reached from one bucket only and never freed, so the pointer
  structure is the tree of the datatype below. Operations run one after the other, and leave
  the locks they take released.
\<close>

section \<open>State\<close>

datatype ('k, 'v) lbase =
    LNull
  | LElist "('k, 'v) elist"
  | LPlist "(lock_state \<times> ('k, 'v) lbase) list"

type_synonym ('k, 'v) lplist = "(lock_state \<times> ('k, 'v) lbase) list"

definition plist_make :: "nat \<Rightarrow> ('k, 'v) lplist" where
  "plist_make sz = replicate sz (E_UNLOCKED, LNull)"

abbreviation lsize_of :: "('k, 'v) lplist \<Rightarrow> nat" where
  "lsize_of bs \<equiv> size_list (size_prod (\<lambda>_. 0) size) bs"

lemma lsize_descend:
  assumes "b < length bs" and "bs ! b = (lk, LPlist cs)"
  shows "lsize_of cs < lsize_of bs"
proof -
  have "bs ! b \<in> set bs" using assms(1) by simp
  moreover have "lsize_of cs < size_prod (\<lambda>_. 0) size (bs ! b)" using assms(2) by simp
  ultimately show ?thesis by (rule size_list_estimation)
qed

section \<open>Operations\<close>

text \<open>
  The outer option is \<open>None\<close> when the operation spins on a lock somebody else holds; the
  inner one is the value found.
\<close>

function l_get :: "('k \<Rightarrow> u64) \<Rightarrow> nat \<Rightarrow> nat \<Rightarrow> ('k, 'v) lplist \<Rightarrow> 'k \<Rightarrow> 'v option option" where
  "l_get h depth cnt bs key =
     (let b = level_hash h key (depth + 1) cnt in
      if b < length bs then
        (case bs ! b of (lk, base) \<Rightarrow>
           (case acquire lk of
              None \<Rightarrow> None
            | Some (False, _) \<Rightarrow>
                (case base of LPlist cs \<Rightarrow> l_get h (depth + 1) (cnt * 2) cs key | _ \<Rightarrow> None)
            | Some (True, _) \<Rightarrow>
                (case base of
                   LNull \<Rightarrow> Some None
                 | LElist e \<Rightarrow>
                     (case elist_find key e of
                        None \<Rightarrow> Some None
                      | Some i \<Rightarrow> Some (Some (snd (e ! i))))
                 | LPlist _ \<Rightarrow> None)))
      else None)"
  by pat_completeness auto
termination
  by (relation "measure (\<lambda>(h, depth, cnt, bs, key). lsize_of bs)") (auto intro: lsize_descend [OF _ sym])

declare l_get.simps [simp del]

function l_remove :: "('k \<Rightarrow> u64) \<Rightarrow> nat \<Rightarrow> nat \<Rightarrow> ('k, 'v) lplist \<Rightarrow> 'k \<Rightarrow>
    ('v option \<times> ('k, 'v) lplist) option" where
  "l_remove h depth cnt bs key =
     (let b = level_hash h key (depth + 1) cnt in
      if b < length bs then
        (case bs ! b of (lk, base) \<Rightarrow>
           (case acquire lk of
              None \<Rightarrow> None
            | Some (False, _) \<Rightarrow>
                (case base of
                   LPlist cs \<Rightarrow>
                     (case l_remove h (depth + 1) (cnt * 2) cs key of
                        None \<Rightarrow> None
                      | Some (r, cs') \<Rightarrow> Some (r, bs[b := (lk, LPlist cs')]))
                 | _ \<Rightarrow> None)
            | Some (True, _) \<Rightarrow>
                (case base of
                   LNull \<Rightarrow> Some (None, bs[b := (E_UNLOCKED, base)])
                 | LElist e \<Rightarrow>
                     (case elist_find key e of
                        None \<Rightarrow> Some (None, bs[b := (E_UNLOCKED, base)])
                      | Some i \<Rightarrow> Some (Some (snd (e ! i)),
                                       bs[b := (E_UNLOCKED, LElist (elist_remove i e))]))
                 | LPlist _ \<Rightarrow> None)))
      else None)"
  by pat_completeness auto
termination
  by (relation "measure (\<lambda>(h, depth, cnt, bs, key). lsize_of bs)") (auto intro: lsize_descend [OF _ sym])

declare l_remove.simps [simp del]

text \<open>
  \<open>rehash\<close> as written: the new P-list has twice the buckets, the pairs are placed with the
  parent's count and with the level of the parent.
\<close>

definition l_put :: "'k \<times> 'v \<Rightarrow> lock_state \<times> ('k, 'v) lbase \<Rightarrow> lock_state \<times> ('k, 'v) lbase" where
  "l_put p bk = (case bk of
     (lk, LNull) \<Rightarrow> (lk, LElist (elist_insert (fst p) (snd p) []))
   | (lk, LElist e) \<Rightarrow> (lk, LElist (elist_insert (fst p) (snd p) e))
   | (lk, LPlist cs) \<Rightarrow> (lk, LPlist cs))"

definition l_rehash :: "('k \<Rightarrow> u64) \<Rightarrow> ('k, 'v) elist \<Rightarrow> nat \<Rightarrow> nat \<Rightarrow> ('k, 'v) lplist" where
  "l_rehash h source pcnt pdepth =
     fold (\<lambda>p bs. let b = level_hash h (fst p) (pdepth + 1) pcnt in bs[b := l_put p (bs ! b)])
       source (plist_make (pcnt * 2))"

text \<open>Fuel counts the rehashes; it is spent only when an E-list is full.\<close>

function l_insert :: "('k \<Rightarrow> u64) \<Rightarrow> nat \<Rightarrow> nat \<Rightarrow> nat \<Rightarrow> nat \<Rightarrow> ('k, 'v) lplist \<Rightarrow> 'k \<Rightarrow> 'v \<Rightarrow>
    ('v option \<times> ('k, 'v) lplist) option" where
  "l_insert h cap fuel depth cnt bs key val =
     (let b = level_hash h key (depth + 1) cnt in
      if b < length bs then
        (case bs ! b of (lk, base) \<Rightarrow>
           (case acquire lk of
              None \<Rightarrow> None
            | Some (False, _) \<Rightarrow>
                (case base of
                   LPlist cs \<Rightarrow>
                     (case l_insert h cap fuel (depth + 1) (cnt * 2) cs key val of
                        None \<Rightarrow> None
                      | Some (r, cs') \<Rightarrow> Some (r, bs[b := (lk, LPlist cs')]))
                 | _ \<Rightarrow> None)
            | Some (True, _) \<Rightarrow>
                (case base of
                   LNull \<Rightarrow> Some (None, bs[b := (E_UNLOCKED, LElist (elist_insert key val []))])
                 | LElist e \<Rightarrow>
                     (case elist_find key e of
                        Some i \<Rightarrow> Some (Some (snd (e ! i)), bs[b := (E_UNLOCKED, LElist e)])
                      | None \<Rightarrow>
                          if length e < cap
                          then Some (None, bs[b := (E_UNLOCKED, LElist (elist_insert key val e))])
                          else (case fuel of
                             0 \<Rightarrow> None
                           | Suc fuel' \<Rightarrow> l_insert h cap fuel' depth cnt
                               (bs[b := (P_UNLOCKED, LPlist (l_rehash h e cnt depth))]) key val))
                 | LPlist _ \<Rightarrow> None)))
      else None)"
  by pat_completeness auto
termination
  by (relation "inv_image (less_than <*lex*> less_than)
        (\<lambda>(h, cap, fuel, depth, cnt, bs, key, val). (fuel, lsize_of bs))")
    (auto intro: lsize_descend [OF _ sym])

declare l_insert.simps [simp del]

text \<open>The table of a process: the root P-list at depth 1.\<close>

definition iht_carumap :: "nat \<Rightarrow> ('k, 'v) lplist" where
  "iht_carumap psize = plist_make psize"

definition lmap_get :: "('k \<Rightarrow> u64) \<Rightarrow> ('k, 'v) lplist \<Rightarrow> 'k \<Rightarrow> 'v option option" where
  "lmap_get h root key = l_get h 1 (length root) root key"

definition lmap_remove :: "('k \<Rightarrow> u64) \<Rightarrow> ('k, 'v) lplist \<Rightarrow> 'k \<Rightarrow> ('v option \<times> ('k, 'v) lplist) option" where
  "lmap_remove h root key = l_remove h 1 (length root) root key"

definition lmap_insert :: "('k \<Rightarrow> u64) \<Rightarrow> nat \<Rightarrow> nat \<Rightarrow> ('k, 'v) lplist \<Rightarrow> 'k \<Rightarrow> 'v \<Rightarrow>
    ('v option \<times> ('k, 'v) lplist) option" where
  "lmap_insert h cap fuel root key val = l_insert h cap fuel 1 (length root) root key val"

section \<open>Well-formed tables\<close>

text \<open>Locks tell what buckets point to, lists are as long as the level says, keys occur once.\<close>

definition lbucket_ok ::
  "(('k, 'v) lplist \<Rightarrow> bool) \<Rightarrow> nat \<Rightarrow> lock_state \<times> ('k, 'v) lbase \<Rightarrow> bool" where
  "lbucket_ok R cap x \<longleftrightarrow>
     x = (E_UNLOCKED, LNull) \<or>
     (\<exists>e. x = (E_UNLOCKED, LElist e) \<and> distinct (map fst e) \<and> length e \<le> cap) \<or>
     (\<exists>cs. x = (P_UNLOCKED, LPlist cs) \<and> R cs)"

lemma lbucket_ok_mono [mono]: "R \<le> S \<Longrightarrow> lbucket_ok R cap x \<longrightarrow> lbucket_ok S cap x"
  by (auto simp: lbucket_ok_def)

lemma lbucket_ok_simps [simp]:
  "lbucket_ok R cap (E_UNLOCKED, LNull)"
  "lbucket_ok R cap (E_UNLOCKED, LElist e) \<longleftrightarrow> distinct (map fst e) \<and> length e \<le> cap"
  "lbucket_ok R cap (P_UNLOCKED, LPlist cs) \<longleftrightarrow> R cs"
  by (auto simp: lbucket_ok_def)

inductive lwf :: "nat \<Rightarrow> nat \<Rightarrow> ('k, 'v) lplist \<Rightarrow> bool" for cap where
  lwf: "\<lbrakk> 0 < cnt; length bs = cnt; \<forall>x \<in> set bs. lbucket_ok (lwf cap (cnt * 2)) cap x \<rbrakk> \<Longrightarrow>
        lwf cap cnt bs"

inductive_cases lwfE: "lwf cap cnt bs"

lemma lwf_make: "0 < n \<Longrightarrow> lwf cap n (plist_make n)"
  by (rule lwf) (simp_all add: plist_make_def)

text \<open>The bucket an operation reaches, and what replacing it keeps.\<close>

lemma lwf_bucket:
  assumes "lwf cap cnt bs" and "b = level_hash h key l cnt"
  obtains (null) "b < length bs" "bs ! b = (E_UNLOCKED, LNull)"
    | (elist) e where "b < length bs" "bs ! b = (E_UNLOCKED, LElist e)" "distinct (map fst e)" "length e \<le> cap"
    | (plist) cs where "b < length bs" "bs ! b = (P_UNLOCKED, LPlist cs)" "lwf cap (cnt * 2) cs"
proof -
  have b: "b < length bs"
    using assms by (auto elim!: lwfE simp: level_hash_less)
  then have "bs ! b \<in> set bs" by simp
  then have "lbucket_ok (lwf cap (cnt * 2)) cap (bs ! b)" using assms(1) by (auto elim!: lwfE)
  with b show ?thesis using null elist plist unfolding lbucket_ok_def by blast
qed

lemma lwf_update:
  assumes "lwf cap cnt bs" and "lbucket_ok (lwf cap (cnt * 2)) cap x"
  shows "lwf cap cnt (bs[b := x])"
  using assms(1)
proof cases
  case lwf
  have "\<forall>y \<in> set (bs[b := x]). lbucket_ok (lwf cap (cnt * 2)) cap y"
    using lwf(3) assms(2) set_update_subset_insert [of bs b x] by blast
  with lwf show ?thesis by (intro lwf.lwf) simp_all
qed

text \<open>Reading one level at a time, for each kind of bucket.\<close>

lemma l_get_bucket:
  assumes "b = level_hash h key (depth + 1) cnt" and "b < length bs"
  shows "bs ! b = (E_UNLOCKED, LNull) \<Longrightarrow> l_get h depth cnt bs key = Some None"
    "bs ! b = (E_UNLOCKED, LElist e) \<Longrightarrow> l_get h depth cnt bs key = Some (map_of e key)"
    "bs ! b = (P_UNLOCKED, LPlist cs) \<Longrightarrow>
       l_get h depth cnt bs key = l_get h (depth + 1) (cnt * 2) cs key"
  using assms
  by (simp_all add: l_get.simps [of h depth cnt bs key] Let_def map_of_None_find elist_find_val
      split: option.splits)

lemma l_get_update_other:
  assumes "b \<noteq> level_hash h key (depth + 1) cnt"
  shows "l_get h depth cnt (bs[b := x]) key = l_get h depth cnt bs key"
  using assms by (simp add: l_get.simps [of h depth cnt] Let_def)

lemma l_get_total:
  assumes "lwf cap cnt bs"
  shows "\<exists>r. l_get h depth cnt bs key = Some r"
  using assms
proof (induction h depth cnt bs key rule: l_get.induct)
  case (1 h depth cnt bs key)
  from "1.prems" show ?case
  proof (rule lwf_bucket [OF _ refl, where h = h and key = key and l = "depth + 1"], goal_cases null elist plist)
    case null
    then show ?case by (simp add: l_get_bucket(1) [OF refl])
  next
    case (elist e)
    then show ?case by (simp add: l_get_bucket(2) [OF refl])
  next
    case (plist cs)
    from "1.IH" [OF refl plist(1) plist(2) [symmetric], of "(False, P_UNLOCKED)" False P_UNLOCKED cs]
      plist show ?case by (simp add: l_get_bucket(3) [OF refl])
  qed
qed

text \<open>How replacing the bucket of a key changes what other keys see.\<close>

lemma l_get_update:
  assumes b: "b = level_hash h key (depth + 1) cnt" "b < length bs"
  shows "l_get h depth cnt (bs[b := x]) k =
           (if level_hash h k (depth + 1) cnt = b then l_get h depth cnt (bs[b := x]) k
            else l_get h depth cnt bs k)"
  by (simp add: l_get_update_other)

lemma l_get_leaf:
  assumes "level_hash h k (depth + 1) cnt < length bs"
  shows "bs ! level_hash h k (depth + 1) cnt = (E_UNLOCKED, LNull) \<Longrightarrow> l_get h depth cnt bs k = Some None"
    "bs ! level_hash h k (depth + 1) cnt = (E_UNLOCKED, LElist e) \<Longrightarrow>
       l_get h depth cnt bs k = Some (map_of e k)"
    "bs ! level_hash h k (depth + 1) cnt = (P_UNLOCKED, LPlist cs) \<Longrightarrow>
       l_get h depth cnt bs k = l_get h (depth + 1) (cnt * 2) cs k"
  using l_get_bucket [OF refl assms] by auto

lemma l_remove_map:
  assumes "lwf cap cnt bs"
  shows "\<exists>r bs'. l_remove h depth cnt bs key = Some (r, bs') \<and> l_get h depth cnt bs key = Some r \<and>
     lwf cap cnt bs' \<and>
     (\<forall>k. l_get h depth cnt bs' k = (if k = key then Some None else l_get h depth cnt bs k))"
  using assms
proof (induction h depth cnt bs key rule: l_remove.induct)
  case (1 h depth cnt bs key)
  note wf = "1.prems"
  let ?b = "level_hash h key (depth + 1) cnt"
  have other: "k \<noteq> key" if "level_hash h k (depth + 1) cnt \<noteq> ?b" for k using that by auto
  from wf show ?case
  proof (rule lwf_bucket [OF _ refl, where h = h and key = key and l = "depth + 1"], goal_cases null elist plist)
    case null
    then have "bs[?b := (E_UNLOCKED, LNull)] = bs" by (metis list_update_id)
    with null wf show ?case
      by (simp add: l_remove.simps [of h depth cnt bs key] Let_def l_get_leaf(1))
  next
    case (elist e)
    show ?case
    proof (cases "elist_find key e")
      case None
      have "bs[?b := (E_UNLOCKED, LElist e)] = bs" using elist by (metis list_update_id)
      with elist wf None show ?thesis
        by (auto simp: l_remove.simps [of h depth cnt bs key] Let_def l_get_leaf(2) map_of_None_find)
    next
      case (Some i)
      note M = map_of_elist_remove [OF elist(3) Some]
      have len: "length (elist_remove i e) \<le> cap"
        using elist(4) by simp
      let ?bs = "bs[?b := (E_UNLOCKED, LElist (elist_remove i e))]"
      have "l_get h depth cnt ?bs k = (if k = key then Some None else l_get h depth cnt bs k)" for k
      proof (cases "level_hash h k (depth + 1) cnt = ?b")
        case True
        then show ?thesis using elist M(1) l_get_leaf(2) [of h k depth cnt ?bs] l_get_leaf(2) [of h k depth cnt bs]
          by simp
      next
        case False
        with other [of k] show ?thesis by (simp add: l_get_update_other)
      qed
      moreover have "lwf cap cnt ?bs" using M(2) len by (intro lwf_update [OF wf]) simp
      ultimately show ?thesis using elist Some
        by (simp add: l_remove.simps [of h depth cnt bs key] Let_def l_get_leaf(2) elist_find_val)
    qed
  next
    case (plist cs)
    from "1.IH" [OF refl plist(1) plist(2) [symmetric], of "(False, P_UNLOCKED)" False P_UNLOCKED cs] plist
    obtain r cs' where I: "l_remove h (depth + 1) (cnt * 2) cs key = Some (r, cs')"
      "l_get h (depth + 1) (cnt * 2) cs key = Some r" "lwf cap (cnt * 2) cs'"
      "\<And>k. l_get h (depth + 1) (cnt * 2) cs' k =
         (if k = key then Some None else l_get h (depth + 1) (cnt * 2) cs k)" by auto
    let ?bs = "bs[?b := (P_UNLOCKED, LPlist cs')]"
    have "l_get h depth cnt ?bs k = (if k = key then Some None else l_get h depth cnt bs k)" for k
    proof (cases "level_hash h k (depth + 1) cnt = ?b")
      case True
      then show ?thesis
        using plist I(4) l_get_leaf(3) [of h k depth cnt ?bs] l_get_leaf(3) [of h k depth cnt bs] by simp
    next
      case False
      with other [of k] show ?thesis by (simp add: l_get_update_other)
    qed
    moreover have "lwf cap cnt ?bs" using I(3) by (intro lwf_update [OF wf]) simp
    ultimately show ?case using plist I(1,2)
      by (simp add: l_remove.simps [of h depth cnt bs key] Let_def l_get_leaf(3))
  qed
qed

text \<open>An insertion that needs no rehash: the fuel is 0.\<close>

lemma l_insert_map:
  assumes "lwf cap cnt bs" and "0 < cap" and "l_insert h cap fuel depth cnt bs key val = Some (r, bs')"
    and "fuel = 0"
  shows "l_get h depth cnt bs key = Some r \<and> lwf cap cnt bs' \<and>
     (\<forall>k. l_get h depth cnt bs' k =
        (if k = key \<and> r = None then Some (Some val) else l_get h depth cnt bs k))"
  using assms
proof (induction h cap fuel depth cnt bs key val arbitrary: r bs' rule: l_insert.induct)
  case (1 h cap fuel depth cnt bs key val)
  note wf = "1.prems"(1)
  let ?b = "level_hash h key (depth + 1) cnt"
  have other: "k \<noteq> key" if "level_hash h k (depth + 1) cnt \<noteq> ?b" for k using that by auto
  have leaf: "l_get h depth cnt (bs[?b := (E_UNLOCKED, LElist e)]) k =
      (if level_hash h k (depth + 1) cnt = ?b then Some (map_of e k) else l_get h depth cnt bs k)"
    if "?b < length bs" for e k
    using that l_get_leaf(2) [of h k depth cnt "bs[?b := (E_UNLOCKED, LElist e)]" e]
    by (auto simp: l_get_update_other)
  from wf show ?case
  proof (rule lwf_bucket [OF _ refl, where h = h and key = key and l = "depth + 1"], goal_cases null elist plist)
    case null
    let ?bs = "bs[?b := (E_UNLOCKED, LElist (elist_insert key val []))]"
    have e: "r = None" "bs' = ?bs"
      using "1.prems"(3,4) null by (simp_all add: l_insert.simps [of h cap 0 depth cnt bs key val] Let_def)
    have "lwf cap cnt ?bs" using "1.prems"(2) by (intro lwf_update [OF wf]) (simp add: elist_insert_def)
    have "l_get h depth cnt bs' k = (if k = key then Some (Some val) else l_get h depth cnt bs k)" for k
      using leaf [OF null(1), of "elist_insert key val []" k] l_get_leaf(1) [of h k depth cnt bs] null
        other [of k] by (auto simp: e(2) map_of_elist_insert)
    with e \<open>lwf cap cnt ?bs\<close> l_get_leaf(1) [OF null(1,2)] show ?case by simp
  next
    case (elist e)
    show ?case
    proof (cases "elist_find key e")
      case (Some i)
      have "bs[?b := (E_UNLOCKED, LElist e)] = bs" using elist by (metis list_update_id)
      with "1.prems"(3,4) elist Some wf show ?thesis
        by (auto simp: l_insert.simps [of h cap 0 depth cnt bs key val] Let_def l_get_leaf(2) elist_find_val)
    next
      case None
      let ?e = "elist_insert key val e"
      have room: "length e < cap" and e: "r = None" "bs' = bs[?b := (E_UNLOCKED, LElist ?e)]"
        using "1.prems"(3,4) elist None
        by (auto simp: l_insert.simps [of h cap 0 depth cnt bs key val] Let_def split: if_splits)
      have key: "key \<notin> fst ` set e" using None by (simp add: elist_find_None)
      then have "lwf cap cnt bs'" unfolding e(2) using elist(3) room
        by (intro lwf_update [OF wf]) (simp add: elist_insert_def)
      moreover have "l_get h depth cnt bs' k = (if k = key then Some (Some val) else l_get h depth cnt bs k)" for k
        using leaf [OF elist(1), of ?e k] l_get_leaf(2) [of h k depth cnt bs e] elist other [of k]
        by (auto simp: e(2) map_of_elist_insert [OF key])
      ultimately show ?thesis using e(1) l_get_leaf(2) [OF elist(1,2)] None
        by (simp add: map_of_None_find)
    qed
  next
    case (plist cs)
    from "1.prems"(3,4) plist obtain cs' where
      i: "l_insert h cap 0 (depth + 1) (cnt * 2) cs key val = Some (r, cs')"
      and bs': "bs' = bs[?b := (P_UNLOCKED, LPlist cs')]"
      by (auto simp: l_insert.simps [of h cap 0 depth cnt bs key val] Let_def split: option.splits)
    from "1.IH"(2) [OF refl plist(1) plist(2) [symmetric], of "(False, P_UNLOCKED)" False P_UNLOCKED cs]
      plist(3) "1.prems"(2,4) i
    have I: "l_get h (depth + 1) (cnt * 2) cs key = Some r" "lwf cap (cnt * 2) cs'"
      "\<And>k. l_get h (depth + 1) (cnt * 2) cs' k =
         (if k = key \<and> r = None then Some (Some val) else l_get h (depth + 1) (cnt * 2) cs k)"
      by auto
    have "l_get h depth cnt bs' k = (if k = key \<and> r = None then Some (Some val) else l_get h depth cnt bs k)" for k
    proof (cases "level_hash h k (depth + 1) cnt = ?b")
      case True
      then show ?thesis
        using plist I(3) l_get_leaf(3) [of h k depth cnt bs'] l_get_leaf(3) [of h k depth cnt bs]
        by (simp add: bs')
    next
      case False
      with other [of k] show ?thesis by (simp add: l_get_update_other bs')
    qed
    moreover have "lwf cap cnt bs'" unfolding bs' using I(2) by (intro lwf_update [OF wf]) simp
    ultimately show ?case using plist I(1) by (simp add: l_get_leaf(3))
  qed
qed

section \<open>Properties\<close>

text \<open>
  \<open>get\<close> and \<open>remove\<close> of the local table are those of a map, on every well-formed table:
  both return, \<open>remove\<close> returns what \<open>get\<close> sees, afterwards the key is absent, every other
  key sees the same value, and the table stays well-formed.
\<close>

lemma local_get_remove:
  assumes "lwf cap (length root) root"
  shows "\<exists>r root'. lmap_get h root key = Some r \<and> lmap_remove h root key = Some (r, root') \<and>
     lwf cap (length root') root' \<and>
     (\<forall>k. lmap_get h root' k = (if k = key then Some None else lmap_get h root k))"
proof -
  from l_remove_map [OF assms, of h 1 key] obtain r root' where
    R: "l_remove h 1 (length root) root key = Some (r, root')" "l_get h 1 (length root) root key = Some r"
      "lwf cap (length root) root'"
      "\<forall>k. l_get h 1 (length root) root' k = (if k = key then Some None else l_get h 1 (length root) root k)"
    by blast
  have "length root' = length root" using R(3) by (auto elim: lwfE)
  with R show ?thesis by (simp add: lmap_get_def lmap_remove_def)
qed

text \<open>
  An insertion into the local table that does not have to rehash is that of a map: a
  present key keeps its value, which is returned; an absent key is added.
\<close>

lemma local_insert_without_rehash:
  assumes "lwf cap (length root) root" and "0 < cap"
    and "lmap_insert h cap 0 root key val = Some (r, root')"
  shows "lmap_get h root key = Some r \<and> lwf cap (length root') root' \<and>
     (\<forall>k. lmap_get h root' k = (if k = key \<and> r = None then Some (Some val) else lmap_get h root k))"
proof -
  note I = l_insert_map [OF assms(1,2) assms(3) [unfolded lmap_insert_def] refl]
  have "length root' = length root" using I by (auto elim: lwfE)
  with I show ?thesis by (simp add: lmap_get_def)
qed

text \<open>
  C36: on a well-formed table the operations of the local table are those of a map: \<open>get\<close> and
  \<open>remove\<close> return the key's value, \<open>remove\<close> deletes the key, and an insertion that does not have
  to rehash adds an absent key and leaves a present one; every other key keeps its value.
\<close>

theorem local_map_ops:
  assumes "lwf cap (length root) root" and "0 < cap"
  shows "(\<exists>r root'. lmap_get h root key = Some r \<and> lmap_remove h root key = Some (r, root') \<and>
       lwf cap (length root') root' \<and> (\<forall>k. lmap_get h root' k = (if k = key then Some None else lmap_get h root k))) \<and>
     (\<forall>r root'. lmap_insert h cap 0 root key val = Some (r, root') \<longrightarrow>
        lmap_get h root key = Some r \<and> lwf cap (length root') root' \<and>
        (\<forall>k. lmap_get h root' k = (if k = key \<and> r = None then Some (Some val) else lmap_get h root k)))"
  using local_get_remove [OF assms(1), of h key] local_insert_without_rehash [OF assms, of h key val] by blast

text \<open>
  C24: a rehash of the local table loses keys. \<open>rehash\<close> places the pairs of the full
  list with the parent's level and bucket count, while the descent looks for them with the
  child's: with lists of one pair and a root of two buckets, inserting 9 makes the key 1,
  inserted before, unreachable.
\<close>

theorem local_rehash_loses_key:
  "\<exists>m1 m2. lmap_insert (\<lambda>k. k) 1 1 (iht_carumap 2) (1 :: u64) (11 :: nat) = Some (None, m1) \<and>
     lmap_get (\<lambda>k. k) m1 1 = Some (Some 11) \<and>
     lmap_insert (\<lambda>k. k) 1 1 m1 9 19 = Some (None, m2) \<and>
     lmap_get (\<lambda>k. k) m2 1 = Some None"
proof -
  have lh: "level_hash (\<lambda>k. k) (1 :: u64) 2 2 = 0" "level_hash (\<lambda>k. k) (9 :: u64) 2 2 = 0"
    "level_hash (\<lambda>k. k) (1 :: u64) 3 4 = 3" "level_hash (\<lambda>k. k) (9 :: u64) 3 4 = 1"
    by (simp_all add: level_hash_def level_prehash_def mix13_def xorshift33_def)
  have lhS: "level_hash (\<lambda>k. k) (1 :: u64) (Suc (Suc 0)) (Suc (Suc 0)) = 0"
    "level_hash (\<lambda>k. k) (9 :: u64) (Suc (Suc 0)) (Suc (Suc 0)) = 0"
    "level_hash (\<lambda>k. k) (1 :: u64) (Suc (Suc (Suc 0))) 4 = 3"
    "level_hash (\<lambda>k. k) (9 :: u64) (Suc (Suc (Suc 0))) 4 = 1"
    using lh by (simp_all add: numeral_2_eq_2 numeral_3_eq_3)
  have r4: "replicate 4 x = [x, x, x, x]" for x :: "lock_state \<times> (u64, nat) lbase"
    by (simp add: numeral_eq_Suc)
  have two: "iht_carumap 2 = (iht_carumap (Suc (Suc 0)) :: (u64, nat) lplist)"
    by (simp only: numeral_2_eq_2)
  show ?thesis unfolding two
    by (simp add: lmap_insert_def lmap_get_def iht_carumap_def plist_make_def l_insert.simps
        l_get.simps l_rehash_def l_put_def elist_insert_def lhS r4 Let_def)
qed

section \<open>Witnesses\<close>

definition table1 :: "(u64, nat) lplist" where
  "table1 = [(E_UNLOCKED, LElist [(1, 11)]), (E_UNLOCKED, LNull)]"

lemma table1_wf: "lwf 2 (length table1) table1"
  by (rule lwf) (simp_all add: table1_def)

lemma lh0: "level_hash (\<lambda>k. k) (1 :: u64) 2 2 = 0" "level_hash (\<lambda>k. k) (9 :: u64) 2 2 = 0"
  by (simp_all add: level_hash_def level_prehash_def mix13_def xorshift33_def)

lemmas lh1 = lh0 [unfolded numeral_2_eq_2]

theorem local_map_ops_witness:
  "\<exists>root' root''. lmap_remove (\<lambda>k. k) table1 1 = Some (Some 11, root') \<and> lmap_get (\<lambda>k. k) root' 1 = Some None \<and>
     lmap_insert (\<lambda>k. k) 2 0 table1 9 19 = Some (None, root'') \<and> lmap_get (\<lambda>k. k) root'' 9 = Some (Some 19)"
proof -
  have g: "lmap_get (\<lambda>k. k) table1 1 = Some (Some 11)"
    by (simp add: lmap_get_def table1_def l_get.simps lh1 Let_def)
  have "\<exists>root'. lmap_insert (\<lambda>k. k) 2 0 table1 9 19 = Some (None, root')"
    by (simp add: lmap_insert_def table1_def l_insert.simps lh1 Let_def)
  then obtain root'' where i: "lmap_insert (\<lambda>k. k) 2 0 table1 9 19 = Some (None, root'')" ..
  have "\<exists>root'. lmap_remove (\<lambda>k. k) table1 1 = Some (Some 11, root') \<and> lmap_get (\<lambda>k. k) root' 1 = Some None"
    using local_map_ops [OF table1_wf, of "\<lambda>k. k" 1 0] g by auto
  moreover have "lmap_get (\<lambda>k. k) root'' 9 = Some (Some 19)"
    using local_map_ops [OF table1_wf, of "\<lambda>k. k" 9 19] i by auto
  ultimately show ?thesis using i by blast
qed

end
