(* ===== verification/KvMap.thy ===== *)
theory KvMap
  imports Main
begin

text \<open>
  What the benchmarks expect of a key/value store, whichever structure implements it:
  \<open>contains\<close>, \<open>insert\<close> and \<open>remove\<close> are those of a partial map, and \<open>insert\<close> does not replace
  the value of a present key. An operation that spins for ever is \<open>None\<close>. The extra first
  argument of an operation is whatever its run depends on besides the store (what cached
  snapshots miss, random levels, fuel); the laws hold for all of them. The stores' \<open>populate\<close>
  is the same loop in each of them and is here once.
\<close>

section \<open>The operations on a map\<close>

definition map_insert :: "('k \<Rightarrow> 'v option) \<Rightarrow> 'k \<Rightarrow> 'v \<Rightarrow> 'k \<Rightarrow> 'v option" where
  "map_insert m key val = (case m key of None \<Rightarrow> m(key \<mapsto> val) | Some _ \<Rightarrow> m)"

lemma map_insert_simps [simp]:
  "m key = None \<Longrightarrow> map_insert m key val = m(key \<mapsto> val)"
  "m key = Some v \<Longrightarrow> map_insert m key val = m"
  by (simp_all add: map_insert_def)

lemma map_insert_upd: "map_insert m key val = m(key \<mapsto> (case m key of None \<Rightarrow> val | Some v \<Rightarrow> v))"
  by (auto simp: map_insert_def fun_upd_idem split: option.splits)

text \<open>\<open>populate\<close>: insert the keys of a random stream until \<open>op_count\<close> of them were absent.\<close>

fun populate ::
  "('e \<Rightarrow> 's \<Rightarrow> 'k \<Rightarrow> 'v \<Rightarrow> ('v option \<times> 's) option) \<Rightarrow> ('k \<Rightarrow> 'v) \<Rightarrow> nat \<Rightarrow> ('e \<times> 'k) list \<Rightarrow> 's \<Rightarrow> 's option" where
  "populate ins f 0 ks s = Some s"
| "populate ins f (Suc n) [] s = None"
| "populate ins f (Suc n) ((e, k) # ks) s =
     (case ins e s k (f k) of
        None \<Rightarrow> None
      | Some (None, s') \<Rightarrow> populate ins f n ks s'
      | Some (Some _, s') \<Rightarrow> populate ins f (Suc n) ks s')"

section \<open>Insertions into a store that stands for a map\<close>

text \<open>A store that stands for a map by a relation, with keys that it takes; what \<open>populate\<close> does needs \<open>insert\<close> only.\<close>

locale kv_rel =
  fixes rel :: "'s \<Rightarrow> ('k \<Rightarrow> 'v option) \<Rightarrow> bool" and key_ok :: "'k \<Rightarrow> bool"
    and ins :: "'e \<Rightarrow> 's \<Rightarrow> 'k \<Rightarrow> 'v \<Rightarrow> ('v option \<times> 's) option"
  assumes ins_rel: "\<lbrakk> rel s m; key_ok key; ins e s key val = Some (r, s') \<rbrakk> \<Longrightarrow> r = m key \<and> rel s' (map_insert m key val)"
begin

lemma populate_rel:
  assumes "rel s m" and "populate ins f n ks s = Some s'" and "finite (dom m)" and "\<forall>k \<in> snd ` set ks. key_ok k"
  shows "\<exists>m'. rel s' m' \<and> finite (dom m') \<and> card (dom m') = card (dom m) + n \<and> dom m' \<subseteq> dom m \<union> snd ` set ks \<and>
     (\<forall>k. m' k = m k \<or> m k = None \<and> m' k = Some (f k))"
  using assms
proof (induction ks arbitrary: n s m)
  case Nil
  then show ?case by (cases n) auto
next
  case (Cons x ks)
  obtain e k where x: "x = (e, k)" by (cases x)
  show ?case
  proof (cases n)
    case 0
    with Cons.prems show ?thesis by auto
  next
    case (Suc n')
    with Cons.prems(2) x obtain r t where i: "ins e s k (f k) = Some (r, t)"
      by (auto split: option.splits)
    have k: "key_ok k" "\<forall>k \<in> snd ` set ks. key_ok k" using Cons.prems(4) x by auto
    from ins_rel [OF Cons.prems(1) k(1) i] have I: "r = m k" "rel t (map_insert m k (f k))" by auto
    show ?thesis
    proof (cases r)
      case None
      with i Suc x Cons.prems have p: "populate ins f n' ks t = Some s'" by simp
      have m: "m k = None" "map_insert m k (f k) = m(k \<mapsto> f k)" using I(1) None by simp_all
      have c: "card (dom (m(k \<mapsto> f k))) = Suc (card (dom m))" using m(1) Cons.prems(3) by (simp add: domIff)
      have fin: "finite (dom (m(k \<mapsto> f k)))" using Cons.prems(3) by simp
      from Cons.IH [OF I(2) [unfolded m(2)] p fin k(2)]
      obtain m' where m': "rel s' m'" "finite (dom m')" "card (dom m') = Suc (card (dom m)) + n'"
        "dom m' \<subseteq> dom (m(k \<mapsto> f k)) \<union> snd ` set ks" "\<forall>j. m' j = (m(k \<mapsto> f k)) j \<or> (m(k \<mapsto> f k)) j = None \<and> m' j = Some (f j)"
        unfolding c by blast
      have "m' j = m j \<or> m j = None \<and> m' j = Some (f j)" for j using spec [OF m'(5), of j] m(1) by (cases "j = k") auto
      then show ?thesis using m' x Suc by (intro exI [of _ m']) auto
    next
      case (Some v)
      with i Suc x Cons.prems have p: "populate ins f (Suc n') ks t = Some s'" by simp
      have "map_insert m k (f k) = m" using map_insert_simps(2) [of m k v] I(1) Some by metis
      with Cons.IH [OF _ p Cons.prems(3) k(2)] I(2) obtain m' where "rel s' m'" "finite (dom m')"
        "card (dom m') = card (dom m) + n" "dom m' \<subseteq> dom m \<union> snd ` set ks" "\<forall>j. m' j = m j \<or> m j = None \<and> m' j = Some (f j)"
        unfolding Suc by auto
      then show ?thesis by (intro exI [of _ m']) auto
    qed
  qed
qed

end

section \<open>The interface\<close>

text \<open>What changes a store that stands for a map.\<close>

locale kv_update =
  fixes wf :: "'s \<Rightarrow> bool" and abs :: "'s \<Rightarrow> 'k \<Rightarrow> 'v option"
    and ins :: "'e \<Rightarrow> 's \<Rightarrow> 'k \<Rightarrow> 'v \<Rightarrow> ('v option \<times> 's) option"
    and rem :: "'e \<Rightarrow> 's \<Rightarrow> 'k \<Rightarrow> ('v option \<times> 's) option"
  assumes ins_abs: "\<lbrakk> wf s; ins e s key val = Some (r, s') \<rbrakk> \<Longrightarrow>
          r = abs s key \<and> wf s' \<and> abs s' = map_insert (abs s) key val"
    and rem_abs: "\<lbrakk> wf s; rem e s key = Some (r, s') \<rbrakk> \<Longrightarrow>
          r = abs s key \<and> wf s' \<and> abs s' = (abs s)(key := None)"

sublocale kv_update \<subseteq> of_abs: kv_rel "\<lambda>s m. wf s \<and> abs s = m" "\<lambda>_. True" ins
  by unfold_locales (use ins_abs in blast)

context kv_update
begin

lemma populate_abs:
  assumes "wf s" and "populate ins f n ks s = Some s'" and "finite (dom (abs s))"
  shows "wf s' \<and> finite (dom (abs s')) \<and> card (dom (abs s')) = card (dom (abs s)) + n \<and>
     dom (abs s') \<subseteq> dom (abs s) \<union> snd ` set ks \<and>
     (\<forall>k. abs s' k = abs s k \<or> abs s k = None \<and> abs s' k = Some (f k))"
  using of_abs.populate_rel [of s "abs s" f n ks s'] assms by auto

end

text \<open>A store with \<open>contains\<close>, and one that can count its keys.\<close>

locale kv_map = kv_update wf abs ins rem
  for wf :: "'s \<Rightarrow> bool" and abs :: "'s \<Rightarrow> 'k \<Rightarrow> 'v option" and ins rem +
  fixes get :: "'e \<Rightarrow> 's \<Rightarrow> 'k \<Rightarrow> 'v option option"
  assumes get_abs: "\<lbrakk> wf s; get e s key = Some r \<rbrakk> \<Longrightarrow> r = abs s key"

locale kv_counted = kv_update +
  fixes cnt :: "'s \<Rightarrow> nat"
  assumes finite_abs: "wf s \<Longrightarrow> finite (dom (abs s))"
    and cnt_abs: "wf s \<Longrightarrow> cnt s = card (dom (abs s))"
begin

lemma cnt_ins:
  assumes "wf s" "ins e s key val = Some (r, s')"
  shows "cnt s' = cnt s + (if r = None then 1 else 0)"
proof -
  note I = ins_abs [OF assms]
  show ?thesis
  proof (cases "abs s key")
    case None
    with I have "dom (abs s') = insert key (dom (abs s))" by simp
    with None I cnt_abs [of s'] cnt_abs [OF assms(1)] finite_abs [OF assms(1)] show ?thesis
      by (simp add: domIff)
  next
    case (Some v)
    with I cnt_abs [of s'] cnt_abs [OF assms(1)] show ?thesis by simp
  qed
qed

lemma cnt_rem:
  assumes "wf s" "rem e s key = Some (r, s')"
  shows "cnt s = cnt s' + (if r = None then 0 else 1)"
proof -
  note I = rem_abs [OF assms]
  show ?thesis
  proof (cases "abs s key")
    case None
    with I have "abs s' = abs s" by (simp add: fun_upd_idem)
    with None I cnt_abs [of s'] cnt_abs [OF assms(1)] show ?thesis by simp
  next
    case (Some v)
    have d: "dom (abs s') = dom (abs s) - {key}" using I by simp
    have "card (dom (abs s)) = Suc (card (dom (abs s) - {key}))"
      using Some card_Suc_Diff1 [OF finite_abs [OF assms(1)], of key] by (simp only: domIff) simp
    with Some I d cnt_abs [of s'] cnt_abs [OF assms(1)] show ?thesis by simp
  qed
qed

lemma cnt_populate:
  assumes "wf s" "populate ins f n ks s = Some s'"
  shows "cnt s' = cnt s + n"
  using populate_abs [OF assms finite_abs [OF assms(1)]] cnt_abs assms(1) by simp

end

locale kv_store = kv_counted wf abs ins rem cnt + kv_map wf abs ins rem get
  for wf abs ins rem get cnt

end
