(* ===== verification/IhtRdma.thy ===== *)
theory IhtRdma
  imports LevelHash KvMap
begin

text \<open>
  \<open>iht/cached/ds/iht_ds_cached.h\<close>: the interlocked hash table over RDMA (\<open>RdmaIHT\<close>).
  P-lists are read through the cache, so the snapshot \<open>curr\<close> an operation descends with may
  be older than memory: a bucket that has become a P-list may still look like an E-list. What a
  snapshot misses is an argument: the bucket indices seen stale, each with the E-list it still
  points to (which nobody frees or writes any more), one such list per cache read
  (\<open>obs\<close>); when the argument is used up, reads are current. E-lists are read and written
  under the bucket's lock, from memory; only \<open>contains\<close> skips the lock, when an E-list fits one
  cache line (\<open>lockfree\<close>, the code's \<open>sizeof(EList) == 64\<close>). The pointers of a table form a tree, the datatype
  below. Operations run one after the other.
\<close>

section \<open>State\<close>

datatype ('k, 'v) rbase =
    RElist "('k, 'v) elist"
  | RPlist "(lock_state \<times> ('k, 'v) rbase) list"

type_synonym ('k, 'v) rplist = "(lock_state \<times> ('k, 'v) rbase) list"

text \<open>\<open>InitPList\<close>: every bucket gets an empty E-list.\<close>

definition InitPList :: "nat \<Rightarrow> ('k, 'v) rplist" where
  "InitPList n = replicate n (E_UNLOCKED, RElist [])"

definition InitAsFirst :: "nat \<Rightarrow> ('k, 'v) rplist" where
  "InitAsFirst plist_size = InitPList plist_size"

text \<open>What one cache read misses, and what the reads after it miss.\<close>

type_synonym ('k, 'v) stale = "(nat \<times> ('k, 'v) elist) list"

definition next_view :: "('k, 'v) stale list \<Rightarrow> ('k, 'v) stale \<times> ('k, 'v) stale list" where
  "next_view obs = (case obs of [] \<Rightarrow> ([], []) | w # ws \<Rightarrow> (w, ws))"

definition seen_lock :: "('k, 'v) stale \<Rightarrow> nat \<Rightarrow> lock_state \<Rightarrow> lock_state" where
  "seen_lock w b lk = (if lk = P_UNLOCKED \<and> map_of w b \<noteq> None then E_UNLOCKED else lk)"

definition seen_elist :: "('k, 'v) stale \<Rightarrow> nat \<Rightarrow> ('k, 'v) rbase \<Rightarrow> ('k, 'v) elist" where
  "seen_elist w b base = (case base of RElist e \<Rightarrow> e | RPlist _ \<Rightarrow> (case map_of w b of Some e \<Rightarrow> e | None \<Rightarrow> []))"

definition view_size :: "('k, 'v) stale \<Rightarrow> ('k, 'v) stale list \<Rightarrow> nat" where
  "view_size w obs = length obs + (if w = [] then 0 else 1)"

abbreviation rsize_of :: "('k, 'v) rplist \<Rightarrow> nat" where
  "rsize_of bs \<equiv> size_list (size_prod (\<lambda>_. 0) size) bs"

lemma rsize_descend:
  assumes "b < length bs" and "(lk, RPlist cs) = bs ! b"
  shows "rsize_of cs < rsize_of bs"
proof -
  have "bs ! b \<in> set bs" using assms(1) by simp
  moreover have "rsize_of cs < size_prod (\<lambda>_. 0) size (bs ! b)" using assms(2) [symmetric] by simp
  ultimately show ?thesis by (rule size_list_estimation)
qed

text \<open>A failed \<open>acquire\<close> after looking at an E-list uses up one stale view.\<close>

lemma refetch_decreases:
  assumes "seen_lock w b lk \<noteq> P_UNLOCKED" and "acquire lk = Some (False, lk')"
    and "(w', obs') = next_view obs"
  shows "view_size w' obs' < view_size w obs"
  using assms
  by (auto simp: seen_lock_def acquire_def view_size_def next_view_def
      split: lock_state.splits if_splits list.splits)

section \<open>Operations\<close>

definition list_get :: "'k \<Rightarrow> ('k, 'v) elist \<Rightarrow> 'v option" where
  "list_get key e = (case elist_find key e of None \<Rightarrow> None | Some i \<Rightarrow> Some (snd (e ! i)))"

function r_contains ::
  "('k \<Rightarrow> u64) \<Rightarrow> bool \<Rightarrow> ('k, 'v) stale \<Rightarrow> ('k, 'v) stale list \<Rightarrow> nat \<Rightarrow> nat \<Rightarrow> ('k, 'v) rplist \<Rightarrow> 'k \<Rightarrow>
     'v option option" where
  "r_contains h lockfree w obs depth cnt bs key =
     (let b = level_hash_rdma h key depth cnt in
      if b < length bs then
        (case bs ! b of (lk, base) \<Rightarrow>
           if seen_lock w b lk = P_UNLOCKED then
             (case base of
                RPlist cs \<Rightarrow>
                  (case next_view obs of (w', obs') \<Rightarrow>
                     r_contains h lockfree w' obs' (depth + 1) (cnt * 2) cs key)
              | RElist _ \<Rightarrow> None)
           else if lockfree then Some (list_get key (seen_elist w b base))
           else
             (case acquire lk of
                None \<Rightarrow> None
              | Some (False, _) \<Rightarrow>
                  (case next_view obs of (w', obs') \<Rightarrow> r_contains h lockfree w' obs' depth cnt bs key)
              | Some (True, _) \<Rightarrow>
                  (case base of
                     RElist e \<Rightarrow> Some (list_get key e)
                   | RPlist _ \<Rightarrow> None)))
      else None)"
  by pat_completeness auto
termination
  by (relation "inv_image (less_than <*lex*> less_than)
        (\<lambda>(h, lockfree, w, obs, depth, cnt, bs, key). (rsize_of bs, view_size w obs))")
    (auto intro: rsize_descend dest: refetch_decreases)

declare r_contains.simps [simp del]

function r_remove ::
  "('k \<Rightarrow> u64) \<Rightarrow> ('k, 'v) stale \<Rightarrow> ('k, 'v) stale list \<Rightarrow> nat \<Rightarrow> nat \<Rightarrow> ('k, 'v) rplist \<Rightarrow> 'k \<Rightarrow>
     ('v option \<times> ('k, 'v) rplist) option" where
  "r_remove h w obs depth cnt bs key =
     (let b = level_hash_rdma h key depth cnt in
      if b < length bs then
        (case bs ! b of (lk, base) \<Rightarrow>
           if seen_lock w b lk = P_UNLOCKED then
             (case base of
                RPlist cs \<Rightarrow>
                  (case next_view obs of (w', obs') \<Rightarrow>
                     (case r_remove h w' obs' (depth + 1) (cnt * 2) cs key of
                        None \<Rightarrow> None
                      | Some (r, cs') \<Rightarrow> Some (r, bs[b := (lk, RPlist cs')])))
              | RElist _ \<Rightarrow> None)
           else
             (case acquire lk of
                None \<Rightarrow> None
              | Some (False, _) \<Rightarrow>
                  (case next_view obs of (w', obs') \<Rightarrow> r_remove h w' obs' depth cnt bs key)
              | Some (True, _) \<Rightarrow>
                  (case base of
                     RElist e \<Rightarrow>
                       (case elist_find key e of
                          None \<Rightarrow> Some (None, bs[b := (E_UNLOCKED, RElist e)])
                        | Some i \<Rightarrow> Some (Some (snd (e ! i)),
                                         bs[b := (E_UNLOCKED, RElist (elist_remove i e))]))
                   | RPlist _ \<Rightarrow> None)))
      else None)"
  by pat_completeness auto
termination
  by (relation "inv_image (less_than <*lex*> less_than)
        (\<lambda>(h, w, obs, depth, cnt, bs, key). (rsize_of bs, view_size w obs))")
    (auto intro: rsize_descend dest: refetch_decreases)

declare r_remove.simps [simp del]

text \<open>\<open>rehash\<close>: twice the buckets, placed with the child's count and level.\<close>

definition r_put :: "'k \<times> 'v \<Rightarrow> lock_state \<times> ('k, 'v) rbase \<Rightarrow> lock_state \<times> ('k, 'v) rbase" where
  "r_put p bk = (case bk of
     (lk, RElist e) \<Rightarrow> (lk, RElist (elist_insert (fst p) (snd p) e))
   | (lk, RPlist cs) \<Rightarrow> (lk, RPlist cs))"

definition r_rehash :: "('k \<Rightarrow> u64) \<Rightarrow> ('k, 'v) elist \<Rightarrow> nat \<Rightarrow> nat \<Rightarrow> ('k, 'v) rplist" where
  "r_rehash h source pcnt pdepth =
     fold (\<lambda>p bs. bs[level_hash_rdma h (fst p) (pdepth + 1) (pcnt * 2) :=
                       r_put p (bs ! level_hash_rdma h (fst p) (pdepth + 1) (pcnt * 2))])
       source (InitPList (pcnt * 2))"

text \<open>
  Fuel counts the rehashes. After a rehash the line of the parent is invalidated and the
  parent read again, which takes the next view.
\<close>

function r_insert ::
  "('k \<Rightarrow> u64) \<Rightarrow> nat \<Rightarrow> nat \<Rightarrow> ('k, 'v) stale \<Rightarrow> ('k, 'v) stale list \<Rightarrow> nat \<Rightarrow> nat \<Rightarrow> ('k, 'v) rplist \<Rightarrow> 'k \<Rightarrow> 'v \<Rightarrow>
     ('v option \<times> ('k, 'v) rplist) option" where
  "r_insert h cap fuel w obs depth cnt bs key val =
     (let b = level_hash_rdma h key depth cnt in
      if b < length bs then
        (case bs ! b of (lk, base) \<Rightarrow>
           if seen_lock w b lk = P_UNLOCKED then
             (case base of
                RPlist cs \<Rightarrow>
                  (case next_view obs of (w', obs') \<Rightarrow>
                     (case r_insert h cap fuel w' obs' (depth + 1) (cnt * 2) cs key val of
                        None \<Rightarrow> None
                      | Some (r, cs') \<Rightarrow> Some (r, bs[b := (lk, RPlist cs')])))
              | RElist _ \<Rightarrow> None)
           else
             (case acquire lk of
                None \<Rightarrow> None
              | Some (False, _) \<Rightarrow>
                  (case next_view obs of (w', obs') \<Rightarrow> r_insert h cap fuel w' obs' depth cnt bs key val)
              | Some (True, _) \<Rightarrow>
                  (case base of
                     RElist e \<Rightarrow>
                       (case elist_find key e of
                          Some i \<Rightarrow> Some (Some (snd (e ! i)), bs[b := (E_UNLOCKED, RElist e)])
                        | None \<Rightarrow>
                            if length e < cap
                            then Some (None, bs[b := (E_UNLOCKED, RElist (elist_insert key val e))])
                            else (case fuel of
                               0 \<Rightarrow> None
                             | Suc fuel' \<Rightarrow>
                                 (case next_view obs of (w', obs') \<Rightarrow>
                                    r_insert h cap fuel' w' obs' depth cnt
                                      (bs[b := (P_UNLOCKED, RPlist (r_rehash h e cnt depth))]) key val)))
                   | RPlist _ \<Rightarrow> None)))
      else None)"
  by pat_completeness auto
termination
  by (relation "inv_image (less_than <*lex*> less_than <*lex*> less_than)
        (\<lambda>(h, cap, fuel, w, obs, depth, cnt, bs, key, val). (fuel, rsize_of bs, view_size w obs))")
    (auto intro: rsize_descend dest: refetch_decreases)

declare r_insert.simps [simp del]

text \<open>The operations on the table, from the root at depth 1.\<close>

definition iht_contains :: "('k \<Rightarrow> u64) \<Rightarrow> bool \<Rightarrow> ('k, 'v) stale list \<Rightarrow> ('k, 'v) rplist \<Rightarrow> 'k \<Rightarrow> 'v option option" where
  "iht_contains h lockfree obs root key =
     (case next_view obs of (w, obs') \<Rightarrow> r_contains h lockfree w obs' 1 (length root) root key)"

definition iht_insert ::
  "('k \<Rightarrow> u64) \<Rightarrow> nat \<Rightarrow> nat \<Rightarrow> ('k, 'v) stale list \<Rightarrow> ('k, 'v) rplist \<Rightarrow> 'k \<Rightarrow> 'v \<Rightarrow>
     ('v option \<times> ('k, 'v) rplist) option" where
  "iht_insert h cap fuel obs root key val =
     (case next_view obs of (w, obs') \<Rightarrow> r_insert h cap fuel w obs' 1 (length root) root key val)"

definition iht_remove ::
  "('k \<Rightarrow> u64) \<Rightarrow> ('k, 'v) stale list \<Rightarrow> ('k, 'v) rplist \<Rightarrow> 'k \<Rightarrow> ('v option \<times> ('k, 'v) rplist) option" where
  "iht_remove h obs root key =
     (case next_view obs of (w, obs') \<Rightarrow> r_remove h w obs' 1 (length root) root key)"

text \<open>\<open>count_plist\<close>: a locked bucket is reported and counts nothing.\<close>

fun base_count :: "lock_state \<Rightarrow> ('k, 'v) rbase \<Rightarrow> nat" where
  "base_count E_UNLOCKED (RElist e) = length e"
| "base_count P_UNLOCKED (RPlist bs) = sum_list (map (\<lambda>(lk, base). base_count lk base) bs)"
| "base_count _ _ = 0"

definition iht_count :: "('k, 'v) rplist \<Rightarrow> nat" where
  "iht_count root = sum_list (map (\<lambda>(lk, base). base_count lk base) root)"

text \<open>The loop of \<open>populate\<close> over this table; each insertion has its own fuel and snapshots.\<close>

definition iht_populate ::
  "('k \<Rightarrow> u64) \<Rightarrow> nat \<Rightarrow> ('k \<Rightarrow> 'v) \<Rightarrow> nat \<Rightarrow> ((nat \<times> ('k, 'v) stale list) \<times> 'k) list \<Rightarrow> ('k, 'v) rplist \<Rightarrow>
     ('k, 'v) rplist option" where
  "iht_populate h cap f n ks root =
     populate (\<lambda>(fuel, obs) root. iht_insert h cap fuel obs root) f n ks root"

end
