(* ===== verification/IhtRdmaProps.thy ===== *)
theory IhtRdmaProps
  imports IhtRdma
begin

text \<open>
  The RDMA hash table is a map: every operation, whatever its snapshots miss, reads or changes
  the abstract map \<open>iht_abs\<close> as a map operation does and keeps the table well-formed.
  The insertion returns as soon as the level hashes separate the colliding keys, and never
  when their standard hashes agree.
\<close>

section \<open>The abstract map and well-formed tables\<close>

function r_abs :: "('k \<Rightarrow> u64) \<Rightarrow> nat \<Rightarrow> nat \<Rightarrow> ('k, 'v) rplist \<Rightarrow> 'k \<Rightarrow> 'v option" where
  "r_abs h depth cnt bs key =
     (let b = level_hash_rdma h key depth cnt in
      if b < length bs then
        (case bs ! b of
           (_, RElist e) \<Rightarrow> map_of e key
         | (_, RPlist cs) \<Rightarrow> r_abs h (depth + 1) (cnt * 2) cs key)
      else None)"
  by pat_completeness auto
termination
  by (relation "measure (\<lambda>(h, depth, cnt, bs, key). rsize_of bs)") (auto intro: rsize_descend)

declare r_abs.simps [simp del]

definition iht_abs :: "('k \<Rightarrow> u64) \<Rightarrow> ('k, 'v) rplist \<Rightarrow> 'k \<Rightarrow> 'v option" where
  "iht_abs h root = r_abs h 1 (length root) root"

text \<open>
  Locks tell what buckets point to, lists have room for their pairs, keys occur once and only
  in the bucket their level hashes lead to (\<open>P\<close> holds of the keys that lead to this P-list).
\<close>

definition rbucket_ok ::
  "(('k, 'v) rplist \<Rightarrow> bool) \<Rightarrow> ('k \<Rightarrow> bool) \<Rightarrow> nat \<Rightarrow> lock_state \<times> ('k, 'v) rbase \<Rightarrow> bool" where
  "rbucket_ok R P cap x \<longleftrightarrow>
     (\<exists>e. x = (E_UNLOCKED, RElist e) \<and> distinct (map fst e) \<and> length e \<le> cap \<and> (\<forall>k \<in> fst ` set e. P k)) \<or>
     (\<exists>cs. x = (P_UNLOCKED, RPlist cs) \<and> R cs)"

lemma rbucket_ok_mono [mono]: "R \<le> S \<Longrightarrow> rbucket_ok R P cap x \<longrightarrow> rbucket_ok S P cap x"
  by (auto simp: rbucket_ok_def)

lemma rbucket_ok_simps [simp]:
  "rbucket_ok R P cap (E_UNLOCKED, RElist e) \<longleftrightarrow>
     distinct (map fst e) \<and> length e \<le> cap \<and> (\<forall>k \<in> fst ` set e. P k)"
  "rbucket_ok R P cap (P_UNLOCKED, RPlist cs) \<longleftrightarrow> R cs"
  by (auto simp: rbucket_ok_def)

definition leads :: "('k \<Rightarrow> u64) \<Rightarrow> nat \<Rightarrow> nat \<Rightarrow> ('k \<Rightarrow> bool) \<Rightarrow> nat \<Rightarrow> 'k \<Rightarrow> bool" where
  "leads h depth cnt P b k \<longleftrightarrow> P k \<and> level_hash_rdma h k depth cnt = b"

inductive rwf :: "('k \<Rightarrow> u64) \<Rightarrow> nat \<Rightarrow> ('k \<Rightarrow> bool) \<Rightarrow> nat \<Rightarrow> nat \<Rightarrow> ('k, 'v) rplist \<Rightarrow> bool"
  for h cap where
  rwf: "\<lbrakk> 1 < cnt; length bs = cnt;
          \<And>b. b < cnt \<Longrightarrow>
            rbucket_ok (rwf h cap (leads h depth cnt P b) (depth + 1) (cnt * 2)) (leads h depth cnt P b) cap (bs ! b) \<rbrakk>
        \<Longrightarrow> rwf h cap P depth cnt bs"

inductive_cases rwfE: "rwf h cap P depth cnt bs"

definition iht_wf :: "('k \<Rightarrow> u64) \<Rightarrow> nat \<Rightarrow> ('k, 'v) rplist \<Rightarrow> bool" where
  "iht_wf h cap root = rwf h cap (\<lambda>_. True) 1 (length root) root"

lemma rwf_InitPList: "1 < n \<Longrightarrow> rwf h cap P depth n (InitPList n)"
  by (rule rwf) (simp_all add: InitPList_def)

lemma rwf_bucket:
  assumes "rwf h cap P depth cnt bs" and "b = level_hash_rdma h key depth cnt"
  obtains (elist) e where "b < length bs" "bs ! b = (E_UNLOCKED, RElist e)" "distinct (map fst e)"
      "length e \<le> cap" "\<forall>k \<in> fst ` set e. leads h depth cnt P b k"
    | (plist) cs where "b < length bs" "bs ! b = (P_UNLOCKED, RPlist cs)"
      "rwf h cap (leads h depth cnt P b) (depth + 1) (cnt * 2) cs"
proof -
  have b: "b < cnt" "b < length bs"
    using assms level_hash_rdma_less [of cnt h key depth] by (auto elim!: rwfE)
  then have "rbucket_ok (rwf h cap (leads h depth cnt P b) (depth + 1) (cnt * 2)) (leads h depth cnt P b) cap (bs ! b)"
    using assms(1) by (auto elim!: rwfE)
  with b show ?thesis using elist plist unfolding rbucket_ok_def by blast
qed

lemma rwf_update:
  assumes "rwf h cap P depth cnt bs"
    and "rbucket_ok (rwf h cap (leads h depth cnt P b) (depth + 1) (cnt * 2)) (leads h depth cnt P b) cap x"
  shows "rwf h cap P depth cnt (bs[b := x])"
  using assms(1)
proof cases
  case rwf
  show ?thesis
  proof (rule rwf.rwf)
    fix c assume "c < cnt"
    with rwf(3) [OF this] assms(2) rwf(2) show
      "rbucket_ok (rwf h cap (leads h depth cnt P c) (depth + 1) (cnt * 2)) (leads h depth cnt P c) cap (bs[b := x] ! c)"
      by (cases "c = b") simp_all
  qed (use rwf in simp_all)
qed

text \<open>The abstract map one level at a time.\<close>

lemma r_abs_leaf:
  assumes "level_hash_rdma h k depth cnt < length bs"
  shows "bs ! level_hash_rdma h k depth cnt = (lk, RElist e) \<Longrightarrow> r_abs h depth cnt bs k = map_of e k"
    "bs ! level_hash_rdma h k depth cnt = (lk, RPlist cs) \<Longrightarrow>
       r_abs h depth cnt bs k = r_abs h (depth + 1) (cnt * 2) cs k"
  using assms by (simp_all add: r_abs.simps [of h depth cnt bs k] Let_def)

lemma r_abs_update_other:
  assumes "b \<noteq> level_hash_rdma h key depth cnt"
  shows "r_abs h depth cnt (bs[b := x]) key = r_abs h depth cnt bs key"
  using assms by (simp add: r_abs.simps [of h depth cnt] Let_def)

lemma r_abs_update_elist:
  assumes "b < length bs"
  shows "r_abs h depth cnt (bs[b := (lk, RElist e)]) k =
     (if level_hash_rdma h k depth cnt = b then map_of e k else r_abs h depth cnt bs k)"
  using assms by (auto simp: r_abs_update_other intro: r_abs_leaf)

lemma r_abs_update_plist:
  assumes "b < length bs"
  shows "r_abs h depth cnt (bs[b := (lk, RPlist cs)]) k =
     (if level_hash_rdma h k depth cnt = b then r_abs h (depth + 1) (cnt * 2) cs k
      else r_abs h depth cnt bs k)"
  using assms r_abs_leaf(2) [of h k depth cnt "bs[b := (lk, RPlist cs)]" lk cs]
  by (auto simp: r_abs_update_other)

text \<open>What changing the bucket of one key does to the map.\<close>

lemma r_abs_upd_elist:
  assumes "b = level_hash_rdma h key depth cnt" "b < length bs" "bs ! b = (lk, RElist e)"
    and "map_of e' = (map_of e)(key := x)"
  shows "r_abs h depth cnt (bs[b := (lk', RElist e')]) = (r_abs h depth cnt bs)(key := x)"
proof
  fix k
  show "r_abs h depth cnt (bs[b := (lk', RElist e')]) k = ((r_abs h depth cnt bs)(key := x)) k"
    using assms r_abs_leaf(1) [of h k depth cnt bs lk e] by (auto simp: r_abs_update_elist)
qed

lemma r_abs_upd_plist:
  assumes "b = level_hash_rdma h key depth cnt" "b < length bs" "bs ! b = (lk, RPlist cs)"
    and "r_abs h (depth + 1) (cnt * 2) cs' = (r_abs h (depth + 1) (cnt * 2) cs)(key := x)"
  shows "r_abs h depth cnt (bs[b := (lk', RPlist cs')]) = (r_abs h depth cnt bs)(key := x)"
proof
  fix k
  show "r_abs h depth cnt (bs[b := (lk', RPlist cs')]) k = ((r_abs h depth cnt bs)(key := x)) k"
    using assms r_abs_leaf(2) [of h k depth cnt bs lk cs] by (auto simp: r_abs_update_plist)
qed

lemma list_get_map_of: "list_get key e = map_of e key"
  by (simp add: list_get_def elist_find_map_of)

section \<open>contains\<close>

lemma r_contains_abs:
  assumes "rwf h cap P depth cnt bs" and "lockfree \<Longrightarrow> w = [] \<and> obs = []"
  shows "r_contains h lockfree w obs depth cnt bs key = Some (r_abs h depth cnt bs key)"
  using assms
proof (induction h lockfree w obs depth cnt bs key arbitrary: P rule: r_contains.induct)
  case (1 h lockfree w obs depth cnt bs key)
  let ?b = "level_hash_rdma h key depth cnt"
  obtain w' obs' where v: "next_view obs = (w', obs')" by (cases "next_view obs")
  have fresh: "lockfree \<Longrightarrow> w' = [] \<and> obs' = []" using "1.prems"(2) v by (auto simp: next_view_def)
  from "1.prems"(1) show ?case
  proof (rule rwf_bucket [OF _ refl, where key = key], goal_cases elist plist)
    case (elist e)
    then show ?case using "1.prems"(2)
      by (simp add: r_contains.simps [of h lockfree w obs] Let_def r_abs_leaf(1) list_get_map_of
          seen_lock_def seen_elist_def)
  next
    case (plist cs)
    show ?case
    proof (cases "seen_lock w ?b P_UNLOCKED = P_UNLOCKED")
      case True
      from "1.IH"(1) [OF refl plist(1) plist(2) [symmetric], of cs w' obs'] True v plist(3) fresh
      have "r_contains h lockfree w' obs' (depth + 1) (cnt * 2) cs key = Some (r_abs h (depth + 1) (cnt * 2) cs key)"
        by simp
      with True plist v show ?thesis
        by (simp add: r_contains.simps [of h lockfree w obs] Let_def r_abs_leaf(2))
    next
      case False
      then have nl: "\<not> lockfree" using "1.prems"(2) by (auto simp: seen_lock_def)
      from "1.IH"(2) [OF refl plist(1) plist(2) [symmetric], of "(False, P_UNLOCKED)" False P_UNLOCKED w' obs']
        False nl v "1.prems"
      have "r_contains h lockfree w' obs' depth cnt bs key = Some (r_abs h depth cnt bs key)" by simp
      with False nl plist v show ?thesis
        by (simp add: r_contains.simps [of h False w obs] Let_def)
    qed
  qed
qed

text \<open>
  Without the lock the result may come from a list that a stale view still points to: the list
  of the level at which the view has the key's bucket as an E-list.
\<close>

definition view_shows ::
  "('k \<Rightarrow> u64) \<Rightarrow> ('k, 'v) stale list \<Rightarrow> nat \<Rightarrow> nat \<Rightarrow> 'k \<Rightarrow> nat \<Rightarrow> ('k, 'v) elist \<Rightarrow> bool" where
  "view_shows h views depth cnt key i e \<longleftrightarrow>
     i < length views \<and> map_of (views ! i) (level_hash_rdma h key (depth + i) (cnt * 2 ^ i)) = Some e"

lemma r_contains_lockfree:
  assumes "rwf h cap P depth cnt bs"
  shows "\<exists>r. r_contains h True w obs depth cnt bs key = Some r \<and>
     (r = r_abs h depth cnt bs key \<or> (\<exists>i e. view_shows h (w # obs) depth cnt key i e \<and> r = map_of e key))"
  using assms
proof (induction bs arbitrary: P w obs depth cnt rule: measure_induct_rule [where f = rsize_of])
  case (less bs)
  let ?b = "level_hash_rdma h key depth cnt"
  from less.prems show ?case
  proof (rule rwf_bucket [OF _ refl, where key = key])
    fix e assume b: "?b < length bs" "bs ! ?b = (E_UNLOCKED, RElist e)"
    then show ?thesis
      by (simp add: r_contains.simps Let_def seen_lock_def seen_elist_def r_abs_leaf list_get_map_of)
  next
    fix cs assume b: "?b < length bs" "bs ! ?b = (P_UNLOCKED, RPlist cs)"
      and cs: "rwf h cap (leads h depth cnt P ?b) (depth + 1) (cnt * 2) cs"
    show ?thesis
    proof (cases "map_of w ?b")
      case (Some e)
      then have "view_shows h (w # obs) depth cnt key 0 e" by (simp add: view_shows_def)
      with b Some show ?thesis
        by (auto simp: r_contains.simps [of h True w] Let_def seen_lock_def seen_elist_def list_get_map_of)
    next
      case None
      obtain w' obs' where v: "next_view obs = (w', obs')" by fastforce
      have step: "r_contains h True w obs depth cnt bs key =
          r_contains h True w' obs' (depth + 1) (cnt * 2) cs key"
        using b None v by (simp add: r_contains.simps [of h True w] Let_def seen_lock_def)
      have sz: "rsize_of cs < rsize_of bs" by (rule rsize_descend [OF b(1)]) (simp add: b(2))
      have shift: "view_shows h (w # obs) depth cnt key (Suc i) e"
        if "view_shows h (w' # obs') (depth + 1) (cnt * 2) key i e" for i e
        using that v by (cases obs) (auto simp: view_shows_def next_view_def mult_ac)
      from less.IH [OF sz cs, of w' obs'] shift b show ?thesis
        unfolding step by (fastforce simp: r_abs_leaf)
    qed
  qed
qed

section \<open>remove\<close>

lemma r_remove_abs:
  assumes "rwf h cap P depth cnt bs"
  shows "\<exists>bs'. r_remove h w obs depth cnt bs key = Some (r_abs h depth cnt bs key, bs') \<and>
     rwf h cap P depth cnt bs' \<and> r_abs h depth cnt bs' = (r_abs h depth cnt bs)(key := None)"
  using assms
proof (induction h w obs depth cnt bs key arbitrary: P rule: r_remove.induct)
  case (1 h w obs depth cnt bs key)
  note wf = "1.prems"
  let ?b = "level_hash_rdma h key depth cnt"
  obtain w' obs' where v: "next_view obs = (w', obs')" by (cases "next_view obs")
  from wf show ?case
  proof (rule rwf_bucket [OF _ refl, where key = key], goal_cases elist plist)
    case (elist e)
    note abs = r_abs_leaf(1) [OF elist(1,2)]
    show ?case
    proof (cases "elist_find key e")
      case None
      have "bs[?b := (E_UNLOCKED, RElist e)] = bs" using elist(2) by (metis list_update_id)
      with elist(1,2) wf None abs show ?thesis
        by (simp add: r_remove.simps [of h w obs] Let_def map_of_None_find seen_lock_def fun_upd_idem)
    next
      case (Some i)
      note M = map_of_elist_remove [OF elist(3) Some]
      have "i < length e" using elist_find_Some [OF Some] by simp
      then have "set (elist_remove i e) \<subseteq> set e"
        using mset_elist_remove [of i e] by (metis insert_subset set_mset_add_mset_insert set_mset_mset subset_refl)
      then have "rwf h cap P depth cnt (bs[?b := (E_UNLOCKED, RElist (elist_remove i e))])"
        using M(2) elist(4,5) by (intro rwf_update [OF wf]) auto
      moreover note r_abs_upd_elist [OF refl elist(1,2) M(1)]
      ultimately show ?thesis using elist(1,2) Some abs
        by (simp add: r_remove.simps [of h w obs] Let_def elist_find_val seen_lock_def fun_eq_iff)
    qed
  next
    case (plist cs)
    show ?case
    proof (cases "seen_lock w ?b P_UNLOCKED = P_UNLOCKED")
      case True
      from "1.IH"(1) [OF refl plist(1) plist(2) [symmetric], of cs w' obs'] True v plist(3)
      obtain cs' where I: "r_remove h w' obs' (depth + 1) (cnt * 2) cs key =
            Some (r_abs h (depth + 1) (cnt * 2) cs key, cs')"
          "rwf h cap (leads h depth cnt P ?b) (depth + 1) (cnt * 2) cs'"
          "r_abs h (depth + 1) (cnt * 2) cs' = (r_abs h (depth + 1) (cnt * 2) cs)(key := None)"
        by fastforce
      have "rwf h cap P depth cnt (bs[?b := (P_UNLOCKED, RPlist cs')])"
        using I(2) by (intro rwf_update [OF wf]) simp
      moreover note r_abs_upd_plist [OF refl plist(1,2) I(3)]
      ultimately show ?thesis using True plist(1,2) v I(1)
        by (simp add: r_remove.simps [of h w obs] Let_def r_abs_leaf(2) fun_eq_iff)
    next
      case False
      from "1.IH"(2) [OF refl plist(1) plist(2) [symmetric], of "(False, P_UNLOCKED)" False P_UNLOCKED w' obs']
        False v wf
      have "\<exists>bs'. r_remove h w' obs' depth cnt bs key = Some (r_abs h depth cnt bs key, bs') \<and>
         rwf h cap P depth cnt bs' \<and> r_abs h depth cnt bs' = (r_abs h depth cnt bs)(key := None)"
        by (simp add: fun_eq_iff)
      with False plist v show ?thesis
        by (simp add: r_remove.simps [of h w obs] Let_def fun_eq_iff)
    qed
  qed
qed

section \<open>insert\<close>

lemma fold_r_put: "fold r_put ps (lk, RElist e) = (lk, RElist (e @ ps))"
  by (induction ps arbitrary: e) (simp_all add: r_put_def elist_insert_def)

lemma r_rehash_bucket:
  assumes "0 < cnt"
  shows "length (r_rehash h e cnt depth) = cnt * 2"
    and "b < cnt * 2 \<Longrightarrow> r_rehash h e cnt depth ! b =
       (E_UNLOCKED, RElist (filter (\<lambda>p. level_hash_rdma h (fst p) (depth + 1) (cnt * 2) = b) e))"
proof -
  have l: "level_hash_rdma h k (depth + 1) (cnt * 2) < length (InitPList (cnt * 2))" for k
    using level_hash_rdma_less [of "cnt * 2" h k "depth + 1"] assms by (simp add: InitPList_def)
  show "length (r_rehash h e cnt depth) = cnt * 2"
    using fold_distribute [where ps = e and f = r_put and bs = "InitPList (cnt * 2)" and b = 0
        and slot = "\<lambda>p. level_hash_rdma h (fst p) (depth + 1) (cnt * 2)"] l
    by (simp add: r_rehash_def InitPList_def)
  show "r_rehash h e cnt depth ! b =
       (E_UNLOCKED, RElist (filter (\<lambda>p. level_hash_rdma h (fst p) (depth + 1) (cnt * 2) = b) e))"
    if "b < cnt * 2"
    using fold_distribute [where ps = e and f = r_put and bs = "InitPList (cnt * 2)" and b = b
        and slot = "\<lambda>p. level_hash_rdma h (fst p) (depth + 1) (cnt * 2)"] l that
    by (simp add: r_rehash_def InitPList_def fold_r_put)
qed

lemma r_rehash_wf:
  assumes "0 < cnt" "distinct (map fst e)" "length e \<le> cap" "\<forall>k \<in> fst ` set e. P k"
  shows "rwf h cap P (depth + 1) (cnt * 2) (r_rehash h e cnt depth)"
proof (rule rwf)
  fix b assume b: "b < cnt * 2"
  let ?f = "filter (\<lambda>p. level_hash_rdma h (fst p) (depth + 1) (cnt * 2) = b) e"
  have "length ?f \<le> cap" using assms(3) le_trans length_filter_le by blast
  moreover have "distinct (map fst ?f)" using assms(2) by (rule distinct_map_filter)
  ultimately show "rbucket_ok (rwf h cap (leads h (depth + 1) (cnt * 2) P b) (depth + 1 + 1) (cnt * 2 * 2))
      (leads h (depth + 1) (cnt * 2) P b) cap (r_rehash h e cnt depth ! b)"
    using assms(4) by (simp only: r_rehash_bucket(2) [OF assms(1) b] rbucket_ok_simps) (auto simp: leads_def)
qed (use assms(1) in \<open>simp_all add: r_rehash_bucket(1)\<close>)

lemma r_rehash_abs:
  assumes "0 < cnt"
  shows "r_abs h (depth + 1) (cnt * 2) (r_rehash h e cnt depth) k = map_of e k"
proof -
  have b: "level_hash_rdma h k (depth + 1) (cnt * 2) < cnt * 2"
    using level_hash_rdma_less [of "cnt * 2" h k "depth + 1"] assms by simp
  then show ?thesis
    using r_abs_leaf(1) [OF _ r_rehash_bucket(2) [OF assms b, of h e depth]] r_rehash_bucket(1) [OF assms, of h e depth]
    by (simp add: map_of_filter_slot [where slot = "\<lambda>k. level_hash_rdma h k (Suc depth) (cnt * 2)"])
qed

lemma rwf_rehash:
  assumes wf: "rwf h cap P depth cnt bs" and e: "b = level_hash_rdma h key depth cnt" "b < length bs"
    "bs ! b = (E_UNLOCKED, RElist e)"
    "distinct (map fst e)" "length e \<le> cap" "\<forall>k \<in> fst ` set e. leads h depth cnt P b k"
  shows "rwf h cap P depth cnt (bs[b := (P_UNLOCKED, RPlist (r_rehash h e cnt depth))])"
    and "r_abs h depth cnt (bs[b := (P_UNLOCKED, RPlist (r_rehash h e cnt depth))]) = r_abs h depth cnt bs"
proof -
  have c: "0 < cnt" using wf by (auto elim: rwfE)
  show "rwf h cap P depth cnt (bs[b := (P_UNLOCKED, RPlist (r_rehash h e cnt depth))])"
    using r_rehash_wf [OF c e(4,5,6)] by (intro rwf_update [OF wf]) simp
  show "r_abs h depth cnt (bs[b := (P_UNLOCKED, RPlist (r_rehash h e cnt depth))]) = r_abs h depth cnt bs"
  proof
    fix k
    show "r_abs h depth cnt (bs[b := (P_UNLOCKED, RPlist (r_rehash h e cnt depth))]) k = r_abs h depth cnt bs k"
      using e(2,3) r_rehash_abs [OF c, of h depth e k] r_abs_leaf(1) [of h k depth cnt bs E_UNLOCKED e]
      by (auto simp: r_abs_update_plist)
  qed
qed

text \<open>One round of the loop, for each way a bucket can look.\<close>

lemma r_insert_round:
  assumes "b = level_hash_rdma h key depth cnt" "b < length bs" "next_view obs = (w', obs')"
  shows
    "bs ! b = (P_UNLOCKED, RPlist cs) \<Longrightarrow> seen_lock w b P_UNLOCKED = P_UNLOCKED \<Longrightarrow>
       r_insert h cap fuel w obs depth cnt bs key val =
         (case r_insert h cap fuel w' obs' (depth + 1) (cnt * 2) cs key val of
            None \<Rightarrow> None
          | Some (r, cs') \<Rightarrow> Some (r, bs[b := (P_UNLOCKED, RPlist cs')]))"
    "bs ! b = (P_UNLOCKED, RPlist cs) \<Longrightarrow> seen_lock w b P_UNLOCKED \<noteq> P_UNLOCKED \<Longrightarrow>
       r_insert h cap fuel w obs depth cnt bs key val = r_insert h cap fuel w' obs' depth cnt bs key val"
    "bs ! b = (E_UNLOCKED, RElist e) \<Longrightarrow> elist_find key e = None \<Longrightarrow> \<not> length e < cap \<Longrightarrow>
       r_insert h cap fuel w obs depth cnt bs key val =
         (case fuel of
            0 \<Rightarrow> None
          | Suc n \<Rightarrow> r_insert h cap n w' obs' depth cnt
              (bs[b := (P_UNLOCKED, RPlist (r_rehash h e cnt depth))]) key val)"
  using assms(2,3)
  by (simp_all add: r_insert.simps [of h cap fuel w obs] Let_def seen_lock_def assms(1) [symmetric]
      split: nat.split)

lemma r_insert_abs:
  assumes "rwf h cap P depth cnt bs" and "P key"
    and "r_insert h cap fuel w obs depth cnt bs key val = Some (r, bs')"
  shows "r = r_abs h depth cnt bs key \<and> rwf h cap P depth cnt bs' \<and>
     r_abs h depth cnt bs' = (r_abs h depth cnt bs)(key \<mapsto> (case r of None \<Rightarrow> val | Some v \<Rightarrow> v))"
  using assms
proof (induction h cap fuel w obs depth cnt bs key val arbitrary: P r bs' rule: r_insert.induct)
  case (1 h cap fuel w obs depth cnt bs key val)
  note wf = "1.prems"(1)
  let ?b = "level_hash_rdma h key depth cnt"
  obtain w' obs' where v: "next_view obs = (w', obs')" by (cases "next_view obs")
  have lead: "leads h depth cnt P ?b key" using "1.prems"(2) by (simp add: leads_def)
  from wf show ?case
  proof (rule rwf_bucket [OF _ refl, where key = key], goal_cases elist plist)
    case (elist e)
    note abs = r_abs_leaf(1) [OF elist(1,2)]
    show ?case
    proof (cases "elist_find key e")
      case (Some i)
      have "bs[?b := (E_UNLOCKED, RElist e)] = bs" using elist(2) by (metis list_update_id)
      then have r: "r = Some (snd (e ! i))" "bs' = bs"
        using "1.prems"(3) elist(1,2) Some
        by (simp_all add: r_insert.simps [of h cap fuel w obs] Let_def seen_lock_def)
      moreover have "r_abs h depth cnt bs key = Some (snd (e ! i))"
        using abs elist_find_val [OF Some] by simp
      ultimately show ?thesis using wf by (simp add: fun_upd_idem)
    next
      case None
      then have key: "key \<notin> fst ` set e" by (simp add: elist_find_None)
      show ?thesis
      proof (cases "length e < cap")
        case True
        let ?e = "elist_insert key val e"
        have r: "r = None" "bs' = bs[?b := (E_UNLOCKED, RElist ?e)]"
          using "1.prems"(3) elist(1,2) None True
          by (auto simp: r_insert.simps [of h cap fuel w obs] Let_def seen_lock_def)
        have "rwf h cap P depth cnt bs'" unfolding r(2)
          using elist True key lead by (intro rwf_update [OF wf]) (auto simp: elist_insert_def)
        with r_abs_upd_elist [OF refl elist(1,2) map_of_elist_insert [OF key, of val], of E_UNLOCKED]
        show ?thesis using None abs by (simp add: r map_of_None_find)
      next
        case False
        with "1.prems"(3) elist(1,2) None v obtain fuel' where f: "fuel = Suc fuel'"
          and i: "r_insert h cap fuel' w' obs' depth cnt
              (bs[?b := (P_UNLOCKED, RPlist (r_rehash h e cnt depth))]) key val = Some (r, bs')"
          by (auto simp: r_insert.simps [of h cap fuel w obs] Let_def seen_lock_def split: nat.splits)
        note R = rwf_rehash [OF wf refl elist]
        from "1.IH"(2) [OF refl elist(1) elist(2) [symmetric], of "(True, E_LOCKED)" True E_LOCKED e fuel' w' obs'
            P r bs'] None False elist(2) v f R(1) "1.prems"(2) i
        show ?thesis by (auto simp: seen_lock_def R(2) fun_eq_iff)
      qed
    qed
  next
    case (plist cs)
    show ?case
    proof (cases "seen_lock w ?b P_UNLOCKED = P_UNLOCKED")
      case True
      with "1.prems"(3) plist v obtain cs' where
        i: "r_insert h cap fuel w' obs' (depth + 1) (cnt * 2) cs key val = Some (r, cs')"
        and bs': "bs' = bs[?b := (P_UNLOCKED, RPlist cs')]"
        by (auto simp: r_insert.simps [of h cap fuel w obs] Let_def split: option.splits)
      from "1.IH"(1) [OF refl plist(1) plist(2) [symmetric], of cs w' obs' _ r cs'] True v plist(3) lead i
      have I: "r = r_abs h (depth + 1) (cnt * 2) cs key"
        "rwf h cap (leads h depth cnt P ?b) (depth + 1) (cnt * 2) cs'"
        "r_abs h (depth + 1) (cnt * 2) cs' =
           (r_abs h (depth + 1) (cnt * 2) cs)(key \<mapsto> (case r of None \<Rightarrow> val | Some v \<Rightarrow> v))"
        by auto
      have "rwf h cap P depth cnt bs'"
        unfolding bs' using I(2) by (intro rwf_update [OF wf]) simp
      then show ?thesis using r_abs_upd_plist [OF refl plist(1,2) I(3), of P_UNLOCKED] I(1) r_abs_leaf(2) [OF plist(1,2)]
        by (simp add: bs')
    next
      case False
      with "1.prems"(3) plist v
      have i: "r_insert h cap fuel w' obs' depth cnt bs key val = Some (r, bs')"
        by (simp add: r_insert.simps [of h cap fuel w obs] Let_def)
      from "1.IH"(3) [OF refl plist(1) plist(2) [symmetric], of "(False, P_UNLOCKED)" False P_UNLOCKED w' obs' P r bs']
        False v wf "1.prems"(2) i show ?thesis by (auto simp: fun_eq_iff)
    qed
  qed
qed

section \<open>When an insertion returns\<close>

text \<open>The level, bucket count and E-list a key leads to.\<close>

function r_reach :: "('k \<Rightarrow> u64) \<Rightarrow> nat \<Rightarrow> nat \<Rightarrow> ('k, 'v) rplist \<Rightarrow> 'k \<Rightarrow> (nat \<times> nat \<times> ('k, 'v) elist) option" where
  "r_reach h depth cnt bs key =
     (let b = level_hash_rdma h key depth cnt in
      if b < length bs then
        (case bs ! b of
           (_, RElist e) \<Rightarrow> Some (depth, cnt, e)
         | (_, RPlist cs) \<Rightarrow> r_reach h (depth + 1) (cnt * 2) cs key)
      else None)"
  by pat_completeness auto
termination
  by (relation "measure (\<lambda>(h, depth, cnt, bs, key). rsize_of bs)") (auto intro: rsize_descend)

declare r_reach.simps [simp del]

lemma r_reach_leaf:
  assumes "level_hash_rdma h k depth cnt < length bs"
  shows "bs ! level_hash_rdma h k depth cnt = (lk, RElist e) \<Longrightarrow> r_reach h depth cnt bs k = Some (depth, cnt, e)"
    "bs ! level_hash_rdma h k depth cnt = (lk, RPlist cs) \<Longrightarrow>
       r_reach h depth cnt bs k = r_reach h (depth + 1) (cnt * 2) cs k"
  using assms by (simp_all add: r_reach.simps [of h depth cnt bs k] Let_def)

lemma r_reach_rehash:
  assumes "0 < cnt" and "b = level_hash_rdma h k depth cnt" "b < length bs"
  shows "r_reach h depth cnt (bs[b := (P_UNLOCKED, RPlist (r_rehash h e cnt depth))]) k =
     Some (depth + 1, cnt * 2, filter (\<lambda>p. level_hash_rdma h (fst p) (depth + 1) (cnt * 2) =
        level_hash_rdma h k (depth + 1) (cnt * 2)) e)"
proof -
  let ?b = "level_hash_rdma h k (depth + 1) (cnt * 2)"
  have b: "?b < cnt * 2" using level_hash_rdma_less [of "cnt * 2" h k "depth + 1"] assms(1) by simp
  have "r_reach h depth cnt (bs[b := (P_UNLOCKED, RPlist (r_rehash h e cnt depth))]) k =
      r_reach h (depth + 1) (cnt * 2) (r_rehash h e cnt depth) k"
    using assms(2,3) by (intro r_reach_leaf(2)) simp_all
  also have "\<dots> = Some (depth + 1, cnt * 2, filter (\<lambda>p. level_hash_rdma h (fst p) (depth + 1) (cnt * 2) = ?b) e)"
    by (rule r_reach_leaf(1)) (use b assms(1) in \<open>simp_all add: r_rehash_bucket\<close>)
  finally show ?thesis .
qed

text \<open>Two keys part within \<open>n\<close> levels below level \<open>depth\<close>.\<close>

fun part_within :: "('k \<Rightarrow> u64) \<Rightarrow> nat \<Rightarrow> nat \<Rightarrow> nat \<Rightarrow> 'k \<Rightarrow> 'k \<Rightarrow> bool" where
  "part_within h 0 depth cnt j k = False"
| "part_within h (Suc n) depth cnt j k =
     (level_hash_rdma h j (depth + 1) (cnt * 2) \<noteq> level_hash_rdma h k (depth + 1) (cnt * 2) \<or>
      part_within h n (depth + 1) (cnt * 2) j k)"

definition roomy :: "('k \<Rightarrow> u64) \<Rightarrow> nat \<Rightarrow> nat \<Rightarrow> 'k \<Rightarrow> nat \<times> nat \<times> ('k, 'v) elist \<Rightarrow> bool" where
  "roomy h cap n key x = (case x of (depth, cnt, e) \<Rightarrow>
     length e < cap \<or> key \<in> fst ` set e \<or> (\<exists>j \<in> fst ` set e. part_within h n depth cnt j key))"

lemma roomy_rehash:
  assumes "\<not> length e < cap" "length e \<le> cap" "key \<notin> fst ` set e" "roomy h cap (Suc n) key (depth, cnt, e)"
  shows "roomy h cap n key (depth + 1, cnt * 2, filter (\<lambda>p. level_hash_rdma h (fst p) (depth + 1) (cnt * 2) =
        level_hash_rdma h key (depth + 1) (cnt * 2)) e)"
proof -
  let ?same = "\<lambda>p. level_hash_rdma h (fst p) (depth + 1) (cnt * 2) = level_hash_rdma h key (depth + 1) (cnt * 2)"
  from assms(1,3,4) obtain p where p: "p \<in> set e" "part_within h (Suc n) depth cnt (fst p) key"
    by (auto simp: roomy_def)
  show ?thesis
  proof (cases "?same p")
    case True
    with p(2) have "part_within h n (depth + 1) (cnt * 2) (fst p) key" by simp
    moreover have "fst p \<in> fst ` set (filter ?same e)" using p(1) True by simp
    ultimately show ?thesis unfolding roomy_def by blast
  next
    case False
    with p(1) have "length (filter ?same e) < length e" by (rule length_filter_less)
    with assms(2) show ?thesis by (simp add: roomy_def)
  qed
qed

lemma r_insert_returns:
  assumes "rwf h cap P depth cnt bs" and "r_reach h depth cnt bs key = Some x" and "roomy h cap fuel key x"
  shows "\<exists>r bs'. r_insert h cap fuel w obs depth cnt bs key val = Some (r, bs')"
  using assms
proof (induction h cap fuel w obs depth cnt bs key val arbitrary: P x rule: r_insert.induct)
  case (1 h cap fuel w obs depth cnt bs key val)
  note wf = "1.prems"(1)
  let ?b = "level_hash_rdma h key depth cnt"
  obtain w' obs' where v: "next_view obs = (w', obs')" by (cases "next_view obs")
  have c: "0 < cnt" using wf by (auto elim: rwfE)
  from wf show ?case
  proof (rule rwf_bucket [OF _ refl, where key = key], goal_cases elist plist)
    case (elist e)
    have x: "x = (depth, cnt, e)" using "1.prems"(2) r_reach_leaf(1) [OF elist(1,2)] by simp
    show ?case
    proof (cases "elist_find key e = None \<and> \<not> length e < cap")
      case False
      then show ?thesis using elist(1,2)
        by (auto simp: r_insert.simps [of h cap fuel w obs] Let_def seen_lock_def split: option.splits)
    next
      case True
      then have key: "key \<notin> fst ` set e" by (simp add: elist_find_None)
      obtain n where n: "fuel = Suc n" using "1.prems"(3) True key
        by (cases fuel) (auto simp: roomy_def x)
      note R = roomy_rehash [OF conjunct2 [OF True] elist(4) key "1.prems"(3) [unfolded x n]]
      from "1.IH"(2) [OF refl elist(1) elist(2) [symmetric], of "(True, E_LOCKED)" True E_LOCKED e n w' obs',
          OF _ _ _ _ _ _ _ _ _ rwf_rehash(1) [OF wf refl elist] r_reach_rehash [OF c refl elist(1)] R]
        True v n
      have "\<exists>r bs'. r_insert h cap n w' obs' depth cnt
          (bs[?b := (P_UNLOCKED, RPlist (r_rehash h e cnt depth))]) key val = Some (r, bs')"
        by (simp add: seen_lock_def)
      then show ?thesis
        by (simp only: n r_insert_round(3) [OF refl elist(1) v elist(2) conjunct1 [OF True] conjunct2 [OF True]]
            nat.case)
    qed
  next
    case (plist cs)
    have x: "r_reach h (depth + 1) (cnt * 2) cs key = Some x"
      using "1.prems"(2) r_reach_leaf(2) [OF plist(1,2)] by simp
    show ?case
    proof (cases "seen_lock w ?b P_UNLOCKED = P_UNLOCKED")
      case True
      from "1.IH"(1) [OF refl plist(1) plist(2) [symmetric], of cs w' obs', OF _ refl v [symmetric] plist(3) x "1.prems"(3)] True
      show ?thesis by (auto simp: r_insert_round(1) [OF refl plist(1) v plist(2) True])
    next
      case False
      from "1.IH"(3) [OF refl plist(1) plist(2) [symmetric], of "(False, P_UNLOCKED)" False P_UNLOCKED w' obs',
          OF _ _ refl _ v [symmetric] "1.prems"] False
      show ?thesis by (simp add: r_insert_round(2) [OF refl plist(1) v plist(2) False])
    qed
  qed
qed

text \<open>Keys with one standard hash take the same way at every level.\<close>

lemma level_hash_rdma_cong: "h j = h k \<Longrightarrow> level_hash_rdma h j = level_hash_rdma h k"
  by (simp add: level_hash_rdma_def level_prehash_def fun_eq_iff)

lemma r_insert_diverges:
  assumes "rwf h cap P depth cnt bs" and "r_reach h depth cnt bs key = Some (d, c, e)"
    and "length e = cap" "key \<notin> fst ` set e" "\<forall>j \<in> fst ` set e. h j = h key"
  shows "r_insert h cap fuel w obs depth cnt bs key val = None"
  using assms
proof (induction h cap fuel w obs depth cnt bs key val arbitrary: P d c rule: r_insert.induct)
  case (1 h cap fuel w obs depth cnt bs key val)
  note wf = "1.prems"(1)
  let ?b = "level_hash_rdma h key depth cnt"
  obtain w' obs' where v: "next_view obs = (w', obs')" by (cases "next_view obs")
  have c: "0 < cnt" using wf by (auto elim: rwfE)
  from wf show ?case
  proof (rule rwf_bucket [OF _ refl, where key = key], goal_cases elist plist)
    case (elist e')
    have e: "e' = e" using "1.prems"(2) r_reach_leaf(1) [OF elist(1,2)] by simp
    have none: "elist_find key e = None" using "1.prems"(4) by (simp add: elist_find_None)
    have same: "filter (\<lambda>p. level_hash_rdma h (fst p) (depth + 1) (cnt * 2) =
        level_hash_rdma h key (depth + 1) (cnt * 2)) e = e"
    proof (rule filter_True, rule ballI)
      fix p assume "p \<in> set e"
      then have "h (fst p) = h key" using "1.prems"(5) by simp
      then show "level_hash_rdma h (fst p) (depth + 1) (cnt * 2) = level_hash_rdma h key (depth + 1) (cnt * 2)"
        by (rule fun_cong [OF fun_cong [OF level_hash_rdma_cong]])
    qed
    have full: "\<not> length e < cap" using "1.prems"(3) by simp
    have "r_insert h cap n w' obs' depth cnt
          (bs[?b := (P_UNLOCKED, RPlist (r_rehash h e cnt depth))]) key val = None" if n: "fuel = Suc n" for n
      by (rule "1.IH"(2) [OF refl elist(1) elist(2) [symmetric, unfolded e] _ acquire_simps(1) refl refl refl none
            full n v [symmetric] rwf_rehash(1) [OF wf refl elist [unfolded e]]
            r_reach_rehash [OF c refl elist(1), where e = e, unfolded same] "1.prems"(3,4,5)])
        (simp add: seen_lock_def)
    then show ?case
      by (simp add: r_insert_round(3) [OF refl elist(1) v elist(2) [unfolded e] none full] split: nat.split)
  next
    case (plist cs)
    have x: "r_reach h (depth + 1) (cnt * 2) cs key = Some (d, c, e)"
      using "1.prems"(2) r_reach_leaf(2) [OF plist(1,2)] by simp
    show ?case
    proof (cases "seen_lock w ?b P_UNLOCKED = P_UNLOCKED")
      case True
      note I = "1.IH"(1) [OF refl plist(1) plist(2) [symmetric] True refl v [symmetric] plist(3) x "1.prems"(3,4,5)]
      show ?thesis by (simp only: r_insert_round(1) [OF refl plist(1) v plist(2) True] I option.case)
    next
      case False
      note I = "1.IH"(3) [OF refl plist(1) plist(2) [symmetric] False acquire_simps(2) refl refl v [symmetric] "1.prems"]
      show ?thesis by (simp only: r_insert_round(2) [OF refl plist(1) v plist(2) False] I)
    qed
  qed
qed

section \<open>Counting\<close>

text \<open>A key the table holds leads to where it is.\<close>

lemma r_abs_leads:
  assumes "rwf h cap P depth cnt bs" and "r_abs h depth cnt bs key \<noteq> None"
  shows "P key"
  using assms
proof (induction h depth cnt bs key arbitrary: P rule: r_abs.induct)
  case (1 h depth cnt bs key)
  from "1.prems"(1) show ?case
  proof (rule rwf_bucket [OF _ refl, where key = key], goal_cases elist plist)
    case (elist e)
    then have "map_of e key \<noteq> None" using "1.prems"(2) r_abs_leaf(1) [OF elist(1,2)] by simp
    then have "key \<in> fst ` set e" by (simp add: map_of_eq_None_iff)
    with elist(5) show ?case unfolding leads_def by blast
  next
    case (plist cs)
    have "r_abs h (depth + 1) (cnt * 2) cs key \<noteq> None"
      using "1.prems"(2) r_abs_leaf(2) [OF plist(1,2)] by simp
    from "1.IH" [OF refl plist(1) plist(2) [symmetric] refl plist(3) this]
    show ?case by (simp add: leads_def)
  qed
qed

definition bucket_keys :: "('k \<Rightarrow> u64) \<Rightarrow> nat \<Rightarrow> nat \<Rightarrow> lock_state \<times> ('k, 'v) rbase \<Rightarrow> 'k set" where
  "bucket_keys h depth cnt x = (case x of
     (_, RElist e) \<Rightarrow> fst ` set e
   | (_, RPlist cs) \<Rightarrow> dom (r_abs h (depth + 1) (cnt * 2) cs))"

lemma bucket_keys_iff:
  assumes "rwf h cap P depth cnt bs" "b < cnt"
  shows "k \<in> bucket_keys h depth cnt (bs ! b) \<longleftrightarrow>
     r_abs h depth cnt bs k \<noteq> None \<and> level_hash_rdma h k depth cnt = b"
proof -
  have b: "b < length bs" using assms by (auto elim: rwfE)
  have "rbucket_ok (rwf h cap (leads h depth cnt P b) (depth + 1) (cnt * 2)) (leads h depth cnt P b) cap (bs ! b)"
    using assms by (auto elim!: rwfE)
  then consider (elist) e where "bs ! b = (E_UNLOCKED, RElist e)" "\<forall>k \<in> fst ` set e. leads h depth cnt P b k"
    | (plist) cs where "bs ! b = (P_UNLOCKED, RPlist cs)" "rwf h cap (leads h depth cnt P b) (depth + 1) (cnt * 2) cs"
    unfolding rbucket_ok_def by blast
  then show ?thesis
  proof cases
    case (elist e)
    have "r_abs h depth cnt bs k = map_of e k" if "level_hash_rdma h k depth cnt = b"
      using r_abs_leaf(1) [of h k depth cnt bs E_UNLOCKED e] that b elist(1) by simp
    moreover have "map_of e k \<noteq> None \<longleftrightarrow> k \<in> fst ` set e" by (simp add: map_of_eq_None_iff)
    moreover have "level_hash_rdma h k depth cnt = b" if "k \<in> fst ` set e"
      using that elist(2) unfolding leads_def by blast
    ultimately show ?thesis using elist(1) by (cases "level_hash_rdma h k depth cnt = b") (auto simp: bucket_keys_def)
  next
    case (plist cs)
    have "r_abs h depth cnt bs k = r_abs h (depth + 1) (cnt * 2) cs k" if "level_hash_rdma h k depth cnt = b"
      using r_abs_leaf(2) [of h k depth cnt bs P_UNLOCKED cs] that b plist(1) by simp
    moreover have "leads h depth cnt P b k" if "r_abs h (depth + 1) (cnt * 2) cs k \<noteq> None"
      using r_abs_leads [OF plist(2) that] .
    moreover have "k \<in> bucket_keys h depth cnt (bs ! b) \<longleftrightarrow> r_abs h (depth + 1) (cnt * 2) cs k \<noteq> None"
      using plist(1) by (simp add: bucket_keys_def domIff)
    ultimately show ?thesis unfolding leads_def by metis
  qed
qed

lemma dom_r_abs:
  assumes "rwf h cap P depth cnt bs"
  shows "dom (r_abs h depth cnt bs) = (\<Union>b<cnt. bucket_keys h depth cnt (bs ! b))"
proof -
  have "level_hash_rdma h k depth cnt < cnt" for k
    using assms level_hash_rdma_less [of cnt h k depth] by (auto elim!: rwfE)
  then show ?thesis using bucket_keys_iff [OF assms] by (auto simp: domIff)
qed

lemma count_abs:
  assumes "rwf h cap P depth cnt bs"
  shows "finite (dom (r_abs h depth cnt bs)) \<and>
     card (dom (r_abs h depth cnt bs)) = sum_list (map (\<lambda>(lk, base). base_count lk base) bs)"
  using assms
proof (induction rule: rwf.induct)
  case (rwf cnt bs depth P)
  let ?n = "\<lambda>x. (case x of (lk, base) \<Rightarrow> base_count lk base)"
  have wf: "rwf h cap P depth cnt bs"
    by (rule rwf.rwf [OF rwf(1,2)]) (use rwf(3) in \<open>unfold rbucket_ok_def, blast\<close>)
  have B: "finite (bucket_keys h depth cnt (bs ! b)) \<and> card (bucket_keys h depth cnt (bs ! b)) = ?n (bs ! b)"
    if "b < cnt" for b
    using rwf(3) [OF that] unfolding rbucket_ok_def
    by (auto simp: bucket_keys_def distinct_card simp flip: set_map)
  have "card (\<Union>b<cnt. bucket_keys h depth cnt (bs ! b)) = (\<Sum>b<cnt. card (bucket_keys h depth cnt (bs ! b)))"
    by (rule card_UN_disjoint) (use B bucket_keys_iff [OF wf] in auto)
  also have "\<dots> = (\<Sum>b<cnt. ?n (bs ! b))" using B by simp
  also have "\<dots> = sum_list (map ?n bs)"
    using rwf(2) by (simp add: sum_list_sum_nth atLeast0LessThan)
  finally show ?case using B by (simp add: dom_r_abs [OF wf])
qed

text \<open>The laws the clients rely on.\<close>

lemma iht_wf_length: "rwf h cap P depth cnt bs \<Longrightarrow> length bs = cnt"
  by (auto elim: rwfE)

lemma iht_contains_abs:
  assumes "iht_wf h cap root"
  shows "iht_contains h False obs root key = Some (iht_abs h root key)"
proof (cases "next_view obs")
  case (Pair w obs')
  with r_contains_abs [OF assms [unfolded iht_wf_def], of False w obs' key] show ?thesis
    by (simp add: iht_contains_def iht_abs_def)
qed

lemma iht_insert_abs:
  assumes "iht_wf h cap root" and "iht_insert h cap fuel obs root key val = Some (r, root')"
  shows "r = iht_abs h root key \<and> iht_wf h cap root' \<and> iht_abs h root' = map_insert (iht_abs h root) key val"
proof (cases "next_view obs")
  case (Pair w obs')
  with assms(2) have i: "r_insert h cap fuel w obs' 1 (length root) root key val = Some (r, root')"
    by (simp add: iht_insert_def)
  note I = r_insert_abs [OF assms(1) [unfolded iht_wf_def] TrueI i]
  have "length root' = length root" using I iht_wf_length by blast
  with I show ?thesis by (auto simp: iht_wf_def iht_abs_def map_insert_upd)
qed

lemma iht_remove_abs:
  assumes "iht_wf h cap root"
  shows "\<exists>root'. iht_remove h obs root key = Some (iht_abs h root key, root') \<and>
     iht_wf h cap root' \<and> iht_abs h root' = (iht_abs h root)(key := None)"
proof (cases "next_view obs")
  case (Pair w obs')
  from r_remove_abs [OF assms [unfolded iht_wf_def], of w obs' key] obtain root' where
    R: "r_remove h w obs' 1 (length root) root key = Some (r_abs h 1 (length root) root key, root')"
      "rwf h cap (\<lambda>_. True) 1 (length root) root'"
      "r_abs h 1 (length root) root' = (r_abs h 1 (length root) root)(key := None)"
    by blast
  have "length root' = length root" using R(2) iht_wf_length by blast
  with R Pair show ?thesis by (simp add: iht_wf_def iht_abs_def iht_remove_def)
qed

lemma InitAsFirst_fresh:
  assumes "1 < n"
  shows "iht_wf h cap (InitAsFirst n)" and "iht_abs h (InitAsFirst n) = Map.empty"
    and "iht_count (InitAsFirst n) = 0"
  using rwf_InitPList [OF assms] level_hash_rdma_less [OF assms]
  by (simp_all add: iht_wf_def InitAsFirst_def InitPList_def iht_abs_def iht_count_def sum_list_replicate
      r_abs.simps fun_eq_iff Let_def)

interpretation iht: kv_store "iht_wf h cap" "iht_abs h"
  "\<lambda>(fuel, obs). iht_insert h cap fuel obs" "\<lambda>(fuel :: nat, obs). iht_remove h obs"
  "\<lambda>(fuel, obs). iht_contains h False obs" iht_count
  for h :: "'k \<Rightarrow> u64" and cap
proof (unfold_locales, goal_cases ins rem fin cnt get)
  case (get root e key r)
  then show ?case by (cases e) (simp add: iht_contains_abs)
next
  case (ins root e key val r root')
  then show ?case by (cases e) (simp add: iht_insert_abs)
next
  case (rem root e key r root')
  then show ?case using iht_remove_abs [of h cap root "snd e" key] by (cases e) auto
next
  case (fin root)
  then show ?case using count_abs [of h cap "\<lambda>_. True" 1 "length root" root]
    by (simp add: iht_wf_def iht_abs_def)
next
  case (cnt root)
  then show ?case using count_abs [of h cap "\<lambda>_. True" 1 "length root" root]
    by (simp add: iht_wf_def iht_abs_def iht_count_def)
qed

end
