(* ===== verification/Workload.thy ===== *)
theory Workload
  imports KvMap Complex_Main
begin

text \<open>
  The benchmark client (\<open>iht/role_client.h\<close>, the map adaptor of \<open>iht/cached/iht_bench.h\<close> and
  \<open>iht/common.h\<close>): operations drawn from a distribution run on a map interface, every result
  is checked against the key, and the size of the structure is compared with the inserts and
  removes that succeeded. The random numbers and what the operations' runs depend on are
  arguments.
\<close>

section \<open>The map interface\<close>

datatype map_code = Insert | Get | Remove | Prepare

text \<open>\<open>conditions\<close>: one function behind the four calls of \<open>MapAPI\<close>; \<open>None\<close> never returns.\<close>

type_synonym 'b conditions = "map_code \<Rightarrow> int \<Rightarrow> int \<Rightarrow> int \<Rightarrow> 'b \<Rightarrow> (int option \<times> 'b) option"

definition api_get :: "'b conditions \<Rightarrow> int \<Rightarrow> 'b \<Rightarrow> (int option \<times> 'b) option" where
  "api_get conditions key b = conditions Get key 0 0 b"

definition api_remove :: "'b conditions \<Rightarrow> int \<Rightarrow> 'b \<Rightarrow> (int option \<times> 'b) option" where
  "api_remove conditions key b = conditions Remove key 0 0 b"

definition api_prepare :: "'b conditions \<Rightarrow> int \<Rightarrow> int \<Rightarrow> int \<Rightarrow> 'b \<Rightarrow> 'b option" where
  "api_prepare conditions op_count key_lb key_ub b =
     map_option snd (conditions Prepare op_count key_lb key_ub b)"

definition api_insert :: "'b conditions \<Rightarrow> int \<Rightarrow> int \<Rightarrow> 'b \<Rightarrow> (int option \<times> 'b) option" where
  "api_insert conditions key val b = conditions Insert key val 0 b"

text \<open>The adaptor over a store: it keeps the net number of keys it has added.\<close>

record ('e, 's) store_ops =
  s_contains :: "'e \<Rightarrow> 's \<Rightarrow> int \<Rightarrow> int option option"
  s_insert :: "'e \<Rightarrow> 's \<Rightarrow> int \<Rightarrow> int \<Rightarrow> (int option \<times> 's) option"
  s_remove :: "'e \<Rightarrow> 's \<Rightarrow> int \<Rightarrow> (int option \<times> 's) option"
  s_count :: "'s \<Rightarrow> nat"

record 's bench =
  store :: 's
  delta :: int
  populate_amount :: int

definition store_conditions ::
  "('e, 's) store_ops \<Rightarrow> ('e \<times> int) list \<Rightarrow> 'e \<Rightarrow> 's bench conditions" where
  "store_conditions ops keys e code param1 param2 param3 b = (case code of
     Prepare \<Rightarrow>
       (if param1 < 0 then None
        else case populate (s_insert ops) (\<lambda>key. key) (nat param1) keys (store b) of
          None \<Rightarrow> None
        | Some s \<Rightarrow> Some (None, b\<lparr>store := s, delta := delta b + param1,
                                 populate_amount := int (s_count ops s)\<rparr>))
   | Get \<Rightarrow>
       (case s_contains ops e (store b) param1 of
          None \<Rightarrow> None
        | Some res \<Rightarrow> Some (res, b))
   | Remove \<Rightarrow>
       (case s_remove ops e (store b) param1 of
          None \<Rightarrow> None
        | Some (res, s) \<Rightarrow>
            Some (res, b\<lparr>store := s, delta := (if res \<noteq> None then delta b - 1 else delta b)\<rparr>))
   | Insert \<Rightarrow>
       (case s_insert ops e (store b) param1 param2 of
          None \<Rightarrow> None
        | Some (res, s) \<Rightarrow>
            Some (res, b\<lparr>store := s, delta := (if res = None then delta b + 1 else delta b)\<rparr>)))"

section \<open>The client\<close>

text \<open>\<open>Map_Op\<close> and the operation codes of \<open>common.h\<close>.\<close>

record map_op =
  op_type :: int
  op_key :: int
  op_value :: int

definition CONTAINS :: int where "CONTAINS = 0"
definition INSERT :: int where "INSERT = 1"
definition REMOVE :: int where "REMOVE = 2"

lemma op_codes_distinct [simp]:
  "CONTAINS \<noteq> INSERT" "CONTAINS \<noteq> REMOVE" "INSERT \<noteq> CONTAINS" "INSERT \<noteq> REMOVE" "REMOVE \<noteq> CONTAINS"
  "REMOVE \<noteq> INSERT"
  by (simp_all add: CONTAINS_def INSERT_def REMOVE_def)

text \<open>The generator of \<open>Run\<close>, from a number in 1..100 and a key.\<close>

definition generator :: "int \<Rightarrow> int \<Rightarrow> int \<Rightarrow> int \<Rightarrow> map_op" where
  "generator contains ins rng k =
     (if rng \<le> contains then \<lparr>op_type = CONTAINS, op_key = k, op_value = 0\<rparr>
      else if rng \<le> contains + ins then \<lparr>op_type = INSERT, op_key = k, op_value = k\<rparr>
      else \<lparr>op_type = REMOVE, op_key = k, op_value = 0\<rparr>)"

text \<open>\<open>Apply\<close>: a result that is not the key, or another code, aborts the program.\<close>

datatype client_error = Invalid_result | Unexpected_operation

definition check_result :: "int option \<Rightarrow> int \<Rightarrow> 'b \<Rightarrow> client_error + 'b" where
  "check_result res key b = (case res of
     None \<Rightarrow> Inr b
   | Some v \<Rightarrow> (if v = key then Inr b else Inl Invalid_result))"

definition apply_op :: "'b conditions \<Rightarrow> map_op \<Rightarrow> 'b \<Rightarrow> (client_error + 'b) option" where
  "apply_op conditions op b =
     (if op_type op = CONTAINS then
        (case api_get conditions (op_key op) b of
           None \<Rightarrow> None | Some (res, b') \<Rightarrow> Some (check_result res (op_key op) b'))
      else if op_type op = INSERT then
        (case api_insert conditions (op_key op) (op_value op) b of
           None \<Rightarrow> None | Some (res, b') \<Rightarrow> Some (check_result res (op_key op) b'))
      else if op_type op = REMOVE then
        (case api_remove conditions (op_key op) b of
           None \<Rightarrow> None | Some (res, b') \<Rightarrow> Some (check_result res (op_key op) b'))
      else Some (Inl Unexpected_operation))"

lemma apply_generator:
  "apply_op conditions (generator contains inserts rng k) b =
     map_option (\<lambda>(res, b'). check_result res k b')
       (if rng \<le> contains then api_get conditions k b
        else if rng \<le> contains + inserts then api_insert conditions k k b
        else api_remove conditions k b)"
  by (simp add: apply_op_def generator_def split: option.splits)

text \<open>The driver hands the prefilled stream to \<open>Apply\<close>, one operation after the other.\<close>

fun apply_stream ::
  "('e \<Rightarrow> 'b conditions) \<Rightarrow> ('e \<times> map_op) list \<Rightarrow> 'b \<Rightarrow> (client_error + 'b) option" where
  "apply_stream conditions [] b = Some (Inr b)"
| "apply_stream conditions ((e, op) # ops) b =
     (case apply_op (conditions e) op b of
        None \<Rightarrow> None
      | Some (Inl err) \<Rightarrow> Some (Inl err)
      | Some (Inr b') \<Rightarrow> apply_stream conditions ops b')"

definition client_run ::
  "('e, 's) store_ops \<Rightarrow> 'e \<Rightarrow> int \<Rightarrow> int \<Rightarrow> int \<Rightarrow> ('e \<times> int) list \<Rightarrow> int \<Rightarrow> int \<Rightarrow> ('e \<times> int \<times> int) list \<Rightarrow>
     's bench \<Rightarrow> (client_error + 's bench) option" where
  "client_run ops e op_count key_lb key_ub keys contains ins draws b =
     (case api_prepare (store_conditions ops keys e) op_count key_lb key_ub b of
        None \<Rightarrow> None
      | Some b' \<Rightarrow> apply_stream (store_conditions ops [])
          (map (\<lambda>(e, rng, k). (e, generator contains ins rng k)) draws) b')"

text \<open>The check after the run: the deltas of all clients against the final count.\<close>

definition size_check :: "('e, 's) store_ops \<Rightarrow> 's bench list \<Rightarrow> 's \<Rightarrow> bool" where
  "size_check ops bs s = (int (s_count ops s) - sum_list (map delta bs) = 0)"

text \<open>\<open>test_output\<close>, the comparison the unit tests use.\<close>

definition value_or :: "int option \<Rightarrow> int \<Rightarrow> int" where
  "value_or x d = (case x of None \<Rightarrow> d | Some v \<Rightarrow> v)"

definition test_output :: "int option \<Rightarrow> int option \<Rightarrow> bool" where
  "test_output actual expected =
     (\<not> ((actual \<noteq> None) \<noteq> (expected \<noteq> None) \<and> value_or actual 0 \<noteq> value_or expected 0))"

section \<open>Runs over a store that is a map\<close>

text \<open>
  The client stores every key with itself as its value, so all it needs of \<open>contains\<close> is that a
  value it returns is one that was stored under the key, however long ago. \<open>K\<close> holds the keys of
  the run; \<open>own\<close> says of what an operation depends on that the operation returns.
\<close>

locale int_store = kv_counted wf abs ins rem cnt
  for wf :: "'s \<Rightarrow> bool" and abs :: "'s \<Rightarrow> int \<Rightarrow> int option"
    and ins :: "'e \<Rightarrow> 's \<Rightarrow> int \<Rightarrow> int \<Rightarrow> (int option \<times> 's) option" and rem cnt +
  fixes get :: "'e \<Rightarrow> 's \<Rightarrow> int \<Rightarrow> int option option" and own :: "'e \<Rightarrow> bool" and K :: "int set"
  assumes get_own: "\<lbrakk> wf s; \<forall>k v. abs s k = Some v \<longrightarrow> v = k; own e \<rbrakk> \<Longrightarrow>
        \<exists>r. get e s key = Some r \<and> (\<forall>v. r = Some v \<longrightarrow> v = key)"
    and ins_returns: "\<lbrakk> wf s; dom (abs s) \<subseteq> K; key \<in> K; own e \<rbrakk> \<Longrightarrow> \<exists>r s'. ins e s key val = Some (r, s')"
    and rem_returns: "wf s \<Longrightarrow> \<exists>r s'. rem e s key = Some (r, s')"
begin

text \<open>Every key is stored with itself as its value, and the delta is the number of keys.\<close>

definition bench_ok :: "'s bench \<Rightarrow> bool" where
  "bench_ok b \<longleftrightarrow> wf (store b) \<and> delta b = int (cnt (store b)) \<and> dom (abs (store b)) \<subseteq> K \<and>
     (\<forall>k v. abs (store b) k = Some v \<longrightarrow> v = k)"

lemma bench_okD:
  assumes "bench_ok b"
  shows "wf (store b)" "delta b = int (cnt (store b))" "dom (abs (store b)) \<subseteq> K"
    "abs (store b) k = Some v \<Longrightarrow> v = k"
  using assms unfolding bench_ok_def by blast+

lemma bench_ok_insert:
  assumes b: "bench_ok b" and i: "ins e (store b) k k = Some (res, s)" and k: "k \<in> K"
  shows "bench_ok (b\<lparr>store := s, delta := (if res = None then delta b + 1 else delta b)\<rparr>)"
    and "res = Some v \<Longrightarrow> v = k"
proof -
  note I = ins_abs [OF bench_okD(1) [OF b] i] cnt_ins [OF bench_okD(1) [OF b] i]
  show "bench_ok (b\<lparr>store := s, delta := (if res = None then delta b + 1 else delta b)\<rparr>)"
    using I bench_okD [OF b] k by (auto simp: bench_ok_def map_insert_def split: option.splits if_splits)
  show "v = k" if "res = Some v"
    using I bench_okD(4) [OF b, of k v] that by simp
qed

lemma bench_ok_remove:
  assumes b: "bench_ok b" and i: "rem e (store b) k = Some (res, s)"
  shows "bench_ok (b\<lparr>store := s, delta := (if res \<noteq> None then delta b - 1 else delta b)\<rparr>)"
    and "res = Some v \<Longrightarrow> v = k"
proof -
  note I = rem_abs [OF bench_okD(1) [OF b] i] cnt_rem [OF bench_okD(1) [OF b] i]
  show "bench_ok (b\<lparr>store := s, delta := (if res \<noteq> None then delta b - 1 else delta b)\<rparr>)"
    using I bench_okD [OF b] by (auto simp: bench_ok_def split: if_splits)
  show "v = k" if "res = Some v"
    using I bench_okD(4) [OF b, of k v] that by simp
qed

abbreviation (input) "the_ops \<equiv> \<lparr>s_contains = get, s_insert = ins, s_remove = rem, s_count = cnt\<rparr>"

lemma apply_op_ok:
  assumes b: "bench_ok b" and own: "own e" and k: "k \<in> K"
  shows "\<exists>b'. apply_op (store_conditions the_ops keys e) (generator contains inserts rng k) b = Some (Inr b') \<and>
     bench_ok b'"
proof -
  consider (get) "rng \<le> contains" | (ins) "\<not> rng \<le> contains" "rng \<le> contains + inserts"
    | (rem) "\<not> rng \<le> contains" "\<not> rng \<le> contains + inserts" by blast
  then show ?thesis
  proof cases
    case get
    have "\<forall>k v. abs (store b) k = Some v \<longrightarrow> v = k" using bench_okD(4) [OF b] by blast
    from get_own [OF bench_okD(1) [OF b] this own] obtain r
      where "get e (store b) k = Some r" "\<forall>v. r = Some v \<longrightarrow> v = k" by blast
    with get b show ?thesis
      by (auto simp: apply_generator api_get_def store_conditions_def check_result_def split: option.splits)
  next
    case ins
    from ins_returns [OF bench_okD(1,3) [OF b] k own] obtain res s
      where i: "ins e (store b) k k = Some (res, s)" by blast
    from bench_ok_insert [OF b i k] ins i show ?thesis
      by (auto simp: apply_generator api_insert_def store_conditions_def check_result_def split: option.splits)
  next
    case rem
    from rem_returns [OF bench_okD(1) [OF b]] obtain res s where i: "rem e (store b) k = Some (res, s)" by blast
    from bench_ok_remove [OF b i] rem i show ?thesis
      by (auto simp: apply_generator api_remove_def store_conditions_def check_result_def split: option.splits)
  qed
qed

lemma apply_stream_ok:
  assumes "bench_ok b" and "\<forall>(e, rng, k) \<in> set draws. own e \<and> k \<in> K"
  shows "\<exists>b'. apply_stream (store_conditions the_ops keys)
          (map (\<lambda>(e, rng, k). (e, generator contains inserts rng k)) draws) b = Some (Inr b') \<and> bench_ok b'"
  using assms
proof (induction draws arbitrary: b)
  case Nil
  then show ?case by auto
next
  case (Cons d draws)
  obtain e rng k where d: "d = (e, rng, k)" by (cases d)
  with Cons.prems(2) have "own e" "k \<in> K" by simp_all
  from apply_op_ok [OF Cons.prems(1) this] obtain b' where
    y: "apply_op (store_conditions the_ops keys e) (generator contains inserts rng k) b = Some (Inr b')" "bench_ok b'"
    by blast
  from Cons.IH [OF y(2)] Cons.prems(2) d y(1) show ?case by simp
qed

text \<open>\<open>populate\<close> returns when its stream has enough new keys.\<close>

lemma populate_returns:
  assumes "wf s" and "dom (abs s) \<subseteq> K" and "\<forall>(e, k) \<in> set ks. own e \<and> k \<in> K"
    and "n \<le> card (snd ` set ks - dom (abs s))"
  shows "\<exists>s'. populate ins f n ks s = Some s'"
  using assms
proof (induction ks arbitrary: n s)
  case Nil
  then show ?case by simp
next
  case (Cons x ks)
  obtain e k where x: "x = (e, k)" by (cases x)
  with Cons.prems(3) have own: "own e" "k \<in> K" "\<forall>(e, k) \<in> set ks. own e \<and> k \<in> K" by auto
  from ins_returns [OF Cons.prems(1,2) own(2,1)] obtain r t where i: "ins e s k (f k) = Some (r, t)" by blast
  note I = ins_abs [OF Cons.prems(1) i]
  have fin: "finite (snd ` set ks)" by simp
  show ?case
  proof (cases n)
    case 0
    then show ?thesis by simp
  next
    case (Suc n')
    show ?thesis
    proof (cases r)
      case None
      then have d: "dom (abs t) = insert k (dom (abs s))" "k \<notin> dom (abs s)" using I by auto
      then have "snd ` set (x # ks) - dom (abs s) = insert k (snd ` set ks - dom (abs t))" using x by auto
      moreover have "k \<notin> snd ` set ks - dom (abs t)" using d(1) by blast
      ultimately have "card (snd ` set (x # ks) - dom (abs s)) = Suc (card (snd ` set ks - dom (abs t)))"
        using fin by simp
      then have "n' \<le> card (snd ` set ks - dom (abs t))" using Cons.prems(4) Suc by simp
      from Cons.IH [OF _ _ own(3) this] I d own(2) Cons.prems(2) show ?thesis using i x Suc None by simp
    next
      case (Some v)
      then have d: "abs t = abs s" "k \<in> dom (abs s)" using I by (auto dest: sym)
      then have "snd ` set (x # ks) - dom (abs s) = snd ` set ks - dom (abs t)" using x by auto
      then have "n \<le> card (snd ` set ks - dom (abs t))" using Cons.prems(4) by simp
      from Cons.IH [OF _ _ own(3) this] I d(1) Cons.prems(2) obtain s' where
        "populate ins f (Suc n') ks t = Some s'" unfolding Suc by auto
      with i x Some show ?thesis unfolding Suc by simp
    qed
  qed
qed

lemma client_run_ok:
  assumes b: "bench_ok b" and n: "0 \<le> op_count" "nat op_count \<le> card (snd ` set keys - dom (abs (store b)))"
    and keys: "\<forall>(e, k) \<in> set keys. own e \<and> k \<in> K" and draws: "\<forall>(e, rng, k) \<in> set draws. own e \<and> k \<in> K"
  shows "\<exists>b'. client_run the_ops e op_count key_lb key_ub keys contains inserts draws b = Some (Inr b') \<and> bench_ok b'"
proof -
  note wf = bench_okD(1) [OF b]
  from populate_returns [OF wf bench_okD(3) [OF b] keys n(2), of "\<lambda>k. k"] obtain s where
    p: "populate ins (\<lambda>k. k) (nat op_count) keys (store b) = Some s" by blast
  note P = populate_abs [OF wf p finite_abs [OF wf]]
  have "snd ` set keys \<subseteq> K" using keys by auto
  with P bench_okD(3) [OF b] have dom: "dom (abs s) \<subseteq> K" by blast
  have "v = k" if "abs s k = Some v" for k v
    using P bench_okD(4) [OF b, of k v] that by (metis option.inject)
  with dom have "bench_ok (b\<lparr>store := s, delta := delta b + op_count, populate_amount := int (cnt s)\<rparr>)"
    using P cnt_populate [OF wf p] bench_okD(2) [OF b] n(1) by (simp add: bench_ok_def)
  from apply_stream_ok [OF this draws, of "[]" contains inserts] p n(1) show ?thesis
    by (simp add: client_run_def api_prepare_def store_conditions_def)
qed

end

end
