(* ===== verification/IhtClient.thy ===== *)
theory IhtClient
  imports IhtRdmaProps Workload
begin

text \<open>
  The properties of the RDMA hash table, and of the benchmark client that runs on it.
\<close>

section \<open>The table as a map\<close>

lemma insert_returns:
  assumes "iht_wf h cap rt" and "r_reach h 1 (length rt) rt key = Some x" and "roomy h cap n key x"
  shows "\<exists>r rt'. iht_insert h cap n obs rt key val = Some (r, rt')"
proof (cases "next_view obs")
  case (Pair w obs')
  from r_insert_returns [OF assms(1) [unfolded iht_wf_def] assms(2,3), of w obs' val] Pair show ?thesis
    by (simp add: iht_insert_def)
qed

lemma r_reach_abs:
  "r_reach h depth cnt bs key = Some (d, c, e) \<Longrightarrow> r_abs h depth cnt bs key = map_of e key"
proof (induction h depth cnt bs key rule: r_reach.induct)
  case (1 h depth cnt bs key)
  let ?b = "level_hash_rdma h key depth cnt"
  show ?case
  proof (cases "?b < length bs")
    case True
    obtain lk base where b: "bs ! ?b = (lk, base)" by fastforce
    show ?thesis
    proof (cases base)
      case (RElist e')
      with 1 True b show ?thesis by (simp add: r_reach_leaf(1) r_abs_leaf(1))
    next
      case (RPlist cs)
      have "r_reach h (depth + 1) (cnt * 2) cs key = Some (d, c, e)"
        using "1.prems" b unfolding RPlist by (simp add: r_reach_leaf(2) [OF True])
      from "1.IH" [OF refl True _ _ this] b RPlist show ?thesis by (simp add: r_abs_leaf(2) [OF True])
    qed
  qed (use 1 in \<open>simp add: r_reach.simps Let_def\<close>)
qed

text \<open>
  The lists that the stale views of a lock-free read still point to are those of earlier states of
  the table: nobody writes a list any more once its bucket has been rehashed.
\<close>

definition views_of ::
  "('k \<Rightarrow> u64) \<Rightarrow> ('k, 'v) rplist set \<Rightarrow> ('k, 'v) rplist \<Rightarrow> 'k \<Rightarrow> ('k, 'v) stale list \<Rightarrow> bool" where
  "views_of h past rt key views \<longleftrightarrow>
     (\<forall>i e. view_shows h views 1 (length rt) key i e \<longrightarrow>
        (\<exists>old \<in> past. \<exists>d c. r_reach h 1 (length old) old key = Some (d, c, e)))"

lemma lockfree_value:
  assumes wf: "iht_wf h cap rt"
  shows "\<exists>r. iht_contains h True views rt key = Some r \<and>
     (r = iht_abs h rt key \<or> (\<exists>i e. view_shows h views 1 (length rt) key i e \<and> r = map_of e key))"
proof -
  obtain w obs where n: "next_view views = (w, obs)" by fastforce
  have "view_shows h views 1 (length rt) key i e" if "view_shows h (w # obs) 1 (length rt) key i e" for i e
    using that n by (cases views) (auto simp: view_shows_def next_view_def)
  with r_contains_lockfree [OF wf [unfolded iht_wf_def], of w obs key] n show ?thesis
    by (simp add: iht_contains_def iht_abs_def) blast
qed

lemma lockfree_contains:
  assumes wf: "iht_wf h cap rt" and v: "views_of h past rt key views"
  shows "\<exists>old \<in> insert rt past. iht_contains h True views rt key = Some (iht_abs h old key)"
proof -
  from lockfree_value [OF wf, of views key] obtain r where c: "iht_contains h True views rt key = Some r"
    and r: "r = iht_abs h rt key \<or> (\<exists>i e. view_shows h views 1 (length rt) key i e \<and> r = map_of e key)" by blast
  from r show ?thesis
  proof
    assume "\<exists>i e. view_shows h views 1 (length rt) key i e \<and> r = map_of e key"
    then obtain i e where s: "view_shows h views 1 (length rt) key i e" "r = map_of e key" by blast
    with v obtain old d c where o: "old \<in> past" "r_reach h 1 (length old) old key = Some (d, c, e)"
      unfolding views_of_def by blast
    have "iht_abs h old key = r" using r_reach_abs [OF o(2)] s(2) by (simp add: iht_abs_def)
    with c o(1) show ?thesis by blast
  qed (use c in blast)
qed


text \<open>
  C22: an insertion into the RDMA hash table returns after at most \<open>n\<close> rehashes when the list the
  key leads to has room, holds the key, or holds a key that parts from it within \<open>n\<close> levels.
\<close>

theorem iht_insert_returns:
  assumes "iht_wf h cap rt" and "r_reach h 1 (length rt) rt key = Some x" and "roomy h cap n key x"
  shows "\<exists>r rt'. iht_insert h cap n obs rt key val = Some (r, rt')"
  by (rule insert_returns [OF assms])

text \<open>
  C23: rehashing cannot separate keys with one standard hash: an insertion that meets a full list
  of keys that all have the standard hash of the new key rehashes for ever.
\<close>

theorem iht_insert_diverges:
  assumes "iht_wf h cap rt" and "r_reach h 1 (length rt) rt key = Some (depth, cnt, e)"
    and "length e = cap" and "key \<notin> fst ` set e" and "\<forall>j \<in> fst ` set e. h j = h key"
  shows "iht_insert h cap fuel obs rt key val = None"
proof (cases "next_view obs")
  case (Pair w obs')
  from r_insert_diverges [OF assms(1) [unfolded iht_wf_def] assms(2-5), of fuel w obs' val] Pair show ?thesis
    by (simp add: iht_insert_def)
qed

text \<open>
  \<open>count\<close> returns the number of keys of the table's map: every stored pair is counted once
  and can be found.
\<close>

theorem iht_count_keys:
  assumes "iht_wf h cap rt"
  shows "iht_count rt = card (dom (iht_abs h rt)) \<and> finite (dom (iht_abs h rt))"
  using iht.cnt_abs [OF assms] iht.finite_abs [OF assms] by simp

text \<open>
  a fresh table has no keys, and \<open>populate\<close>, when it returns, has added exactly the number of
  keys it was asked for, each with its value.
\<close>

theorem iht_populate_fresh:
  assumes "1 < n" and "iht_populate h cap f op_count keys (InitAsFirst n) = Some rt"
  shows "iht_wf h cap rt \<and> iht_count rt = op_count \<and>
    (\<forall>k v. iht_abs h rt k = Some v \<longrightarrow> v = f k)"
proof -
  note F = InitAsFirst_fresh(1) [OF assms(1), of h cap] InitAsFirst_fresh(2) [OF assms(1), of h] InitAsFirst_fresh(3) [OF assms(1)]
  note P = assms(2) [unfolded iht_populate_def]
  have fin: "finite (dom (iht_abs h (InitAsFirst n)))" by (simp add: F(2))
  note Q = iht.populate_abs [OF F(1) P fin] iht.cnt_populate [OF F(1) P]
  have "v = f k" if "iht_abs h rt k = Some v" for k v
    using Q(1) that F(2) by (metis option.distinct(1) option.inject)
  then show ?thesis using Q by (simp add: F)
qed

section \<open>The client on the table\<close>

text \<open>
  Any \<open>cap + 1\<close> of the keys part within \<open>n\<close> levels, from whatever level: then \<open>n\<close> rehashes are
  enough for every insertion.
\<close>

definition separates :: "('k \<Rightarrow> u64) \<Rightarrow> nat \<Rightarrow> nat \<Rightarrow> 'k set \<Rightarrow> bool" where
  "separates h cap n K \<longleftrightarrow>
     (\<forall>A key depth cnt. A \<subseteq> K \<and> finite A \<and> card A = cap \<and> key \<in> K - A \<longrightarrow>
        (\<exists>j \<in> A. part_within h n depth cnt j key))"

text \<open>
  What an operation of the client depends on: fuel for its rehashes, and the stale views of its
  snapshots. The lists a lock-free read may see there hold what the client once stored, every key
  with itself.
\<close>

definition client_env :: "(int \<Rightarrow> u64) \<Rightarrow> nat \<Rightarrow> bool \<Rightarrow> int set \<Rightarrow> nat \<times> (int, int) stale list \<Rightarrow> bool" where
  "client_env h cap lockfree K e \<longleftrightarrow> separates h cap (fst e) K \<and>
     (lockfree \<longrightarrow> (\<forall>w \<in> set (snd e). \<forall>l \<in> snd ` set w. \<forall>(k, v) \<in> set l. v = k))"

definition iht_ops ::
  "(int \<Rightarrow> u64) \<Rightarrow> bool \<Rightarrow> nat \<Rightarrow> (nat \<times> (int, int) stale list, (int, int) rplist) store_ops" where
  "iht_ops h lockfree cap = \<lparr>s_contains = \<lambda>(fuel, obs). iht_contains h lockfree obs,
     s_insert = \<lambda>(fuel, obs). iht_insert h cap fuel obs,
     s_remove = \<lambda>(fuel, obs). iht_remove h obs, s_count = iht_count\<rparr>"

lemma reach_keys:
  assumes "rwf h cap P depth cnt bs"
  shows "\<exists>d c e. r_reach h depth cnt bs key = Some (d, c, e) \<and> distinct (map fst e) \<and> length e \<le> cap \<and>
     fst ` set e \<subseteq> dom (r_abs h depth cnt bs)"
  using assms
proof (induction bs arbitrary: P depth cnt rule: measure_induct_rule [where f = rsize_of])
  case (less bs)
  let ?b = "level_hash_rdma h key depth cnt"
  from less.prems show ?case
  proof (rule rwf_bucket [OF _ refl, where key = key])
    fix e assume b: "?b < length bs" "bs ! ?b = (E_UNLOCKED, RElist e)"
      and e: "distinct (map fst e)" "length e \<le> cap" "\<forall>k \<in> fst ` set e. leads h depth cnt P ?b k"
    have "r_abs h depth cnt bs k = map_of e k" if "k \<in> fst ` set e" for k
    proof -
      have l: "level_hash_rdma h k depth cnt = ?b" using bspec [OF e(3) that] by (simp add: leads_def)
      show ?thesis by (rule r_abs_leaf(1)) (simp_all add: l b)
    qed
    then have "fst ` set e \<subseteq> dom (r_abs h depth cnt bs)" by (metis (no_types, lifting) domIff map_of_eq_None_iff subsetI)
    with e b show ?thesis by (simp add: r_reach_leaf(1))
  next
    fix cs assume b: "?b < length bs" "bs ! ?b = (P_UNLOCKED, RPlist cs)"
      and cs: "rwf h cap (leads h depth cnt P ?b) (depth + 1) (cnt * 2) cs"
    have sz: "rsize_of cs < rsize_of bs" by (rule rsize_descend [OF b(1)]) (simp add: b(2))
    have "k \<in> dom (r_abs h depth cnt bs)" if "k \<in> dom (r_abs h (depth + 1) (cnt * 2) cs)" for k
    proof -
      have "leads h depth cnt P ?b k" by (rule r_abs_leads [OF cs]) (use that in \<open>simp add: domIff\<close>)
      then have l: "level_hash_rdma h k depth cnt = ?b" by (simp add: leads_def)
      have "r_abs h depth cnt bs k = r_abs h (depth + 1) (cnt * 2) cs k"
        by (rule r_abs_leaf(2)) (simp_all add: l b)
      with that show ?thesis by (simp add: domIff)
    qed
    then have sub: "dom (r_abs h (depth + 1) (cnt * 2) cs) \<subseteq> dom (r_abs h depth cnt bs)" by blast
    have r: "r_reach h depth cnt bs key = r_reach h (depth + 1) (cnt * 2) cs key"
      by (rule r_reach_leaf(2)) (simp_all add: b)
    from less.IH [OF sz cs] obtain d c e where
      "r_reach h (depth + 1) (cnt * 2) cs key = Some (d, c, e)" "distinct (map fst e)" "length e \<le> cap"
      "fst ` set e \<subseteq> dom (r_abs h (depth + 1) (cnt * 2) cs)" by blast
    then show ?thesis unfolding r using order_trans [OF _ sub] by (intro exI [of _ d] exI [of _ c] exI [of _ e]) simp
  qed
qed

lemma separates_roomy:
  assumes wf: "iht_wf h cap rt" and K: "dom (iht_abs h rt) \<subseteq> K" "key \<in> K" and s: "separates h cap n K"
  shows "\<exists>x. r_reach h 1 (length rt) rt key = Some x \<and> roomy h cap n key x"
proof -
  from reach_keys [OF wf [unfolded iht_wf_def], of key] obtain d c e where
    e: "r_reach h 1 (length rt) rt key = Some (d, c, e)" "distinct (map fst e)" "length e \<le> cap"
      "fst ` set e \<subseteq> dom (iht_abs h rt)" by (auto simp: iht_abs_def)
  have "roomy h cap n key (d, c, e)"
  proof (cases "length e < cap \<or> key \<in> fst ` set e")
    case False
    have "card (fst ` set e) = length e" using distinct_card [OF e(2)] by simp
    with False e(3,4) K have "fst ` set e \<subseteq> K" "finite (fst ` set e)" "card (fst ` set e) = cap" "key \<in> K - fst ` set e"
      by auto
    with s have "\<exists>j \<in> fst ` set e. part_within h n d c j key" unfolding separates_def by blast
    then show ?thesis by (simp add: roomy_def)
  qed (auto simp: roomy_def)
  with e(1) show ?thesis by blast
qed

interpretation iht_client: int_store "iht_wf h cap" "iht_abs h"
  "\<lambda>(fuel, obs). iht_insert h cap fuel obs" "\<lambda>(fuel :: nat, obs). iht_remove h obs" iht_count
  "\<lambda>(fuel, obs). iht_contains h lockfree obs" "client_env h cap lockfree K" K
  for h :: "int \<Rightarrow> u64" and cap lockfree K
proof (unfold_locales, goal_cases get ins rem)
  case (get s e key)
  obtain fuel obs where e: "e = (fuel, obs)" by fastforce
  show ?case
  proof (cases lockfree)
    case False
    with iht_contains_abs [OF get(1), of obs key] get(2) e show ?thesis by auto
  next
    case True
    from lockfree_value [OF get(1), of obs key] obtain r where
      r: "iht_contains h True obs s key = Some r" "r = iht_abs h s key \<or> (\<exists>i l. view_shows h obs 1 (length s) key i l \<and> r = map_of l key)"
      by blast
    have "v = key" if "r = Some v" for v
    proof -
      have own: "\<forall>w \<in> set obs. \<forall>l \<in> snd ` set w. \<forall>(k, v) \<in> set l. v = k"
        using get(3) True e by (simp add: client_env_def)
      from r(2) show ?thesis
      proof
        assume "\<exists>i l. view_shows h obs 1 (length s) key i l \<and> r = map_of l key"
        then obtain i l where "view_shows h obs 1 (length s) key i l" and rl: "r = map_of l key" by blast
        then have w: "obs ! i \<in> set obs" "map_of (obs ! i) (level_hash_rdma h key (1 + i) (length s * 2 ^ i)) = Some l"
          by (simp_all add: view_shows_def)
        have l: "map_of l key = Some v" using rl \<open>r = Some v\<close> by simp
        from map_of_SomeD [OF w(2)] have "l \<in> snd ` set (obs ! i)" by (rule rev_image_eqI) simp
        note w = w(1) this
        from own w have "\<forall>(k, v) \<in> set l. v = k" by blast
        with map_of_SomeD [OF l] show ?thesis by auto
      qed (use get(2) \<open>r = Some v\<close> in simp)
    qed
    with r(1) e True show ?thesis by auto
  qed
next
  case (ins s key e val)
  obtain fuel obs where e: "e = (fuel, obs)" by fastforce
  with ins(4) have "separates h cap fuel K" by (simp add: client_env_def)
  from separates_roomy [OF ins(1-3) this] insert_returns [OF ins(1), of key] show ?case
    unfolding e prod.case by blast
next
  case (rem s e key)
  then show ?case using iht_remove_abs [of h cap s "snd e" key] by (cases e) auto
qed

definition iht_bench :: "nat \<Rightarrow> (int, int) rplist bench" where
  "iht_bench n = \<lparr>store = InitAsFirst n, delta = 0, populate_amount = 0\<rparr>"

text \<open>
  C21: a client's run on a fresh RDMA hash table, with or without the lock-free \<open>contains\<close> and
  with any staleness of the snapshots, returns and has met no wrong result: every value it read
  was the key, no operation code was unknown, and the check of the final size against its
  successful inserts and removes passes. The stream of \<open>populate\<close> must have as many different
  keys as it is to insert, each insertion fuel for the levels that part the keys, and the rehashed
  lists that lock-free reads may still see must be the client's own, each key with itself. One
  client runs, its operations one after the other.
\<close>

theorem iht_client_run:
  assumes "1 < n" and "0 \<le> op_count" and "nat op_count \<le> card (snd ` set keys)"
    and "\<forall>(e, k) \<in> set keys. client_env h cap lockfree K e \<and> k \<in> K"
    and "\<forall>(e, rng, k) \<in> set draws. client_env h cap lockfree K e \<and> k \<in> K"
  shows "\<exists>b. client_run (iht_ops h lockfree cap) e op_count key_lb key_ub keys contains inserts draws (iht_bench n) =
       Some (Inr b) \<and> size_check (iht_ops h lockfree cap) [b] (store b)"
proof -
  note F = InitAsFirst_fresh(1) [OF assms(1), of h cap] InitAsFirst_fresh(2) [OF assms(1), of h] InitAsFirst_fresh(3) [OF assms(1)]
  have "iht_client.bench_ok h cap K (iht_bench n)"
    by (simp add: F iht_client.bench_ok_def iht_bench_def)
  moreover have "nat op_count \<le> card (snd ` set keys - dom (iht_abs h (store (iht_bench n))))"
    using assms(3) by (simp add: F iht_bench_def)
  ultimately obtain b where b: "client_run (iht_ops h lockfree cap) e op_count key_lb key_ub keys contains inserts draws (iht_bench n) =
       Some (Inr b)" "iht_client.bench_ok h cap K b"
    using iht_client.client_run_ok [of h cap K "iht_bench n" op_count keys lockfree draws e key_lb key_ub contains inserts]
      assms(2,4,5) unfolding iht_ops_def by blast
  then show ?thesis by (simp add: iht_client.bench_ok_def size_check_def iht_ops_def)
qed

text \<open>
  \<open>test_output\<close>, with which the tests compare results, accepts every pair of present values and
  an absent value where 0 is expected: it rejects only a missing or surplus value other than 0.
\<close>

theorem test_output_accepts:
  "test_output (Some v) (Some w) \<and> test_output None (Some 0) \<and> test_output (Some 0) None \<and>
   (test_output None (Some v) \<longleftrightarrow> v = 0)"
  by (auto simp: test_output_def value_or_def)

section \<open>Witnesses\<close>

definition rtable1 :: "(u64, nat) rplist" where
  "rtable1 = [(E_UNLOCKED, RElist [(1, 11)]), (E_UNLOCKED, RElist [])]"

text \<open>With two buckets every key is in the first one.\<close>

lemma two_buckets [simp]: "level_hash_rdma h k l (Suc (Suc 0)) = 0" "level_hash_rdma h k l 2 = 0"
  by (simp_all add: level_hash_rdma_def)

lemma rtable1_wf: "iht_wf h 1 rtable1"
  unfolding iht_wf_def rtable1_def
  by (rule rwf) (auto simp: leads_def less_Suc_eq numeral_2_eq_2)

lemma rtable1_reach: "r_reach h 1 (length rtable1) rtable1 k = Some (1, 2, [(1, 11)])"
  by (simp add: rtable1_def r_reach.simps Let_def)

text \<open>The same table after its full list was rehashed and its only key removed.\<close>

definition rtable2 :: "(u64, nat) rplist" where
  "rtable2 = [(P_UNLOCKED, RPlist (InitPList 4)), (E_UNLOCKED, RElist [])]"

lemma rtable2_wf: "iht_wf h 1 rtable2"
  unfolding iht_wf_def rtable2_def
proof (rule rwf)
  have p: "rwf h 1 P 2 4 (InitPList 4)" for P by (rule rwf_InitPList) simp
  show "rbucket_ok (rwf h 1 (leads h 1 (length [(P_UNLOCKED, RPlist (InitPList 4)), (E_UNLOCKED, RElist [])]) (\<lambda>_. True) b)
      (1 + 1) (length [(P_UNLOCKED, RPlist (InitPList 4)), (E_UNLOCKED, RElist [])] * 2))
    (leads h 1 (length [(P_UNLOCKED, RPlist (InitPList 4)), (E_UNLOCKED, RElist [])]) (\<lambda>_. True) b) 1
    ([(P_UNLOCKED, RPlist (InitPList 4)), (E_UNLOCKED, RElist [])] ! b)"
    if "b < length [(P_UNLOCKED, RPlist (InitPList 4)), (E_UNLOCKED, RElist [])]" for b
    using that p by (auto simp: less_Suc_eq numeral_eq_Suc)
qed simp_all

lemma rtable2_abs: "iht_abs h rtable2 k = None"
proof -
  have "level_hash_rdma h k (Suc (Suc 0)) 4 < 4" using level_hash_rdma_less [of 4 h k "Suc (Suc 0)"] by simp
  then show ?thesis by (simp add: iht_abs_def rtable2_def r_abs.simps [of h] InitPList_def Let_def)
qed


theorem iht_insert_returns_witness:
  "\<exists>r rt'. iht_insert (\<lambda>k. k) 1 1 [[(0, [])]] rtable1 2 22 = Some (r, rt')"
proof (rule iht_insert_returns [OF rtable1_wf rtable1_reach])
  have "level_hash_rdma (\<lambda>k. k) (1 :: u64) 2 4 \<noteq> level_hash_rdma (\<lambda>k. k) (2 :: u64) 2 4"
    by (simp add: level_hash_rdma_def level_prehash_def mix13_def xorshift33_def)
  then show "roomy (\<lambda>k. k) 1 1 2 (1, 2, [(1, 11)])" by (simp add: roomy_def numeral_eq_Suc)
qed

theorem iht_insert_diverges_witness:
  "iht_insert (\<lambda>_. 0) 1 1000 [] rtable1 2 22 = None"
  by (rule iht_insert_diverges [OF rtable1_wf rtable1_reach]) simp_all

theorem iht_populate_fresh_witness:
  "\<exists>rt. iht_populate (\<lambda>k. k) 2 (\<lambda>k. k) 1 [((0, []), 5 :: u64)] (InitAsFirst 2) = Some rt \<and> iht_count rt = 1"
proof -
  have "\<exists>rt. iht_populate (\<lambda>k. k) 2 (\<lambda>k. k) 1 [((0, []), 5 :: u64)] (InitAsFirst 2) = Some rt"
    by (simp add: iht_populate_def iht_insert_def r_insert.simps InitAsFirst_def InitPList_def Let_def
        next_view_def seen_lock_def)
  then obtain rt where i: "iht_populate (\<lambda>k. k) 2 (\<lambda>k. k) 1 [((0, []), 5 :: u64)] (InitAsFirst 2) = Some rt" ..
  from iht_populate_fresh [OF _ i] i show ?thesis by simp
qed

text \<open>A run whose second operation reads a rehashed list through a stale snapshot.\<close>

lemma few_keys: "separates h 8 n {0..7 :: int}"
  unfolding separates_def
proof (intro allI impI)
  fix A and key :: int and depth cnt :: nat
  assume a: "A \<subseteq> {0..7} \<and> finite A \<and> card A = 8 \<and> key \<in> {0..7} - A"
  have "card (insert key A) \<le> card {0..7 :: int}" by (rule card_mono) (use a in auto)
  moreover have "card (insert key A) = 9" using a by simp
  ultimately have False by simp
  then show "\<exists>j \<in> A. part_within h n depth cnt j key" ..
qed

theorem iht_client_run_witness:
  "\<exists>b. client_run (iht_ops of_int True 8) (0, []) 1 0 10 [((0, []), 5)] 50 30
      [((0, []), 40, 5), ((0, [[(0, [(7, 7)])]]), 60, 7), ((0, []), 95, 5)] (iht_bench 2) = Some (Inr b) \<and>
    size_check (iht_ops of_int True 8) [b] (store b)"
proof (rule iht_client_run [where K = "{0..7}"])
  have e: "client_env of_int 8 True {0..7} (0, [])" by (simp add: client_env_def few_keys)
  have e2: "client_env of_int 8 True {0..7} (0, [[(0, [(7, 7)])]])" by (simp add: client_env_def few_keys)
  show "\<forall>(e, k) \<in> set [((0, []), 5 :: int)]. client_env of_int 8 True {0..7} e \<and> k \<in> {0..7}"
    using e by simp
  show "\<forall>(e, rng, k) \<in> set [((0, []), 40 :: int, 5 :: int), ((0, [[(0, [(7, 7)])]]), 60, 7), ((0, []), 95, 5)].
      client_env of_int 8 True {0..7} e \<and> k \<in> {0..7}"
    using e e2 by simp
qed simp_all

end
