(* ===== verification/Zipf.thy ===== *)
theory Zipf
  imports Complex_Main
begin

text \<open>
  \<open>iht/zipfian_int_distribution.h\<close>: the skewed key distribution of the benchmark. Doubles are
  idealised as reals, and the number drawn by \<open>generate_canonical\<close> is the argument \<open>u\<close>. The
  result is shown to stay in the range the distribution was made for.
\<close>

record zipf_param =
  zp_a :: int
  zp_b :: int
  zp_theta :: real
  zp_zeta :: real
  zp_zeta2theta :: real

text \<open>\<open>zeta\<close>, the loop that sums the weights.\<close>

primrec zeta :: "nat \<Rightarrow> real \<Rightarrow> real" where
  "zeta 0 theta = 0"
| "zeta (Suc n) theta = zeta n theta + (1 / real (Suc n)) powr theta"

definition zipf_make :: "int \<Rightarrow> int \<Rightarrow> real \<Rightarrow> zipf_param" where
  "zipf_make a b theta =
     \<lparr>zp_a = a, zp_b = b, zp_theta = theta, zp_zeta = zeta (nat (b - a + 1)) theta, zp_zeta2theta = zeta 2 theta\<rparr>"

text \<open>Converting a double to an integer drops the fraction.\<close>

definition truncate :: "real \<Rightarrow> int" where
  "truncate x = (if 0 \<le> x then \<lfloor>x\<rfloor> else \<lceil>x\<rceil>)"

definition zipf_sample :: "zipf_param \<Rightarrow> real \<Rightarrow> int" where
  "zipf_sample p u =
     (let alpha = 1 / (1 - zp_theta p);
          n = zp_b p - zp_a p + 1;
          eta = (1 - (2 / n) powr (1 - zp_theta p)) / (1 - zp_zeta2theta p / zp_zeta p);
          uz = u * zp_zeta p
      in if uz < 1 then zp_a p
         else if uz < 1 + (1 / 2) powr zp_theta p then zp_a p + 1
         else truncate (zp_a p + n * (eta * u - eta + 1) powr alpha))"

lemma zeta_mono: "m \<le> n \<Longrightarrow> zeta m theta \<le> zeta n theta"
  by (induction n) (auto simp: le_Suc_eq intro: order_trans)

lemma zeta_2: "zeta 2 theta = 1 + (1 / 2) powr theta"
  by (simp add: numeral_2_eq_2)

lemma zeta_strict: "2 < n \<Longrightarrow> zeta 2 theta < zeta n theta"
proof -
  assume "2 < n"
  have "zeta (Suc 2) theta = zeta 2 theta + (1 / real (Suc 2)) powr theta" by (rule zeta.simps(2))
  moreover have "0 < (1 / real (Suc 2)) powr theta" by (simp only: powr_gt_zero) simp
  ultimately have "zeta 2 theta < zeta (Suc 2) theta" by linarith
  also have "\<dots> \<le> zeta n theta" using \<open>2 < n\<close> by (intro zeta_mono) simp
  finally show ?thesis .
qed

text \<open>The base of the power in the tail of the distribution lies between \<open>(2/n)^(1-theta)\<close> and 1.\<close>

lemma tail_base:
  fixes n :: real
  assumes "2 < n" "0 < theta" "theta < 1" "1 < z2" "z2 < z" "z2 \<le> u * z" "u < 1"
    and "eta = (1 - (2 / n) powr (1 - theta)) / (1 - z2 / z)"
  shows "(2 / n) powr (1 - theta) \<le> eta * u - eta + 1" and "eta * u - eta + 1 < 1"
proof -
  let ?E = "(2 / n) powr (1 - theta)"
  have z: "0 < z" "0 < 1 - z2 / z" using assms(4,5) by (simp_all add: field_simps)
  have "?E < 1 powr (1 - theta)" using assms by (intro powr_less_mono2) auto
  then have E: "?E < 1" by simp
  have eta: "0 < eta" unfolding assms(8) using E z by simp
  have u: "1 - u \<le> 1 - z2 / z" using assms(6) z by (simp add: field_simps)
  have "eta * (1 - u) \<le> eta * (1 - z2 / z)" using u eta by (simp add: mult_left_mono)
  also have "\<dots> = 1 - ?E" unfolding assms(8) using z by simp
  finally show "?E \<le> eta * u - eta + 1" by (simp add: algebra_simps)
  have "0 < eta * (1 - u)" using eta assms(7) by simp
  then show "eta * u - eta + 1 < 1" by (simp add: algebra_simps)
qed

lemma truncate_in_range:
  fixes w :: real
  assumes "0 \<le> a" "0 \<le> w" "w < real_of_int (b - a + 1)"
  shows "a \<le> truncate (real_of_int a + w) \<and> truncate (real_of_int a + w) \<le> b"
proof -
  have "\<lfloor>w\<rfloor> < b - a + 1" using assms(3) by (simp only: floor_less_iff)
  moreover have "0 \<le> \<lfloor>w\<rfloor>" using assms(2) by simp
  moreover have "truncate (real_of_int a + w) = a + \<lfloor>w\<rfloor>" using assms(1,2) by (simp add: truncate_def)
  ultimately show ?thesis by simp
qed

lemma zipf_in_range:
  assumes "0 \<le> a" and "a \<le> b" and "0 < theta" and "theta < 1" and "0 \<le> u" and "u < 1"
  shows "a \<le> zipf_sample (zipf_make a b theta) u \<and> zipf_sample (zipf_make a b theta) u \<le> b"
proof -
  let ?n = "b - a + 1" and ?z = "zeta (nat (b - a + 1)) theta" and ?z2 = "zeta 2 theta"
  let ?eta = "(1 - (2 / real_of_int ?n) powr (1 - theta)) / (1 - ?z2 / ?z)"
  let ?x = "?eta * u - ?eta + 1"
  have s: "zipf_sample (zipf_make a b theta) u =
      (if u * ?z < 1 then a else if u * ?z < ?z2 then a + 1
       else truncate (a + ?n * ?x powr (1 / (1 - theta))))"
    by (simp add: zipf_sample_def zipf_make_def Let_def zeta_2)
  consider (one) "?n = 1" | (two) "?n = 2" | (more) "2 < ?n" using assms(2) by linarith
  then show ?thesis
  proof cases
    case one
    then have "?z = 1" by simp
    with s assms show ?thesis by simp
  next
    case two
    then have z: "?z = ?z2" by simp
    have "0 < ?z2" by (simp add: zeta_2 add_pos_nonneg)
    then have "u * ?z < ?z2" using assms(6) z by simp
    with s two show ?thesis by simp
  next
    case more
    show ?thesis
    proof (cases "u * ?z < ?z2")
      case True
      with s more show ?thesis by simp
    next
      case False
      have z: "1 < ?z2" "?z2 < ?z" using more by (auto simp: zeta_2 intro!: zeta_strict [of "nat ?n", unfolded zeta_2])
      note B = tail_base [OF _ assms(3,4) z _ assms(6) refl, of "real_of_int ?n"]
      have B: "(2 / real_of_int ?n) powr (1 - theta) \<le> ?x" "?x < 1"
        using B False more by simp_all
      let ?y = "?x powr (1 / (1 - theta))"
      have x0: "0 \<le> ?x" using B(1) order_trans [OF powr_ge_zero] by blast
      have "?y < 1 powr (1 / (1 - theta))" using B(2) x0 assms(4) by (intro powr_less_mono2) auto
      then have hi: "?y < 1" by simp
      have n: "0 < real_of_int ?n" using more by simp
      have "0 \<le> real_of_int ?n * ?y" using n by simp
      moreover have "real_of_int ?n * ?y < real_of_int ?n * 1" using hi n by (rule mult_strict_left_mono)
      moreover have "zipf_sample (zipf_make a b theta) u = truncate (a + ?n * ?y)"
        using s False z by (simp add: not_less)
      ultimately show ?thesis
        using truncate_in_range [OF assms(1), of "real_of_int ?n * ?y" b] by (simp only: mult_1_right)
    qed
  qed
qed

section \<open>The client's choice of a distribution\<close>

text \<open>
  \<open>Run\<close> in \<open>iht/role_client.h\<close> picks the distribution by name; an unknown name is fatal. The key
  of the uniform distribution, from the standard library, is the argument \<open>k\<close>.
\<close>

definition draw_key :: "string \<Rightarrow> int \<Rightarrow> int \<Rightarrow> int \<Rightarrow> real \<Rightarrow> int option" where
  "draw_key distribution key_lb key_ub k u =
     (if distribution = ''uniform'' then Some k
      else if distribution = ''skew90'' then Some (zipf_sample (zipf_make key_lb key_ub (90 / 100)) u)
      else if distribution = ''skew95'' then Some (zipf_sample (zipf_make key_lb key_ub (95 / 100)) u)
      else if distribution = ''skew99'' then Some (zipf_sample (zipf_make key_lb key_ub (99 / 100)) u)
      else None)"

text \<open>
  C25: every key the client draws, by any of its distributions, lies in the key range of the
  experiment: the tail formula of the skewed ones neither undershoots the lower bound nor
  reaches the upper bound plus one.
\<close>

theorem draw_key_in_range:
  assumes "0 \<le> key_lb" and "key_lb \<le> k" and "k \<le> key_ub" and "0 \<le> u" and "u < 1"
    and "draw_key distribution key_lb key_ub k u = Some key"
  shows "key_lb \<le> key \<and> key \<le> key_ub"
proof -
  have "key_lb \<le> key_ub" using assms(2,3) by simp
  note Z = zipf_in_range [OF assms(1) this _ _ assms(4,5)]
  show ?thesis
    using assms(2,3,6) Z [of "90 / 100"] Z [of "95 / 100"] Z [of "99 / 100"]
    by (auto simp: draw_key_def split: if_splits)
qed

theorem draw_key_in_range_witness:
  "\<exists>key. draw_key ''skew99'' 0 31 7 (3 / 4) = Some key \<and> 0 \<le> key \<and> key \<le> 31"
proof -
  have "draw_key ''skew99'' 0 31 7 (3 / 4) = Some (zipf_sample (zipf_make 0 31 (99 / 100)) (3 / 4))"
    by (simp add: draw_key_def)
  with draw_key_in_range [OF _ _ _ _ _ this] show ?thesis by simp
qed

end
