(* ===== verification/Rpc.thy ===== *)
theory Rpc
  imports IhtLocal
begin

text \<open>
  \<open>iht/rpc.h\<close> (\<open>TwoSidedIHT\<close>): the key space is cut into one part per node, each node keeps its
  part in a local interlocked hash table, and an operation on a key of another node is a
  message to that node and back. A pair of nodes has one queue for requests and one for
  responses; the client's lock on the pair is held from the request to the response, the
  server's from the receive to the send. Keys, values and node numbers are C++ \<open>int\<close>s, here
  integers; the one product that can overflow is checked.
\<close>

section \<open>Which node owns a key\<close>

datatype rpc_error = Keyspace_access_error | Int_overflow | Unexpected_opcode | Cannot_get_result

record rpc_space =
  node_count :: int
  keyspace_lb :: int
  keyspace_len :: int

definition INT_MAX :: int where "INT_MAX = 2 ^ 31 - 1"

text \<open>The constructor: both bounds of the key space are inclusive.\<close>

definition TwoSidedIHT :: "int \<Rightarrow> int \<Rightarrow> int \<Rightarrow> rpc_space" where
  "TwoSidedIHT cnt lb ub = \<lparr>node_count = cnt, keyspace_lb = lb, keyspace_len = ub - lb\<rparr>"

text \<open>All operands of the division are non-negative where it is reached.\<close>

definition to_id :: "rpc_space \<Rightarrow> int \<Rightarrow> rpc_error + int" where
  "to_id sp key =
     (if key \<ge> keyspace_lb sp \<and> key - keyspace_lb sp \<le> keyspace_len sp then
        if node_count sp * (key - keyspace_lb sp) > INT_MAX then Inl Int_overflow
        else (let id = node_count sp * (key - keyspace_lb sp) div keyspace_len sp in
              if id = node_count sp then Inr (id - 1) else Inr id)
      else Inl Keyspace_access_error)"

section \<open>Messages\<close>

datatype opcode = GET_REQ | INS_REQ | RMV_REQ | GET_RES | INS_RES | RMV_RES | ERR

record proto =
  p_op :: opcode
  p_key :: int
  p_value :: int

type_synonym table = "(int, int) lplist"

text \<open>
  The server's work on one request. On a failed \<open>get\<close> or \<open>remove\<close> the response carries the
  uninitialised local \<open>answer\<close>, the argument \<open>junk\<close>. Another code is only logged, and the
  response goes out with the code it was made with (\<open>dflt\<close>).
\<close>

definition serve ::
  "(int \<Rightarrow> u64) \<Rightarrow> nat \<Rightarrow> nat \<Rightarrow> int \<Rightarrow> opcode \<Rightarrow> proto \<Rightarrow> table \<Rightarrow> (proto \<times> table) option" where
  "serve h cap fuel junk dflt request tbl =
     (case p_op request of
        GET_REQ \<Rightarrow>
          (case lmap_get h tbl (p_key request) of
             None \<Rightarrow> None
           | Some None \<Rightarrow> Some (\<lparr>p_op = ERR, p_key = p_key request, p_value = junk\<rparr>, tbl)
           | Some (Some v) \<Rightarrow> Some (\<lparr>p_op = GET_RES, p_key = p_key request, p_value = v\<rparr>, tbl))
      | INS_REQ \<Rightarrow>
          (case lmap_insert h cap fuel tbl (p_key request) (p_value request) of
             None \<Rightarrow> None
           | Some (None, tbl') \<Rightarrow>
               Some (\<lparr>p_op = INS_RES, p_key = p_key request, p_value = p_value request\<rparr>, tbl')
           | Some (Some v, tbl') \<Rightarrow> Some (\<lparr>p_op = ERR, p_key = p_key request, p_value = v\<rparr>, tbl'))
      | RMV_REQ \<Rightarrow>
          (case lmap_remove h tbl (p_key request) of
             None \<Rightarrow> None
           | Some (None, tbl') \<Rightarrow> Some (\<lparr>p_op = ERR, p_key = p_key request, p_value = junk\<rparr>, tbl')
           | Some (Some v, tbl') \<Rightarrow> Some (\<lparr>p_op = RMV_RES, p_key = p_key request, p_value = v\<rparr>, tbl'))
      | _ \<Rightarrow> Some (\<lparr>p_op = dflt, p_key = p_key request, p_value = p_value request\<rparr>, tbl))"

text \<open>What the client makes of a response.\<close>

definition get_result :: "proto \<Rightarrow> rpc_error + int option" where
  "get_result r = (if p_op r = ERR then Inr None
     else if p_op r = GET_RES then Inr (Some (p_value r)) else Inl Unexpected_opcode)"

definition insert_result :: "proto \<Rightarrow> rpc_error + int option" where
  "insert_result r = (if p_op r = ERR then Inr (Some (p_value r))
     else if p_op r = INS_RES then Inr None else Inl Unexpected_opcode)"

definition remove_result :: "proto \<Rightarrow> rpc_error + int option" where
  "remove_result r = (if p_op r = ERR then Inr None
     else if p_op r = RMV_RES then Inr (Some (p_value r)) else Inl Unexpected_opcode)"

section \<open>The nodes and their connections\<close>

text \<open>\<open>requests (c, s)\<close> and \<open>responses (c, s)\<close>: the queues between client \<open>c\<close> and server \<open>s\<close>.\<close>

record net =
  tables :: "int \<Rightarrow> table"
  requests :: "int \<times> int \<Rightarrow> proto list"
  responses :: "int \<times> int \<Rightarrow> proto list"

definition send_request :: "int \<Rightarrow> int \<Rightarrow> proto \<Rightarrow> net \<Rightarrow> net" where
  "send_request c s r n = n\<lparr>requests := (requests n)((c, s) := requests n (c, s) @ [r])\<rparr>"

text \<open>One turn of the server's loop for a client: \<open>TryReceive\<close>, work, send.\<close>

definition serve_turn :: "(int \<Rightarrow> u64) \<Rightarrow> nat \<Rightarrow> nat \<Rightarrow> int \<Rightarrow> opcode \<Rightarrow> int \<Rightarrow> int \<Rightarrow> net \<Rightarrow> net option" where
  "serve_turn h cap fuel junk dflt s c n =
     (case requests n (c, s) of
        [] \<Rightarrow> Some n
      | r # rs \<Rightarrow>
          (case serve h cap fuel junk dflt r (tables n s) of
             None \<Rightarrow> None
           | Some (resp, tbl) \<Rightarrow>
               Some (n\<lparr>tables := (tables n)(s := tbl), requests := (requests n)((c, s) := rs),
                       responses := (responses n)((c, s) := responses n (c, s) @ [resp])\<rparr>)))"

text \<open>The server's loop over all clients but itself.\<close>

fun serve_round :: "(int \<Rightarrow> u64) \<Rightarrow> nat \<Rightarrow> nat \<Rightarrow> int \<Rightarrow> opcode \<Rightarrow> int \<Rightarrow> int list \<Rightarrow> net \<Rightarrow> net option" where
  "serve_round h cap fuel junk dflt s [] n = Some n"
| "serve_round h cap fuel junk dflt s (c # cs) n =
     (if c = s then serve_round h cap fuel junk dflt s cs n
      else case serve_turn h cap fuel junk dflt s c n of
        None \<Rightarrow> None
      | Some n' \<Rightarrow> serve_round h cap fuel junk dflt s cs n')"

definition deliver :: "int \<Rightarrow> int \<Rightarrow> net \<Rightarrow> (proto \<times> net) option" where
  "deliver c s n = (case responses n (c, s) of
     [] \<Rightarrow> None
   | r # rs \<Rightarrow> Some (r, n\<lparr>responses := (responses n)((c, s) := rs)\<rparr>))"

text \<open>A remote call: send, let the server go round once, deliver the response.\<close>

definition rpc_call ::
  "(int \<Rightarrow> u64) \<Rightarrow> nat \<Rightarrow> nat \<Rightarrow> int \<Rightarrow> opcode \<Rightarrow> int list \<Rightarrow> int \<Rightarrow> int \<Rightarrow> proto \<Rightarrow> net \<Rightarrow> (proto \<times> net) option" where
  "rpc_call h cap fuel junk dflt ids c s r n =
     (case serve_round h cap fuel junk dflt s ids (send_request c s r n) of
        None \<Rightarrow> None
      | Some n' \<Rightarrow> deliver c s n')"

text \<open>The operations of node \<open>self\<close>; the caller's \<open>None\<close> is a call that does not return.\<close>

definition node_ids :: "rpc_space \<Rightarrow> int list" where
  "node_ids sp = map int [0 ..< nat (node_count sp)]"

definition rpc_get ::
  "(int \<Rightarrow> u64) \<Rightarrow> nat \<Rightarrow> nat \<Rightarrow> int \<Rightarrow> opcode \<Rightarrow> rpc_space \<Rightarrow> int \<Rightarrow> int \<Rightarrow> net \<Rightarrow>
     ((rpc_error + int option) \<times> net) option" where
  "rpc_get h cap fuel junk dflt sp self key n =
     (case to_id sp key of
        Inl err \<Rightarrow> Some (Inl err, n)
      | Inr target \<Rightarrow>
          if target = self then map_option (\<lambda>r. (Inr r, n)) (lmap_get h (tables n self) key)
          else map_option (\<lambda>(r, n'). (get_result r, n'))
            (rpc_call h cap fuel junk dflt (node_ids sp) self target
               \<lparr>p_op = GET_REQ, p_key = key, p_value = 0\<rparr> n))"

definition rpc_insert ::
  "(int \<Rightarrow> u64) \<Rightarrow> nat \<Rightarrow> nat \<Rightarrow> int \<Rightarrow> opcode \<Rightarrow> rpc_space \<Rightarrow> int \<Rightarrow> int \<Rightarrow> int \<Rightarrow> net \<Rightarrow>
     ((rpc_error + int option) \<times> net) option" where
  "rpc_insert h cap fuel junk dflt sp self key val n =
     (case to_id sp key of
        Inl err \<Rightarrow> Some (Inl err, n)
      | Inr target \<Rightarrow>
          if target = self then
            map_option (\<lambda>(r, tbl). (Inr r, n\<lparr>tables := (tables n)(self := tbl)\<rparr>))
              (lmap_insert h cap fuel (tables n self) key val)
          else map_option (\<lambda>(r, n'). (insert_result r, n'))
            (rpc_call h cap fuel junk dflt (node_ids sp) self target
               \<lparr>p_op = INS_REQ, p_key = key, p_value = val\<rparr> n))"

definition rpc_remove ::
  "(int \<Rightarrow> u64) \<Rightarrow> nat \<Rightarrow> nat \<Rightarrow> int \<Rightarrow> opcode \<Rightarrow> rpc_space \<Rightarrow> int \<Rightarrow> int \<Rightarrow> net \<Rightarrow>
     ((rpc_error + int option) \<times> net) option" where
  "rpc_remove h cap fuel junk dflt sp self key n =
     (case to_id sp key of
        Inl err \<Rightarrow> Some (Inl err, n)
      | Inr target \<Rightarrow>
          if target = self then
            map_option (\<lambda>(r, tbl). (Inr r, n\<lparr>tables := (tables n)(self := tbl)\<rparr>))
              (lmap_remove h (tables n self) key)
          else map_option (\<lambda>(r, n'). (remove_result r, n'))
            (rpc_call h cap fuel junk dflt (node_ids sp) self target
               \<lparr>p_op = RMV_REQ, p_key = key, p_value = 0\<rparr> n))"

section \<open>Lemmas\<close>

text \<open>No request or response is under way.\<close>

definition quiet :: "net \<Rightarrow> bool" where
  "quiet n \<longleftrightarrow> (\<forall>x. requests n x = []) \<and> (\<forall>x. responses n x = [])"

lemma serve_turn_empty: "requests n (c, s) = [] \<Longrightarrow> serve_turn h cap fuel junk dflt s c n = Some n"
  by (simp add: serve_turn_def)

lemma serve_round_empty:
  "(\<And>c. requests n (c, s) = []) \<Longrightarrow> serve_round h cap fuel junk dflt s cs n = Some n"
  by (induction cs) (simp_all add: serve_turn_empty)

text \<open>The only request there is gets served, wherever its client is in the round.\<close>

lemma serve_round_one:
  assumes "c \<in> set cs" "c \<noteq> s" and "\<And>d. d \<noteq> c \<Longrightarrow> requests n (d, s) = []" and "requests n (c, s) = [r]"
  shows "serve_round h cap fuel junk dflt s cs n =
     (case serve h cap fuel junk dflt r (tables n s) of
        None \<Rightarrow> None
      | Some (resp, tbl) \<Rightarrow>
          Some (n\<lparr>tables := (tables n)(s := tbl), requests := (requests n)((c, s) := []),
                  responses := (responses n)((c, s) := responses n (c, s) @ [resp])\<rparr>))"
  using assms(1)
proof (induction cs)
  case Nil
  then show ?case by simp
next
  case (Cons d cs)
  show ?case
  proof (cases "d = c")
    case True
    have "requests (n\<lparr>tables := (tables n)(s := tbl), requests := (requests n)((c, s) := []),
              responses := (responses n)((c, s) := responses n (c, s) @ [resp])\<rparr>) (e, s) = []" for e resp tbl
      using assms(3) by simp
    from serve_round_empty [of _ s, OF this] show ?thesis
      using True assms(2,4) by (simp add: serve_turn_def split: option.split prod.split)
  next
    case False
    with Cons assms(3) [OF False] show ?thesis by (auto simp: serve_turn_empty)
  qed
qed

lemma net_cong: "requests n' = requests n \<Longrightarrow> responses n' = responses n \<Longrightarrow> tables n' = tables n \<Longrightarrow> n' = (n :: net)"
  by simp

lemma rpc_call_serve:
  assumes q: "quiet n" and "c \<in> set ids" "c \<noteq> s"
  shows "rpc_call h cap fuel junk dflt ids c s r n =
     map_option (\<lambda>(resp, tbl). (resp, n\<lparr>tables := (tables n)(s := tbl)\<rparr>)) (serve h cap fuel junk dflt r (tables n s))"
proof -
  have one: "serve_round h cap fuel junk dflt s ids (send_request c s r n) =
     (case serve h cap fuel junk dflt r (tables (send_request c s r n) s) of
        None \<Rightarrow> None
      | Some (resp, tbl) \<Rightarrow>
          Some ((send_request c s r n)\<lparr>tables := (tables (send_request c s r n))(s := tbl),
                  requests := (requests (send_request c s r n))((c, s) := []),
                  responses := (responses (send_request c s r n))((c, s) := responses (send_request c s r n) (c, s) @ [resp])\<rparr>))"
    by (rule serve_round_one) (use assms in \<open>simp_all add: send_request_def quiet_def\<close>)
  have e: "(requests n)((c, s) := []) = requests n" "(responses n)((c, s) := []) = responses n"
    using q by (simp_all add: quiet_def fun_upd_idem)
  show ?thesis
    unfolding rpc_call_def one
    using q by (auto simp: send_request_def deliver_def e quiet_def split: option.split)
qed

lemma to_id_range:
  assumes "0 < node_count sp" and "0 < keyspace_len sp"
    and "to_id sp key = Inr i"
  shows "0 \<le> i \<and> i < node_count sp"
proof -
  let ?d = "key - keyspace_lb sp" and ?c = "node_count sp" and ?l = "keyspace_len sp"
  have d: "0 \<le> ?d" "?d \<le> ?l" using assms(3) by (auto simp: to_id_def split: if_splits)
  have "?c * ?d \<le> ?c * ?l" using d assms(1) by (intro mult_left_mono) auto
  then have "?c * ?d div ?l \<le> ?c * ?l div ?l" using assms(2) by (intro zdiv_mono1) auto
  then have "?c * ?d div ?l \<le> ?c" using assms(2) by simp
  moreover have "0 \<le> ?c * ?d div ?l" using d assms by (simp add: pos_imp_zdiv_nonneg_iff)
  ultimately show ?thesis using assms(1,3) by (auto simp: to_id_def Let_def split: if_splits)
qed

text \<open>Encoding a request, serving it and decoding the response is the operation on the table.\<close>

lemma serve_get:
  "map_option (\<lambda>(resp, n). (get_result resp, n)) (map_option (\<lambda>(resp, tbl). (resp, g tbl))
     (serve h cap fuel junk dflt \<lparr>p_op = GET_REQ, p_key = key, p_value = x\<rparr> tbl)) =
   map_option (\<lambda>r. (Inr r, g tbl)) (lmap_get h tbl key)"
proof (cases "lmap_get h tbl key")
  case (Some r)
  then show ?thesis by (cases r) (simp_all add: serve_def get_result_def)
qed (simp add: serve_def)

lemma serve_insert:
  "map_option (\<lambda>(resp, n). (insert_result resp, n)) (map_option (\<lambda>(resp, tbl). (resp, g tbl))
     (serve h cap fuel junk dflt \<lparr>p_op = INS_REQ, p_key = key, p_value = val\<rparr> tbl)) =
   map_option (\<lambda>(r, tbl'). (Inr r, g tbl')) (lmap_insert h cap fuel tbl key val)"
proof (cases "lmap_insert h cap fuel tbl key val")
  case (Some x)
  obtain r tbl' where "x = (r, tbl')" by (cases x)
  with Some show ?thesis by (cases r) (simp_all add: serve_def insert_result_def)
qed (simp add: serve_def)

lemma serve_remove:
  "map_option (\<lambda>(resp, n). (remove_result resp, n)) (map_option (\<lambda>(resp, tbl). (resp, g tbl))
     (serve h cap fuel junk dflt \<lparr>p_op = RMV_REQ, p_key = key, p_value = x\<rparr> tbl)) =
   map_option (\<lambda>(r, tbl'). (Inr r, g tbl')) (lmap_remove h tbl key)"
proof (cases "lmap_remove h tbl key")
  case (Some y)
  obtain r tbl' where "y = (r, tbl')" by (cases y)
  with Some show ?thesis by (cases r) (simp_all add: serve_def remove_result_def)
qed (simp add: serve_def)

lemma self_in_ids: "0 \<le> self \<Longrightarrow> self < node_count sp \<Longrightarrow> self \<in> set (node_ids sp)"
  unfolding node_ids_def by (auto intro!: image_eqI [of _ _ "nat self"])

section \<open>Properties\<close>

text \<open>
  C26: the key space is partitioned: a key inside it belongs to exactly one of the nodes
  \<open>0..count-1\<close>, the owners ascend with the keys, and a key outside is refused, as long as the
  product in \<open>to_id\<close> fits an \<open>int\<close>.
\<close>

theorem to_id_partition:
  assumes "0 < cnt" and "lb < ub" and "cnt * (ub - lb) \<le> INT_MAX"
  shows "(lb \<le> key \<and> key \<le> ub \<longrightarrow>
       (\<exists>i. to_id (TwoSidedIHT cnt lb ub) key = Inr i \<and> 0 \<le> i \<and> i < cnt)) \<and>
     (\<not> (lb \<le> key \<and> key \<le> ub) \<longrightarrow> to_id (TwoSidedIHT cnt lb ub) key = Inl Keyspace_access_error) \<and>
     (\<forall>key' i j. key \<le> key' \<and> to_id (TwoSidedIHT cnt lb ub) key = Inr i \<and>
        to_id (TwoSidedIHT cnt lb ub) key' = Inr j \<longrightarrow> i \<le> j)"
proof (intro conjI impI allI)
  let ?sp = "TwoSidedIHT cnt lb ub"
  have f: "node_count ?sp = cnt" "keyspace_lb ?sp = lb" "keyspace_len ?sp = ub - lb"
    by (simp_all add: TwoSidedIHT_def)
  have fits: "cnt * (k - lb) \<le> INT_MAX" if "k \<le> ub" for k
    using mult_left_mono [of "k - lb" "ub - lb" cnt] that assms by linarith
  show "\<exists>i. to_id ?sp key = Inr i \<and> 0 \<le> i \<and> i < cnt" if "lb \<le> key \<and> key \<le> ub"
  proof -
    have "\<exists>i. to_id ?sp key = Inr i"
      using that fits [of key] by (auto simp: to_id_def f Let_def)
    then show ?thesis using to_id_range [of ?sp key] assms by (auto simp: f)
  qed
  show "to_id ?sp key = Inl Keyspace_access_error" if "\<not> (lb \<le> key \<and> key \<le> ub)"
    using that by (auto simp: to_id_def f)
  show "i \<le> j" if k: "key \<le> key' \<and> to_id ?sp key = Inr i \<and> to_id ?sp key' = Inr j" for key' i j
  proof -
    have "cnt * (key - lb) div (ub - lb) \<le> cnt * (key' - lb) div (ub - lb)"
      using k assms(1,2) by (intro zdiv_mono1 mult_left_mono) auto
    moreover have "i = (if cnt * (key - lb) div (ub - lb) = cnt then cnt - 1 else cnt * (key - lb) div (ub - lb))"
      "j = (if cnt * (key' - lb) div (ub - lb) = cnt then cnt - 1 else cnt * (key' - lb) div (ub - lb))"
      using k by (auto simp: to_id_def f Let_def split: if_splits)
    moreover have "i < cnt" "j < cnt" using to_id_range [of ?sp key i] to_id_range [of ?sp key' j] k assms by (auto simp: f)
    ultimately show ?thesis by (auto split: if_splits)
  qed
qed

text \<open>
  C27: with no message under way, an operation on a key is the operation on the owner's table,
  whichever node calls it: the request, its service and the response round-trip to the local
  result, only the owner's table changes, and again no message is under way.
\<close>

theorem rpc_roundtrip:
  assumes "quiet n" and "0 \<le> self" and "self < node_count sp" and "to_id sp key = Inr owner"
  shows "rpc_get h cap fuel junk dflt sp self key n =
      map_option (\<lambda>r. (Inr r, n)) (lmap_get h (tables n owner) key) \<and>
    rpc_insert h cap fuel junk dflt sp self key val n =
      map_option (\<lambda>(r, tbl). (Inr r, n\<lparr>tables := (tables n)(owner := tbl)\<rparr>)) (lmap_insert h cap fuel (tables n owner) key val) \<and>
    rpc_remove h cap fuel junk dflt sp self key n =
      map_option (\<lambda>(r, tbl). (Inr r, n\<lparr>tables := (tables n)(owner := tbl)\<rparr>)) (lmap_remove h (tables n owner) key)"
proof (cases "owner = self")
  case True
  then show ?thesis using assms(4) by (simp add: rpc_get_def rpc_insert_def rpc_remove_def)
next
  case False
  note C = rpc_call_serve [OF assms(1) self_in_ids [OF assms(2,3)] False [symmetric]]
  have id: "n\<lparr>tables := (tables n)(owner := tables n owner)\<rparr> = n" by simp
  show ?thesis
    using assms(4) False by (simp add: rpc_get_def rpc_insert_def rpc_remove_def C serve_get serve_insert serve_remove id)
qed

section \<open>Witnesses\<close>

theorem to_id_partition_witness:
  "to_id (TwoSidedIHT 4 0 100) 100 = Inr 3 \<and> to_id (TwoSidedIHT 4 0 100) 101 = Inl Keyspace_access_error \<and>
   (\<exists>i. to_id (TwoSidedIHT 4 0 100) 50 = Inr i \<and> 0 \<le> i \<and> i < 4)"
proof (intro conjI)
  show "\<exists>i. to_id (TwoSidedIHT 4 0 100) 50 = Inr i \<and> 0 \<le> i \<and> i < 4"
    by (rule to_id_partition [THEN conjunct1, rule_format]) (simp_all add: INT_MAX_def)
qed (simp_all add: INT_MAX_def to_id_def TwoSidedIHT_def)

definition net0 :: net where
  "net0 = \<lparr>tables = \<lambda>_. iht_carumap 1, requests = \<lambda>_. [], responses = \<lambda>_. []\<rparr>"

theorem rpc_roundtrip_witness:
  "rpc_get of_int 8 1 77 ERR (TwoSidedIHT 4 0 100) 0 60 net0 = Some (Inr None, net0)"
proof -
  have q: "quiet net0" by (simp add: quiet_def net0_def)
  have o: "to_id (TwoSidedIHT 4 0 100) 60 = Inr 2" by (simp add: to_id_def TwoSidedIHT_def INT_MAX_def)
  have l: "lmap_get of_int (tables net0 2) 60 = Some None"
    by (simp add: net0_def lmap_get_def iht_carumap_def plist_make_def l_get.simps level_hash_def Let_def)
  from rpc_roundtrip [OF q _ _ o, of 0 of_int 8 1 77 ERR] l show ?thesis
    by (simp add: TwoSidedIHT_def)
qed

end
