(* ===== verification/BNodes.thy ===== *)
theory BNodes
  imports Prelude "HOL-Library.Word"
begin

text \<open>
  The nodes of \<open>iht/cached/ds/btree_cached.h\<close> as they lie in memory: keys, values and child
  pointers are spread over cache lines, each with a version, so that a reader can tell a node
  read while it was being written. The first line's version carries the lock bit. Keys are
  C++ \<open>int\<close>s, here integers; the degree \<open>d\<close> and the sizes of the value lines \<open>vs\<close> and \<open>hs\<close>
  are arguments.
\<close>

unbundle bit_operations_syntax

section \<open>Sizes and constants\<close>

definition SENTINEL :: int where "SENTINEL = 2 ^ 31 - 1"
definition INT_MIN :: int where "INT_MIN = - (2 ^ 31)"

definition LOCK_BIT :: "64 word" where "LOCK_BIT = push_bit 63 1"

definition SIZE :: "nat \<Rightarrow> nat" where "SIZE d = d * 2 + 1"
definition KLINE_SIZE :: nat where "KLINE_SIZE = 14"
definition PLINE_SIZE :: nat where "PLINE_SIZE = 7"
definition KLINES :: "nat \<Rightarrow> nat" where "KLINES d = (SIZE d + KLINE_SIZE) div KLINE_SIZE"
definition PLINES :: "nat \<Rightarrow> nat" where "PLINES d = (SIZE d + 1 + PLINE_SIZE) div PLINE_SIZE"

text \<open>\<open>VLINE_SIZE\<close> is \<open>56 / sizeof(V)\<close> and \<open>HLINE_SIZE\<close> is \<open>40 / sizeof(V)\<close>.\<close>

definition VLINES :: "nat \<Rightarrow> nat \<Rightarrow> nat \<Rightarrow> nat" where
  "VLINES vs hs d = (SIZE d + vs - hs) div vs"

text \<open>
  The assertion of \<open>InitAsFirst\<close> on the size of a value: it divides the 56 bytes of a line. The last
  line has \<open>head\<close> bytes for values.
\<close>

definition value_sizes :: "nat \<Rightarrow> nat \<Rightarrow> nat \<Rightarrow> bool" where
  "value_sizes head vs hs \<longleftrightarrow> (\<exists>sz \<in> {1..56}. 56 mod sz = 0 \<and> vs = 56 div sz \<and> hs = head div sz)"

lemma value_sizes_less:
  assumes "value_sizes head vs hs" and "head \<le> 56"
  shows "0 < vs" "hs \<le> vs"
proof -
  from assms(1) obtain sz where sz: "sz \<in> {1..56}" "vs = 56 div sz" "hs = head div sz"
    unfolding value_sizes_def by blast
  show "0 < vs" using sz by (simp add: div_greater_zero_iff)
  show "hs \<le> vs" using assms(2) sz by (simp add: div_le_mono)
qed

lemma SIZE_pos [simp]: "0 < SIZE d" by (simp add: SIZE_def)

lemma less_div_lines:
  assumes "0 < w" "i < n"
  shows "i div w < (n + w) div (w :: nat)"
proof -
  have "(n + w) div w = Suc (n div w)" using div_add_self2 [of w n] assms(1) by simp
  moreover have "i div w \<le> n div w" using assms(2) by (intro div_le_mono) simp
  ultimately show ?thesis by simp
qed

text \<open>Remote pointers of the tree: an address and the cache mark, or null.\<close>

type_synonym ptr = "(nat \<times> bool) option"

definition p_is_marked :: "ptr \<Rightarrow> bool" where
  "p_is_marked p = (case p of None \<Rightarrow> False | Some (_, m) \<Rightarrow> m)"

definition p_unmark :: "ptr \<Rightarrow> ptr" where
  "p_unmark p = map_option (\<lambda>(a, _). (a, False)) p"

definition p_cond_mark :: "bool \<Rightarrow> ptr \<Rightarrow> ptr" where
  "p_cond_mark c p = (if c then map_option (\<lambda>(a, _). (a, True)) p else p)"

section \<open>Lines\<close>

record kline =
  kl_version :: "64 word"
  kl_keys :: "int list"

record vline =
  vl_version :: "64 word"
  vl_values :: "int list"

record pline =
  pl_version :: "64 word"
  pl_ptrs :: "ptr list"

record hline =
  hl_version :: "64 word"
  hl_values :: "int list"
  hl_key_low :: int
  hl_key_high :: int
  hl_next :: ptr

section \<open>The root record\<close>

record broot =
  r_lock :: "64 word"
  r_height :: nat
  r_start :: ptr

definition root_version :: "broot \<Rightarrow> 64 word" where
  "root_version r = r_lock r AND NOT LOCK_BIT"

definition root_increment_version :: "broot \<Rightarrow> broot" where
  "root_increment_version r = r\<lparr>r_lock := (r_lock r AND NOT LOCK_BIT) + 1\<rparr>"

definition set_start_and_inc :: "ptr \<Rightarrow> broot \<Rightarrow> broot" where
  "set_start_and_inc p r = r\<lparr>r_start := p, r_height := r_height r + 1\<rparr>"

section \<open>Inner nodes\<close>

record bnode =
  bn_keys :: "kline list"
  bn_ptrs :: "pline list"

definition bn_key_at :: "'a bnode_scheme \<Rightarrow> nat \<Rightarrow> int" where
  "bn_key_at n i = kl_keys (bn_keys n ! (i div KLINE_SIZE)) ! (i mod KLINE_SIZE)"

definition put_key :: "kline list \<Rightarrow> nat \<Rightarrow> int \<Rightarrow> kline list" where
  "put_key ls i key =
     (let l = ls ! (i div KLINE_SIZE) in
      ls[i div KLINE_SIZE := l\<lparr>kl_keys := (kl_keys l)[i mod KLINE_SIZE := key]\<rparr>])"

definition bn_set_key :: "nat \<Rightarrow> int \<Rightarrow> 'a bnode_scheme \<Rightarrow> 'a bnode_scheme" where
  "bn_set_key i key n = n\<lparr>bn_keys := put_key (bn_keys n) i key\<rparr>"

definition ptr_at :: "'a bnode_scheme \<Rightarrow> nat \<Rightarrow> ptr" where
  "ptr_at n i = pl_ptrs (bn_ptrs n ! (i div PLINE_SIZE)) ! (i mod PLINE_SIZE)"

definition set_ptr :: "nat \<Rightarrow> ptr \<Rightarrow> 'a bnode_scheme \<Rightarrow> 'a bnode_scheme" where
  "set_ptr i p n =
     (let l = bn_ptrs n ! (i div PLINE_SIZE) in
      n\<lparr>bn_ptrs := (bn_ptrs n)[i div PLINE_SIZE := l\<lparr>pl_ptrs := (pl_ptrs l)[i mod PLINE_SIZE := p]\<rparr>]\<rparr>)"

text \<open>The constructor: all versions 0, no keys, no pointers.\<close>

definition kline0 :: kline where
  "kline0 = \<lparr>kl_version = 0, kl_keys = replicate KLINE_SIZE SENTINEL\<rparr>"

definition BNode :: "nat \<Rightarrow> bnode" where
  "BNode d = \<lparr>bn_keys = replicate (KLINES d) kline0,
     bn_ptrs = replicate (PLINES d) \<lparr>pl_version = 0, pl_ptrs = replicate PLINE_SIZE None\<rparr>\<rparr>"

definition cond_unmark :: "nat \<Rightarrow> bool \<Rightarrow> 'a bnode_scheme \<Rightarrow> 'a bnode_scheme" where
  "cond_unmark d c n =
     (if c \<and> p_is_marked (ptr_at n 0) then
        fold (\<lambda>i n. if ptr_at n i \<noteq> None then set_ptr i (p_unmark (ptr_at n i)) n else n) [0 ..< SIZE d + 1] n
      else n)"

definition all_marked_alike :: "nat \<Rightarrow> 'a bnode_scheme \<Rightarrow> bool" where
  "all_marked_alike d n =
     list_all (\<lambda>i. ptr_at n i = None \<or> p_is_marked (ptr_at n 0) = p_is_marked (ptr_at n i)) [1 ..< SIZE d + 1]"

text \<open>\<open>is_valid\<close> as written: every line is compared with \<open>base\<close>, the first one too.\<close>

definition bn_is_valid :: "'a bnode_scheme \<Rightarrow> bool \<Rightarrow> bool" where
  "bn_is_valid n ignore_lock =
     (let base = (if ignore_lock then kl_version (bn_keys n ! 0) AND NOT LOCK_BIT else kl_version (bn_keys n ! 0)) in
      list_all (\<lambda>l. kl_version l = base) (bn_keys n) \<and> list_all (\<lambda>l. pl_version l = base) (bn_ptrs n))"

definition bn_version :: "'a bnode_scheme \<Rightarrow> 64 word" where
  "bn_version n = kl_version (bn_keys n ! 0) AND NOT LOCK_BIT"

definition bump_klines :: "kline list \<Rightarrow> kline list" where
  "bump_klines ls = (case ls of
     [] \<Rightarrow> []
   | l # ls \<Rightarrow> l\<lparr>kl_version := (kl_version l AND NOT LOCK_BIT) + 1\<rparr> #
       map (\<lambda>l. l\<lparr>kl_version := kl_version l + 1\<rparr>) ls)"

definition bn_increment_version :: "'a bnode_scheme \<Rightarrow> 'a bnode_scheme" where
  "bn_increment_version n =
     n\<lparr>bn_keys := bump_klines (bn_keys n), bn_ptrs := map (\<lambda>l. l\<lparr>pl_version := pl_version l + 1\<rparr>) (bn_ptrs n)\<rparr>"

text \<open>The first eight bytes of a node are the version of its first line.\<close>

definition set_first_version :: "64 word \<Rightarrow> kline list \<Rightarrow> kline list" where
  "set_first_version v ls = ls[0 := (ls ! 0)\<lparr>kl_version := v\<rparr>]"

section \<open>Leaves\<close>

record bleaf =
  lf_keys :: "kline list"
  lf_values :: "vline list"
  lf_last :: hline

definition lf_key_at :: "'a bleaf_scheme \<Rightarrow> nat \<Rightarrow> int" where
  "lf_key_at l i = kl_keys (lf_keys l ! (i div KLINE_SIZE)) ! (i mod KLINE_SIZE)"

definition lf_set_key :: "nat \<Rightarrow> int \<Rightarrow> 'a bleaf_scheme \<Rightarrow> 'a bleaf_scheme" where
  "lf_set_key i key l = l\<lparr>lf_keys := put_key (lf_keys l) i key\<rparr>"

definition value_at :: "nat \<Rightarrow> 'a bleaf_scheme \<Rightarrow> nat \<Rightarrow> int" where
  "value_at vs l i =
     (if i div vs \<ge> length (lf_values l) then hl_values (lf_last l) ! (i mod vs)
      else vl_values (lf_values l ! (i div vs)) ! (i mod vs))"

definition set_value :: "nat \<Rightarrow> nat \<Rightarrow> int \<Rightarrow> 'a bleaf_scheme \<Rightarrow> 'a bleaf_scheme" where
  "set_value vs i val l =
     (if i div vs \<ge> length (lf_values l) then
        l\<lparr>lf_last := (lf_last l)\<lparr>hl_values := (hl_values (lf_last l))[i mod vs := val]\<rparr>\<rparr>
      else (let v = lf_values l ! (i div vs) in
        l\<lparr>lf_values := (lf_values l)[i div vs := v\<lparr>vl_values := (vl_values v)[i mod vs := val]\<rparr>]\<rparr>))"

definition BLeaf :: "nat \<Rightarrow> nat \<Rightarrow> nat \<Rightarrow> bleaf" where
  "BLeaf vs hs d = \<lparr>lf_keys = replicate (KLINES d) kline0,
     lf_values = replicate (VLINES vs hs d) \<lparr>vl_version = 0, vl_values = replicate vs 0\<rparr>,
     lf_last = \<lparr>hl_version = 0, hl_values = replicate hs 0, hl_key_low = INT_MIN, hl_key_high = SENTINEL,
                hl_next = None\<rparr>\<rparr>"

definition lf_is_valid :: "'a bleaf_scheme \<Rightarrow> bool \<Rightarrow> bool" where
  "lf_is_valid l ignore_lock =
     (let base = (if ignore_lock then kl_version (lf_keys l ! 0) AND NOT LOCK_BIT else kl_version (lf_keys l ! 0)) in
      list_all (\<lambda>k. kl_version k = base) (tl (lf_keys l)) \<and> list_all (\<lambda>v. vl_version v = base) (lf_values l) \<and>
      hl_version (lf_last l) = base)"

definition lf_key_in_range :: "'a bleaf_scheme \<Rightarrow> int \<Rightarrow> bool" where
  "lf_key_in_range l key \<longleftrightarrow> hl_key_low (lf_last l) < key \<and> key \<le> hl_key_high (lf_last l)"

definition lf_set_range :: "int \<Rightarrow> int \<Rightarrow> 'a bleaf_scheme \<Rightarrow> 'a bleaf_scheme" where
  "lf_set_range low high l = l\<lparr>lf_last := (lf_last l)\<lparr>hl_key_low := low, hl_key_high := high\<rparr>\<rparr>"

definition lf_version :: "'a bleaf_scheme \<Rightarrow> 64 word" where
  "lf_version l = kl_version (lf_keys l ! 0) AND NOT LOCK_BIT"

definition lf_increment_version :: "'a bleaf_scheme \<Rightarrow> 'a bleaf_scheme" where
  "lf_increment_version l =
     l\<lparr>lf_keys := bump_klines (lf_keys l), lf_values := map (\<lambda>v. v\<lparr>vl_version := vl_version v + 1\<rparr>) (lf_values l),
       lf_last := (lf_last l)\<lparr>hl_version := hl_version (lf_last l) + 1\<rparr>\<rparr>"

definition lf_lock :: "'a bleaf_scheme \<Rightarrow> 'a bleaf_scheme" where
  "lf_lock l = l\<lparr>lf_keys := set_first_version (kl_version (lf_keys l ! 0) OR LOCK_BIT) (lf_keys l)\<rparr>"

definition lf_unlock :: "'a bleaf_scheme \<Rightarrow> 'a bleaf_scheme" where
  "lf_unlock l = l\<lparr>lf_keys := set_first_version (kl_version (lf_keys l ! 0) AND NOT LOCK_BIT) (lf_keys l)\<rparr>"

definition get_next :: "'a bleaf_scheme \<Rightarrow> ptr" where
  "get_next l = hl_next (lf_last l)"

definition set_next :: "ptr \<Rightarrow> 'a bleaf_scheme \<Rightarrow> 'a bleaf_scheme" where
  "set_next p l = l\<lparr>lf_last := (lf_last l)\<lparr>hl_next := p\<rparr>\<rparr>"

section \<open>Slots\<close>

text \<open>
  What the operations on a node rely on: an array of \<open>n\<close> slots behind a getter and a setter,
  on nodes of the right shape.
\<close>

locale slots =
  fixes shape :: "'n \<Rightarrow> bool" and n :: nat and get :: "'n \<Rightarrow> nat \<Rightarrow> 'a" and put :: "nat \<Rightarrow> 'a \<Rightarrow> 'n \<Rightarrow> 'n"
  assumes shape_put: "\<lbrakk> shape x; i < n \<rbrakk> \<Longrightarrow> shape (put i v x)"
    and get_put: "\<lbrakk> shape x; i < n; j < n \<rbrakk> \<Longrightarrow> get (put i v x) j = (if i = j then v else get x j)"
begin

definition view :: "'n \<Rightarrow> 'a list" where
  "view x = map (get x) [0 ..< n]"

lemma length_view [simp]: "length (view x) = n"
  by (simp add: view_def)

lemma nth_view [simp]: "i < n \<Longrightarrow> view x ! i = get x i"
  by (simp add: view_def)

lemma view_put: "shape x \<Longrightarrow> i < n \<Longrightarrow> view (put i v x) = (view x)[i := v]"
  by (rule nth_equalityI) (auto simp: get_put nth_list_update)

text \<open>A loop that writes the slots \<open>i .. j-1\<close>, each from what it held before the loop.\<close>

lemma fold_put_up:
  assumes "shape x" "j \<le> n"
  shows "shape (fold (\<lambda>i x. put i (f i) x) [k ..< j] x) \<and>
     (\<forall>m < n. get (fold (\<lambda>i x. put i (f i) x) [k ..< j] x) m = (if k \<le> m \<and> m < j then f m else get x m))"
  using assms(2)
proof (induction j)
  case 0
  then show ?case using assms(1) by simp
next
  case (Suc j)
  show ?case
  proof (cases "k \<le> j")
    case True
    with Suc show ?thesis by (auto simp: upt_Suc_append shape_put get_put)
  next
    case False
    then show ?thesis using assms(1) by auto
  qed
qed

end

section \<open>Nodes of the right shape\<close>

definition kshape :: "nat \<Rightarrow> kline list \<Rightarrow> bool" where
  "kshape d ls \<longleftrightarrow> length ls = KLINES d \<and> (\<forall>l \<in> set ls. length (kl_keys l) = KLINE_SIZE)"

definition bn_shape :: "nat \<Rightarrow> 'a bnode_scheme \<Rightarrow> bool" where
  "bn_shape d n \<longleftrightarrow> kshape d (bn_keys n) \<and> length (bn_ptrs n) = PLINES d \<and>
     (\<forall>l \<in> set (bn_ptrs n). length (pl_ptrs l) = PLINE_SIZE)"

definition lf_shape :: "nat \<Rightarrow> nat \<Rightarrow> nat \<Rightarrow> 'a bleaf_scheme \<Rightarrow> bool" where
  "lf_shape vs hs d l \<longleftrightarrow> kshape d (lf_keys l) \<and> length (lf_values l) = VLINES vs hs d \<and>
     (\<forall>v \<in> set (lf_values l). length (vl_values v) = vs) \<and> length (hl_values (lf_last l)) = hs"

text \<open>Every key slot lies in a key line and every pointer slot in a pointer line.\<close>

lemma key_slot: "i < SIZE d \<Longrightarrow> i div KLINE_SIZE < KLINES d \<and> i mod KLINE_SIZE < KLINE_SIZE"
  by (simp add: KLINES_def less_div_lines KLINE_SIZE_def)

lemma ptr_slot: "i < SIZE d + 1 \<Longrightarrow> i div PLINE_SIZE < PLINES d \<and> i mod PLINE_SIZE < PLINE_SIZE"
  by (simp add: PLINES_def PLINE_SIZE_def less_div_lines)

lemma div_mod_neq: "i \<noteq> j \<Longrightarrow> i div w = j div w \<Longrightarrow> i mod w \<noteq> j mod (w :: nat)"
  by (metis div_mult_mod_eq)

lemma put_key_laws:
  assumes "kshape d ls" "i < SIZE d" "j < SIZE d"
  shows "kshape d (put_key ls i v)"
    and "kl_keys (put_key ls i v ! (j div KLINE_SIZE)) ! (j mod KLINE_SIZE) =
       (if i = j then v else kl_keys (ls ! (j div KLINE_SIZE)) ! (j mod KLINE_SIZE))"
proof -
  have L: "length ls = KLINES d" "l \<in> set ls \<Longrightarrow> length (kl_keys l) = KLINE_SIZE" for l
    using assms(1) by (auto simp: kshape_def)
  have i: "i div KLINE_SIZE < length ls" "j div KLINE_SIZE < length ls" "i mod KLINE_SIZE < KLINE_SIZE"
    using key_slot [OF assms(2)] key_slot [OF assms(3)] L(1) by simp_all
  have li: "length (kl_keys (ls ! (i div KLINE_SIZE))) = KLINE_SIZE" using L(2) i(1) by simp
  show "kshape d (put_key ls i v)"
    using L li set_update_subset_insert [of ls "i div KLINE_SIZE"]
    unfolding kshape_def put_key_def Let_def by fastforce
  show "kl_keys (put_key ls i v ! (j div KLINE_SIZE)) ! (j mod KLINE_SIZE) =
       (if i = j then v else kl_keys (ls ! (j div KLINE_SIZE)) ! (j mod KLINE_SIZE))"
    using i li div_mod_neq [of i j KLINE_SIZE] by (auto simp: put_key_def Let_def nth_list_update)
qed

interpretation bk: slots "bn_shape d" "SIZE d" bn_key_at bn_set_key for d
  by unfold_locales
    (auto simp: bn_shape_def bn_key_at_def bn_set_key_def put_key_laws intro: put_key_laws(1) [rotated 2])

interpretation lk: slots "lf_shape vs hs d" "SIZE d" lf_key_at lf_set_key for vs hs d
  by unfold_locales
    (auto simp: lf_shape_def lf_key_at_def lf_set_key_def put_key_laws intro: put_key_laws(1) [rotated 2])

lemma ptr_laws:
  assumes "bn_shape d n" "i < SIZE d + 1" "j < SIZE d + 1"
  shows "bn_shape d (set_ptr i p n)"
    and "ptr_at (set_ptr i p n) j = (if i = j then p else ptr_at n j)"
proof -
  have L: "length (bn_ptrs n) = PLINES d" "l \<in> set (bn_ptrs n) \<Longrightarrow> length (pl_ptrs l) = PLINE_SIZE" for l
    using assms(1) by (auto simp: bn_shape_def)
  have i: "i div PLINE_SIZE < length (bn_ptrs n)" "j div PLINE_SIZE < length (bn_ptrs n)" "i mod PLINE_SIZE < PLINE_SIZE"
    using ptr_slot [OF assms(2)] ptr_slot [OF assms(3)] L(1) by simp_all
  have li: "length (pl_ptrs (bn_ptrs n ! (i div PLINE_SIZE))) = PLINE_SIZE" using L(2) i(1) by simp
  show "bn_shape d (set_ptr i p n)"
    using assms(1) L li set_update_subset_insert [of "bn_ptrs n" "i div PLINE_SIZE"]
    unfolding bn_shape_def set_ptr_def Let_def by fastforce
  show "ptr_at (set_ptr i p n) j = (if i = j then p else ptr_at n j)"
    using i li div_mod_neq [of i j PLINE_SIZE] by (auto simp: ptr_at_def set_ptr_def Let_def nth_list_update)
qed

interpretation bp: slots "bn_shape d" "SIZE d + 1" ptr_at set_ptr for d
  by unfold_locales (auto simp: ptr_laws)

text \<open>
  Value slots: the ones beyond the value lines fit the hybrid line (\<open>hs\<close> is at most \<open>vs\<close>
  and the leaf has at least \<open>hs\<close> slots, as for every value type and degree the code is used with).
\<close>

lemma value_slot:
  assumes "i < SIZE d" "0 < vs" "hs \<le> vs" "\<not> i div vs < VLINES vs hs d"
  shows "i mod vs < hs"
proof -
  let ?q = "VLINES vs hs d"
  have "SIZE d + vs - hs < vs * (?q + 1)"
    unfolding VLINES_def using assms(2) by (simp add: dividend_less_times_div)
  then have u: "SIZE d < vs * ?q + hs" using assms(2,3) by (simp add: algebra_simps)
  have "?q \<le> i div vs" using assms(4) by simp
  then have "vs * ?q \<le> vs * (i div vs)" by simp
  moreover have "i = vs * (i div vs) + i mod vs" by simp
  ultimately show ?thesis using u assms(1) by linarith
qed

lemma value_laws:
  assumes "lf_shape vs hs d l" "i < SIZE d" "j < SIZE d" "0 < vs" "hs \<le> vs"
  shows "lf_shape vs hs d (set_value vs i v l)"
    and "value_at vs (set_value vs i v l) j = (if i = j then v else value_at vs l j)"
proof -
  have L: "length (lf_values l) = VLINES vs hs d" "x \<in> set (lf_values l) \<Longrightarrow> length (vl_values x) = vs"
    "length (hl_values (lf_last l)) = hs" for x
    using assms(1) by (auto simp: lf_shape_def)
  have m: "i mod vs < vs" using assms(4) by simp
  have h: "i mod vs < hs" if "\<not> i div vs < VLINES vs hs d" using value_slot assms that by blast
  have li: "length (vl_values (lf_values l ! (i div vs))) = vs" if "i div vs < VLINES vs hs d" using L that by simp
  show "lf_shape vs hs d (set_value vs i v l)"
  proof (cases "i div vs < VLINES vs hs d")
    case True
    then show ?thesis using assms(1) L li set_update_subset_insert [of "lf_values l" "i div vs"]
      unfolding lf_shape_def set_value_def Let_def by fastforce
  next
    case False
    then show ?thesis using assms(1) L by (simp add: lf_shape_def set_value_def)
  qed
  have same: "i mod vs = j mod vs \<Longrightarrow> \<not> i div vs < VLINES vs hs d \<Longrightarrow> \<not> j div vs < VLINES vs hs d \<Longrightarrow> i = j"
  proof -
    assume a: "i mod vs = j mod vs" "\<not> i div vs < VLINES vs hs d" "\<not> j div vs < VLINES vs hs d"
    have "SIZE d + vs - hs < vs * (VLINES vs hs d + 1)"
      unfolding VLINES_def using assms(4) by (simp add: dividend_less_times_div)
    then have u: "SIZE d < vs * (VLINES vs hs d + 1)" using assms(5) by linarith
    have "i div vs < VLINES vs hs d + 1" "j div vs < VLINES vs hs d + 1"
      using u assms(2-4) by (auto simp: less_mult_imp_div_less mult.commute)
    with a have "i div vs = j div vs" by simp
    with a(1) show "i = j" by (metis div_mult_mod_eq)
  qed
  show "value_at vs (set_value vs i v l) j = (if i = j then v else value_at vs l j)"
    using L li h m same div_mod_neq [of i j vs]
    by (cases "i div vs < VLINES vs hs d"; cases "j div vs < VLINES vs hs d")
      (auto simp: value_at_def set_value_def Let_def nth_list_update)
qed

text \<open>The values of a leaf whose value lines have \<open>vs\<close> and \<open>hs\<close> slots.\<close>

lemma slots_values: "0 < vs \<Longrightarrow> hs \<le> vs \<Longrightarrow> slots (lf_shape vs hs d) (SIZE d) (value_at vs) (set_value vs)"
  by unfold_locales (auto simp: value_laws)

text \<open>Setting keys, values and pointers does not disturb the others.\<close>

lemma accessors_independent [simp]:
  "ptr_at (bn_set_key i k n) j = ptr_at n j" "bn_key_at (set_ptr i p n) j = bn_key_at n j"
  "value_at vs (lf_set_key i k l) j = value_at vs l j" "lf_key_at (set_value vs i v l) j = lf_key_at l j"
  "lf_last (lf_set_key i k l) = lf_last l"
  by (simp_all add: ptr_at_def bn_set_key_def bn_key_at_def set_ptr_def Let_def value_at_def lf_set_key_def
      lf_key_at_def set_value_def)

lemma last_set_value [simp]:
  "hl_key_low (lf_last (set_value vs i v l)) = hl_key_low (lf_last l)"
  "hl_key_high (lf_last (set_value vs i v l)) = hl_key_high (lf_last l)"
  "hl_next (lf_last (set_value vs i v l)) = hl_next (lf_last l)"
  by (simp_all add: set_value_def Let_def)

end
