(* ===== verification/BTreeOps.thy ===== *)
theory BTreeOps
  imports BNodes KvMap
begin

text \<open>
  The operations of \<open>btree_cached.h\<close> on nodes: the binary search, splitting a node's keys, values
  and pointers, shifting, merging two nodes, and what \<open>insert\<close> and \<open>remove\<close> do to a leaf. The
  templates over node types take the accessors as arguments.
\<close>

section \<open>Search\<close>

text \<open>\<open>search_node\<close>: \<open>None\<close> stands for the code's -1.\<close>

function search_loop :: "(nat \<Rightarrow> int) \<Rightarrow> int \<Rightarrow> nat \<Rightarrow> nat \<Rightarrow> nat" where
  "search_loop key_at key low high =
     (if low < high then
        (let mid = (low + high) div 2 in
         if key = key_at mid then mid
         else if key < key_at mid then search_loop key_at key low mid
         else search_loop key_at key (mid + 1) high)
      else low)"
  by pat_completeness auto
termination
  by (relation "measure (\<lambda>(key_at, key, low, high). high - low)") auto

declare search_loop.simps [simp del]

definition search_node :: "nat \<Rightarrow> (nat \<Rightarrow> int) \<Rightarrow> int \<Rightarrow> nat option" where
  "search_node d key_at key =
     (if key > key_at (SIZE d - 1) then None else Some (search_loop key_at key 0 (SIZE d - 1)))"

text \<open>The linear search its comment gives as the reference.\<close>

definition search_ref :: "nat \<Rightarrow> (nat \<Rightarrow> int) \<Rightarrow> int \<Rightarrow> nat option" where
  "search_ref d key_at key = List.find (\<lambda>i. key \<le> key_at i) [0 ..< SIZE d]"

section \<open>Splitting\<close>

text \<open>\<open>split_keys\<close>, over the accessors of the two node types.\<close>

definition split_keys_step ::
  "nat \<Rightarrow> ('n \<Rightarrow> nat \<Rightarrow> int) \<Rightarrow> (nat \<Rightarrow> int \<Rightarrow> 'n \<Rightarrow> 'n) \<Rightarrow> nat \<Rightarrow> 'n \<times> 'n \<Rightarrow> 'n \<times> 'n" where
  "split_keys_step d key_at set_key i fe = (case fe of (full, fresh) \<Rightarrow>
     if i < d then (set_key (d + i + 1) SENTINEL full, set_key i (key_at full (d + i + 1)) fresh)
     else (full, set_key i SENTINEL fresh))"

definition split_keys ::
  "nat \<Rightarrow> ('n \<Rightarrow> nat \<Rightarrow> int) \<Rightarrow> (nat \<Rightarrow> int \<Rightarrow> 'n \<Rightarrow> 'n) \<Rightarrow> bool \<Rightarrow> 'n \<times> 'n \<Rightarrow> int \<times> 'n \<times> 'n" where
  "split_keys d key_at set_key no_persist fe =
     (let ret = key_at (fst fe) d;
          (full, fresh) = fold (split_keys_step d key_at set_key) [0 ..< SIZE d] fe
      in (ret, if no_persist then set_key d SENTINEL full else full, fresh))"

definition split_values_step :: "nat \<Rightarrow> nat \<Rightarrow> nat \<Rightarrow> 'a bleaf_scheme \<times> 'a bleaf_scheme \<Rightarrow> 'a bleaf_scheme \<times> 'a bleaf_scheme" where
  "split_values_step vs d i fe = (case fe of (full, fresh) \<Rightarrow>
     if i < d then (set_value vs (d + i + 1) SENTINEL full, set_value vs i (value_at vs full (d + i + 1)) fresh)
     else (full, set_value vs i SENTINEL fresh))"

definition split_values :: "nat \<Rightarrow> nat \<Rightarrow> 'a bleaf_scheme \<times> 'a bleaf_scheme \<Rightarrow> 'a bleaf_scheme \<times> 'a bleaf_scheme" where
  "split_values vs d fe = fold (split_values_step vs d) [0 ..< SIZE d] fe"

definition split_ptrs_step :: "nat \<Rightarrow> nat \<Rightarrow> 'a bnode_scheme \<times> 'a bnode_scheme \<Rightarrow> 'a bnode_scheme \<times> 'a bnode_scheme" where
  "split_ptrs_step d i fe = (case fe of (full, fresh) \<Rightarrow>
     if i \<le> d then (set_ptr (d + i + 1) None full, set_ptr i (ptr_at full (d + i + 1)) fresh)
     else (full, set_ptr i None fresh))"

definition split_ptrs :: "nat \<Rightarrow> 'a bnode_scheme \<times> 'a bnode_scheme \<Rightarrow> 'a bnode_scheme \<times> 'a bnode_scheme" where
  "split_ptrs d fe = fold (split_ptrs_step d) [0 ..< SIZE d + 1] fe"

section \<open>Shifting\<close>

definition shift_up :: "nat \<Rightarrow> nat \<Rightarrow> 'a bnode_scheme \<Rightarrow> 'a bnode_scheme" where
  "shift_up d index n =
     (let n = fold (\<lambda>i n. bn_set_key i (bn_key_at n (i - 1)) n) (rev [index + 1 ..< SIZE d]) n
      in fold (\<lambda>i n. set_ptr i (ptr_at n (i - 1)) n) (rev [index + 2 ..< SIZE d + 1]) n)"

definition shift_down :: "nat \<Rightarrow> nat \<Rightarrow> 'a bnode_scheme \<Rightarrow> int \<times> 'a bnode_scheme" where
  "shift_down d index n =
     (let original_key = bn_key_at n index;
          n = fold (\<lambda>i n. bn_set_key i (bn_key_at n (i + 1)) n) [index ..< SIZE d - 1] n;
          n = bn_set_key (SIZE d - 1) SENTINEL n;
          n = fold (\<lambda>i n. set_ptr i (ptr_at n (i + 1)) n) [index + 1 ..< SIZE d] n;
          n = set_ptr (SIZE d) None n
      in (original_key, n))"

section \<open>Merging\<close>

text \<open>The first free key slot from \<open>i\<close> on: the code's \<open>while (key_at(i) != SENTINEL) i++\<close>.\<close>

function free_slot :: "(nat \<Rightarrow> int) \<Rightarrow> nat \<Rightarrow> nat \<Rightarrow> nat" where
  "free_slot key_at n i = (if i < n \<and> key_at i \<noteq> SENTINEL then free_slot key_at n (i + 1) else i)"
  by pat_completeness auto
termination by (relation "measure (\<lambda>(key_at, n, i). n - i)") auto

declare free_slot.simps [simp del]

text \<open>
  \<open>merge_node\<close>: the left of the two neighbours takes everything, with the parent's key between
  them; the first result says whether the first argument is the one to free.
\<close>

fun merge_node_loop :: "nat list \<Rightarrow> nat \<Rightarrow> 'a bnode_scheme \<Rightarrow> 'a bnode_scheme \<Rightarrow> 'a bnode_scheme" where
  "merge_node_loop [] size_one one two = one"
| "merge_node_loop (i # is) size_one one two =
     (if bn_key_at two i = SENTINEL then one
      else merge_node_loop is (size_one + 1)
        (set_ptr (size_one + 1) (ptr_at two (i + 1)) (bn_set_key size_one (bn_key_at two i) one)) two)"

definition merge_into_left_node ::
  "nat \<Rightarrow> 'a bnode_scheme \<Rightarrow> nat \<Rightarrow> 'a bnode_scheme \<Rightarrow> 'a bnode_scheme \<Rightarrow> 'a bnode_scheme \<times> 'a bnode_scheme" where
  "merge_into_left_node d one bucket_one two parent =
     (let (lower_key, parent) = shift_down d bucket_one parent;
          size_one = free_slot (bn_key_at one) (SIZE d) 0;
          one = bn_set_key size_one lower_key one;
          one = set_ptr (size_one + 1) (ptr_at two 0) one
      in (merge_node_loop [0 ..< SIZE d] (size_one + 1) one two, parent))"

definition merge_node ::
  "nat \<Rightarrow> 'a bnode_scheme \<Rightarrow> nat \<Rightarrow> 'a bnode_scheme \<Rightarrow> nat \<Rightarrow> 'a bnode_scheme \<Rightarrow>
     bool \<times> 'a bnode_scheme \<times> 'a bnode_scheme \<times> 'a bnode_scheme" where
  "merge_node d node_one bucket_one node_two bucket_two parent =
     (if bucket_one \<noteq> 0 then
        (case merge_into_left_node d node_two bucket_two node_one parent of
           (left, parent) \<Rightarrow> (True, node_one, left, parent))
      else
        (case merge_into_left_node d node_one bucket_one node_two parent of
           (left, parent) \<Rightarrow> (False, left, node_two, parent)))"

fun merge_leaf_loop :: "nat \<Rightarrow> nat \<Rightarrow> nat list \<Rightarrow> nat \<Rightarrow> 'a bleaf_scheme \<Rightarrow> 'a bleaf_scheme \<Rightarrow> 'a bleaf_scheme" where
  "merge_leaf_loop vs d [] size_one one two = one"
| "merge_leaf_loop vs d (i # is) size_one one two =
     (if lf_key_at two i = SENTINEL then one
      else (let s = free_slot (lf_key_at one) (SIZE d) size_one in
        merge_leaf_loop vs d is s (set_value vs s (value_at vs two i) (lf_set_key s (lf_key_at two i) one)) two))"

definition merge_into_left_leaf ::
  "nat \<Rightarrow> nat \<Rightarrow> 'a bleaf_scheme \<Rightarrow> nat \<Rightarrow> 'a bleaf_scheme \<Rightarrow> 'b bnode_scheme \<Rightarrow> 'a bleaf_scheme \<times> 'b bnode_scheme" where
  "merge_into_left_leaf vs d one bucket_one two parent =
     (let one = set_next (get_next two) one;
          one = lf_set_range (hl_key_low (lf_last one)) (hl_key_high (lf_last two)) one;
          one = merge_leaf_loop vs d [0 ..< SIZE d] 0 one two
      in (one, snd (shift_down d bucket_one parent)))"

definition merge_leaf ::
  "nat \<Rightarrow> nat \<Rightarrow> 'a bleaf_scheme \<Rightarrow> nat \<Rightarrow> 'a bleaf_scheme \<Rightarrow> nat \<Rightarrow> 'b bnode_scheme \<Rightarrow>
     bool \<times> 'a bleaf_scheme \<times> 'a bleaf_scheme \<times> 'b bnode_scheme" where
  "merge_leaf vs d leaf_one bucket_one leaf_two bucket_two parent =
     (if bucket_one \<noteq> 0 then
        (case merge_into_left_leaf vs d leaf_two bucket_two leaf_one parent of
           (left, parent) \<Rightarrow> (True, leaf_one, left, parent))
      else
        (case merge_into_left_leaf vs d leaf_one bucket_one leaf_two parent of
           (left, parent) \<Rightarrow> (False, left, leaf_two, parent)))"

text \<open>\<open>read_level\<close>: the last pointer where the search ran off the end.\<close>

definition read_level :: "nat \<Rightarrow> 'a bnode_scheme \<Rightarrow> nat option \<Rightarrow> ptr" where
  "read_level d node bucket = (case bucket of None \<Rightarrow> ptr_at node (SIZE d) | Some b \<Rightarrow> ptr_at node b)"

section \<open>The effects of insert and remove on a leaf\<close>

text \<open>The lambdas \<open>insert\<close> and \<open>remove\<close> hand to the traversal, with the value they find.\<close>

definition insert_effect :: "nat \<Rightarrow> nat \<Rightarrow> int \<Rightarrow> int \<Rightarrow> 'a bleaf_scheme \<Rightarrow> nat \<Rightarrow> int option \<times> 'a bleaf_scheme" where
  "insert_effect vs d key val l bucket =
     (if lf_key_at l bucket \<noteq> key then
        (let l = fold (\<lambda>i l. set_value vs i (value_at vs l (i - 1)) l) (rev [bucket + 1 ..< SIZE d]) l;
             l = fold (\<lambda>i l. lf_set_key i (lf_key_at l (i - 1)) l) (rev [bucket + 1 ..< SIZE d]) l
         in (None, set_value vs bucket val (lf_set_key bucket key l)))
      else (Some (value_at vs l bucket), l))"

definition remove_effect :: "nat \<Rightarrow> nat \<Rightarrow> int \<Rightarrow> 'a bleaf_scheme \<Rightarrow> nat \<Rightarrow> int option \<times> 'a bleaf_scheme" where
  "remove_effect vs d key l bucket =
     (if lf_key_at l bucket = key then
        (let l' = fold (\<lambda>i l. set_value vs (i - 1) (value_at vs l i) (lf_set_key (i - 1) (lf_key_at l i) l))
                    [bucket + 1 ..< SIZE d] l
         in (Some (value_at vs l bucket), lf_set_key (SIZE d - 1) SENTINEL l'))
      else (None, l))"

end
