(* ===== verification/BTree.thy ===== *)
theory BTree
  imports BTreeOps
begin

text \<open>
  The cached B+ tree of \<open>btree_cached.h\<close> as one thread runs it on the memory of the tree. What
  other threads do to it shows only in their winning a lock first: every compare-and-swap
  takes its outcome from a list (\<open>bt_lost\<close>, whether it is lost). Reads go through a coherent
  cache, so they return what memory holds; a node that stays locked is read for ever
  (\<open>Spins\<close>). Nodes come from a counter; reclaimed ones are only recorded.
\<close>

section \<open>The memory of the tree\<close>

record bcfg =
  bc_degree :: nat
  bc_vs :: nat
  bc_hs :: nat
  bc_cache_depth :: nat

record btree =
  bt_root :: broot
  bt_nodes :: "nat \<Rightarrow> bnode option"
  bt_leaves :: "nat \<Rightarrow> bleaf option"
  bt_fresh :: nat
  bt_freed :: "nat list"
  bt_lost :: "bool list"

datatype bt_error = Null_pointer | Spins | Too_many_retries | Assertion_failed | Index_out_of_bounds | Out_of_fuel | Index_failed

definition deref :: "ptr \<Rightarrow> (nat \<Rightarrow> 'n option) \<Rightarrow> bt_error + 'n" where
  "deref p mem = (case p of None \<Rightarrow> Inl Null_pointer
     | Some (a, _) \<Rightarrow> (case mem a of None \<Rightarrow> Inl Null_pointer | Some n \<Rightarrow> Inr n))"

definition store_node :: "ptr \<Rightarrow> bnode \<Rightarrow> btree \<Rightarrow> btree" where
  "store_node p n t = (case p of None \<Rightarrow> t | Some (a, _) \<Rightarrow> t\<lparr>bt_nodes := (bt_nodes t)(a \<mapsto> n)\<rparr>)"

definition store_leaf :: "ptr \<Rightarrow> bleaf \<Rightarrow> btree \<Rightarrow> btree" where
  "store_leaf p l t = (case p of None \<Rightarrow> t | Some (a, _) \<Rightarrow> t\<lparr>bt_leaves := (bt_leaves t)(a \<mapsto> l)\<rparr>)"

definition bt_allocate :: "btree \<Rightarrow> ptr \<times> btree" where
  "bt_allocate t = (Some (bt_fresh t, False), t\<lparr>bt_fresh := bt_fresh t + 1\<rparr>)"

definition bt_deallocate :: "ptr \<Rightarrow> btree \<Rightarrow> btree" where
  "bt_deallocate p t = (case p of None \<Rightarrow> t | Some (a, _) \<Rightarrow> t\<lparr>bt_freed := a # bt_freed t\<rparr>)"

section \<open>Locks and reads\<close>

definition cas_lost :: "btree \<Rightarrow> bool \<times> btree" where
  "cas_lost t = (case bt_lost t of [] \<Rightarrow> (False, t) | b # bs \<Rightarrow> (b, t\<lparr>bt_lost := bs\<rparr>))"

definition try_acquire_root :: "64 word \<Rightarrow> btree \<Rightarrow> bool \<times> btree" where
  "try_acquire_root v t = (case cas_lost t of (lost, t) \<Rightarrow>
     if \<not> lost \<and> r_lock (bt_root t) = v AND NOT LOCK_BIT
     then (True, t\<lparr>bt_root := (bt_root t)\<lparr>r_lock := v OR LOCK_BIT\<rparr>\<rparr>) else (False, t))"

definition try_acquire_node :: "ptr \<Rightarrow> 64 word \<Rightarrow> btree \<Rightarrow> bool \<times> btree" where
  "try_acquire_node p v t = (case cas_lost t of (lost, t) \<Rightarrow>
     (case deref p (bt_nodes t) of
        Inl _ \<Rightarrow> (False, t)
      | Inr n \<Rightarrow>
          if \<not> lost \<and> kl_version (bn_keys n ! 0) = v AND NOT LOCK_BIT
          then (True, store_node p (n\<lparr>bn_keys := set_first_version (v OR LOCK_BIT) (bn_keys n)\<rparr>) t)
          else (False, t)))"

definition try_acquire_leaf :: "ptr \<Rightarrow> 64 word \<Rightarrow> btree \<Rightarrow> bool \<times> btree" where
  "try_acquire_leaf p v t = (case cas_lost t of (lost, t) \<Rightarrow>
     (case deref p (bt_leaves t) of
        Inl _ \<Rightarrow> (False, t)
      | Inr l \<Rightarrow>
          if \<not> lost \<and> kl_version (lf_keys l ! 0) = v AND NOT LOCK_BIT
          then (True, store_leaf p (l\<lparr>lf_keys := set_first_version (v OR LOCK_BIT) (lf_keys l)\<rparr>) t)
          else (False, t)))"

definition release_root :: "64 word \<Rightarrow> btree \<Rightarrow> btree" where
  "release_root v t = t\<lparr>bt_root := (bt_root t)\<lparr>r_lock := v\<rparr>\<rparr>"

definition release_node :: "ptr \<Rightarrow> 64 word \<Rightarrow> btree \<Rightarrow> btree" where
  "release_node p v t = (case deref p (bt_nodes t) of
     Inl _ \<Rightarrow> t | Inr n \<Rightarrow> store_node p (n\<lparr>bn_keys := set_first_version v (bn_keys n)\<rparr>) t)"

definition release_leaf :: "ptr \<Rightarrow> 64 word \<Rightarrow> btree \<Rightarrow> btree" where
  "release_leaf p v t = (case deref p (bt_leaves t) of
     Inl _ \<Rightarrow> t | Inr l \<Rightarrow> store_leaf p (l\<lparr>lf_keys := set_first_version v (lf_keys l)\<rparr>) t)"

datatype read_behavior = IGNORE_LOCK | LOOK_FOR_SPLIT_MERGE | WILL_NEED_ACQUIRE

text \<open>\<open>reliable_read\<close>: read again while the copy is not valid.\<close>

definition reliable_read ::
  "nat \<Rightarrow> ('n \<Rightarrow> nat \<Rightarrow> int) \<Rightarrow> ('n \<Rightarrow> bool \<Rightarrow> bool) \<Rightarrow> ptr \<Rightarrow> read_behavior \<Rightarrow> (nat \<Rightarrow> 'n option) \<Rightarrow> bt_error + 'n" where
  "reliable_read d key_at is_valid p behavior mem =
     then_do (deref p mem) (\<lambda>obj.
       let ignore = (case behavior of
             IGNORE_LOCK \<Rightarrow> True
           | LOOK_FOR_SPLIT_MERGE \<Rightarrow> key_at obj (SIZE d - 1) \<noteq> SENTINEL \<or> key_at obj 0 = SENTINEL
           | WILL_NEED_ACQUIRE \<Rightarrow> False)
       in if is_valid obj ignore then Inr obj else Inl Spins)"

definition read_node :: "bcfg \<Rightarrow> ptr \<Rightarrow> read_behavior \<Rightarrow> btree \<Rightarrow> bt_error + bnode" where
  "read_node c p behavior t = reliable_read (bc_degree c) bn_key_at bn_is_valid p behavior (bt_nodes t)"

definition read_leaf :: "bcfg \<Rightarrow> ptr \<Rightarrow> read_behavior \<Rightarrow> btree \<Rightarrow> bt_error + bleaf" where
  "read_leaf c p behavior t = reliable_read (bc_degree c) lf_key_at lf_is_valid p behavior (bt_leaves t)"

section \<open>Splits\<close>

text \<open>At the root, an inner node splits in two under a new parent.\<close>

definition split_root_node :: "bcfg \<Rightarrow> broot \<Rightarrow> ptr \<Rightarrow> bnode \<Rightarrow> btree \<Rightarrow> btree" where
  "split_root_node c parent node_p node t =
     (let d = bc_degree c;
          (new_parent, t) = bt_allocate t;
          new_parent = p_cond_mark (bc_cache_depth c \<ge> 1) new_parent;
          parent = set_start_and_inc new_parent parent;
          (new_neighbor, t) = bt_allocate t;
          (to_parent, node, neighbor) = split_keys d bn_key_at bn_set_key True (node, BNode d);
          (node, neighbor) = split_ptrs d (node, neighbor);
          t = store_node new_neighbor (cond_unmark d (bc_cache_depth c \<le> 2) neighbor) t;
          par = bn_set_key 0 to_parent (BNode d);
          par = set_ptr 0 node_p par;
          par = set_ptr 1 (p_cond_mark (p_is_marked node_p) new_neighbor) par;
          t = store_node new_parent (cond_unmark d (bc_cache_depth c \<le> 1) par) t;
          parent = root_increment_version parent;
          node = cond_unmark d (bc_cache_depth c \<le> 2) (bn_increment_version node);
          t = t\<lparr>bt_root := parent\<rparr>
      in store_node node_p node t)"

text \<open>At the root, the only leaf splits in two under a new inner node.\<close>

definition split_root_leaf :: "bcfg \<Rightarrow> broot \<Rightarrow> ptr \<Rightarrow> bleaf \<Rightarrow> btree \<Rightarrow> btree" where
  "split_root_leaf c parent node_p node t =
     (let d = bc_degree c;
          (new_parent, t) = bt_allocate t;
          new_parent = p_cond_mark (bc_cache_depth c \<ge> 1) new_parent;
          parent = set_start_and_inc new_parent parent;
          (new_neighbor, t) = bt_allocate t;
          key_low = hl_key_low (lf_last node);
          key_high = hl_key_high (lf_last node);
          (to_parent, node, leaf) = split_keys d lf_key_at lf_set_key False (node, BLeaf (bc_vs c) (bc_hs c) d);
          (node, leaf) = split_values (bc_vs c) d (node, leaf);
          t = store_leaf new_neighbor (lf_set_range to_parent key_high leaf) t;
          node = lf_set_range key_low to_parent (set_next new_neighbor node);
          par = bn_set_key 0 to_parent (BNode d);
          par = set_ptr 0 (p_unmark node_p) par;
          par = set_ptr 1 (p_unmark new_neighbor) par;
          t = store_node new_parent par t;
          t = t\<lparr>bt_root := root_increment_version parent\<rparr>
      in store_leaf node_p (lf_increment_version node) t)"

text \<open>Below the root, an inner node splits and its parent takes the middle key.\<close>

definition split_inner_node :: "bcfg \<Rightarrow> ptr \<Rightarrow> bnode \<Rightarrow> ptr \<Rightarrow> bnode \<Rightarrow> nat \<Rightarrow> btree \<Rightarrow> bt_error + btree" where
  "split_inner_node c parent_p parent node_p node level_parent t =
     (let d = bc_degree c;
          (new_neighbor, t) = bt_allocate t;
          (to_parent, node, neighbor) = split_keys d bn_key_at bn_set_key True (node, BNode d);
          (node, neighbor) = split_ptrs d (node, neighbor);
          t = store_node new_neighbor (cond_unmark d (level_parent + 1 \<ge> bc_cache_depth c) neighbor) t
      in case search_node d (bn_key_at parent) to_parent of
           None \<Rightarrow> Inl Assertion_failed
         | Some bucket \<Rightarrow>
             let parent = bn_set_key bucket to_parent (shift_up d bucket parent);
                 parent = set_ptr (bucket + 1) (p_cond_mark (p_is_marked (ptr_at parent 0)) new_neighbor) parent;
                 parent = cond_unmark d (level_parent \<ge> bc_cache_depth c) (bn_increment_version parent);
                 node = cond_unmark d (level_parent + 1 \<ge> bc_cache_depth c) (bn_increment_version node)
             in Inr (store_node node_p node (store_node parent_p parent t)))"

text \<open>
  A leaf splits and its parent takes the key; the new leaf starts locked, the old one stays
  locked and is handed back unwritten.
\<close>

definition split_leaf :: "bcfg \<Rightarrow> ptr \<Rightarrow> bnode \<Rightarrow> ptr \<Rightarrow> bleaf \<Rightarrow> btree \<Rightarrow> bt_error + (bleaf \<times> btree)" where
  "split_leaf c parent_p parent node_p node t =
     (let d = bc_degree c;
          (new_neighbor, t) = bt_allocate t;
          key_low = hl_key_low (lf_last node);
          key_high = hl_key_high (lf_last node);
          (to_parent, node, leaf) = split_keys d lf_key_at lf_set_key False (node, BLeaf (bc_vs c) (bc_hs c) d);
          (node, leaf) = split_values (bc_vs c) d (node, leaf);
          leaf = lf_lock (lf_set_range to_parent key_high (set_next (get_next node) leaf));
          t = store_leaf new_neighbor leaf t;
          node = lf_set_range key_low to_parent (set_next new_neighbor node)
      in case search_node d (bn_key_at parent) to_parent of
           None \<Rightarrow> Inl Assertion_failed
         | Some bucket \<Rightarrow>
             let parent = bn_set_key bucket to_parent (shift_up d bucket parent);
                 parent = set_ptr (bucket + 1) (p_cond_mark (p_is_marked (ptr_at parent 0)) new_neighbor) parent;
                 parent = bn_increment_version parent
             in Inr (lf_increment_version node, store_node parent_p parent t))"

end
