(* ===== verification/BTreeTraverse.thy ===== *)
theory BTreeTraverse
  imports BTree
begin

text \<open>
  \<open>traverse\<close> of \<open>btree_cached.h\<close> and the operations of the tree. One attempt of the traversal ends
  in a leaf (\<open>Done\<close>), in a retry that the code counts (\<open>Retry\<close>) or in one it does not (\<open>Restart\<close>:
  a call without the counter). The leaf is changed by an effect that gets the leaf and the bucket
  of the key and may return the value it found; a bucket of -1 makes it read out of bounds.
\<close>

type_synonym 'r effect = "bleaf \<Rightarrow> nat \<Rightarrow> 'r \<times> bleaf"

datatype 'r outcome = Done "'r option" bleaf | Restart | Retry

section \<open>At the root\<close>

definition apply_effect :: "bcfg \<Rightarrow> int \<Rightarrow> 'r effect \<Rightarrow> bleaf \<Rightarrow> bt_error + ('r \<times> bleaf)" where
  "apply_effect c key eff l = (case search_node (bc_degree c) (lf_key_at l) key of
     None \<Rightarrow> Inl Index_out_of_bounds | Some bucket \<Rightarrow> Inr (eff l bucket))"

definition full_node :: "bcfg \<Rightarrow> bnode \<Rightarrow> bool" where
  "full_node c n \<longleftrightarrow> bn_key_at n (SIZE (bc_degree c) - 1) \<noteq> SENTINEL"

definition full_leaf :: "bcfg \<Rightarrow> bleaf \<Rightarrow> bool" where
  "full_leaf c l \<longleftrightarrow> lf_key_at l (SIZE (bc_degree c) - 1) \<noteq> SENTINEL"

text \<open>A tree of height 0 is one leaf under the root.\<close>

definition only_leaf :: "bcfg \<Rightarrow> int \<Rightarrow> bool \<Rightarrow> 'r effect \<Rightarrow> broot \<Rightarrow> btree \<Rightarrow> bt_error + ('r outcome \<times> btree)" where
  "only_leaf c key modifiable eff rt t =
     (let p = r_start rt in
      then_do (read_leaf c p (if modifiable then WILL_NEED_ACQUIRE else IGNORE_LOCK) t) (\<lambda>leaf.
        if \<not> modifiable then Inr (Done None leaf, t)
        else case try_acquire_root (root_version rt) t of (got_root, t) \<Rightarrow>
          if \<not> got_root then Inr (Restart, t)
          else case try_acquire_leaf p (lf_version leaf) t of (got_leaf, t) \<Rightarrow>
            if \<not> got_leaf then Inr (Restart, release_root (root_version rt) t)
            else if full_leaf c leaf then Inr (Restart, split_root_leaf c rt p leaf t)
            else then_do (apply_effect c key eff leaf) (\<lambda>(r, updated).
              Inr (Done (Some r) leaf, store_leaf p (lf_increment_version updated) (release_root (root_version rt) t)))))"

text \<open>
  The root's child, about to be descended through by a writer: a full one is split and the
  traversal starts over (\<open>True\<close>), an empty one is cut out of the tree.
\<close>

definition split_at_root :: "bcfg \<Rightarrow> broot \<Rightarrow> ptr \<Rightarrow> bnode \<Rightarrow> btree \<Rightarrow> btree" where
  "split_at_root c rt p cur t =
     (case try_acquire_root (root_version rt) t of (got_root, t) \<Rightarrow>
        if \<not> got_root then t
        else case try_acquire_node p (bn_version cur) t of (got_node, t) \<Rightarrow>
          if \<not> got_node then release_root (root_version rt) t
          else split_root_node c rt p cur t)"

definition lower_root :: "broot \<Rightarrow> ptr \<Rightarrow> bnode \<Rightarrow> btree \<Rightarrow> btree" where
  "lower_root rt p cur t =
     (case try_acquire_root (root_version rt) t of (got_root, t) \<Rightarrow>
        if \<not> got_root then t
        else case try_acquire_node p (bn_version cur) t of (got_node, t) \<Rightarrow>
          if \<not> got_node then release_root (root_version rt) t
          else (let new_root = root_increment_version (rt\<lparr>r_height := r_height rt - 1, r_start := ptr_at cur 0\<rparr>);
                    t = release_node p (bn_version cur) (t\<lparr>bt_root := new_root\<rparr>)
                in bt_deallocate (p_unmark p) t))"

definition adjust_root :: "bcfg \<Rightarrow> bool \<Rightarrow> broot \<Rightarrow> ptr \<Rightarrow> bnode \<Rightarrow> btree \<Rightarrow> bool \<times> btree" where
  "adjust_root c modifiable rt p cur t =
     (if modifiable \<and> full_node c cur then (True, split_at_root c rt p cur t)
      else if modifiable \<and> bn_key_at cur 0 = SENTINEL then (False, lower_root rt p cur t)
      else (False, t))"

section \<open>Descending\<close>

text \<open>The child is full: split it under its parent, if both locks can be had.\<close>

definition split_child :: "bcfg \<Rightarrow> ptr \<Rightarrow> bnode \<Rightarrow> ptr \<Rightarrow> bnode \<Rightarrow> nat \<Rightarrow> btree \<Rightarrow> bt_error + btree" where
  "split_child c parent_p parent p cur level t =
     (case try_acquire_node parent_p (bn_version parent) t of (got_parent, t) \<Rightarrow>
        if \<not> got_parent then Inr t
        else case try_acquire_node p (bn_version cur) t of (got_curr, t) \<Rightarrow>
          if \<not> got_curr then Inr (release_node parent_p (bn_version parent) t)
          else split_inner_node c parent_p parent p cur level t)"

definition neighbor_bucket :: "nat \<Rightarrow> nat" where
  "neighbor_bucket bucket = (if bucket = 0 then 1 else bucket - 1)"

text \<open>The child is empty: merge it with a neighbour that has room. The result says whether it was.\<close>

definition merge_child :: "bcfg \<Rightarrow> ptr \<Rightarrow> bnode \<Rightarrow> ptr \<Rightarrow> bnode \<Rightarrow> nat \<Rightarrow> btree \<Rightarrow> bt_error + (bool \<times> btree)" where
  "merge_child c parent_p parent p cur bucket t =
     (let d = bc_degree c;
          merge_p = read_level d parent (Some (neighbor_bucket bucket)) in
      then_do (read_node c merge_p WILL_NEED_ACQUIRE t) (\<lambda>merging.
        if full_node c merging then Inr (False, t)
        else case try_acquire_node parent_p (bn_version parent) t of (got_parent, t) \<Rightarrow>
          if \<not> got_parent then Inr (False, t)
          else case try_acquire_node p (bn_version cur) t of (got_curr, t) \<Rightarrow>
            if \<not> got_curr then Inr (False, release_node parent_p (bn_version parent) t)
            else case try_acquire_node merge_p (bn_version merging) t of (got_merging, t) \<Rightarrow>
              if \<not> got_merging then
                Inr (False, release_node p (bn_version cur) (release_node parent_p (bn_version parent) t))
              else case merge_node d cur bucket merging (neighbor_bucket bucket) parent of
                (curr_gone, empty_node, merged_node, parent_of_merge) \<Rightarrow>
                  let t = bt_deallocate (p_unmark (if curr_gone then p else merge_p)) t;
                      t = store_node p (bn_increment_version empty_node) t;
                      t = store_node merge_p (bn_increment_version merged_node) t
                  in Inr (True, store_node parent_p (bn_increment_version parent_of_merge) t)))"

fun descend ::
  "nat \<Rightarrow> bcfg \<Rightarrow> int \<Rightarrow> bool \<Rightarrow> nat \<Rightarrow> nat \<Rightarrow> ptr \<Rightarrow> bnode \<Rightarrow> btree \<Rightarrow> bt_error + (ptr \<times> bnode \<times> btree)" where
  "descend 0 c key modifiable height level curr_p cur t = Inl Out_of_fuel"
| "descend (Suc fuel) c key modifiable height level curr_p cur t =
     (if height = 1 then Inr (curr_p, cur, t)
      else
        let d = bc_degree c;
            behavior = (if modifiable then LOOK_FOR_SPLIT_MERGE else IGNORE_LOCK);
            bucket = search_node d (bn_key_at cur) key;
            next_level = read_level d cur bucket;
            parent_p = curr_p; parent = cur in
        then_do (read_node c next_level behavior t) (\<lambda>cur.
          if modifiable \<and> full_node c cur then
            then_do (split_child c parent_p parent next_level cur level t) (\<lambda>t.
            then_do (read_node c parent_p behavior t) (\<lambda>cur.
              descend fuel c key modifiable height level parent_p cur t))
          else if modifiable \<and> bn_key_at cur 0 = SENTINEL \<and> bn_key_at parent 0 \<noteq> SENTINEL then
            (case bucket of
               None \<Rightarrow> Inl Index_out_of_bounds
             | Some bucket \<Rightarrow>
                 then_do (merge_child c parent_p parent next_level cur bucket t) (\<lambda>(merged, t).
                   if merged then
                     then_do (read_node c parent_p LOOK_FOR_SPLIT_MERGE t) (\<lambda>cur.
                       descend fuel c key modifiable height level parent_p cur t)
                   else descend fuel c key modifiable (height - 1) (level + 1) next_level cur t))
          else descend fuel c key modifiable (height - 1) (level + 1) next_level cur t))"

section \<open>At the leaf\<close>

definition update_leaf :: "bcfg \<Rightarrow> int \<Rightarrow> 'r effect \<Rightarrow> ptr \<Rightarrow> bleaf \<Rightarrow> btree \<Rightarrow> bt_error + ('r outcome \<times> btree)" where
  "update_leaf c key eff p leaf t =
     then_do (apply_effect c key eff leaf) (\<lambda>(r, updated).
       Inr (Done (Some r) leaf, store_leaf p (lf_increment_version updated) t))"

text \<open>The leaf is full: split it and apply the effect to the half the key belongs to.\<close>

definition split_and_update ::
  "bcfg \<Rightarrow> int \<Rightarrow> 'r effect \<Rightarrow> ptr \<Rightarrow> bnode \<Rightarrow> ptr \<Rightarrow> bleaf \<Rightarrow> btree \<Rightarrow> bt_error + ('r outcome \<times> btree)" where
  "split_and_update c key eff curr_p cur p leaf t =
     then_do (split_leaf c curr_p cur p leaf t) (\<lambda>(updated, t).
       let next_leaf = get_next updated in
       if \<not> lf_key_in_range updated key then
         (let t = store_leaf p updated t in
          then_do (read_leaf c next_leaf IGNORE_LOCK t) (\<lambda>next_local.
          then_do (apply_effect c key eff next_local) (\<lambda>(r, next_local).
            Inr (Done (Some r) leaf, store_leaf next_leaf (lf_increment_version next_local) t))))
       else
         (let t = release_leaf next_leaf 0 t in
          then_do (apply_effect c key eff updated) (\<lambda>(r, updated).
            Inr (Done (Some r) leaf, store_leaf p updated t))))"

text \<open>Lock the neighbour to merge with, unless it is full (\<open>None\<close>).\<close>

fun acquire_neighbor :: "nat \<Rightarrow> bcfg \<Rightarrow> ptr \<Rightarrow> btree \<Rightarrow> bt_error + (bleaf option \<times> btree)" where
  "acquire_neighbor 0 c p t = Inl Out_of_fuel"
| "acquire_neighbor (Suc fuel) c p t =
     then_do (read_leaf c p WILL_NEED_ACQUIRE t) (\<lambda>merging.
       if full_leaf c merging then Inr (None, t)
       else case try_acquire_leaf p (lf_version merging) t of (got, t) \<Rightarrow>
         if got then Inr (Some merging, t) else acquire_neighbor fuel c p t)"

text \<open>The leaf is empty and has a neighbour: apply the effect and merge the two.\<close>

definition merge_and_update ::
  "nat \<Rightarrow> bcfg \<Rightarrow> int \<Rightarrow> 'r effect \<Rightarrow> ptr \<Rightarrow> bnode \<Rightarrow> nat \<Rightarrow> ptr \<Rightarrow> bleaf \<Rightarrow> btree \<Rightarrow> bt_error + ('r outcome \<times> btree)" where
  "merge_and_update fuel c key eff curr_p cur bucket p leaf t =
     (let d = bc_degree c;
          merge_p = read_level d cur (Some (neighbor_bucket bucket)) in
      then_do (acquire_neighbor fuel c merge_p t) (\<lambda>(merging, t).
        case merging of
          None \<Rightarrow>
            then_do (update_leaf c key eff p leaf t) (\<lambda>(res, t).
              Inr (res, release_node curr_p (bn_version cur) t))
        | Some merging \<Rightarrow>
            (case eff leaf 0 of (r, empty_leaf) \<Rightarrow>
             case merge_leaf (bc_vs c) d empty_leaf bucket merging (neighbor_bucket bucket) cur of
               (leaf_gone, empty_leaf, merged_leaf, parent_of_merge) \<Rightarrow>
                 let t = bt_deallocate (p_unmark (if leaf_gone then p else merge_p)) t;
                     empty_leaf = lf_increment_version empty_leaf;
                     merged_leaf = lf_increment_version merged_leaf;
                     t = (if leaf_gone then store_leaf p empty_leaf (store_leaf merge_p merged_leaf t)
                          else store_leaf merge_p merged_leaf (store_leaf p empty_leaf t))
                 in Inr (Done (Some r) leaf, store_node curr_p (bn_increment_version parent_of_merge) t))))"

definition leaf_stage ::
  "nat \<Rightarrow> bcfg \<Rightarrow> int \<Rightarrow> bool \<Rightarrow> 'r effect \<Rightarrow> ptr \<Rightarrow> bnode \<Rightarrow> btree \<Rightarrow> bt_error + ('r outcome \<times> btree)" where
  "leaf_stage fuel c key modifiable eff curr_p cur t =
     (let d = bc_degree c;
          bucket = search_node d (bn_key_at cur) key;
          p = read_level d cur bucket in
      then_do (read_leaf c p (if modifiable then WILL_NEED_ACQUIRE else IGNORE_LOCK) t) (\<lambda>leaf.
        if \<not> lf_key_in_range leaf key then Inr (Retry, t)
        else if \<not> modifiable then Inr (Done None leaf, t)
        else case try_acquire_leaf p (lf_version leaf) t of (got_leaf, t) \<Rightarrow>
          if \<not> got_leaf then Inr (Retry, t)
          else if \<not> full_leaf c leaf \<and> (lf_key_at leaf 0 \<noteq> SENTINEL \<or> bn_key_at cur 0 = SENTINEL)
          then update_leaf c key eff p leaf t
          else case try_acquire_node curr_p (bn_version cur) t of (got_curr, t) \<Rightarrow>
            if \<not> got_curr then Inr (Retry, release_leaf p (lf_version leaf) t)
            else if full_leaf c leaf then split_and_update c key eff curr_p cur p leaf t
            else if lf_key_at leaf 0 = SENTINEL \<and> bn_key_at cur 0 \<noteq> SENTINEL then
              (case bucket of
                 None \<Rightarrow> Inl Index_out_of_bounds
               | Some bucket \<Rightarrow> merge_and_update fuel c key eff curr_p cur bucket p leaf t)
            else Inl Assertion_failed))"

section \<open>The traversal\<close>

definition traverse_once ::
  "nat \<Rightarrow> bcfg \<Rightarrow> int \<Rightarrow> bool \<Rightarrow> 'r effect \<Rightarrow> btree \<Rightarrow> bt_error + ('r outcome \<times> btree)" where
  "traverse_once fuel c key modifiable eff t =
     (let rt = bt_root t; next_level = r_start rt in
      if r_height rt = 0 then only_leaf c key modifiable eff rt t
      else
        then_do (read_node c next_level (if modifiable then LOOK_FOR_SPLIT_MERGE else IGNORE_LOCK) t) (\<lambda>cur.
          case adjust_root c modifiable rt next_level cur t of (again, t) \<Rightarrow>
            if again then Inr (Restart, t)
            else then_do (descend fuel c key modifiable (r_height rt) 1 next_level cur t) (\<lambda>(curr_p, cur, t).
              leaf_stage fuel c key modifiable eff curr_p cur t)))"

fun traverse ::
  "nat \<Rightarrow> bcfg \<Rightarrow> int \<Rightarrow> bool \<Rightarrow> 'r effect \<Rightarrow> nat \<Rightarrow> btree \<Rightarrow> bt_error + ('r option \<times> bleaf \<times> btree)" where
  "traverse 0 c key modifiable eff it_counter t = Inl Out_of_fuel"
| "traverse (Suc fuel) c key modifiable eff it_counter t =
     (if it_counter \<ge> 1000 then Inl Too_many_retries
      else then_do (traverse_once fuel c key modifiable eff t) (\<lambda>(res, t).
        case res of
          Done r leaf \<Rightarrow> Inr (r, leaf, t)
        | Restart \<Rightarrow> traverse fuel c key modifiable eff 0 t
        | Retry \<Rightarrow> traverse fuel c key modifiable eff (it_counter + 1) t))"

section \<open>The operations\<close>

text \<open>\<open>InitAsFirst\<close> aborts unless the size of a value divides a line.\<close>

definition bt_InitAsFirst :: "bcfg \<Rightarrow> btree option" where
  "bt_InitAsFirst c =
     (if \<not> value_sizes 40 (bc_vs c) (bc_hs c) then None
      else Some \<lparr>bt_root = \<lparr>r_lock = 0, r_height = 0, r_start = Some (0, False)\<rparr>, bt_nodes = Map.empty,
        bt_leaves = [0 \<mapsto> BLeaf (bc_vs c) (bc_hs c) (bc_degree c)], bt_fresh = 1, bt_freed = [], bt_lost = []\<rparr>)"

text \<open>The pointer to the root that \<open>InitAsFirst\<close> returns and \<open>InitFromPointer\<close> keeps is marked if roots are cached.\<close>

definition bt_InitFromPointer :: "bcfg \<Rightarrow> ptr \<Rightarrow> ptr" where
  "bt_InitFromPointer c root_ptr = p_cond_mark (bc_cache_depth c \<ge> 1) root_ptr"

text \<open>\<open>destroy\<close> frees the root where it is local, and with it the leaf of a tree of height 0.\<close>

definition bt_destroy :: "bool \<Rightarrow> (ptr \<Rightarrow> bool) \<Rightarrow> btree \<Rightarrow> btree" where
  "bt_destroy root_is_local is_local t =
     (if root_is_local \<and> r_height (bt_root t) = 0 \<and> is_local (r_start (bt_root t))
      then bt_deallocate (r_start (bt_root t)) t else t)"

definition bt_contains :: "nat \<Rightarrow> bcfg \<Rightarrow> btree \<Rightarrow> int \<Rightarrow> bt_error + (int option \<times> btree)" where
  "bt_contains fuel c t key =
     then_do (traverse fuel c key False (\<lambda>l _. ((), l)) 0 t) (\<lambda>(_, leaf, t).
       case search_node (bc_degree c) (lf_key_at leaf) key of
         None \<Rightarrow> Inl Index_out_of_bounds
       | Some bucket \<Rightarrow>
           Inr (if lf_key_at leaf bucket = key then Some (value_at (bc_vs c) leaf bucket) else None, t))"

definition prev_value :: "bt_error + (int option option \<times> bleaf \<times> btree) \<Rightarrow> bt_error + (int option \<times> btree)" where
  "prev_value x = then_do x (\<lambda>(r, _, t). Inr (case r of None \<Rightarrow> None | Some v \<Rightarrow> v, t))"

definition bt_insert :: "nat \<Rightarrow> bcfg \<Rightarrow> btree \<Rightarrow> int \<Rightarrow> int \<Rightarrow> bt_error + (int option \<times> btree)" where
  "bt_insert fuel c t key val =
     prev_value (traverse fuel c key True (insert_effect (bc_vs c) (bc_degree c) key val) 0 t)"

definition bt_remove :: "nat \<Rightarrow> bcfg \<Rightarrow> btree \<Rightarrow> int \<Rightarrow> bt_error + (int option \<times> btree)" where
  "bt_remove fuel c t key =
     prev_value (traverse fuel c key True (remove_effect (bc_vs c) (bc_degree c) key) 0 t)"

definition get_ok :: "bt_error + 'a \<Rightarrow> 'a option" where
  "get_ok x = (case x of Inl _ \<Rightarrow> None | Inr a \<Rightarrow> Some a)"

definition bt_populate :: "bcfg \<Rightarrow> (int \<Rightarrow> int) \<Rightarrow> nat \<Rightarrow> (nat \<times> int) list \<Rightarrow> btree \<Rightarrow> btree option" where
  "bt_populate c value op_count ks t =
     populate (\<lambda>fuel t key val. get_ok (bt_insert fuel c t key val)) value op_count ks t"

text \<open>\<open>count\<close>: the leaves from the leftmost one on.\<close>

fun count_leaves :: "nat \<Rightarrow> bcfg \<Rightarrow> btree \<Rightarrow> bleaf \<Rightarrow> nat \<Rightarrow> bt_error + nat" where
  "count_leaves 0 c t cur n = Inl Out_of_fuel"
| "count_leaves (Suc fuel) c t cur n =
     (let n = n + length (filter (\<lambda>i. lf_key_at cur i \<noteq> SENTINEL) [0 ..< SIZE (bc_degree c)]) in
      if get_next cur = None then Inr n
      else then_do (deref (get_next cur) (bt_leaves t)) (\<lambda>cur. count_leaves fuel c t cur n))"

definition bt_count :: "nat \<Rightarrow> bcfg \<Rightarrow> btree \<Rightarrow> bt_error + nat" where
  "bt_count fuel c t =
     then_do (traverse fuel c (INT_MIN + 1) False (\<lambda>l _. ((), l)) 0 t) (\<lambda>(_, cur, t). count_leaves fuel c t cur 0)"

section \<open>Checks of the whole tree\<close>

text \<open>\<open>check_bounds\<close>: \<open>Assertion_failed\<close> stands for the abort.\<close>

fun check_leaf_bounds :: "btree \<Rightarrow> ptr list \<Rightarrow> int \<Rightarrow> bt_error + unit" where
  "check_leaf_bounds t [] last_upper_bound = Inr ()"
| "check_leaf_bounds t (p # ps) last_upper_bound =
     (if p = None then check_leaf_bounds t ps last_upper_bound
      else then_do (deref p (bt_leaves t)) (\<lambda>leaf.
        if last_upper_bound \<noteq> hl_key_low (lf_last leaf) \<and> last_upper_bound \<noteq> INT_MIN then Inl Assertion_failed
        else check_leaf_bounds t ps (hl_key_high (lf_last leaf))))"

fun check_each :: "('a \<Rightarrow> bt_error + unit) \<Rightarrow> 'a list \<Rightarrow> bt_error + unit" where
  "check_each f [] = Inr ()"
| "check_each f (x # xs) = then_do (f x) (\<lambda>_. check_each f xs)"

lemma check_each_cong [fundef_cong]:
  "xs = ys \<Longrightarrow> (\<And>x. x \<in> set ys \<Longrightarrow> f x = g x) \<Longrightarrow> check_each f xs = check_each g ys"
  by (induction ys arbitrary: xs) auto

fun check_node_bounds :: "bcfg \<Rightarrow> btree \<Rightarrow> nat \<Rightarrow> bnode \<Rightarrow> bt_error + unit" where
  "check_node_bounds c t 0 n = Inl Null_pointer"
| "check_node_bounds c t (Suc h) n =
     (let ptrs = map (ptr_at n) [0 ..< SIZE (bc_degree c) + 1] in
      if h = 0 then check_leaf_bounds t ptrs INT_MIN
      else check_each (\<lambda>p. if p = None then Inr () else then_do (deref p (bt_nodes t)) (check_node_bounds c t h)) ptrs)"

definition check_bounds :: "bcfg \<Rightarrow> btree \<Rightarrow> bt_error + unit" where
  "check_bounds c t =
     (if r_height (bt_root t) = 0 then Inr ()
      else then_do (deref (r_start (bt_root t)) (bt_nodes t)) (check_node_bounds c t (r_height (bt_root t))))"

text \<open>\<open>is_valid\<close>: the reasons it reports, with the key they name; \<open>None\<close> is the empty string.\<close>

datatype reason =
  Key_high_is_not_next_key_low | Key_high_is_not_SENTINEL | Key_not_in_bounds_bleaf int | Not_sorted_in_bleaf int int
  | Duplicate_in_bleaf int | Key_not_in_bounds_bnode int | Not_sorted_in_bnode int int | Duplicate_in_bnode int
  | Bad_pointer

definition first_reason :: "reason option list \<Rightarrow> reason option" where
  "first_reason rs = (case List.find (\<lambda>r. r \<noteq> None) rs of None \<Rightarrow> None | Some r \<Rightarrow> r)"

definition keys_in_order :: "nat \<Rightarrow> (nat \<Rightarrow> int) \<Rightarrow> (int \<Rightarrow> int \<Rightarrow> reason) \<Rightarrow> (int \<Rightarrow> reason) \<Rightarrow> reason option" where
  "keys_in_order d key_at not_sorted duplicate = first_reason (map (\<lambda>i.
     if key_at i < key_at (i - 1) then Some (not_sorted (key_at i) (key_at (i - 1)))
     else if key_at i = key_at (i - 1) \<and> key_at i \<noteq> SENTINEL then Some (duplicate (key_at i))
     else None) [1 ..< SIZE d])"

definition leaf_is_valid :: "nat \<Rightarrow> btree \<Rightarrow> bleaf \<Rightarrow> int \<Rightarrow> int \<Rightarrow> reason option" where
  "leaf_is_valid d t l lower upper = first_reason [
     (case get_next l of
        None \<Rightarrow> if hl_key_high (lf_last l) \<noteq> SENTINEL then Some Key_high_is_not_SENTINEL else None
      | Some p \<Rightarrow> (case deref (Some p) (bt_leaves t) of
          Inl _ \<Rightarrow> Some Bad_pointer
        | Inr nx \<Rightarrow> if hl_key_high (lf_last l) \<noteq> hl_key_low (lf_last nx) then Some Key_high_is_not_next_key_low else None)),
     first_reason (map (\<lambda>i. let k = lf_key_at l i in
       if k \<noteq> SENTINEL \<and> (k \<le> lower \<or> k > upper) then Some (Key_not_in_bounds_bleaf k) else None) [0 ..< SIZE d]),
     keys_in_order d (lf_key_at l) Not_sorted_in_bleaf Duplicate_in_bleaf]"

fun is_valid :: "nat \<Rightarrow> btree \<Rightarrow> nat \<Rightarrow> ptr \<Rightarrow> int \<Rightarrow> int \<Rightarrow> reason option" where
  "is_valid d t 0 p lower upper = (case deref p (bt_leaves t) of
     Inl _ \<Rightarrow> Some Bad_pointer | Inr l \<Rightarrow> leaf_is_valid d t l lower upper)"
| "is_valid d t (Suc h) p lower upper = (case deref p (bt_nodes t) of
     Inl _ \<Rightarrow> Some Bad_pointer
   | Inr n \<Rightarrow> first_reason [
       first_reason (map (\<lambda>i. let k = bn_key_at n i in
         if k \<noteq> SENTINEL \<and> (k \<le> lower \<or> k \<ge> upper) then Some (Key_not_in_bounds_bnode k) else None) [0 ..< SIZE d]),
       keys_in_order d (bn_key_at n) Not_sorted_in_bnode Duplicate_in_bnode,
       first_reason (map (\<lambda>i.
         if ptr_at n i = None then None
         else (let low_key = (if i = 0 then lower else bn_key_at n (i - 1));
                   high_key = (if i = SIZE d then upper else bn_key_at n i);
                   high_key = (if high_key = SENTINEL then upper else high_key)
               in is_valid d t h (ptr_at n i) low_key high_key)) [0 ..< SIZE d + 1])])"

definition bt_valid :: "bcfg \<Rightarrow> btree \<Rightarrow> reason option" where
  "bt_valid c t = is_valid (bc_degree c) t (r_height (bt_root t)) (r_start (bt_root t)) INT_MIN SENTINEL"

end
