(* ===== verification/BTreeOpsProps.thy ===== *)
theory BTreeOpsProps
  imports BTreeOps
begin

text \<open>
  What the node operations do to the keys, values and pointers a node holds, as lists: the
  binary search is the reference's linear search, a split cuts the lists, a merge joins them,
  and the effects of insert and remove on a leaf are those of a map.
\<close>

section \<open>Loops over slots\<close>

context slots
begin

lemma fold_shift_up:
  assumes "shape x" "j \<le> n"
  shows "shape (fold (\<lambda>i x. put i (get x (i - 1)) x) (rev [k + 1 ..< j]) x) \<and>
     (\<forall>m < n. get (fold (\<lambda>i x. put i (get x (i - 1)) x) (rev [k + 1 ..< j]) x) m =
        (if k < m \<and> m < j then get x (m - 1) else get x m))"
  using assms
proof (induction j arbitrary: x)
  case 0
  then show ?case by simp
next
  case (Suc j)
  show ?case
  proof (cases "k + 1 \<le> j")
    case True
    have s: "shape (put j (get x (j - 1)) x)" using Suc.prems by (simp add: shape_put)
    from Suc.IH [OF this] Suc.prems True show ?thesis by (auto simp: get_put less_Suc_eq)
  qed (use Suc.prems in auto)
qed

lemma fold_shift_down:
  assumes "shape x" "j < n"
  shows "shape (fold (\<lambda>i x. put i (get x (i + 1)) x) [k ..< j] x) \<and>
     (\<forall>m < n. get (fold (\<lambda>i x. put i (get x (i + 1)) x) [k ..< j] x) m =
        (if k \<le> m \<and> m < j then get x (m + 1) else get x m))"
  using assms(2)
proof (induction j)
  case 0
  then show ?case using assms(1) by simp
next
  case (Suc j)
  show ?case
  proof (cases "k \<le> j")
    case True
    with Suc show ?thesis by (auto simp: shape_put get_put less_Suc_eq)
  qed (use assms(1) in auto)
qed

lemma view_shift_up:
  assumes "shape x" "k < n"
  shows "view (put k v (fold (\<lambda>i x. put i (get x (i - 1)) x) (rev [k + 1 ..< n]) x)) =
     take k (view x) @ v # drop k (butlast (view x))"
proof (rule nth_equalityI, goal_cases length elem)
  case length
  then show ?case using assms by simp
next
  case (elem m)
  then have m: "m < n" by simp
  from fold_shift_up [OF assms(1) order_refl, of k] assms(2) m show ?case
    by (auto simp: get_put nth_append nth_Cons' nth_butlast min_def)
qed

lemma view_shift_down:
  assumes "shape x" "k < n"
  shows "view (put (n - 1) v (fold (\<lambda>i x. put i (get x (i + 1)) x) [k ..< n - 1] x)) =
     take k (view x) @ drop (k + 1) (view x) @ [v]"
proof (rule nth_equalityI, goal_cases length elem)
  case length
  then show ?case using assms by simp
next
  case (elem m)
  then have m: "m < n" by simp
  from fold_shift_down [OF assms(1), of "n - 1" k] assms(2) m show ?case
    by (auto simp: get_put nth_append min_def)
qed

end

section \<open>Search\<close>

text \<open>The keys \<open>ks\<close>, strictly ascending, and then sentinels.\<close>

definition key_slots :: "nat \<Rightarrow> (nat \<Rightarrow> int) \<Rightarrow> int list \<Rightarrow> bool" where
  "key_slots d key_at ks \<longleftrightarrow> length ks \<le> SIZE d \<and> sorted_wrt (<) ks \<and> (\<forall>k \<in> set ks. k < SENTINEL) \<and>
     (\<forall>i < SIZE d. key_at i = (if i < length ks then ks ! i else SENTINEL))"

definition ordered :: "nat \<Rightarrow> (nat \<Rightarrow> int) \<Rightarrow> bool" where
  "ordered d key_at \<longleftrightarrow>
     (\<forall>i j. i < j \<and> j < SIZE d \<longrightarrow> key_at i < key_at j \<or> key_at i = SENTINEL \<and> key_at j = SENTINEL)"

lemma key_slots_ordered: "key_slots d key_at ks \<Longrightarrow> ordered d key_at"
  by (auto simp: key_slots_def ordered_def sorted_wrt_iff_nth_less)

lemma orderedD:
  "ordered d key_at \<Longrightarrow> i < j \<Longrightarrow> j < SIZE d \<Longrightarrow> key_at i < key_at j \<or> key_at i = SENTINEL \<and> key_at j = SENTINEL"
  by (auto simp: ordered_def)

lemma search_loop_spec:
  assumes "ordered d key_at"
    and "key < SENTINEL" and "low \<le> high" and "high < SIZE d" and "key \<le> key_at high"
    and "\<forall>i < low. key_at i < key"
  shows "search_loop key_at key low high \<le> high \<and> key \<le> key_at (search_loop key_at key low high) \<and>
     (\<forall>i < search_loop key_at key low high. key_at i < key)"
  using assms
proof (induction key_at key low high rule: search_loop.induct)
  case (1 key_at key low high)
  note sorted = orderedD [OF "1.prems"(1)]
  show ?case
  proof (cases "low < high")
    case False
    then have "search_loop key_at key low high = low"
      by (simp add: search_loop.simps [of key_at key low high])
    moreover have "low = high" using False "1.prems"(3) by simp
    ultimately have "low = high" "search_loop key_at key low high = low" by blast+
    with "1.prems" show ?thesis by simp
  next
    case True
    let ?mid = "(low + high) div 2"
    have mid: "low \<le> ?mid" "?mid < high" using True by auto
    consider (eq) "key = key_at ?mid" | (less) "key < key_at ?mid" | (greater) "key > key_at ?mid" by linarith
    then show ?thesis
    proof cases
      case eq
      have "key_at i < key" if "i < ?mid" for i
        using sorted [OF that] mid "1.prems"(2,4) eq by force
      moreover have "search_loop key_at key low high = ?mid"
        using True eq by (subst search_loop.simps) (simp add: Let_def)
      ultimately show ?thesis using mid eq by simp
    next
      case less
      have "search_loop key_at key low high = search_loop key_at key low ?mid"
        using True less by (subst search_loop.simps) (simp add: Let_def)
      with "1.IH"(1) [OF True refl _ less "1.prems"(1,2) mid(1) _ _ "1.prems"(6)] less mid "1.prems"(4)
      show ?thesis by auto
    next
      case greater
      have below: "key_at i < key" if "i < ?mid + 1" for i
        using sorted [of i ?mid] that mid "1.prems"(4) greater by (cases "i = ?mid") force+
      have "search_loop key_at key low high = search_loop key_at key (?mid + 1) high"
        using True greater by (subst search_loop.simps) (simp add: Let_def)
      with "1.IH"(2) [OF True refl _ _ "1.prems"(1,2) _ "1.prems"(4,5)] greater mid below
      show ?thesis by auto
    qed
  qed
qed

lemma find_upt_eq:
  assumes "r < n" "P r" "\<forall>i < r. \<not> P i"
  shows "List.find P [0 ..< n] = Some r"
  using assms by (auto simp: find_Some_iff intro!: exI [of _ r])

lemma search_node_spec:
  assumes "key_slots d key_at ks" "key < SENTINEL"
  shows "search_node d key_at key = search_ref d key_at key"
proof (cases "key > key_at (SIZE d - 1)")
  case True
  have "key_at i < key" if "i < SIZE d" for i
  proof (cases "i = SIZE d - 1")
    case False
    then have "i < SIZE d - 1" using that by simp
    from orderedD [OF key_slots_ordered [OF assms(1)] this] True assms(2) show ?thesis by force
  qed (use True in simp)
  then have "search_ref d key_at key = None" by (auto simp: search_ref_def find_None_iff not_le)
  with True show ?thesis by (simp add: search_node_def)
next
  case False
  have last: "SIZE d - 1 < SIZE d" by simp
  from search_loop_spec [OF key_slots_ordered [OF assms(1)] assms(2) _ last, where low = 0] False
  have r: "search_loop key_at key 0 (SIZE d - 1) \<le> SIZE d - 1"
    "key \<le> key_at (search_loop key_at key 0 (SIZE d - 1))"
    "\<forall>i < search_loop key_at key 0 (SIZE d - 1). key_at i < key" by auto
  have "search_ref d key_at key = Some (search_loop key_at key 0 (SIZE d - 1))"
    unfolding search_ref_def by (rule find_upt_eq) (use r le_less_trans [OF r(1) last] in \<open>auto simp: not_le\<close>)
  with False show ?thesis by (simp add: search_node_def)
qed

text \<open>Where the search ends, in terms of the keys.\<close>

definition rank :: "int \<Rightarrow> int list \<Rightarrow> nat" where
  "rank key ks = length (takeWhile (\<lambda>k. k < key) ks)"

lemma rank_le: "rank key ks \<le> length ks"
  by (simp add: rank_def length_takeWhile_le)

lemma rank_below: "i < rank key ks \<Longrightarrow> ks ! i < key"
  unfolding rank_def by (metis nth_mem set_takeWhileD takeWhile_nth)

lemma rank_above: "sorted_wrt (<) ks \<Longrightarrow> rank key ks \<le> i \<Longrightarrow> i < length ks \<Longrightarrow> key \<le> ks ! i"
proof -
  assume a: "sorted_wrt (<) ks" "rank key ks \<le> i" "i < length ks"
  then have "key \<le> ks ! rank key ks"
    using nth_length_takeWhile [of "\<lambda>k. k < key" ks] by (auto simp: rank_def not_less)
  also have "\<dots> \<le> ks ! i" using a by (cases "rank key ks = i") (auto simp: sorted_wrt_iff_nth_less less_imp_le)
  finally show ?thesis .
qed

lemma search_node_rank:
  assumes ks: "key_slots d key_at ks" and "key < SENTINEL" and "rank key ks < SIZE d"
  shows "search_node d key_at key = Some (rank key ks)"
proof -
  have K: "sorted_wrt (<) ks" "\<And>i. i < SIZE d \<Longrightarrow> key_at i = (if i < length ks then ks ! i else SENTINEL)"
    using ks by (auto simp: key_slots_def)
  have "search_ref d key_at key = Some (rank key ks)"
    unfolding search_ref_def
  proof (rule find_upt_eq [OF assms(3)])
    show "key \<le> key_at (rank key ks)"
      using K(2) [OF assms(3)] rank_above [OF K(1) order_refl] assms(2) by auto
    show "\<forall>i < rank key ks. \<not> key \<le> key_at i"
      using K(2) rank_below assms(3) rank_le [of key ks] by (auto simp: not_le)
  qed
  then show ?thesis by (simp add: search_node_spec [OF ks assms(2)])
qed

section \<open>Splits\<close>

lemma split_keys_loop:
  assumes "slots shape (SIZE d) key_at set_key" "shape full" "shape fresh" "m \<le> SIZE d"
    and "fold (split_keys_step d key_at set_key) [0 ..< m] (full, fresh) = (full', fresh')"
  shows "shape full' \<and> shape fresh' \<and>
     (\<forall>j < SIZE d. key_at full' j = (if d < j \<and> j < d + 1 + min m d then SENTINEL else key_at full j)) \<and>
     (\<forall>j < SIZE d. key_at fresh' j = (if j < m then if j < d then key_at full (d + j + 1) else SENTINEL else key_at fresh j))"
  using assms(4,5)
proof (induction m arbitrary: full' fresh')
  case 0
  then show ?case using assms(2,3) by simp
next
  case (Suc m)
  obtain f e where fe: "fold (split_keys_step d key_at set_key) [0 ..< m] (full, fresh) = (f, e)"
    by (cases "fold (split_keys_step d key_at set_key) [0 ..< m] (full, fresh)")
  have m: "m < SIZE d" using Suc.prems(1) by simp
  from Suc.IH [OF less_imp_le [OF m] fe] have I: "shape f" "shape e"
    "\<And>j. j < SIZE d \<Longrightarrow> key_at f j = (if d < j \<and> j < d + 1 + min m d then SENTINEL else key_at full j)"
    "\<And>j. j < SIZE d \<Longrightarrow> key_at e j = (if j < m then if j < d then key_at full (d + j + 1) else SENTINEL else key_at fresh j)"
    by blast+
  note L = slots.shape_put [OF assms(1)] slots.get_put [OF assms(1)]
  have n: "(full', fresh') = split_keys_step d key_at set_key m (f, e)"
    using Suc.prems(2) fe by simp
  show ?case
  proof (cases "m < d")
    case True
    then have i: "d + m + 1 < SIZE d" by (simp add: SIZE_def)
    have "full' = set_key (d + m + 1) SENTINEL f" "fresh' = set_key m (key_at full (d + m + 1)) e"
      using n True I(3) [OF i] by (simp_all add: split_keys_step_def)
    then show ?thesis using True i m I L by (auto simp: less_Suc_eq min_def)
  next
    case False
    then have "full' = f" "fresh' = set_key m SENTINEL e"
      using n by (simp_all add: split_keys_step_def)
    then show ?thesis using False m I L by (auto simp: less_Suc_eq min_def)
  qed
qed

lemma split_keys_slots:
  assumes S: "slots shape (SIZE d) key_at set_key" and f: "shape full" "shape fresh"
    and ks: "key_slots d (key_at full) ks" "length ks = SIZE d"
    and r: "split_keys d key_at set_key no_persist (full, fresh) = (ret, full', fresh')"
  shows "ret = ks ! d" "shape full'" "shape fresh'"
    "key_slots d (key_at full') (take (if no_persist then d else d + 1) ks)"
    "key_slots d (key_at fresh') (drop (d + 1) ks)"
proof -
  obtain f e where fe: "fold (split_keys_step d key_at set_key) [0 ..< SIZE d] (full, fresh) = (f, e)"
    by (cases "fold (split_keys_step d key_at set_key) [0 ..< SIZE d] (full, fresh)")
  note L = split_keys_loop [OF S f order_refl fe]
  have K: "sorted_wrt (<) ks" "\<And>k. k \<in> set ks \<Longrightarrow> k < SENTINEL" "\<And>i. i < SIZE d \<Longrightarrow> key_at full i = ks ! i"
    using ks by (auto simp: key_slots_def)
  have d: "d < SIZE d" "min (SIZE d) d = d" by (simp_all add: SIZE_def)
  have e: "ret = key_at full d" "full' = (if no_persist then set_key d SENTINEL f else f)" "fresh' = e"
    using r fe by (auto simp: split_keys_def)
  show "ret = ks ! d" using e(1) K(3) d(1) by simp
  show "shape full'" "shape fresh'" using e L slots.shape_put [OF S] d(1) by auto
  have "key_at full' j = (if j < (if no_persist then d else d + 1) then ks ! j else SENTINEL)" if "j < SIZE d" for j
    using that L e(2) K(3) d slots.get_put [OF S _ d(1) that] by (auto simp: SIZE_def)
  then show "key_slots d (key_at full') (take (if no_persist then d else d + 1) ks)"
    using K ks(2) d(1) by (auto simp: key_slots_def dest: in_set_takeD intro!: sorted_wrt_take)
  have "key_at fresh' j = (if j < d then ks ! (d + 1 + j) else SENTINEL)" if "j < SIZE d" for j
    using that L e(3) K(3) by (auto simp: SIZE_def)
  then show "key_slots d (key_at fresh') (drop (d + 1) ks)"
    using K ks(2) by (auto simp: key_slots_def SIZE_def dest: in_set_dropD intro!: sorted_wrt_drop)
qed

section \<open>The pairs of a leaf\<close>

definition leaf_pairs :: "nat \<Rightarrow> nat \<Rightarrow> 'a bleaf_scheme \<Rightarrow> (int \<times> int) list \<Rightarrow> bool" where
  "leaf_pairs vs d l ps \<longleftrightarrow>
     key_slots d (lf_key_at l) (map fst ps) \<and> (\<forall>i < length ps. value_at vs l i = snd (ps ! i))"

lemma map_of_insert_at:
  assumes "k \<notin> fst ` set ps"
  shows "map_of (take r ps @ (k, v) # drop r ps) = (map_of ps)(k \<mapsto> v)"
proof -
  have "map_of ps = map_of (take r ps @ drop r ps)" by simp
  then have "map_of ps = map_of (drop r ps) ++ map_of (take r ps)" by (simp only: map_of_append)
  moreover have "map_of (take r ps) k = None"
    using assms by (auto simp: map_of_eq_None_iff dest: in_set_takeD)
  ultimately show ?thesis by (auto simp: fun_eq_iff map_add_def split: option.split)
qed

lemma map_of_delete_at:
  assumes "distinct (map fst ps)" "r < length ps"
  shows "map_of (take r ps @ drop (r + 1) ps) = (map_of ps)(fst (ps ! r) := None)"
proof -
  have e: "ps = take r ps @ ps ! r # drop (r + 1) ps" using id_take_nth_drop [OF assms(2)] by simp
  have "map_of ps = map_of (take r ps @ ps ! r # drop (r + 1) ps)" using e by simp
  then have m: "map_of ps = (map_of (drop (r + 1) ps))(fst (ps ! r) \<mapsto> snd (ps ! r)) ++ map_of (take r ps)"
    by (cases "ps ! r") simp
  have "distinct (map fst (take r ps @ ps ! r # drop (r + 1) ps))" using e assms(1) by simp
  then have "fst (ps ! r) \<notin> fst ` set (take r ps)" "fst (ps ! r) \<notin> fst ` set (drop (r + 1) ps)" by auto
  then have "map_of (take r ps) (fst (ps ! r)) = None" "map_of (drop (r + 1) ps) (fst (ps ! r)) = None"
    by (simp_all add: map_of_eq_None_iff)
  then show ?thesis unfolding m
    by (auto simp: fun_eq_iff map_add_def split: option.split)
qed

lemma sorted_wrt_distinct: "sorted_wrt (<) ks \<Longrightarrow> distinct (ks :: int list)"
  by (induction ks) auto

lemma key_slots_distinct: "key_slots d key_at ks \<Longrightarrow> distinct ks"
  by (simp add: key_slots_def sorted_wrt_distinct)

text \<open>A key is in the list exactly if it is at its rank.\<close>

lemma rank_mem:
  assumes "sorted_wrt (<) ks"
  shows "key \<in> set ks \<longleftrightarrow> rank key ks < length ks \<and> ks ! rank key ks = key"
proof
  assume "key \<in> set ks"
  then obtain i where i: "i < length ks" "ks ! i = key" by (auto simp: in_set_conv_nth)
  have "\<not> i < rank key ks" using rank_below [of i key ks] i by auto
  then have r: "rank key ks < length ks" "rank key ks \<le> i" using i by auto
  have "key \<le> ks ! rank key ks" by (rule rank_above [OF assms order_refl r(1)])
  moreover have "rank key ks < i \<Longrightarrow> ks ! rank key ks < key" using assms i by (auto simp: sorted_wrt_iff_nth_less)
  ultimately have "rank key ks = i" using r(2) by force
  with i show "rank key ks < length ks \<and> ks ! rank key ks = key" by simp
qed (metis nth_mem)

lemma sorted_insert_at_rank:
  assumes "sorted_wrt (<) ks" "key \<notin> set ks"
  shows "sorted_wrt (<) (take (rank key ks) ks @ key # drop (rank key ks) ks)"
proof -
  have "x < key" if x: "x \<in> set (take (rank key ks) ks)" for x
    using x rank_below [of _ key ks] rank_le [of key ks] by (auto simp: in_set_conv_nth)
  moreover have "key < x" if x: "x \<in> set (drop (rank key ks) ks)" for x
  proof -
    from x obtain i where i: "i < length ks - rank key ks" "x = ks ! (rank key ks + i)"
      by (auto simp: in_set_conv_nth)
    then have "x \<in> set ks" "key \<le> x" using rank_above [OF assms(1), of key "rank key ks + i"] by auto
    with assms(2) show ?thesis by (cases "x = key") auto
  qed
  moreover have "x < y" if "x \<in> set (take (rank key ks) ks)" "y \<in> set (drop (rank key ks) ks)" for x y
    using calculation that by force
  ultimately show ?thesis
    using assms(1) by (auto simp: sorted_wrt_append sorted_wrt_take sorted_wrt_drop)
qed

lemma fold_set_value_other:
  "lf_key_at (fold (\<lambda>i l. set_value vs (f i) (g i l) l) is l) j = lf_key_at l j"
  "hl_key_low (lf_last (fold (\<lambda>i l. set_value vs (f i) (g i l) l) is l)) = hl_key_low (lf_last l)"
  "hl_key_high (lf_last (fold (\<lambda>i l. set_value vs (f i) (g i l) l) is l)) = hl_key_high (lf_last l)"
  "hl_next (lf_last (fold (\<lambda>i l. set_value vs (f i) (g i l) l) is l)) = hl_next (lf_last l)"
  by (induction "is" arbitrary: l) simp_all

lemma fold_set_key_other:
  "value_at vs (fold (\<lambda>i l. lf_set_key (f i) (g i l) l) is l) j = value_at vs l j"
  "lf_last (fold (\<lambda>i l. lf_set_key (f i) (g i l) l) is l) = lf_last l"
  by (induction "is" arbitrary: l) simp_all

text \<open>The pairs after opening slot \<open>b\<close> for a new one.\<close>

lemma nth_insert_at:
  assumes "b \<le> length ps"
  shows "(take b ps @ p # drop b ps) ! j = (if j < b then ps ! j else if j = b then p else ps ! (j - 1))"
  using assms by (auto simp: nth_append nth_Cons')

lemma nth_delete_at:
  assumes "b < length ps"
  shows "j + 1 < length ps \<Longrightarrow> (take b ps @ drop (b + 1) ps) ! j = (if j < b then ps ! j else ps ! (j + 1))"
  using assms by (auto simp: nth_append min_def)

lemma leaf_pairs_insert_at:
  assumes ps: "leaf_pairs vs d l ps" and room: "length ps < SIZE d" and key: "key < SENTINEL"
    and new: "key \<notin> fst ` set ps" and b: "b = rank key (map fst ps)"
    and k: "\<And>j. j < SIZE d \<Longrightarrow> lf_key_at l' j = (if j < b then lf_key_at l j else if j = b then key else lf_key_at l (j - 1))"
    and v: "\<And>j. j < SIZE d \<Longrightarrow> value_at vs l' j = (if j < b then value_at vs l j else if j = b then val else value_at vs l (j - 1))"
  shows "leaf_pairs vs d l' (take b ps @ (key, val) # drop b ps)"
proof -
  have K: "sorted_wrt (<) (map fst ps)" "\<And>x. x \<in> fst ` set ps \<Longrightarrow> x < SENTINEL"
    "\<And>i. i < SIZE d \<Longrightarrow> lf_key_at l i = (if i < length ps then fst (ps ! i) else SENTINEL)"
    "\<And>i. i < length ps \<Longrightarrow> value_at vs l i = snd (ps ! i)"
    using ps by (auto simp: leaf_pairs_def key_slots_def)
  have bl: "b \<le> length ps" using rank_le [of key "map fst ps"] b by simp
  have m: "map fst (take b ps @ (key, val) # drop b ps) = take b (map fst ps) @ key # drop b (map fst ps)"
    by (simp add: take_map drop_map)
  have "sorted_wrt (<) (map fst (take b ps @ (key, val) # drop b ps))"
    using sorted_insert_at_rank [OF K(1), of key] new b by (auto simp: take_map drop_map)
  moreover have "x < SENTINEL" if "x \<in> set (map fst (take b ps @ (key, val) # drop b ps))" for x
    using that key K(2) unfolding m by (auto dest!: in_set_takeD in_set_dropD)
  moreover have "lf_key_at l' i = (if i < length ps + 1 then fst ((take b ps @ (key, val) # drop b ps) ! i) else SENTINEL)"
    if "i < SIZE d" for i
    using that k [OF that] K(3) bl room by (auto simp: nth_insert_at)
  moreover have "value_at vs l' i = snd ((take b ps @ (key, val) # drop b ps) ! i)" if "i < length ps + 1" for i
    using that v [of i] K(4) bl room by (auto simp: nth_insert_at)
  ultimately show ?thesis using room bl unfolding leaf_pairs_def key_slots_def
    by (simp add: nth_map del: map_append)
qed

lemma leaf_insert_pairs:
  assumes S: "lf_shape vs hs d l" "0 < vs" "hs \<le> vs" and ps: "leaf_pairs vs d l ps"
    and room: "length ps < SIZE d" and key: "key < SENTINEL"
    and e: "insert_effect vs d key val l (rank key (map fst ps)) = (r, l')"
  shows "r = map_of ps key \<and> lf_shape vs hs d l' \<and>
     (\<exists>ps'. leaf_pairs vs d l' ps' \<and> map_of ps' = map_insert (map_of ps) key val \<and>
       length ps' \<le> length ps + 1 \<and> set (map fst ps') = insert key (set (map fst ps)))"
proof -
  let ?ks = "map fst ps" and ?b = "rank key (map fst ps)"
  have ks: "key_slots d (lf_key_at l) ?ks" and vals: "\<And>i. i < length ps \<Longrightarrow> value_at vs l i = snd (ps ! i)"
    using ps by (auto simp: leaf_pairs_def)
  have K: "sorted_wrt (<) ?ks" "\<And>k. k \<in> set ?ks \<Longrightarrow> k < SENTINEL"
    "\<And>i. i < SIZE d \<Longrightarrow> lf_key_at l i = (if i < length ps then fst (ps ! i) else SENTINEL)"
    using ks by (auto simp: key_slots_def)
  have b: "?b \<le> length ps" "?b < SIZE d" using rank_le [of key ?ks] room by simp_all
  have at_b: "lf_key_at l ?b = key \<longleftrightarrow> key \<in> set ?ks"
    using K(3) [OF b(2)] rank_mem [OF K(1), of key] key b(1) by (auto split: if_splits)
  show ?thesis
  proof (cases "key \<in> set ?ks")
    case True
    then have m: "?b < length ps" "fst (ps ! ?b) = key" using rank_mem [OF K(1), of key] by auto
    then have "map_of ps key = Some (snd (ps ! ?b))"
      using map_of_is_SomeI [OF key_slots_distinct [OF ks], of key "snd (ps ! ?b)"] nth_mem [OF m(1)]
      by (metis prod.collapse)
    moreover have "r = Some (value_at vs l ?b)" "l' = l" using e at_b True by (auto simp: insert_effect_def)
    ultimately show ?thesis using S ps True m vals by (auto intro!: exI [of _ ps])
  next
    case False
    note V = slots_values [OF S(2,3), of d]
    let ?l1 = "fold (\<lambda>i l. set_value vs i (value_at vs l (i - 1)) l) (rev [?b + 1 ..< SIZE d]) l"
    let ?l2 = "fold (\<lambda>i l. lf_set_key i (lf_key_at l (i - 1)) l) (rev [?b + 1 ..< SIZE d]) ?l1"
    have r: "r = None" "l' = set_value vs ?b val (lf_set_key ?b key ?l2)"
      using e at_b False by (simp_all add: insert_effect_def Let_def)
    from slots.fold_shift_up [OF V S(1) order_refl, of ?b]
    have v1: "lf_shape vs hs d ?l1"
      "\<And>j. j < SIZE d \<Longrightarrow> value_at vs ?l1 j = (if ?b < j then value_at vs l (j - 1) else value_at vs l j)" by auto
    from lk.fold_shift_up [OF v1(1) order_refl, of ?b]
    have k2: "lf_shape vs hs d ?l2"
      "\<And>j. j < SIZE d \<Longrightarrow> lf_key_at ?l2 j = (if ?b < j then lf_key_at l (j - 1) else lf_key_at l j)"
      by (auto simp: fold_set_value_other)
    have s3: "lf_shape vs hs d (lf_set_key ?b key ?l2)" by (rule lk.shape_put [OF k2(1) b(2)])
    have s: "lf_shape vs hs d l'" unfolding r(2) by (rule slots.shape_put [OF V s3 b(2)])
    have k: "lf_key_at l' j = (if j < ?b then lf_key_at l j else if j = ?b then key else lf_key_at l (j - 1))"
      if "j < SIZE d" for j
      using k2(2) [OF that] lk.get_put [OF k2(1) b(2) that] by (auto simp: r(2))
    have v: "value_at vs l' j = (if j < ?b then value_at vs l j else if j = ?b then val else value_at vs l (j - 1))"
      if "j < SIZE d" for j
      using v1(2) [OF that] slots.get_put [OF V s3 b(2) that] by (auto simp: r(2) fold_set_key_other)
    have new: "key \<notin> fst ` set ps" using False by simp
    note P = leaf_pairs_insert_at [OF ps room key new refl k v]
    have m: "map_of ps key = None" using new by (simp add: map_of_eq_None_iff)
    have "set (take ?b ps @ (key, val) # drop ?b ps) = insert (key, val) (set ps)"
      by (metis Un_insert_right append_take_drop_id list.simps(15) set_append)
    then have "set (map fst (take ?b ps @ (key, val) # drop ?b ps)) = insert key (set (map fst ps))"
      by (simp only: set_map image_insert fst_conv)
    then show ?thesis using s P m r(1) map_of_insert_at [OF new, of ?b val] b(1)
      by (intro conjI exI [of _ "take ?b ps @ (key, val) # drop ?b ps"]) simp_all
  qed
qed

text \<open>The shifting loop of \<open>remove\<close> moves keys and values together.\<close>

lemma fold_remove:
  assumes S: "lf_shape vs hs d l" "0 < vs" "hs \<le> vs" and "m \<le> SIZE d"
  shows "lf_shape vs hs d (fold (\<lambda>i l. set_value vs (i - 1) (value_at vs l i) (lf_set_key (i - 1) (lf_key_at l i) l)) [b + 1 ..< m] l) \<and>
    (\<forall>j < SIZE d.
      lf_key_at (fold (\<lambda>i l. set_value vs (i - 1) (value_at vs l i) (lf_set_key (i - 1) (lf_key_at l i) l)) [b + 1 ..< m] l) j =
        (if b \<le> j \<and> j + 1 < m then lf_key_at l (j + 1) else lf_key_at l j) \<and>
      value_at vs (fold (\<lambda>i l. set_value vs (i - 1) (value_at vs l i) (lf_set_key (i - 1) (lf_key_at l i) l)) [b + 1 ..< m] l) j =
        (if b \<le> j \<and> j + 1 < m then value_at vs l (j + 1) else value_at vs l j))"
  using assms(4)
proof (induction m)
  case 0
  then show ?case using S by simp
next
  case (Suc m)
  let ?f = "\<lambda>i l. set_value vs (i - 1) (value_at vs l i) (lf_set_key (i - 1) (lf_key_at l i) l)"
  show ?case
  proof (cases "b + 1 \<le> m")
    case False
    then show ?thesis using S by auto
  next
    case True
    let ?x = "fold ?f [b + 1 ..< m] l"
    have m: "m < SIZE d" "m - 1 < SIZE d" using Suc.prems by auto
    from Suc.IH Suc.prems have I: "lf_shape vs hs d ?x"
      "\<And>j. j < SIZE d \<Longrightarrow> lf_key_at ?x j = (if b \<le> j \<and> j + 1 < m then lf_key_at l (j + 1) else lf_key_at l j)"
      "\<And>j. j < SIZE d \<Longrightarrow> value_at vs ?x j = (if b \<le> j \<and> j + 1 < m then value_at vs l (j + 1) else value_at vs l j)"
      by auto
    have e: "fold ?f [b + 1 ..< Suc m] l = set_value vs (m - 1) (value_at vs ?x m) (lf_set_key (m - 1) (lf_key_at ?x m) ?x)"
      using True by simp
    note V = slots_values [OF S(2,3), of d]
    have s: "lf_shape vs hs d (lf_set_key (m - 1) (lf_key_at ?x m) ?x)" by (rule lk.shape_put [OF I(1) m(2)])
    show ?thesis unfolding e
    proof (intro conjI allI impI)
      show "lf_shape vs hs d (set_value vs (m - 1) (value_at vs ?x m) (lf_set_key (m - 1) (lf_key_at ?x m) ?x))"
        by (rule slots.shape_put [OF V s m(2)])
    next
      fix j assume j: "j < SIZE d"
      show "lf_key_at (set_value vs (m - 1) (value_at vs ?x m) (lf_set_key (m - 1) (lf_key_at ?x m) ?x)) j =
          (if b \<le> j \<and> j + 1 < Suc m then lf_key_at l (j + 1) else lf_key_at l j)"
        using lk.get_put [OF I(1) m(2) j] I(2) [OF j] I(2) [OF m(1)] True by auto
      show "value_at vs (set_value vs (m - 1) (value_at vs ?x m) (lf_set_key (m - 1) (lf_key_at ?x m) ?x)) j =
          (if b \<le> j \<and> j + 1 < Suc m then value_at vs l (j + 1) else value_at vs l j)"
        using slots.get_put [OF V s m(2) j] I(3) [OF j] I(3) [OF m(1)] True by auto
    qed
  qed
qed

lemma leaf_remove_pairs:
  assumes S: "lf_shape vs hs d l" "0 < vs" "hs \<le> vs" and ps: "leaf_pairs vs d l ps"
    and key: "key < SENTINEL" and b: "rank key (map fst ps) < SIZE d"
    and e: "remove_effect vs d key l (rank key (map fst ps)) = (r, l')"
  shows "r = map_of ps key \<and> lf_shape vs hs d l' \<and>
     (\<exists>ps'. leaf_pairs vs d l' ps' \<and> map_of ps' = (map_of ps)(key := None) \<and> length ps' \<le> length ps \<and>
        set (map fst ps') = set (map fst ps) - {key})"
proof -
  let ?ks = "map fst ps" and ?b = "rank key (map fst ps)"
  have ks: "key_slots d (lf_key_at l) ?ks" and vals: "\<And>i. i < length ps \<Longrightarrow> value_at vs l i = snd (ps ! i)"
    using ps by (auto simp: leaf_pairs_def)
  have K: "sorted_wrt (<) ?ks" "\<And>k. k \<in> set ?ks \<Longrightarrow> k < SENTINEL" "length ps \<le> SIZE d"
    "\<And>i. i < SIZE d \<Longrightarrow> lf_key_at l i = (if i < length ps then fst (ps ! i) else SENTINEL)"
    using ks by (auto simp: key_slots_def)
  have at_b: "lf_key_at l ?b = key \<longleftrightarrow> key \<in> set ?ks"
    using K(4) [OF b] rank_mem [OF K(1), of key] key rank_le [of key ?ks] by (auto split: if_splits)
  show ?thesis
  proof (cases "key \<in> set ?ks")
    case False
    then have "map_of ps key = None" "r = None" "l' = l"
      using e at_b by (auto simp: remove_effect_def map_of_eq_None_iff)
    with S ps False show ?thesis by (auto simp: fun_upd_idem intro!: exI [of _ ps])
  next
    case True
    then have m: "?b < length ps" "fst (ps ! ?b) = key" using rank_mem [OF K(1), of key] by auto
    let ?x = "fold (\<lambda>i l. set_value vs (i - 1) (value_at vs l i) (lf_set_key (i - 1) (lf_key_at l i) l)) [?b + 1 ..< SIZE d] l"
    have last: "SIZE d - 1 < SIZE d" by simp
    have r: "r = Some (value_at vs l ?b)" "l' = lf_set_key (SIZE d - 1) SENTINEL ?x"
      using e at_b True by (auto simp: remove_effect_def Let_def)
    note F = fold_remove [OF S order_refl, of ?b]
    have s: "lf_shape vs hs d l'" unfolding r(2) using lk.shape_put [OF conjunct1 [OF F] last] .
    have k: "lf_key_at l' j = (if j < ?b then lf_key_at l j else if j = SIZE d - 1 then SENTINEL else lf_key_at l (j + 1))"
      if "j < SIZE d" for j
      using F lk.get_put [OF conjunct1 [OF F] last that] that b by (auto simp: r(2))
    have v: "value_at vs l' j = (if j < ?b then value_at vs l j else if j = SIZE d - 1 then value_at vs l j else value_at vs l (j + 1))"
      if "j < SIZE d" for j
      using F that by (auto simp: r(2))
    let ?ps = "take ?b ps @ drop (?b + 1) ps"
    have mf: "map fst ?ps = take ?b ?ks @ drop (?b + 1) ?ks" by (simp add: take_map drop_map)
    have len: "length ?ps = length ps - 1" using m(1) by simp
    have e: "?ks = take ?b ?ks @ ?ks ! ?b # drop (?b + 1) ?ks" using id_take_nth_drop [of ?b ?ks] m(1) by simp
    have "sorted_wrt (<) (take ?b ?ks @ ?ks ! ?b # drop (?b + 1) ?ks)" using K(1) e by simp
    then have sorted: "sorted_wrt (<) (map fst ?ps)" unfolding mf by (auto simp: sorted_wrt_append)
    have "leaf_pairs vs d l' ?ps"
      unfolding leaf_pairs_def key_slots_def
    proof (intro conjI ballI allI impI)
      show "length (map fst ?ps) \<le> SIZE d" using len K(3) by simp
      show "sorted_wrt (<) (map fst ?ps)" by (rule sorted)
    next
      fix x assume "x \<in> set (map fst ?ps)"
      then show "x < SENTINEL" using K(2) unfolding mf by (auto dest!: in_set_takeD in_set_dropD)
    next
      fix i assume i: "i < SIZE d"
      show "lf_key_at l' i = (if i < length (map fst ?ps) then map fst ?ps ! i else SENTINEL)"
        using k [OF i] K(3,4) i m(1) len nth_delete_at [OF m(1), of i] nth_map [of i ?ps fst]
        by (auto simp del: map_append)
    next
      fix i assume i: "i < length ?ps"
      then show "value_at vs l' i = snd (?ps ! i)"
        using v [of i] vals K(3) m(1) len nth_delete_at [OF m(1), of i] by auto
    qed
    moreover have "map_of ?ps = (map_of ps)(key := None)"
      using map_of_delete_at [OF key_slots_distinct [OF ks] m(1)] m(2) by simp
    moreover have "set (map fst ?ps) = set ?ks - {key}"
      using arg_cong [OF e, of distinct] key_slots_distinct [OF ks] arg_cong [OF e, of set] m unfolding mf by auto
    moreover have "map_of ps key = Some (snd (ps ! ?b))"
      using map_of_is_SomeI [OF key_slots_distinct [OF ks], of key "snd (ps ! ?b)"] nth_mem [OF m(1)] m(2)
      by (metis prod.collapse)
    ultimately show ?thesis using s r(1) vals [OF m(1)] len by (intro conjI exI [of _ ?ps]) simp_all
  qed
qed

section \<open>Splitting a leaf\<close>

lemma split_values_loop:
  assumes S: "0 < vs" "hs \<le> vs" "lf_shape vs hs d full" "lf_shape vs hs d fresh" and "m \<le> SIZE d"
    and "fold (split_values_step vs d) [0 ..< m] (full, fresh) = (full', fresh')"
  shows "lf_shape vs hs d full' \<and> lf_shape vs hs d fresh' \<and>
     (\<forall>j. lf_key_at full' j = lf_key_at full j \<and> lf_key_at fresh' j = lf_key_at fresh j) \<and>
     (\<forall>j < SIZE d. value_at vs full' j = (if d < j \<and> j < d + 1 + min m d then SENTINEL else value_at vs full j)) \<and>
     (\<forall>j < SIZE d. value_at vs fresh' j =
        (if j < m then if j < d then value_at vs full (d + j + 1) else SENTINEL else value_at vs fresh j))"
  using assms(5,6)
proof (induction m arbitrary: full' fresh')
  case 0
  then show ?case using S by simp
next
  case (Suc m)
  obtain f e where fe: "fold (split_values_step vs d) [0 ..< m] (full, fresh) = (f, e)"
    by (cases "fold (split_values_step vs d) [0 ..< m] (full, fresh)")
  have m: "m < SIZE d" using Suc.prems(1) by simp
  from Suc.IH [OF less_imp_le [OF m] fe] have I: "lf_shape vs hs d f" "lf_shape vs hs d e"
    "\<And>j. lf_key_at f j = lf_key_at full j" "\<And>j. lf_key_at e j = lf_key_at fresh j"
    "\<And>j. j < SIZE d \<Longrightarrow> value_at vs f j = (if d < j \<and> j < d + 1 + min m d then SENTINEL else value_at vs full j)"
    "\<And>j. j < SIZE d \<Longrightarrow> value_at vs e j =
       (if j < m then if j < d then value_at vs full (d + j + 1) else SENTINEL else value_at vs fresh j)"
    by blast+
  note L = slots.shape_put [OF slots_values [OF S(1,2), of d]] slots.get_put [OF slots_values [OF S(1,2), of d]]
  have n: "(full', fresh') = split_values_step vs d m (f, e)"
    using Suc.prems(2) fe by simp
  show ?case
  proof (cases "m < d")
    case True
    then have i: "d + m + 1 < SIZE d" by (simp add: SIZE_def)
    have "full' = set_value vs (d + m + 1) SENTINEL f" "fresh' = set_value vs m (value_at vs full (d + m + 1)) e"
      using n True I(5) [OF i] by (simp_all add: split_values_step_def)
    with True L(1) [OF I(1) i] L(1) [OF I(2) m] L(2) [OF I(1) i] L(2) [OF I(2) m] I(3-)
    show ?thesis by (auto simp: less_Suc_eq min_def)
  next
    case False
    then have "full' = f" "fresh' = set_value vs m SENTINEL e"
      using n by (simp_all add: split_values_step_def)
    with False L(1) [OF I(2) m] L(2) [OF I(2) m] I
    show ?thesis by (auto simp: less_Suc_eq min_def)
  qed
qed

lemma split_leaf_pairs:
  assumes S: "0 < vs" "hs \<le> vs" "lf_shape vs hs d full" "lf_shape vs hs d fresh"
    and ps: "leaf_pairs vs d full ps" "length ps = SIZE d"
    and k: "split_keys d lf_key_at lf_set_key False (full, fresh) = (ret, full1, fresh1)"
    and v: "split_values vs d (full1, fresh1) = (full2, fresh2)"
  shows "ret = fst (ps ! d)" "lf_shape vs hs d full2" "lf_shape vs hs d fresh2"
    "leaf_pairs vs d full2 (take (d + 1) ps)" "leaf_pairs vs d fresh2 (drop (d + 1) ps)"
proof -
  have ks: "key_slots d (lf_key_at full) (map fst ps)" "length (map fst ps) = SIZE d"
    and vals: "\<And>i. i < SIZE d \<Longrightarrow> value_at vs full i = snd (ps ! i)"
    using ps by (auto simp: leaf_pairs_def)
  note K = split_keys_slots [OF lk.slots_axioms S(3,4) ks k]
  have kv: "value_at vs full1 j = value_at vs full j" "value_at vs fresh1 j = value_at vs fresh j" for j
  proof -
    have "value_at vs (fst (fold (split_keys_step d lf_key_at lf_set_key) is fe)) j = value_at vs (fst fe) j \<and>
      value_at vs (snd (fold (split_keys_step d lf_key_at lf_set_key) is fe)) j = value_at vs (snd fe) j"
      for "is" and fe :: "'a bleaf_scheme \<times> 'a bleaf_scheme"
      by (induction "is" arbitrary: fe) (auto simp: split_keys_step_def split: prod.split)
    from this [of "[0 ..< SIZE d]" "(full, fresh)"] k show "value_at vs full1 j = value_at vs full j"
      "value_at vs fresh1 j = value_at vs fresh j"
      by (auto simp: split_keys_def split: prod.splits)
  qed
  note V = split_values_loop [OF S(1,2) K(2,3) order_refl v [unfolded split_values_def]]
  show "ret = fst (ps ! d)" using K(1) ps(2) by (simp add: SIZE_def)
  show "lf_shape vs hs d full2" "lf_shape vs hs d fresh2" using V by auto
  have d: "d + 1 \<le> SIZE d" "min (SIZE d) d = d" by (simp_all add: SIZE_def)
  have f: "lf_key_at full2 = lf_key_at full1" "lf_key_at fresh2 = lf_key_at fresh1"
    using V by (simp_all add: fun_eq_iff)
  show "leaf_pairs vs d full2 (take (d + 1) ps)"
    unfolding leaf_pairs_def f
    using K(4) V vals kv(1) ps(2) d by (auto simp: take_map SIZE_def)
  show "leaf_pairs vs d fresh2 (drop (d + 1) ps)"
    unfolding leaf_pairs_def f
    using K(5) V vals kv(1) ps(2) d by (auto simp: drop_map SIZE_def)
qed

end
