(* ===== verification/BTreeNodeProps.thy ===== *)
theory BTreeNodeProps
  imports BTreeOpsProps
begin

text \<open>
  The same for inner nodes: the keys and child pointers of a node as two lists, and what
  opening a slot, closing one, splitting and merging do to them; and the merge of two leaves.
\<close>

section \<open>The keys and children of a node\<close>

definition node_slots :: "nat \<Rightarrow> 'a bnode_scheme \<Rightarrow> int list \<Rightarrow> ptr list \<Rightarrow> bool" where
  "node_slots d n ks ps \<longleftrightarrow> key_slots d (bn_key_at n) ks \<and> length ps = length ks + 1 \<and>
     (\<forall>i < SIZE d + 1. ptr_at n i = (if i < length ps then ps ! i else None))"

lemma node_slotsD:
  assumes "node_slots d n ks ps"
  shows "sorted_wrt (<) ks" "k \<in> set ks \<Longrightarrow> k < SENTINEL" "length ks \<le> SIZE d" "length ps = length ks + 1"
    "i < SIZE d \<Longrightarrow> bn_key_at n i = (if i < length ks then ks ! i else SENTINEL)"
    "i < SIZE d + 1 \<Longrightarrow> ptr_at n i = (if i < length ps then ps ! i else None)"
  using assms by (auto simp: node_slots_def key_slots_def)

lemma fold_bn_key_ptr:
  "ptr_at (fold (\<lambda>i n. bn_set_key (f i) (g i n) n) is n) j = ptr_at n j"
  "bn_key_at (fold (\<lambda>i n. set_ptr (f i) (g' i n) n) is n) j = bn_key_at n j"
  by (induction "is" arbitrary: n) simp_all

text \<open>A new key and the child right of it.\<close>

lemma node_open_slot:
  assumes S: "bn_shape d n" and N: "node_slots d n ks ps"
    and b: "b = rank key ks" and "length ks < SIZE d" "key \<notin> set ks" "key < SENTINEL"
  shows "bn_shape d (set_ptr (b + 1) p (bn_set_key b key (shift_up d b n)))"
    and "node_slots d (set_ptr (b + 1) p (bn_set_key b key (shift_up d b n)))
       (take b ks @ key # drop b ks) (take (b + 1) ps @ p # drop (b + 1) ps)"
proof -
  note D = node_slotsD [OF N]
  have bl: "b \<le> length ks" "b < SIZE d" using rank_le [of key ks] b assms(4) by simp_all
  let ?k = "fold (\<lambda>i n. bn_set_key i (bn_key_at n (i - 1)) n) (rev [b + 1 ..< SIZE d]) n"
  let ?p = "fold (\<lambda>i n. set_ptr i (ptr_at n (i - 1)) n) (rev [b + 1 + 1 ..< SIZE d + 1]) ?k"
  let ?r = "set_ptr (b + 1) p (bn_set_key b key (shift_up d b n))"
  have up: "shift_up d b n = ?p" by (simp add: shift_up_def)
  from bk.fold_shift_up [OF S order_refl, of b] have k: "bn_shape d ?k"
    "\<And>j. j < SIZE d \<Longrightarrow> bn_key_at ?k j = (if b < j then bn_key_at n (j - 1) else bn_key_at n j)" by auto
  from bp.fold_shift_up [OF k(1) order_refl, of "b + 1"] have q: "bn_shape d ?p"
    "\<And>j. j < SIZE d + 1 \<Longrightarrow> ptr_at ?p j = (if b + 1 < j then ptr_at n (j - 1) else ptr_at n j)"
    by (auto simp: fold_bn_key_ptr)
  have s: "bn_shape d (bn_set_key b key ?p)" by (rule bk.shape_put [OF q(1) bl(2)])
  have b1: "b + 1 < SIZE d + 1" using bl(2) by simp
  show "bn_shape d ?r" unfolding up by (rule bp.shape_put [OF s b1])
  have keys: "bn_key_at ?r j = (if j < b then bn_key_at n j else if j = b then key else bn_key_at n (j - 1))"
    if "j < SIZE d" for j
    using bk.get_put [OF q(1) bl(2) that] k(2) [OF that] by (auto simp: up fold_bn_key_ptr)
  have ptrs: "ptr_at ?r j = (if j < b + 1 then ptr_at n j else if j = b + 1 then p else ptr_at n (j - 1))"
    if "j < SIZE d + 1" for j
    using bp.get_put [OF s b1 that] q(2) [OF that] by (auto simp: up)
  show "node_slots d ?r (take b ks @ key # drop b ks) (take (b + 1) ps @ p # drop (b + 1) ps)"
    unfolding node_slots_def key_slots_def
  proof (intro conjI ballI allI impI)
    show "length (take b ks @ key # drop b ks) \<le> SIZE d" using assms(4) bl by simp
    show "sorted_wrt (<) (take b ks @ key # drop b ks)" unfolding b by (rule sorted_insert_at_rank [OF D(1) assms(5)])
    show "length (take (b + 1) ps @ p # drop (b + 1) ps) = length (take b ks @ key # drop b ks) + 1"
      using D(4) bl by simp
  next
    fix x assume "x \<in> set (take b ks @ key # drop b ks)"
    then show "x < SENTINEL" using D(2) assms(6) by (auto dest: in_set_takeD in_set_dropD)
  next
    fix i assume i: "i < SIZE d"
    show "bn_key_at ?r i = (if i < length (take b ks @ key # drop b ks) then (take b ks @ key # drop b ks) ! i else SENTINEL)"
      using keys [OF i] D(5) bl i assms(4) by (auto simp: nth_insert_at)
  next
    fix i assume i: "i < SIZE d + 1"
    show "ptr_at ?r i = (if i < length (take (b + 1) ps @ p # drop (b + 1) ps)
        then (take (b + 1) ps @ p # drop (b + 1) ps) ! i else None)"
      using ptrs [OF i] D(4,6) bl i assms(4) nth_insert_at [of "b + 1" ps p i] by (auto simp del: append_take_drop_id)
  qed
qed

text \<open>Closing the slot of a key and the child right of it.\<close>

lemma node_close_slot:
  assumes S: "bn_shape d n" and N: "node_slots d n ks ps" and b: "b < length ks"
    and r: "shift_down d b n = (k, n')"
  shows "k = ks ! b" "bn_shape d n'"
    "node_slots d n' (take b ks @ drop (b + 1) ks) (take (b + 1) ps @ drop (b + 2) ps)"
proof -
  note D = node_slotsD [OF N]
  have last: "SIZE d - 1 < SIZE d" "SIZE d < SIZE d + 1" by simp_all
  let ?k1 = "fold (\<lambda>i n. bn_set_key i (bn_key_at n (i + 1)) n) [b ..< SIZE d - 1] n"
  let ?k2 = "bn_set_key (SIZE d - 1) SENTINEL ?k1"
  let ?p1 = "fold (\<lambda>i n. set_ptr i (ptr_at n (i + 1)) n) [b + 1 ..< SIZE d] ?k2"
  have e: "k = bn_key_at n b" "n' = set_ptr (SIZE d) None ?p1" using r by (simp_all add: shift_down_def Let_def)
  show "k = ks ! b" using e(1) D(3,5) b by simp
  from bk.fold_shift_down [OF S last(1), of b] have k1: "bn_shape d ?k1"
    "\<And>j. j < SIZE d \<Longrightarrow> bn_key_at ?k1 j = (if b \<le> j \<and> j < SIZE d - 1 then bn_key_at n (j + 1) else bn_key_at n j)" by auto
  have k2: "bn_shape d ?k2" by (rule bk.shape_put [OF k1(1) last(1)])
  from bp.fold_shift_down [OF k2 last(2), of "b + 1"] have p1: "bn_shape d ?p1"
    "\<And>j. j < SIZE d + 1 \<Longrightarrow> ptr_at ?p1 j = (if b + 1 \<le> j \<and> j < SIZE d then ptr_at n (j + 1) else ptr_at n j)"
    by (auto simp: fold_bn_key_ptr)
  show "bn_shape d n'" unfolding e(2) by (rule bp.shape_put [OF p1(1) last(2)])
  have keys: "bn_key_at n' j = (if j < b then bn_key_at n j else if j = SIZE d - 1 then SENTINEL else bn_key_at n (j + 1))"
    if "j < SIZE d" for j
    using bk.get_put [OF k1(1) last(1) that] k1(2) [OF that] that b D(3) by (auto simp: e(2) fold_bn_key_ptr)
  have ptrs: "ptr_at n' j = (if j < b + 1 then ptr_at n j else if j = SIZE d then None else ptr_at n (j + 1))"
    if "j < SIZE d + 1" for j
    using bp.get_put [OF p1(1) last(2) that] p1(2) [OF that] that b D(3) by (auto simp: e(2))
  have ks: "ks = take b ks @ ks ! b # drop (b + 1) ks" using id_take_nth_drop [OF b] by simp
  show "node_slots d n' (take b ks @ drop (b + 1) ks) (take (b + 1) ps @ drop (b + 2) ps)"
    unfolding node_slots_def key_slots_def
  proof (intro conjI ballI allI impI)
    show "length (take b ks @ drop (b + 1) ks) \<le> SIZE d" using D(3) b by simp
    have "sorted_wrt (<) (take b ks @ ks ! b # drop (b + 1) ks)" using D(1) ks by simp
    then show "sorted_wrt (<) (take b ks @ drop (b + 1) ks)" by (auto simp: sorted_wrt_append)
    show "length (take (b + 1) ps @ drop (b + 2) ps) = length (take b ks @ drop (b + 1) ks) + 1"
      using D(4) b by simp
  next
    fix x assume "x \<in> set (take b ks @ drop (b + 1) ks)"
    then show "x < SENTINEL" using D(2) by (auto dest: in_set_takeD in_set_dropD)
  next
    fix i assume i: "i < SIZE d"
    show "bn_key_at n' i = (if i < length (take b ks @ drop (b + 1) ks) then (take b ks @ drop (b + 1) ks) ! i else SENTINEL)"
      using keys [OF i] D(3,5) b i nth_delete_at [OF b, of i] by auto
  next
    fix i assume i: "i < SIZE d + 1"
    have b': "b + 1 < length ps" using D(4) b by simp
    show "ptr_at n' i = (if i < length (take (b + 1) ps @ drop (b + 2) ps)
        then (take (b + 1) ps @ drop (b + 2) ps) ! i else None)"
      using ptrs [OF i] D(3,4,6) b i nth_delete_at [OF b', of i] by auto
  qed
qed

section \<open>Splitting a node\<close>

lemma split_ptrs_loop:
  assumes S: "bn_shape d full" "bn_shape d fresh" and "m \<le> SIZE d + 1"
    and "fold (split_ptrs_step d) [0 ..< m] (full, fresh) = (full', fresh')"
  shows "bn_shape d full' \<and> bn_shape d fresh' \<and>
     (\<forall>j. bn_key_at full' j = bn_key_at full j \<and> bn_key_at fresh' j = bn_key_at fresh j) \<and>
     (\<forall>j < SIZE d + 1. ptr_at full' j = (if d < j \<and> j < d + 1 + min m (d + 1) then None else ptr_at full j)) \<and>
     (\<forall>j < SIZE d + 1. ptr_at fresh' j =
        (if j < m then if j \<le> d then ptr_at full (d + j + 1) else None else ptr_at fresh j))"
  using assms(3,4)
proof (induction m arbitrary: full' fresh')
  case 0
  then show ?case using S by auto
next
  case (Suc m)
  obtain f e where fe: "fold (split_ptrs_step d) [0 ..< m] (full, fresh) = (f, e)"
    by (cases "fold (split_ptrs_step d) [0 ..< m] (full, fresh)")
  have m: "m < SIZE d + 1" using Suc.prems(1) by simp
  from Suc.IH [OF less_imp_le [OF m] fe] have I: "bn_shape d f" "bn_shape d e"
    "\<And>j. bn_key_at f j = bn_key_at full j" "\<And>j. bn_key_at e j = bn_key_at fresh j"
    "\<And>j. j < SIZE d + 1 \<Longrightarrow> ptr_at f j = (if d < j \<and> j < d + 1 + min m (d + 1) then None else ptr_at full j)"
    "\<And>j. j < SIZE d + 1 \<Longrightarrow> ptr_at e j =
       (if j < m then if j \<le> d then ptr_at full (d + j + 1) else None else ptr_at fresh j)"
    by blast+
  have n: "(full', fresh') = split_ptrs_step d m (f, e)" using Suc.prems(2) fe by simp
  show ?case
  proof (cases "m \<le> d")
    case True
    then have i: "d + m + 1 < SIZE d + 1" by (simp add: SIZE_def)
    have "full' = set_ptr (d + m + 1) None f" "fresh' = set_ptr m (ptr_at full (d + m + 1)) e"
      using n True I(5) [OF i] by (simp_all add: split_ptrs_step_def)
    with True bp.shape_put [OF I(1) i] bp.shape_put [OF I(2) m] bp.get_put [OF I(1) i] bp.get_put [OF I(2) m] I(3-)
    show ?thesis by (auto simp: less_Suc_eq min_def)
  next
    case False
    then have "full' = f" "fresh' = set_ptr m None e"
      using n by (simp_all add: split_ptrs_step_def)
    with False bp.shape_put [OF I(2) m] bp.get_put [OF I(2) m] I
    show ?thesis by (auto simp: less_Suc_eq min_def)
  qed
qed

lemma split_keys_ptrs:
  "split_keys d bn_key_at bn_set_key np (full, fresh) = (ret, full', fresh') \<Longrightarrow>
   ptr_at full' j = ptr_at full j \<and> ptr_at fresh' j = ptr_at fresh j"
proof -
  have "ptr_at (fst (fold (split_keys_step d bn_key_at bn_set_key) is fe)) j = ptr_at (fst fe) j \<and>
      ptr_at (snd (fold (split_keys_step d bn_key_at bn_set_key) is fe)) j = ptr_at (snd fe) j"
    for "is" and fe :: "'a bnode_scheme \<times> 'a bnode_scheme"
    by (induction "is" arbitrary: fe) (auto simp: split_keys_step_def split: prod.split)
  from this [of "[0 ..< SIZE d]" "(full, fresh)"]
  show "split_keys d bn_key_at bn_set_key np (full, fresh) = (ret, full', fresh') \<Longrightarrow>
    ptr_at full' j = ptr_at full j \<and> ptr_at fresh' j = ptr_at fresh j"
    by (auto simp: split_keys_def split: prod.splits)
qed

lemma split_node_slots:
  assumes S: "bn_shape d full" "bn_shape d fresh" and N: "node_slots d full ks ps" "length ks = SIZE d"
    and k: "split_keys d bn_key_at bn_set_key True (full, fresh) = (ret, full1, fresh1)"
    and q: "split_ptrs d (full1, fresh1) = (full2, fresh2)"
  shows "ret = ks ! d" "bn_shape d full2" "bn_shape d fresh2"
    "node_slots d full2 (take d ks) (take (d + 1) ps)" "node_slots d fresh2 (drop (d + 1) ks) (drop (d + 1) ps)"
proof -
  have ks: "key_slots d (bn_key_at full) ks" using N(1) by (simp add: node_slots_def)
  note D = node_slotsD [OF N(1)]
  note K = split_keys_slots [OF bk.slots_axioms S ks N(2) k]
  note P = split_ptrs_loop [OF K(2,3) order_refl q [unfolded split_ptrs_def]]
  note kp = split_keys_ptrs [OF k]
  have f: "bn_key_at full2 = bn_key_at full1" "bn_key_at fresh2 = bn_key_at fresh1" using P by (simp_all add: fun_eq_iff)
  show "ret = ks ! d" by (rule K(1))
  show "bn_shape d full2" "bn_shape d fresh2" using P by auto
  have pf: "ptr_at full2 j = (if j < d + 1 then ps ! j else None)" if "j < SIZE d + 1" for j
    using P kp that D(4,6) N(2) by (auto simp: SIZE_def)
  have pr: "ptr_at fresh2 j = (if j < d + 1 then ps ! (d + 1 + j) else None)" if "j < SIZE d + 1" for j
    using P kp that D(4,6) N(2) by (auto simp: SIZE_def)
  show "node_slots d full2 (take d ks) (take (d + 1) ps)"
    unfolding node_slots_def f using K(4) pf D(4) N(2) by (auto simp: SIZE_def)
  show "node_slots d fresh2 (drop (d + 1) ks) (drop (d + 1) ps)"
    unfolding node_slots_def f using K(5) pr D(4) N(2) by (auto simp: SIZE_def)
qed

section \<open>Merging\<close>

lemma free_slot_keys:
  assumes "key_slots d key_at ks" "i \<le> length ks"
  shows "free_slot key_at (SIZE d) i = length ks"
  using assms(2)
proof (induction "length ks - i" arbitrary: i)
  case 0
  then have "i = length ks" by simp
  moreover have "\<not> (length ks < SIZE d \<and> key_at (length ks) \<noteq> SENTINEL)"
    using assms(1) by (auto simp: key_slots_def)
  ultimately show ?case by (subst free_slot.simps) auto
next
  case (Suc n)
  then have i: "i < length ks" by simp
  have "ks ! i < SENTINEL" using assms(1) nth_mem [OF i] by (auto simp: key_slots_def)
  moreover have "i < SIZE d" "key_at i = ks ! i" using assms(1) i by (auto simp: key_slots_def)
  ultimately have "i < SIZE d" "key_at i \<noteq> SENTINEL" by simp_all
  then have "free_slot key_at (SIZE d) i = free_slot key_at (SIZE d) (i + 1)" by (subst free_slot.simps) simp
  then show ?case using Suc.hyps(1) [of "i + 1"] Suc.hyps(2) i by simp
qed

text \<open>Appending one pair to a leaf, one key and child to a node.\<close>

lemma leaf_append:
  assumes S: "lf_shape vs hs d l" "0 < vs" "hs \<le> vs" and ps: "leaf_pairs vs d l ps"
    and "length ps < SIZE d" "key < SENTINEL" "\<forall>k \<in> fst ` set ps. k < key"
  shows "lf_shape vs hs d (set_value vs (length ps) val (lf_set_key (length ps) key l))"
    and "leaf_pairs vs d (set_value vs (length ps) val (lf_set_key (length ps) key l)) (ps @ [(key, val)])"
proof -
  note V = slots_values [OF S(2,3), of d]
  have s: "lf_shape vs hs d (lf_set_key (length ps) key l)" by (rule lk.shape_put [OF S(1) assms(5)])
  then show "lf_shape vs hs d (set_value vs (length ps) val (lf_set_key (length ps) key l))"
    by (rule slots.shape_put [OF V _ assms(5)])
  show "leaf_pairs vs d (set_value vs (length ps) val (lf_set_key (length ps) key l)) (ps @ [(key, val)])"
    using ps assms(5-7) lk.get_put [OF S(1) assms(5)] slots.get_put [OF V s assms(5)]
    by (auto simp: leaf_pairs_def key_slots_def sorted_wrt_append nth_append)
qed

lemma merge_leaf_loop_pairs:
  assumes S: "0 < vs" "hs \<le> vs" and two: "leaf_pairs vs d two ps2"
  shows "lf_shape vs hs d one \<Longrightarrow> leaf_pairs vs d one (ps1 @ take i ps2) \<Longrightarrow>
    length ps1 + length ps2 \<le> SIZE d \<Longrightarrow> \<forall>x \<in> fst ` set ps1. \<forall>y \<in> fst ` set ps2. x < y \<Longrightarrow>
    i \<le> length ps2 \<Longrightarrow> s \<le> length ps1 + i \<Longrightarrow>
    lf_shape vs hs d (merge_leaf_loop vs d [i ..< SIZE d] s one two) \<and>
    leaf_pairs vs d (merge_leaf_loop vs d [i ..< SIZE d] s one two) (ps1 @ ps2) \<and>
    hl_next (lf_last (merge_leaf_loop vs d [i ..< SIZE d] s one two)) = hl_next (lf_last one) \<and>
    hl_key_low (lf_last (merge_leaf_loop vs d [i ..< SIZE d] s one two)) = hl_key_low (lf_last one) \<and>
    hl_key_high (lf_last (merge_leaf_loop vs d [i ..< SIZE d] s one two)) = hl_key_high (lf_last one)"
proof (induction "SIZE d - i" arbitrary: i s one)
  case 0
  then have "i = length ps2" "SIZE d \<le> i" by auto
  with 0 show ?case by simp
next
  case (Suc n)
  have i: "i < SIZE d" using Suc.hyps(2) by simp
  have up: "[i ..< SIZE d] = i # [i + 1 ..< SIZE d]" using i by (simp add: upt_conv_Cons)
  have T: "lf_key_at two i = (if i < length ps2 then fst (ps2 ! i) else SENTINEL)"
    "i < length ps2 \<Longrightarrow> value_at vs two i = snd (ps2 ! i)"
    using two i by (auto simp: leaf_pairs_def key_slots_def)
  show ?case
  proof (cases "i < length ps2")
    case False
    then have "merge_leaf_loop vs d [i ..< SIZE d] s one two = one" using T by (simp add: up)
    with False Suc.prems show ?thesis by simp
  next
    case True
    have k: "fst (ps2 ! i) < SENTINEL" using two True by (auto simp: leaf_pairs_def key_slots_def)
    have len: "length (ps1 @ take i ps2) = length ps1 + i" using True by simp
    have ks1: "key_slots d (lf_key_at one) (map fst (ps1 @ take i ps2))" using Suc.prems(2) by (simp add: leaf_pairs_def)
    have f: "free_slot (lf_key_at one) (SIZE d) s = length (ps1 @ take i ps2)"
      using free_slot_keys [OF ks1, of s] Suc.prems(6) len by simp
    have "sorted_wrt (<) (map fst ps2)" using two by (simp add: leaf_pairs_def key_slots_def)
    then have "\<And>j. j < i \<Longrightarrow> fst (ps2 ! j) < fst (ps2 ! i)"
      using True by (auto simp: sorted_wrt_iff_nth_less)
    then have below: "x < fst (ps2 ! i)" if "x \<in> fst ` set (take i ps2)" for x
      using that True by (force simp: in_set_conv_nth)
    have room: "length (ps1 @ take i ps2) < SIZE d" using Suc.prems(3) True len by simp
    have all: "\<forall>x \<in> fst ` set (ps1 @ take i ps2). x < fst (ps2 ! i)"
      using below Suc.prems(4) True by auto
    let ?one = "set_value vs (length (ps1 @ take i ps2)) (snd (ps2 ! i))
        (lf_set_key (length (ps1 @ take i ps2)) (fst (ps2 ! i)) one)"
    note A = leaf_append [OF Suc.prems(1) S Suc.prems(2) room k all, of "snd (ps2 ! i)"]
    have e: "ps1 @ take (i + 1) ps2 = (ps1 @ take i ps2) @ [(fst (ps2 ! i), snd (ps2 ! i))]"
      using True by (simp add: take_Suc_conv_app_nth)
    have "SIZE d - (i + 1) = n" using Suc.hyps(2) by simp
    note I = Suc.hyps(1) [OF this [symmetric] A(1) _ Suc.prems(3,4), of "length (ps1 @ take i ps2)"]
    have step: "merge_leaf_loop vs d [i ..< SIZE d] s one two =
        merge_leaf_loop vs d [i + 1 ..< SIZE d] (length (ps1 @ take i ps2)) ?one two"
      unfolding up using True T k f by (simp add: Let_def)
    show ?thesis unfolding step using I A(2) e True len by simp
  qed
qed

lemma merge_into_left_leaf_pairs:
  assumes S: "0 < vs" "hs \<le> vs" "lf_shape vs hs d one" and one: "leaf_pairs vs d one ps1"
    and two: "leaf_pairs vs d two ps2" and "length ps1 + length ps2 \<le> SIZE d"
    and "\<forall>x \<in> fst ` set ps1. \<forall>y \<in> fst ` set ps2. x < y"
    and m: "merge_into_left_leaf vs d one b two parent = (left, parent')"
  shows "lf_shape vs hs d left" "leaf_pairs vs d left (ps1 @ ps2)" "get_next left = get_next two"
    "hl_key_low (lf_last left) = hl_key_low (lf_last one)" "hl_key_high (lf_last left) = hl_key_high (lf_last two)"
    "parent' = snd (shift_down d b parent)"
proof -
  let ?one = "lf_set_range (hl_key_low (lf_last (set_next (get_next two) one))) (hl_key_high (lf_last two))
      (set_next (get_next two) one)"
  have k: "lf_key_at ?one = lf_key_at one" "value_at vs ?one = value_at vs one"
    by (simp_all add: fun_eq_iff lf_key_at_def value_at_def lf_set_range_def set_next_def)
  have s: "lf_shape vs hs d ?one" using S(3) by (simp add: lf_shape_def lf_set_range_def set_next_def)
  have p: "leaf_pairs vs d ?one (ps1 @ take 0 ps2)" using one by (simp add: leaf_pairs_def k)
  note M = merge_leaf_loop_pairs [OF S(1,2) two s p assms(6,7), of 0]
  have e: "left = merge_leaf_loop vs d [0 ..< SIZE d] 0 ?one two" "parent' = snd (shift_down d b parent)"
    using m by (simp_all add: merge_into_left_leaf_def Let_def)
  show "lf_shape vs hs d left" "leaf_pairs vs d left (ps1 @ ps2)" "get_next left = get_next two"
    "hl_key_low (lf_last left) = hl_key_low (lf_last one)" "hl_key_high (lf_last left) = hl_key_high (lf_last two)"
    using M by (simp_all add: e get_next_def lf_set_range_def set_next_def)
  show "parent' = snd (shift_down d b parent)" by (rule e(2))
qed

text \<open>The same for inner nodes: one key and the child right of it, then the loop over all of them.\<close>

lemma node_append:
  assumes S: "bn_shape d n" and N: "node_slots d n ks ps"
    and "length ks < SIZE d" "key < SENTINEL" "\<forall>k \<in> set ks. k < key"
  shows "bn_shape d (set_ptr (length ks + 1) p (bn_set_key (length ks) key n))"
    and "node_slots d (set_ptr (length ks + 1) p (bn_set_key (length ks) key n)) (ks @ [key]) (ps @ [p])"
proof -
  note D = node_slotsD [OF N]
  have s: "bn_shape d (bn_set_key (length ks) key n)" by (rule bk.shape_put [OF S assms(3)])
  have i: "length ks + 1 < SIZE d + 1" using assms(3) by simp
  show "bn_shape d (set_ptr (length ks + 1) p (bn_set_key (length ks) key n))" by (rule bp.shape_put [OF s i])
  show "node_slots d (set_ptr (length ks + 1) p (bn_set_key (length ks) key n)) (ks @ [key]) (ps @ [p])"
    using N assms(3-5) D(4) bk.get_put [OF S assms(3)] bp.get_put [OF s i]
    by (auto simp: node_slots_def key_slots_def sorted_wrt_append nth_append)
qed

lemma merge_node_loop_slots:
  assumes two: "node_slots d two ks2 ps2"
  shows "bn_shape d one \<Longrightarrow> node_slots d one (ks1 @ take i ks2) (ps1 @ take (i + 1) ps2) \<Longrightarrow>
    length ks1 + length ks2 \<le> SIZE d \<Longrightarrow> \<forall>x \<in> set ks1. \<forall>y \<in> set ks2. x < y \<Longrightarrow> i \<le> length ks2 \<Longrightarrow>
    bn_shape d (merge_node_loop [i ..< SIZE d] (length ks1 + i) one two) \<and>
    node_slots d (merge_node_loop [i ..< SIZE d] (length ks1 + i) one two) (ks1 @ ks2) (ps1 @ ps2)"
proof (induction "SIZE d - i" arbitrary: i one)
  case 0
  then have "i = length ks2" "SIZE d \<le> i" by auto
  with 0 node_slotsD(4) [OF two] show ?case by simp
next
  case (Suc n)
  note D = node_slotsD [OF two]
  have i: "i < SIZE d" using Suc.hyps(2) by simp
  have up: "[i ..< SIZE d] = i # [i + 1 ..< SIZE d]" using i by (simp add: upt_conv_Cons)
  have T: "bn_key_at two i = (if i < length ks2 then ks2 ! i else SENTINEL)" using D(5) [OF i] .
  show ?case
  proof (cases "i < length ks2")
    case False
    then have "merge_node_loop [i ..< SIZE d] (length ks1 + i) one two = one" using T by (simp add: up)
    with False Suc.prems D(4) show ?thesis by simp
  next
    case True
    have k: "ks2 ! i < SENTINEL" using D(2) True by simp
    have p: "ptr_at two (i + 1) = ps2 ! (i + 1)" using D(6) [of "i + 1"] D(3,4) True by simp
    have len: "length (ks1 @ take i ks2) = length ks1 + i" using True by simp
    have room: "length (ks1 @ take i ks2) < SIZE d" using Suc.prems(3) True len by simp
    have "ks2 ! j < ks2 ! i" if "j < i" for j using D(1) that True by (simp add: sorted_wrt_iff_nth_less)
    then have "x < ks2 ! i" if "x \<in> set (take i ks2)" for x
      using that True by (force simp: in_set_conv_nth)
    then have all: "\<forall>x \<in> set (ks1 @ take i ks2). x < ks2 ! i"
      using Suc.prems(4) nth_mem [OF True] by auto
    let ?one = "set_ptr (length ks1 + i + 1) (ps2 ! (i + 1)) (bn_set_key (length ks1 + i) (ks2 ! i) one)"
    note A = node_append [OF Suc.prems(1,2) room k all, of "ps2 ! (i + 1)", unfolded len]
    have e: "ks1 @ take (i + 1) ks2 = (ks1 @ take i ks2) @ [ks2 ! i]"
      "ps1 @ take (i + 1 + 1) ps2 = (ps1 @ take (i + 1) ps2) @ [ps2 ! (i + 1)]"
      using True D(4) by (simp_all add: take_Suc_conv_app_nth)
    have n: "n = SIZE d - (i + 1)" using Suc.hyps(2) by simp
    have step: "merge_node_loop [i ..< SIZE d] (length ks1 + i) one two =
        merge_node_loop [i + 1 ..< SIZE d] (length ks1 + (i + 1)) ?one two"
      unfolding up using True T k p by simp
    have "i + 1 \<le> length ks2" using True by simp
    from Suc.hyps(1) [OF n A(1) A(2) [folded e] Suc.prems(3,4) this]
    show ?thesis unfolding step .
  qed
qed

end
