(* ===== verification/BTreeProps.thy ===== *)
theory BTreeProps
  imports BTreeTraverse BTreeNodeProps
begin

text \<open>
  What the parts of the B+ tree promise: the binary search against the linear one, the
  effects on a leaf against a map, splitting and merging leaves, what the line versions protect a
  reader from, and the traversals that go wrong.
\<close>

section \<open>Search and effects\<close>

text \<open>C29: on keys in strictly ascending order followed by sentinels, the binary search of
  \<open>search_node\<close> finds what the linear search its comment describes finds: the first slot
  whose key is not below the one searched for, or nothing when all are below it.\<close>

theorem search_node_linear:
  assumes "key_slots d key_at ks" and "key < SENTINEL"
  shows "search_node d key_at key = search_ref d key_at key"
  by (rule search_node_spec [OF assms])

theorem search_node_linear_witness:
  "search_node 1 (bn_key_at (bn_set_key 0 10 (bn_set_key 1 20 (BNode 1)))) 15 = Some 1 \<and>
   search_ref 1 (bn_key_at (bn_set_key 0 10 (bn_set_key 1 20 (BNode 1)))) 15 = Some 1"
proof -
  let ?n = "bn_set_key 0 10 (bn_set_key 1 20 (BNode 1))"
  have K: "key_slots 1 (bn_key_at ?n) [10, 20]"
    by code_simp
  have "search_ref 1 (bn_key_at ?n) 15 = Some 1" by code_simp
  with search_node_linear [OF K, of 15] show ?thesis by (simp add: SENTINEL_def)
qed

text \<open>C30: at the bucket the search finds, the effect of \<open>insert\<close> on a leaf with room is an
  insertion that keeps the value of a present key, the effect of \<open>remove\<close> deletes the key, both
  return the value the key had, and the leaf stays a well-formed one in key order.\<close>

theorem leaf_effects_refine_map:
  assumes "lf_shape vs hs d l" "0 < vs" "hs \<le> vs" and "leaf_pairs vs d l ps"
    and "length ps < SIZE d" and "key < SENTINEL"
  shows "\<exists>b. search_node d (lf_key_at l) key = Some b \<and>
     (case insert_effect vs d key val l b of (r, l') \<Rightarrow>
        r = map_of ps key \<and> lf_shape vs hs d l' \<and>
        (\<exists>ps'. leaf_pairs vs d l' ps' \<and> map_of ps' = map_insert (map_of ps) key val)) \<and>
     (case remove_effect vs d key l b of (r, l') \<Rightarrow>
        r = map_of ps key \<and> lf_shape vs hs d l' \<and>
        (\<exists>ps'. leaf_pairs vs d l' ps' \<and> map_of ps' = (map_of ps)(key := None)))"
proof -
  have ks: "key_slots d (lf_key_at l) (map fst ps)" using assms(4) by (simp add: leaf_pairs_def)
  have r: "rank key (map fst ps) < SIZE d" using rank_le [of key "map fst ps"] assms(5) by simp
  note b = search_node_rank [OF ks assms(6) r]
  obtain ri li rr lr where e: "insert_effect vs d key val l (rank key (map fst ps)) = (ri, li)"
    "remove_effect vs d key l (rank key (map fst ps)) = (rr, lr)" by fastforce
  show ?thesis
    using b e leaf_insert_pairs [OF assms e(1)] leaf_remove_pairs [OF assms(1-4,6) r e(2)] by auto
qed

definition example_leaf :: bleaf where
  "example_leaf = set_value 7 0 11 (lf_set_key 0 10 (set_value 7 1 21 (lf_set_key 1 20 (BLeaf 7 5 1))))"

lemma example_leaf_pairs: "lf_shape 7 5 1 example_leaf" "leaf_pairs 7 1 example_leaf [(10, 11), (20, 21)]"
  by code_simp+

theorem leaf_effects_refine_map_witness:
  "\<exists>b. search_node 1 (lf_key_at example_leaf) 15 = Some b \<and> fst (insert_effect 7 1 15 16 example_leaf b) = None"
proof -
  obtain b where b: "search_node 1 (lf_key_at example_leaf) 15 = Some b"
    "case insert_effect 7 1 15 16 example_leaf b of (r, l') \<Rightarrow> r = map_of [(10, 11), (20, 21)] (15 :: int)"
    using leaf_effects_refine_map [OF example_leaf_pairs(1) _ _ example_leaf_pairs(2), of 15 16]
    by (fastforce simp: SIZE_def SENTINEL_def)
  then show ?thesis by (cases "insert_effect 7 1 15 16 example_leaf b") simp
qed

section \<open>Splitting and merging leaves\<close>

text \<open>
  splitting a full leaf leaves the lower \<open>d + 1\<close> pairs in it and moves the others to the
  new one, with the highest key kept as the separator, and merging the two again gives back the
  leaf's pairs, its range and its successor.\<close>

theorem split_merge_leaf:
  assumes S: "0 < vs" "hs \<le> vs" "lf_shape vs hs d full"
    and ps: "leaf_pairs vs d full ps" "length ps = SIZE d"
    and k: "split_keys d lf_key_at lf_set_key False (full, BLeaf vs hs d) = (sep, full1, fresh1)"
    and v: "split_values vs d (full1, fresh1) = (full2, fresh2)"
    and m: "merge_into_left_leaf vs d full2 b (lf_set_range sep high (set_next nx fresh2)) parent = (left, parent')"
  shows "sep = fst (ps ! d) \<and> leaf_pairs vs d full2 (take (d + 1) ps) \<and> leaf_pairs vs d fresh2 (drop (d + 1) ps) \<and>
     leaf_pairs vs d left ps \<and> hl_key_high (lf_last left) = high \<and> get_next left = nx"
proof -
  have fresh: "lf_shape vs hs d (BLeaf vs hs d)"
    by (simp add: lf_shape_def kshape_def BLeaf_def kline0_def)
  note P = split_leaf_pairs [OF S(1-3) fresh ps k v]
  let ?two = "lf_set_range sep high (set_next nx fresh2)"
  have k2: "lf_key_at ?two = lf_key_at fresh2" "value_at vs ?two = value_at vs fresh2"
    by (simp_all add: fun_eq_iff lf_key_at_def value_at_def lf_set_range_def set_next_def)
  have two: "leaf_pairs vs d ?two (drop (d + 1) ps)" using P(5) by (simp add: leaf_pairs_def k2)
  have len: "length (take (d + 1) ps) + length (drop (d + 1) ps) \<le> SIZE d" using ps(2) by simp
  have "sorted_wrt (<) (map fst (take (d + 1) ps @ drop (d + 1) ps))"
    using ps(1) by (simp only: append_take_drop_id leaf_pairs_def key_slots_def)
  then have "\<forall>x \<in> fst ` set (take (d + 1) ps). \<forall>y \<in> fst ` set (drop (d + 1) ps). x < y"
    by (auto simp only: map_append sorted_wrt_append list.set_map)
  note M = merge_into_left_leaf_pairs [OF S(1,2) P(2,4) two len this m]
  show ?thesis using P M by (simp add: lf_set_range_def set_next_def get_next_def)
qed

definition full_example :: bleaf where
  "full_example = set_value 7 2 31 (lf_set_key 2 30 example_leaf)"

lemma full_example_pairs: "lf_shape 7 5 1 full_example" "leaf_pairs 7 1 full_example [(10, 11), (20, 21), (30, 31)]"
  by code_simp+

theorem split_merge_leaf_witness:
  "\<exists>(one :: bleaf) two left. leaf_pairs 7 1 one [(10, 11), (20, 21)] \<and> leaf_pairs 7 1 two [(30, 31)] \<and>
     fst (merge_into_left_leaf 7 1 one 0 (lf_set_range 20 50 (set_next None two)) (BNode 1)) = left \<and>
     leaf_pairs 7 1 left [(10, 11), (20, 21), (30, 31)]"
proof -
  obtain sep f1 r1 where k: "split_keys 1 lf_key_at lf_set_key False (full_example, BLeaf 7 5 1) = (sep, f1, r1)"
    by (metis prod_cases3)
  obtain f2 r2 where v: "split_values 7 1 (f1, r1) = (f2, r2)" by fastforce
  obtain left p where m: "merge_into_left_leaf 7 1 f2 0 (lf_set_range sep 50 (set_next None r2)) (BNode 1) = (left, p)"
    by fastforce
  have P: "sep = 20" "leaf_pairs 7 1 f2 [(10, 11), (20, 21)]" "leaf_pairs 7 1 r2 [(30, 31)]"
    "leaf_pairs 7 1 left [(10, 11), (20, 21), (30, 31)]"
    using split_merge_leaf [OF _ _ full_example_pairs _ k v m] by (simp_all add: SIZE_def)
  show ?thesis by (intro exI [of _ f2] exI [of _ r2] exI [of _ left]) (use P m in simp)
qed

section \<open>What the versions of the lines protect\<close>

text \<open>
  A read takes the lines of a leaf one by one while a writer that holds the lock replaces the
  leaf \<open>old\<close> by \<open>upd\<close>: each line is the old or the new one, the first one possibly with the lock bit.
\<close>

definition torn_read :: "bleaf \<Rightarrow> bleaf \<Rightarrow> bleaf \<Rightarrow> bool" where
  "torn_read old upd l \<longleftrightarrow>
     list_all2 (\<lambda>k ks. k \<in> set ks) (lf_keys l)
       ([hd (lf_keys old), hd (lf_keys (lf_lock old)), hd (lf_keys upd)] #
        map2 (\<lambda>x y. [x, y]) (tl (lf_keys old)) (tl (lf_keys upd))) \<and>
     list_all2 (\<lambda>k ks. k \<in> set ks) (lf_values l) (map2 (\<lambda>x y. [x, y]) (lf_values old) (lf_values upd)) \<and>
     lf_last l \<in> {lf_last old, lf_last upd}"

text \<open>All lines of a leaf have the version \<open>v\<close>.\<close>

definition lf_all_version :: "64 word \<Rightarrow> bleaf \<Rightarrow> bool" where
  "lf_all_version v l \<longleftrightarrow> (\<forall>k \<in> set (lf_keys l). kl_version k = v) \<and> (\<forall>x \<in> set (lf_values l). vl_version x = v) \<and>
     hl_version (lf_last l) = v"

lemma and_unlocked: "v AND b = 0 \<Longrightarrow> v AND NOT b = (v :: 64 word)"
proof -
  assume a: "v AND b = 0"
  have "v = (v AND b) OR (v AND NOT b)" by (simp flip: bit.conj_disj_distrib)
  with a show ?thesis by simp
qed

lemma increment_all_version:
  assumes "lf_all_version v l" "v AND LOCK_BIT = 0"
  shows "lf_all_version (v + 1) (lf_increment_version l)"
proof -
  have "v AND NOT LOCK_BIT = v"
    by (rule and_unlocked [OF assms(2)])
  with assms(1) show ?thesis
    by (cases "lf_keys l") (auto simp: lf_all_version_def lf_increment_version_def bump_klines_def)
qed


lemma list_all2_mix:
  assumes "list_all2 (\<lambda>x ys. x \<in> set ys) xs (map2 (\<lambda>x y. [x, y]) as bs)" and "length as = length bs"
    and "\<forall>x \<in> set xs. f x = v" "\<forall>b \<in> set bs. f b \<noteq> v"
  shows "xs = as"
proof (rule nth_equalityI)
  show l: "length xs = length as" using assms(1,2) by (auto dest: list_all2_lengthD)
  fix i assume i: "i < length xs"
  then have "xs ! i \<in> {as ! i, bs ! i}"
    using list_all2_nthD [OF assms(1) i] l assms(2) by auto
  moreover have "xs ! i \<noteq> bs ! i" using i l assms(2-4) by (metis nth_mem)
  ultimately show "xs ! i = as ! i" by simp
qed

lemma list_all2_mix2:
  assumes "list_all2 (\<lambda>x ys. x \<in> set ys) xs (map2 (\<lambda>x y. [x, y]) as bs)" and "length as = length bs"
    and "\<forall>x \<in> set xs. f x = v" "\<forall>a \<in> set as. f a \<noteq> v"
  shows "xs = bs"
proof (rule list_all2_mix [OF _ _ assms(3,4)])
  have e: "map2 (\<lambda>x y. [x, y]) bs as = map rev (map2 (\<lambda>x y. [x, y]) as bs)"
    using assms(2) by (induction as bs rule: list_induct2) simp_all
  show "list_all2 (\<lambda>x ys. x \<in> set ys) xs (map2 (\<lambda>x y. [x, y]) bs as)"
    unfolding e using assms(1) by (simp add: list.rel_map)
qed (simp add: assms(2))

lemma lock_bit_words:
  assumes "v AND LOCK_BIT = 0" "(v + 1) AND LOCK_BIT = 0"
  shows "v AND NOT LOCK_BIT = v" "(v OR LOCK_BIT) AND NOT LOCK_BIT = v" "(v + 1) AND NOT LOCK_BIT = v + 1"
    "v OR LOCK_BIT \<noteq> v" "v OR LOCK_BIT \<noteq> v + 1"
proof -
  show "v AND NOT LOCK_BIT = v" "(v + 1) AND NOT LOCK_BIT = v + 1" by (rule and_unlocked, fact)+
  then show "(v OR LOCK_BIT) AND NOT LOCK_BIT = v" by (simp add: bit.conj_disj_distrib2)
  have "(v OR LOCK_BIT) AND LOCK_BIT = LOCK_BIT" by (simp add: bit.conj_disj_distrib2 assms(1))
  moreover have "LOCK_BIT \<noteq> 0" by (simp add: LOCK_BIT_def)
  ultimately show "v OR LOCK_BIT \<noteq> v" "v OR LOCK_BIT \<noteq> v + 1" using assms by metis+
qed

text \<open>C28: a copy of a leaf that \<open>is_valid\<close> accepts, with or without the lock bit ignored, is the
  whole old leaf or the whole new one, however the read of its lines interleaved with the write;
  a mixture of lines is always rejected.\<close>

theorem valid_leaf_not_torn:
  assumes old: "lf_all_version v old" and e: "lf_all_version v e" and upd: "upd = lf_increment_version e"
    and v: "v AND LOCK_BIT = 0" "(v + 1) AND LOCK_BIT = 0"
    and len: "lf_keys old \<noteq> []" "length (lf_keys e) = length (lf_keys old)" "length (lf_values e) = length (lf_values old)"
    and torn: "torn_read old upd l" and "lf_is_valid l ignore_lock"
  shows "lf_unlock l = old \<or> lf_unlock l = upd"
proof -
  have new: "lf_all_version (v + 1) upd" unfolding upd by (rule increment_all_version [OF e v(1)])
  have len': "length (lf_keys upd) = length (lf_keys old)" "length (lf_values upd) = length (lf_values old)"
    using len by (auto simp: upd lf_increment_version_def bump_klines_def split: list.splits)
  obtain o1 os where o: "lf_keys old = o1 # os" using len(1) by (cases "lf_keys old") auto
  obtain u1 us where u: "lf_keys upd = u1 # us" using len' o by (cases "lf_keys upd") auto
  have vs: "kl_version o1 = v" "\<forall>k \<in> set os. kl_version k = v" "\<forall>x \<in> set (lf_values old). vl_version x = v"
    "hl_version (lf_last old) = v" "kl_version u1 = v + 1" "\<forall>k \<in> set us. kl_version k = v + 1"
    "\<forall>x \<in> set (lf_values upd). vl_version x = v + 1" "hl_version (lf_last upd) = v + 1"
    using old new o u by (auto simp: lf_all_version_def)
  let ?lk = "o1\<lparr>kl_version := v OR LOCK_BIT\<rparr>"
  from torn o u vs(1) obtain k1 ks where k: "lf_keys l = k1 # ks" "k1 \<in> {o1, ?lk, u1}"
    "list_all2 (\<lambda>k ks. k \<in> set ks) ks (map2 (\<lambda>x y. [x, y]) os us)"
    by (auto simp: torn_read_def lf_lock_def set_first_version_def list_all2_Cons2)
  have vals: "list_all2 (\<lambda>k ks. k \<in> set ks) (lf_values l) (map2 (\<lambda>x y. [x, y]) (lf_values old) (lf_values upd))"
    and last: "lf_last l \<in> {lf_last old, lf_last upd}" using torn by (simp_all add: torn_read_def)
  let ?base = "if ignore_lock then kl_version k1 AND NOT LOCK_BIT else kl_version k1"
  have val: "\<forall>k \<in> set ks. kl_version k = ?base" "\<forall>x \<in> set (lf_values l). vl_version x = ?base"
    "hl_version (lf_last l) = ?base"
    using \<open>lf_is_valid l ignore_lock\<close> k(1) by (auto simp: lf_is_valid_def list_all_iff Let_def)
  have ls: "length os = length us" using len' o u by simp
  note W = lock_bit_words [OF v]
  have ne: "v \<noteq> v + 1" by simp
  show ?thesis
  proof (cases "lf_last l = lf_last old")
    case True
    then have b: "?base = v" using val(3) vs(4) by simp
    have "ks = os" using list_all2_mix [OF k(3) ls, of kl_version v] val(1) b vs(6) ne by auto
    moreover have "lf_values l = lf_values old"
      using list_all2_mix [OF vals, of vl_version v] val(2) b vs(7) ne len' by auto
    moreover have "k1 \<noteq> u1" using b W vs(5) ne by (auto split: if_splits)
    ultimately have "lf_unlock l = old" using True k o vs(1) W by (auto simp: lf_unlock_def set_first_version_def)
    then show ?thesis ..
  next
    case False
    then have b: "?base = v + 1" "lf_last l = lf_last upd" using val(3) vs(8) last by auto
    have "ks = us" using list_all2_mix2 [OF k(3) ls, of kl_version "v + 1"] val(1) b vs(2) ne by auto
    moreover have "lf_values l = lf_values upd"
      using list_all2_mix2 [OF vals, of vl_version "v + 1"] val(2) b vs(3) ne len' by auto
    moreover have "k1 = u1" using b k(2) W vs(1) ne by (auto split: if_splits)
    ultimately have "lf_unlock l = upd" using b(2) k u vs(5) W by (auto simp: lf_unlock_def set_first_version_def)
    then show ?thesis ..
  qed
qed

theorem valid_leaf_not_torn_witness:
  "lf_unlock (lf_lock example_leaf) = example_leaf \<or>
   lf_unlock (lf_lock example_leaf) = lf_increment_version full_example"
proof -
  have a: "lf_all_version 0 example_leaf" "lf_all_version 0 full_example" by code_simp+
  have l: "lf_keys example_leaf \<noteq> []" "length (lf_keys full_example) = length (lf_keys example_leaf)"
    "length (lf_values full_example) = length (lf_values example_leaf)" by code_simp+
  have t: "torn_read example_leaf (lf_increment_version full_example) (lf_lock example_leaf)"
    "lf_is_valid (lf_lock example_leaf) True" by code_simp+
  show ?thesis
    by (rule valid_leaf_not_torn [OF a refl _ _ l t]) code_simp+
qed

section \<open>Traversals that go wrong\<close>

text \<open>A node whose first line is locked is never valid, even for a reader that ignores the
  lock, so such a reader waits for the writer; a locked leaf is.\<close>

theorem locked_node_never_valid:
  assumes "bn_keys n \<noteq> []" and "kl_version (bn_keys n ! 0) AND LOCK_BIT \<noteq> 0"
  shows "\<not> bn_is_valid n True \<and> (lf_is_valid (lf_lock l) True \<longleftrightarrow> lf_is_valid l True)"
proof
  let ?w = "kl_version (bn_keys n ! 0)"
  have "?w AND NOT LOCK_BIT \<noteq> ?w"
  proof
    assume w: "?w AND NOT LOCK_BIT = ?w"
    have "?w AND LOCK_BIT = (?w AND NOT LOCK_BIT) AND LOCK_BIT" by (simp only: w)
    also have "\<dots> = 0" by (simp add: and.assoc)
    finally show False using assms(2) by simp
  qed
  then show "\<not> bn_is_valid n True" using assms(1) by (cases "bn_keys n") (auto simp: bn_is_valid_def Let_def)
  show "lf_is_valid (lf_lock l) True \<longleftrightarrow> lf_is_valid l True"
    by (cases "lf_keys l") (simp_all add: lf_is_valid_def lf_lock_def set_first_version_def Let_def bit.conj_disj_distrib2)
qed

text \<open>
  where a leaf is full, looking up a key above its last one reads the leaf at index -1.\<close>

theorem contains_above_full_leaf:
  assumes "r_height (bt_root t) = 0" and "deref (r_start (bt_root t)) (bt_leaves t) = Inr l"
    and "lf_is_valid l True" and "lf_key_at l (SIZE (bc_degree c) - 1) < key"
  shows "bt_contains (Suc fuel) c t key = Inl Index_out_of_bounds"
  using assms
  by (simp add: bt_contains_def traverse_once_def only_leaf_def read_leaf_def reliable_read_def search_node_def Let_def)

definition full_tree :: btree where
  "full_tree = (the (bt_InitAsFirst \<lparr>bc_degree = 1, bc_vs = 7, bc_hs = 5, bc_cache_depth = 0\<rparr>))\<lparr>bt_leaves := [0 \<mapsto> full_example]\<rparr>"

lemma sizes_7_5: "value_sizes 40 7 5"
  unfolding value_sizes_def by (rule bexI [of _ 8]) simp_all

theorem contains_above_full_leaf_witness:
  "bt_contains 1 \<lparr>bc_degree = 1, bc_vs = 7, bc_hs = 5, bc_cache_depth = 0\<rparr> full_tree 40 = Inl Index_out_of_bounds"
proof -
  have "lf_key_at full_example 2 = 30" "lf_is_valid full_example True" by code_simp+
  then show ?thesis
    using contains_above_full_leaf [of full_tree full_example "\<lparr>bc_degree = 1, bc_vs = 7, bc_hs = 5, bc_cache_depth = 0\<rparr>" 40 0]
    by (simp add: full_tree_def bt_InitAsFirst_def sizes_7_5 deref_def SIZE_def)
qed

text \<open>
  retries after losing the lock of the root are not counted: as long as another thread
  keeps winning it, a writer on a one-leaf tree goes on for ever without the error that guards
  against infinite recursion.\<close>

theorem root_retries_uncounted:
  assumes "r_height (bt_root t) = 0" and "deref (r_start (bt_root t)) (bt_leaves t) = Inr l"
    and "lf_is_valid l False" and "bt_lost t = replicate n True"
  shows "fuel \<le> n \<Longrightarrow> bt_insert fuel c t key val = Inl Out_of_fuel"
proof -
  have "traverse fuel c key True eff it t = Inl Out_of_fuel"
    if "fuel \<le> n" "it < 1000" for it and eff :: "int option effect"
    using assms that
  proof (induction n arbitrary: fuel t it)
    case 0
    then show ?case by simp
  next
    case (Suc n)
    show ?case
    proof (cases fuel)
      case (Suc f)
      let ?t = "t\<lparr>bt_lost := replicate n True\<rparr>"
      have "traverse f c key True eff 0 ?t = Inl Out_of_fuel"
        by (rule Suc.IH) (use Suc.prems Suc in simp_all)
      with Suc Suc.prems show ?thesis
        by (simp add: traverse_once_def only_leaf_def read_leaf_def reliable_read_def try_acquire_root_def
            cas_lost_def Let_def)
    qed simp
  qed
  then show "fuel \<le> n \<Longrightarrow> bt_insert fuel c t key val = Inl Out_of_fuel"
    by (simp add: bt_insert_def prev_value_def)
qed

theorem root_retries_uncounted_witness:
  "bt_insert 2000 \<lparr>bc_degree = 1, bc_vs = 7, bc_hs = 5, bc_cache_depth = 0\<rparr>
     (full_tree\<lparr>bt_lost := replicate 2000 True\<rparr>) 40 41 = Inl Out_of_fuel"
proof -
  have "lf_is_valid full_example False" by code_simp
  then show ?thesis
    by (intro root_retries_uncounted [where l = full_example and n = 2000])
      (simp_all add: full_tree_def bt_InitAsFirst_def sizes_7_5 deref_def)
qed

end
