(* ===== verification/BTreeRun.thy ===== *)
theory BTreeRun
  imports BTreeTraverse
begin

text \<open>
  Whole runs of the tree of \<open>btree_cached.h\<close>, computed by the simplifier: rules that evaluate the operations on
  trees of degree 1 whose memory is written out, where a \<open>let\<close>, a case distinction or a loop is opened only once what it depends on
  is a value. With them, a run of one thread in which the tree loses a key.
\<close>

section \<open>Rules that compute a run\<close>

text \<open>Values of 4 bytes (\<open>int\<close>), 14 to a line and 10 in the last one; no cached levels.\<close>

definition small_tree :: bcfg where "small_tree = \<lparr>bc_degree = 1, bc_vs = 14, bc_hs = 10, bc_cache_depth = 0\<rparr>"

lemma small_simps: "bc_degree small_tree = 1" "bc_vs small_tree = 14" "bc_hs small_tree = 10" "bc_cache_depth small_tree = 0"
  by (simp_all add: small_tree_def)

lemma small_sizes: "SIZE 1 = 3" "SIZE (Suc 0) = 3" "KLINES 1 = 1" "PLINES 1 = 1" "VLINES 14 10 1 = 0" "VLINES 14 10 (Suc 0) = 0" "KLINE_SIZE = 14" "PLINE_SIZE = 7"
  by (simp_all add: SIZE_def KLINES_def PLINES_def VLINES_def KLINE_SIZE_def PLINE_SIZE_def)

lemma unlocked_versions: "(0 :: 64 word) AND NOT LOCK_BIT = 0" "(1 :: 64 word) AND NOT LOCK_BIT = 1" "(2 :: 64 word) AND NOT LOCK_BIT = 2"
  "(3 :: 64 word) AND NOT LOCK_BIT = 3" "(4 :: 64 word) AND NOT LOCK_BIT = 4" "(5 :: 64 word) AND NOT LOCK_BIT = 5"
  "(6 :: 64 word) AND NOT LOCK_BIT = 6" "(7 :: 64 word) AND NOT LOCK_BIT = 7" "(8 :: 64 word) AND NOT LOCK_BIT = 8"
  "(9 :: 64 word) AND NOT LOCK_BIT = 9"
  by code_simp+

lemma locked_unlocked: "(v OR LOCK_BIT) AND NOT LOCK_BIT = v AND NOT (LOCK_BIT :: 64 word)"
  by (intro bit_word_eqI) (auto simp: bit_simps)

lemma small_counts: "Suc 0 = 1" "Suc 1 = 2" "Suc 2 = 3" "Suc 3 = 4" "replicate 1 a = [a]" "replicate 2 a = [a, a]" "replicate 3 a = [a, a, a]"
  "replicate 0 a = []" "replicate 7 a = [a,a,a,a,a,a,a]" "replicate 10 a = [a,a,a,a,a,a,a,a,a,a]" "replicate 14 a = [a,a,a,a,a,a,a,a,a,a,a,a,a,a]" by (simp_all add: numeral_eq_Suc)

lemma kline0': "kline0 = \<lparr>kl_version = 0, kl_keys = [SENTINEL,SENTINEL,SENTINEL,SENTINEL,SENTINEL,SENTINEL,SENTINEL,SENTINEL,SENTINEL,SENTINEL,SENTINEL,SENTINEL,SENTINEL,SENTINEL]\<rparr>"
  by (simp add: kline0_def small_sizes small_counts del: replicate.simps)

lemma search_three: "search_loop f key 0 2 = (if key = f 1 then 1 else if key < f 1 then if key = f 0 then 0 else if key < f 0 then 0 else 1
   else 2)"
  by (simp add: search_loop.simps [of f key] Let_def)

lemma free_three: "free_slot f 3 0 = (if f 0 = SENTINEL then 0 else if f 1 = SENTINEL then 1 else if f 2 = SENTINEL then 2 else 3)"
  "free_slot f 3 1 = (if f 1 = SENTINEL then 1 else if f 2 = SENTINEL then 2 else 3)"
  "free_slot f 3 2 = (if f 2 = SENTINEL then 2 else 3)"
  by (simp_all add: free_slot.simps [of f] Let_def eval_nat_numeral)

lemma small_upts: "[0..<3] = [0,1,2]" "[0..<4] = [0,1,2,3]" "[1..<3] = [1,2]" "[2..<3] = [2]" "[3..<3] = []" "[1..<4] = [1,2,3]" "[2..<4] = [2,3]"
  "[3..<4] = [3]" "[4..<4] = []" "[0..<2] = [0,1]" "[1..<2] = [1]" "[0..<1] = [0]" "[0..<0]=[]" "[1..<1]=[]" "[2..<2]=[]"
  by (simp_all add: upt_rec)

lemma key_bounds: "(numeral k :: int) < SENTINEL \<longleftrightarrow> numeral k < (2147483647 :: int)" "(numeral k :: int) = SENTINEL \<longleftrightarrow> numeral k = (2147483647 :: int)"
  "SENTINEL = (numeral k :: int) \<longleftrightarrow> numeral k = (2147483647 :: int)" "SENTINEL < (numeral k :: int) \<longleftrightarrow> 2147483647 < (numeral k :: int)"
  "INT_MIN < (numeral k :: int)" "numeral k \<le> SENTINEL \<longleftrightarrow> numeral k \<le> (2147483647 :: int)"
  by (auto simp: SENTINEL_def INT_MIN_def)

lemmas btree_run = small_simps small_sizes unlocked_versions locked_unlocked list_update_Cons' nth_Cons' small_counts kline0' search_three free_three small_upts key_bounds Let_def
  bt_insert_def prev_value_def traverse_once_def only_leaf_def then_do_def read_leaf_def read_node_def reliable_read_def deref_def
  try_acquire_root_def try_acquire_leaf_def try_acquire_node_def cas_lost_def release_root_def release_node_def release_leaf_def
  root_version_def root_increment_version_def set_start_and_inc_def bn_key_at_def put_key_def bn_set_key_def ptr_at_def set_ptr_def
  BNode_def cond_unmark_def bn_is_valid_def bn_version_def bump_klines_def bn_increment_version_def set_first_version_def
  lf_key_at_def lf_set_key_def value_at_def set_value_def BLeaf_def lf_is_valid_def lf_key_in_range_def lf_set_range_def lf_version_def
  lf_increment_version_def lf_lock_def lf_unlock_def get_next_def set_next_def search_node_def split_keys_step_def split_keys_def
  split_values_step_def split_values_def split_ptrs_step_def split_ptrs_def shift_up_def shift_down_def merge_into_left_node_def
  merge_node_def merge_into_left_leaf_def merge_leaf_def read_level_def insert_effect_def remove_effect_def
  store_node_def store_leaf_def bt_allocate_def bt_deallocate_def split_root_node_def split_root_leaf_def split_inner_node_def
  split_leaf_def apply_effect_def full_node_def full_leaf_def split_at_root_def lower_root_def adjust_root_def split_child_def
  neighbor_bucket_def merge_child_def update_leaf_def split_and_update_def merge_and_update_def leaf_stage_def
  p_is_marked_def p_unmark_def p_cond_mark_def bt_InitAsFirst_def bt_remove_def bt_contains_def

lemmas fuel_rules = traverse.simps(2) [where fuel = "pred_numeral k" for k, folded numeral_eq_Suc]
  descend.simps(2) [where fuel = "pred_numeral k" for k, folded numeral_eq_Suc]
  acquire_neighbor.simps(2) [where fuel = "pred_numeral k" for k, folded numeral_eq_Suc]

lemma then_do_weak_cong: "x = x' \<Longrightarrow> then_do x f = then_do x' f" by simp
lemma fold_weak_cong: "xs = xs' \<Longrightarrow> s = s' \<Longrightarrow> fold f xs s = fold f xs' s'" by simp
lemmas call_by_value = then_do_weak_cong fold_weak_cong let_weak_cong prod.case_cong_weak option.case_cong_weak sum.case_cong_weak list.case_cong_weak


lemma small_sizes_ok: "value_sizes 40 14 10"
  unfolding value_sizes_def by (rule bexI [of _ 4]) simp_all

section \<open>A key is lost\<close>

datatype bt_op = Ins int int | Rem int

fun bt_run :: "nat \<Rightarrow> bcfg \<Rightarrow> bt_op list \<Rightarrow> btree \<Rightarrow> btree option" where
  "bt_run fuel c [] t = Some t"
| "bt_run fuel c (Ins k v # ops) t = (case bt_insert fuel c t k v of Inl _ \<Rightarrow> None | Inr (_, t) \<Rightarrow> bt_run fuel c ops t)"
| "bt_run fuel c (Rem k # ops) t = (case bt_remove fuel c t k of Inl _ \<Rightarrow> None | Inr (_, t) \<Rightarrow> bt_run fuel c ops t)"

text \<open>
  Four keys give a root with two leaves. Removing 10 and 20 empties the left leaf, and inserting 5 merges the two: the root's
  child has no key any more and one leaf below it, which holds 5, 30 and 40.
\<close>

definition loss_start :: "bt_op list" where
  "loss_start = [Ins 10 1, Ins 20 2, Ins 30 3, Ins 40 4, Rem 10, Rem 20, Ins 5 0]"

text \<open>
  C20: The tree, of \<open>int\<close> values, loses a key with one thread and no lost lock. The next insertion cuts the empty node out of the
  tree but goes on through it, finds the leaf full and splits it under the node that is cut out: the upper half of
  the leaf, with key 40 and the key just inserted, hangs on a node that no search reaches.
\<close>

theorem btree_loses_key:
  "\<exists>t0 t t'. bt_InitAsFirst small_tree = Some t0 \<and> bt_run 20 small_tree loss_start t0 = Some t \<and> bt_lost t = [] \<and>
     bt_contains 20 small_tree t 40 = Inr (Some 4, t) \<and> bt_insert 20 small_tree t 50 5 = Inr (None, t') \<and>
     bt_contains 20 small_tree t' 40 = Inr (None, t') \<and> bt_contains 20 small_tree t' 50 = Inr (None, t')"
  unfolding loss_start_def
  by (simp add: btree_run small_sizes_ok fuel_rules cong: call_by_value del: list_update.simps replicate.simps One_nat_def)

end
