(* ===== verification/Ebr.thy ===== *)
theory Ebr
  imports Prelude
begin

text \<open>
  Epoch-based reclamation, \<open>iht/cached/ds/ebr.h\<close>: the threads of a ring of nodes announce epochs in
  slots, the last one of a node passes the epoch on to the next node, and a thread's three free
  lists rotate as it announces. Every access of \<open>match_version\<close> to a version or to a slot of another
  thread is a step of its own, so the threads interleave as they do in the program: the load of
  the node's version, the store of the thread's own slot, the load of each slot, the load, the
  exchange and the write of the versions. The thread's own counter and lists, which no other
  thread touches, change with the step before them; \<open>held\<close>, \<open>status\<close> and \<open>since\<close> are not in the code:
  they say which objects a thread's running operation still uses, where an object is in its
  life, and the slot of the thread that gave it back. Versions are natural numbers (the code keeps
  them in \<open>long\<close> and \<open>int\<close>; an \<open>int\<close> overflows after 2^31 epochs).
\<close>

section \<open>State\<close>

record ebr_cfg =
  node_count :: nat
  thread_count :: nat
  ops_per_epoch :: nat

type_synonym ebr_tid = "nat \<times> nat"

text \<open>Where a thread is in \<open>match_version\<close>.\<close>

datatype ebr_pc = Idle | Loaded nat | Checking nat nat | Passed nat | Racing nat | Won nat

datatype ostatus = Private ebr_tid | Linked | Unlinked ebr_tid | In_limbo

record 'o ebr =
  my_version :: "nat \<Rightarrow> nat"
  at_version :: "nat \<Rightarrow> nat"
  cycles :: "nat \<Rightarrow> nat"
  id_gen :: "nat \<Rightarrow> nat"
  arriving :: "nat \<Rightarrow> nat list"
  slot :: "ebr_tid \<Rightarrow> nat"
  ops :: "ebr_tid \<Rightarrow> nat"
  limbo :: "ebr_tid \<Rightarrow> 'o list list"
  at_pc :: "ebr_tid \<Rightarrow> ebr_pc"
  held :: "ebr_tid \<Rightarrow> ('o \<times> nat) list"
  status :: "'o \<Rightarrow> ostatus option"
  since :: "'o \<Rightarrow> nat option"

definition EBRObjectPool :: "'o ebr" where
  "EBRObjectPool = \<lparr>my_version = \<lambda>_. 0, at_version = \<lambda>_. 0, cycles = \<lambda>_. 0, id_gen = \<lambda>_. 0, arriving = \<lambda>_. [],
     slot = \<lambda>_. 0, ops = \<lambda>_. 0, limbo = \<lambda>_. [[], [], []], at_pc = \<lambda>_. Idle, held = \<lambda>_. [], status = \<lambda>_. None,
     since = \<lambda>_. None\<rparr>"

text \<open>The ring \<open>Init\<close> sets up: the node whose version a node writes.\<close>

definition next_node :: "ebr_cfg \<Rightarrow> nat \<Rightarrow> nat" where
  "next_node c k = (k + 1) mod node_count c"

section \<open>The steps of \<open>match_version\<close>\<close>

definition RegisterThread :: "ebr_cfg \<Rightarrow> nat \<Rightarrow> 'o ebr \<Rightarrow> 'o ebr option" where
  "RegisterThread c k s =
     (if id_gen s k \<ge> thread_count c then None
      else Some (s\<lparr>id_gen := (id_gen s)(k := id_gen s k + 1), limbo := (limbo s)((k, id_gen s k) := [[], [], []])\<rparr>))"

text \<open>The load of the node's version, whose successor the thread goes for.\<close>

definition match_start :: "ebr_cfg \<Rightarrow> ebr_tid \<Rightarrow> bool \<Rightarrow> 'o ebr \<Rightarrow> 'o ebr" where
  "match_start c t override_epoch s =
     (let counter = ops s t + 1; s = s\<lparr>ops := (ops s)(t := counter), held := (held s)(t := [])\<rparr> in
      if override_epoch \<or> counter mod ops_per_epoch c \<noteq> 0 then s
      else s\<lparr>at_pc := (at_pc s)(t := Loaded (my_version s (fst t) + 1))\<rparr>)"

text \<open>The store of the own slot, which cycles the free lists: the first becomes the last.\<close>

definition announce :: "ebr_tid \<Rightarrow> nat \<Rightarrow> 'o ebr \<Rightarrow> 'o ebr" where
  "announce t new_version s =
     (if slot s t < new_version
      then s\<lparr>slot := (slot s)(t := new_version), limbo := (limbo s)(t := rotate1 (limbo s t))\<rparr>
      else s)\<lparr>at_pc := (at_pc s)(t := Checking new_version 0)\<rparr>"

definition match_check :: "ebr_cfg \<Rightarrow> ebr_tid \<Rightarrow> nat \<Rightarrow> nat \<Rightarrow> 'o ebr \<Rightarrow> 'o ebr" where
  "match_check c t v i s = s\<lparr>at_pc := (at_pc s)(t :=
     if i < thread_count c then (if slot s (fst t, i) \<noteq> v then Idle else Checking v (i + 1)) else Passed v)\<rparr>"

definition match_load :: "ebr_tid \<Rightarrow> nat \<Rightarrow> 'o ebr \<Rightarrow> 'o ebr" where
  "match_load t v s = s\<lparr>at_pc := (at_pc s)(t := if v > at_version s (fst t) then Racing v else Idle)\<rparr>"

definition match_exchange :: "ebr_tid \<Rightarrow> nat \<Rightarrow> 'o ebr \<Rightarrow> 'o ebr" where
  "match_exchange t v s =
     (let k = fst t; old = at_version s k; s = s\<lparr>at_version := (at_version s)(k := v)\<rparr> in
      if old \<noteq> v then s\<lparr>cycles := (cycles s)(k := cycles s k + 1), at_pc := (at_pc s)(t := Won v)\<rparr>
      else s\<lparr>at_pc := (at_pc s)(t := Idle)\<rparr>)"

definition match_write :: "ebr_cfg \<Rightarrow> ebr_tid \<Rightarrow> nat \<Rightarrow> 'o ebr \<Rightarrow> 'o ebr" where
  "match_write c t v s =
     (let k = fst t; n = next_node c k; s = s\<lparr>at_pc := (at_pc s)(t := Idle)\<rparr> in
      if n \<noteq> k then s\<lparr>arriving := (arriving s)(n := arriving s n @ [v])\<rparr>
      else s\<lparr>my_version := (my_version s)(n := v)\<rparr>)"

text \<open>The thread's next step in \<open>match_version\<close>.\<close>

definition match_next :: "ebr_cfg \<Rightarrow> ebr_tid \<Rightarrow> 'o ebr \<Rightarrow> 'o ebr option" where
  "match_next c t s = (case at_pc s t of
     Idle \<Rightarrow> None
   | Loaded v \<Rightarrow> Some (announce t v s)
   | Checking v i \<Rightarrow> Some (match_check c t v i s)
   | Passed v \<Rightarrow> Some (match_load t v s)
   | Racing v \<Rightarrow> Some (match_exchange t v s)
   | Won v \<Rightarrow> Some (match_write c t v s))"

section \<open>Objects\<close>

definition push_to :: "nat \<Rightarrow> 'o \<Rightarrow> 'o list list \<Rightarrow> 'o list list" where
  "push_to i x qs = qs[i := qs ! i @ [x]]"

definition requeue :: "ebr_tid \<Rightarrow> 'o \<Rightarrow> 'o ebr \<Rightarrow> 'o ebr" where
  "requeue t x s = s\<lparr>limbo := (limbo s)(t := push_to 0 x (limbo s t)), status := (status s)(x \<mapsto> In_limbo)\<rparr>"

definition deallocate :: "ebr_tid \<Rightarrow> 'o \<Rightarrow> 'o ebr \<Rightarrow> 'o ebr" where
  "deallocate t x s = s\<lparr>limbo := (limbo s)(t := push_to 2 x (limbo s t)), status := (status s)(x \<mapsto> In_limbo),
     since := (since s)(x \<mapsto> slot s t)\<rparr>"

text \<open>\<open>fresh\<close> is the object the memory pool would return.\<close>

definition allocate :: "ebr_tid \<Rightarrow> 'o \<Rightarrow> 'o ebr \<Rightarrow> 'o \<times> 'o ebr" where
  "allocate t fresh s =
     (case limbo s t ! 0 of
        [] \<Rightarrow> (fresh, s\<lparr>status := (status s)(fresh \<mapsto> Private t)\<rparr>)
      | x # q \<Rightarrow> (x, s\<lparr>limbo := (limbo s)(t := (limbo s t)[0 := q]), status := (status s)(x \<mapsto> Private t)\<rparr>))"

text \<open>\<open>destroy\<close>: the local objects of the thread's lists are freed, the others only dropped.\<close>

definition destroy :: "('o \<Rightarrow> bool) \<Rightarrow> ebr_tid \<Rightarrow> 'o ebr \<Rightarrow> 'o list \<times> 'o ebr" where
  "destroy is_local t s =
     (filter is_local (concat (take 3 (limbo s t))), s\<lparr>limbo := (limbo s)(t := map (\<lambda>_. []) (limbo s t))\<rparr>)"

section \<open>Runs\<close>

text \<open>
  What a thread that keeps to the rules can do: it takes objects that are linked, unlinks each
  object once, gives back what it unlinked and requeues only what nobody else has seen. The memory pool
  returns memory that is not in use.
\<close>

datatype 'o ebr_act =
  Register nat | Match ebr_tid bool | Continue ebr_tid | Arrive nat
| Allocate ebr_tid 'o | Publish ebr_tid 'o | Take ebr_tid 'o | Unlink ebr_tid 'o | Give_back ebr_tid 'o | Requeue ebr_tid 'o

definition registered :: "'o ebr \<Rightarrow> ebr_tid \<Rightarrow> bool" where
  "registered s t \<longleftrightarrow> snd t < id_gen s (fst t) \<and> at_pc s t = Idle"

definition ebr_step :: "ebr_cfg \<Rightarrow> 'o ebr_act \<Rightarrow> 'o ebr \<Rightarrow> 'o ebr option" where
  "ebr_step c act s = (case act of
     Register k \<Rightarrow> if k < node_count c then RegisterThread c k s else None
   | Match t override_epoch \<Rightarrow> if registered s t then Some (match_start c t override_epoch s) else None
   | Continue t \<Rightarrow> match_next c t s
   | Arrive k \<Rightarrow> (case arriving s k of [] \<Rightarrow> None
       | v # vs \<Rightarrow> Some (s\<lparr>my_version := (my_version s)(k := v), arriving := (arriving s)(k := vs)\<rparr>))
   | Allocate t fresh \<Rightarrow>
       if registered s t \<and> status s fresh = None then Some (snd (allocate t fresh s)) else None
   | Publish t x \<Rightarrow> if status s x = Some (Private t) then Some (s\<lparr>status := (status s)(x \<mapsto> Linked)\<rparr>) else None
   | Take t x \<Rightarrow>
       if registered s t \<and> status s x = Some Linked
       then Some (s\<lparr>held := (held s)(t := (x, slot s t) # held s t)\<rparr>) else None
   | Unlink t x \<Rightarrow> if status s x = Some Linked then Some (s\<lparr>status := (status s)(x \<mapsto> Unlinked t)\<rparr>) else None
   | Give_back t x \<Rightarrow>
       if registered s t \<and> status s x = Some (Unlinked t) then Some (deallocate t x s) else None
   | Requeue t x \<Rightarrow>
       if registered s t \<and> status s x = Some (Private t) then Some (requeue t x s) else None)"

fun ebr_run :: "ebr_cfg \<Rightarrow> 'o ebr_act list \<Rightarrow> 'o ebr \<Rightarrow> 'o ebr option" where
  "ebr_run c [] s = Some s"
| "ebr_run c (a # as) s = (case ebr_step c a s of None \<Rightarrow> None | Some s' \<Rightarrow> ebr_run c as s')"

lemma ebr_run_append:
  "ebr_run c (as @ bs) s = (case ebr_run c as s of None \<Rightarrow> None | Some s' \<Rightarrow> ebr_run c bs s')"
  by (induction as arbitrary: s) (auto split: option.splits)

text \<open>An invariant of every step holds after every run.\<close>

lemma ebr_run_induct:
  assumes "ebr_run c as s = Some s'" "P s" "\<And>a s s'. ebr_step c a s = Some s' \<Longrightarrow> P s \<Longrightarrow> P s'"
  shows "P s'"
  using assms(1,2)
proof (induction as arbitrary: s)
  case (Cons a as)
  then show ?case using assms(3) by (auto split: option.splits)
qed simp

section \<open>The pool that follows another pool's epochs\<close>

text \<open>\<open>EBRObjectPoolAccompany\<close> has lists of its own and indexes them by the cycles of the other pool.\<close>

definition acc_requeue :: "nat \<Rightarrow> 'o \<Rightarrow> 'o list list \<Rightarrow> 'o list list" where
  "acc_requeue cyc x qs = push_to 0 x qs"

definition acc_deallocate :: "nat \<Rightarrow> 'o \<Rightarrow> 'o list list \<Rightarrow> 'o list list" where
  "acc_deallocate cyc x qs = push_to ((cyc + 2) mod 3) x qs"

definition acc_allocate :: "nat \<Rightarrow> 'o \<Rightarrow> 'o list list \<Rightarrow> 'o \<times> 'o list list" where
  "acc_allocate cyc fresh qs =
     (case qs ! (cyc mod 3) of [] \<Rightarrow> (fresh, qs) | x # q \<Rightarrow> (x, qs[cyc mod 3 := q]))"

end
