(* ===== verification/EbrProps.thy ===== *)
theory EbrProps
  imports Ebr
begin

text \<open>
  What epoch-based reclamation guarantees and what it does not: the invariants of versions,
  objects and quarantine over all interleavings of all threads of all nodes, and the runs in which
  an object is handed out while a reader still uses it.
\<close>

declare split_paired_All [simp del] split_paired_Ex [simp del]

section \<open>Versions\<close>

definition pc_ok :: "ebr_cfg \<Rightarrow> 'o ebr \<Rightarrow> ebr_tid \<Rightarrow> bool" where
  "pc_ok c s t = (case at_pc s t of
     Idle \<Rightarrow> True
   | Loaded v \<Rightarrow> slot s t \<le> v \<and> v \<le> my_version s (fst t) + 1
   | Checking v i \<Rightarrow> slot s t = v \<and> (\<forall>j < i. v \<le> slot s (fst t, j))
   | Passed v \<Rightarrow> slot s t = v \<and> (\<forall>j < thread_count c. v \<le> slot s (fst t, j))
   | Racing v \<Rightarrow> slot s t = v \<and> (\<forall>j < thread_count c. v \<le> slot s (fst t, j))
   | Won v \<Rightarrow> slot s t = v \<and> at_version s (fst t) = v \<and>
       (\<forall>w \<in> set (my_version s (next_node c (fst t)) # arriving s (next_node c (fst t))). w < v))"

definition ring_ok :: "ebr_cfg \<Rightarrow> 'o ebr \<Rightarrow> bool" where
  "ring_ok c s \<longleftrightarrow> (\<forall>k < node_count c. sorted_wrt (<) (my_version s (next_node c k) # arriving s (next_node c k)) \<and>
     (\<forall>w \<in> set (my_version s (next_node c k) # arriving s (next_node c k)). w \<le> at_version s k))"

definition ids_ok :: "ebr_cfg \<Rightarrow> 'o ebr \<Rightarrow> bool" where
  "ids_ok c s \<longleftrightarrow> (\<forall>t. at_pc s t \<noteq> Idle \<longrightarrow> snd t < id_gen s (fst t)) \<and> (\<forall>k. id_gen s k \<le> thread_count c) \<and>
     (\<forall>k. k \<ge> node_count c \<longrightarrow> id_gen s k = 0 \<and> arriving s k = []) \<and>
     (\<forall>k. next_node c k = k \<longrightarrow> arriving s k = [])"

definition slots_ok :: "ebr_cfg \<Rightarrow> 'o ebr \<Rightarrow> bool" where
  "slots_ok c s \<longleftrightarrow> (\<forall>t. slot s t \<le> my_version s (fst t) + 1) \<and>
     (\<forall>k. \<forall>i < thread_count c. at_version s k \<le> slot s (k, i))"

definition one_winner :: "'o ebr \<Rightarrow> bool" where
  "one_winner s \<longleftrightarrow> (\<forall>t t' v v'. at_pc s t = Won v \<and> at_pc s t' = Won v' \<and> fst t = fst t' \<longrightarrow> t = t')"

definition ver_inv :: "ebr_cfg \<Rightarrow> 'o ebr \<Rightarrow> bool" where
  "ver_inv c s \<longleftrightarrow> (\<forall>t. pc_ok c s t) \<and> ring_ok c s \<and> ids_ok c s \<and> slots_ok c s \<and> one_winner s"

lemmas ver_inv_defs = ver_inv_def pc_ok_def ring_ok_def ids_ok_def slots_ok_def one_winner_def

lemma next_node_less: "0 < node_count c \<Longrightarrow> next_node c k < node_count c"
  by (simp add: next_node_def)

lemma next_node_inj:
  "k < node_count c \<Longrightarrow> k' < node_count c \<Longrightarrow> next_node c k = next_node c k' \<Longrightarrow> k = k'"
  by (cases "k + 1 = node_count c"; cases "k' + 1 = node_count c") (auto simp: next_node_def)

lemma next_node_surj:
  assumes "k < node_count c"
  obtains k' where "k' < node_count c" "next_node c k' = k"
proof (cases k)
  case 0
  then show ?thesis using assms that [of "node_count c - 1"] by (simp add: next_node_def)
next
  case (Suc m)
  then show ?thesis using assms that [of m] by (simp add: next_node_def)
qed

lemma ver_invD:
  assumes "ver_inv c s"
  shows "slot s t \<le> my_version s (fst t) + 1" "i < thread_count c \<Longrightarrow> at_version s k \<le> slot s (k, i)"
    "pc_ok c s t" "id_gen s k \<le> thread_count c"
    "k < node_count c \<Longrightarrow> sorted_wrt (<) (my_version s (next_node c k) # arriving s (next_node c k))"
    "k < node_count c \<Longrightarrow> w \<in> set (my_version s (next_node c k) # arriving s (next_node c k)) \<Longrightarrow> w \<le> at_version s k"
  using assms unfolding ver_inv_def ring_ok_def ids_ok_def slots_ok_def by blast+

lemma ver_inv_ids:
  assumes "ver_inv c s" "snd t < id_gen s (fst t)"
  shows "snd t < thread_count c" "fst t < node_count c"
proof -
  have "id_gen s (fst t) \<le> thread_count c" "fst t \<ge> node_count c \<Longrightarrow> id_gen s (fst t) = 0"
    using assms(1) unfolding ver_inv_def ids_ok_def by blast+
  with assms(2) show "snd t < thread_count c" "fst t < node_count c" by (auto simp: not_less [symmetric])
qed

lemma ver_inv_running:
  assumes "ver_inv c s" "at_pc s t \<noteq> Idle"
  shows "snd t < thread_count c" "fst t < node_count c"
proof -
  have "snd t < id_gen s (fst t)" using assms unfolding ver_inv_def ids_ok_def by blast
  from ver_inv_ids [OF assms(1) this] show "snd t < thread_count c" "fst t < node_count c" .
qed

lemma ver_inv_init: "ver_inv c EBRObjectPool"
  by (simp add: ver_inv_defs EBRObjectPool_def)

lemma ver_inv_cong:
  assumes "ver_inv c s" "my_version s' = my_version s" "at_version s' = at_version s" "id_gen s' = id_gen s"
    "arriving s' = arriving s" "slot s' = slot s" "at_pc s' = at_pc s"
  shows "ver_inv c s'"
proof -
  have "pc_ok c s' t \<longleftrightarrow> pc_ok c s t" for t using assms(2-7) by (simp add: pc_ok_def split: ebr_pc.split)
  then show ?thesis using assms unfolding ver_inv_def ring_ok_def ids_ok_def slots_ok_def one_winner_def by presburger
qed

lemma pc_ok_mono:
  assumes "pc_ok c s t'" "at_pc s' t' = at_pc s t'" "slot s' t' = slot s t'" "\<And>u. slot s u \<le> slot s' u"
    "my_version s' = my_version s" "at_version s' = at_version s" "arriving s' = arriving s"
  shows "pc_ok c s' t'"
  using assms order_trans [OF _ assms(4)] by (auto simp: pc_ok_def split: ebr_pc.splits)

text \<open>The slot a thread has while it checks is the version it announced.\<close>

lemma announce_ver_inv:
  assumes I: "ver_inv c s" and t: "at_pc s t = Loaded v"
  shows "ver_inv c (announce t v s)"
proof -
  let ?s = "announce t v s"
  have v: "slot s t \<le> v" "v \<le> my_version s (fst t) + 1" using ver_invD(3) [OF I, of t] t by (simp_all add: pc_ok_def)
  have sl: "slot s u \<le> my_version s (fst u) + 1" for u by (rule ver_invD(1) [OF I])
  have f: "slot ?s = (slot s)(t := v)" "at_pc ?s = (at_pc s)(t := Checking v 0)"
    "my_version ?s = my_version s" "at_version ?s = at_version s" "arriving ?s = arriving s" "id_gen ?s = id_gen s"
    using v(1) by (auto simp: announce_def fun_eq_iff)
  have mono: "slot s u \<le> slot ?s u" for u using v(1) f(1) by auto
  have pc: "pc_ok c s u" for u by (rule ver_invD(3) [OF I])
  have "pc_ok c ?s u" for u
  proof (cases "u = t")
    case True
    then show ?thesis using f by (simp add: pc_ok_def)
  next
    case False
    then show ?thesis by (intro pc_ok_mono [OF pc [of u]]) (use f mono in simp_all)
  qed
  moreover have "at_version s k \<le> slot ?s (k, i)" if "i < thread_count c" for k i
    using ver_invD(2) [OF I that, of k] mono [of "(k, i)"] by (rule order_trans)
  moreover have "slot ?s u \<le> my_version s (fst u) + 1" for u using sl [of u] f(1) v(2) by simp
  moreover have "snd t < id_gen s (fst t)" using I t by (simp add: ver_inv_def ids_ok_def)
  ultimately show ?thesis using I f by (auto simp: ver_inv_def ring_ok_def ids_ok_def slots_ok_def one_winner_def)
qed

text \<open>Steps that only move the thread's program counter.\<close>

lemma pc_step_ver_inv:
  assumes "ver_inv c s" "at_pc s t \<noteq> Idle \<or> snd t < id_gen s (fst t)"
    "pc_ok c (s\<lparr>at_pc := (at_pc s)(t := p)\<rparr>) t" "\<forall>v. p \<noteq> Won v"
  shows "ver_inv c (s\<lparr>at_pc := (at_pc s)(t := p)\<rparr>)"
proof -
  let ?s = "s\<lparr>at_pc := (at_pc s)(t := p)\<rparr>"
  have "pc_ok c ?s u" for u
  proof (cases "u = t")
    case False
    then have "pc_ok c ?s u \<longleftrightarrow> pc_ok c s u" by (simp add: pc_ok_def split: ebr_pc.split)
    then show ?thesis using ver_invD(3) [OF assms(1)] by simp
  qed (use assms(3) in simp)
  then show ?thesis using assms(1,2,4) by (auto simp: ver_inv_def ring_ok_def ids_ok_def slots_ok_def one_winner_def)
qed

lemma match_start_ver_inv:
  assumes "ver_inv c s" "registered s t"
  shows "ver_inv c (match_start c t ov s)"
proof -
  let ?s = "s\<lparr>ops := (ops s)(t := ops s t + 1), held := (held s)(t := [])\<rparr>"
  have I: "ver_inv c ?s" by (rule ver_inv_cong [OF assms(1)]) simp_all
  have "ver_inv c (?s\<lparr>at_pc := (at_pc ?s)(t := Loaded (my_version ?s (fst t) + 1))\<rparr>)"
    by (rule pc_step_ver_inv [OF I])
      (use assms(2) ver_invD(1) [OF assms(1), of t] in \<open>simp_all add: registered_def pc_ok_def\<close>)
  then show ?thesis using I by (simp add: match_start_def Let_def)
qed

lemma match_exchange_ver_inv:
  assumes I: "ver_inv c s" and pc: "at_pc s t = Racing v"
  shows "ver_inv c (match_exchange t v s)"
proof -
  have run: "at_pc s t \<noteq> Idle" using pc by simp
  have P: "slot s t = v" "\<And>j. j < thread_count c \<Longrightarrow> v \<le> slot s (fst t, j)" "snd t < thread_count c"
    "fst t < node_count c"
    using ver_invD(3) [OF I, of t] ver_inv_running [OF I run] pc by (simp_all add: pc_ok_def)
  show ?thesis
  proof (cases "at_version s (fst t) = v")
    case True
    have "ver_inv c (s\<lparr>at_pc := (at_pc s)(t := Idle)\<rparr>)"
      by (rule pc_step_ver_inv [OF I]) (simp_all add: pc pc_ok_def)
    then show ?thesis
      by (rule ver_inv_cong) (use True in \<open>simp_all add: match_exchange_def Let_def fun_upd_idem\<close>)
  next
    case False
    let ?k = "fst t" and ?s = "match_exchange t v s"
    have "at_version s ?k \<le> slot s (?k, snd t)" by (rule ver_invD(2) [OF I P(3)])
    then have less: "at_version s ?k < v" using False P(1) by simp
    have f: "slot ?s = slot s" "at_pc ?s = (at_pc s)(t := Won v)" "my_version ?s = my_version s"
      "at_version ?s = (at_version s)(?k := v)" "arriving ?s = arriving s" "id_gen ?s = id_gen s"
      using False by (simp_all add: match_exchange_def Let_def)
    have ring: "w < v" if "w \<in> set (my_version s (next_node c ?k) # arriving s (next_node c ?k))" for w
    proof -
      have "w \<le> at_version s ?k" by (rule ver_invD(6) [OF I P(4) that])
      then show ?thesis using less by simp
    qed
    have no_winner: "\<not> (at_pc s u = Won w \<and> fst u = ?k)" for u w
    proof
      assume u: "at_pc s u = Won w \<and> fst u = ?k"
      have "pc_ok c s u" "snd u < thread_count c" using ver_invD(3) [OF I, of u] ver_inv_running [OF I, of u] u by simp_all
      then have "slot s u = at_version s ?k" "v \<le> slot s (fst u, snd u)" using u P(2) by (auto simp: pc_ok_def)
      then show False using less by simp
    qed
    have "pc_ok c ?s u" for u
    proof (cases "u = t")
      case True
      then show ?thesis using f P ring by (auto simp: pc_ok_def)
    next
      case False
      have "pc_ok c s u" by (rule ver_invD(3) [OF I])
      then show ?thesis using f False no_winner [of u] by (auto simp: pc_ok_def split: ebr_pc.splits)
    qed
    moreover have "at_version ?s k \<le> slot ?s (k, i)" if "i < thread_count c" for k i
      using I that P(2) f by (auto simp: ver_inv_def slots_ok_def)
    moreover have "w \<le> at_version ?s k" if "w \<le> at_version s k" for w k using that f less by auto
    moreover have "one_winner ?s"
      unfolding one_winner_def
    proof (intro allI impI)
      fix u u' w w' assume a: "at_pc ?s u = Won w \<and> at_pc ?s u' = Won w' \<and> fst u = fst u'"
      show "u = u'"
      proof (cases "u = t \<or> u' = t")
        case True
        then show ?thesis using a no_winner [of u w] no_winner [of u' w'] f(2) by (auto split: if_splits)
      next
        case False
        then have "at_pc s u = Won w" "at_pc s u' = Won w'" using a f(2) by auto
        then show ?thesis using a I unfolding ver_inv_def one_winner_def by blast
      qed
    qed
    moreover have "snd t < id_gen s (fst t)" using I pc by (simp add: ver_inv_def ids_ok_def)
    ultimately show ?thesis
      using I f by (auto simp: ver_inv_def ring_ok_def ids_ok_def slots_ok_def)
  qed
qed

lemma match_write_ver_inv:
  assumes I: "ver_inv c s" and pc: "at_pc s t = Won v"
  shows "ver_inv c (match_write c t v s)"
proof -
  let ?k = "fst t" and ?n = "next_node c (fst t)" and ?s = "match_write c t v s"
  have run: "at_pc s t \<noteq> Idle" using pc by simp
  have P: "slot s t = v" "at_version s ?k = v" "\<And>w. w \<in> set (my_version s ?n # arriving s ?n) \<Longrightarrow> w < v"
    "?k < node_count c"
    using ver_invD(3) [OF I, of t] ver_inv_running [OF I run] pc by (auto simp: pc_ok_def)
  have n: "?n < node_count c" using next_node_less P(4) by (metis gr_zeroI not_less_zero)
  have f: "slot ?s = slot s" "at_pc ?s = (at_pc s)(t := Idle)" "at_version ?s = at_version s" "id_gen ?s = id_gen s"
    by (simp_all add: match_write_def Let_def)
  have loop: "?n = ?k" if "next_node c ?n = ?n" using next_node_inj [OF n P(4)] that by simp
  have ids: "ids_ok c ?s" using I f n loop by (auto simp: ver_inv_def ids_ok_def match_write_def Let_def)
  have my: "my_version s k \<le> my_version ?s k" for k
    using P(3) [of "my_version s ?n"] by (auto simp: match_write_def Let_def less_imp_le)
  have slots: "slots_ok c ?s"
    unfolding slots_ok_def f
  proof (intro conjI allI impI)
    fix u show "slot s u \<le> my_version ?s (fst u) + 1" using ver_invD(1) [OF I, of u] my [of "fst u"] by linarith
  qed (rule ver_invD(2) [OF I])
  have "one_winner s" using I by (simp add: ver_inv_def)
  then have one: "one_winner ?s" using f by (auto simp: one_winner_def)
  have inj: "k = ?k" if "k < node_count c" "next_node c k = ?n" for k
    using next_node_inj [OF that(1) P(4) that(2)] .
  have ring: "ring_ok c ?s"
    unfolding ring_ok_def
  proof (intro allI impI)
    fix k assume k: "k < node_count c"
    show "sorted_wrt (<) (my_version ?s (next_node c k) # arriving ?s (next_node c k)) \<and>
      (\<forall>w \<in> set (my_version ?s (next_node c k) # arriving ?s (next_node c k)). w \<le> at_version ?s k)"
    proof (cases "k = ?k")
      case True
      have "sorted_wrt (<) (my_version s ?n # arriving s ?n)" using I P(4) by (simp add: ver_inv_def ring_ok_def)
      moreover have "?n = ?k \<Longrightarrow> arriving s ?n = []" using I by (simp add: ver_inv_def ids_ok_def)
      ultimately show ?thesis using True P(2,3)
        by (auto simp: match_write_def Let_def sorted_wrt_append less_imp_le)
    next
      case False
      then show ?thesis using I k inj [OF k] by (auto simp: match_write_def Let_def ver_inv_def ring_ok_def)
    qed
  qed
  have "pc_ok c ?s u" for u
  proof (cases "u = t")
    case False
    have u: "pc_ok c s u" by (rule ver_invD(3) [OF I])
    show ?thesis
    proof (cases "\<exists>w. at_pc s u = Won w")
      case True
      then obtain w where w: "at_pc s u = Won w" by blast
      have "fst u < node_count c" using ver_inv_running(2) [OF I, of u] w by simp
      moreover have "fst u \<noteq> ?k" using \<open>one_winner s\<close> w pc False by (auto simp: one_winner_def)
      ultimately have "next_node c (fst u) \<noteq> ?n" using inj by blast
      then show ?thesis using u w f False by (simp add: pc_ok_def match_write_def Let_def)
    next
      case no: False
      then show ?thesis using u f False my [of "fst u"] by (auto simp: pc_ok_def split: ebr_pc.splits)
    qed
  qed (simp add: pc_ok_def f)
  with ring ids slots one show ?thesis by (simp add: ver_inv_def)
qed


lemma match_next_ver_inv:
  assumes I: "ver_inv c s" and n: "match_next c t s = Some s'"
  shows "ver_inv c s'"
proof (cases "at_pc s t")
  case (Loaded v)
  then show ?thesis using announce_ver_inv [OF I Loaded] n by (simp add: match_next_def)
next
  case (Checking v i)
  have P: "slot s t = v" "\<forall>j < i. v \<le> slot s (fst t, j)" using ver_invD(3) [OF I, of t] Checking by (simp_all add: pc_ok_def)
  have "ver_inv c (match_check c t v i s)"
    unfolding match_check_def
    by (rule pc_step_ver_inv [OF I]) (use P in \<open>auto simp: Checking pc_ok_def less_Suc_eq\<close>)
  then show ?thesis using n Checking by (simp add: match_next_def)
next
  case (Passed v)
  have P: "slot s t = v" "\<forall>j < thread_count c. v \<le> slot s (fst t, j)"
    using ver_invD(3) [OF I, of t] Passed by (simp_all add: pc_ok_def)
  have "ver_inv c (match_load t v s)"
    unfolding match_load_def
    by (rule pc_step_ver_inv [OF I]) (use P in \<open>auto simp: Passed pc_ok_def\<close>)
  then show ?thesis using n Passed by (simp add: match_next_def)
next
  case (Racing v)
  then show ?thesis using match_exchange_ver_inv [OF I Racing] n by (simp add: match_next_def)
next
  case (Won v)
  then show ?thesis using match_write_ver_inv [OF I Won] n by (simp add: match_next_def)
qed (use n in \<open>simp add: match_next_def\<close>)

lemma register_ver_inv:
  assumes I: "ver_inv c s" and "k < node_count c" and r: "RegisterThread c k s = Some s'"
  shows "ver_inv c s'"
proof -
  have f: "id_gen s' = (id_gen s)(k := id_gen s k + 1)" "id_gen s k < thread_count c" "slot s' = slot s" "at_pc s' = at_pc s"
    "my_version s' = my_version s" "at_version s' = at_version s" "arriving s' = arriving s"
    using r by (auto simp: RegisterThread_def split: if_splits)
  have "pc_ok c s' t" for t using ver_invD(3) [OF I, of t] f by (simp add: pc_ok_def split: ebr_pc.splits)
  moreover have "ids_ok c s'" using I f assms(2) by (auto simp: ver_inv_def ids_ok_def less_SucI)
  ultimately show ?thesis using I f by (simp add: ver_inv_def ring_ok_def slots_ok_def one_winner_def)
qed

lemma arrive_ver_inv:
  assumes I: "ver_inv c s" and a: "arriving s k = v # vs"
  shows "ver_inv c (s\<lparr>my_version := (my_version s)(k := v), arriving := (arriving s)(k := vs)\<rparr>)" (is "ver_inv c ?s")
proof -
  have k: "k < node_count c" using I a by (fastforce simp: ver_inv_def ids_ok_def not_less [symmetric])
  obtain k' where k': "k' < node_count c" "next_node c k' = k" using next_node_surj [OF k] .
  have less: "my_version s k < v" using ver_invD(5) [OF I k'(1)] k'(2) a by simp
  have "pc_ok c ?s t" for t
    using ver_invD(3) [OF I, of t] a less by (auto simp: pc_ok_def split: ebr_pc.splits)
  moreover have "ring_ok c ?s" using I a by (auto simp: ver_inv_def ring_ok_def)
  moreover have "ids_ok c ?s" using I a by (auto simp: ver_inv_def ids_ok_def)
  moreover have "slots_ok c ?s"
    unfolding slots_ok_def
  proof (intro conjI allI impI)
    fix t show "slot ?s t \<le> my_version ?s (fst t) + 1" using ver_invD(1) [OF I, of t] less by auto
  next
    fix j i assume "i < thread_count c"
    then show "at_version ?s j \<le> slot ?s (j, i)" using ver_invD(2) [OF I, of i j] by simp
  qed
  ultimately show ?thesis using I by (simp add: ver_inv_def one_winner_def)
qed

lemma ebr_step_ver_inv:
  assumes "ebr_step c act s = Some s'" "ver_inv c s"
  shows "ver_inv c s'"
proof (cases act)
  case (Register k)
  then show ?thesis using assms register_ver_inv by (auto simp: ebr_step_def split: if_splits)
next
  case (Match t ov)
  then show ?thesis using assms match_start_ver_inv [of c s t ov] by (simp add: ebr_step_def split: if_splits)
next
  case (Continue t)
  then show ?thesis using assms match_next_ver_inv by (simp add: ebr_step_def)
next
  case (Arrive k)
  then show ?thesis using assms arrive_ver_inv by (auto simp: ebr_step_def split: list.splits)
next
  case (Allocate t x)
  then show ?thesis using assms
    by (auto simp: ebr_step_def allocate_def split: if_splits list.splits intro: ver_inv_cong)
next
  case (Give_back t x)
  then show ?thesis using assms by (auto simp: ebr_step_def deallocate_def split: if_splits intro: ver_inv_cong)
next
  case (Requeue t x)
  then show ?thesis using assms by (auto simp: ebr_step_def requeue_def split: if_splits intro: ver_inv_cong)
qed (use assms in \<open>auto simp: ebr_step_def split: if_splits intro: ver_inv_cong\<close>)


section \<open>Objects\<close>

definition limbo_set :: "'o ebr \<Rightarrow> ebr_tid \<Rightarrow> 'o set" where
  "limbo_set s t = set (concat (limbo s t))"

definition obj_inv :: "'o ebr \<Rightarrow> bool" where
  "obj_inv s \<longleftrightarrow> (\<forall>t. length (limbo s t) = 3 \<and> distinct (concat (limbo s t))) \<and>
     (\<forall>t. snd t \<ge> id_gen s (fst t) \<longrightarrow> limbo s t = [[], [], []]) \<and>
     (\<forall>t t'. t \<noteq> t' \<longrightarrow> limbo_set s t \<inter> limbo_set s t' = {}) \<and>
     (\<forall>t. \<forall>x \<in> limbo_set s t. status s x = Some In_limbo)"

lemma length3: "length qs = 3 \<longleftrightarrow> (\<exists>a b c. qs = [a, b, c])"
  by (auto simp: eval_nat_numeral length_Suc_conv)

lemma obj_inv_init: "obj_inv EBRObjectPool"
  by (simp add: obj_inv_def EBRObjectPool_def limbo_set_def)

lemma obj_invD:
  assumes "obj_inv s"
  shows "length (limbo s t) = 3" "distinct (concat (limbo s t))" "x \<in> limbo_set s t \<Longrightarrow> status s x = Some In_limbo"
    "snd t \<ge> id_gen s (fst t) \<Longrightarrow> limbo s t = [[], [], []]"
    "t \<noteq> t' \<Longrightarrow> x \<in> limbo_set s t \<Longrightarrow> x \<notin> limbo_set s t'"
  using assms unfolding obj_inv_def by blast+

text \<open>One thread's lists change from one step to the next.\<close>

lemma obj_inv_update:
  assumes I: "obj_inv s" and l: "limbo s' = (limbo s)(t := qs)" and g: "id_gen s' = id_gen s"
    and qs: "length qs = 3" "distinct (concat qs)" "snd t \<ge> id_gen s (fst t) \<Longrightarrow> qs = [[], [], []]"
    and new: "\<And>x. x \<in> set (concat qs) \<Longrightarrow> x \<in> limbo_set s t \<or> status s x \<noteq> Some In_limbo"
    and st: "\<And>x. x \<in> set (concat qs) \<Longrightarrow> status s' x = Some In_limbo"
      "\<And>x. x \<notin> limbo_set s t \<Longrightarrow> status s x = Some In_limbo \<Longrightarrow> status s' x = Some In_limbo"
  shows "obj_inv s'"
proof -
  have ls: "limbo_set s' u = (if u = t then set (concat qs) else limbo_set s u)" for u
    by (simp add: limbo_set_def l)
  have other: "x \<notin> limbo_set s u" if "u \<noteq> t" "x \<in> set (concat qs)" for u x
  proof
    assume u: "x \<in> limbo_set s u"
    from new [OF that(2)] show False
      using obj_invD(5) [OF I that(1) u] obj_invD(3) [OF I u] by simp
  qed
  show ?thesis
    unfolding obj_inv_def
  proof (intro conjI allI impI ballI)
    fix u show "length (limbo s' u) = 3" "distinct (concat (limbo s' u))" using obj_invD(1,2) [OF I] l qs by auto
  next
    fix u assume "snd u \<ge> id_gen s' (fst u)"
    then show "limbo s' u = [[], [], []]" using obj_invD(4) [OF I] l g qs(3) by auto
  next
    fix u u' :: ebr_tid assume "u \<noteq> u'"
    then show "limbo_set s' u \<inter> limbo_set s' u' = {}"
      using ls [of u] ls [of u'] other [of u] other [of u'] obj_invD(5) [OF I, of u u']
      by (cases "u = t"; cases "u' = t") (simp_all add: disjoint_iff, blast+)
  next
    fix u x assume x: "x \<in> limbo_set s' u"
    show "status s' x = Some In_limbo"
    proof (cases "u = t")
      case True
      then show ?thesis using x ls st(1) by simp
    next
      case False
      then have "x \<in> limbo_set s u" using x ls by simp
      then show ?thesis using obj_invD(3,5) [OF I] False by (intro st(2)) blast+
    qed
  qed
qed

lemma obj_inv_same:
  assumes "obj_inv s" "limbo s' = limbo s" "id_gen s' = id_gen s" "\<And>x. status s x = Some In_limbo \<Longrightarrow> status s' x = Some In_limbo"
  shows "obj_inv s'"
  using assms unfolding obj_inv_def limbo_set_def by simp

lemma push_to_laws:
  assumes "length qs = 3" "i < 3"
  shows "length (push_to i x qs) = 3" "set (concat (push_to i x qs)) = insert x (set (concat qs))"
    "x \<notin> set (concat qs) \<Longrightarrow> distinct (concat qs) \<Longrightarrow> distinct (concat (push_to i x qs))"
proof -
  obtain a b c where qs: "qs = [a, b, c]" using assms(1) by (auto simp: length3)
  have "i = 0 \<or> i = 1 \<or> i = 2" using assms(2) by auto
  then show "length (push_to i x qs) = 3" "set (concat (push_to i x qs)) = insert x (set (concat qs))"
    "x \<notin> set (concat qs) \<Longrightarrow> distinct (concat qs) \<Longrightarrow> distinct (concat (push_to i x qs))"
    by (auto simp: push_to_def qs)
qed

lemma push_obj_inv:
  assumes I: "obj_inv s" and r: "registered s t" and "i < 3" and x: "status s x \<noteq> Some In_limbo"
    and s': "limbo s' = (limbo s)(t := push_to i x (limbo s t))" "id_gen s' = id_gen s"
      "status s' = (status s)(x \<mapsto> In_limbo)"
  shows "obj_inv s'"
proof (rule obj_inv_update [OF I s'(1,2)])
  note P = push_to_laws [OF obj_invD(1) [OF I, of t] assms(3), of x]
  have n: "x \<notin> limbo_set s t" using x obj_invD(3) [OF I, of x t] by blast
  then show "length (push_to i x (limbo s t)) = 3" "distinct (concat (push_to i x (limbo s t)))"
    using P(1,3) obj_invD(2) [OF I] by (auto simp: limbo_set_def)
  show "push_to i x (limbo s t) = [[], [], []]" if "id_gen s (fst t) \<le> snd t"
    using r that by (simp add: registered_def)
  show "y \<in> limbo_set s t \<or> status s y \<noteq> Some In_limbo" "status s' y = Some In_limbo"
    if "y \<in> set (concat (push_to i x (limbo s t)))" for y
    using that P(2) x obj_invD(3) [OF I, of y t] s'(3) by (auto simp: limbo_set_def)
qed (simp add: s')

lemma allocate_obj_inv:
  assumes I: "obj_inv s" and r: "registered s t" and f: "status s fresh = None"
    and a: "allocate t fresh s = (x, s')"
  shows "obj_inv s'" "status s x = None \<or> x \<in> set (limbo s t ! 0)" "x \<notin> limbo_set s' u" "status s' x = Some (Private t)"
proof -
  obtain q0 q1 q2 where q: "limbo s t = [q0, q1, q2]" using obj_invD(1) [OF I, of t] by (auto simp: length3)
  have main: "obj_inv s' \<and> (status s x = None \<or> x \<in> set (limbo s t ! 0)) \<and> x \<notin> limbo_set s' u \<and> status s' x = Some (Private t)"
  proof (cases q0)
    case Nil
    then have s': "x = fresh" "s' = s\<lparr>status := (status s)(fresh \<mapsto> Private t)\<rparr>" using a q by (auto simp: allocate_def)
    have "obj_inv s'" unfolding s' by (rule obj_inv_same [OF I]) (use f in auto)
    moreover have "fresh \<notin> limbo_set s u" using obj_invD(3) [OF I, of fresh u] f by auto
    ultimately show ?thesis using f s' by (simp add: limbo_set_def)
  next
    case (Cons y q')
    then have s': "x = y" "s' = s\<lparr>limbo := (limbo s)(t := [q', q1, q2]), status := (status s)(y \<mapsto> Private t)\<rparr>"
      using a q by (auto simp: allocate_def)
    have d: "distinct (y # q' @ q1 @ q2)" using obj_invD(2) [OF I, of t] q Cons by auto
    have y: "y \<in> limbo_set s t" using q Cons by (simp add: limbo_set_def)
    have "obj_inv s'"
      by (rule obj_inv_update [OF I, where t = t and qs = "[q', q1, q2]"])
        (use d q Cons s' r obj_invD(3) [OF I, of _ t] y in \<open>auto simp: registered_def limbo_set_def\<close>)
    moreover have "y \<notin> limbo_set s' u"
      using obj_invD(5) [OF I _ y, of u] d s' by (auto simp: limbo_set_def)
    ultimately show ?thesis using s' Cons q by simp
  qed
  then show "obj_inv s'" "status s x = None \<or> x \<in> set (limbo s t ! 0)" "x \<notin> limbo_set s' u" "status s' x = Some (Private t)"
    by simp_all
qed

lemma announce_obj_inv:
  assumes "obj_inv s" "snd t < id_gen s (fst t)"
  shows "obj_inv (announce t v s)"
proof -
  obtain a b c where q: "limbo s t = [a, b, c]" using obj_invD(1) [OF assms(1), of t] by (auto simp: length3)
  show ?thesis
  proof (cases "slot s t < v")
    case True
    show ?thesis
      by (rule obj_inv_update [OF assms(1), where t = t and qs = "[b, c, a]"])
        (use True q assms obj_invD(2) [OF assms(1), of t] obj_invD(3) [OF assms(1), of _ t] in
          \<open>auto simp: announce_def limbo_set_def\<close>)
  next
    case False
    show ?thesis by (rule obj_inv_same [OF assms(1)]) (use False in \<open>simp_all add: announce_def\<close>)
  qed
qed

lemma match_next_frame:
  assumes "match_next c t s = Some s'" and "\<forall>v. at_pc s t \<noteq> Loaded v"
  shows "limbo s' = limbo s" "id_gen s' = id_gen s" "status s' = status s" "slot s' = slot s" "since s' = since s"
    "held s' = held s"
  using assms
  by (auto simp: match_next_def match_check_def match_load_def match_exchange_def match_write_def Let_def
      split: ebr_pc.splits)

lemma ebr_step_obj_inv:
  assumes st: "ebr_step c act s = Some s'" and V: "ver_inv c s" and I: "obj_inv s"
  shows "obj_inv s'"
proof (cases act)
  case (Register k)
  then have s': "id_gen s' = (id_gen s)(k := id_gen s k + 1)" "limbo s' = (limbo s)((k, id_gen s k) := [[], [], []])"
    "status s' = status s"
    using st by (auto simp: ebr_step_def RegisterThread_def split: if_splits)
  have "limbo s (k, id_gen s k) = [[], [], []]" by (rule obj_invD(4) [OF I]) simp
  then have "limbo s' = limbo s" using s'(2) by (simp add: fun_upd_idem)
  moreover have "limbo s u = [[], [], []]" if "id_gen s' (fst u) \<le> snd u" for u
    using that s'(1) obj_invD(4) [OF I, of u] by (auto split: if_splits)
  ultimately show ?thesis using I s'(3) unfolding obj_inv_def limbo_set_def by presburger
next
  case (Match t ov)
  then have r: "registered s t" and s': "s' = match_start c t ov s" using st by (auto simp: ebr_step_def split: if_splits)
  then show ?thesis by (intro obj_inv_same [OF I]) (simp_all add: match_start_def Let_def)
next
  case (Continue t)
  then have n: "match_next c t s = Some s'" using st by (simp add: ebr_step_def)
  show ?thesis
  proof (cases "\<exists>v. at_pc s t = Loaded v")
    case True
    then obtain v where v: "at_pc s t = Loaded v" by blast
    have "snd t < id_gen s (fst t)" using V v by (simp add: ver_inv_def ids_ok_def)
    from announce_obj_inv [OF I this, of v] show ?thesis using n v by (simp add: match_next_def)
  next
    case False
    then have "\<forall>v. at_pc s t \<noteq> Loaded v" by blast
    note F = match_next_frame [OF n this]
    show ?thesis by (rule obj_inv_same [OF I]) (simp_all add: F)
  qed
next
  case (Arrive k)
  then show ?thesis using st by (auto simp: ebr_step_def split: list.splits intro: obj_inv_same [OF I])
next
  case (Allocate t x)
  then have "registered s t" "status s x = None" "s' = snd (allocate t x s)" using st by (auto simp: ebr_step_def split: if_splits)
  then show ?thesis using allocate_obj_inv(1) [OF I, of t x "fst (allocate t x s)" s'] by simp
next
  case (Give_back t x)
  then have a: "registered s t" "status s x = Some (Unlinked t)" "s' = deallocate t x s"
    using st by (auto simp: ebr_step_def split: if_splits)
  show ?thesis by (rule push_obj_inv [OF I a(1), of 2 x]) (use a(2,3) in \<open>simp_all add: deallocate_def\<close>)
next
  case (Requeue t x)
  then have a: "registered s t" "status s x = Some (Private t)" "s' = requeue t x s"
    using st by (auto simp: ebr_step_def split: if_splits)
  show ?thesis by (rule push_obj_inv [OF I a(1), of 0 x]) (use a(2,3) in \<open>simp_all add: requeue_def\<close>)
qed (use st in \<open>auto simp: ebr_step_def split: if_splits intro!: obj_inv_same [OF I]\<close>)


section \<open>Quarantine\<close>

text \<open>
  An object that was given back at slot \<open>a\<close> waits one rotation of its owner in each list; a
  thread's held objects were taken in its current epoch.
\<close>

definition grace_inv :: "'o ebr \<Rightarrow> bool" where
  "grace_inv s \<longleftrightarrow>
     (\<forall>t x a. \<forall>j < 3. x \<in> set (limbo s t ! j) \<and> since s x = Some a \<longrightarrow> a + 2 \<le> slot s t + j) \<and>
     (\<forall>t x a. status s x = Some (Private t) \<and> since s x = Some a \<longrightarrow> a + 2 \<le> slot s t) \<and>
     (\<forall>x. status s x = None \<longrightarrow> since s x = None) \<and>
     (\<forall>t x b. (x, b) \<in> set (held s t) \<longrightarrow> b = slot s t \<and> snd t < id_gen s (fst t)) \<and>
     (\<forall>t v. at_pc s t = Loaded v \<longrightarrow> held s t = [])"

lemma grace_invD:
  assumes "grace_inv s"
  shows "j < 3 \<Longrightarrow> x \<in> set (limbo s t ! j) \<Longrightarrow> since s x = Some a \<Longrightarrow> a + 2 \<le> slot s t + j"
    "status s x = Some (Private t) \<Longrightarrow> since s x = Some a \<Longrightarrow> a + 2 \<le> slot s t"
    "status s x = None \<Longrightarrow> since s x = None"
    "(x, b) \<in> set (held s t) \<Longrightarrow> b = slot s t" "(x, b) \<in> set (held s t) \<Longrightarrow> snd t < id_gen s (fst t)"
    "at_pc s t = Loaded v \<Longrightarrow> held s t = []"
  using assms unfolding grace_inv_def by blast+

lemma grace_inv_init: "grace_inv EBRObjectPool"
  by (auto simp: grace_inv_def EBRObjectPool_def nth_Cons split: nat.splits)

lemma grace_inv_same:
  assumes "grace_inv s" "limbo s' = limbo s" "slot s' = slot s" "since s' = since s" "held s' = held s"
    "\<And>k. id_gen s k \<le> id_gen s' k"
    "\<And>t v. at_pc s' t = Loaded v \<Longrightarrow> at_pc s t = Loaded v \<or> held s t = []"
    "\<And>x t. status s' x = Some (Private t) \<Longrightarrow> status s x = Some (Private t)" "\<And>x. status s' x = None \<Longrightarrow> status s x = None"
  shows "grace_inv s'"
  unfolding grace_inv_def assms(2-5)
proof (intro conjI allI impI)
  fix t v assume "at_pc s' t = Loaded v"
  then show "held s t = []" using assms(7) grace_invD(6) [OF assms(1)] by blast
next
  fix t x b assume "(x, b) \<in> set (held s t)"
  then show "b = slot s t" "snd t < id_gen s' (fst t)"
    using grace_invD(4,5) [OF assms(1)] less_le_trans [OF _ assms(6)] by blast+
qed (use grace_invD(1-3) [OF assms(1)] assms(8,9) in blast)+

lemma announce_grace_inv:
  assumes G: "grace_inv s" and O: "obj_inv s" and h: "held s t = []"
  shows "grace_inv (announce t n s)"
proof (cases "slot s t < n")
  case False
  show ?thesis by (rule grace_inv_same [OF G]) (use False h in \<open>auto simp: announce_def split: if_splits\<close>)
next
  case True
  obtain a b c where q: "limbo s t = [a, b, c]" using obj_invD(1) [OF O, of t] by (auto simp: length3)
  let ?s = "announce t n s"
  have f: "slot ?s = (slot s)(t := n)" "limbo ?s = (limbo s)(t := [b, c, a])" "since ?s = since s"
    "status ?s = status s" "held ?s = held s" "id_gen ?s = id_gen s" "at_pc ?s = (at_pc s)(t := Checking n 0)"
    using True q by (simp_all add: announce_def)
  have g: "since s x = Some v \<Longrightarrow> x \<in> set b \<Longrightarrow> v + 1 \<le> slot s t" "since s x = Some v \<Longrightarrow> x \<in> set c \<Longrightarrow> v \<le> slot s t"
    "since s x = Some v \<Longrightarrow> x \<in> set a \<Longrightarrow> v + 2 \<le> slot s t" for x v
    using grace_invD(1) [OF G, of 1 x t v] grace_invD(1) [OF G, of 2 x t v] grace_invD(1) [OF G, of 0 x t v] q by auto
  show ?thesis
    unfolding grace_inv_def
  proof (intro conjI allI impI)
    fix u x v and j :: nat assume j: "j < 3" and x: "x \<in> set (limbo ?s u ! j) \<and> since ?s x = Some v"
    show "v + 2 \<le> slot ?s u + j"
    proof (cases "u = t")
      case True
      have "j = 0 \<or> j = 1 \<or> j = 2" using j by auto
      then show ?thesis using x f g [of x v] True \<open>slot s t < n\<close> by auto
    next
      case False
      then show ?thesis using grace_invD(1) [OF G j, of x u v] x f by simp
    qed
  next
    fix u x v assume "status ?s x = Some (Private u) \<and> since ?s x = Some v"
    then have "v + 2 \<le> slot s u" using grace_invD(2) [OF G, of x u v] f by simp
    then show "v + 2 \<le> slot ?s u" using f True by auto
  next
    fix x assume "status ?s x = None"
    then show "since ?s x = None" using grace_invD(3) [OF G] f by simp
  next
    fix u x v assume "(x, v) \<in> set (held ?s u)"
    then show "v = slot ?s u" "snd u < id_gen ?s (fst u)" using grace_invD(4,5) [OF G, of x v u] f h by auto
  next
    fix u v assume "at_pc ?s u = Loaded v"
    then show "held ?s u = []" using grace_invD(6) [OF G, of u v] f by (auto split: if_splits)
  qed
qed

lemma push_grace_inv:
  assumes G: "grace_inv s" and O: "obj_inv s" and i: "i < 3" and x: "status s x \<noteq> Some In_limbo" "status s x \<noteq> None"
    and f: "limbo s' = (limbo s)(t := push_to i x (limbo s t))" "status s' = (status s)(x \<mapsto> In_limbo)"
      "slot s' = slot s" "held s' = held s" "id_gen s' = id_gen s" "at_pc s' = at_pc s"
    and si: "\<And>y. y \<noteq> x \<Longrightarrow> since s' y = since s y" "\<And>a. since s' x = Some a \<Longrightarrow> a + 2 \<le> slot s t + i"
  shows "grace_inv s'"
proof -
  have nx: "x \<notin> limbo_set s u" for u using obj_invD(3) [OF O, of x u] x(1) by blast
  have nin: "x \<notin> set (limbo s u ! j)" if "j < 3" for u j
    using nx [of u] that obj_invD(1) [OF O, of u] by (auto simp: limbo_set_def)
  have len: "length (limbo s t) = 3" by (rule obj_invD(1) [OF O])
  show ?thesis
    unfolding grace_inv_def
  proof (intro conjI allI impI)
    fix u y a and j :: nat assume j: "j < 3" and y: "y \<in> set (limbo s' u ! j) \<and> since s' y = Some a"
    show "a + 2 \<le> slot s' u + j"
    proof (cases "y = x")
      case True
      then have "u = t" "j = i" using y nin [OF j] f(1) len j i by (auto simp: push_to_def nth_list_update split: if_splits)
      then show ?thesis using si(2) y True f(3) by simp
    next
      case False
      then have "y \<in> set (limbo s u ! j)" using y f(1) len j i by (auto simp: push_to_def nth_list_update split: if_splits)
      then show ?thesis using grace_invD(1) [OF G j, of y u a] y si(1) [OF False] f(3) by simp
    qed
  next
    fix u y a assume y: "status s' y = Some (Private u) \<and> since s' y = Some a"
    then have "y \<noteq> x" using f(2) by auto
    then show "a + 2 \<le> slot s' u" using y grace_invD(2) [OF G, of y u a] si(1) f by simp
  next
    fix y assume y: "status s' y = None"
    then have "y \<noteq> x" using f(2) by auto
    then show "since s' y = None" using y grace_invD(3) [OF G, of y] si(1) f by simp
  next
    fix u y b assume "(y, b) \<in> set (held s' u)"
    then show "b = slot s' u" "snd u < id_gen s' (fst u)" using grace_invD(4,5) [OF G, of y b u] f by auto
  next
    fix u v assume "at_pc s' u = Loaded v"
    then show "held s' u = []" using grace_invD(6) [OF G, of u v] f by simp
  qed
qed

lemma allocate_grace_inv:
  assumes G: "grace_inv s" and O: "obj_inv s" and a: "allocate t fresh s = (x, s')" and f: "status s fresh = None"
  shows "grace_inv s'"
proof -
  obtain q0 q1 q2 where q: "limbo s t = [q0, q1, q2]" using obj_invD(1) [OF O, of t] by (auto simp: length3)
  have e: "status s' = (status s)(x \<mapsto> Private t)" "slot s' = slot s" "since s' = since s" "held s' = held s" "id_gen s' = id_gen s"
    "at_pc s' = at_pc s"
    using a by (auto simp: allocate_def split: list.splits)
  have l: "y \<in> set (limbo s u ! j)" if "y \<in> set (limbo s' u ! j)" "j < 3" for y u j
    using a that q by (cases j; cases "u = t") (auto simp: allocate_def split: list.splits)
  have x: "since s x = None \<or> x \<in> set (limbo s t ! 0)"
    using a q f grace_invD(3) [OF G] by (auto simp: allocate_def split: list.splits)
  show ?thesis
    unfolding grace_inv_def
  proof (intro conjI allI impI)
    fix u y v and j :: nat assume "j < 3" "y \<in> set (limbo s' u ! j) \<and> since s' y = Some v"
    then show "v + 2 \<le> slot s' u + j" using grace_invD(1) [OF G, of j y u v] l e by simp
  next
    fix u y v assume y: "status s' y = Some (Private u) \<and> since s' y = Some v"
    show "v + 2 \<le> slot s' u"
    proof (cases "y = x")
      case True
      then show ?thesis using y x e grace_invD(1) [OF G, of 0 y t v] by auto
    next
      case False
      then show ?thesis using y e grace_invD(2) [OF G, of y u v] by simp
    qed
  next
    fix y assume "status s' y = None"
    then show "since s' y = None" using grace_invD(3) [OF G, of y] e by (simp split: if_splits)
  next
    fix u y b assume "(y, b) \<in> set (held s' u)"
    then show "b = slot s' u" "snd u < id_gen s' (fst u)" using grace_invD(4,5) [OF G, of y b u] e by auto
  next
    fix u v assume "at_pc s' u = Loaded v"
    then show "held s' u = []" using grace_invD(6) [OF G, of u v] e by simp
  qed
qed

lemma ebr_step_grace_inv:
  assumes st: "ebr_step c act s = Some s'" and O: "obj_inv s" and G: "grace_inv s"
  shows "grace_inv s'"
proof (cases act)
  case (Register k)
  have "limbo s (k, id_gen s k) = [[], [], []]" by (rule obj_invD(4) [OF O]) simp
  then show ?thesis using st Register
    by (intro grace_inv_same [OF G]) (auto simp: ebr_step_def RegisterThread_def fun_upd_idem split: if_splits)
next
  case (Match t ov)
  then have s': "s' = match_start c t ov s" using st by (auto simp: ebr_step_def split: if_splits)
  let ?s = "s\<lparr>ops := (ops s)(t := ops s t + 1), held := (held s)(t := [])\<rparr>"
  have "grace_inv ?s" using G unfolding grace_inv_def by simp
  moreover from this have "grace_inv (?s\<lparr>at_pc := (at_pc ?s)(t := p)\<rparr>)" for p
    by (rule grace_inv_same) (auto split: if_splits)
  ultimately show ?thesis using s' by (simp add: match_start_def Let_def)
next
  case (Continue t)
  then have n: "match_next c t s = Some s'" using st by (simp add: ebr_step_def)
  show ?thesis
  proof (cases "\<exists>v. at_pc s t = Loaded v")
    case True
    then obtain v where v: "at_pc s t = Loaded v" by blast
    from announce_grace_inv [OF G O grace_invD(6) [OF G v], of v] show ?thesis using n v by (simp add: match_next_def)
  next
    case False
    then have nl: "\<forall>v. at_pc s t \<noteq> Loaded v" by blast
    note F = match_next_frame [OF n nl]
    have "at_pc s u = Loaded v" if "at_pc s' u = Loaded v" for u v
      using n nl that by (cases "u = t") (auto simp: match_next_def match_check_def match_load_def match_exchange_def
          match_write_def Let_def split: ebr_pc.splits if_splits)
    then show ?thesis by (intro grace_inv_same [OF G]) (simp_all add: F)
  qed
next
  case (Allocate t x)
  then have "status s x = None" "s' = snd (allocate t x s)" using st by (auto simp: ebr_step_def split: if_splits)
  then show ?thesis using allocate_grace_inv [OF G O, of t x "fst (allocate t x s)" s'] by simp
next
  case (Take t x)
  then have "registered s t" "s' = s\<lparr>held := (held s)(t := (x, slot s t) # held s t)\<rparr>"
    using st by (auto simp: ebr_step_def split: if_splits)
  then show ?thesis using G unfolding grace_inv_def registered_def by (simp split: if_splits)
next
  case (Give_back t x)
  then have a: "status s x = Some (Unlinked t)" "s' = deallocate t x s" using st by (auto simp: ebr_step_def split: if_splits)
  show ?thesis by (rule push_grace_inv [OF G O, where i = 2 and x = x and t = t]) (use a in \<open>simp_all add: deallocate_def\<close>)
next
  case (Requeue t x)
  then have a: "status s x = Some (Private t)" "s' = requeue t x s" using st by (auto simp: ebr_step_def split: if_splits)
  show ?thesis
    by (rule push_grace_inv [OF G O, where i = 0 and x = x and t = t]) (use a grace_invD(2) [OF G a(1)] in \<open>simp_all add: requeue_def\<close>)
next
  case (Arrive k)
  then show ?thesis using st by (intro grace_inv_same [OF G]) (auto simp: ebr_step_def split: list.splits)
qed (use st in \<open>auto simp: ebr_step_def split: if_splits intro!: grace_inv_same [OF G]\<close>)

section \<open>All invariants of a run\<close>

definition ebr_inv :: "ebr_cfg \<Rightarrow> 'o ebr \<Rightarrow> bool" where
  "ebr_inv c s \<longleftrightarrow> ver_inv c s \<and> obj_inv s \<and> grace_inv s"

lemma ebr_run_inv:
  assumes "ebr_run c as EBRObjectPool = Some s"
  shows "ver_inv c s" "obj_inv s" "grace_inv s"
proof -
  have "ebr_inv c s"
  proof (rule ebr_run_induct [OF assms])
    show "ebr_inv c EBRObjectPool" by (simp add: ebr_inv_def ver_inv_init obj_inv_init grace_inv_init)
  qed (use ebr_step_ver_inv ebr_step_obj_inv ebr_step_grace_inv in \<open>unfold ebr_inv_def, blast\<close>)
  then show "ver_inv c s" "obj_inv s" "grace_inv s" by (simp_all add: ebr_inv_def)
qed


lemma limbo_registered: "obj_inv s \<Longrightarrow> x \<in> set (limbo s t ! 0) \<Longrightarrow> snd t < id_gen s (fst t)"
  using obj_invD(4) [of s t] by (cases "snd t < id_gen s (fst t)") auto

text \<open>What \<open>allocate\<close> returns is new memory or the head of the thread's first list.\<close>

lemma allocate_result:
  assumes "grace_inv s" "status s fresh = None" "allocate t fresh s = (x, s')" "since s x = Some a"
  shows "x \<in> set (limbo s t ! 0)"
  using assms(3,4) grace_invD(3) [OF assms(1,2)] by (auto simp: allocate_def split: list.splits)

lemma ebr_run_reuse:
  assumes "node_count c = 1" and "ebr_run c as EBRObjectPool = Some s" and "status s fresh = None"
    and "allocate t fresh s = (x, s')" and "since s x = Some a" and "(x, b) \<in> set (held s u)"
  shows "a < b"
proof -
  note V = ebr_run_inv(1) [OF assms(2)] and O = ebr_run_inv(2) [OF assms(2)] and G = ebr_run_inv(3) [OF assms(2)]
  have x: "x \<in> set (limbo s t ! 0)" by (rule allocate_result [OF G assms(3-5)])
  have t: "fst t = 0" using ver_inv_ids(2) [OF V limbo_registered [OF O x]] assms(1) by simp
  have u: "fst u = 0" "snd u < thread_count c" using ver_inv_ids [OF V grace_invD(5) [OF G assms(6)]] assms(1) by auto
  have "a + 2 \<le> slot s t" using grace_invD(1) [OF G _ x assms(5)] by simp
  also have "\<dots> \<le> my_version s 0 + 1" using ver_invD(1) [OF V, of t] t by simp
  finally have "a + 1 \<le> my_version s 0" by simp
  also have "\<dots> \<le> at_version s 0" using ver_invD(6) [OF V, of 0 "my_version s 0"] assms(1) by (simp add: next_node_def)
  also have "\<dots> \<le> slot s u" using ver_invD(2) [OF V u(2), of 0] u(1) by (metis prod.collapse)
  finally show ?thesis using grace_invD(4) [OF G assms(6)] by simp
qed

text \<open>Around the ring no node's epoch gets further from another's than the nodes between them.\<close>

lemma ring_skew:
  assumes "ver_inv c s" and "0 < thread_count c" and "k < node_count c"
  shows "at_version s ((k + j) mod node_count c) \<le> at_version s k + j"
proof (induction j)
  case 0
  then show ?case using assms(3) by simp
next
  case (Suc j)
  note V = assms(1)
  let ?m = "(k + j) mod node_count c"
  have n: "next_node c ?m = (k + Suc j) mod node_count c" by (simp add: next_node_def mod_Suc_eq)
  have m: "?m < node_count c" using assms(3) by (intro mod_less_divisor) simp
  have "at_version s (next_node c ?m) \<le> my_version s (next_node c ?m) + 1"
    using ver_invD(2) [OF V assms(2), of "next_node c ?m"] ver_invD(1) [OF V, of "(next_node c ?m, 0)"] by simp
  also have "my_version s (next_node c ?m) \<le> at_version s ?m"
    using ver_invD(6) [OF V m, of "my_version s (next_node c ?m)"] by simp
  finally show ?case using Suc n by simp
qed

lemma ring_skew_all:
  assumes "ver_inv c s" and "0 < thread_count c" and "k < node_count c" and "m < node_count c"
  shows "at_version s m < at_version s k + node_count c"
proof (cases "k \<le> m")
  case True
  then have "(k + (m - k)) mod node_count c = m" using assms(4) by simp
  with ring_skew [OF assms(1-3), of "m - k"] have "at_version s m \<le> at_version s k + (m - k)" by simp
  then show ?thesis using assms(4) True by linarith
next
  case False
  then have "(k + (m + node_count c - k)) mod node_count c = m" using assms(3,4) by simp
  with ring_skew [OF assms(1-3), of "m + node_count c - k"]
  have "at_version s m \<le> at_version s k + (m + node_count c - k)" by simp
  then show ?thesis using assms(3) False by linarith
qed

section \<open>Properties\<close>

text \<open>C32: whatever the threads of all nodes do, an object that \<open>allocate\<close> hands out is nobody's
  else: it is new memory or an object in limbo, and it is in no free list afterwards.\<close>

theorem ebr_allocate_exclusive:
  assumes "ebr_run c as EBRObjectPool = Some s" and "registered s t" and "status s fresh = None"
    and "allocate t fresh s = (x, s')"
  shows "status s x \<in> {None, Some In_limbo} \<and> (\<forall>u. x \<notin> set (concat (limbo s' u))) \<and> status s' x = Some (Private t)"
proof -
  note O = ebr_run_inv(2) [OF assms(1)]
  note A = allocate_obj_inv [OF O assms(2-4)]
  have "x \<in> set (limbo s t ! 0) \<Longrightarrow> x \<in> limbo_set s t"
    using obj_invD(1) [OF O, of t] nth_mem [of 0 "limbo s t"] by (force simp: limbo_set_def)
  then have "status s x \<in> {None, Some In_limbo}" using A(2) obj_invD(3) [OF O, of x t] by blast
  then show ?thesis using A(3,4) by (simp add: limbo_set_def)
qed

text \<open>C31: on one node, an object is not handed out again before every thread has announced the
  epoch after the one it was given back in: a running operation that still holds it can only have
  started after its thread announced that epoch.\<close>

theorem ebr_reuse_grace:
  assumes "node_count c = 1" and "ebr_run c as EBRObjectPool = Some s" and "status s fresh = None"
    and "allocate t fresh s = (x, s')" and "since s x = Some a" and "(x, b) \<in> set (held s u)"
  shows "a < b"
  by (rule ebr_run_reuse [OF assms])

text \<open>C33: around the ring a node's epoch is ahead of another one's by at most their distance.\<close>

theorem ebr_epoch_skew:
  assumes "ebr_run c as EBRObjectPool = Some s" and "0 < thread_count c" and "k < node_count c"
  shows "at_version s ((k + j) mod node_count c) \<le> at_version s k + j"
  by (rule ring_skew [OF ebr_run_inv(1) [OF assms(1)] assms(2,3)])

lemma override_keeps_slot:
  assumes "ebr_run c as s = Some s'" "\<forall>a \<in> set as. a \<noteq> Match h False" "\<forall>v. at_pc s h \<noteq> Loaded v"
  shows "slot s' h = slot s h"
  using assms
proof (induction as arbitrary: s)
  case (Cons act as)
  then obtain s1 where s1: "ebr_step c act s = Some s1" "ebr_run c as s1 = Some s'" by (auto split: option.splits)
  have "slot s1 h = slot s h \<and> (\<forall>v. at_pc s1 h \<noteq> Loaded v)"
  proof (cases act)
    case (Match t ov)
    then have "t \<noteq> h \<or> ov" using Cons.prems(2) by (cases ov) auto
    then show ?thesis using s1(1) Match Cons.prems(3)
      by (auto simp: ebr_step_def match_start_def Let_def split: if_splits)
  next
    case (Continue t)
    then show ?thesis using s1(1) Cons.prems(3)
      by (cases "t = h") (auto simp: ebr_step_def match_next_def announce_def match_check_def match_load_def
          match_exchange_def match_write_def Let_def split: ebr_pc.splits if_splits)
  qed (use s1(1) Cons.prems(3) in \<open>auto simp: ebr_step_def RegisterThread_def allocate_def deallocate_def requeue_def
      split: if_splits list.splits\<close>)
  then show ?case using Cons.IH [OF s1(2)] Cons.prems(2) by simp
qed simp


section \<open>Runs that hand out an object in use\<close>

definition one_node :: ebr_cfg where "one_node = \<lparr>node_count = 1, thread_count = 2, ops_per_epoch = 1\<rparr>"
definition three_nodes :: ebr_cfg where "three_nodes = \<lparr>node_count = 3, thread_count = 1, ops_per_epoch = 1\<rparr>"

definition ahead_run :: "nat ebr_act list" where
  "ahead_run = [Register 0, Register 0, Allocate (0, 0) 7, Publish (0, 0) 7, Match (0, 1) False, Continue (0, 1), Continue (0, 1),
     Take (0, 1) 7, Unlink (0, 0) 7, Give_back (0, 0) 7, Match (0, 0) False] @ replicate 7 (Continue (0, 0)) @
     [Match (0, 0) False, Continue (0, 0), Continue (0, 0), Continue (0, 0)]"

definition ring_run :: "nat ebr_act list" where
  "ring_run = [Register 0, Register 1, Register 2, Allocate (2, 0) 7, Publish (2, 0) 7, Take (0, 0) 7, Unlink (2, 0) 7,
     Give_back (2, 0) 7, Match (2, 0) False] @ replicate 6 (Continue (2, 0)) @ [Match (1, 0) False] @
     replicate 6 (Continue (1, 0)) @ [Arrive 2, Match (2, 0) False] @ replicate 6 (Continue (2, 0))"

definition reuse_report :: "ebr_tid \<Rightarrow> ebr_tid \<Rightarrow> nat ebr \<Rightarrow> nat \<times> (nat \<times> nat) list \<times> nat option \<times> bool" where
  "reuse_report t reader s =
     (fst (allocate t 8 s), held s reader, since s 7, registered s t \<and> status s 8 = None)"

lemma ahead_run_report:
  "map_option (reuse_report (0, 0) (0, 1)) (ebr_run one_node ahead_run EBRObjectPool) = Some (7, [(7, 1)], Some 0, True)"
  by code_simp

lemma ring_run_report:
  "map_option (reuse_report (2, 0) (0, 0)) (ebr_run three_nodes ring_run EBRObjectPool) = Some (7, [(7, 0)], Some 0, True)"
  by code_simp


text \<open>With two threads on one node, \<open>allocate\<close> can hand out an object that the other thread,
  in an operation it started an epoch ahead, still holds.\<close>

lemma ebr_reader_ahead:
  "\<exists>as s. ebr_run one_node as EBRObjectPool = Some s \<and> registered s (0, 0) \<and> status s 8 = None \<and>
     fst (allocate (0, 0) (8 :: nat) s) \<in> fst ` set (held s (0, 1))"
proof -
  obtain s where "ebr_run one_node ahead_run EBRObjectPool = Some s" "reuse_report (0, 0) (0, 1) s = (7, [(7, 1)], Some 0, True)"
    using ahead_run_report by blast
  then show ?thesis by (intro exI [of _ ahead_run] exI [of _ s]) (auto simp: reuse_report_def)
qed

text \<open>With three nodes, a node can hand out an object that a thread of another node took before
  the object was given back, in the very same epoch: the grace period of one node does not
  carry over to a ring.\<close>

lemma ebr_ring_reuse:
  "\<exists>as s x a. ebr_run three_nodes as EBRObjectPool = Some s \<and> registered s (2, 0) \<and> status s 8 = None \<and>
     fst (allocate (2, 0) (8 :: nat) s) = x \<and> since s x = Some a \<and> (\<exists>b \<le> a. (x, b) \<in> set (held s (0, 0)))"
proof -
  obtain s where "ebr_run three_nodes ring_run EBRObjectPool = Some s" "reuse_report (2, 0) (0, 0) s = (7, [(7, 0)], Some 0, True)"
    using ring_run_report by blast
  then show ?thesis by (intro exI [of _ ring_run] exI [of _ s]) (auto simp: reuse_report_def)
qed

text \<open>C37: \<open>allocate\<close> is not exclusive, whatever its comment says: on one node it can hand out an object
  that a thread, one epoch ahead, still holds in a running operation, and on three nodes one that
  a thread of another node took in the very epoch in which it was given back.\<close>

theorem ebr_not_exclusive:
  "(\<exists>as s. ebr_run one_node as EBRObjectPool = Some s \<and> registered s (0, 0) \<and> status s 8 = None \<and>
      fst (allocate (0, 0) (8 :: nat) s) \<in> fst ` set (held s (0, 1))) \<and>
   (\<exists>as s x a. ebr_run three_nodes as EBRObjectPool = Some s \<and> registered s (2, 0) \<and> status s 8 = None \<and>
      fst (allocate (2, 0) (8 :: nat) s) = x \<and> since s x = Some a \<and> (\<exists>b \<le> a. (x, b) \<in> set (held s (0, 0))))"
  by (rule conjI [OF ebr_reader_ahead ebr_ring_reuse])

section \<open>Witnesses\<close>

theorem ebr_allocate_exclusive_witness:
  "\<exists>s. ebr_run one_node ahead_run EBRObjectPool = Some s \<and> status s (7 :: nat) \<in> {None, Some In_limbo}"
proof -
  obtain s where s: "ebr_run one_node ahead_run EBRObjectPool = Some s" "reuse_report (0, 0) (0, 1) s = (7, [(7, 1)], Some 0, True)"
    using ahead_run_report by blast
  then have "registered s (0, 0)" "status s 8 = None" "allocate (0, 0) 8 s = (7, snd (allocate (0, 0) 8 s))"
    by (auto simp: reuse_report_def prod_eq_iff)
  from ebr_allocate_exclusive [OF s(1) this] s(1) show ?thesis by blast
qed

theorem ebr_reuse_grace_witness:
  "\<exists>s s' b. ebr_run one_node ahead_run EBRObjectPool = Some s \<and> allocate (0, 0) 8 s = (7 :: nat, s') \<and>
     since s 7 = Some 0 \<and> (7, b) \<in> set (held s (0, 1)) \<and> 0 < b"
proof -
  obtain s where s: "ebr_run one_node ahead_run EBRObjectPool = Some s" "reuse_report (0, 0) (0, 1) s = (7, [(7, 1)], Some 0, True)"
    using ahead_run_report by blast
  then have a: "status s 8 = None" "allocate (0, 0) 8 s = (7, snd (allocate (0, 0) 8 s))" "since s 7 = Some 0"
    "(7, 1) \<in> set (held s (0, 1))"
    by (auto simp: reuse_report_def prod_eq_iff)
  have "(0 :: nat) < 1" by (rule ebr_reuse_grace [OF _ s(1) a]) (simp add: one_node_def)
  with s(1) a show ?thesis by blast
qed

theorem ebr_epoch_skew_witness:
  "\<exists>s. ebr_run three_nodes ring_run EBRObjectPool = Some s \<and> at_version s 2 \<le> at_version s 0 + (2 :: nat)"
proof -
  obtain s where s: "ebr_run three_nodes ring_run EBRObjectPool = Some s" using ring_run_report by blast
  have "(0 + 2) mod node_count three_nodes = 2" by (simp add: three_nodes_def)
  then show ?thesis using ebr_epoch_skew [OF s, of 0 2] s by (simp add: three_nodes_def del: add_2_eq_Suc add_2_eq_Suc')
qed


end
