(* ===== verification/LocalEbr.thy ===== *)
theory LocalEbr
  imports EbrProps
begin

text \<open>
  \<open>LocalEBR\<close> of \<open>iht/cached/sherman/lockfree_sk.h\<close>: epoch-based reclamation for the threads of one
  process, with the epoch in one counter instead of a ring. A thread registers at its first call;
  threads are named by the id they get. As in \<open>Ebr\<close>, \<open>l_held\<close>, \<open>l_status\<close> and \<open>l_since\<close> are not in the code.
\<close>

section \<open>State and steps\<close>

record 'o lebr =
  l_id_gen :: nat
  l_at :: nat
  l_slot :: "nat \<Rightarrow> nat"
  l_counter :: "nat \<Rightarrow> nat"
  l_limbo :: "nat \<Rightarrow> 'o list list"
  l_pc :: "nat \<Rightarrow> ebr_pc"
  l_held :: "nat \<Rightarrow> ('o \<times> nat) list"
  l_status :: "'o \<Rightarrow> ostatus option"
  l_since :: "'o \<Rightarrow> nat option"

definition LocalEBR :: "'o lebr" where
  "LocalEBR = \<lparr>l_id_gen = 0, l_at = 0, l_slot = \<lambda>_. 0, l_counter = \<lambda>_. 0, l_limbo = \<lambda>_. [[], [], []], l_pc = \<lambda>_. Idle,
     l_held = \<lambda>_. [], l_status = \<lambda>_. None, l_since = \<lambda>_. None\<rparr>"

definition l_RegisterThread :: "nat \<Rightarrow> 'o lebr \<Rightarrow> 'o lebr option" where
  "l_RegisterThread threads l =
     (let i = l_id_gen l in
      if i \<ge> threads then None
      else Some (l\<lparr>l_id_gen := i + 1, l_limbo := (l_limbo l)(i := [[], [], []])\<rparr>))"

definition l_match_start :: "nat \<Rightarrow> nat \<Rightarrow> bool \<Rightarrow> 'o lebr \<Rightarrow> 'o lebr" where
  "l_match_start every i override_epoch l =
     (let counter = l_counter l i + 1; l = l\<lparr>l_counter := (l_counter l)(i := counter), l_held := (l_held l)(i := [])\<rparr> in
      if override_epoch \<or> counter mod every \<noteq> 0 then l
      else l\<lparr>l_pc := (l_pc l)(i := Loaded (l_at l + 1))\<rparr>)"

definition l_announce :: "nat \<Rightarrow> nat \<Rightarrow> 'o lebr \<Rightarrow> 'o lebr" where
  "l_announce i new_version l =
     (if l_slot l i < new_version
      then l\<lparr>l_slot := (l_slot l)(i := new_version), l_limbo := (l_limbo l)(i := rotate1 (l_limbo l i))\<rparr>
      else l)\<lparr>l_pc := (l_pc l)(i := Checking new_version 0)\<rparr>"

text \<open>The rest of \<open>match_version\<close>: the store of the own slot, the check of the slots, the load of the epoch, the exchange.\<close>

definition l_match_next :: "nat \<Rightarrow> nat \<Rightarrow> 'o lebr \<Rightarrow> 'o lebr option" where
  "l_match_next threads i l = (case l_pc l i of
     Loaded v \<Rightarrow> Some (l_announce i v l)
   | Checking v j \<Rightarrow> Some (l\<lparr>l_pc := (l_pc l)(i :=
       if j < threads then (if l_slot l j \<noteq> v then Idle else Checking v (j + 1)) else Passed v)\<rparr>)
   | Passed v \<Rightarrow> Some (l\<lparr>l_pc := (l_pc l)(i := if v > l_at l then Racing v else Idle)\<rparr>)
   | Racing v \<Rightarrow> Some (l\<lparr>l_at := v, l_pc := (l_pc l)(i := Idle)\<rparr>)
   | _ \<Rightarrow> None)"

definition l_requeue :: "nat \<Rightarrow> 'o \<Rightarrow> 'o lebr \<Rightarrow> 'o lebr" where
  "l_requeue i x l = l\<lparr>l_limbo := (l_limbo l)(i := push_to 0 x (l_limbo l i)), l_status := (l_status l)(x \<mapsto> In_limbo)\<rparr>"

definition l_deallocate :: "nat \<Rightarrow> 'o \<Rightarrow> 'o lebr \<Rightarrow> 'o lebr" where
  "l_deallocate i x l = l\<lparr>l_limbo := (l_limbo l)(i := push_to 2 x (l_limbo l i)), l_status := (l_status l)(x \<mapsto> In_limbo),
     l_since := (l_since l)(x \<mapsto> l_slot l i)\<rparr>"

definition l_allocate :: "nat \<Rightarrow> 'o \<Rightarrow> 'o lebr \<Rightarrow> 'o \<times> 'o lebr" where
  "l_allocate i fresh l =
     (case l_limbo l i ! 0 of
        [] \<Rightarrow> (fresh, l\<lparr>l_status := (l_status l)(fresh \<mapsto> Private (0, i))\<rparr>)
      | x # q \<Rightarrow> (x, l\<lparr>l_limbo := (l_limbo l)(i := (l_limbo l i)[0 := q]), l_status := (l_status l)(x \<mapsto> Private (0, i))\<rparr>))"

definition l_registered :: "'o lebr \<Rightarrow> nat \<Rightarrow> bool" where
  "l_registered l i \<longleftrightarrow> i < l_id_gen l \<and> l_pc l i = Idle"

datatype 'o lebr_act =
  LRegister | LMatch nat bool | LContinue nat
| LAllocate nat 'o | LPublish nat 'o | LTake nat 'o | LUnlink nat 'o | LGive_back nat 'o | LRequeue nat 'o

definition lebr_step :: "nat \<Rightarrow> nat \<Rightarrow> 'o lebr_act \<Rightarrow> 'o lebr \<Rightarrow> 'o lebr option" where
  "lebr_step threads every act l = (case act of
     LRegister \<Rightarrow> l_RegisterThread threads l
   | LMatch i override_epoch \<Rightarrow> if l_registered l i then Some (l_match_start every i override_epoch l) else None
   | LContinue i \<Rightarrow> l_match_next threads i l
   | LAllocate i fresh \<Rightarrow>
       if l_registered l i \<and> l_status l fresh = None then Some (snd (l_allocate i fresh l)) else None
   | LPublish i x \<Rightarrow>
       if l_status l x = Some (Private (0, i)) then Some (l\<lparr>l_status := (l_status l)(x \<mapsto> Linked)\<rparr>) else None
   | LTake i x \<Rightarrow>
       if l_registered l i \<and> l_status l x = Some Linked
       then Some (l\<lparr>l_held := (l_held l)(i := (x, l_slot l i) # l_held l i)\<rparr>) else None
   | LUnlink i x \<Rightarrow>
       if l_status l x = Some Linked then Some (l\<lparr>l_status := (l_status l)(x \<mapsto> Unlinked (0, i))\<rparr>) else None
   | LGive_back i x \<Rightarrow>
       if l_registered l i \<and> l_status l x = Some (Unlinked (0, i)) then Some (l_deallocate i x l) else None
   | LRequeue i x \<Rightarrow>
       if l_registered l i \<and> l_status l x = Some (Private (0, i)) then Some (l_requeue i x l) else None)"

fun lebr_run :: "nat \<Rightarrow> nat \<Rightarrow> 'o lebr_act list \<Rightarrow> 'o lebr \<Rightarrow> 'o lebr option" where
  "lebr_run threads every [] l = Some l"
| "lebr_run threads every (a # as) l = (case lebr_step threads every a l of None \<Rightarrow> None | Some l' \<Rightarrow> lebr_run threads every as l')"

section \<open>One node of a ring\<close>

definition local_cfg :: "nat \<Rightarrow> nat \<Rightarrow> ebr_cfg" where
  "local_cfg threads every = \<lparr>node_count = 1, thread_count = threads, ops_per_epoch = every\<rparr>"

definition lsim :: "'o lebr \<Rightarrow> 'o ebr \<Rightarrow> bool" where
  "lsim l s \<longleftrightarrow> my_version s 0 = l_at l \<and> at_version s 0 = l_at l \<and> id_gen s 0 = l_id_gen l \<and>
     (\<forall>i. slot s (0, i) = l_slot l i \<and> Ebr.ops s (0, i) = l_counter l i \<and> limbo s (0, i) = l_limbo l i \<and>
        at_pc s (0, i) = l_pc l i \<and> held s (0, i) = l_held l i) \<and>
     status s = l_status l \<and> since s = l_since l"

lemma lsim_init: "lsim LocalEBR EBRObjectPool"
  by (simp add: lsim_def LocalEBR_def EBRObjectPool_def)

lemma lsim_registered: "lsim l s \<Longrightarrow> registered s (0, i) \<longleftrightarrow> l_registered l i"
  by (simp add: lsim_def registered_def l_registered_def)

lemma next_local [simp]: "next_node (local_cfg threads every) k = 0"
  by (simp add: next_node_def local_cfg_def)

lemma lsim_announce: "lsim l s \<Longrightarrow> lsim (l_announce i v l) (announce (0, i) v s)"
  by (auto simp: lsim_def l_announce_def announce_def)

lemma lsim_match_start: "lsim l s \<Longrightarrow> lsim (l_match_start every i ov l) (match_start (local_cfg threads every) (0, i) ov s)"
  by (auto simp: lsim_def l_match_start_def match_start_def Let_def local_cfg_def)

text \<open>Each step is one step of the ring, except the exchange, which the ring follows by writing the version to itself.\<close>

definition sim_acts :: "'o lebr_act \<Rightarrow> 'o lebr \<Rightarrow> 'o ebr_act list" where
  "sim_acts act l = (case act of
     LRegister \<Rightarrow> [Register 0]
   | LMatch i ov \<Rightarrow> [Match (0, i) ov]
   | LContinue i \<Rightarrow> (case l_pc l i of
       Racing v \<Rightarrow> if l_at l = v then [Continue (0, i)] else [Continue (0, i), Continue (0, i)]
     | _ \<Rightarrow> [Continue (0, i)])
   | LAllocate i x \<Rightarrow> [Allocate (0, i) x]
   | LPublish i x \<Rightarrow> [Publish (0, i) x]
   | LTake i x \<Rightarrow> [Take (0, i) x]
   | LUnlink i x \<Rightarrow> [Unlink (0, i) x]
   | LGive_back i x \<Rightarrow> [Give_back (0, i) x]
   | LRequeue i x \<Rightarrow> [Requeue (0, i) x])"

lemma lsim_step:
  assumes L: "lsim l s" and st: "lebr_step threads every act l = Some l'"
  shows "\<exists>s'. ebr_run (local_cfg threads every) (sim_acts act l) s = Some s' \<and> lsim l' s'"
proof (cases act)
  case LRegister
  then show ?thesis using L st
    by (auto simp: lsim_def lebr_step_def l_RegisterThread_def sim_acts_def ebr_step_def RegisterThread_def local_cfg_def
        Let_def split: if_splits)
next
  case (LMatch i ov)
  then show ?thesis using st lsim_registered [OF L, of i] lsim_match_start [OF L, of every i ov threads]
    by (auto simp: lebr_step_def sim_acts_def ebr_step_def split: if_splits)
next
  case (LContinue i)
  then have n: "l_match_next threads i l = Some l'" using st by (simp add: lebr_step_def)
  have pc: "at_pc s (0, i) = l_pc l i" using L by (simp add: lsim_def)
  show ?thesis
  proof (cases "l_pc l i")
    case (Loaded v)
    then show ?thesis using n L LContinue pc lsim_announce [OF L, of i v]
      by (auto simp: l_match_next_def sim_acts_def ebr_step_def match_next_def)
  next
    case (Racing v)
    then show ?thesis using n L LContinue pc
      by (auto simp: l_match_next_def sim_acts_def ebr_step_def match_next_def match_exchange_def match_write_def Let_def lsim_def)
  next
    case (Passed v)
    then show ?thesis using n L LContinue pc
      by (auto simp: l_match_next_def sim_acts_def ebr_step_def match_next_def match_load_def lsim_def)
  next
    case (Checking v j)
    then show ?thesis using n L LContinue pc
      by (auto simp: l_match_next_def sim_acts_def ebr_step_def match_next_def match_check_def local_cfg_def lsim_def)
  qed (use n in \<open>simp_all add: l_match_next_def\<close>)
next
  case (LAllocate i x)
  then have "l_registered l i" "l_status l x = None" "l' = snd (l_allocate i x l)"
    using st by (auto simp: lebr_step_def split: if_splits)
  then show ?thesis using L LAllocate lsim_registered [OF L, of i]
    by (auto simp: sim_acts_def ebr_step_def lsim_def allocate_def l_allocate_def split: list.split)
next
  case (LTake i x)
  then show ?thesis using L st lsim_registered [OF L, of i]
    by (auto simp: lebr_step_def sim_acts_def ebr_step_def lsim_def split: if_splits)
next
  case (LGive_back i x)
  then show ?thesis using L st lsim_registered [OF L, of i]
    by (auto simp: lebr_step_def sim_acts_def ebr_step_def lsim_def deallocate_def l_deallocate_def split: if_splits)
next
  case (LRequeue i x)
  then show ?thesis using L st lsim_registered [OF L, of i]
    by (auto simp: lebr_step_def sim_acts_def ebr_step_def lsim_def requeue_def l_requeue_def split: if_splits)
qed (use L st in \<open>auto simp: lebr_step_def sim_acts_def ebr_step_def lsim_def split: if_splits\<close>)

lemma lsim_run:
  assumes "lsim l s" and "lebr_run threads every as l = Some l'"
  shows "\<exists>as' s'. ebr_run (local_cfg threads every) as' s = Some s' \<and> lsim l' s'"
  using assms
proof (induction as arbitrary: l s)
  case Nil
  then show ?case by (intro exI [of _ "[]"] exI [of _ s]) simp
next
  case (Cons a as)
  then obtain l1 where l1: "lebr_step threads every a l = Some l1" "lebr_run threads every as l1 = Some l'"
    by (auto split: option.splits)
  obtain s1 where s1: "ebr_run (local_cfg threads every) (sim_acts a l) s = Some s1" "lsim l1 s1"
    using lsim_step [OF Cons.prems(1) l1(1)] by blast
  obtain as' s' where "ebr_run (local_cfg threads every) as' s1 = Some s'" "lsim l' s'" using Cons.IH [OF s1(2) l1(2)] by blast
  then show ?case using s1(1) by (intro exI [of _ "sim_acts a l @ as'"] exI [of _ s']) (simp add: ebr_run_append)
qed

text \<open>C35: every run of \<open>LocalEBR\<close> is a run of \<open>EBRObjectPool\<close> on a ring of one node, with the same
  epoch, slots and free lists; so it has the same grace period: what it hands out again is held only by
  operations whose thread was an epoch ahead.\<close>

theorem local_ebr_refines:
  assumes "lebr_run threads every as LocalEBR = Some l"
  shows "(\<exists>as' s. ebr_run (local_cfg threads every) as' EBRObjectPool = Some s \<and> lsim l s) \<and>
     (l_status l fresh = None \<and> l_since l (fst (l_allocate i fresh l)) = Some a \<and>
        (fst (l_allocate i fresh l), b) \<in> set (l_held l j) \<longrightarrow> a < b)"
proof -
  obtain as' s where s: "ebr_run (local_cfg threads every) as' EBRObjectPool = Some s" "lsim l s"
    using lsim_run [OF lsim_init assms] by blast
  let ?x = "fst (l_allocate i fresh l)"
  have x: "fst (allocate (0, i) fresh s) = ?x"
    using s(2) by (auto simp: lsim_def allocate_def l_allocate_def split: list.split)
  have "a < b" if h: "l_status l fresh = None" "l_since l ?x = Some a" "(?x, b) \<in> set (l_held l j)"
  proof (rule ebr_run_reuse [OF _ s(1)])
    show "node_count (local_cfg threads every) = 1" by (simp add: local_cfg_def)
    show "status s fresh = None" "since s ?x = Some a" "(?x, b) \<in> set (held s (0, j))" using s(2) h by (simp_all add: lsim_def)
    show "allocate (0, i) fresh s = (?x, snd (allocate (0, i) fresh s))" using x by (metis prod.collapse)
  qed
  with s show ?thesis by blast
qed

theorem local_ebr_refines_witness:
  "\<exists>l. lebr_run 1 1 [LRegister, LAllocate 0 7, LPublish 0 7, LUnlink 0 7, LGive_back 0 7, LMatch 0 False] LocalEBR = Some l \<and>
     (\<exists>as' s. ebr_run (local_cfg 1 1) as' EBRObjectPool = Some s \<and> lsim l (s :: nat ebr))"
proof -
  let ?as = "[LRegister, LAllocate 0 7, LPublish 0 7, LUnlink 0 7, LGive_back 0 7, LMatch 0 False] :: nat lebr_act list"
  have "map_option (\<lambda>_. ()) (lebr_run 1 1 ?as LocalEBR) = Some ()" by code_simp
  then obtain l where l: "lebr_run 1 1 ?as LocalEBR = Some l" by blast
  then show ?thesis using local_ebr_refines [OF l] by blast
qed

end
