(* ===== verification/WRLock.thy ===== *)
theory WRLock
  imports "HOL-Library.Word"
begin

text \<open>
  The reader-writer lock \<open>iht/cached/sherman/WRLock.h\<close>: one 16-bit word that is 0 when free, 1 under
  a writer and twice the number of readers otherwise. The methods spin; what they do once they get
  the word they wait for is a step, and so is every load that makes them go on.
\<close>

section \<open>The word\<close>

definition UNLOCKED :: "16 word" where "UNLOCKED = 0"
definition LOCKED :: "16 word" where "LOCKED = 1"

definition is_unlock :: "16 word \<Rightarrow> bool" where "is_unlock l \<longleftrightarrow> l = UNLOCKED"

text \<open>A compare-and-swap: whether it took place, and the word after it.\<close>

definition wr_cas :: "16 word \<Rightarrow> 16 word \<Rightarrow> 16 word \<Rightarrow> bool \<times> 16 word" where
  "wr_cas expected new l = (if l = expected then (True, new) else (False, l))"

definition try_wLock :: "16 word \<Rightarrow> bool \<times> 16 word" where
  "try_wLock l = (if l \<noteq> UNLOCKED then (False, l) else wr_cas UNLOCKED LOCKED l)"

definition try_rLock :: "16 word \<Rightarrow> bool \<times> 16 word" where
  "try_rLock v = (if v = LOCKED then (False, v) else wr_cas v (v + 2) v)"

section \<open>Threads\<close>

text \<open>
  A thread is outside, holds the lock, or is between the load and the compare-and-swap of
  \<open>wLock\<close>, \<open>rLock\<close> (or their \<open>try_\<close> versions, which give up where these spin) or \<open>rUnlock\<close>.
\<close>

datatype lock_pc = Out | W_seen | R_seen "16 word" | Reading | Writing | RU_seen "16 word"

record wrlock =
  lk :: "16 word"
  who :: "nat \<Rightarrow> lock_pc"

definition wr_init :: wrlock where "wr_init = \<lparr>lk = UNLOCKED, who = \<lambda>_. Out\<rparr>"

inductive wr_step :: "wrlock \<Rightarrow> wrlock \<Rightarrow> bool" where
  w_load: "\<lbrakk> who s t = Out; lk s = UNLOCKED \<rbrakk> \<Longrightarrow> wr_step s (s\<lparr>who := (who s)(t := W_seen)\<rparr>)"
| w_cas: "\<lbrakk> who s t = W_seen; wr_cas UNLOCKED LOCKED (lk s) = (ok, l) \<rbrakk> \<Longrightarrow>
    wr_step s (s\<lparr>lk := l, who := (who s)(t := if ok then Writing else Out)\<rparr>)"
| r_load: "\<lbrakk> who s t = Out; lk s \<noteq> LOCKED \<rbrakk> \<Longrightarrow> wr_step s (s\<lparr>who := (who s)(t := R_seen (lk s))\<rparr>)"
| r_cas: "\<lbrakk> who s t = R_seen v; wr_cas v (v + 2) (lk s) = (ok, l) \<rbrakk> \<Longrightarrow>
    wr_step s (s\<lparr>lk := l, who := (who s)(t := if ok then Reading else Out)\<rparr>)"
| ru_load: "who s t = Reading \<Longrightarrow> wr_step s (s\<lparr>who := (who s)(t := RU_seen (lk s))\<rparr>)"
| ru_cas: "\<lbrakk> who s t = RU_seen v; wr_cas v (v - 2) (lk s) = (ok, l) \<rbrakk> \<Longrightarrow>
    wr_step s (s\<lparr>lk := l, who := (who s)(t := if ok then Out else Reading)\<rparr>)"
| w_unlock: "who s t = Writing \<Longrightarrow> wr_step s (s\<lparr>lk := UNLOCKED, who := (who s)(t := Out)\<rparr>)"

inductive_cases wr_stepE: "wr_step s s'"

definition reads :: "lock_pc \<Rightarrow> bool" where
  "reads p \<longleftrightarrow> p = Reading \<or> (\<exists>v. p = RU_seen v)"

definition readers :: "wrlock \<Rightarrow> nat set" where
  "readers s = {t. reads (who s t)}"

definition writers :: "wrlock \<Rightarrow> nat set" where
  "writers s = {t. who s t = Writing}"

lemma reads_simps [simp]:
  "reads Reading" "reads (RU_seen v)" "\<not> reads Out" "\<not> reads W_seen" "\<not> reads (R_seen v)" "\<not> reads Writing"
  by (simp_all add: reads_def)

lemma readers_upd: "readers (s\<lparr>lk := l, who := (who s)(t := p)\<rparr>) = (if reads p then insert t (readers s) else readers s - {t})"
  "readers (s\<lparr>who := (who s)(t := p)\<rparr>) = (if reads p then insert t (readers s) else readers s - {t})"
  by (auto simp: readers_def)

lemma writers_upd: "writers (s\<lparr>lk := l, who := (who s)(t := p)\<rparr>) = (if p = Writing then insert t (writers s) else writers s - {t})"
  "writers (s\<lparr>who := (who s)(t := p)\<rparr>) = (if p = Writing then insert t (writers s) else writers s - {t})"
  by (auto simp: writers_def)

text \<open>
  With at most \<open>2^15 - 1\<close> threads the word counts exactly: 1 with one writer and no reader,
  otherwise twice the number of readers.
\<close>

definition wr_inv :: "nat \<Rightarrow> wrlock \<Rightarrow> bool" where
  "wr_inv n s \<longleftrightarrow> (\<forall>t \<ge> n. who s t = Out) \<and> (\<forall>t v. who s t = R_seen v \<longrightarrow> v \<noteq> LOCKED) \<and>
     (lk s = LOCKED \<and> (\<exists>t. writers s = {t}) \<and> readers s = {} \<or>
      unat (lk s) = 2 * card (readers s) \<and> writers s = {})"

lemma readers_bound:
  assumes "\<forall>t \<ge> n. who s t = Out"
  shows "finite (readers s)" "card (readers s) \<le> n"
proof -
  have "readers s \<subseteq> {..< n}" using assms by (force simp: readers_def reads_def not_le [symmetric])
  then show "finite (readers s)" "card (readers s) \<le> n" using finite_subset card_mono [of "{..< n}"] by auto
qed

lemma even_word_not_locked: "unat (l :: 16 word) = 2 * c \<Longrightarrow> l \<noteq> LOCKED"
  by (auto simp: LOCKED_def)

lemma add_two: "unat (l :: 16 word) = 2 * c \<Longrightarrow> c < 2 ^ 15 - 1 \<Longrightarrow> unat (l + 2) = 2 * (c + 1)"
  by (subst unat_add_lem [THEN iffD1]) simp_all

lemma sub_two: "unat (l :: 16 word) = 2 * (c + 1) \<Longrightarrow> unat (l - 2) = 2 * c"
  by (subst unat_sub) (simp_all add: word_le_nat_alt)

lemma zero_readers: "unat (l :: 16 word) = 2 * c \<Longrightarrow> l = UNLOCKED \<longleftrightarrow> c = 0"
  by (auto simp: UNLOCKED_def unat_eq_0 [symmetric])


section \<open>Runs of at most n threads\<close>

inductive wr_reach :: "nat \<Rightarrow> wrlock \<Rightarrow> bool" for n where
  start: "wr_reach n wr_init"
| step: "\<lbrakk> wr_reach n s; wr_step s s'; \<forall>t \<ge> n. who s' t = Out \<rbrakk> \<Longrightarrow> wr_reach n s'"

lemma wr_cas_cases:
  assumes "wr_cas e nw l = (ok, l')"
  obtains "ok" "l = e" "l' = nw" | "\<not> ok" "l' = l"
  using assms by (auto simp: wr_cas_def split: if_splits)

lemma wr_step_inv:
  assumes I: "wr_inv n s" and n: "n < 2 ^ 15" and st: "wr_step s s'" and out: "\<forall>t \<ge> n. who s' t = Out"
  shows "wr_inv n s'"
proof -
  have W: "\<And>t v. who s t = R_seen v \<Longrightarrow> v \<noteq> LOCKED"
    and D: "lk s = LOCKED \<and> (\<exists>t. writers s = {t}) \<and> readers s = {} \<or> unat (lk s) = 2 * card (readers s) \<and> writers s = {}"
    using I by (auto simp: wr_inv_def)
  have fin: "finite (readers s)" using I by (auto simp: wr_inv_def intro: readers_bound)
  have mem: "t \<in> readers s \<longleftrightarrow> reads (who s t)" "t \<in> writers s \<longleftrightarrow> who s t = Writing" for t
    by (simp_all add: readers_def writers_def)
  have pcs: "\<forall>t v. who s' t = R_seen v \<longrightarrow> v \<noteq> LOCKED"
    using st W by (cases rule: wr_step.cases) (auto split: if_splits)
  have "lk s' = LOCKED \<and> (\<exists>t. writers s' = {t}) \<and> readers s' = {} \<or> unat (lk s') = 2 * card (readers s') \<and> writers s' = {}"
    using st
  proof cases
    case (w_load t)
    then show ?thesis using D mem [of t] by (simp add: readers_upd writers_upd)
  next
    case (w_cas t ok l)
    from w_cas(3) show ?thesis
    proof (cases rule: wr_cas_cases)
      case 1
      then have "unat (lk s) = 2 * card (readers s)" "writers s = {}" using D by (auto simp: UNLOCKED_def LOCKED_def)
      with 1 fin have "readers s = {}" using zero_readers [of "lk s" "card (readers s)"] by simp
      then show ?thesis using 1 w_cas \<open>writers s = {}\<close> by (simp add: readers_upd writers_upd)
    next
      case 2
      then show ?thesis using D mem [of t] w_cas by (simp add: readers_upd writers_upd)
    qed
  next
    case (r_load t)
    then show ?thesis using D mem [of t] by (simp add: readers_upd writers_upd)
  next
    case (r_cas t v ok l)
    from r_cas(3) show ?thesis
    proof (cases rule: wr_cas_cases)
      case 1
      then have l: "unat (lk s) = 2 * card (readers s)" "writers s = {}" using D W r_cas(2) by auto
      have r: "readers s' = insert t (readers s)" "t \<notin> readers s" "writers s' = {}"
        using 1 r_cas l(2) mem [of t] by (simp_all add: readers_upd writers_upd)
      have "card (readers s') \<le> n" by (rule readers_bound [OF out])
      then have "card (readers s) < 2 ^ 15 - 1" using r fin n by simp
      then show ?thesis using add_two [OF l(1)] r fin 1 r_cas(1) by simp
    next
      case 2
      then show ?thesis using D mem [of t] r_cas by (simp add: readers_upd writers_upd)
    qed
  next
    case (ru_load t)
    then show ?thesis using D mem [of t] by (auto simp: readers_upd writers_upd insert_absorb)
  next
    case (ru_cas t v ok l)
    have t: "t \<in> readers s" using ru_cas(2) mem by simp
    then have l: "unat (lk s) = 2 * card (readers s)" "writers s = {}" using D by auto
    from ru_cas(3) show ?thesis
    proof (cases rule: wr_cas_cases)
      case 1
      have r: "readers s' = readers s - {t}" "writers s' = {}" "lk s' = lk s - 2"
        using 1 ru_cas(1) l(2) by (simp_all add: readers_upd writers_upd)
      have "card (readers s) = card (readers s') + 1" using card_Suc_Diff1 [OF fin t] r(1) by simp
      then show ?thesis using sub_two [of "lk s" "card (readers s')"] l(1) r by simp
    next
      case 2
      then show ?thesis using l t ru_cas(1) by (simp add: readers_upd writers_upd insert_absorb)
    qed
  next
    case (w_unlock t)
    then have "t \<in> writers s" using mem by simp
    then have "writers s = {t}" "readers s = {}" using D by auto
    then show ?thesis using w_unlock by (simp add: readers_upd writers_upd UNLOCKED_def)
  qed
  with pcs out show ?thesis by (simp add: wr_inv_def)
qed

lemma wr_reach_inv: "wr_reach n s \<Longrightarrow> n < 2 ^ 15 \<Longrightarrow> wr_inv n s"
proof (induction rule: wr_reach.induct)
  case start
  show ?case by (simp add: wr_inv_def wr_init_def UNLOCKED_def readers_def writers_def)
qed (auto intro: wr_step_inv)

text \<open>C38: with fewer than 32768 threads, whatever they do and however they interleave, a writer
  is alone: there is no other writer and no reader.\<close>

theorem wr_exclusion:
  assumes "wr_reach n s" and "n < 2 ^ 15" and "who s t = Writing" and "u \<noteq> t"
  shows "who s u \<noteq> Writing \<and> \<not> reads (who s u)"
proof -
  have "t \<in> writers s" using assms(3) by (simp add: writers_def)
  with wr_reach_inv [OF assms(1,2)] have "\<exists>t. writers s = {t}" "readers s = {}" by (auto simp: wr_inv_def)
  with \<open>t \<in> writers s\<close> assms(4) have "u \<notin> writers s" "u \<notin> readers s" by auto
  then show ?thesis by (simp add: writers_def readers_def)
qed

text \<open>The threads below \<open>k\<close> read.\<close>

definition reading :: "nat \<Rightarrow> wrlock" where
  "reading k = \<lparr>lk = of_nat (2 * k), who = \<lambda>t. if t < k then Reading else Out\<rparr>"

lemma reach_reading: "k \<le> n \<Longrightarrow> wr_reach n (reading k)"
proof (induction k)
  case 0
  have "reading 0 = wr_init" by (simp add: reading_def wr_init_def UNLOCKED_def)
  then show ?case by (simp add: wr_reach.start)
next
  case (Suc k)
  let ?s = "reading k" and ?l = "of_nat (2 * k) :: 16 word"
  have even: "?l \<noteq> LOCKED"
  proof
    assume "?l = LOCKED"
    then have "bit ?l 0 = bit (1 :: 16 word) 0" by (simp only: LOCKED_def)
    then show False by (simp add: bit_0)
  qed
  define s1 where "s1 = ?s\<lparr>who := (who ?s)(k := R_seen ?l)\<rparr>"
  have f: "who ?s k = Out" "lk ?s = ?l" by (simp_all add: reading_def)
  have "wr_step ?s s1" unfolding s1_def using wr_step.r_load [of ?s k] f even by simp
  then have 1: "wr_reach n s1"
    by (rule wr_reach.step [rotated]) (use Suc in \<open>auto simp: s1_def reading_def\<close>)
  have "wr_step s1 (s1\<lparr>lk := ?l + 2, who := (who s1)(k := if True then Reading else Out)\<rparr>)"
    by (rule wr_step.r_cas [where v = ?l]) (simp_all add: s1_def wr_cas_def f)
  moreover have "s1\<lparr>lk := ?l + 2, who := (who s1)(k := if True then Reading else Out)\<rparr> = reading (Suc k)"
    by (auto simp: s1_def reading_def fun_eq_iff less_Suc_eq algebra_simps)
  ultimately have "wr_step s1 (reading (Suc k))" by simp
  then show ?case by (rule wr_reach.step [OF 1]) (use Suc.prems in \<open>auto simp: reading_def\<close>)
qed

text \<open>
  with 32768 readers the 16-bit word wraps to 0, so a writer gets in beside all of them.\<close>

theorem wr_overflow:
  "\<exists>s t. wr_reach (2 ^ 15 + 1) s \<and> who s t = Writing \<and> card (readers s) = 2 ^ 15"
proof -
  let ?N = "2 ^ 15 :: nat" and ?s = "reading (2 ^ 15)"
  have z: "lk ?s = UNLOCKED" by (simp add: reading_def UNLOCKED_def)
  define s1 where "s1 = ?s\<lparr>who := (who ?s)(?N := W_seen)\<rparr>"
  define s2 where "s2 = s1\<lparr>lk := LOCKED, who := (who s1)(?N := if True then Writing else Out)\<rparr>"
  have "wr_step ?s s1" unfolding s1_def by (rule wr_step.w_load) (use z in \<open>simp_all add: reading_def\<close>)
  then have 1: "wr_reach (?N + 1) s1"
    by (rule wr_reach.step [OF reach_reading, rotated]) (auto simp: s1_def reading_def)
  have "wr_step s1 s2" unfolding s2_def
    by (rule wr_step.w_cas) (use z in \<open>simp_all add: s1_def wr_cas_def\<close>)
  then have 2: "wr_reach (?N + 1) s2" by (rule wr_reach.step [OF 1]) (auto simp: s1_def s2_def reading_def)
  have "readers s2 = {..< ?N}" by (auto simp: readers_def s1_def s2_def reading_def)
  then have "card (readers s2) = ?N" by simp
  moreover have "who s2 ?N = Writing" by (simp add: s2_def)
  ultimately show ?thesis using 2 by blast
qed

theorem wr_exclusion_witness:
  "\<exists>s. wr_reach 2 s \<and> who s 0 = Writing \<and> \<not> reads (who s 1)"
proof -
  define s1 where "s1 = wr_init\<lparr>who := (who wr_init)(0 := W_seen)\<rparr>"
  define s2 where "s2 = s1\<lparr>lk := LOCKED, who := (who s1)(0 := if True then Writing else Out)\<rparr>"
  have "wr_step wr_init s1" unfolding s1_def by (rule wr_step.w_load) (simp_all add: wr_init_def)
  then have 1: "wr_reach 2 s1" by (rule wr_reach.step [OF wr_reach.start]) (simp add: s1_def wr_init_def)
  have "wr_step s1 s2" unfolding s2_def by (rule wr_step.w_cas) (simp_all add: s1_def wr_init_def wr_cas_def)
  then have 2: "wr_reach 2 s2" by (rule wr_reach.step [OF 1]) (simp add: s1_def s2_def wr_init_def)
  have w: "who s2 0 = Writing" by (simp add: s2_def)
  show ?thesis using wr_exclusion [OF 2 _ w, of 1] 2 w by auto
qed

end
