(* ===== verification/LockFreeSk.thy ===== *)
theory LockFreeSk
  imports "HOL-Library.Word"
begin

text \<open>
  The lock-free skiplist of \<open>iht/cached/sherman/lockfree_sk.h\<close>, as one thread runs it over a heap of
  nodes. A node covers the keys from \<open>key_low\<close> up to, not including, \<open>key_high\<close>. A link is an
  address and the mark that says its node is deleted at that level. Compare-and-swaps of the
  weak kind may fail for no reason; their outcomes come from a list. Address 0 is the head, 1 the tail.
\<close>

unbundle bit_operations_syntax

section \<open>Nodes\<close>

definition MAX_LEVEL :: nat where "MAX_LEVEL = 16"

type_synonym link = "(nat \<times> bool) option"

record sknode =
  topLevel :: nat
  sk_value :: nat
  key_low :: int
  key_high :: int
  accesses :: nat
  nxt :: "link list"

definition Node :: "int \<Rightarrow> int \<Rightarrow> nat \<Rightarrow> nat \<Rightarrow> sknode" where
  "Node low high v height = \<lparr>topLevel = height, sk_value = v, key_low = low, key_high = high, accesses = 0,
     nxt = replicate MAX_LEVEL None\<rparr>"

definition is_less_than :: "sknode \<Rightarrow> int \<Rightarrow> bool" where
  "is_less_than n key \<longleftrightarrow> key_high n \<le> key"

definition is_less_than2 :: "sknode \<Rightarrow> int \<Rightarrow> int \<Rightarrow> bool" where
  "is_less_than2 n other_low other_high \<longleftrightarrow>
     (if other_high \<le> key_low n then False else if key_high n \<le> other_low then True else False)"

definition is_equal :: "sknode \<Rightarrow> int \<Rightarrow> bool" where
  "is_equal n key \<longleftrightarrow> key_low n \<le> key \<and> key < key_high n"

definition is_equal2 :: "sknode \<Rightarrow> int \<Rightarrow> int \<Rightarrow> bool" where
  "is_equal2 n other_low other_high \<longleftrightarrow>
     (if other_high \<le> key_low n then False else if key_high n \<le> other_low then False else True)"

section \<open>Random levels\<close>

definition xorshift :: "32 word \<Rightarrow> 32 word" where
  "xorshift y = (let y = y XOR push_bit 13 y; y = y XOR drop_bit 17 y in y XOR push_bit 5 y)"

text \<open>The loop counts the ones above the lowest bit; the word runs out after at most 32 shifts.\<close>

fun count_ones :: "nat \<Rightarrow> 32 word \<Rightarrow> nat" where
  "count_ones 0 temp = 0"
| "count_ones (Suc n) temp = (let temp = drop_bit 1 temp in if temp AND 1 \<noteq> 0 then Suc (count_ones n temp) else 0)"

definition randomLevel :: "32 word \<Rightarrow> nat \<times> 32 word" where
  "randomLevel y = (let y = xorshift y; level = count_ones 32 y in
     (if level \<ge> MAX_LEVEL then MAX_LEVEL - 1 else level, y))"

section \<open>The heap\<close>

record skl =
  heap :: "nat \<Rightarrow> sknode option"
  cas_fails :: "bool list"
  sk_seed :: "32 word"
  sk_free :: "nat list"
  sk_fresh :: nat

definition sk_head :: nat where "sk_head = 0"
definition sk_tail :: nat where "sk_tail = 1"

definition sk_init :: "int \<Rightarrow> int \<Rightarrow> skl" where
  "sk_init int_min int_max =
     \<lparr>heap = [sk_head \<mapsto> (Node int_min int_min 0 MAX_LEVEL)\<lparr>nxt := replicate MAX_LEVEL (Some (sk_tail, False))\<rparr>,
              sk_tail \<mapsto> Node int_max int_max 0 MAX_LEVEL],
      cas_fails = [], sk_seed = 2463534242, sk_free = [], sk_fresh = 2\<rparr>"

definition get_link :: "(nat \<Rightarrow> sknode option) \<Rightarrow> nat \<Rightarrow> nat \<Rightarrow> link" where
  "get_link h a level = (case h a of None \<Rightarrow> None | Some n \<Rightarrow> nxt n ! level)"

definition set_link :: "nat \<Rightarrow> nat \<Rightarrow> link \<Rightarrow> (nat \<Rightarrow> sknode option) \<Rightarrow> (nat \<Rightarrow> sknode option)" where
  "set_link a level l h = (case h a of None \<Rightarrow> h | Some n \<Rightarrow> h(a \<mapsto> n\<lparr>nxt := (nxt n)[level := l]\<rparr>))"

definition weak_cas :: "nat \<Rightarrow> nat \<Rightarrow> link \<Rightarrow> link \<Rightarrow> skl \<Rightarrow> bool \<times> skl" where
  "weak_cas a level expected new s =
     (case cas_fails s of
        True # fs \<Rightarrow> (False, s\<lparr>cas_fails := fs\<rparr>)
      | fs \<Rightarrow> (let s = s\<lparr>cas_fails := tl fs\<rparr> in
          if get_link (heap s) a level = expected then (True, s\<lparr>heap := set_link a level new (heap s)\<rparr>) else (False, s)))"

datatype sk_error = Null_deref | No_fuel

section \<open>\<open>find\<close>\<close>

text \<open>
  One level of \<open>find\<close>: unlink the marked nodes, go on while the node is less than the keys. \<open>None\<close>
  in the result means that a compare-and-swap failed and the search starts over.
\<close>

fun find_level ::
  "nat \<Rightarrow> int \<Rightarrow> int \<Rightarrow> nat \<Rightarrow> nat \<Rightarrow> nat \<Rightarrow> skl \<Rightarrow> sk_error + ((nat \<times> nat) option \<times> skl)" where
  "find_level 0 lb ub level pred cur s = Inl No_fuel"
| "find_level (Suc fuel) lb ub level pred cur s =
     (case heap s cur of
        None \<Rightarrow> Inl Null_deref
      | Some n \<Rightarrow>
          (case nxt n ! level of
             Some (succ, True) \<Rightarrow>
               (case weak_cas pred level (Some (cur, False)) (Some (succ, False)) s of
                  (snip, s) \<Rightarrow>
                    if \<not> snip then Inr (None, s)
                    else (case get_link (heap s) pred level of
                            None \<Rightarrow> Inl Null_deref
                          | Some (cur, _) \<Rightarrow> find_level fuel lb ub level pred cur s))
           | succ \<Rightarrow>
               if is_less_than2 n lb ub then
                 (case succ of None \<Rightarrow> Inl Null_deref | Some (succ, _) \<Rightarrow> find_level fuel lb ub level cur succ s)
               else Inr (Some (pred, cur), s)))"

text \<open>The levels from \<open>level - 1\<close> down to 0; the lists collect \<open>preds\<close> and \<open>succs\<close>, level 0 first.\<close>

fun find_levels ::
  "nat \<Rightarrow> int \<Rightarrow> int \<Rightarrow> nat \<Rightarrow> nat \<Rightarrow> (nat \<times> nat) list \<Rightarrow> skl \<Rightarrow> sk_error + ((nat \<times> nat) list option \<times> skl)" where
  "find_levels fuel lb ub 0 pred acc s = Inr (Some acc, s)"
| "find_levels fuel lb ub (Suc level) pred acc s =
     (case get_link (heap s) pred level of
        None \<Rightarrow> Inl Null_deref
      | Some (cur, _) \<Rightarrow>
          (case find_level fuel lb ub level pred cur s of
             Inl err \<Rightarrow> Inl err
           | Inr (None, s) \<Rightarrow> Inr (None, s)
           | Inr (Some (pred, cur), s) \<Rightarrow> find_levels fuel lb ub level pred ((pred, cur) # acc) s))"

fun sk_find :: "nat \<Rightarrow> int \<Rightarrow> int \<Rightarrow> skl \<Rightarrow> sk_error + (bool \<times> (nat \<times> nat) list \<times> skl)" where
  "sk_find 0 lb ub s = Inl No_fuel"
| "sk_find (Suc fuel) lb ub s =
     (case find_levels fuel lb ub MAX_LEVEL sk_head [] s of
        Inl err \<Rightarrow> Inl err
      | Inr (None, s) \<Rightarrow> sk_find fuel lb ub s
      | Inr (Some acc, s) \<Rightarrow>
          (case heap s (snd (hd acc)) of
             None \<Rightarrow> Inl Null_deref
           | Some n \<Rightarrow> Inr (is_equal2 n lb ub, acc, s)))"

section \<open>\<open>insert\<close>\<close>

text \<open>The node comes from the pool of \<open>LocalEBR\<close>: here the free list, then new memory.\<close>

definition sk_allocate :: "skl \<Rightarrow> nat \<times> skl" where
  "sk_allocate s = (case sk_free s of
     a # q \<Rightarrow> (a, s\<lparr>sk_free := q\<rparr>)
   | [] \<Rightarrow> (sk_fresh s, s\<lparr>sk_fresh := sk_fresh s + 1\<rparr>))"

definition sk_requeue :: "nat \<Rightarrow> skl \<Rightarrow> skl" where
  "sk_requeue a s = s\<lparr>sk_free := sk_free s @ [a]\<rparr>"

text \<open>Linking at one level above the bottom: after a failure, search again and retry with the new neighbours.\<close>

fun link_level :: "nat \<Rightarrow> int \<Rightarrow> int \<Rightarrow> nat \<Rightarrow> nat \<Rightarrow> (nat \<times> nat) list \<Rightarrow> skl \<Rightarrow> sk_error + ((nat \<times> nat) list \<times> skl)" where
  "link_level 0 lb ub a level acc s = Inl No_fuel"
| "link_level (Suc fuel) lb ub a level acc s =
     (case weak_cas (fst (acc ! level)) level (Some (snd (acc ! level), False)) (Some (a, False)) s of
        (ok, s) \<Rightarrow>
          if ok then Inr (acc, s)
          else (case sk_find fuel lb ub s of
                  Inl err \<Rightarrow> Inl err
                | Inr (_, acc, s) \<Rightarrow> link_level fuel lb ub a level acc s))"

fun link_levels :: "nat \<Rightarrow> int \<Rightarrow> int \<Rightarrow> nat \<Rightarrow> nat list \<Rightarrow> (nat \<times> nat) list \<Rightarrow> skl \<Rightarrow> sk_error + skl" where
  "link_levels fuel lb ub a [] acc s = Inr s"
| "link_levels fuel lb ub a (level # levels) acc s =
     (case link_level fuel lb ub a level acc s of
        Inl err \<Rightarrow> Inl err
      | Inr (acc, s) \<Rightarrow> link_levels fuel lb ub a levels acc s)"

definition set_nexts :: "nat \<Rightarrow> nat \<Rightarrow> (nat \<times> nat) list \<Rightarrow> skl \<Rightarrow> skl" where
  "set_nexts a height acc s =
     s\<lparr>heap := fold (\<lambda>level h. set_link a level (Some (snd (acc ! level), False)) h) [0 ..< height + 1] (heap s)\<rparr>"

fun insert_loop :: "nat \<Rightarrow> int \<Rightarrow> int \<Rightarrow> nat \<Rightarrow> nat \<Rightarrow> skl \<Rightarrow> sk_error + (bool \<times> skl)" where
  "insert_loop 0 lb ub a height s = Inl No_fuel"
| "insert_loop (Suc fuel) lb ub a height s =
     (case sk_find fuel lb ub s of
        Inl err \<Rightarrow> Inl err
      | Inr (True, acc, s) \<Rightarrow> Inr (False, sk_requeue a s)
      | Inr (False, acc, s) \<Rightarrow>
          (case weak_cas (fst (acc ! 0)) 0 (Some (snd (acc ! 0), False)) (Some (a, False)) (set_nexts a height acc s) of
             (ok, s) \<Rightarrow>
               if \<not> ok then insert_loop fuel lb ub a height s
               else (case link_levels fuel lb ub a [1 ..< height + 1] acc s of
                       Inl err \<Rightarrow> Inl err
                     | Inr s \<Rightarrow> Inr (True, s))))"

definition sk_insert :: "nat \<Rightarrow> int \<Rightarrow> int \<Rightarrow> nat \<Rightarrow> skl \<Rightarrow> sk_error + (bool \<times> skl)" where
  "sk_insert fuel lb ub x s =
     (let (height, y) = randomLevel (sk_seed s);
          (a, s) = sk_allocate (s\<lparr>sk_seed := y\<rparr>)
      in insert_loop fuel lb ub a height (s\<lparr>heap := (heap s)(a \<mapsto> Node lb ub x height)\<rparr>))"

section \<open>\<open>remove\<close>\<close>

text \<open>Marking a level above the bottom, until it is marked.\<close>

fun mark_level :: "nat \<Rightarrow> nat \<Rightarrow> nat \<Rightarrow> skl \<Rightarrow> sk_error + skl" where
  "mark_level 0 a level s = Inl No_fuel"
| "mark_level (Suc fuel) a level s =
     (case get_link (heap s) a level of
        None \<Rightarrow> Inl Null_deref
      | Some (succ, marked) \<Rightarrow>
          if marked then Inr s
          else mark_level fuel a level (snd (weak_cas a level (Some (succ, False)) (Some (succ, True)) s)))"

fun mark_levels :: "nat \<Rightarrow> nat \<Rightarrow> nat list \<Rightarrow> skl \<Rightarrow> sk_error + skl" where
  "mark_levels fuel a [] s = Inr s"
| "mark_levels fuel a (level # levels) s =
     (case mark_level fuel a level s of Inl err \<Rightarrow> Inl err | Inr s \<Rightarrow> mark_levels fuel a levels s)"

text \<open>At the bottom the thread whose compare-and-swap sets the mark has removed the node.\<close>

fun mark_bottom :: "nat \<Rightarrow> nat \<Rightarrow> link \<Rightarrow> skl \<Rightarrow> sk_error + (bool \<times> skl)" where
  "mark_bottom 0 a succ s = Inl No_fuel"
| "mark_bottom (Suc fuel) a succ s =
     (case weak_cas a 0 succ (map_option (\<lambda>(p, _). (p, True)) succ) s of
        (iMarkedIt, s) \<Rightarrow>
          if iMarkedIt then Inr (True, s)
          else (case get_link (heap s) a 0 of
                  Some (p, True) \<Rightarrow> Inr (False, s)
                | l \<Rightarrow> mark_bottom fuel a l s))"

definition sk_deallocate :: "nat \<Rightarrow> skl \<Rightarrow> skl" where
  "sk_deallocate a s = s\<lparr>sk_free := sk_free s @ [a]\<rparr>"

definition sk_remove :: "nat \<Rightarrow> int \<Rightarrow> int \<Rightarrow> skl \<Rightarrow> sk_error + (nat option \<times> skl)" where
  "sk_remove fuel lb ub s =
     (case sk_find fuel lb ub s of
        Inl err \<Rightarrow> Inl err
      | Inr (False, _, s) \<Rightarrow> Inr (None, s)
      | Inr (True, acc, s) \<Rightarrow>
          (let a = snd (acc ! 0) in
           case heap s a of
             None \<Rightarrow> Inl Null_deref
           | Some n \<Rightarrow>
               (case mark_levels fuel a (rev [1 ..< topLevel n + 1]) s of
                  Inl err \<Rightarrow> Inl err
                | Inr s \<Rightarrow>
                    (case mark_bottom fuel a (map_option (\<lambda>(p, _). (p, False)) (get_link (heap s) a 0)) s of
                       Inl err \<Rightarrow> Inl err
                     | Inr (False, s) \<Rightarrow> Inr (None, s)
                     | Inr (True, s) \<Rightarrow>
                         (case sk_find fuel lb ub s of
                            Inl err \<Rightarrow> Inl err
                          | Inr (_, _, s) \<Rightarrow> Inr (Some (sk_value n), sk_deallocate a s))))))"

section \<open>\<open>get\<close> and the iteration\<close>

text \<open>
  \<open>get\<close> does not unlink: at a marked node it reads the predecessor's link again, for as long as it
  leads to a marked node.
\<close>

fun get_level :: "nat \<Rightarrow> int \<Rightarrow> nat \<Rightarrow> (nat \<Rightarrow> sknode option) \<Rightarrow> nat \<Rightarrow> nat \<Rightarrow> sk_error + (nat \<times> nat)" where
  "get_level 0 key level h pred cur = Inl No_fuel"
| "get_level (Suc fuel) key level h pred cur =
     (case h cur of
        None \<Rightarrow> Inl Null_deref
      | Some n \<Rightarrow>
          (case nxt n ! level of
             Some (succ, True) \<Rightarrow>
               (case get_link h pred level of
                  None \<Rightarrow> Inl Null_deref
                | Some (cur, _) \<Rightarrow> get_level fuel key level h pred cur)
           | succ \<Rightarrow>
               if is_less_than n key then
                 (case succ of None \<Rightarrow> Inl Null_deref | Some (succ, _) \<Rightarrow> get_level fuel key level h cur succ)
               else Inr (pred, cur)))"

fun get_levels :: "nat \<Rightarrow> int \<Rightarrow> nat \<Rightarrow> (nat \<Rightarrow> sknode option) \<Rightarrow> nat \<Rightarrow> nat \<Rightarrow> sk_error + nat" where
  "get_levels fuel key 0 h pred cur = Inr cur"
| "get_levels fuel key (Suc level) h pred cur =
     (case get_link h pred level of
        None \<Rightarrow> Inl Null_deref
      | Some (cur, _) \<Rightarrow>
          (case get_level fuel key level h pred cur of
             Inl err \<Rightarrow> Inl err
           | Inr (pred, cur) \<Rightarrow> get_levels fuel key level h pred cur))"

text \<open>The value, and the number of accesses before this one.\<close>

definition sk_get :: "nat \<Rightarrow> int \<Rightarrow> skl \<Rightarrow> sk_error + ((nat \<times> nat) option \<times> skl)" where
  "sk_get fuel key s =
     (case get_levels fuel key MAX_LEVEL (heap s) sk_head sk_head of
        Inl err \<Rightarrow> Inl err
      | Inr cur \<Rightarrow>
          (case heap s cur of
             None \<Rightarrow> Inl Null_deref
           | Some n \<Rightarrow>
               if is_equal n key
               then Inr (Some (sk_value n, accesses n), s\<lparr>heap := (heap s)(cur \<mapsto> n\<lparr>accesses := accesses n + 1\<rparr>)\<rparr>)
               else Inr (None, s)))"

fun sk_count_from :: "nat \<Rightarrow> (nat \<Rightarrow> sknode option) \<Rightarrow> nat \<Rightarrow> nat \<Rightarrow> sk_error + nat" where
  "sk_count_from 0 h cur n = Inl No_fuel"
| "sk_count_from (Suc fuel) h cur n =
     (if cur = sk_tail then Inr n
      else case get_link h cur 0 of None \<Rightarrow> Inl Null_deref | Some (cur, _) \<Rightarrow> sk_count_from fuel h cur (n + 1))"

definition sk_count :: "nat \<Rightarrow> skl \<Rightarrow> sk_error + nat" where
  "sk_count fuel s = sk_count_from fuel (heap s) sk_head 0"

end
