(* ===== verification/LockFreeSkProps.thy ===== *)
theory LockFreeSkProps
  imports LockFreeSk "HOL-Library.Sublist"
begin

text \<open>
  Lookups in the lock-free skiplist: on a heap whose levels are sorted lists they return what a linear
  search of the bottom level would, and at a deleted node that is still linked they never end.
\<close>

section \<open>Levels as lists\<close>

lemma subseq_set: "subseq xs ys \<Longrightarrow> x \<in> set xs \<Longrightarrow> x \<in> set ys"
  using list_emb_set [of "(=)" xs ys x] by auto

lemma find_append: "List.find P (xs @ ys) = (case List.find P xs of None \<Rightarrow> List.find P ys | Some x \<Rightarrow> Some x)"
  by (induction xs) simp_all

definition node_at :: "(nat \<Rightarrow> sknode option) \<Rightarrow> nat \<Rightarrow> sknode" where
  "node_at h a = the (h a)"

fun path :: "(nat \<Rightarrow> sknode option) \<Rightarrow> nat \<Rightarrow> nat list \<Rightarrow> bool" where
  "path h level [] = False"
| "path h level [a] \<longleftrightarrow> a = sk_tail"
| "path h level (a # b # p) \<longleftrightarrow> get_link h a level = Some (b, False) \<and> path h level (b # p)"

text \<open>\<open>ps level\<close> lists the nodes of a level from the head to the tail.\<close>

definition sk_wf :: "(nat \<Rightarrow> sknode option) \<Rightarrow> (nat \<Rightarrow> nat list) \<Rightarrow> bool" where
  "sk_wf h ps \<longleftrightarrow>
     (\<forall>level < MAX_LEVEL. path h level (ps level) \<and> hd (ps level) = sk_head \<and> length (ps level) \<ge> 2) \<and>
     (\<forall>level < MAX_LEVEL - 1. subseq (ps (Suc level)) (ps level)) \<and>
     (\<forall>a \<in> set (ps 0). h a \<noteq> None \<and> key_low (node_at h a) \<le> key_high (node_at h a)) \<and>
     sorted_wrt (\<lambda>a b. key_high (node_at h a) \<le> key_low (node_at h b)) (ps 0) \<and>
     (\<forall>level < MAX_LEVEL. get_link h sk_tail level = None)"

lemma sk_wf_level:
  assumes "sk_wf h ps" "level < MAX_LEVEL"
  shows "path h level (ps level)" "hd (ps level) = sk_head" "length (ps level) \<ge> 2" "set (ps level) \<subseteq> set (ps 0)"
    "get_link h sk_tail level = None"
proof -
  show "path h level (ps level)" "hd (ps level) = sk_head" "length (ps level) \<ge> 2" "get_link h sk_tail level = None"
    using assms by (auto simp: sk_wf_def)
  show "set (ps level) \<subseteq> set (ps 0)" using assms(2)
  proof (induction level)
    case (Suc level)
    then have "subseq (ps (Suc level)) (ps level)" using assms(1) by (simp add: sk_wf_def less_diff_conv)
    then have "set (ps (Suc level)) \<subseteq> set (ps level)" by (intro subsetI) (rule subseq_set)
    then show ?case using Suc by simp
  qed simp
qed

lemma path_last: "path h level p \<Longrightarrow> last p = sk_tail"
  by (induction h level p rule: path.induct) auto

text \<open>A suffix of a level that starts with a node has a successor for it unless it is the tail.\<close>

lemma path_suffix: "path h level (us @ vs) \<Longrightarrow> vs \<noteq> [] \<Longrightarrow> path h level vs"
proof (induction us)
  case (Cons u us)
  then show ?case by (cases "us @ vs") auto
qed simp

section \<open>One level\<close>

text \<open>
  Walking a level from \<open>pred\<close> ends at the last node that is less than the key.
\<close>

lemma get_level_walk:
  assumes "path h level (pred # cur # rest)" and "\<forall>a \<in> set (cur # rest). h a \<noteq> None"
    and "get_link h sk_tail level = None" and "key < key_high (node_at h sk_tail)"
    and "length rest < fuel" and "key_high (node_at h pred) \<le> key"
  shows "\<exists>us pred' cur' vs. get_level fuel key level h pred cur = Inr (pred', cur') \<and>
     pred # cur # rest = us @ pred' # cur' # vs \<and> key_high (node_at h pred') \<le> key \<and> key < key_high (node_at h cur')"
  using assms
proof (induction rest arbitrary: pred cur fuel)
  case Nil
  then obtain f where f: "fuel = Suc f" by (cases fuel) auto
  from Nil.prems have "cur = sk_tail" by simp
  then obtain n where n: "h cur = Some n" "nxt n ! level = None" "key < key_high n"
    using Nil.prems by (auto simp: get_link_def node_at_def)
  then have "get_level fuel key level h pred cur = Inr (pred, cur)" using f by (simp add: is_less_than_def)
  then show ?case using Nil.prems n by (intro exI [of _ "[]"] exI [of _ pred] exI [of _ cur] exI [of _ "[]"]) (simp add: node_at_def)
next
  case (Cons b rest)
  then obtain f where f: "fuel = Suc f" by (cases fuel) auto
  from Cons.prems obtain n where n: "h cur = Some n" "nxt n ! level = Some (b, False)" by (auto simp: get_link_def)
  show ?case
  proof (cases "key_high n \<le> key")
    case True
    then have "get_level fuel key level h pred cur = get_level f key level h cur b"
      using f n by (simp add: is_less_than_def)
    moreover have "\<exists>us pred' cur' vs. get_level f key level h cur b = Inr (pred', cur') \<and>
        cur # b # rest = us @ pred' # cur' # vs \<and> key_high (node_at h pred') \<le> key \<and> key < key_high (node_at h cur')"
      by (rule Cons.IH) (use Cons.prems f n True in \<open>auto simp: node_at_def\<close>)
    ultimately show ?thesis by (metis append_Cons)
  next
    case False
    then have "get_level fuel key level h pred cur = Inr (pred, cur)" using f n by (simp add: is_less_than_def)
    then show ?thesis using Cons.prems n False
      by (intro exI [of _ "[]"] exI [of _ pred] exI [of _ cur] exI [of _ "b # rest"]) (simp add: node_at_def)
  qed
qed

lemma get_level_wf:
  assumes wf: "sk_wf h ps" and l: "level < MAX_LEVEL" and p: "pred \<in> set (ps level)"
    and key: "key_high (node_at h pred) \<le> key" "key < key_high (node_at h sk_tail)" and fuel: "length (ps level) < fuel"
  obtains cur us pred' cur' vs where "get_link h pred level = Some (cur, False)"
    "get_level fuel key level h pred cur = Inr (pred', cur')" "ps level = us @ pred' # cur' # vs"
    "key_high (node_at h pred') \<le> key" "key < key_high (node_at h cur')"
proof -
  note L = sk_wf_level [OF wf l]
  obtain us rest where r: "ps level = us @ pred # rest" using split_list [OF p] by blast
  have pa: "path h level (pred # rest)" using path_suffix [of h level us "pred # rest"] L(1) r by simp
  have "pred \<noteq> sk_tail" using key by auto
  then obtain cur rest' where c: "rest = cur # rest'" using pa by (cases rest) auto
  have "\<forall>a \<in> set (ps 0). h a \<noteq> None" using wf by (simp add: sk_wf_def)
  then have "\<forall>a \<in> set (cur # rest'). h a \<noteq> None" using L(4) r c by auto
  from get_level_walk [OF pa [unfolded c] this L(5) key(2) _ key(1), of fuel] fuel r c
  obtain ws pred' cur' vs where w: "get_level fuel key level h pred cur = Inr (pred', cur')"
    "pred # cur # rest' = ws @ pred' # cur' # vs" "key_high (node_at h pred') \<le> key" "key < key_high (node_at h cur')"
    by auto
  have "get_link h pred level = Some (cur, False)" using pa c by simp
  moreover have "ps level = (us @ ws) @ pred' # cur' # vs" using r c w(2) by simp
  ultimately show ?thesis using that w by blast
qed

section \<open>All levels\<close>

lemma get_levels_wf:
  assumes wf: "sk_wf h ps" and "level < MAX_LEVEL" and "pred \<in> set (ps level)"
    and "key_high (node_at h pred) \<le> key" and key: "key < key_high (node_at h sk_tail)"
    and fuel: "\<forall>l < MAX_LEVEL. length (ps l) < fuel"
  shows "\<exists>us pred' cur vs. get_levels fuel key (Suc level) h pred c0 = Inr cur \<and> ps 0 = us @ pred' # cur # vs \<and>
     key_high (node_at h pred') \<le> key \<and> key < key_high (node_at h cur)"
  using assms(2-4)
proof (induction level arbitrary: pred c0)
  case 0
  have f: "length (ps 0) < fuel" using fuel 0(1) by simp
  obtain cur us pred' cur' vs where "get_link h pred 0 = Some (cur, False)"
    "get_level fuel key 0 h pred cur = Inr (pred', cur')" "ps 0 = us @ pred' # cur' # vs"
    "key_high (node_at h pred') \<le> key" "key < key_high (node_at h cur')"
    by (rule get_level_wf [OF wf 0(1,2,3) key f])
  then show ?case by (intro exI [of _ us] exI [of _ pred'] exI [of _ cur'] exI [of _ vs]) simp
next
  case (Suc level)
  have f: "length (ps (Suc level)) < fuel" using fuel Suc.prems(1) by simp
  obtain cur us pred' cur' vs where g: "get_link h pred (Suc level) = Some (cur, False)"
    "get_level fuel key (Suc level) h pred cur = Inr (pred', cur')" "ps (Suc level) = us @ pred' # cur' # vs"
    "key_high (node_at h pred') \<le> key"
    by (rule get_level_wf [OF wf Suc.prems(1,2,3) key f])
  have "subseq (ps (Suc level)) (ps level)" using wf Suc.prems(1) by (simp add: sk_wf_def less_diff_conv)
  then have p: "pred' \<in> set (ps level)" using g(3) by (auto intro: subseq_set)
  have "get_levels fuel key (Suc (Suc level)) h pred c0 = get_levels fuel key (Suc level) h pred' cur'" using g by simp
  with Suc.IH [OF _ p g(4), of cur'] Suc.prems(1) show ?case by simp
qed

definition sk_lookup :: "(nat \<Rightarrow> sknode option) \<Rightarrow> nat list \<Rightarrow> int \<Rightarrow> nat option" where
  "sk_lookup h p key = List.find (\<lambda>a. is_equal (node_at h a) key) p"

text \<open>C39: on a heap whose levels are sorted lists, each part of the one below, \<open>get\<close> finds the
  node of the bottom level whose range contains the key, if there is one, and returns its value
  and its count of accesses, which it increments; otherwise it finds nothing.\<close>

theorem sk_get_lookup:
  assumes wf: "sk_wf (heap s) ps" and key: "key_high (node_at (heap s) sk_head) \<le> key" "key < key_high (node_at (heap s) sk_tail)"
    and fuel: "\<forall>l < MAX_LEVEL. length (ps l) < fuel"
  shows "sk_get fuel key s = (case sk_lookup (heap s) (ps 0) key of
       None \<Rightarrow> Inr (None, s)
     | Some a \<Rightarrow> (let n = node_at (heap s) a in
         Inr (Some (sk_value n, accesses n), s\<lparr>heap := (heap s)(a \<mapsto> n\<lparr>accesses := accesses n + 1\<rparr>)\<rparr>)))"
proof -
  let ?h = "heap s"
  have M: "15 < MAX_LEVEL" "MAX_LEVEL = Suc 15" "0 < MAX_LEVEL" by (simp_all add: MAX_LEVEL_def)
  have "sk_head \<in> set (ps 15)" using sk_wf_level(2,3) [OF wf M(1)] by (cases "ps 15") auto
  from get_levels_wf [OF wf M(1) this key fuel, of sk_head]
  obtain us pred cur vs where g: "get_levels fuel key MAX_LEVEL ?h sk_head sk_head = Inr cur" "ps 0 = us @ pred # cur # vs"
    "key_high (node_at ?h pred) \<le> key" "key < key_high (node_at ?h cur)" using M(2) by auto
  have W: "sorted_wrt (\<lambda>a b. key_high (node_at ?h a) \<le> key_low (node_at ?h b)) (ps 0)"
    "\<And>a. a \<in> set (ps 0) \<Longrightarrow> ?h a \<noteq> None \<and> key_low (node_at ?h a) \<le> key_high (node_at ?h a)"
    using wf by (auto simp: sk_wf_def)
  obtain n where n: "?h cur = Some n" using W(2) [of cur] g(2) by auto
  then have nc: "node_at ?h cur = n" by (simp add: node_at_def)
  have before: "key_high (node_at ?h a) \<le> key" if "a \<in> set (us @ [pred])" for a
  proof (cases "a = pred")
    case False
    then have "a \<in> set us" using that by simp
    then have "key_high (node_at ?h a) \<le> key_low (node_at ?h pred)" using W(1) g(2) by (auto simp: sorted_wrt_append)
    also have "\<dots> \<le> key_high (node_at ?h pred)" using W(2) [of pred] g(2) by simp
    finally show ?thesis using g(3) by simp
  qed (use g(3) in simp)
  have after: "key < key_low (node_at ?h a)" if "a \<in> set vs" for a
  proof -
    have "key_high (node_at ?h cur) \<le> key_low (node_at ?h a)" using W(1) g(2) that by (auto simp: sorted_wrt_append)
    then show ?thesis using g(4) by simp
  qed
  have l: "sk_lookup ?h (ps 0) key = (if is_equal n key then Some cur else None)"
  proof -
    have "sk_lookup ?h (us @ [pred]) key = None"
      using before unfolding sk_lookup_def find_None_iff is_equal_def by (meson not_le)
    moreover have "sk_lookup ?h vs key = None"
      using after unfolding sk_lookup_def find_None_iff is_equal_def by (meson not_le)
    ultimately show ?thesis
      using nc g(2) find_append [of "\<lambda>a. is_equal (node_at ?h a) key" "us @ [pred]" "cur # vs"]
      by (simp add: sk_lookup_def)
  qed
  show ?thesis using g(1) n nc l by (simp add: sk_get_def Let_def)
qed

text \<open>where the search meets a deleted node that its predecessor still leads to, \<open>get\<close> reads
  the same link again and again: no amount of time suffices unless another thread unlinks the node,
  and no thread can once the predecessor itself is deleted.\<close>

theorem sk_get_spins:
  assumes "h cur = Some n" and "nxt n ! level = Some (succ, True)" and "get_link h pred level = Some (cur, m)"
  shows "get_level fuel key level h pred cur = Inl No_fuel"
  using assms by (induction fuel) simp_all


section \<open>Witnesses\<close>

text \<open>A list with one node, for the keys 10 to 19, on the two lowest levels.\<close>

definition one_node_list :: "skl" where
  "one_node_list = (sk_init (- 100) 100)\<lparr>heap := [
     sk_head \<mapsto> (Node (- 100) (- 100) 0 16)\<lparr>nxt := map (\<lambda>level. Some (if level < 2 then 2 else sk_tail, False)) [0 ..< MAX_LEVEL]\<rparr>,
     sk_tail \<mapsto> Node 100 100 0 16,
     2 \<mapsto> (Node 10 20 7 1)\<lparr>nxt := map (\<lambda>level. if level < 2 then Some (sk_tail, False) else None) [0 ..< MAX_LEVEL]\<rparr>]\<rparr>"

definition one_node_levels :: "nat \<Rightarrow> nat list" where
  "one_node_levels level = (if level < 2 then [sk_head, 2, sk_tail] else [sk_head, sk_tail])"

lemma one_node_list_wf: "sk_wf (heap one_node_list) one_node_levels"
  unfolding sk_wf_def one_node_levels_def one_node_list_def
  by (auto simp: get_link_def node_at_def Node_def sk_head_def sk_tail_def)

theorem sk_get_lookup_witness:
  "\<exists>s. sk_get 5 15 one_node_list = Inr (Some (7, 0), s) \<and> sk_get 5 25 one_node_list = Inr (None, one_node_list)"
proof -
  have k: "key_high (node_at (heap one_node_list) sk_head) = - 100" "key_high (node_at (heap one_node_list) sk_tail) = 100"
    "sk_lookup (heap one_node_list) (one_node_levels 0) 15 = Some 2" "sk_lookup (heap one_node_list) (one_node_levels 0) 25 = None"
    "sk_value (node_at (heap one_node_list) 2) = 7" "accesses (node_at (heap one_node_list) 2) = 0"
    by (simp_all add: one_node_list_def one_node_levels_def sk_lookup_def node_at_def Node_def sk_head_def sk_tail_def
        is_equal_def)
  have f: "\<forall>l < MAX_LEVEL. length (one_node_levels l) < 5" by (simp add: one_node_levels_def)
  show ?thesis
    using sk_get_lookup [OF one_node_list_wf _ _ f, of 15] sk_get_lookup [OF one_node_list_wf _ _ f, of 25] k
    by (simp add: Let_def)
qed

theorem sk_get_spins_witness:
  "get_level 1000 15 0 [0 \<mapsto> (Node 0 0 0 0)\<lparr>nxt := [Some (2, False)]\<rparr>, 2 \<mapsto> (Node 10 20 7 0)\<lparr>nxt := [Some (1, True)]\<rparr>] 0 2 =
     Inl No_fuel"
  by (rule sk_get_spins [where succ = 1 and m = False and n = "(Node 10 20 7 0)\<lparr>nxt := [Some (1, True)]\<rparr>"])
    (simp_all add: get_link_def)

end
