(* ===== verification/IndexCache.thy ===== *)
theory IndexCache
  imports LockFreeSkProps
begin

text \<open>
  The two client-side caches of Sherman: \<open>ShermanRoot\<close> (\<open>sherman_root.h\<close>), a fixed table of ranges
  and pointers, and \<open>IndexCache\<close> (\<open>sherman_cache.h\<close>), which keeps copies of tree pages in the
  lock-free skiplist. The page type is the template's parameter: a record of the accessors it must have.
\<close>

section \<open>\<open>ShermanRoot\<close>\<close>

record 'p root_entry =
  present :: bool
  e_ptr :: "'p option"
  e_low :: int
  e_high :: int

definition ShermanRoot :: "nat \<Rightarrow> 'p root_entry list" where
  "ShermanRoot entries = replicate entries \<lparr>present = False, e_ptr = None, e_low = 0, e_high = 0\<rparr>"

definition in_entry :: "'p root_entry \<Rightarrow> int \<Rightarrow> bool" where
  "in_entry e key \<longleftrightarrow> present e \<and> e_low e \<le> key \<and> key < e_high e"

fun find_ptr :: "'p root_entry list \<Rightarrow> int \<Rightarrow> 'p option" where
  "find_ptr [] key = None"
| "find_ptr (e # es) key = (if in_entry e key then e_ptr e else find_ptr es key)"

fun put_into_cache :: "int \<Rightarrow> int \<Rightarrow> 'p option \<Rightarrow> 'p root_entry list \<Rightarrow> bool \<times> 'p root_entry list" where
  "put_into_cache low high p [] = (False, [])"
| "put_into_cache low high p (e # es) =
     (if present e then (case put_into_cache low high p es of (ok, es) \<Rightarrow> (ok, e # es))
      else (True, \<lparr>present = True, e_ptr = p, e_low = low, e_high = high\<rparr> # es))"

definition root_invalidate :: "int \<Rightarrow> 'p root_entry list \<Rightarrow> 'p root_entry list" where
  "root_invalidate key es = map (\<lambda>e. if in_entry e key then e\<lparr>present := False\<rparr> else e) es"

lemma find_ptr_none: "\<forall>e \<in> set es. \<not> in_entry e key \<Longrightarrow> find_ptr es key = None"
  by (induction es) auto

lemma put_find:
  assumes "put_into_cache low high p es = (True, es')" and "\<forall>e \<in> set es. \<not> in_entry e key"
  shows "find_ptr es' key = (if low \<le> key \<and> key < high then p else None)"
  using assms
  by (induction es arbitrary: es') (auto simp: in_entry_def find_ptr_none split: if_splits prod.splits)

lemma put_full: "fst (put_into_cache low high p es) \<longleftrightarrow> (\<exists>e \<in> set es. \<not> present e)"
  by (induction es) (auto split: prod.splits)

text \<open>
  a range put into a table with a free slot is found at every key of the range that no
  entry covered before, its lower bound included and its upper one not; invalidating a key removes every entry that
  covers it, so it is not found, and leaves the keys that only other entries cover as they were.\<close>

theorem sherman_root_map:
  assumes "put_into_cache low high p es = (ok, es')" and "\<forall>e \<in> set es. \<not> in_entry e key"
  shows "(ok \<longleftrightarrow> (\<exists>e \<in> set es. \<not> present e)) \<and>
     (ok \<longrightarrow> find_ptr es' key = (if low \<le> key \<and> key < high then p else None)) \<and>
     find_ptr (root_invalidate k es'') k = None \<and>
     ((\<forall>e \<in> set es''. \<not> (in_entry e k \<and> in_entry e key)) \<longrightarrow> find_ptr (root_invalidate k es'') key = find_ptr es'' key)"
proof (intro conjI impI)
  show "ok \<longleftrightarrow> (\<exists>e \<in> set es. \<not> present e)" using put_full [of low high p es] assms(1) by simp
  show "find_ptr es' key = (if low \<le> key \<and> key < high then p else None)" if ok
    using put_find [of low high p es es' key] assms that by simp
  show "find_ptr (root_invalidate k es'') k = None"
    by (rule find_ptr_none) (auto simp: root_invalidate_def in_entry_def)
  show "find_ptr (root_invalidate k es'') key = find_ptr es'' key"
    if "\<forall>e \<in> set es''. \<not> (in_entry e k \<and> in_entry e key)"
    using that by (induction es'') (auto simp: root_invalidate_def in_entry_def)
qed

theorem sherman_root_map_witness:
  "find_ptr (snd (put_into_cache 10 20 (Some (5 :: nat)) (ShermanRoot 2))) 10 = Some 5"
proof -
  obtain ok es' where p: "put_into_cache 10 20 (Some (5 :: nat)) (ShermanRoot 2) = (ok, es')" by fastforce
  have "\<forall>e \<in> set (ShermanRoot 2 :: nat root_entry list). \<not> in_entry e 10" "\<exists>e \<in> set (ShermanRoot 2 :: nat root_entry list). \<not> present e"
    by (auto simp: ShermanRoot_def in_entry_def)
  with sherman_root_map [OF p, of 10] p show ?thesis by auto
qed

section \<open>\<open>IndexCache\<close>\<close>

record ('t, 'p) page_ops =
  pg_low :: "'t \<Rightarrow> int"
  pg_high :: "'t \<Rightarrow> int"
  pg_in_range :: "'t \<Rightarrow> int \<Rightarrow> bool"
  pg_key_at :: "'t \<Rightarrow> nat \<Rightarrow> int"
  pg_ptr_at :: "'t \<Rightarrow> nat \<Rightarrow> 'p"

text \<open>The pages are copies in local memory; the skiplist holds their addresses, which are not 0.\<close>

record 't index =
  skiplist :: skl
  pages :: "nat \<Rightarrow> 't option"
  page_fresh :: nat
  room_entries :: int
  success_adds :: int
  page_limbo :: "nat list"

definition IndexCache :: "int \<Rightarrow> int \<Rightarrow> nat \<Rightarrow> nat \<Rightarrow> 't index" where
  "IndexCache int_min int_max cache_size sizeof_T =
     \<lparr>skiplist = sk_init int_min int_max, pages = Map.empty, page_fresh = 1,
      room_entries = int ((1024 * 1024 * cache_size) div sizeof_T), success_adds = 0, page_limbo = []\<rparr>"

definition find_entry :: "nat \<Rightarrow> int \<Rightarrow> 't index \<Rightarrow> sk_error + ((nat \<times> nat) option \<times> 't index)" where
  "find_entry fuel k ic = (case sk_get fuel k (skiplist ic) of
     Inl err \<Rightarrow> Inl err | Inr (r, sk) \<Rightarrow> Inr (r, ic\<lparr>skiplist := sk\<rparr>))"

definition add_entry :: "nat \<Rightarrow> int \<Rightarrow> int \<Rightarrow> nat \<Rightarrow> 't index \<Rightarrow> sk_error + (bool \<times> 't index)" where
  "add_entry fuel from to data ic = (case sk_insert fuel from to data (skiplist ic) of
     Inl err \<Rightarrow> Inl err | Inr (ok, sk) \<Rightarrow> Inr (ok, ic\<lparr>skiplist := sk\<rparr>))"

text \<open>Both \<open>invalidate\<close>s remove a range and give the page they get back to \<open>local_ebr\<close>.\<close>

definition remove_range :: "nat \<Rightarrow> int \<Rightarrow> int \<Rightarrow> 't index \<Rightarrow> sk_error + (bool \<times> 't index)" where
  "remove_range fuel low high ic = (case sk_remove fuel low high (skiplist ic) of
     Inl err \<Rightarrow> Inl err
   | Inr (None, sk) \<Rightarrow> Inr (False, ic\<lparr>skiplist := sk\<rparr>)
   | Inr (Some data, sk) \<Rightarrow>
       if data = 0 then Inr (False, ic\<lparr>skiplist := sk\<rparr>)
       else Inr (True, ic\<lparr>skiplist := sk, room_entries := room_entries ic + 1, page_limbo := page_limbo ic @ [data]\<rparr>))"

definition invalidate_key :: "nat \<Rightarrow> int \<Rightarrow> 't index \<Rightarrow> sk_error + (bool \<times> 't index)" where
  "invalidate_key fuel key ic = remove_range fuel key key ic"

definition invalidate_page :: "('t, 'p) page_ops \<Rightarrow> nat \<Rightarrow> nat \<Rightarrow> 't index \<Rightarrow> sk_error + (bool \<times> 't index)" where
  "invalidate_page po fuel data ic = (case pages ic data of
     None \<Rightarrow> Inl Null_deref | Some pg \<Rightarrow> remove_range fuel (pg_low po pg) (pg_high po pg) ic)"

text \<open>A random key until one hits an entry; the random keys come from a list.\<close>

fun get_a_random_entry :: "nat \<Rightarrow> int list \<Rightarrow> 't index \<Rightarrow> sk_error + (nat \<times> nat \<times> int list \<times> 't index)" where
  "get_a_random_entry fuel [] ic = Inl No_fuel"
| "get_a_random_entry fuel (k # ks) ic =
     (case find_entry fuel (k mod (1000 * 1024 * 1024)) ic of
        Inl err \<Rightarrow> Inl err
      | Inr (None, ic) \<Rightarrow> get_a_random_entry fuel ks ic
      | Inr (Some (page, freq), ic) \<Rightarrow>
          if page = 0 then get_a_random_entry fuel ks ic else Inr (page, freq, ks, ic))"

definition evict_one :: "('t, 'p) page_ops \<Rightarrow> nat \<Rightarrow> int list \<Rightarrow> 't index \<Rightarrow> sk_error + 't index" where
  "evict_one po fuel ks ic =
     (case get_a_random_entry fuel ks ic of
        Inl err \<Rightarrow> Inl err
      | Inr (e1, freq1, ks, ic) \<Rightarrow>
          (case get_a_random_entry fuel ks ic of
             Inl err \<Rightarrow> Inl err
           | Inr (e2, freq2, ks, ic) \<Rightarrow>
               (case invalidate_page po fuel (if freq1 < freq2 then e1 else e2) ic of
                  Inl err \<Rightarrow> Inl err | Inr (_, ic) \<Rightarrow> Inr ic)))"

definition add_to_cache ::
  "('t, 'p) page_ops \<Rightarrow> nat \<Rightarrow> int list \<Rightarrow> 't \<Rightarrow> 't index \<Rightarrow> sk_error + (bool \<times> 't index)" where
  "add_to_cache po fuel ks page ic =
     (let data = page_fresh ic;
          ic = ic\<lparr>pages := (pages ic)(data \<mapsto> page), page_fresh := data + 1\<rparr>
      in case add_entry fuel (pg_low po page) (pg_high po page) data ic of
           Inl err \<Rightarrow> Inl err
         | Inr (False, ic) \<Rightarrow> Inr (False, ic)
         | Inr (True, ic) \<Rightarrow>
             (let v = room_entries ic;
                  ic = ic\<lparr>success_adds := success_adds ic + 1, room_entries := v - 1\<rparr>
              in if v \<le> 0
                 then (case evict_one po fuel ks ic of Inl err \<Rightarrow> Inl err | Inr ic \<Rightarrow> Inr (True, ic))
                 else Inr (True, ic)))"

text \<open>The linear search in the page: the child left of the first key that is not below, or the last one.\<close>

definition page_child :: "('t, 'p) page_ops \<Rightarrow> nat \<Rightarrow> 't \<Rightarrow> int \<Rightarrow> 'p" where
  "page_child po d page k =
     (case List.find (\<lambda>i. k \<le> pg_key_at po page i) [0 ..< 2 * d + 1] of
        Some i \<Rightarrow> pg_ptr_at po page i
      | None \<Rightarrow> pg_ptr_at po page (2 * d + 1))"

definition search_from_cache ::
  "('t, 'p) page_ops \<Rightarrow> nat \<Rightarrow> nat \<Rightarrow> int \<Rightarrow> 't index \<Rightarrow> sk_error + ('p option \<times> 't index)" where
  "search_from_cache po d fuel k ic =
     (case find_entry fuel k ic of
        Inl err \<Rightarrow> Inl err
      | Inr (None, ic) \<Rightarrow> Inr (None, ic)
      | Inr (Some (data, _), ic) \<Rightarrow>
          if data = 0 then Inr (None, ic)
          else (case pages ic data of
                  None \<Rightarrow> Inl Null_deref
                | Some page \<Rightarrow>
                    if \<not> pg_in_range po page k then Inr (None, ic)
                    else Inr (Some (page_child po d page k), ic)))"

section \<open>Properties\<close>

text \<open>
  The skiplist's ranges include their lower bound and not their upper one, while the pages of the tree
  exclude the lower and include the upper.
\<close>

definition tree_ranges :: "('t, 'p) page_ops \<Rightarrow> bool" where
  "tree_ranges po \<longleftrightarrow> (\<forall>page k. pg_in_range po page k \<longleftrightarrow> pg_low po page < k \<and> k \<le> pg_high po page)"

text \<open>Every entry of the skiplist stands for a page with its range.\<close>

definition index_ok :: "('t, 'p) page_ops \<Rightarrow> 't index \<Rightarrow> (nat \<Rightarrow> nat list) \<Rightarrow> bool" where
  "index_ok po ic ps \<longleftrightarrow> sk_wf (heap (skiplist ic)) ps \<and>
     (\<forall>a \<in> set (ps 0). let n = node_at (heap (skiplist ic)) a in a \<notin> {sk_head, sk_tail} \<longrightarrow>
        sk_value n \<noteq> 0 \<and> (\<exists>page. pages ic (sk_value n) = Some page \<and> pg_low po page = key_low n \<and> pg_high po page = key_high n))"

text \<open>A search of the index returns the child that a page in the cache has for the key, and
  finds one for every key strictly inside the range of a page in the cache; a key that is the
  lower bound of one page is never found.\<close>

theorem search_from_cache_sound:
  assumes I: "index_ok po ic ps" and R: "tree_ranges po"
    and key: "key_high (node_at (heap (skiplist ic)) sk_head) \<le> k" "k < key_high (node_at (heap (skiplist ic)) sk_tail)"
    and edge: "\<not> is_equal (node_at (heap (skiplist ic)) sk_head) k" "\<not> is_equal (node_at (heap (skiplist ic)) sk_tail) k"
    and fuel: "\<forall>l < MAX_LEVEL. length (ps l) < fuel"
  shows "\<exists>ic'. search_from_cache po d fuel k ic = Inr (
     (case sk_lookup (heap (skiplist ic)) (ps 0) k of
        None \<Rightarrow> None
      | Some a \<Rightarrow> (let n = node_at (heap (skiplist ic)) a in
          if key_low n < k then Some (page_child po d (the (pages ic (sk_value n))) k) else None)), ic')"
proof -
  let ?h = "heap (skiplist ic)"
  have wf: "sk_wf ?h ps" using I by (simp add: index_ok_def)
  note G = sk_get_lookup [OF wf key fuel]
  show ?thesis
  proof (cases "sk_lookup ?h (ps 0) k")
    case None
    then show ?thesis using G by (simp add: search_from_cache_def find_entry_def)
  next
    case (Some a)
    then have a: "a \<in> set (ps 0)" "is_equal (node_at ?h a) k" by (auto simp: sk_lookup_def find_Some_iff)
    then have "a \<notin> {sk_head, sk_tail}" using edge by auto
    then obtain page where p: "sk_value (node_at ?h a) \<noteq> 0" "pages ic (sk_value (node_at ?h a)) = Some page"
      "pg_low po page = key_low (node_at ?h a)" "pg_high po page = key_high (node_at ?h a)"
      using I a(1) by (auto simp: index_ok_def Let_def)
    have "pg_in_range po page k \<longleftrightarrow> key_low (node_at ?h a) < k"
      using R p a(2) by (auto simp: tree_ranges_def is_equal_def)
    then show ?thesis using G Some p by (simp add: search_from_cache_def find_entry_def Let_def)
  qed
qed

definition example_ops :: "(int \<times> int, nat) page_ops" where
  "example_ops = \<lparr>pg_low = fst, pg_high = snd, pg_in_range = \<lambda>page k. fst page < k \<and> k \<le> snd page,
     pg_key_at = \<lambda>_ _. 20, pg_ptr_at = \<lambda>_ i. i\<rparr>"

definition example_index :: "(int \<times> int) index" where
  "example_index = (IndexCache (- 100) 100 1 64)\<lparr>skiplist := one_node_list, pages := [7 \<mapsto> (10, 20)]\<rparr>"

theorem search_from_cache_sound_witness:
  "\<exists>ic ic'. search_from_cache example_ops 1 5 15 example_index = Inr (Some 0, ic) \<and>
     search_from_cache example_ops 1 5 10 example_index = Inr (None, ic')"
proof -
  let ?h = "heap (skiplist example_index)"
  note e = example_index_def one_node_list_def one_node_levels_def node_at_def Node_def sk_head_def sk_tail_def
  have I: "index_ok example_ops example_index one_node_levels"
    using one_node_list_wf unfolding index_ok_def by (simp add: e example_ops_def)
  have R: "tree_ranges example_ops" by (simp add: tree_ranges_def example_ops_def)
  have f: "\<forall>l < MAX_LEVEL. length (one_node_levels l) < 5" by (simp add: one_node_levels_def)
  have k: "key_high (node_at ?h sk_head) \<le> 10" "15 < key_high (node_at ?h sk_tail)" "\<not> is_equal (node_at ?h sk_head) k"
    "\<not> is_equal (node_at ?h sk_tail) k" "sk_lookup ?h (one_node_levels 0) 15 = Some 2"
    "sk_lookup ?h (one_node_levels 0) 10 = Some 2" "key_low (node_at ?h 2) = 10" "sk_value (node_at ?h 2) = 7" for k
    by (simp_all add: e is_equal_def sk_lookup_def)
  have c: "page_child example_ops 1 (10, 20) 15 = 0" by (simp add: page_child_def example_ops_def upt_rec)
  have p: "pages example_index 7 = Some (10, 20)" by (simp add: e)
  show ?thesis
    using search_from_cache_sound [OF I R _ _ k(3,4) f, of 15 1] search_from_cache_sound [OF I R _ _ k(3,4) f, of 10 1] k c p
    by (simp add: Let_def)
qed

text \<open>\<open>invalidate\<close> by key and the lookup disagree at the bounds of a range: a node that a lookup of
  the key finds is a match for \<open>invalidate\<close> only if the key is above the node's lower bound.\<close>

theorem invalidate_misses_lower_bound:
  "is_equal2 n k k \<longleftrightarrow> is_equal n k \<and> k \<noteq> key_low n"
  by (auto simp: is_equal2_def is_equal_def)

end
