(* ===== verification/ShNodes.thy ===== *)
theory ShNodes
  imports BTreeNodeProps
begin

text \<open>
  The nodes of the Sherman tree (\<open>iht/cached/ds/sherman.h\<close>). They are those of the cached B+ tree
  with fence keys: an inner node also has a line with its level and the range of keys it covers,
  and both kinds of node have a word that says whether they are deleted. Search, splits, shifts
  and merges are the operations of \<open>BTreeOps\<close>, with the ranges and the deletion added.
\<close>

section \<open>Inner nodes\<close>

definition LIVE :: "64 word" where "LIVE = 0xDEADDEADDEADDEAD"

record fency =
  fk_version :: "64 word"
  fk_height :: int
  fk_low :: int
  fk_high :: int
  fk_deleted :: "64 word"

record snode = bnode +
  fency_key :: fency

definition SNode :: "nat \<Rightarrow> snode" where
  "SNode d = \<lparr>bn_keys = replicate (KLINES d) kline0,
     bn_ptrs = replicate (PLINES d) \<lparr>pl_version = 0, pl_ptrs = replicate PLINE_SIZE None\<rparr>,
     fency_key = \<lparr>fk_version = 0, fk_height = - 1, fk_low = INT_MIN, fk_high = SENTINEL, fk_deleted = LIVE\<rparr>\<rparr>"

definition sn_mark_deleted :: "snode \<Rightarrow> snode" where
  "sn_mark_deleted n = n\<lparr>fency_key := (fency_key n)\<lparr>fk_deleted := 0\<rparr>\<rparr>"

definition sn_is_deleted :: "snode \<Rightarrow> bool" where
  "sn_is_deleted n \<longleftrightarrow> fk_deleted (fency_key n) \<noteq> LIVE"

definition sn_is_valid :: "snode \<Rightarrow> bool \<Rightarrow> bool" where
  "sn_is_valid n ignore_lock \<longleftrightarrow> \<not> sn_is_deleted n \<and>
     (let base = (if ignore_lock then kl_version (bn_keys n ! 0) AND NOT LOCK_BIT else kl_version (bn_keys n ! 0)) in
      list_all (\<lambda>l. kl_version l = base) (bn_keys n) \<and> list_all (\<lambda>l. pl_version l = base) (bn_ptrs n) \<and>
      fk_version (fency_key n) = base)"

definition sn_increment_version :: "snode \<Rightarrow> snode" where
  "sn_increment_version n =
     n\<lparr>bn_keys := bump_klines (bn_keys n), bn_ptrs := map (\<lambda>l. l\<lparr>pl_version := pl_version l + 1\<rparr>) (bn_ptrs n),
       fency_key := (fency_key n)\<lparr>fk_version := fk_version (fency_key n) + 1\<rparr>\<rparr>"

definition sn_key_in_range :: "snode \<Rightarrow> int \<Rightarrow> bool" where
  "sn_key_in_range n key \<longleftrightarrow> fk_low (fency_key n) < key \<and> key \<le> fk_high (fency_key n) \<and> \<not> sn_is_deleted n"

definition sn_set_range :: "int \<Rightarrow> int \<Rightarrow> snode \<Rightarrow> snode" where
  "sn_set_range low high n = n\<lparr>fency_key := (fency_key n)\<lparr>fk_low := low, fk_high := high\<rparr>\<rparr>"

definition sn_get_level :: "snode \<Rightarrow> int" where
  "sn_get_level n = fk_height (fency_key n)"

definition sn_set_level :: "int \<Rightarrow> snode \<Rightarrow> snode" where
  "sn_set_level level n = n\<lparr>fency_key := (fency_key n)\<lparr>fk_height := level\<rparr>\<rparr>"

section \<open>Leaves\<close>

text \<open>The last line has room for \<open>32 / sizeof(V)\<close> values; its word for the deletion is a field of the leaf here.\<close>

record sleaf = bleaf +
  lf_deleted :: "64 word"

definition SLeaf :: "nat \<Rightarrow> nat \<Rightarrow> nat \<Rightarrow> sleaf" where
  "SLeaf vs hs d = \<lparr>lf_keys = replicate (KLINES d) kline0,
     lf_values = replicate (VLINES vs hs d) \<lparr>vl_version = 0, vl_values = replicate vs 0\<rparr>,
     lf_last = \<lparr>hl_version = 0, hl_values = replicate hs 0, hl_key_low = INT_MIN, hl_key_high = SENTINEL,
                hl_next = None\<rparr>, lf_deleted = LIVE\<rparr>"

definition sl_is_deleted :: "sleaf \<Rightarrow> bool" where
  "sl_is_deleted l \<longleftrightarrow> lf_deleted l \<noteq> LIVE"

definition sl_mark_deleted :: "sleaf \<Rightarrow> sleaf" where
  "sl_mark_deleted l = l\<lparr>lf_deleted := 0\<rparr>"

definition sl_is_valid :: "sleaf \<Rightarrow> bool \<Rightarrow> bool" where
  "sl_is_valid l ignore_lock \<longleftrightarrow> \<not> sl_is_deleted l \<and> lf_is_valid l ignore_lock"

definition sl_key_in_range :: "sleaf \<Rightarrow> int \<Rightarrow> bool" where
  "sl_key_in_range l key \<longleftrightarrow> hl_key_low (lf_last l) < key \<and> key \<le> hl_key_high (lf_last l) \<and> \<not> sl_is_deleted l"

section \<open>Merging\<close>

text \<open>The left neighbour takes everything, the upper bound included, and the right one is marked deleted.\<close>

definition s_merge_into_left_node :: "nat \<Rightarrow> snode \<Rightarrow> nat \<Rightarrow> snode \<Rightarrow> snode \<Rightarrow> snode \<times> snode \<times> snode" where
  "s_merge_into_left_node d one bucket_one two parent =
     (let (lower_key, parent) = shift_down d bucket_one parent;
          size_one = free_slot (bn_key_at one) (SIZE d) 0;
          one = bn_set_key size_one lower_key one;
          one = set_ptr (size_one + 1) (ptr_at two 0) one;
          one = sn_set_range (fk_low (fency_key one)) (fk_high (fency_key two)) one
      in (merge_node_loop [0 ..< SIZE d] (size_one + 1) one two, sn_mark_deleted two, parent))"

definition s_merge_node :: "nat \<Rightarrow> snode \<Rightarrow> nat \<Rightarrow> snode \<Rightarrow> nat \<Rightarrow> snode \<Rightarrow> bool \<times> snode \<times> snode \<times> snode" where
  "s_merge_node d node_one bucket_one node_two bucket_two parent =
     (if bucket_one \<noteq> 0 then
        (case s_merge_into_left_node d node_two bucket_two node_one parent of
           (left, right, parent) \<Rightarrow> (True, right, left, parent))
      else
        (case s_merge_into_left_node d node_one bucket_one node_two parent of
           (left, right, parent) \<Rightarrow> (False, left, right, parent)))"

definition s_merge_leaf :: "nat \<Rightarrow> nat \<Rightarrow> sleaf \<Rightarrow> nat \<Rightarrow> sleaf \<Rightarrow> nat \<Rightarrow> snode \<Rightarrow> bool \<times> sleaf \<times> sleaf \<times> snode" where
  "s_merge_leaf vs d leaf_one bucket_one leaf_two bucket_two parent =
     (if bucket_one \<noteq> 0 then
        (case merge_into_left_leaf vs d leaf_two bucket_two leaf_one parent of
           (left, parent) \<Rightarrow> (True, sl_mark_deleted leaf_one, left, parent))
      else
        (case merge_into_left_leaf vs d leaf_one bucket_one leaf_two parent of
           (left, parent) \<Rightarrow> (False, left, sl_mark_deleted leaf_two, parent)))"

end
