(* ===== verification/ShTree.thy ===== *)
theory ShTree
  imports ShNodes BTree IndexCache
begin

text \<open>
  The memory of the Sherman tree (\<open>sherman.h\<close>), its locks, reads and splits, as one thread runs
  them. As in \<open>BTree\<close>, other threads show only in the compare-and-swaps they win (\<open>st_lost\<close>) and
  reads return what memory holds. A thread also has its two caches, the index of tree pages
  (\<open>st_index\<close>) and the table of children of the root (\<open>st_backup\<close>); the random keys of the
  evictions are in \<open>st_draws\<close>. \<open>sc_local\<close> says which addresses lie on the thread's own node.
\<close>

section \<open>The memory of the tree\<close>

record scfg =
  sc_degree :: nat
  sc_vs :: nat
  sc_hs :: nat
  sc_local :: "nat \<Rightarrow> bool"
  sc_fuel :: nat

record stree =
  st_root :: broot
  st_nodes :: "nat \<Rightarrow> snode option"
  st_leaves :: "nat \<Rightarrow> sleaf option"
  st_fresh :: nat
  st_freed :: "nat list"
  st_lost :: "bool list"
  st_index :: "snode index"
  st_backup :: "(nat \<times> bool) root_entry list"
  st_draws :: "int list list"

definition put_node :: "ptr \<Rightarrow> snode \<Rightarrow> stree \<Rightarrow> stree" where
  "put_node p n t = (case p of None \<Rightarrow> t | Some (a, _) \<Rightarrow> t\<lparr>st_nodes := (st_nodes t)(a \<mapsto> n)\<rparr>)"

definition put_leaf :: "ptr \<Rightarrow> sleaf \<Rightarrow> stree \<Rightarrow> stree" where
  "put_leaf p l t = (case p of None \<Rightarrow> t | Some (a, _) \<Rightarrow> t\<lparr>st_leaves := (st_leaves t)(a \<mapsto> l)\<rparr>)"

definition s_allocate :: "stree \<Rightarrow> ptr \<times> stree" where
  "s_allocate t = (Some (st_fresh t, False), t\<lparr>st_fresh := st_fresh t + 1\<rparr>)"

definition s_deallocate :: "ptr \<Rightarrow> stree \<Rightarrow> stree" where
  "s_deallocate p t = (case p of None \<Rightarrow> t | Some (a, _) \<Rightarrow> t\<lparr>st_freed := a # st_freed t\<rparr>)"

definition s_is_local :: "scfg \<Rightarrow> ptr \<Rightarrow> bool" where
  "s_is_local c p = (case p of None \<Rightarrow> False | Some (a, _) \<Rightarrow> sc_local c a)"

section \<open>Locks and reads\<close>

definition s_cas_lost :: "stree \<Rightarrow> bool \<times> stree" where
  "s_cas_lost t = (case st_lost t of [] \<Rightarrow> (False, t) | b # bs \<Rightarrow> (b, t\<lparr>st_lost := bs\<rparr>))"

definition s_acquire_root :: "64 word \<Rightarrow> stree \<Rightarrow> bool \<times> stree" where
  "s_acquire_root v t = (case s_cas_lost t of (lost, t) \<Rightarrow>
     if \<not> lost \<and> r_lock (st_root t) = v AND NOT LOCK_BIT
     then (True, t\<lparr>st_root := (st_root t)\<lparr>r_lock := v OR LOCK_BIT\<rparr>\<rparr>) else (False, t))"

definition s_acquire_node :: "ptr \<Rightarrow> 64 word \<Rightarrow> stree \<Rightarrow> bool \<times> stree" where
  "s_acquire_node p v t = (case s_cas_lost t of (lost, t) \<Rightarrow>
     (case deref p (st_nodes t) of
        Inl _ \<Rightarrow> (False, t)
      | Inr n \<Rightarrow>
          if \<not> lost \<and> kl_version (bn_keys n ! 0) = v AND NOT LOCK_BIT
          then (True, put_node p (n\<lparr>bn_keys := set_first_version (v OR LOCK_BIT) (bn_keys n)\<rparr>) t)
          else (False, t)))"

definition s_acquire_leaf :: "ptr \<Rightarrow> 64 word \<Rightarrow> stree \<Rightarrow> bool \<times> stree" where
  "s_acquire_leaf p v t = (case s_cas_lost t of (lost, t) \<Rightarrow>
     (case deref p (st_leaves t) of
        Inl _ \<Rightarrow> (False, t)
      | Inr l \<Rightarrow>
          if \<not> lost \<and> kl_version (lf_keys l ! 0) = v AND NOT LOCK_BIT
          then (True, put_leaf p (l\<lparr>lf_keys := set_first_version (v OR LOCK_BIT) (lf_keys l)\<rparr>) t)
          else (False, t)))"

definition s_release_root :: "64 word \<Rightarrow> stree \<Rightarrow> stree" where
  "s_release_root v t = t\<lparr>st_root := (st_root t)\<lparr>r_lock := v\<rparr>\<rparr>"

definition s_release_node :: "ptr \<Rightarrow> 64 word \<Rightarrow> stree \<Rightarrow> stree" where
  "s_release_node p v t = (case deref p (st_nodes t) of
     Inl _ \<Rightarrow> t | Inr n \<Rightarrow> put_node p (n\<lparr>bn_keys := set_first_version v (bn_keys n)\<rparr>) t)"

definition s_release_leaf :: "ptr \<Rightarrow> 64 word \<Rightarrow> stree \<Rightarrow> stree" where
  "s_release_leaf p v t = (case deref p (st_leaves t) of
     Inl _ \<Rightarrow> t | Inr l \<Rightarrow> put_leaf p (l\<lparr>lf_keys := set_first_version v (lf_keys l)\<rparr>) t)"

text \<open>\<open>reliable_read\<close>: read again while the copy is not valid, unless the node is deleted.\<close>

definition s_reliable_read ::
  "nat \<Rightarrow> ('n \<Rightarrow> nat \<Rightarrow> int) \<Rightarrow> ('n \<Rightarrow> bool \<Rightarrow> bool) \<Rightarrow> ('n \<Rightarrow> bool) \<Rightarrow> ptr \<Rightarrow> read_behavior \<Rightarrow> (nat \<Rightarrow> 'n option) \<Rightarrow>
     bt_error + 'n" where
  "s_reliable_read d key_at is_valid is_deleted p behavior mem =
     then_do (deref p mem) (\<lambda>obj.
       let ignore = (case behavior of
             IGNORE_LOCK \<Rightarrow> True
           | LOOK_FOR_SPLIT_MERGE \<Rightarrow> key_at obj (SIZE d - 1) \<noteq> SENTINEL \<or> key_at obj 0 = SENTINEL
           | WILL_NEED_ACQUIRE \<Rightarrow> False)
       in if is_valid obj ignore \<or> is_deleted obj then Inr obj else Inl Spins)"

definition s_read_node :: "scfg \<Rightarrow> ptr \<Rightarrow> read_behavior \<Rightarrow> stree \<Rightarrow> bt_error + snode" where
  "s_read_node c p behavior t = s_reliable_read (sc_degree c) bn_key_at sn_is_valid sn_is_deleted p behavior (st_nodes t)"

definition s_read_leaf :: "scfg \<Rightarrow> ptr \<Rightarrow> read_behavior \<Rightarrow> stree \<Rightarrow> bt_error + sleaf" where
  "s_read_leaf c p behavior t = s_reliable_read (sc_degree c) lf_key_at sl_is_valid sl_is_deleted p behavior (st_leaves t)"

definition s_full_node :: "scfg \<Rightarrow> snode \<Rightarrow> bool" where
  "s_full_node c n \<longleftrightarrow> bn_key_at n (SIZE (sc_degree c) - 1) \<noteq> SENTINEL"

definition s_full_leaf :: "scfg \<Rightarrow> sleaf \<Rightarrow> bool" where
  "s_full_leaf c l \<longleftrightarrow> lf_key_at l (SIZE (sc_degree c) - 1) \<noteq> SENTINEL"

section \<open>The index\<close>

text \<open>The pages of the index are inner nodes; an error of the skiplist under it ends the operation.\<close>

definition snode_ops :: "(snode, ptr) page_ops" where
  "snode_ops = \<lparr>pg_low = \<lambda>n. fk_low (fency_key n), pg_high = \<lambda>n. fk_high (fency_key n),
     pg_in_range = sn_key_in_range, pg_key_at = bn_key_at, pg_ptr_at = ptr_at\<rparr>"

definition with_index :: "sk_error + ('r \<times> snode index) \<Rightarrow> stree \<Rightarrow> bt_error + ('r \<times> stree)" where
  "with_index x t = (case x of Inl _ \<Rightarrow> Inl Index_failed | Inr (r, ic) \<Rightarrow> Inr (r, t\<lparr>st_index := ic\<rparr>))"

definition ix_search :: "scfg \<Rightarrow> int \<Rightarrow> stree \<Rightarrow> bt_error + (ptr option \<times> stree)" where
  "ix_search c key t = with_index (search_from_cache snode_ops (sc_degree c) (sc_fuel c) key (st_index t)) t"

definition ix_invalidate :: "scfg \<Rightarrow> int \<Rightarrow> stree \<Rightarrow> bt_error + (bool \<times> stree)" where
  "ix_invalidate c key t = with_index (invalidate_key (sc_fuel c) key (st_index t)) t"

definition ix_add :: "scfg \<Rightarrow> snode \<Rightarrow> stree \<Rightarrow> bt_error + (bool \<times> stree)" where
  "ix_add c page t =
     (let (ks, rest) = (case st_draws t of [] \<Rightarrow> ([], []) | ks # rest \<Rightarrow> (ks, rest)) in
      with_index (add_to_cache snode_ops (sc_fuel c) ks page (st_index t)) (t\<lparr>st_draws := rest\<rparr>))"

section \<open>Splits\<close>

text \<open>
  The upper half of a node goes to its new neighbour, which is written as it is at that point
  if it lies on another node: the code sets its range and level only in the local copy then,
  after the write.
\<close>

definition split_off :: "scfg \<Rightarrow> snode \<Rightarrow> ptr \<Rightarrow> stree \<Rightarrow> int \<times> snode \<times> stree" where
  "split_off c node new_neighbor t =
     (let d = sc_degree c;
          (to_parent, node, neighbor) = split_keys d bn_key_at bn_set_key True (node, SNode d);
          (node, neighbor) = split_ptrs d (node, neighbor);
          neighbor = (if s_is_local c new_neighbor
             then sn_set_level (sn_get_level node) (sn_set_range to_parent (fk_high (fency_key node)) neighbor) else neighbor);
          t = put_node new_neighbor neighbor t
      in (to_parent, sn_set_range (fk_low (fency_key node)) to_parent node, t))"

text \<open>A new parent over two children.\<close>

definition new_parent_node :: "nat \<Rightarrow> int \<Rightarrow> int \<Rightarrow> ptr \<Rightarrow> ptr \<Rightarrow> snode" where
  "new_parent_node d level key p q = set_ptr 1 q (set_ptr 0 p (bn_set_key 0 key (sn_set_level level (SNode d))))"

definition s_split_root_node :: "scfg \<Rightarrow> broot \<Rightarrow> ptr \<Rightarrow> snode \<Rightarrow> stree \<Rightarrow> stree" where
  "s_split_root_node c parent node_p node t =
     (let (new_parent, t) = s_allocate t;
          parent = set_start_and_inc new_parent parent;
          (new_neighbor, t) = s_allocate t;
          (to_parent, node, t) = split_off c node new_neighbor t;
          t = put_node new_parent (new_parent_node (sc_degree c) (int (r_height parent)) to_parent node_p new_neighbor) t;
          t = t\<lparr>st_root := root_increment_version parent\<rparr>
      in put_node node_p (sn_increment_version node) t)"

text \<open>The upper half of a leaf, and the leaf with its new range and successor.\<close>

definition split_leaf_off :: "scfg \<Rightarrow> sleaf \<Rightarrow> ptr \<Rightarrow> int \<times> sleaf \<times> sleaf" where
  "split_leaf_off c node new_neighbor =
     (let d = sc_degree c;
          key_low = hl_key_low (lf_last node);
          key_high = hl_key_high (lf_last node);
          (to_parent, node, leaf) = split_keys d lf_key_at lf_set_key False (node, SLeaf (sc_vs c) (sc_hs c) d);
          (node, leaf) = split_values (sc_vs c) d (node, leaf)
      in (to_parent, lf_set_range key_low to_parent (set_next new_neighbor node), lf_set_range to_parent key_high leaf))"

definition s_split_root_leaf :: "scfg \<Rightarrow> broot \<Rightarrow> ptr \<Rightarrow> sleaf \<Rightarrow> stree \<Rightarrow> stree" where
  "s_split_root_leaf c parent node_p node t =
     (let (new_parent, t) = s_allocate t;
          parent = set_start_and_inc new_parent parent;
          (new_neighbor, t) = s_allocate t;
          (to_parent, node, leaf) = split_leaf_off c node new_neighbor;
          t = put_leaf new_neighbor leaf t;
          t = put_node new_parent (new_parent_node (sc_degree c) (int (r_height parent)) to_parent node_p new_neighbor) t;
          t = t\<lparr>st_root := root_increment_version parent\<rparr>
      in put_leaf node_p (lf_increment_version node) t)"

text \<open>The parent takes the separator and the new neighbour right of it.\<close>

definition into_parent :: "nat \<Rightarrow> nat \<Rightarrow> int \<Rightarrow> ptr \<Rightarrow> snode \<Rightarrow> snode" where
  "into_parent d bucket to_parent new_neighbor parent =
     sn_increment_version (set_ptr (bucket + 1) new_neighbor (bn_set_key bucket to_parent (shift_up d bucket parent)))"

definition s_split_inner_node :: "scfg \<Rightarrow> ptr \<Rightarrow> snode \<Rightarrow> ptr \<Rightarrow> snode \<Rightarrow> stree \<Rightarrow> bt_error + stree" where
  "s_split_inner_node c parent_p parent node_p node t =
     (let d = sc_degree c;
          (new_neighbor, t) = s_allocate t;
          (to_parent, node, t) = split_off c node new_neighbor t
      in case search_node d (bn_key_at parent) to_parent of
           None \<Rightarrow> Inl Assertion_failed
         | Some bucket \<Rightarrow>
             Inr (put_node node_p (sn_increment_version node)
                   (put_node parent_p (into_parent d bucket to_parent new_neighbor parent) t)))"

text \<open>The new leaf starts locked; the old one stays locked and is handed back unwritten.\<close>

definition s_split_leaf :: "scfg \<Rightarrow> ptr \<Rightarrow> snode \<Rightarrow> sleaf \<Rightarrow> stree \<Rightarrow> bt_error + (sleaf \<times> stree)" where
  "s_split_leaf c parent_p parent node t =
     (let d = sc_degree c;
          (new_neighbor, t) = s_allocate t;
          next_leaf = get_next node;
          (to_parent, node, leaf) = split_leaf_off c node new_neighbor;
          t = put_leaf new_neighbor (lf_lock (set_next next_leaf leaf)) t
      in case search_node d (bn_key_at parent) to_parent of
           None \<Rightarrow> Inl Assertion_failed
         | Some bucket \<Rightarrow>
             Inr (lf_increment_version node, put_node parent_p (into_parent d bucket to_parent new_neighbor parent) t))"

end
