(* ===== verification/ShTraverse.thy ===== *)
theory ShTraverse
  imports ShTree
begin

text \<open>
  \<open>traverse\<close> of \<open>sherman.h\<close> and the operations of the tree. An attempt first asks the index for
  the leaf of the key, then the table of the root's children for a node to start from, and only
  then reads the root. It ends in a leaf (\<open>SDone\<close>), in a retry the code counts (\<open>SRetry\<close>) or in one
  it does not (\<open>SRestart\<close>).
\<close>

type_synonym 'r s_effect = "sleaf \<Rightarrow> nat \<Rightarrow> 'r \<times> sleaf"

datatype 'r s_outcome = SDone "'r option" sleaf | SRestart | SRetry

definition s_apply_effect :: "scfg \<Rightarrow> int \<Rightarrow> 'r s_effect \<Rightarrow> sleaf \<Rightarrow> bt_error + ('r \<times> sleaf)" where
  "s_apply_effect c key eff l = (case search_node (sc_degree c) (lf_key_at l) key of
     None \<Rightarrow> Inl Index_out_of_bounds | Some bucket \<Rightarrow> Inr (eff l bucket))"

text \<open>Apply the effect to a leaf the thread has locked, and write it back, which unlocks it.\<close>

definition s_update_leaf ::
  "scfg \<Rightarrow> int \<Rightarrow> 'r s_effect \<Rightarrow> ptr \<Rightarrow> sleaf \<Rightarrow> stree \<Rightarrow> bt_error + ('r s_outcome \<times> stree)" where
  "s_update_leaf c key eff p leaf t =
     then_do (s_apply_effect c key eff leaf) (\<lambda>(r, updated).
       Inr (SDone (Some r) leaf, put_leaf p (lf_increment_version updated) t))"

section \<open>Through the index\<close>

text \<open>\<open>None\<close>: the index has no leaf for the key, or one that will not do; go on with the tree.\<close>

definition s_fast_path ::
  "scfg \<Rightarrow> int \<Rightarrow> bool \<Rightarrow> 'r s_effect \<Rightarrow> stree \<Rightarrow> bt_error + ('r s_outcome option \<times> stree)" where
  "s_fast_path c key modifiable eff t =
     then_do (ix_search c key t) (\<lambda>(found, t).
       case found of
         None \<Rightarrow> Inr (None, t)
       | Some l \<Rightarrow>
           then_do (s_read_leaf c l (if modifiable then WILL_NEED_ACQUIRE else IGNORE_LOCK) t) (\<lambda>leaf.
             if sl_key_in_range leaf key then
               (if \<not> modifiable then Inr (Some (SDone None leaf), t)
                else if s_full_leaf c leaf then Inr (None, t)
                else case s_acquire_leaf l (lf_version leaf) t of (got, t) \<Rightarrow>
                  if got then then_do (s_update_leaf c key eff l leaf t) (\<lambda>(res, t). Inr (Some res, t))
                  else Inr (Some SRestart, t))
             else then_do (ix_invalidate c key t) (\<lambda>(_, t). Inr (None, t))))"

section \<open>Where to start\<close>

text \<open>From a child of the root that the table has: its address, the node and its level.\<close>

definition s_from_backup :: "scfg \<Rightarrow> int \<Rightarrow> bool \<Rightarrow> stree \<Rightarrow> bt_error + ((ptr \<times> snode \<times> int) option \<times> stree)" where
  "s_from_backup c key modifiable t =
     (case find_ptr (st_backup t) key of
        None \<Rightarrow> Inr (None, t)
      | Some a \<Rightarrow>
          then_do (s_read_node c (Some a) (if modifiable then LOOK_FOR_SPLIT_MERGE else IGNORE_LOCK) t) (\<lambda>curr.
            if \<not> sn_key_in_range curr key then Inr (None, t\<lparr>st_backup := root_invalidate key (st_backup t)\<rparr>)
            else if s_full_node c curr then Inr (None, t)
            else Inr (Some (Some a, curr, sn_get_level curr), t)))"

text \<open>A tree of height 0 is one leaf under the root.\<close>

definition s_only_leaf ::
  "scfg \<Rightarrow> int \<Rightarrow> bool \<Rightarrow> 'r s_effect \<Rightarrow> broot \<Rightarrow> stree \<Rightarrow> bt_error + ('r s_outcome \<times> stree)" where
  "s_only_leaf c key modifiable eff rt t =
     (let p = r_start rt in
      then_do (s_read_leaf c p (if modifiable then WILL_NEED_ACQUIRE else IGNORE_LOCK) t) (\<lambda>leaf.
        if \<not> modifiable then Inr (SDone None leaf, t)
        else case s_acquire_root (root_version rt) t of (got_root, t) \<Rightarrow>
          if \<not> got_root then Inr (SRestart, t)
          else case s_acquire_leaf p (lf_version leaf) t of (got_leaf, t) \<Rightarrow>
            if \<not> got_leaf then Inr (SRestart, s_release_root (root_version rt) t)
            else if s_full_leaf c leaf then Inr (SRestart, s_split_root_leaf c rt p leaf t)
            else then_do (s_apply_effect c key eff leaf) (\<lambda>(r, updated).
              Inr (SDone (Some r) leaf, put_leaf p (lf_increment_version updated) (s_release_root (root_version rt) t)))))"

definition s_split_at_root :: "scfg \<Rightarrow> broot \<Rightarrow> ptr \<Rightarrow> snode \<Rightarrow> stree \<Rightarrow> stree" where
  "s_split_at_root c rt p cur t =
     (case s_acquire_root (root_version rt) t of (got_root, t) \<Rightarrow>
        if \<not> got_root then t
        else case s_acquire_node p (bn_version cur) t of (got_node, t) \<Rightarrow>
          if \<not> got_node then s_release_root (root_version rt) t
          else s_split_root_node c rt p cur t)"

text \<open>The root's child is empty: its only child takes its place and it is marked deleted.\<close>

definition s_lower_root :: "broot \<Rightarrow> ptr \<Rightarrow> snode \<Rightarrow> stree \<Rightarrow> stree" where
  "s_lower_root rt p cur t =
     (case s_acquire_root (root_version rt) t of (got_root, t) \<Rightarrow>
        if \<not> got_root then t
        else case s_acquire_node p (bn_version cur) t of (got_node, t) \<Rightarrow>
          if \<not> got_node then s_release_root (root_version rt) t
          else (let new_root = root_increment_version (rt\<lparr>r_height := r_height rt - 1, r_start := ptr_at cur 0\<rparr>);
                    t = t\<lparr>st_root := new_root\<rparr>;
                    t = put_node p (sn_increment_version (sn_mark_deleted cur)) t
                in s_deallocate p t))"

text \<open>Both start the traversal over; the result is the outcome or the root's child.\<close>

definition s_from_root ::
  "scfg \<Rightarrow> int \<Rightarrow> bool \<Rightarrow> 'r s_effect \<Rightarrow> stree \<Rightarrow> bt_error + (('r s_outcome + (ptr \<times> snode \<times> int)) \<times> stree)" where
  "s_from_root c key modifiable eff t =
     (let rt = st_root t; p = r_start rt in
      if r_height rt = 0
      then then_do (s_only_leaf c key modifiable eff rt t) (\<lambda>(res, t). Inr (Inl res, t))
      else
        then_do (s_read_node c p (if modifiable then LOOK_FOR_SPLIT_MERGE else IGNORE_LOCK) t) (\<lambda>curr.
          if modifiable \<and> s_full_node c curr then Inr (Inl SRestart, s_split_at_root c rt p curr t)
          else if modifiable \<and> bn_key_at curr 0 = SENTINEL then Inr (Inl SRestart, s_lower_root rt p curr t)
          else Inr (Inr (p, curr, int (r_height rt)), t)))"

section \<open>Descending\<close>

definition s_split_child :: "scfg \<Rightarrow> ptr \<Rightarrow> snode \<Rightarrow> ptr \<Rightarrow> snode \<Rightarrow> stree \<Rightarrow> bt_error + stree" where
  "s_split_child c parent_p parent p cur t =
     (case s_acquire_node parent_p (bn_version parent) t of (got_parent, t) \<Rightarrow>
        if \<not> got_parent then Inr t
        else case s_acquire_node p (bn_version cur) t of (got_curr, t) \<Rightarrow>
          if \<not> got_curr then Inr (s_release_node parent_p (bn_version parent) t)
          else s_split_inner_node c parent_p parent p cur t)"

definition s_neighbor_bucket :: "nat \<Rightarrow> nat" where
  "s_neighbor_bucket bucket = (if bucket = 0 then 1 else bucket - 1)"

text \<open>The child is empty: merge it with a neighbour that has room. The result says whether it was.\<close>

definition s_merge_child :: "scfg \<Rightarrow> ptr \<Rightarrow> snode \<Rightarrow> ptr \<Rightarrow> snode \<Rightarrow> nat \<Rightarrow> stree \<Rightarrow> bt_error + (bool \<times> stree)" where
  "s_merge_child c parent_p parent p cur bucket t =
     (let d = sc_degree c;
          merge_p = read_level d parent (Some (s_neighbor_bucket bucket)) in
      then_do (s_read_node c merge_p WILL_NEED_ACQUIRE t) (\<lambda>merging.
        if s_full_node c merging then Inr (False, t)
        else case s_acquire_node parent_p (bn_version parent) t of (got_parent, t) \<Rightarrow>
          if \<not> got_parent then Inr (False, t)
          else case s_acquire_node p (bn_version cur) t of (got_curr, t) \<Rightarrow>
            if \<not> got_curr then Inr (False, s_release_node parent_p (bn_version parent) t)
            else case s_acquire_node merge_p (bn_version merging) t of (got_merging, t) \<Rightarrow>
              if \<not> got_merging then
                Inr (False, s_release_node p (bn_version cur) (s_release_node parent_p (bn_version parent) t))
              else case s_merge_node d cur bucket merging (s_neighbor_bucket bucket) parent of
                (curr_gone, empty_node, merged_node, parent_of_merge) \<Rightarrow>
                  let t = s_deallocate (if curr_gone then p else merge_p) t;
                      t = put_node p (sn_increment_version empty_node) t;
                      t = put_node merge_p (sn_increment_version merged_node) t
                  in Inr (True, put_node parent_p (sn_increment_version parent_of_merge) t)))"

text \<open>The child of the root that was just read goes into the table.\<close>

definition note_root_child :: "bool \<Rightarrow> ptr \<Rightarrow> snode \<Rightarrow> stree \<Rightarrow> stree" where
  "note_root_child just_read_root p cur t =
     (if just_read_root
      then t\<lparr>st_backup := snd (put_into_cache (fk_low (fency_key cur)) (fk_high (fency_key cur)) p (st_backup t))\<rparr>
      else t)"

fun s_descend ::
  "nat \<Rightarrow> scfg \<Rightarrow> int \<Rightarrow> bool \<Rightarrow> bool \<Rightarrow> int \<Rightarrow> ptr \<Rightarrow> snode \<Rightarrow> stree \<Rightarrow> bt_error + (ptr \<times> snode \<times> stree)" where
  "s_descend 0 c key modifiable just_read_root height curr_p cur t = Inl Out_of_fuel"
| "s_descend (Suc fuel) c key modifiable just_read_root height curr_p cur t =
     (if height = 1 then Inr (curr_p, cur, t)
      else
        let d = sc_degree c;
            behavior = (if modifiable then LOOK_FOR_SPLIT_MERGE else IGNORE_LOCK);
            bucket = search_node d (bn_key_at cur) key;
            next_level = read_level d cur bucket;
            parent_p = curr_p; parent = cur in
        then_do (s_read_node c next_level behavior t) (\<lambda>cur.
          let t = note_root_child just_read_root next_level cur t in
          if modifiable \<and> s_full_node c cur then
            then_do (s_split_child c parent_p parent next_level cur t) (\<lambda>t.
            then_do (s_read_node c parent_p behavior t) (\<lambda>cur.
              s_descend fuel c key modifiable False height parent_p cur t))
          else if modifiable \<and> bn_key_at cur 0 = SENTINEL \<and> bn_key_at parent 0 \<noteq> SENTINEL then
            (case bucket of
               None \<Rightarrow> Inl Index_out_of_bounds
             | Some bucket \<Rightarrow>
                 then_do (s_merge_child c parent_p parent next_level cur bucket t) (\<lambda>(merged, t).
                   if merged then
                     then_do (s_read_node c parent_p LOOK_FOR_SPLIT_MERGE t) (\<lambda>cur.
                       s_descend fuel c key modifiable False height parent_p cur t)
                   else s_descend fuel c key modifiable False (height - 1) next_level cur t))
          else s_descend fuel c key modifiable False (height - 1) next_level cur t))"

section \<open>At the leaf\<close>

definition s_split_and_update ::
  "scfg \<Rightarrow> int \<Rightarrow> 'r s_effect \<Rightarrow> ptr \<Rightarrow> snode \<Rightarrow> ptr \<Rightarrow> sleaf \<Rightarrow> stree \<Rightarrow> bt_error + ('r s_outcome \<times> stree)" where
  "s_split_and_update c key eff curr_p cur p leaf t =
     then_do (s_split_leaf c curr_p cur leaf t) (\<lambda>(updated, t).
       let next_leaf = get_next updated in
       if \<not> sl_key_in_range updated key then
         (let t = put_leaf p updated t in
          then_do (s_read_leaf c next_leaf IGNORE_LOCK t) (\<lambda>next_local.
          then_do (s_apply_effect c key eff next_local) (\<lambda>(r, next_local).
            Inr (SDone (Some r) leaf, put_leaf next_leaf (lf_increment_version next_local) t))))
       else
         (let t = s_release_leaf next_leaf 0 t in
          then_do (s_apply_effect c key eff updated) (\<lambda>(r, updated).
            Inr (SDone (Some r) leaf, put_leaf p updated t))))"

text \<open>Lock the neighbour to merge with, unless it is full (\<open>None\<close>).\<close>

fun s_acquire_neighbor :: "nat \<Rightarrow> scfg \<Rightarrow> ptr \<Rightarrow> stree \<Rightarrow> bt_error + (sleaf option \<times> stree)" where
  "s_acquire_neighbor 0 c p t = Inl Out_of_fuel"
| "s_acquire_neighbor (Suc fuel) c p t =
     then_do (s_read_leaf c p WILL_NEED_ACQUIRE t) (\<lambda>merging.
       if s_full_leaf c merging then Inr (None, t)
       else case s_acquire_leaf p (lf_version merging) t of (got, t) \<Rightarrow>
         if got then Inr (Some merging, t) else s_acquire_neighbor fuel c p t)"

definition s_merge_and_update ::
  "nat \<Rightarrow> scfg \<Rightarrow> int \<Rightarrow> 'r s_effect \<Rightarrow> ptr \<Rightarrow> snode \<Rightarrow> nat \<Rightarrow> ptr \<Rightarrow> sleaf \<Rightarrow> stree \<Rightarrow>
     bt_error + ('r s_outcome \<times> stree)" where
  "s_merge_and_update fuel c key eff curr_p cur bucket p leaf t =
     (let d = sc_degree c;
          merge_p = read_level d cur (Some (s_neighbor_bucket bucket)) in
      then_do (s_acquire_neighbor fuel c merge_p t) (\<lambda>(merging, t).
        case merging of
          None \<Rightarrow>
            then_do (s_update_leaf c key eff p leaf t) (\<lambda>(res, t).
              Inr (res, s_release_node curr_p (bn_version cur) t))
        | Some merging \<Rightarrow>
            (case eff leaf 0 of (r, empty_leaf) \<Rightarrow>
             case s_merge_leaf (sc_vs c) d empty_leaf bucket merging (s_neighbor_bucket bucket) cur of
               (leaf_gone, empty_leaf, merged_leaf, parent_of_merge) \<Rightarrow>
                 let t = s_deallocate (if leaf_gone then p else merge_p) t;
                     empty_leaf = lf_increment_version empty_leaf;
                     merged_leaf = lf_increment_version merged_leaf;
                     t = (if leaf_gone then put_leaf p empty_leaf (put_leaf merge_p merged_leaf t)
                          else put_leaf merge_p merged_leaf (put_leaf p empty_leaf t))
                 in Inr (SDone (Some r) leaf, put_node curr_p (sn_increment_version parent_of_merge) t))))"

text \<open>A leaf that has been reached puts its parent into the index.\<close>

definition s_leaf_stage ::
  "nat \<Rightarrow> scfg \<Rightarrow> int \<Rightarrow> bool \<Rightarrow> 'r s_effect \<Rightarrow> ptr \<Rightarrow> snode \<Rightarrow> stree \<Rightarrow> bt_error + ('r s_outcome \<times> stree)" where
  "s_leaf_stage fuel c key modifiable eff curr_p cur t =
     (let d = sc_degree c;
          bucket = search_node d (bn_key_at cur) key;
          p = read_level d cur bucket in
      if \<not> sn_key_in_range cur key then Inr (SRetry, t)
      else
      then_do (s_read_leaf c p (if modifiable then WILL_NEED_ACQUIRE else IGNORE_LOCK) t) (\<lambda>leaf.
        if \<not> sl_key_in_range leaf key then Inr (SRetry, t)
        else then_do (ix_add c cur t) (\<lambda>(_, t).
        if \<not> modifiable then Inr (SDone None leaf, t)
        else case s_acquire_leaf p (lf_version leaf) t of (got_leaf, t) \<Rightarrow>
          if \<not> got_leaf then Inr (SRetry, t)
          else if \<not> s_full_leaf c leaf \<and> (lf_key_at leaf 0 \<noteq> SENTINEL \<or> bn_key_at cur 0 = SENTINEL)
          then s_update_leaf c key eff p leaf t
          else case s_acquire_node curr_p (bn_version cur) t of (got_curr, t) \<Rightarrow>
            if \<not> got_curr then Inr (SRetry, s_release_leaf p (lf_version leaf) t)
            else if s_full_leaf c leaf then s_split_and_update c key eff curr_p cur p leaf t
            else if lf_key_at leaf 0 = SENTINEL \<and> bn_key_at cur 0 \<noteq> SENTINEL then
              (case bucket of
                 None \<Rightarrow> Inl Index_out_of_bounds
               | Some bucket \<Rightarrow> s_merge_and_update fuel c key eff curr_p cur bucket p leaf t)
            else Inl Assertion_failed)))"

section \<open>The traversal\<close>

definition s_from_tree ::
  "nat \<Rightarrow> scfg \<Rightarrow> int \<Rightarrow> bool \<Rightarrow> 'r s_effect \<Rightarrow> stree \<Rightarrow> bt_error + ('r s_outcome \<times> stree)" where
  "s_from_tree fuel c key modifiable eff t =
     then_do (s_from_backup c key modifiable t) (\<lambda>(start, t).
     then_do (case start of
         Some start \<Rightarrow> Inr (Inr (False, start), t)
       | None \<Rightarrow> then_do (s_from_root c key modifiable eff t) (\<lambda>(res, t).
           Inr (case res of Inl res \<Rightarrow> Inl res | Inr start \<Rightarrow> Inr (True, start), t)))
       (\<lambda>(res, t). case res of
         Inl res \<Rightarrow> Inr (res, t)
       | Inr (just_read_root, curr_p, cur, height) \<Rightarrow>
           then_do (s_descend fuel c key modifiable just_read_root height curr_p cur t) (\<lambda>(curr_p, cur, t).
             s_leaf_stage fuel c key modifiable eff curr_p cur t)))"

definition s_traverse_once ::
  "nat \<Rightarrow> scfg \<Rightarrow> int \<Rightarrow> bool \<Rightarrow> 'r s_effect \<Rightarrow> stree \<Rightarrow> bt_error + ('r s_outcome \<times> stree)" where
  "s_traverse_once fuel c key modifiable eff t =
     then_do (s_fast_path c key modifiable eff t) (\<lambda>(res, t).
       case res of
         Some res \<Rightarrow> Inr (res, t)
       | None \<Rightarrow> s_from_tree fuel c key modifiable eff t)"

fun s_traverse ::
  "nat \<Rightarrow> scfg \<Rightarrow> int \<Rightarrow> bool \<Rightarrow> 'r s_effect \<Rightarrow> nat \<Rightarrow> stree \<Rightarrow> bt_error + ('r option \<times> sleaf \<times> stree)" where
  "s_traverse 0 c key modifiable eff it_counter t = Inl Out_of_fuel"
| "s_traverse (Suc fuel) c key modifiable eff it_counter t =
     (if it_counter \<ge> 1000 then Inl Too_many_retries
      else then_do (s_traverse_once fuel c key modifiable eff t) (\<lambda>(res, t).
        case res of
          SDone r leaf \<Rightarrow> Inr (r, leaf, t)
        | SRestart \<Rightarrow> s_traverse fuel c key modifiable eff 0 t
        | SRetry \<Rightarrow> s_traverse fuel c key modifiable eff (it_counter + 1) t))"

section \<open>The operations\<close>

text \<open>The constructor's table of the root's children and \<open>InitAsFirst\<close>, over the given index.\<close>

definition s_InitAsFirst :: "scfg \<Rightarrow> snode index \<Rightarrow> stree" where
  "s_InitAsFirst c ix = \<lparr>st_root = \<lparr>r_lock = 0, r_height = 0, r_start = Some (0, False)\<rparr>, st_nodes = Map.empty,
     st_leaves = [0 \<mapsto> SLeaf (sc_vs c) (sc_hs c) (sc_degree c)], st_fresh = 1, st_freed = [], st_lost = [],
     st_index = ix, st_backup = ShermanRoot (SIZE (sc_degree c) + 1), st_draws = []\<rparr>"

text \<open>A further thread on the same tree: its own table, still empty, and its index.\<close>

definition s_InitFromPointer :: "scfg \<Rightarrow> snode index \<Rightarrow> stree \<Rightarrow> stree" where
  "s_InitFromPointer c ix t = t\<lparr>st_index := ix, st_backup := ShermanRoot (SIZE (sc_degree c) + 1)\<rparr>"

definition s_destroy :: "bool \<Rightarrow> scfg \<Rightarrow> stree \<Rightarrow> stree" where
  "s_destroy root_is_local c t =
     (if root_is_local \<and> r_height (st_root t) = 0 \<and> s_is_local c (r_start (st_root t))
      then s_deallocate (r_start (st_root t)) t else t)"

definition s_contains :: "nat \<Rightarrow> scfg \<Rightarrow> stree \<Rightarrow> int \<Rightarrow> bt_error + (int option \<times> stree)" where
  "s_contains fuel c t key =
     then_do (s_traverse fuel c key False (\<lambda>l _. ((), l)) 0 t) (\<lambda>(_, leaf, t).
       case search_node (sc_degree c) (lf_key_at leaf) key of
         None \<Rightarrow> Inl Index_out_of_bounds
       | Some bucket \<Rightarrow>
           Inr (if lf_key_at leaf bucket = key then Some (value_at (sc_vs c) leaf bucket) else None, t))"

definition s_prev_value :: "bt_error + (int option option \<times> sleaf \<times> stree) \<Rightarrow> bt_error + (int option \<times> stree)" where
  "s_prev_value x = then_do x (\<lambda>(r, _, t). Inr (case r of None \<Rightarrow> None | Some v \<Rightarrow> v, t))"

definition s_insert :: "nat \<Rightarrow> scfg \<Rightarrow> stree \<Rightarrow> int \<Rightarrow> int \<Rightarrow> bt_error + (int option \<times> stree)" where
  "s_insert fuel c t key val =
     s_prev_value (s_traverse fuel c key True (insert_effect (sc_vs c) (sc_degree c) key val) 0 t)"

definition s_remove :: "nat \<Rightarrow> scfg \<Rightarrow> stree \<Rightarrow> int \<Rightarrow> bt_error + (int option \<times> stree)" where
  "s_remove fuel c t key =
     s_prev_value (s_traverse fuel c key True (remove_effect (sc_vs c) (sc_degree c) key) 0 t)"

text \<open>\<open>count\<close>: the leaves from the leftmost one on.\<close>

fun s_count_leaves :: "nat \<Rightarrow> scfg \<Rightarrow> stree \<Rightarrow> sleaf \<Rightarrow> nat \<Rightarrow> bt_error + nat" where
  "s_count_leaves 0 c t cur n = Inl Out_of_fuel"
| "s_count_leaves (Suc fuel) c t cur n =
     (let n = n + length (filter (\<lambda>i. lf_key_at cur i \<noteq> SENTINEL) [0 ..< SIZE (sc_degree c)]) in
      if get_next cur = None then Inr n
      else then_do (deref (get_next cur) (st_leaves t)) (\<lambda>cur. s_count_leaves fuel c t cur n))"

definition s_count :: "nat \<Rightarrow> scfg \<Rightarrow> stree \<Rightarrow> bt_error + nat" where
  "s_count fuel c t =
     then_do (s_traverse fuel c (INT_MIN + 1) False (\<lambda>l _. ((), l)) 0 t) (\<lambda>(_, cur, t). s_count_leaves fuel c t cur 0)"

end
