(* ===== verification/FenceTree.thy ===== *)
theory FenceTree
  imports BTreeOpsProps
begin

text \<open>
  The abstract tree that the Sherman tree implements: a heap of cells, each with its level, the
  range of keys it covers (lower bound excluded, upper one included), and either keys and children
  or the pairs of a leaf and its successor. The invariant is local to a cell and its children's
  ranges: what holds the tree together is that no two cells of one level cover the same key, so
  a cell has one parent, and whoever finds a leaf whose range contains a key has found the leaf
  of that key, however they came to it.
\<close>

record cell =
  c_level :: nat
  c_low :: int
  c_high :: int
  c_keys :: "int list"
  c_kids :: "nat list"
  c_pairs :: "(int \<times> int) list"
  c_next :: "nat option"

type_synonym cells = "nat \<Rightarrow> cell option"

text \<open>What others rely on of a cell: its level and range.\<close>

type_synonym ranges = "nat \<Rightarrow> (nat \<times> int \<times> int) option"

definition range_of :: "cell \<Rightarrow> nat \<times> int \<times> int" where
  "range_of x = (c_level x, c_low x, c_high x)"

definition ranges :: "cells \<Rightarrow> ranges" where
  "ranges A = (\<lambda>a. map_option range_of (A a))"

lemma ranges_upd [simp]: "ranges (A(a \<mapsto> x)) = (ranges A)(a \<mapsto> range_of x)" "ranges (A(a := None)) = (ranges A)(a := None)"
  by (auto simp: ranges_def)

lemma ranges_Some: "A a = Some x \<Longrightarrow> ranges A a = Some (range_of x)"
  by (simp add: ranges_def)

lemma ranges_None: "ranges A a = None \<longleftrightarrow> A a = None"
  by (simp add: ranges_def)

lemma ranges_SomeE:
  assumes "ranges A a = Some (l, lo, hi)"
  obtains x where "A a = Some x" "c_level x = l" "c_low x = lo" "c_high x = hi"
  using assms by (auto simp: ranges_def range_of_def)

section \<open>The invariant\<close>

definition bounds :: "cell \<Rightarrow> int list" where
  "bounds x = c_low x # c_keys x @ [c_high x]"

definition inner_ok :: "ranges \<Rightarrow> cell \<Rightarrow> bool" where
  "inner_ok S x \<longleftrightarrow> sorted_wrt (<) (bounds x) \<and> length (c_kids x) = length (c_keys x) + 1 \<and>
     (\<forall>i < length (c_kids x). S (c_kids x ! i) = Some (c_level x - 1, bounds x ! i, bounds x ! (i + 1)))"

definition leaf_ok :: "ranges \<Rightarrow> cell \<Rightarrow> bool" where
  "leaf_ok S x \<longleftrightarrow> c_low x < c_high x \<and> sorted_wrt (<) (map fst (c_pairs x)) \<and>
     (\<forall>k \<in> fst ` set (c_pairs x). c_low x < k \<and> k \<le> c_high x) \<and>
     (case c_next x of None \<Rightarrow> c_high x = SENTINEL | Some b \<Rightarrow> (\<exists>h. S b = Some (0, c_high x, h)))"

definition cell_ok :: "ranges \<Rightarrow> cell \<Rightarrow> bool" where
  "cell_ok S x = (if c_level x = 0 then leaf_ok S x else inner_ok S x)"

definition disjoint_ranges :: "ranges \<Rightarrow> bool" where
  "disjoint_ranges S \<longleftrightarrow> (\<forall>a b l lo hi lo' hi' k. S a = Some (l, lo, hi) \<longrightarrow> S b = Some (l, lo', hi') \<longrightarrow>
     lo < k \<longrightarrow> k \<le> hi \<longrightarrow> lo' < k \<longrightarrow> k \<le> hi' \<longrightarrow> a = b)"

lemma disjoint_rangesD:
  "disjoint_ranges S \<Longrightarrow> S a = Some (l, lo, hi) \<Longrightarrow> S b = Some (l, lo', hi') \<Longrightarrow>
   lo < k \<Longrightarrow> k \<le> hi \<Longrightarrow> lo' < k \<Longrightarrow> k \<le> hi' \<Longrightarrow> a = b"
  unfolding disjoint_ranges_def by blast

definition tree_inv :: "nat \<Rightarrow> nat \<Rightarrow> cells \<Rightarrow> bool" where
  "tree_inv h s A \<longleftrightarrow> (\<forall>a x. A a = Some x \<longrightarrow> cell_ok (ranges A) x \<and> c_level x \<le> h \<and> INT_MIN \<le> c_low x \<and> c_high x \<le> SENTINEL) \<and>
     disjoint_ranges (ranges A) \<and> ranges A s = Some (h, INT_MIN, SENTINEL)"

lemma tree_invD:
  assumes "tree_inv h s A"
  shows "A a = Some x \<Longrightarrow> cell_ok (ranges A) x" "A a = Some x \<Longrightarrow> c_level x \<le> h"
    "disjoint_ranges (ranges A)" "ranges A s = Some (h, INT_MIN, SENTINEL)"
    "A a = Some x \<Longrightarrow> INT_MIN \<le> c_low x" "A a = Some x \<Longrightarrow> c_high x \<le> SENTINEL"
  using assms by (auto simp: tree_inv_def)

text \<open>The map the leaves hold.\<close>

definition holds :: "cells \<Rightarrow> (int \<Rightarrow> int option) \<Rightarrow> bool" where
  "holds A M \<longleftrightarrow> (\<forall>a x k. A a = Some x \<longrightarrow> c_level x = 0 \<longrightarrow> c_low x < k \<longrightarrow> k \<le> c_high x \<longrightarrow>
     map_of (c_pairs x) k = M k)"

lemma holdsD: "holds A M \<Longrightarrow> A a = Some x \<Longrightarrow> c_level x = 0 \<Longrightarrow> c_low x < k \<Longrightarrow> k \<le> c_high x \<Longrightarrow> map_of (c_pairs x) k = M k"
  unfolding holds_def by blast

section \<open>Bounds and children\<close>

lemma bounds_less:
  assumes "sorted_wrt (<) (bounds x)" "i < j" "j < length (c_keys x) + 2"
  shows "bounds x ! i < bounds x ! j"
  using assms by (auto simp: sorted_wrt_iff_nth_less bounds_def)

lemma bounds_ends: "bounds x ! 0 = c_low x" "bounds x ! (length (c_keys x) + 1) = c_high x"
  by (simp_all add: bounds_def nth_append)

lemma bounds_inside:
  assumes "sorted_wrt (<) (bounds x)" "i < length (c_keys x) + 1"
  shows "c_low x \<le> bounds x ! i" "bounds x ! i < bounds x ! (i + 1)" "bounds x ! (i + 1) \<le> c_high x"
    "c_low x < bounds x ! (i + 1)"
proof -
  show "bounds x ! i < bounds x ! (i + 1)" using bounds_less [OF assms(1), of i "i + 1"] assms(2) by simp
  show l: "c_low x \<le> bounds x ! i"
    using bounds_less [OF assms(1), of 0 i] assms(2) bounds_ends(1) [of x] by (cases "i = 0") auto
  show "bounds x ! (i + 1) \<le> c_high x"
    using bounds_less [OF assms(1), of "i + 1" "length (c_keys x) + 1"] assms(2) bounds_ends(2) [of x]
    by (cases "i = length (c_keys x)") auto
  show "c_low x < bounds x ! (i + 1)" using l \<open>bounds x ! i < bounds x ! (i + 1)\<close> by simp
qed

lemma inner_okD:
  assumes "inner_ok S x"
  shows "sorted_wrt (<) (bounds x)" "length (c_kids x) = length (c_keys x) + 1"
    "i < length (c_kids x) \<Longrightarrow> S (c_kids x ! i) = Some (c_level x - 1, bounds x ! i, bounds x ! (i + 1))"
  using assms by (auto simp: inner_ok_def)

lemma cell_ok_inner: "cell_ok S x \<Longrightarrow> 0 < c_level x \<Longrightarrow> inner_ok S x"
  by (simp add: cell_ok_def)

lemma cell_ok_leaf: "cell_ok S x \<Longrightarrow> c_level x = 0 \<Longrightarrow> leaf_ok S x"
  by (simp add: cell_ok_def)

lemma cell_low_high: "cell_ok S x \<Longrightarrow> c_low x < c_high x"
  using bounds_less [of x 0 "length (c_keys x) + 1"] bounds_ends [of x]
  by (auto simp: cell_ok_def leaf_ok_def inner_ok_def split: if_splits)

lemma kid_range:
  assumes "cell_ok S x" "0 < c_level x" "c \<in> set (c_kids x)"
  obtains lo hi where "S c = Some (c_level x - 1, lo, hi)"
proof -
  from assms(3) obtain i where "i < length (c_kids x)" "c_kids x ! i = c" by (auto simp: in_set_conv_nth)
  with inner_okD(3) [OF cell_ok_inner [OF assms(1,2)]] that show ?thesis by auto
qed

text \<open>A cell is the child of one cell only, and once.\<close>

lemma kid_owner:
  assumes I: "tree_inv h s A" and p: "A p = Some P" "0 < c_level P" "i < length (c_kids P)"
    and q: "A q = Some Q" "0 < c_level Q" "j < length (c_kids Q)" and e: "c_kids P ! i = c_kids Q ! j"
  shows "p = q \<and> i = j"
proof -
  have P: "inner_ok (ranges A) P" using tree_invD(1) [OF I p(1)] p(2) by (rule cell_ok_inner)
  have Q: "inner_ok (ranges A) Q" using tree_invD(1) [OF I q(1)] q(2) by (rule cell_ok_inner)
  note DP = inner_okD [OF P] and DQ = inner_okD [OF Q]
  have r: "c_level P - 1 = c_level Q - 1" "bounds P ! i = bounds Q ! j" "bounds P ! (i + 1) = bounds Q ! (j + 1)"
    using DP(3) [OF p(3)] DQ(3) [OF q(3)] e by auto
  then have l: "c_level P = c_level Q" using p(2) q(2) by simp
  have bi: "i < length (c_keys P) + 1" using p(3) DP(2) by simp
  have bj: "j < length (c_keys Q) + 1" using q(3) DQ(2) by simp
  note BP = bounds_inside [OF DP(1) bi] and BQ = bounds_inside [OF DQ(1) bj]
  have sp: "ranges A p = Some (c_level P, c_low P, c_high P)" "ranges A q = Some (c_level P, c_low Q, c_high Q)"
    using p(1) q(1) l by (simp_all add: ranges_def range_of_def)
  have "p = q"
    by (rule disjoint_rangesD [OF tree_invD(3) [OF I] sp, where k = "bounds P ! (i + 1)"])
      (use BP BQ r in simp_all)
  then have "P = Q" using p(1) q(1) by simp
  moreover have "i = j"
  proof (rule ccontr)
    assume "i \<noteq> j"
    then consider "i < j" | "j < i" by linarith
    then show False
      using bounds_less [OF DP(1), of i j] bounds_less [OF DP(1), of j i] bi bj r(2) \<open>P = Q\<close> by cases auto
  qed
  ultimately show ?thesis using \<open>p = q\<close> by simp
qed

lemma kid_of_one:
  assumes I: "tree_inv h s A" and p: "A p = Some P" "0 < c_level P" "i < length (c_kids P)" "c_kids P ! i = a"
    and b: "A b = Some z" "b \<noteq> p" "0 < c_level z"
  shows "a \<notin> set (c_kids z)"
proof
  assume "a \<in> set (c_kids z)"
  then obtain j where j: "j < length (c_kids z)" "c_kids z ! j = a" by (auto simp: in_set_conv_nth)
  with kid_owner [OF I p(1-3) b(1,3) j(1)] p(4) b(2) show False by simp
qed

text \<open>The child of a cell that a key in its range leads to covers the key.\<close>

lemma bounds_rank:
  assumes "\<And>i. i < r \<Longrightarrow> c_keys x ! i < k" and "r < length (c_keys x) \<Longrightarrow> k \<le> c_keys x ! r"
    and "r \<le> length (c_keys x)" "c_low x < k" "k \<le> c_high x"
  shows "bounds x ! r < k" "k \<le> bounds x ! (r + 1)"
  using assms by (auto simp: bounds_def nth_Cons' nth_append)

section \<open>What stays right when ranges change\<close>

text \<open>
  A cell stays right if its children keep their ranges and a leaf's successor its lower bound.
\<close>

lemma cell_ok_frame:
  assumes "cell_ok S x"
    and "\<And>b. 0 < c_level x \<Longrightarrow> b \<in> set (c_kids x) \<Longrightarrow> S' b = S b"
    and "\<And>b l h. c_level x = 0 \<Longrightarrow> c_next x = Some b \<Longrightarrow> S b = Some (0, c_high x, h) \<Longrightarrow> \<exists>h'. S' b = Some (0, c_high x, h')"
  shows "cell_ok S' x"
proof (cases "c_level x = 0")
  case True
  then show ?thesis using assms(1,3) by (auto simp: cell_ok_def leaf_ok_def split: option.splits)
next
  case False
  then show ?thesis using assms(1,2) by (auto simp: cell_ok_def inner_ok_def)
qed

text \<open>A leaf gets other pairs of its range.\<close>

lemma leaf_update:
  assumes I: "tree_inv h s A" and x: "A a = Some x" "c_level x = 0"
    and ps: "sorted_wrt (<) (map fst ps)" "\<And>k. k \<in> fst ` set ps \<Longrightarrow> c_low x < k \<and> k \<le> c_high x"
  shows "tree_inv h s (A(a \<mapsto> x\<lparr>c_pairs := ps\<rparr>))"
proof -
  have r: "(ranges A)(a \<mapsto> range_of (x\<lparr>c_pairs := ps\<rparr>)) = ranges A"
    using ranges_Some [of A a, OF x(1)] by (auto simp: range_of_def fun_eq_iff)
  have "cell_ok (ranges A) (x\<lparr>c_pairs := ps\<rparr>)"
    using tree_invD(1) [OF I x(1)] x(2) ps by (cases "c_next x") (simp_all add: cell_ok_def leaf_ok_def)
  then show ?thesis using I tree_invD(2,5,6) [OF I x(1)] unfolding tree_inv_def ranges_upd r by auto
qed

lemma leaf_update_holds:
  assumes I: "tree_inv h s A" and x: "A a = Some x" "c_level x = 0" and H: "holds A M"
    and M': "\<And>k. c_low x < k \<Longrightarrow> k \<le> c_high x \<Longrightarrow> map_of ps k = M' k"
    and other: "\<And>k. \<not> (c_low x < k \<and> k \<le> c_high x) \<Longrightarrow> M' k = M k"
  shows "holds (A(a \<mapsto> x\<lparr>c_pairs := ps\<rparr>)) M'"
  unfolding holds_def
proof (intro allI impI)
  fix b y k
  assume b: "(A(a \<mapsto> x\<lparr>c_pairs := ps\<rparr>)) b = Some y" "c_level y = 0" "c_low y < k" "k \<le> c_high y"
  show "map_of (c_pairs y) k = M' k"
  proof (cases "b = a")
    case True
    then show ?thesis using b M' by auto
  next
    case False
    then have y: "A b = Some y" using b(1) by simp
    have "\<not> (c_low x < k \<and> k \<le> c_high x)"
      using disjoint_rangesD [OF tree_invD(3) [OF I], of a 0 "c_low x" "c_high x" b "c_low y" "c_high y" k]
        ranges_Some [of A a, OF x(1)] ranges_Some [of A b, OF y] x(2) b(2-4) False by (auto simp: range_of_def)
    then show ?thesis using holdsD [OF H y b(2-4)] other by simp
  qed
qed

section \<open>Splitting a child\<close>

lemma sorted_insert_between:
  assumes "sorted_wrt (<) xs" "i + 1 < length xs" "xs ! i < m" "m < xs ! (i + 1)"
  shows "sorted_wrt (<) (take (i + 1) xs @ m # drop (i + 1) (xs :: int list))"
  unfolding sorted_wrt_iff_nth_less
proof (intro allI impI)
  fix j k assume jk: "j < k" "k < length (take (i + 1) xs @ m # drop (i + 1) xs)"
  have S: "xs ! u < xs ! v" if "u < v" "v < length xs" for u v
    using assms(1) that by (simp add: sorted_wrt_iff_nth_less)
  have lt: "xs ! u < m" if "u < i + 1" for u
    using S [of u i] that assms(2,3) by (cases "u = i") auto
  have gt: "m < xs ! u" if "i + 1 \<le> u" "u < length xs" for u
    using S [of "i + 1" u] that assms(4) by (cases "u = i + 1") auto
  have "length (take (i + 1) xs @ m # drop (i + 1) xs) = length xs + 1" using assms(2) by simp
  then show "(take (i + 1) xs @ m # drop (i + 1) xs) ! j < (take (i + 1) xs @ m # drop (i + 1) xs) ! k"
    using jk assms(2) S lt gt nth_insert_at [of "i + 1" xs m j] nth_insert_at [of "i + 1" xs m k] by auto
qed

text \<open>The parent of a child \<open>i\<close> that was split at \<open>m\<close>, with the new child \<open>y\<close>.\<close>

definition open_parent :: "nat \<Rightarrow> int \<Rightarrow> nat \<Rightarrow> cell \<Rightarrow> cell" where
  "open_parent i m y P = P\<lparr>c_keys := take i (c_keys P) @ m # drop i (c_keys P),
     c_kids := take (i + 1) (c_kids P) @ y # drop (i + 1) (c_kids P)\<rparr>"

lemma open_parent_simps [simp]:
  "range_of (open_parent i m y P) = range_of P" "c_level (open_parent i m y P) = c_level P"
  "c_low (open_parent i m y P) = c_low P" "c_high (open_parent i m y P) = c_high P"
  by (simp_all add: open_parent_def range_of_def)

lemma open_parent_ok:
  assumes P: "inner_ok S P" and i: "i < length (c_kids P)" and m: "bounds P ! i < m" "m < bounds P ! (i + 1)"
    and same: "\<And>j. j < length (c_kids P) \<Longrightarrow> j \<noteq> i \<Longrightarrow> S' (c_kids P ! j) = S (c_kids P ! j)"
    and new: "S' (c_kids P ! i) = Some (c_level P - 1, bounds P ! i, m)" "S' y = Some (c_level P - 1, m, bounds P ! (i + 1))"
  shows "inner_ok S' (open_parent i m y P)"
proof -
  note D = inner_okD [OF P]
  have il: "i \<le> length (c_keys P)" using i D(2) by simp
  have b: "bounds (open_parent i m y P) = take (i + 1) (bounds P) @ m # drop (i + 1) (bounds P)"
    using il by (simp add: bounds_def open_parent_def)
  have lb: "length (bounds P) = length (c_keys P) + 2" by (simp add: bounds_def)
  have i1: "i + 1 \<le> length (bounds P)" "i + 1 \<le> length (c_kids P)" using i D(2) lb by simp_all
  have kids: "c_kids (open_parent i m y P) = take (i + 1) (c_kids P) @ y # drop (i + 1) (c_kids P)"
    by (simp add: open_parent_def)
  show ?thesis
    unfolding inner_ok_def b
  proof (intro conjI allI impI)
    show "sorted_wrt (<) (take (i + 1) (bounds P) @ m # drop (i + 1) (bounds P))"
      by (rule sorted_insert_between [OF D(1) _ m]) (use il lb in simp)
    show "length (c_kids (open_parent i m y P)) = length (c_keys (open_parent i m y P)) + 1"
      using D(2) i il by (simp add: open_parent_def)
  next
    fix j assume j: "j < length (c_kids (open_parent i m y P))"
    then have jl: "j < length (c_kids P) + 1" using i by (simp add: open_parent_def)
    consider "j < i" | "j = i" | "j = i + 1" | "i + 1 < j" by linarith
    then show "S' (c_kids (open_parent i m y P) ! j) = Some (c_level (open_parent i m y P) - 1,
        (take (i + 1) (bounds P) @ m # drop (i + 1) (bounds P)) ! j,
        (take (i + 1) (bounds P) @ m # drop (i + 1) (bounds P)) ! (j + 1))"
    proof cases
      case 4
      then have j1: "j - 1 < length (c_kids P)" "j - 1 \<noteq> i" using jl by auto
      from D(3) [OF j1(1)] same [OF j1] 4 show ?thesis
        by (simp add: kids nth_insert_at [OF i1(1), simplified] nth_insert_at [OF i1(2), simplified])
    qed (use D(3) same new i jl in \<open>auto simp: kids nth_insert_at [OF i1(1), simplified] nth_insert_at [OF i1(2), simplified]\<close>)
  qed
qed

text \<open>What a split of \<open>a\<close> at \<open>m\<close> does to the ranges and to the cells that do not have it as a child.\<close>

lemma split_frame:
  assumes "cell_ok S z" "0 < c_level z \<Longrightarrow> a \<notin> set (c_kids z)" and S: "S a = Some (l, lo, hi)" "S y = None"
  shows "cell_ok (S(a \<mapsto> (l, lo, m), y \<mapsto> w)) z"
proof (rule cell_ok_frame [OF assms(1)])
  fix c assume l: "0 < c_level z" and c: "c \<in> set (c_kids z)"
  then obtain j where j: "j < length (c_kids z)" "c = c_kids z ! j" by (auto simp: in_set_conv_nth)
  have "S c \<noteq> None" using inner_okD(3) [OF cell_ok_inner [OF assms(1) l] j(1)] j(2) by simp
  moreover have "c \<noteq> a" using assms(2) l c by auto
  ultimately show "(S(a \<mapsto> (l, lo, m), y \<mapsto> w)) c = S c" using S(2) by auto
qed (use S in auto)

lemma split_disjoint:
  assumes D: "disjoint_ranges S" and S: "S a = Some (l, lo, hi)" "S y = None" and m: "lo < m" "m < hi"
  shows "disjoint_ranges (S(a \<mapsto> (l, lo, m), y \<mapsto> (l, m, hi)))"
  unfolding disjoint_ranges_def
proof (intro allI impI)
  let ?S' = "S(a \<mapsto> (l, lo, m), y \<mapsto> (l, m, hi))" and ?f = "\<lambda>w. if w = y then a else w"
  fix u v l0 lo1 hi1 lo2 hi2 k
  assume u: "?S' u = Some (l0, lo1, hi1)" "lo1 < k" "k \<le> hi1" and v: "?S' v = Some (l0, lo2, hi2)" "lo2 < k" "k \<le> hi2"
  have into: "\<exists>lo' hi'. S (?f w) = Some (l0, lo', hi') \<and> lo' < k \<and> k \<le> hi'"
    if "?S' w = Some (l0, lo0, hi0)" "lo0 < k" "k \<le> hi0" for w lo0 hi0
    using that S m by (auto split: if_splits)
  from into [OF u] into [OF v] have "?f u = ?f v" using disjoint_rangesD [OF D] by blast
  then show "u = v" using u v m S by (auto split: if_splits)
qed

lemma split_below:
  assumes I: "tree_inv h s A" and p: "A p = Some P" "0 < c_level P" "i < length (c_kids P)" "c_kids P ! i = a"
    and x: "A a = Some x" and y: "A y = None" and m: "c_low x < m" "m < c_high x"
    and r: "range_of x1 = (c_level x, c_low x, m)" "range_of x2 = (c_level x, m, c_high x)"
    and ok: "cell_ok ((ranges A)(a \<mapsto> range_of x1, y \<mapsto> range_of x2)) x1"
      "cell_ok ((ranges A)(a \<mapsto> range_of x1, y \<mapsto> range_of x2)) x2"
  shows "tree_inv h s (A(a \<mapsto> x1, y \<mapsto> x2, p \<mapsto> open_parent i m y P))"
proof -
  let ?S = "ranges A" and ?S' = "(ranges A)(a \<mapsto> range_of x1, y \<mapsto> range_of x2)"
  let ?A = "A(a \<mapsto> x1, y \<mapsto> x2, p \<mapsto> open_parent i m y P)"
  note T = tree_invD [OF I]
  have P: "inner_ok ?S P" using T(1) [OF p(1)] p(2) by (rule cell_ok_inner)
  note D = inner_okD [OF P]
  have Sa: "?S a = Some (c_level x, c_low x, c_high x)" using ranges_Some [of A a, OF x] by (simp add: range_of_def)
  have xb: "c_level x = c_level P - 1" "c_low x = bounds P ! i" "c_high x = bounds P ! (i + 1)"
    using D(3) [OF p(3)] p(4) Sa by auto
  have ne: "p \<noteq> a" "p \<noteq> y" "a \<noteq> y" using p(1,2) x y xb(1) by auto
  have Sy: "?S y = None" using y by (simp add: ranges_None)
  have S: "ranges ?A = ?S'" using ranges_Some [of A p, OF p(1)] ne by (auto simp: fun_eq_iff)
  have kid: "?S' b = ?S b" if "?S b = Some v" "b \<noteq> a" for b v using that Sy by auto
  have S': "?S' = ?S(a \<mapsto> (c_level x, c_low x, m), y \<mapsto> (c_level x, m, c_high x))" using r by simp
  have others: "cell_ok ?S' z" if z: "A b = Some z" "b \<noteq> p" for b z
    unfolding S'
  proof (rule split_frame [OF T(1) [OF z(1)] _ Sa Sy])
    assume "0 < c_level z"
    with kid_of_one [OF I p z] show "a \<notin> set (c_kids z)" .
  qed
  have P': "inner_ok ?S' (open_parent i m y P)"
  proof (rule open_parent_ok [OF P p(3)])
    show "bounds P ! i < m" "m < bounds P ! (i + 1)" using m xb by simp_all
    show "?S' (c_kids P ! i) = Some (c_level P - 1, bounds P ! i, m)" using p(4) r(1) xb ne by simp
    show "?S' y = Some (c_level P - 1, m, bounds P ! (i + 1))" using r(2) xb by simp
  next
    fix j assume j: "j < length (c_kids P)" "j \<noteq> i"
    have "c_kids P ! j \<noteq> a" using kid_owner [OF I p(1,2) j(1) p(1-3)] p(4) j(2) by auto
    then show "?S' (c_kids P ! j) = ?S (c_kids P ! j)" using kid D(3) [OF j(1)] by blast
  qed
  have "cell_ok (ranges ?A) z \<and> c_level z \<le> h \<and> INT_MIN \<le> c_low z \<and> c_high z \<le> SENTINEL" if "?A b = Some z" for b z
  proof -
    have l: "c_level x1 = c_level x" "c_level x2 = c_level x" "c_low x1 = c_low x" "c_high x1 = m" "c_low x2 = m"
      "c_high x2 = c_high x" using r by (simp_all add: range_of_def)
    show ?thesis
      using that ok others [of b z] P' T(2,5,6) [of b z] T(2,5,6) [OF x] T(2,5,6) [OF p(1)] l p(2) m
        cell_ok_def [of ?S' "open_parent i m y P"]
      unfolding S by (auto split: if_splits)
  qed
  moreover have "disjoint_ranges (ranges ?A)"
    unfolding S S' by (rule split_disjoint [OF T(3) Sa Sy m])
  moreover have "?S' s = Some (h, INT_MIN, SENTINEL)"
    using T(4) Sa xb(1) T(2) [OF p(1)] p(2) Sy by (cases "s = a"; cases "s = y") auto
  ultimately show ?thesis unfolding tree_inv_def S by blast
qed

lemma disjoint_new_level:
  assumes D: "disjoint_ranges S" and new: "\<And>b lo hi. S b \<noteq> Some (l, lo, hi)"
  shows "disjoint_ranges (S(z \<mapsto> (l, lo, hi)))"
  unfolding disjoint_ranges_def
proof (intro allI impI)
  fix a b l0 lo1 hi1 lo2 hi2 k
  assume "(S(z \<mapsto> (l, lo, hi))) a = Some (l0, lo1, hi1)" "(S(z \<mapsto> (l, lo, hi))) b = Some (l0, lo2, hi2)"
    "lo1 < k" "k \<le> hi1" "lo2 < k" "k \<le> hi2"
  then show "a = b" using disjoint_rangesD [OF D] new by (cases "a = z"; cases "b = z") auto
qed

section \<open>A new root\<close>

definition new_root :: "nat \<Rightarrow> int \<Rightarrow> nat \<Rightarrow> nat \<Rightarrow> cell" where
  "new_root h m a y = \<lparr>c_level = h + 1, c_low = INT_MIN, c_high = SENTINEL, c_keys = [m], c_kids = [a, y],
     c_pairs = [], c_next = None\<rparr>"

lemma split_root:
  assumes I: "tree_inv h s A" and y: "A y = None" "A z = None" "y \<noteq> z" and m: "INT_MIN < m" "m < SENTINEL"
    and r: "range_of x1 = (h, INT_MIN, m)" "range_of x2 = (h, m, SENTINEL)"
    and ok: "cell_ok ((ranges A)(s \<mapsto> range_of x1, y \<mapsto> range_of x2)) x1"
      "cell_ok ((ranges A)(s \<mapsto> range_of x1, y \<mapsto> range_of x2)) x2"
  shows "tree_inv (h + 1) z (A(s \<mapsto> x1, y \<mapsto> x2, z \<mapsto> new_root h m s y))"
proof -
  let ?S = "ranges A" and ?S' = "(ranges A)(s \<mapsto> range_of x1, y \<mapsto> range_of x2)"
  let ?A = "A(s \<mapsto> x1, y \<mapsto> x2, z \<mapsto> new_root h m s y)"
  let ?S'' = "?S'(z \<mapsto> (h + 1, INT_MIN, SENTINEL))"
  note T = tree_invD [OF I]
  have S: "ranges ?A = ?S''" by (simp add: range_of_def new_root_def)
  have Sy: "?S y = None" "?S z = None" using y by (simp_all add: ranges_None)
  have ne: "s \<noteq> y" "s \<noteq> z" using T(4) Sy by auto
  have Sz: "?S' z = None" using Sy y ne by auto
  have S': "?S' = ?S(s \<mapsto> (h, INT_MIN, m), y \<mapsto> (h, m, SENTINEL))" using r by simp
  have up: "cell_ok ?S'' w" if w: "cell_ok ?S' w" for w
  proof (rule cell_ok_frame [OF w])
    fix c assume "0 < c_level w" "c \<in> set (c_kids w)"
    then have "?S' c \<noteq> None" using kid_range [OF w] by (metis option.distinct(1))
    then show "?S'' c = ?S' c" using Sz by auto
  qed (use Sz in auto)
  have others: "cell_ok ?S'' w" if w: "A b = Some w" for b w
  proof (rule up)
    show "cell_ok ?S' w" unfolding S'
    proof (rule split_frame [OF T(1) [OF w] _ T(4) Sy(1)])
      assume l: "0 < c_level w"
      show "s \<notin> set (c_kids w)"
      proof
        assume "s \<in> set (c_kids w)"
        then obtain lo hi where "?S s = Some (c_level w - 1, lo, hi)" by (rule kid_range [OF T(1) [OF w] l])
        with T(2) [OF w] l T(4) show False by auto
      qed
    qed
  qed
  have root: "cell_ok ?S'' (new_root h m s y)"
    using m r ne y by (auto simp: cell_ok_def inner_ok_def new_root_def bounds_def nth_Cons' less_Suc_eq)
  have l: "c_level x1 = h" "c_level x2 = h" "c_low x1 = INT_MIN" "c_high x1 = m" "c_low x2 = m" "c_high x2 = SENTINEL"
    using r by (simp_all add: range_of_def)
  have all: "cell_ok ?S'' w \<and> c_level w \<le> h + 1 \<and> INT_MIN \<le> c_low w \<and> c_high w \<le> SENTINEL" if "?A b = Some w" for b w
  proof -
    have "c_level (new_root h m s y) \<le> h + 1" "INT_MIN \<le> c_low (new_root h m s y)" "c_high (new_root h m s y) \<le> SENTINEL"
      by (simp_all add: new_root_def)
    then show ?thesis
      using that up [OF ok(1)] up [OF ok(2)] root others [of b w] T(2,5,6) [of b w] l m by (auto split: if_splits)
  qed
  have D': "disjoint_ranges ?S'"
    unfolding S' by (rule split_disjoint [OF T(3,4) Sy(1) m])
  have "disjoint_ranges ?S''"
  proof (rule disjoint_new_level [OF D'])
    show "?S' b \<noteq> Some (h + 1, lo, hi)" for b lo hi
      using r T(2) [of b] by (auto simp: ranges_def range_of_def)
  qed
  then show ?thesis unfolding tree_inv_def S using all by auto
qed

text \<open>The root's only child takes its place.\<close>

lemma lower_root_inv:
  assumes I: "tree_inv (h + 1) s A" and x: "A s = Some x" "c_keys x = []" "c_kids x = [k]"
  shows "tree_inv h k (A(s := None))"
proof -
  let ?S = "ranges A" and ?S' = "(ranges A)(s := None)"
  note T = tree_invD [OF I]
  have X: "c_level x = h + 1" "c_low x = INT_MIN" "c_high x = SENTINEL"
    using T(4) ranges_Some [of A s, OF x(1)] by (auto simp: range_of_def)
  have "inner_ok ?S x" using T(1) [OF x(1)] X(1) by (simp add: cell_ok_def)
  from inner_okD(3) [OF this, of 0] have k: "?S k = Some (h, INT_MIN, SENTINEL)"
    using x X by (simp add: bounds_def)
  have level: "c_level z \<le> h" if z: "A b = Some z" "b \<noteq> s" for b z
  proof (rule ccontr)
    assume "\<not> c_level z \<le> h"
    then have "?S b = Some (h + 1, c_low z, c_high z)" using T(2) [OF z(1)] z(1) by (simp add: ranges_def range_of_def)
    from disjoint_rangesD [OF T(3) this T(4), of "c_high z"] cell_low_high [OF T(1) [OF z(1)]] T(5,6) [OF z(1)] z(2)
    show False by simp
  qed
  have ok: "cell_ok ?S' z" if z: "A b = Some z" "b \<noteq> s" for b z
  proof (rule cell_ok_frame [OF T(1) [OF z(1)]])
    fix c assume l: "0 < c_level z" and "c \<in> set (c_kids z)"
    then obtain lo hi where "?S c = Some (c_level z - 1, lo, hi)"
      using kid_range [OF T(1) [OF z(1)]] by blast
    then show "?S' c = ?S c" using T(4) level [OF z] by auto
  qed (use T(4) in auto)
  have "disjoint_ranges ?S'" using T(3) by (auto simp: disjoint_ranges_def)
  moreover have "?S' k = Some (h, INT_MIN, SENTINEL)" using k T(4) by auto
  ultimately show ?thesis unfolding tree_inv_def ranges_upd
    using ok level T(5,6) by (auto split: if_splits)
qed

section \<open>Merging two children\<close>

text \<open>The parent of the children \<open>i\<close> and \<open>i + 1\<close> after the second has gone into the first.\<close>

definition close_parent :: "nat \<Rightarrow> cell \<Rightarrow> cell" where
  "close_parent i P = P\<lparr>c_keys := take i (c_keys P) @ drop (i + 1) (c_keys P),
     c_kids := take (i + 1) (c_kids P) @ drop (i + 2) (c_kids P)\<rparr>"

lemma close_parent_simps [simp]:
  "range_of (close_parent i P) = range_of P" "c_level (close_parent i P) = c_level P"
  "c_low (close_parent i P) = c_low P" "c_high (close_parent i P) = c_high P"
  by (simp_all add: close_parent_def range_of_def)

lemma close_parent_ok:
  assumes P: "inner_ok S P" and i: "i + 1 < length (c_kids P)"
    and same: "\<And>j. j < length (c_kids P) \<Longrightarrow> j \<noteq> i \<Longrightarrow> j \<noteq> i + 1 \<Longrightarrow> S' (c_kids P ! j) = S (c_kids P ! j)"
    and new: "S' (c_kids P ! i) = Some (c_level P - 1, bounds P ! i, bounds P ! (i + 2))"
  shows "inner_ok S' (close_parent i P)"
proof -
  note D = inner_okD [OF P]
  have il: "i < length (c_keys P)" using i D(2) by simp
  have lb: "length (bounds P) = length (c_keys P) + 2" by (simp add: bounds_def)
  have b: "bounds (close_parent i P) = take (i + 1) (bounds P) @ drop (i + 1 + 1) (bounds P)"
    using il by (simp add: bounds_def close_parent_def)
  have e: "bounds P = take (i + 1) (bounds P) @ bounds P ! (i + 1) # drop (i + 1 + 1) (bounds P)"
    using id_take_nth_drop [of "i + 1" "bounds P"] il lb by simp
  have i1: "i + 1 < length (bounds P)" using il lb by simp
  have kids: "c_kids (close_parent i P) = take (i + 1) (c_kids P) @ drop (i + 1 + 1) (c_kids P)"
    by (simp add: close_parent_def)
  show ?thesis
    unfolding inner_ok_def b
  proof (intro conjI allI impI)
    have "sorted_wrt (<) (take (i + 1) (bounds P) @ bounds P ! (i + 1) # drop (i + 1 + 1) (bounds P))"
      using D(1) e by simp
    then show "sorted_wrt (<) (take (i + 1) (bounds P) @ drop (i + 1 + 1) (bounds P))" by (auto simp: sorted_wrt_append)
    show "length (c_kids (close_parent i P)) = length (c_keys (close_parent i P)) + 1"
      using D(2) i il by (simp add: close_parent_def)
  next
    fix j assume "j < length (c_kids (close_parent i P))"
    then have jl: "j + 1 < length (c_kids P)" using i by (simp add: close_parent_def)
    then have jb: "j + 1 < length (bounds P)" "j + 1 + 1 < length (bounds P)" using lb D(2) by simp_all
    note N = nth_delete_at [OF i jl] nth_delete_at [OF i1 jb(1)] nth_delete_at [OF i1 jb(2)]
    consider "j < i" | "j = i" | "i < j" by linarith
    then show "S' (c_kids (close_parent i P) ! j) = Some (c_level (close_parent i P) - 1,
        (take (i + 1) (bounds P) @ drop (i + 1 + 1) (bounds P)) ! j,
        (take (i + 1) (bounds P) @ drop (i + 1 + 1) (bounds P)) ! (j + 1))"
    proof cases
      case 1
      then show ?thesis using D(3) [of j] same [of j] jl unfolding kids N by simp
    next
      case 2
      then show ?thesis using new unfolding kids N by simp
    next
      case 3
      then show ?thesis using D(3) [of "j + 1"] same [of "j + 1"] jl unfolding kids N by simp
    qed
  qed
qed

lemma merge_below:
  assumes I: "tree_inv h s A" and p: "A p = Some P" "0 < c_level P" "i + 1 < length (c_kids P)"
    and kids: "c_kids P ! i = a" "c_kids P ! (i + 1) = b" and x: "A a = Some x" and y: "A b = Some y"
    and r: "range_of x' = (c_level x, c_low x, c_high y)"
    and ok: "cell_ok ((ranges A)(b := None, a \<mapsto> range_of x')) x'"
  shows "tree_inv h s (A(b := None, a \<mapsto> x', p \<mapsto> close_parent i P))"
proof -
  let ?S = "ranges A" and ?S' = "(ranges A)(b := None, a \<mapsto> range_of x')"
  let ?A = "A(b := None, a \<mapsto> x', p \<mapsto> close_parent i P)"
  note T = tree_invD [OF I]
  have P: "inner_ok ?S P" using T(1) [OF p(1)] p(2) by (rule cell_ok_inner)
  note D = inner_okD [OF P]
  have il: "i < length (c_kids P)" using p(3) by simp
  have Sx: "?S a = Some (c_level x, c_low x, c_high x)" using ranges_Some [of A a, OF x] by (simp add: range_of_def)
  have Sy: "?S b = Some (c_level y, c_low y, c_high y)" using ranges_Some [of A b, OF y] by (simp add: range_of_def)
  have xb: "c_level x = c_level P - 1" "c_low x = bounds P ! i" "c_high x = bounds P ! (i + 1)"
    using D(3) [OF il] kids(1) Sx by auto
  have yb: "c_level y = c_level P - 1" "c_low y = bounds P ! (i + 1)" "c_high y = bounds P ! (i + 2)"
    using D(3) [OF p(3)] kids(2) Sy by auto
  have lh: "c_low x < c_high x" "c_low y < c_high y" using cell_low_high T(1) x y by blast+
  have ne: "a \<noteq> b" "p \<noteq> a" "p \<noteq> b"
    using kid_owner [OF I p(1,2) il p(1-3)] kids p(1,2) x y xb(1) yb(1) by auto
  have S: "ranges ?A = ?S'" using ranges_Some [of A p, OF p(1)] ne by (auto simp: fun_eq_iff)
  have others: "cell_ok ?S' z" if z: "A c = Some z" "c \<noteq> p" "c \<noteq> a" for c z
  proof (rule cell_ok_frame [OF T(1) [OF z(1)]])
    fix e assume l: "0 < c_level z" and e: "e \<in> set (c_kids z)"
    have "e \<noteq> a" "e \<noteq> b"
      using kid_of_one [OF I p(1,2) il kids(1) z(1,2) l] kid_of_one [OF I p(1-3) kids(2) z(1,2) l] e by auto
    then show "?S' e = ?S e" by simp
  next
    fix e hh assume l: "c_level z = 0" and e: "?S e = Some (0, c_high z, hh)"
    have "e \<noteq> b"
    proof
      assume "e = b"
      then have hz: "c_high z = c_high x" "c_level x = 0" using e Sy xb yb by auto
      have Sz: "?S c = Some (0, c_low z, c_high z)" using z(1) l by (simp add: ranges_def range_of_def)
      have "c = a"
        by (rule disjoint_rangesD [OF T(3) Sz Sx [unfolded hz(2)], of "c_high x"])
          (use hz lh cell_low_high [OF T(1) [OF z(1)]] in auto)
      with z(3) show False by simp
    qed
    then show "\<exists>h'. ?S' e = Some (0, c_high z, h')" using e r Sx by auto
  qed
  have P': "inner_ok ?S' (close_parent i P)"
  proof (rule close_parent_ok [OF P p(3)])
    show "?S' (c_kids P ! i) = Some (c_level P - 1, bounds P ! i, bounds P ! (i + 2))" using kids r xb yb by simp
  next
    fix j assume j: "j < length (c_kids P)" "j \<noteq> i" "j \<noteq> i + 1"
    have "c_kids P ! j \<noteq> a" "c_kids P ! j \<noteq> b"
      using kid_owner [OF I p(1,2) j(1) p(1,2) il] kid_owner [OF I p(1,2) j(1) p(1-3)] kids j(2,3) by auto
    then show "?S' (c_kids P ! j) = ?S (c_kids P ! j)" by simp
  qed
  have l: "c_level x' = c_level x" "c_low x' = c_low x" "c_high x' = c_high y" using r by (simp_all add: range_of_def)
  have "cell_ok (ranges ?A) z \<and> c_level z \<le> h \<and> INT_MIN \<le> c_low z \<and> c_high z \<le> SENTINEL" if "?A c = Some z" for c z
    using that ok others [of c z] P' T(2,5,6) [of c z] T(2,5,6) [OF x] T(2,5,6) [OF y] T(2,5,6) [OF p(1)] l p(2)
      cell_ok_def [of ?S' "close_parent i P"]
    unfolding S by (auto split: if_splits)
  moreover have "disjoint_ranges ?S'"
    unfolding disjoint_ranges_def
  proof (intro allI impI)
    fix u v l0 lo1 hi1 lo2 hi2 k
    assume u: "?S' u = Some (l0, lo1, hi1)" "lo1 < k" "k \<le> hi1" and v: "?S' v = Some (l0, lo2, hi2)" "lo2 < k" "k \<le> hi2"
    let ?f = "\<lambda>w. if w = a \<and> c_high x < k then b else w"
    have into: "w \<noteq> b \<and> (\<exists>lo' hi'. ?S (?f w) = Some (l0, lo', hi') \<and> lo' < k \<and> k \<le> hi')"
      if "?S' w = Some (l0, lo0, hi0)" "lo0 < k" "k \<le> hi0" for w lo0 hi0
      using that Sx Sy r xb yb ne by (auto split: if_splits)
    from into [OF u] into [OF v] have "?f u = ?f v" using disjoint_rangesD [OF T(3)] by blast
    then show "u = v" using into [OF u] into [OF v] by (auto split: if_splits)
  qed
  moreover have "?S' s = Some (h, INT_MIN, SENTINEL)"
    using T(4) Sx Sy xb(1) yb(1) T(2) [OF p(1)] p(2) by (cases "s = a"; cases "s = b") auto
  ultimately show ?thesis unfolding tree_inv_def S by blast
qed

section \<open>What the leaves hold\<close>

lemma holds_mono:
  assumes "holds A M"
    and "\<And>b y k. A' b = Some y \<Longrightarrow> c_level y = 0 \<Longrightarrow> c_low y < k \<Longrightarrow> k \<le> c_high y \<Longrightarrow>
      \<exists>a x. A a = Some x \<and> c_level x = 0 \<and> c_low x < k \<and> k \<le> c_high x \<and> map_of (c_pairs x) k = map_of (c_pairs y) k"
  shows "holds A' M"
  unfolding holds_def
proof (intro allI impI)
  fix b y k assume "A' b = Some y" "c_level y = 0" "c_low y < k" "k \<le> c_high y"
  from assms(2) [OF this] obtain a x where "A a = Some x" "c_level x = 0" "c_low x < k" "k \<le> c_high x"
    "map_of (c_pairs x) k = map_of (c_pairs y) k" by blast
  with holdsD [OF assms(1)] show "map_of (c_pairs y) k = M k" by metis
qed

text \<open>Every key of the key space has its leaf.\<close>

lemma leaf_exists:
  assumes I: "tree_inv h s A" and k: "INT_MIN < k" "k \<le> SENTINEL"
  shows "\<exists>a x. A a = Some x \<and> c_level x = 0 \<and> c_low x < k \<and> k \<le> c_high x"
proof -
  have "\<exists>a x. A a = Some x \<and> c_level x = 0 \<and> c_low x < k \<and> k \<le> c_high x"
    if "A b = Some y" "c_level y = l" "c_low y < k" "k \<le> c_high y" for l b y
    using that
  proof (induction l arbitrary: b y)
    case 0
    then show ?case by blast
  next
    case (Suc l)
    have Y: "inner_ok (ranges A) y" using tree_invD(1) [OF I Suc.prems(1)] Suc.prems(2) by (simp add: cell_ok_def)
    note D = inner_okD [OF Y]
    let ?r = "length (takeWhile (\<lambda>x. x < k) (c_keys y))"
    have r: "?r \<le> length (c_keys y)" by (rule length_takeWhile_le)
    have below: "c_keys y ! i < k" if "i < ?r" for i
      using that nth_mem [OF that] set_takeWhileD [of "c_keys y ! i" "\<lambda>x. x < k"] takeWhile_nth by metis
    have above: "?r < length (c_keys y) \<Longrightarrow> k \<le> c_keys y ! ?r"
      using nth_length_takeWhile [of "\<lambda>x. x < k" "c_keys y"] by simp
    note B = bounds_rank [where r = ?r, OF below above r Suc.prems(3,4)]
    have "?r < length (c_kids y)" using r D(2) by simp
    from D(3) [OF this] obtain c where "A (c_kids y ! ?r) = Some c" "c_level c = l" "c_low c = bounds y ! ?r"
      "c_high c = bounds y ! (?r + 1)" using Suc.prems(2) by (auto elim: ranges_SomeE)
    with Suc.IH [OF this(1,2)] B show ?case by simp
  qed
  moreover obtain x where "A s = Some x" "c_low x = INT_MIN" "c_high x = SENTINEL"
    using tree_invD(4) [OF I] by (auto elim: ranges_SomeE)
  ultimately show ?thesis using k by (metis (no_types))
qed

text \<open>So the leaves hold one map on the keys between the two ends.\<close>

lemma holds_unique:
  assumes "tree_inv h s A" "holds A M" "holds A M'" "INT_MIN < k" "k \<le> SENTINEL"
  shows "M k = M' k"
proof -
  obtain a x where "A a = Some x" "c_level x = 0" "c_low x < k" "k \<le> c_high x"
    using leaf_exists [OF assms(1,4,5)] by blast
  with holdsD [OF assms(2)] holdsD [OF assms(3)] show ?thesis by metis
qed

end
