(* ===== verification/FenceSteps.thy ===== *)
theory FenceSteps
  imports FenceTree
begin

text \<open>
  The steps of the abstract tree: a full inner cell or leaf splits, below its parent or at the
  root, and two neighbours merge. Each keeps the invariant and the map that the leaves hold.
\<close>

section \<open>The halves of an inner cell\<close>

definition lower_half :: "nat \<Rightarrow> cell \<Rightarrow> cell" where
  "lower_half d x = x\<lparr>c_high := c_keys x ! d, c_keys := take d (c_keys x), c_kids := take (d + 1) (c_kids x)\<rparr>"

definition upper_half :: "nat \<Rightarrow> cell \<Rightarrow> cell" where
  "upper_half d x = x\<lparr>c_low := c_keys x ! d, c_keys := drop (d + 1) (c_keys x), c_kids := drop (d + 1) (c_kids x)\<rparr>"

lemma half_ranges:
  "range_of (lower_half d x) = (c_level x, c_low x, c_keys x ! d)"
  "range_of (upper_half d x) = (c_level x, c_keys x ! d, c_high x)"
  by (simp_all add: range_of_def lower_half_def upper_half_def)

lemma inner_halves:
  assumes X: "inner_ok S x" and d: "d < length (c_keys x)"
  shows "c_low x < c_keys x ! d" "c_keys x ! d < c_high x" "inner_ok S (lower_half d x)" "inner_ok S (upper_half d x)"
proof -
  note D = inner_okD [OF X]
  have b: "bounds x ! (d + 1) = c_keys x ! d" using d by (simp add: bounds_def nth_append)
  have d1: "d < length (c_keys x) + 1" "d + 1 < length (c_keys x) + 1" using d by simp_all
  show "c_low x < c_keys x ! d" using bounds_inside(4) [OF D(1) d1(1)] b by simp
  show "c_keys x ! d < c_high x" using bounds_inside(2,3) [OF D(1) d1(2)] b by simp
  have lo: "bounds (lower_half d x) = take (d + 2) (bounds x)"
    using d take_Suc_conv_app_nth [of d "c_keys x"] by (simp add: bounds_def lower_half_def)
  have up: "bounds (upper_half d x) = drop (d + 1) (bounds x)"
    using d Cons_nth_drop_Suc [of d "c_keys x"] by (simp add: bounds_def upper_half_def)
  have lb: "length (bounds x) = length (c_keys x) + 2" by (simp add: bounds_def)
  show "inner_ok S (lower_half d x)" unfolding inner_ok_def lo
    using D d lb by (auto simp: lower_half_def sorted_wrt_take min_def)
  show "inner_ok S (upper_half d x)" unfolding inner_ok_def up
  proof (intro conjI allI impI)
    show "sorted_wrt (<) (drop (d + 1) (bounds x))" using D(1) by (rule sorted_wrt_drop)
    show "length (c_kids (upper_half d x)) = length (c_keys (upper_half d x)) + 1"
      using D(2) d by (simp add: upper_half_def)
  next
    fix i assume "i < length (c_kids (upper_half d x))"
    then have "d + 1 + i < length (c_kids x)" by (simp add: upper_half_def)
    from D(3) [OF this] lb D(2) this show "S (c_kids (upper_half d x) ! i) = Some (c_level (upper_half d x) - 1,
        drop (d + 1) (bounds x) ! i, drop (d + 1) (bounds x) ! (i + 1))"
      by (simp add: upper_half_def)
  qed
qed

text \<open>The split cell's children keep their ranges: they lie one level below.\<close>

lemma kids_other_level:
  assumes "cell_ok S x" "0 < c_level x" "b \<in> set (c_kids x)"
  shows "S b \<noteq> None" "S a = Some (c_level x, lo, hi) \<Longrightarrow> b \<noteq> a"
proof -
  obtain l u where "S b = Some (c_level x - 1, l, u)" by (rule kid_range [OF assms])
  then show "S b \<noteq> None" "S a = Some (c_level x, lo, hi) \<Longrightarrow> b \<noteq> a" using assms(2) by auto
qed

lemma halves_ok:
  assumes I: "tree_inv h s A" and x: "A a = Some x" "0 < c_level x" "d < length (c_keys x)" and y: "A y = None"
  defines "S' \<equiv> (ranges A)(a \<mapsto> range_of (lower_half d x), y \<mapsto> range_of (upper_half d x))"
  shows "cell_ok S' (lower_half d x)" "cell_ok S' (upper_half d x)"
proof -
  have X: "cell_ok (ranges A) x" by (rule tree_invD(1) [OF I x(1)])
  note H = inner_halves [OF cell_ok_inner [OF X x(2)] x(3)]
  have Sa: "ranges A a = Some (c_level x, c_low x, c_high x)" using x(1) by (simp add: ranges_def range_of_def)
  have kid: "S' b = ranges A b" if "b \<in> set (c_kids x)" for b
    using kids_other_level [OF X x(2) that] Sa y unfolding S'_def by (auto simp: ranges_None)
  have "cell_ok (ranges A) (lower_half d x)" "cell_ok (ranges A) (upper_half d x)"
    using H(3,4) x(2) by (simp_all add: cell_ok_def lower_half_def upper_half_def)
  note F = this [THEN cell_ok_frame, of S']
  show "cell_ok S' (lower_half d x)" "cell_ok S' (upper_half d x)"
    by (rule F(1), use x(2) kid in \<open>auto simp: lower_half_def dest: in_set_takeD\<close>)
      (rule F(2), use x(2) kid in \<open>auto simp: upper_half_def dest: in_set_dropD\<close>)
qed

lemma split_inner_child:
  assumes I: "tree_inv h s A" and p: "A p = Some P" "0 < c_level P" "i < length (c_kids P)" "c_kids P ! i = a"
    and x: "A a = Some x" "0 < c_level x" "d < length (c_keys x)" and y: "A y = None"
  shows "tree_inv h s (A(a \<mapsto> lower_half d x, y \<mapsto> upper_half d x, p \<mapsto> open_parent i (c_keys x ! d) y P))"
  using inner_halves(1,2) [OF cell_ok_inner [OF tree_invD(1) [OF I x(1)] x(2)] x(3)]
  by (intro split_below [OF I p x(1) y _ _ half_ranges halves_ok [OF I x y]])

lemma split_inner_root:
  assumes I: "tree_inv h s A" and x: "A s = Some x" "0 < h" "d < length (c_keys x)"
    and y: "A y = None" "A z = None" "y \<noteq> z"
  shows "tree_inv (h + 1) z (A(s \<mapsto> lower_half d x, y \<mapsto> upper_half d x, z \<mapsto> new_root h (c_keys x ! d) s y))"
proof -
  have X: "c_level x = h" "c_low x = INT_MIN" "c_high x = SENTINEL"
    using tree_invD(4) [OF I] x(1) by (auto simp: ranges_def range_of_def)
  have l: "0 < c_level x" using X x by simp
  note B = inner_halves(1,2) [OF cell_ok_inner [OF tree_invD(1) [OF I x(1)] l] x(3), unfolded X]
  show ?thesis
    by (rule split_root [OF I y B half_ranges [of d x, unfolded X] halves_ok [OF I x(1) l x(3) y(1)]])
qed

lemma upd_cases:
  assumes "(A(a := u, b \<mapsto> v, c \<mapsto> w)) e = Some (z :: cell)"
  shows "z = w \<or> z = v \<and> e = b \<or> u = Some z \<or> A e = Some z"
  using assms by (auto split: if_splits)

lemma holds_inner:
  assumes "holds A M" and "\<And>b y. A' b = Some y \<Longrightarrow> c_level y = 0 \<Longrightarrow> A b = Some y"
  shows "holds A' M"
  using assms unfolding holds_def by blast

section \<open>The halves of a leaf\<close>

definition lower_leaf :: "nat \<Rightarrow> nat \<Rightarrow> cell \<Rightarrow> cell" where
  "lower_leaf d y x = x\<lparr>c_high := fst (c_pairs x ! d), c_pairs := take (d + 1) (c_pairs x), c_next := Some y\<rparr>"

definition upper_leaf :: "nat \<Rightarrow> cell \<Rightarrow> cell" where
  "upper_leaf d x = x\<lparr>c_low := fst (c_pairs x ! d), c_pairs := drop (d + 1) (c_pairs x)\<rparr>"

lemma leaf_half_ranges:
  "range_of (lower_leaf d y x) = (c_level x, c_low x, fst (c_pairs x ! d))"
  "range_of (upper_leaf d x) = (c_level x, fst (c_pairs x ! d), c_high x)"
  by (simp_all add: range_of_def lower_leaf_def upper_leaf_def)

lemma leaf_okD:
  assumes "leaf_ok S x"
  shows "c_low x < c_high x" "sorted_wrt (<) (map fst (c_pairs x))"
    "k \<in> fst ` set (c_pairs x) \<Longrightarrow> c_low x < k" "k \<in> fst ` set (c_pairs x) \<Longrightarrow> k \<le> c_high x"
    "i < j \<Longrightarrow> j < length (c_pairs x) \<Longrightarrow> fst (c_pairs x ! i) < fst (c_pairs x ! j)"
  using assms by (auto simp: leaf_ok_def sorted_wrt_iff_nth_less)

lemma sorted_halves:
  assumes "sorted_wrt (<) (map fst ps)" "d < length ps"
  shows "p \<in> set (take (d + 1) ps) \<Longrightarrow> fst p \<le> (fst (ps ! d) :: int)" "p \<in> set (drop (d + 1) ps) \<Longrightarrow> fst (ps ! d) < fst p"
proof -
  have S: "fst (ps ! i) < fst (ps ! j)" if "i < j" "j < length ps" for i j
    using assms(1) that by (simp add: sorted_wrt_iff_nth_less)
  show "p \<in> set (take (d + 1) ps) \<Longrightarrow> fst p \<le> fst (ps ! d)"
    using S [of _ d] assms(2) by (auto simp: in_set_conv_nth less_Suc_eq intro: less_imp_le)
  show "p \<in> set (drop (d + 1) ps) \<Longrightarrow> fst (ps ! d) < fst p"
    using S [of d] by (auto simp: in_set_conv_nth)
qed

lemma leaf_halves:
  assumes X: "leaf_ok S x" and d: "d + 1 < length (c_pairs x)"
  shows "c_low x < fst (c_pairs x ! d)" "fst (c_pairs x ! d) < c_high x"
proof -
  note D = leaf_okD [OF X]
  show "c_low x < fst (c_pairs x ! d)" using D(3) d by simp
  have "fst (c_pairs x ! d) < fst (c_pairs x ! (d + 1))" using D(5) [of d "d + 1"] d by simp
  also have "\<dots> \<le> c_high x" using D(4) d by simp
  finally show "fst (c_pairs x ! d) < c_high x" .
qed

lemma leaf_halves_ok:
  assumes I: "tree_inv h s A" and x: "A a = Some x" "c_level x = 0" "d + 1 < length (c_pairs x)" and y: "A y = None"
  defines "S' \<equiv> (ranges A)(a \<mapsto> range_of (lower_leaf d y x), y \<mapsto> range_of (upper_leaf d x))"
  shows "cell_ok S' (lower_leaf d y x)" "cell_ok S' (upper_leaf d x)"
proof -
  have X: "leaf_ok (ranges A) x" using tree_invD(1) [OF I x(1)] x(2) by (simp add: cell_ok_def)
  note D = leaf_okD [OF X]
  note H = leaf_halves [OF X x(3)]
  have d: "d < length (c_pairs x)" using x(3) by simp
  note P = sorted_halves [OF D(2) d]
  have Sa: "ranges A a = Some (0, c_low x, c_high x)" using x(1,2) by (simp add: ranges_def range_of_def)
  have Sy: "ranges A y = None" using y by (simp add: ranges_None)
  have s: "sorted_wrt (<) (map fst (take (d + 1) (c_pairs x)))" "sorted_wrt (<) (map fst (drop (d + 1) (c_pairs x)))"
    using D(2) by (simp_all add: take_map [symmetric] drop_map [symmetric] sorted_wrt_take sorted_wrt_drop)
  have "leaf_ok S' (lower_leaf d y x)"
    unfolding leaf_ok_def
  proof (intro conjI ballI)
    show "c_low (lower_leaf d y x) < c_high (lower_leaf d y x)" using H(1) by (simp add: lower_leaf_def)
    show "sorted_wrt (<) (map fst (c_pairs (lower_leaf d y x)))" using s(1) by (simp add: lower_leaf_def)
    fix k assume "k \<in> fst ` set (c_pairs (lower_leaf d y x))"
    then obtain p where p: "p \<in> set (take (d + 1) (c_pairs x))" "k = fst p" by (auto simp: lower_leaf_def)
    then have "k \<in> fst ` set (c_pairs x)" by (auto dest: in_set_takeD)
    with D(3) [OF this] P(1) [OF p(1)] p(2)
    show "c_low (lower_leaf d y x) < k" "k \<le> c_high (lower_leaf d y x)" by (simp_all add: lower_leaf_def)
  qed (use x(2) leaf_half_ranges(2) [of d x] in \<open>simp add: lower_leaf_def S'_def\<close>)
  then show "cell_ok S' (lower_leaf d y x)" using x(2) by (simp add: cell_ok_def lower_leaf_def)
  have "leaf_ok S' (upper_leaf d x)"
    unfolding leaf_ok_def
  proof (intro conjI ballI)
    show "c_low (upper_leaf d x) < c_high (upper_leaf d x)" using H(2) by (simp add: upper_leaf_def)
    show "sorted_wrt (<) (map fst (c_pairs (upper_leaf d x)))" using s(2) by (simp add: upper_leaf_def)
    fix k assume "k \<in> fst ` set (c_pairs (upper_leaf d x))"
    then obtain p where p: "p \<in> set (drop (d + 1) (c_pairs x))" "k = fst p" by (auto simp: upper_leaf_def)
    then have "k \<in> fst ` set (c_pairs x)" by (auto dest: in_set_dropD)
    with D(4) [OF this] P(2) [OF p(1)] p(2)
    show "c_low (upper_leaf d x) < k" "k \<le> c_high (upper_leaf d x)" by (simp_all add: upper_leaf_def)
  next
    have next_of: "S' b = Some (0, c_high x, hh)" if "ranges A b = Some (0, c_high x, hh)" for b hh
      using that Sa Sy D(1) unfolding S'_def by auto
    then show "case c_next (upper_leaf d x) of None \<Rightarrow> c_high (upper_leaf d x) = SENTINEL
      | Some b \<Rightarrow> \<exists>hh. S' b = Some (0, c_high (upper_leaf d x), hh)"
      using X by (auto simp: leaf_ok_def upper_leaf_def split: option.splits)
  qed
  then show "cell_ok S' (upper_leaf d x)" using x(2) by (simp add: cell_ok_def upper_leaf_def)
qed

lemma split_leaf_child:
  assumes I: "tree_inv h s A" and p: "A p = Some P" "0 < c_level P" "i < length (c_kids P)" "c_kids P ! i = a"
    and x: "A a = Some x" "c_level x = 0" "d + 1 < length (c_pairs x)" and y: "A y = None"
  shows "tree_inv h s (A(a \<mapsto> lower_leaf d y x, y \<mapsto> upper_leaf d x, p \<mapsto> open_parent i (fst (c_pairs x ! d)) y P))"
  using leaf_halves [OF cell_ok_leaf [OF tree_invD(1) [OF I x(1)] x(2)] x(3)]
  by (intro split_below [OF I p x(1) y _ _ leaf_half_ranges leaf_halves_ok [OF I x y]])

lemma split_leaf_root:
  assumes I: "tree_inv 0 s A" and x: "A s = Some x" "d + 1 < length (c_pairs x)"
    and y: "A y = None" "A z = None" "y \<noteq> z"
  shows "tree_inv 1 z (A(s \<mapsto> lower_leaf d y x, y \<mapsto> upper_leaf d x, z \<mapsto> new_root 0 (fst (c_pairs x ! d)) s y))"
proof -
  have X: "c_level x = 0" "c_low x = INT_MIN" "c_high x = SENTINEL"
    using tree_invD(4) [OF I] x(1) by (auto simp: ranges_def range_of_def)
  note B = leaf_halves [OF cell_ok_leaf [OF tree_invD(1) [OF I x(1)] X(1)] x(2), unfolded X]
  show ?thesis
    using split_root [OF I y B leaf_half_ranges(1) [of d y x, unfolded X] leaf_half_ranges(2) [of d x, unfolded X] leaf_halves_ok [OF I x(1) X(1) x(2) y(1)]] by simp
qed

text \<open>Each half holds what the leaf held of its range.\<close>

lemma map_of_halves:
  assumes "sorted_wrt (<) (map fst ps)" "d < length ps"
  shows "k \<le> fst (ps ! d) \<Longrightarrow> map_of (take (d + 1) ps) k = map_of ps (k :: int)"
    "fst (ps ! d) < k \<Longrightarrow> map_of (drop (d + 1) ps) k = map_of ps k"
proof -
  note P = sorted_halves [OF assms]
  have e: "map_of ps = map_of (drop (d + 1) ps) ++ map_of (take (d + 1) ps)"
    using map_of_append [of "take (d + 1) ps" "drop (d + 1) ps"] by simp
  show "map_of (take (d + 1) ps) k = map_of ps k" if "k \<le> fst (ps ! d)"
  proof -
    have "map_of (drop (d + 1) ps) k = None" using P(2) that by (force simp: map_of_eq_None_iff)
    then show ?thesis using e by (simp add: map_add_def split: option.split)
  qed
  show "map_of (drop (d + 1) ps) k = map_of ps k" if "fst (ps ! d) < k"
  proof -
    have "map_of (take (d + 1) ps) k = None" using P(1) that by (force simp: map_of_eq_None_iff)
    then show ?thesis using e by (simp add: map_add_def split: option.split)
  qed
qed

lemma holds_split:
  assumes H: "holds A M" and I: "tree_inv h s A" and x: "A a = Some x" "c_level x = 0" "d + 1 < length (c_pairs x)"
    and P: "0 < c_level P"
  shows "holds (A(a \<mapsto> lower_leaf d y x, y \<mapsto> upper_leaf d x, p \<mapsto> P)) M"
proof (rule holds_mono [OF H])
  fix b z k
  assume b: "(A(a \<mapsto> lower_leaf d y x, y \<mapsto> upper_leaf d x, p \<mapsto> P)) b = Some z" "c_level z = 0" "c_low z < k" "k \<le> c_high z"
  have X: "leaf_ok (ranges A) x" using tree_invD(1) [OF I x(1)] x(2) by (simp add: cell_ok_def)
  have d: "d < length (c_pairs x)" using x(3) by simp
  note E = map_of_halves [OF leaf_okD(2) [OF X] d] and B = leaf_halves [OF X x(3)]
  have "z \<noteq> P" using b(2) P by auto
  then consider "z = lower_leaf d y x" | "z = upper_leaf d x" | "A b = Some z"
    using upd_cases [OF b(1)] by blast
  then show "\<exists>a x. A a = Some x \<and> c_level x = 0 \<and> c_low x < k \<and> k \<le> c_high x \<and> map_of (c_pairs x) k = map_of (c_pairs z) k"
  proof cases
    case 1
    then show ?thesis using b E(1) B x by (intro exI [of _ a] exI [of _ x]) (auto simp: lower_leaf_def)
  next
    case 2
    then show ?thesis using b E(2) B x by (intro exI [of _ a] exI [of _ x]) (auto simp: upper_leaf_def)
  next
    case 3
    then show ?thesis using b by blast
  qed
qed

section \<open>Joining neighbours\<close>

definition join_inner :: "int \<Rightarrow> cell \<Rightarrow> cell \<Rightarrow> cell" where
  "join_inner k x y = x\<lparr>c_high := c_high y, c_keys := c_keys x @ k # c_keys y, c_kids := c_kids x @ c_kids y\<rparr>"

definition join_leaf :: "cell \<Rightarrow> cell \<Rightarrow> cell" where
  "join_leaf x y = x\<lparr>c_high := c_high y, c_pairs := c_pairs x @ c_pairs y, c_next := c_next y\<rparr>"

lemma join_ranges:
  "range_of (join_inner k x y) = (c_level x, c_low x, c_high y)" "range_of (join_leaf x y) = (c_level x, c_low x, c_high y)"
  by (simp_all add: range_of_def join_inner_def join_leaf_def)

lemma join_inner_ok:
  assumes X: "inner_ok S x" and Y: "inner_ok S y" and l: "c_level x = c_level y" and k: "c_high x = k" "c_low y = k"
  shows "inner_ok S (join_inner k x y)"
proof -
  note DX = inner_okD [OF X] and DY = inner_okD [OF Y]
  have bx: "bounds x = (c_low x # c_keys x) @ [k]" and by': "bounds y = k # c_keys y @ [c_high y]"
    using k by (simp_all add: bounds_def)
  have b: "bounds (join_inner k x y) = bounds x @ tl (bounds y)" by (simp add: bounds_def join_inner_def k)
  have b2: "bounds (join_inner k x y) = (c_low x # c_keys x) @ bounds y" by (simp add: bounds_def join_inner_def k)
  show ?thesis
    unfolding inner_ok_def
  proof (intro conjI allI impI)
    have lt: "u < k" if "u \<in> set (c_low x # c_keys x)" for u
      using DX(1) that unfolding bx sorted_wrt_append by auto
    have gt: "k \<le> v" if "v \<in> set (bounds y)" for v
      using DY(1) that unfolding by' by (auto intro: less_imp_le)
    show "sorted_wrt (<) (bounds (join_inner k x y))"
      using DX(1) DY(1) lt gt unfolding b2 bx sorted_wrt_append by (auto dest: less_le_trans)
    show "length (c_kids (join_inner k x y)) = length (c_keys (join_inner k x y)) + 1"
      using DX(2) DY(2) by (simp add: join_inner_def)
  next
    fix i assume i: "i < length (c_kids (join_inner k x y))"
    let ?n = "length (c_kids x)"
    have lx: "length (bounds x) = ?n + 1" using DX(2) by (simp add: bounds_def)
    have ls: "length (c_low x # c_keys x) = ?n" using DX(2) by simp
    show "S (c_kids (join_inner k x y) ! i) = Some (c_level (join_inner k x y) - 1,
        bounds (join_inner k x y) ! i, bounds (join_inner k x y) ! (i + 1))"
    proof (cases "i < ?n")
      case True
      then show ?thesis using DX(3) [OF True] lx unfolding b by (simp add: join_inner_def nth_append)
    next
      case False
      then have "i - ?n < length (c_kids y)" using i by (simp add: join_inner_def)
      from DY(3) [OF this] False ls show ?thesis unfolding b2 nth_append
        by (simp add: join_inner_def nth_append l Suc_diff_le)
    qed
  qed
qed

lemma join_leaf_ok:
  assumes X: "leaf_ok S x" and Y: "leaf_ok S y" and k: "c_high x = c_low y"
  shows "leaf_ok S (join_leaf x y)"
proof -
  note DX = leaf_okD [OF X] and DY = leaf_okD [OF Y]
  show ?thesis
    unfolding leaf_ok_def
  proof (intro conjI ballI)
    show "c_low (join_leaf x y) < c_high (join_leaf x y)" using DX(1) DY(1) k by (simp add: join_leaf_def)
    have "u < v" if "u \<in> set (map fst (c_pairs x))" "v \<in> set (map fst (c_pairs y))" for u v
      using DX(4) [of u] DY(3) [of v] that k by auto
    then show "sorted_wrt (<) (map fst (c_pairs (join_leaf x y)))"
      using DX(2) DY(2) by (simp add: join_leaf_def sorted_wrt_append)
    fix u assume "u \<in> fst ` set (c_pairs (join_leaf x y))"
    then have "u \<in> fst ` set (c_pairs x) \<or> u \<in> fst ` set (c_pairs y)" by (auto simp: join_leaf_def)
    then have "c_low x < u \<and> u \<le> c_high y"
      using DX(1) DY(1) DX(3,4) [of u] DY(3,4) [of u] k by linarith
    then show "c_low (join_leaf x y) < u" "u \<le> c_high (join_leaf x y)" by (simp_all add: join_leaf_def)
  qed (use Y in \<open>auto simp: leaf_ok_def join_leaf_def split: option.splits\<close>)
qed

text \<open>Two children that are neighbours under one parent.\<close>

lemma neighbours:
  assumes I: "tree_inv h s A" and p: "A p = Some P" "0 < c_level P" "i + 1 < length (c_kids P)"
    and kids: "c_kids P ! i = a" "c_kids P ! (i + 1) = b" and x: "A a = Some x" and y: "A b = Some y"
  shows "c_level x = c_level P - 1" "c_level y = c_level P - 1" "c_high x = c_keys P ! i" "c_low y = c_keys P ! i" "a \<noteq> b"
proof -
  have P: "inner_ok (ranges A) P" using tree_invD(1) [OF I p(1)] p(2) by (rule cell_ok_inner)
  note D = inner_okD [OF P]
  have il: "i < length (c_kids P)" "i < length (c_keys P)" using p(3) D(2) by simp_all
  have b: "bounds P ! (i + 1) = c_keys P ! i" using il(2) by (simp add: bounds_def nth_append)
  show "c_level x = c_level P - 1" "c_high x = c_keys P ! i"
    using D(3) [OF il(1)] kids x b by (auto simp: ranges_def range_of_def)
  show "c_level y = c_level P - 1" "c_low y = c_keys P ! i"
    using D(3) [OF p(3)] kids y b by (auto simp: ranges_def range_of_def)
  show "a \<noteq> b" using kid_owner [OF I p(1,2) il(1) p] kids by auto
qed

lemma merge_inner_children:
  assumes I: "tree_inv h s A" and p: "A p = Some P" "0 < c_level P" "i + 1 < length (c_kids P)"
    and kids: "c_kids P ! i = a" "c_kids P ! (i + 1) = b" and x: "A a = Some x" "0 < c_level x" and y: "A b = Some y"
  shows "tree_inv h s (A(b := None, a \<mapsto> join_inner (c_keys P ! i) x y, p \<mapsto> close_parent i P))"
proof (rule merge_below [OF I p kids x(1) y join_ranges(1)])
  note N = neighbours [OF I p kids x(1) y]
  let ?S' = "(ranges A)(b := None, a \<mapsto> range_of (join_inner (c_keys P ! i) x y))"
  have l: "0 < c_level y" "c_level x = c_level y" using N x(2) by simp_all
  have X: "cell_ok (ranges A) x" and Y: "cell_ok (ranges A) y" using tree_invD(1) [OF I] x(1) y by blast+
  have Sa: "ranges A a = Some (c_level x, c_low x, c_high x)" "ranges A b = Some (c_level x, c_low y, c_high y)"
    using x(1) y l(2) by (simp_all add: ranges_def range_of_def)
  have "cell_ok (ranges A) (join_inner (c_keys P ! i) x y)"
    using join_inner_ok [OF cell_ok_inner [OF X x(2)] cell_ok_inner [OF Y l(1)] l(2) N(3,4)] x(2)
    by (simp add: cell_ok_def join_inner_def)
  then show "cell_ok ?S' (join_inner (c_keys P ! i) x y)"
  proof (rule cell_ok_frame)
    fix e assume "e \<in> set (c_kids (join_inner (c_keys P ! i) x y))"
    then have "e \<in> set (c_kids x) \<or> e \<in> set (c_kids y)" by (auto simp: join_inner_def)
    then have "e \<noteq> a" "e \<noteq> b"
      using kids_other_level(2) [OF X x(2)] kids_other_level(2) [OF Y l(1)] Sa l(2) by metis+
    then show "?S' e = ranges A e" by simp
  qed (use x(2) in \<open>simp add: join_inner_def\<close>)
qed

lemma merge_leaf_children:
  assumes I: "tree_inv h s A" and p: "A p = Some P" "0 < c_level P" "i + 1 < length (c_kids P)"
    and kids: "c_kids P ! i = a" "c_kids P ! (i + 1) = b" and x: "A a = Some x" "c_level x = 0" and y: "A b = Some y"
  shows "tree_inv h s (A(b := None, a \<mapsto> join_leaf x y, p \<mapsto> close_parent i P))"
proof (rule merge_below [OF I p kids x(1) y join_ranges(2)])
  note N = neighbours [OF I p kids x(1) y]
  let ?S' = "(ranges A)(b := None, a \<mapsto> range_of (join_leaf x y))"
  have l: "c_level y = 0" using N x(2) by simp
  have X: "leaf_ok (ranges A) x" and Y: "leaf_ok (ranges A) y"
    using tree_invD(1) [OF I x(1)] tree_invD(1) [OF I y] x(2) l by (simp_all add: cell_ok_def)
  have Sa: "ranges A a = Some (0, c_low x, c_high x)" "ranges A b = Some (0, c_low y, c_high y)"
    using x y l by (simp_all add: ranges_def range_of_def)
  have k: "c_high x = c_low y" using N by simp
  have "cell_ok (ranges A) (join_leaf x y)"
    using join_leaf_ok [OF X Y k] x(2) by (simp add: cell_ok_def join_leaf_def)
  then show "cell_ok ?S' (join_leaf x y)"
  proof (rule cell_ok_frame)
    fix e hh assume "ranges A e = Some (0, c_high (join_leaf x y), hh)"
    then have "e \<noteq> a" "e \<noteq> b" using Sa leaf_okD(1) [OF X] leaf_okD(1) [OF Y] k by (auto simp: join_leaf_def)
    then show "\<exists>h'. ?S' e = Some (0, c_high (join_leaf x y), h')"
      using \<open>ranges A e = Some (0, c_high (join_leaf x y), hh)\<close> by simp
  qed (use x(2) in \<open>simp add: join_leaf_def\<close>)
qed

lemma holds_join:
  assumes H: "holds A M" and I: "tree_inv h s A" and p: "A p = Some P" "0 < c_level P" "i + 1 < length (c_kids P)"
    and kids: "c_kids P ! i = a" "c_kids P ! (i + 1) = b" and x: "A a = Some x" "c_level x = 0" and y: "A b = Some y"
  shows "holds (A(b := None, a \<mapsto> join_leaf x y, p \<mapsto> close_parent i P)) M"
proof (rule holds_mono [OF H])
  fix e z k
  assume e: "(A(b := None, a \<mapsto> join_leaf x y, p \<mapsto> close_parent i P)) e = Some z" "c_level z = 0" "c_low z < k" "k \<le> c_high z"
  note N = neighbours [OF I p kids x(1) y]
  have l: "c_level y = 0" using N x(2) by simp
  have X: "leaf_ok (ranges A) x" and Y: "leaf_ok (ranges A) y"
    using tree_invD(1) [OF I x(1)] tree_invD(1) [OF I y] x(2) l by (simp_all add: cell_ok_def)
  have m: "map_of (c_pairs x) k = None" if "c_high x < k" using leaf_okD(4) [OF X, of k] that by (force simp: map_of_eq_None_iff)
  have m': "map_of (c_pairs y) k = None" if "k \<le> c_high x" using leaf_okD(3) [OF Y, of k] that N by (force simp: map_of_eq_None_iff)
  have "z \<noteq> close_parent i P" using e(2) p(2) by auto
  then consider (join) "z = join_leaf x y" "e = a" | (other) "A e = Some z"
    using upd_cases [OF e(1)] by blast
  then show "\<exists>a x. A a = Some x \<and> c_level x = 0 \<and> c_low x < k \<and> k \<le> c_high x \<and> map_of (c_pairs x) k = map_of (c_pairs z) k"
  proof cases
    case join
    then have jp: "c_pairs z = c_pairs x @ c_pairs y" "c_low x < k" "k \<le> c_high y" using e(3,4) by (simp_all add: join_leaf_def)
    show ?thesis
    proof (cases "k \<le> c_high x")
      case True
      then show ?thesis using jp m' x by (intro exI [of _ a] exI [of _ x]) (auto simp: map_add_def split: option.splits)
    next
      case False
      then show ?thesis using jp m y l N by (intro exI [of _ b] exI [of _ y]) (auto simp: map_add_def split: option.splits)
    qed
  next
    case other
    then show ?thesis using e by blast
  qed
qed

end
