(* ===== verification/ShCells.thy ===== *)
theory ShCells
  imports ShTraverse FenceSteps
begin

text \<open>
  How the nodes and leaves of the Sherman tree stand for the cells of the abstract tree, and that
  the operations on nodes are those on cells: version changes leave the cell alone, splits give
  its halves, merges join two.
\<close>

section \<open>Nodes and leaves as cells\<close>

definition node_rep :: "nat \<Rightarrow> snode \<Rightarrow> cell \<Rightarrow> bool" where
  "node_rep d n x \<longleftrightarrow> bn_shape d n \<and> node_slots d n (c_keys x) (map (\<lambda>b. Some (b, False)) (c_kids x)) \<and>
     fk_low (fency_key n) = c_low x \<and> fk_high (fency_key n) = c_high x \<and> fk_height (fency_key n) = int (c_level x) \<and>
     \<not> sn_is_deleted n \<and> 0 < c_level x"

definition leaf_rep :: "scfg \<Rightarrow> sleaf \<Rightarrow> cell \<Rightarrow> bool" where
  "leaf_rep c l x \<longleftrightarrow> lf_shape (sc_vs c) (sc_hs c) (sc_degree c) l \<and> leaf_pairs (sc_vs c) (sc_degree c) l (c_pairs x) \<and>
     hl_key_low (lf_last l) = c_low x \<and> hl_key_high (lf_last l) = c_high x \<and>
     get_next l = map_option (\<lambda>b. (b, False)) (c_next x) \<and> \<not> sl_is_deleted l \<and> c_level x = 0"

lemma node_repD:
  assumes "node_rep d n x"
  shows "bn_shape d n" "node_slots d n (c_keys x) (map (\<lambda>b. Some (b, False)) (c_kids x))"
    "fk_low (fency_key n) = c_low x" "fk_high (fency_key n) = c_high x" "fk_height (fency_key n) = int (c_level x)"
    "\<not> sn_is_deleted n" "0 < c_level x" "key_slots d (bn_key_at n) (c_keys x)"
  using assms by (auto simp: node_rep_def node_slots_def)

lemma leaf_repD:
  assumes "leaf_rep c l x"
  shows "lf_shape (sc_vs c) (sc_hs c) (sc_degree c) l" "leaf_pairs (sc_vs c) (sc_degree c) l (c_pairs x)"
    "hl_key_low (lf_last l) = c_low x" "hl_key_high (lf_last l) = c_high x"
    "get_next l = map_option (\<lambda>b. (b, False)) (c_next x)" "\<not> sl_is_deleted l" "c_level x = 0"
    "key_slots (sc_degree c) (lf_key_at l) (map fst (c_pairs x))"
  using assms by (auto simp: leaf_rep_def leaf_pairs_def)

text \<open>The sizes the code is used with: values fit the lines.\<close>

definition cfg_ok :: "scfg \<Rightarrow> bool" where
  "cfg_ok c \<longleftrightarrow> 0 < sc_degree c \<and> 0 < sc_vs c \<and> sc_hs c \<le> sc_vs c \<and> (\<forall>a. sc_local c a)"

lemma cfg_okD:
  assumes "cfg_ok c"
  shows "0 < sc_degree c" "0 < sc_vs c" "sc_hs c \<le> sc_vs c" "s_is_local c (Some (a, m))"
  using assms by (simp_all add: cfg_ok_def s_is_local_def)

section \<open>Versions do not matter\<close>

lemma kshape_map:
  assumes "length ls' = length ls" "\<And>i. i < length ls \<Longrightarrow> kl_keys (ls' ! i) = kl_keys (ls ! i)" "kshape d ls"
  shows "kshape d ls'" "i < SIZE d \<Longrightarrow> kl_keys (ls' ! (i div KLINE_SIZE)) ! (i mod KLINE_SIZE) =
     kl_keys (ls ! (i div KLINE_SIZE)) ! (i mod KLINE_SIZE)"
proof -
  show "kshape d ls'" using assms by (auto simp: kshape_def all_set_conv_all_nth)
  show "i < SIZE d \<Longrightarrow> kl_keys (ls' ! (i div KLINE_SIZE)) ! (i mod KLINE_SIZE) =
      kl_keys (ls ! (i div KLINE_SIZE)) ! (i mod KLINE_SIZE)"
    using assms(2) [of "i div KLINE_SIZE"] assms(3) key_slot [of i d] by (simp add: kshape_def)
qed

lemma set_first_version_keys:
  "length (set_first_version v ls) = length ls" "i < length ls \<Longrightarrow> kl_keys (set_first_version v ls ! i) = kl_keys (ls ! i)"
  by (simp add: set_first_version_def, cases "i = 0") (auto simp: set_first_version_def)

lemma bump_klines_keys:
  "length (bump_klines ls) = length ls" "i < length ls \<Longrightarrow> kl_keys (bump_klines ls ! i) = kl_keys (ls ! i)"
  by (auto simp: bump_klines_def nth_Cons split: list.splits nat.splits)

lemma key_slots_cong: "(\<And>i. i < SIZE d \<Longrightarrow> f i = g i) \<Longrightarrow> key_slots d f ks \<longleftrightarrow> key_slots d g ks"
  unfolding key_slots_def by (intro conj_cong refl all_cong1) auto

lemma node_rep_same:
  assumes "node_rep d n x" "length (bn_keys n') = length (bn_keys n)"
    "\<And>i. i < length (bn_keys n) \<Longrightarrow> kl_keys (bn_keys n' ! i) = kl_keys (bn_keys n ! i)"
    "map pl_ptrs (bn_ptrs n') = map pl_ptrs (bn_ptrs n)"
    "fk_low (fency_key n') = fk_low (fency_key n)" "fk_high (fency_key n') = fk_high (fency_key n)"
    "fk_height (fency_key n') = fk_height (fency_key n)" "fk_deleted (fency_key n') = fk_deleted (fency_key n)"
  shows "node_rep d n' x"
proof -
  note D = node_repD [OF assms(1)]
  have k: "kshape d (bn_keys n)" using D(1) by (simp add: bn_shape_def)
  have ks: "bn_key_at n' i = bn_key_at n i" if "i < SIZE d" for i
    using kshape_map(2) [OF assms(2,3) k that] by (simp add: bn_key_at_def)
  have len: "length (bn_ptrs n') = length (bn_ptrs n)" using arg_cong [OF assms(4), of length] by simp
  have nth: "pl_ptrs (bn_ptrs n' ! i) = pl_ptrs (bn_ptrs n ! i)" if "i < length (bn_ptrs n)" for i
    using arg_cong [OF assms(4), of "\<lambda>xs. xs ! i"] that len by simp
  have p: "ptr_at n' i = ptr_at n i" if "i < SIZE d + 1" for i
    using nth [of "i div PLINE_SIZE"] ptr_slot [OF that] D(1) by (simp add: ptr_at_def bn_shape_def)
  have "bn_shape d n'"
    using D(1) kshape_map(1) [OF assms(2,3) k] len nth by (auto simp: bn_shape_def all_set_conv_all_nth)
  moreover have "node_slots d n' (c_keys x) (map (\<lambda>b. Some (b, False)) (c_kids x))"
    using D(2) key_slots_cong [OF ks] p by (simp add: node_slots_def)
  ultimately show ?thesis using D assms(5-8) by (simp add: node_rep_def sn_is_deleted_def)
qed

lemma node_rep_lock: "node_rep d n x \<Longrightarrow> node_rep d (n\<lparr>bn_keys := set_first_version v (bn_keys n)\<rparr>) x"
  by (rule node_rep_same) (simp_all add: set_first_version_keys)

lemma node_rep_increment: "node_rep d n x \<Longrightarrow> node_rep d (sn_increment_version n) x"
  by (rule node_rep_same) (simp_all add: sn_increment_version_def bump_klines_keys comp_def)

lemma leaf_rep_same:
  assumes "leaf_rep c l x" "length (lf_keys l') = length (lf_keys l)"
    "\<And>i. i < length (lf_keys l) \<Longrightarrow> kl_keys (lf_keys l' ! i) = kl_keys (lf_keys l ! i)"
    "map vl_values (lf_values l') = map vl_values (lf_values l)" "hl_values (lf_last l') = hl_values (lf_last l)"
    "hl_key_low (lf_last l') = hl_key_low (lf_last l)" "hl_key_high (lf_last l') = hl_key_high (lf_last l)"
    "hl_next (lf_last l') = hl_next (lf_last l)" "lf_deleted l' = lf_deleted l"
  shows "leaf_rep c l' x"
proof -
  note D = leaf_repD [OF assms(1)]
  let ?d = "sc_degree c" and ?vs = "sc_vs c"
  have k: "kshape ?d (lf_keys l)" using D(1) by (simp add: lf_shape_def)
  have ks: "lf_key_at l' i = lf_key_at l i" if "i < SIZE ?d" for i
    using kshape_map(2) [OF assms(2,3) k that] by (simp add: lf_key_at_def)
  have len: "length (lf_values l') = length (lf_values l)" using arg_cong [OF assms(4), of length] by simp
  have nth: "vl_values (lf_values l' ! i) = vl_values (lf_values l ! i)" if "i < length (lf_values l)" for i
    using arg_cong [OF assms(4), of "\<lambda>xs. xs ! i"] that len by simp
  have v: "value_at ?vs l' i = value_at ?vs l i" for i
    using nth [of "i div ?vs"] len assms(5) by (simp add: value_at_def)
  have "lf_shape ?vs (sc_hs c) ?d l'"
    using D(1) kshape_map(1) [OF assms(2,3) k] len nth assms(5) by (auto simp: lf_shape_def all_set_conv_all_nth)
  moreover have "leaf_pairs ?vs ?d l' (c_pairs x)"
    using D(2) key_slots_cong [OF ks] v by (simp add: leaf_pairs_def)
  ultimately show ?thesis using D assms(6-9) by (simp add: leaf_rep_def sl_is_deleted_def get_next_def)
qed

lemma leaf_rep_lock: "leaf_rep c l x \<Longrightarrow> leaf_rep c (l\<lparr>lf_keys := set_first_version v (lf_keys l)\<rparr>) x"
  by (rule leaf_rep_same) (simp_all add: set_first_version_keys)

lemma leaf_rep_increment: "leaf_rep c l x \<Longrightarrow> leaf_rep c (lf_increment_version l) x"
  by (rule leaf_rep_same) (simp_all add: lf_increment_version_def bump_klines_keys comp_def)

lemma leaf_rep_lf_lock: "leaf_rep c l x \<Longrightarrow> leaf_rep c (lf_lock l) x"
  unfolding lf_lock_def by (rule leaf_rep_lock)

section \<open>Full and empty\<close>

lemma full_slots:
  assumes "key_slots d f ks"
  shows "f (SIZE d - 1) \<noteq> SENTINEL \<longleftrightarrow> length ks = SIZE d" "f 0 = SENTINEL \<longleftrightarrow> ks = []"
proof -
  have K: "length ks \<le> SIZE d" "\<And>k. k \<in> set ks \<Longrightarrow> k < SENTINEL"
    "\<And>i. i < SIZE d \<Longrightarrow> f i = (if i < length ks then ks ! i else SENTINEL)"
    using assms by (auto simp: key_slots_def)
  have "f (SIZE d - 1) = (if SIZE d - 1 < length ks then ks ! (SIZE d - 1) else SENTINEL)" using K(3) by simp
  moreover have "SIZE d - 1 < length ks \<Longrightarrow> ks ! (SIZE d - 1) < SENTINEL" using K(2) nth_mem by blast
  ultimately show "f (SIZE d - 1) \<noteq> SENTINEL \<longleftrightarrow> length ks = SIZE d" using K(1) by (cases "SIZE d - 1 < length ks") auto
  have "f 0 = (if 0 < length ks then ks ! 0 else SENTINEL)" using K(3) by simp
  moreover have "0 < length ks \<Longrightarrow> ks ! 0 < SENTINEL" using K(2) nth_mem by blast
  ultimately show "f 0 = SENTINEL \<longleftrightarrow> ks = []" by (cases ks) auto
qed

lemma full_node_rep: "node_rep (sc_degree c) n x \<Longrightarrow> s_full_node c n \<longleftrightarrow> length (c_keys x) = SIZE (sc_degree c)"
  using full_slots(1) [OF node_repD(8)] by (simp add: s_full_node_def)

lemma empty_node_rep: "node_rep d n x \<Longrightarrow> bn_key_at n 0 = SENTINEL \<longleftrightarrow> c_keys x = []"
  by (rule full_slots(2) [OF node_repD(8)])

lemma full_leaf_rep: "leaf_rep c l x \<Longrightarrow> s_full_leaf c l \<longleftrightarrow> length (c_pairs x) = SIZE (sc_degree c)"
  using full_slots(1) [OF leaf_repD(8)] by (simp add: s_full_leaf_def)

lemma empty_leaf_rep: "leaf_rep c l x \<Longrightarrow> lf_key_at l 0 = SENTINEL \<longleftrightarrow> c_pairs x = []"
  using full_slots(2) [OF leaf_repD(8)] by simp

lemma rep_lengths:
  "node_rep d n x \<Longrightarrow> length (c_keys x) \<le> SIZE d" "node_rep d n x \<Longrightarrow> length (c_kids x) = length (c_keys x) + 1"
  "leaf_rep c l y \<Longrightarrow> length (c_pairs y) \<le> SIZE (sc_degree c)"
  using node_slotsD(3,4) [OF node_repD(2)] leaf_repD(8) by (auto simp: key_slots_def)

section \<open>Descending\<close>

lemma rank_bounds:
  assumes "sorted_wrt (<) (c_keys x)" "c_low x < k" "k \<le> c_high x"
  shows "rank k (c_keys x) \<le> length (c_keys x)" "bounds x ! rank k (c_keys x) < k" "k \<le> bounds x ! (rank k (c_keys x) + 1)"
  using bounds_rank [where r = "rank k (c_keys x)", OF rank_below rank_above [OF assms(1) order_refl] rank_le assms(2,3)]
  by (simp_all add: rank_le)

lemma child_ptr:
  assumes N: "node_rep d n x" and k: "k < SENTINEL"
  shows "read_level d n (search_node d (bn_key_at n) k) = Some (c_kids x ! rank k (c_keys x), False)"
proof -
  note D = node_repD [OF N] and L = rep_lengths(1,2) [OF N]
  note S = node_slotsD(6) [OF D(2)]
  show ?thesis
  proof (cases "rank k (c_keys x) < SIZE d")
    case True
    then show ?thesis using search_node_rank [OF D(8) k True] S rank_le [of k "c_keys x"] L
      by (simp add: read_level_def)
  next
    case False
    then have r: "rank k (c_keys x) = SIZE d" "length (c_keys x) = SIZE d" using rank_le [of k "c_keys x"] L(1) by simp_all
    have "c_keys x ! (SIZE d - 1) < k" using rank_below [of "SIZE d - 1" k "c_keys x"] r by simp
    moreover have "bn_key_at n (SIZE d - 1) = c_keys x ! (SIZE d - 1)" using D(8) r(2) by (simp add: key_slots_def)
    ultimately have "search_node d (bn_key_at n) k = None" by (simp add: search_node_def)
    then show ?thesis using S L r by (simp add: read_level_def)
  qed
qed

lemma child_bucket:
  assumes N: "node_rep d n x" and k: "k < SENTINEL" and "length (c_keys x) < SIZE d"
  shows "search_node d (bn_key_at n) k = Some (rank k (c_keys x))"
  using search_node_rank [OF node_repD(8) [OF N] k] rank_le [of k "c_keys x"] assms(3) by simp

lemma kid_ptr:
  assumes N: "node_rep d n x" and "i < length (c_kids x)"
  shows "read_level d n (Some i) = Some (c_kids x ! i, False)"
  using node_slotsD(6) [OF node_repD(2) [OF N], of i] assms(2) rep_lengths(1,2) [OF N] by (simp add: read_level_def)

section \<open>What the loops leave alone\<close>

lemma fold_keeps: "(\<And>i n. g (f i n) = g n) \<Longrightarrow> g (fold f is n) = g n"
  by (induction "is" arbitrary: n) auto

lemma fold_keeps_pair:
  "(\<And>i fe. g (fst (f i fe)) = g (fst fe) \<and> h (snd (f i fe)) = h (snd fe)) \<Longrightarrow>
   g (fst (fold f is fe)) = g (fst fe) \<and> h (snd (fold f is fe)) = h (snd fe)"
  by (induction "is" arbitrary: fe) auto

lemma accessors_fency [simp]:
  "fency_key (bn_set_key i k n) = fency_key n" "fency_key (set_ptr i p n) = fency_key n"
  "lf_deleted (lf_set_key i k l) = lf_deleted l" "lf_deleted (set_value vs i v l) = lf_deleted l"
  by (simp_all add: bn_set_key_def set_ptr_def Let_def lf_set_key_def set_value_def)

lemma shift_fency: "fency_key (shift_up d b n) = fency_key n" "fency_key (snd (shift_down d b n)) = fency_key n"
  by (simp_all add: shift_up_def shift_down_def Let_def fold_keeps [of fency_key])

lemma split_keys_fency:
  assumes "split_keys d bn_key_at bn_set_key b (n, m) = (k, n', m')"
  shows "fency_key n' = fency_key n" "fency_key m' = fency_key m"
  using assms fold_keeps_pair [of fency_key "split_keys_step d bn_key_at bn_set_key" fency_key "[0 ..< SIZE d]" "(n, m)"]
  by (auto simp: split_keys_def split_keys_step_def split: prod.splits if_splits)

lemma split_ptrs_fency:
  assumes "split_ptrs d (n, m) = (n', m')"
  shows "fency_key n' = fency_key n" "fency_key m' = fency_key m"
  using assms fold_keeps_pair [of fency_key "split_ptrs_step d" fency_key "[0 ..< SIZE d + 1]" "(n, m)"]
  by (auto simp: split_ptrs_def split_ptrs_step_def split: prod.splits if_splits)

lemma merge_node_loop_fency: "fency_key (merge_node_loop is s one two) = fency_key one"
  by (induction "is" arbitrary: s one) auto

definition leaf_rest :: "sleaf \<Rightarrow> int \<times> int \<times> ptr \<times> 64 word" where
  "leaf_rest l = (hl_key_low (lf_last l), hl_key_high (lf_last l), hl_next (lf_last l), lf_deleted l)"

lemma leaf_rest_simps [simp]: "leaf_rest (lf_set_key i k l) = leaf_rest l" "leaf_rest (set_value vs i v l) = leaf_rest l"
  by (simp_all add: leaf_rest_def)

lemma leaf_restD:
  assumes "leaf_rest l' = leaf_rest l"
  shows "hl_key_low (lf_last l') = hl_key_low (lf_last l)" "hl_key_high (lf_last l') = hl_key_high (lf_last l)"
    "get_next l' = get_next l" "lf_deleted l' = lf_deleted l"
  using assms by (simp_all add: leaf_rest_def get_next_def)

lemma split_keys_rest:
  assumes "split_keys d lf_key_at lf_set_key b (n, m) = (k, n', m')"
  shows "leaf_rest n' = leaf_rest n" "leaf_rest m' = leaf_rest m"
  using assms fold_keeps_pair [of leaf_rest "split_keys_step d lf_key_at lf_set_key" leaf_rest "[0 ..< SIZE d]" "(n, m)"]
  by (auto simp: split_keys_def split_keys_step_def split: prod.splits if_splits)

lemma split_values_rest:
  assumes "split_values vs d (n, m) = (n', m')"
  shows "leaf_rest n' = leaf_rest n" "leaf_rest m' = leaf_rest m"
  using assms fold_keeps_pair [of leaf_rest "split_values_step vs d" leaf_rest "[0 ..< SIZE d]" "(n, m)"]
  by (auto simp: split_values_def split_values_step_def split: prod.splits if_splits)

lemma merge_leaf_loop_deleted: "lf_deleted (merge_leaf_loop vs d is s one two) = lf_deleted one"
  by (induction "is" arbitrary: s one) (auto simp: Let_def)

lemma insert_effect_rest: "insert_effect vs d key val l b = (r, l') \<Longrightarrow> leaf_rest l' = leaf_rest l"
  by (auto simp: insert_effect_def Let_def fold_keeps [of leaf_rest] split: if_splits)

lemma remove_effect_rest: "remove_effect vs d key l b = (r, l') \<Longrightarrow> leaf_rest l' = leaf_rest l"
  by (auto simp: remove_effect_def Let_def fold_keeps [of leaf_rest] split: if_splits)

section \<open>Splits\<close>

abbreviation live :: "nat \<Rightarrow> ptr" where "live a \<equiv> Some (a, False)"

lemma node_rep_cell:
  assumes "bn_shape d n" "node_slots d n ks (map live bs)" "fk_deleted (fency_key n) = LIVE"
    "fk_low (fency_key n) = c_low x" "fk_high (fency_key n) = c_high x" "fk_height (fency_key n) = int (c_level x)"
    "0 < c_level x" "c_keys x = ks" "c_kids x = bs"
  shows "node_rep d n x"
  using assms by (simp add: node_rep_def sn_is_deleted_def)

lemma node_rep_live: "node_rep d n x \<Longrightarrow> fk_deleted (fency_key n) = LIVE"
  by (simp add: node_rep_def sn_is_deleted_def)

lemma SNode_shape: "bn_shape d (SNode d)"
  by (simp add: bn_shape_def kshape_def SNode_def kline0_def)

lemma bn_shape_fency [simp]: "bn_shape d (n\<lparr>fency_key := f\<rparr>) = bn_shape d n"
  by (simp add: bn_shape_def)

lemma fence_getters:
  "bn_key_at (sn_set_range lo hi n) = bn_key_at n" "ptr_at (sn_set_range lo hi n) = ptr_at n"
  "bn_key_at (sn_set_level l n) = bn_key_at n" "ptr_at (sn_set_level l n) = ptr_at n"
  "bn_key_at (sn_mark_deleted n) = bn_key_at n" "ptr_at (sn_mark_deleted n) = ptr_at n"
  by (simp_all add: sn_set_range_def sn_set_level_def sn_mark_deleted_def bn_key_at_def ptr_at_def fun_eq_iff)

lemma fence_setters:
  "bn_shape d (sn_set_range lo hi n) = bn_shape d n" "bn_shape d (sn_set_level l n) = bn_shape d n"
  "node_slots d (sn_set_range lo hi n) ks ps = node_slots d n ks ps" "node_slots d (sn_set_level l n) ks ps = node_slots d n ks ps"
  by (simp_all add: bn_shape_def node_slots_def fence_getters) (simp_all add: sn_set_range_def sn_set_level_def)

lemma split_off_rep:
  assumes C: "cfg_ok c" and N: "node_rep (sc_degree c) node x" "length (c_keys x) = SIZE (sc_degree c)"
    and r: "split_off c node (live y) t = (m, node', t')"
  shows "m = c_keys x ! sc_degree c" "node_rep (sc_degree c) node' (lower_half (sc_degree c) x)"
    "\<exists>n2. t' = put_node (live y) n2 t \<and> node_rep (sc_degree c) n2 (upper_half (sc_degree c) x)"
proof -
  let ?d = "sc_degree c"
  note D = node_repD [OF N(1)] and lv = node_rep_live [OF N(1)]
  obtain k1 f1 e1 where k: "split_keys ?d bn_key_at bn_set_key True (node, SNode ?d) = (k1, f1, e1)" by (rule prod_cases3)
  obtain f2 e2 where q: "split_ptrs ?d (f1, e1) = (f2, e2)" by (rule prod.exhaust)
  note S = split_node_slots [OF D(1) SNode_shape D(2) N(2) k q]
  have F: "fency_key f2 = fency_key node" "fency_key e2 = fency_key (SNode ?d)"
    using split_keys_fency [OF k] split_ptrs_fency [OF q] by simp_all
  have d: "?d < length (c_keys x)" using N(2) by (simp add: SIZE_def)
  let ?e = "sn_set_level (sn_get_level f2) (sn_set_range k1 (fk_high (fency_key f2)) e2)"
  have e: "m = k1" "node' = sn_set_range (fk_low (fency_key f2)) k1 f2" "t' = put_node (live y) ?e t"
    using r k q cfg_okD(4) [OF C] by (auto simp: split_off_def Let_def)
  show "m = c_keys x ! ?d" using e(1) S(1) by simp
  show "node_rep ?d node' (lower_half ?d x)"
    unfolding e(2)
  proof (rule node_rep_cell [where ks = "take ?d (c_keys x)" and bs = "take (?d + 1) (c_kids x)"])
    show "node_slots ?d (sn_set_range (fk_low (fency_key f2)) k1 f2) (take ?d (c_keys x)) (map live (take (?d + 1) (c_kids x)))"
      using S(4) by (simp add: fence_setters take_map)
  qed (use S F D lv in \<open>simp_all add: fence_setters sn_set_range_def lower_half_def\<close>)
  have "node_rep ?d ?e (upper_half ?d x)"
  proof (rule node_rep_cell [where ks = "drop (?d + 1) (c_keys x)" and bs = "drop (?d + 1) (c_kids x)"])
    show "node_slots ?d ?e (drop (?d + 1) (c_keys x)) (map live (drop (?d + 1) (c_kids x)))"
      using S(5) by (simp add: fence_setters drop_map)
  qed (use S F D in \<open>simp_all add: fence_setters sn_set_range_def sn_set_level_def sn_get_level_def upper_half_def SNode_def\<close>)
  then show "\<exists>n2. t' = put_node (live y) n2 t \<and> node_rep ?d n2 (upper_half ?d x)" using e(3) by blast
qed

lemma new_parent_rep:
  assumes "m < SENTINEL"
  shows "node_rep d (new_parent_node d (int (h + 1)) m (live a) (live y)) (new_root h m a y)"
proof -
  let ?n0 = "sn_set_level (int (h + 1)) (SNode d)"
  have s0: "bn_shape d ?n0" using SNode_shape by (simp add: fence_setters)
  have i: "0 < SIZE d" "0 < SIZE d + 1" "1 < SIZE d + 1" by simp_all
  have s1: "bn_shape d (bn_set_key 0 m ?n0)" by (rule bk.shape_put [OF s0 i(1)])
  have s2: "bn_shape d (set_ptr 0 (live a) (bn_set_key 0 m ?n0))" by (rule bp.shape_put [OF s1 i(2)])
  have s3: "bn_shape d (new_parent_node d (int (h + 1)) m (live a) (live y))"
    unfolding new_parent_node_def by (rule bp.shape_put [OF s2 i(3)])
  have z: "bn_key_at ?n0 j = SENTINEL" if "j < SIZE d" for j
    using key_slot [OF that] by (simp add: bn_key_at_def sn_set_level_def SNode_def kline0_def)
  have zp: "ptr_at ?n0 j = None" if "j < SIZE d + 1" for j
    using ptr_slot [OF that] by (simp add: ptr_at_def sn_set_level_def SNode_def)
  have "node_slots d (new_parent_node d (int (h + 1)) m (live a) (live y)) [m] (map live [a, y])"
    unfolding node_slots_def key_slots_def new_parent_node_def
    using assms z zp Suc_leI [OF SIZE_pos, of d] bk.get_put [OF s0 i(1)] bp.get_put [OF s1 i(2)] bp.get_put [OF s2 i(3)] by (auto simp: nth_Cons')
  then show ?thesis
    by (rule node_rep_cell [OF s3])
      (simp_all add: new_root_def new_parent_node_def sn_set_level_def SNode_def)
qed

lemma rank_between:
  assumes "sorted_wrt (<) (bounds x)" "i \<le> length (c_keys x)" "bounds x ! i < m" "m \<le> bounds x ! (i + 1)"
  shows "rank m (c_keys x) = i"
proof -
  have ks: "sorted_wrt (<) (c_keys x)" using assms(1) by (simp add: bounds_def sorted_wrt_append)
  have b: "c_keys x ! j = bounds x ! (j + 1)" if "j < length (c_keys x)" for j
    using that by (simp add: bounds_def nth_append)
  have "\<not> rank m (c_keys x) < i"
  proof
    assume l: "rank m (c_keys x) < i"
    then have r: "rank m (c_keys x) < length (c_keys x)" using assms(2) by simp
    have "bounds x ! (rank m (c_keys x) + 1) \<le> bounds x ! i"
      using bounds_less [OF assms(1), of "rank m (c_keys x) + 1" i] l assms(2) by (cases "rank m (c_keys x) + 1 = i") auto
    with rank_above [OF ks order_refl r] b [OF r] assms(3) show False by simp
  qed
  moreover have "\<not> i < rank m (c_keys x)"
  proof
    assume l: "i < rank m (c_keys x)"
    then have "i < length (c_keys x)" using rank_le [of m "c_keys x"] by simp
    with rank_below [OF l] b [of i] assms(4) show False by simp
  qed
  ultimately show ?thesis by simp
qed

lemma into_parent_rep:
  assumes N: "node_rep d n x" and room: "length (c_keys x) < SIZE d" and m: "m \<notin> set (c_keys x)" "m < SENTINEL"
    and i: "i = rank m (c_keys x)"
  shows "node_rep d (into_parent d i m (live y) n) (open_parent i m y x)"
proof -
  note D = node_repD [OF N] and lv = node_rep_live [OF N]
  note O = node_open_slot [OF D(1,2) i room m, of "live y"]
  have "node_rep d (set_ptr (i + 1) (live y) (bn_set_key i m (shift_up d i n))) (open_parent i m y x)"
  proof (rule node_rep_cell [OF O(1)])
    show "node_slots d (set_ptr (i + 1) (live y) (bn_set_key i m (shift_up d i n))) (take i (c_keys x) @ m # drop i (c_keys x))
        (map live (take (i + 1) (c_kids x) @ y # drop (i + 1) (c_kids x)))"
      using O(2) by (simp add: take_map drop_map)
  qed (use D lv in \<open>simp_all add: shift_fency open_parent_def\<close>)
  then show ?thesis unfolding into_parent_def by (rule node_rep_increment)
qed

section \<open>Splitting a leaf\<close>

lemma SLeaf_shape: "lf_shape vs hs d (SLeaf vs hs d)"
  by (simp add: lf_shape_def kshape_def SLeaf_def kline0_def)

lemma leaf_getters:
  "lf_key_at (lf_set_range lo hi l) = lf_key_at l" "lf_key_at (set_next p l) = lf_key_at l"
  "value_at vs (lf_set_range lo hi l) = value_at vs l" "value_at vs (set_next p l) = value_at vs l"
  "lf_key_at (sl_mark_deleted x) = lf_key_at x" "value_at vs (sl_mark_deleted x) = value_at vs x"
  by (simp_all add: lf_set_range_def set_next_def sl_mark_deleted_def lf_key_at_def value_at_def fun_eq_iff)

lemma leaf_range_next:
  "lf_shape vs hs d (lf_set_range lo hi l) = lf_shape vs hs d l" "lf_shape vs hs d (set_next p l) = lf_shape vs hs d l"
  "leaf_pairs vs d (lf_set_range lo hi l) ps = leaf_pairs vs d l ps" "leaf_pairs vs d (set_next p l) ps = leaf_pairs vs d l ps"
  "lf_deleted (lf_set_range lo hi m) = lf_deleted m" "lf_deleted (set_next p m) = lf_deleted m"
  by (simp_all add: lf_shape_def leaf_pairs_def leaf_getters) (simp_all add: lf_set_range_def set_next_def)

lemma split_leaf_off_rep:
  assumes C: "cfg_ok c" and L: "leaf_rep c l x" "length (c_pairs x) = SIZE (sc_degree c)"
    and r: "split_leaf_off c l (live y) = (m, l', leaf)"
  shows "m = fst (c_pairs x ! sc_degree c)" "leaf_rep c l' (lower_leaf (sc_degree c) y x)"
    "leaf_rep c (set_next (get_next l) leaf) (upper_leaf (sc_degree c) x)"
    "c_next x = None \<Longrightarrow> leaf_rep c leaf (upper_leaf (sc_degree c) x)"
proof -
  let ?d = "sc_degree c" and ?vs = "sc_vs c"
  note D = leaf_repD [OF L(1)] and cd = cfg_okD [OF C]
  obtain k1 f1 e1 where k: "split_keys ?d lf_key_at lf_set_key False (l, SLeaf ?vs (sc_hs c) ?d) = (k1, f1, e1)"
    by (rule prod_cases3)
  obtain f2 e2 where q: "split_values ?vs ?d (f1, e1) = (f2, e2)" by (rule prod.exhaust)
  note S = split_leaf_pairs [OF cd(2,3) D(1) SLeaf_shape D(2) L(2) k q]
  have "leaf_rest f2 = leaf_rest l" "leaf_rest e2 = leaf_rest (SLeaf ?vs (sc_hs c) ?d)"
    using split_keys_rest [OF k] split_values_rest [OF q] by simp_all
  note F = leaf_restD [OF this(1)] leaf_restD [OF this(2)]
  have e: "m = k1" "l' = lf_set_range (hl_key_low (lf_last l)) k1 (set_next (live y) f2)"
    "leaf = lf_set_range k1 (hl_key_high (lf_last l)) e2"
    using r k q by (auto simp: split_leaf_off_def Let_def)
  have dead: "lf_deleted l = LIVE" using D(6) by (simp add: sl_is_deleted_def)
  show "m = fst (c_pairs x ! ?d)" using e(1) S(1) by simp
  show "leaf_rep c l' (lower_leaf ?d y x)"
    unfolding leaf_rep_def e(2) using S(1,2,4) F(4) D(3,7) dead
    by (simp add: leaf_range_next lower_leaf_def sl_is_deleted_def)
      (simp add: lf_set_range_def set_next_def get_next_def)
  show "leaf_rep c (set_next (get_next l) leaf) (upper_leaf ?d x)"
    unfolding leaf_rep_def e(3) using S(1,3,5) F(8) D(4,5,7)
    by (simp add: leaf_range_next upper_leaf_def sl_is_deleted_def SLeaf_def)
      (simp add: lf_set_range_def set_next_def get_next_def)
  show "leaf_rep c leaf (upper_leaf ?d x)" if "c_next x = None"
    unfolding leaf_rep_def e(3) using S(1,3,5) F(7,8) D(4,7) that
    by (simp add: leaf_range_next upper_leaf_def sl_is_deleted_def SLeaf_def)
      (simp add: lf_set_range_def get_next_def)
qed

section \<open>Merges\<close>

lemma merge_left_rep:
  assumes one: "node_rep d one x" and two: "node_rep d two y" and par: "node_rep d parent X"
    and i: "i < length (c_keys X)" and sep: "\<forall>u \<in> set (c_keys x). u < c_keys X ! i" "\<forall>v \<in> set (c_keys y). c_keys X ! i < v"
    and len: "length (c_keys x) + 1 + length (c_keys y) \<le> SIZE d" and hi: "c_level x = c_level y"
    and r: "s_merge_into_left_node d one i two parent = (left, right, parent')"
  shows "node_rep d left (join_inner (c_keys X ! i) x y)" "sn_is_deleted right" "node_rep d parent' (close_parent i X)"
proof -
  let ?k = "c_keys X ! i" and ?n = "length (c_keys x)"
  note D1 = node_repD [OF one] and D2 = node_repD [OF two] and DX = node_repD [OF par]
  note N1 = node_slotsD [OF D1(2)] and N2 = node_slotsD [OF D2(2)] and NX = node_slotsD [OF DX(2)]
  obtain k' p' where sd: "shift_down d i parent = (k', p')" by (rule prod.exhaust)
  note C = node_close_slot [OF DX(1,2) i sd]
  have k: "?k < SENTINEL" using NX(2) i by simp
  have fs: "free_slot (bn_key_at one) (SIZE d) 0 = ?n" using free_slot_keys [OF D1(8)] by simp
  have p0: "ptr_at two 0 = live (hd (c_kids y))" using N2(6) [of 0] rep_lengths(2) [OF two] by (cases "c_kids y") auto
  have room: "?n < SIZE d" using len by simp
  note A = node_append [OF D1(1,2) room k sep(1), of "ptr_at two 0"]
  let ?one = "set_ptr (?n + 1) (ptr_at two 0) (bn_set_key ?n ?k one)"
  let ?o = "sn_set_range (fk_low (fency_key ?one)) (fk_high (fency_key two)) ?one"
  have so: "bn_shape d ?o" using A(1) by (simp add: fence_setters)
  have hdk: "map live (c_kids x) @ [ptr_at two 0] = map live (c_kids x) @ take (0 + 1) (map live (c_kids y))"
    using p0 rep_lengths(2) [OF two] by (cases "c_kids y") auto
  have no: "node_slots d ?o ((c_keys x @ [?k]) @ take 0 (c_keys y)) (map live (c_kids x) @ take (0 + 1) (map live (c_kids y)))"
    using A(2) hdk by (simp add: fence_setters)
  have sep': "\<forall>u \<in> set (c_keys x @ [?k]). \<forall>v \<in> set (c_keys y). u < v" using sep by force
  have len': "length (c_keys x @ [?k]) + length (c_keys y) \<le> SIZE d" using len by simp
  note M = merge_node_loop_slots [OF D2(2) so no len' sep', simplified]
  have e: "left = merge_node_loop [0 ..< SIZE d] (length (c_keys x @ [?k]) + 0) ?o two" "right = sn_mark_deleted two" "parent' = p'"
    using r sd C(1) fs by (auto simp: s_merge_into_left_node_def Let_def)
  show "sn_is_deleted right" by (simp add: e(2) sn_is_deleted_def sn_mark_deleted_def LIVE_def)
  show "node_rep d left (join_inner ?k x y)"
    unfolding e(1)
  proof (rule node_rep_cell [where ks = "c_keys x @ ?k # c_keys y" and bs = "c_kids x @ c_kids y"])
    show "bn_shape d (merge_node_loop [0 ..< SIZE d] (length (c_keys x @ [?k]) + 0) ?o two)" using M by simp
    show "node_slots d (merge_node_loop [0 ..< SIZE d] (length (c_keys x @ [?k]) + 0) ?o two) (c_keys x @ ?k # c_keys y)
        (map live (c_kids x @ c_kids y))" using M by simp
  qed (use D1 D2 node_rep_live [OF one] hi in \<open>simp_all add: merge_node_loop_fency sn_set_range_def join_inner_def\<close>)
  show "node_rep d parent' (close_parent i X)"
    unfolding e(3)
  proof (rule node_rep_cell [OF C(2)])
    show "node_slots d p' (take i (c_keys X) @ drop (i + 1) (c_keys X)) (map live (take (i + 1) (c_kids X) @ drop (i + 2) (c_kids X)))"
      using C(3) by (simp add: take_map drop_map)
  qed (use DX node_rep_live [OF par] shift_fency(2) [of d i parent] sd in \<open>simp_all add: close_parent_def\<close>)
qed

lemma merge_left_leaf_rep:
  assumes C: "cfg_ok c" and one: "leaf_rep c one x" and two: "leaf_rep c two y" and par: "node_rep (sc_degree c) parent X"
    and i: "i < length (c_keys X)" and sep: "\<forall>u \<in> fst ` set (c_pairs x). \<forall>v \<in> fst ` set (c_pairs y). u < v"
    and len: "length (c_pairs x) + length (c_pairs y) \<le> SIZE (sc_degree c)"
    and r: "merge_into_left_leaf (sc_vs c) (sc_degree c) one i two parent = (left, parent')"
  shows "leaf_rep c left (join_leaf x y)" "node_rep (sc_degree c) parent' (close_parent i X)"
proof -
  let ?d = "sc_degree c"
  note D1 = leaf_repD [OF one] and D2 = leaf_repD [OF two] and DX = node_repD [OF par] and cd = cfg_okD [OF C]
  note M = merge_into_left_leaf_pairs [OF cd(2,3) D1(1,2) D2(2) len sep r]
  obtain k' p' where sd: "shift_down ?d i parent = (k', p')" by (rule prod.exhaust)
  note S = node_close_slot [OF DX(1,2) i sd]
  have "lf_deleted left = lf_deleted one"
    using r by (auto simp: merge_into_left_leaf_def Let_def merge_leaf_loop_deleted leaf_range_next)
  then show "leaf_rep c left (join_leaf x y)"
    using M(1-5) D1 D2 by (simp add: leaf_rep_def join_leaf_def sl_is_deleted_def)
  have e: "parent' = p'" using M(6) sd by simp
  show "node_rep ?d parent' (close_parent i X)"
    unfolding e
  proof (rule node_rep_cell [OF S(2)])
    show "node_slots ?d p' (take i (c_keys X) @ drop (i + 1) (c_keys X)) (map live (take (i + 1) (c_kids X) @ drop (i + 2) (c_kids X)))"
      using S(3) by (simp add: take_map drop_map)
  qed (use DX node_rep_live [OF par] shift_fency(2) [of ?d i parent] sd in \<open>simp_all add: close_parent_def\<close>)
qed

lemma marked_leaf_deleted: "sl_is_deleted (sl_mark_deleted l)"
  by (simp add: sl_is_deleted_def sl_mark_deleted_def LIVE_def)

section \<open>Effects on a leaf\<close>

text \<open>
  What the proofs use of an effect for a key: on a leaf with room its result is \<open>rv\<close> of the key's value,
  and it changes the leaf's map at the key only, as \<open>g\<close> does.
\<close>

definition effect_ok :: "scfg \<Rightarrow> int \<Rightarrow> (int option \<Rightarrow> int option) \<Rightarrow> (int option \<Rightarrow> 'r) \<Rightarrow> 'r s_effect \<Rightarrow> bool" where
  "effect_ok c key g rv eff \<longleftrightarrow> (\<forall>l x r l'. leaf_rep c l x \<longrightarrow> length (c_pairs x) < SIZE (sc_degree c) \<longrightarrow>
     eff l (rank key (map fst (c_pairs x))) = (r, l') \<longrightarrow>
     r = rv (map_of (c_pairs x) key) \<and> (\<exists>ps. leaf_rep c l' (x\<lparr>c_pairs := ps\<rparr>) \<and>
       map_of ps = (map_of (c_pairs x))(key := g (map_of (c_pairs x) key)) \<and>
       length ps \<le> length (c_pairs x) + 1 \<and> set (map fst ps) \<subseteq> insert key (set (map fst (c_pairs x)))))"

lemma effect_okD:
  assumes "effect_ok c key g rv eff" "leaf_rep c l x" "length (c_pairs x) < SIZE (sc_degree c)"
    "eff l (rank key (map fst (c_pairs x))) = (r, l')"
  obtains ps where "r = rv (map_of (c_pairs x) key)" "leaf_rep c l' (x\<lparr>c_pairs := ps\<rparr>)"
    "map_of ps = (map_of (c_pairs x))(key := g (map_of (c_pairs x) key))"
    "length ps \<le> length (c_pairs x) + 1" "set (map fst ps) \<subseteq> insert key (set (map fst (c_pairs x)))"
  using assms unfolding effect_ok_def by blast

lemma insert_effect_ok:
  assumes C: "cfg_ok c" and key: "key < SENTINEL"
  shows "effect_ok c key (\<lambda>o'. case o' of None \<Rightarrow> Some val | Some v \<Rightarrow> Some v) (\<lambda>v. v)
     (insert_effect (sc_vs c) (sc_degree c) key val)"
  unfolding effect_ok_def
proof (intro allI impI)
  fix l x r l'
  assume L: "leaf_rep c l x" and room: "length (c_pairs x) < SIZE (sc_degree c)"
    and e: "insert_effect (sc_vs c) (sc_degree c) key val l (rank key (map fst (c_pairs x))) = (r, l')"
  note D = leaf_repD [OF L] and F = leaf_restD [OF insert_effect_rest [OF e]]
  from leaf_insert_pairs [OF D(1) cfg_okD(2,3) [OF C] D(2) room key e] obtain ps
    where ps: "leaf_pairs (sc_vs c) (sc_degree c) l' ps" "map_of ps = map_insert (map_of (c_pairs x)) key val"
      "length ps \<le> length (c_pairs x) + 1" "set (map fst ps) = insert key (set (map fst (c_pairs x)))"
    and r: "r = map_of (c_pairs x) key" "lf_shape (sc_vs c) (sc_hs c) (sc_degree c) l'" by blast
  have "leaf_rep c l' (x\<lparr>c_pairs := ps\<rparr>)" using ps(1) r(2) D F by (simp add: leaf_rep_def sl_is_deleted_def)
  moreover have "map_of ps = (map_of (c_pairs x))(key := (case map_of (c_pairs x) key of None \<Rightarrow> Some val | Some v \<Rightarrow> Some v))"
    unfolding ps(2) map_insert_upd by (auto split: option.splits)
  ultimately show "r = map_of (c_pairs x) key \<and> (\<exists>ps. leaf_rep c l' (x\<lparr>c_pairs := ps\<rparr>) \<and>
       map_of ps = (map_of (c_pairs x))(key := (case map_of (c_pairs x) key of None \<Rightarrow> Some val | Some v \<Rightarrow> Some v)) \<and>
       length ps \<le> length (c_pairs x) + 1 \<and> set (map fst ps) \<subseteq> insert key (set (map fst (c_pairs x))))"
    using r(1) ps(3,4) by blast
qed

lemma remove_effect_ok:
  assumes C: "cfg_ok c" and key: "key < SENTINEL"
  shows "effect_ok c key (\<lambda>_. None) (\<lambda>v. v) (remove_effect (sc_vs c) (sc_degree c) key)"
  unfolding effect_ok_def
proof (intro allI impI)
  fix l x r l'
  assume L: "leaf_rep c l x" and room: "length (c_pairs x) < SIZE (sc_degree c)"
    and e: "remove_effect (sc_vs c) (sc_degree c) key l (rank key (map fst (c_pairs x))) = (r, l')"
  note D = leaf_repD [OF L] and F = leaf_restD [OF remove_effect_rest [OF e]]
  have b: "rank key (map fst (c_pairs x)) < SIZE (sc_degree c)" using rank_le [of key "map fst (c_pairs x)"] room by simp
  from leaf_remove_pairs [OF D(1) cfg_okD(2,3) [OF C] D(2) key b e] obtain ps
    where ps: "leaf_pairs (sc_vs c) (sc_degree c) l' ps" "map_of ps = (map_of (c_pairs x))(key := None)"
      "length ps \<le> length (c_pairs x)" "set (map fst ps) = set (map fst (c_pairs x)) - {key}"
    and r: "r = map_of (c_pairs x) key" "lf_shape (sc_vs c) (sc_hs c) (sc_degree c) l'" by blast
  have "leaf_rep c l' (x\<lparr>c_pairs := ps\<rparr>)" using ps(1) r(2) D F by (simp add: leaf_rep_def sl_is_deleted_def)
  then show "r = map_of (c_pairs x) key \<and> (\<exists>ps. leaf_rep c l' (x\<lparr>c_pairs := ps\<rparr>) \<and>
       map_of ps = (map_of (c_pairs x))(key := None) \<and>
       length ps \<le> length (c_pairs x) + 1 \<and> set (map fst ps) \<subseteq> insert key (set (map fst (c_pairs x))))"
    using r(1) ps by (intro conjI exI [of _ ps]) auto
qed

text \<open>The effect of a lookup.\<close>

lemma no_effect_ok: "effect_ok c key (\<lambda>v. v) (\<lambda>_. ()) (\<lambda>l _. ((), l))"
  unfolding effect_ok_def
proof (intro allI impI conjI)
  fix l x r l' assume "leaf_rep c l x" "((), l) = (r, l')"
  then show "\<exists>ps. leaf_rep c l' (x\<lparr>c_pairs := ps\<rparr>) \<and> map_of ps = (map_of (c_pairs x))(key := map_of (c_pairs x) key) \<and>
      length ps \<le> length (c_pairs x) + 1 \<and> set (map fst ps) \<subseteq> insert key (set (map fst (c_pairs x)))"
    by (intro exI [of _ "c_pairs x"]) (auto simp: fun_upd_idem)
qed simp

end
