(* ===== verification/ShState.thy ===== *)
theory ShState
  imports ShCells
begin

text \<open>
  The relation between the memory of the Sherman tree and the abstract tree, and that locks, reads
  and the client-side caches keep it. The caches may be stale in any way: all that is asked of
  them is that the pages they hold were nodes over leaves, and that the table points to nodes.
\<close>

declare split_paired_All [simp del] split_paired_Ex [simp del]

section \<open>The relation\<close>

definition heap_rel :: "scfg \<Rightarrow> stree \<Rightarrow> cells \<Rightarrow> bool" where
  "heap_rel c t A \<longleftrightarrow>
     (\<forall>a n. st_nodes t a = Some n \<longrightarrow> \<not> sn_is_deleted n \<longrightarrow> (\<exists>x. A a = Some x \<and> node_rep (sc_degree c) n x)) \<and>
     (\<forall>a l. st_leaves t a = Some l \<longrightarrow> \<not> sl_is_deleted l \<longrightarrow> (\<exists>x. A a = Some x \<and> leaf_rep c l x)) \<and>
     (\<forall>a x. A a = Some x \<longrightarrow> (\<exists>n. st_nodes t a = Some n \<and> node_rep (sc_degree c) n x) \<or>
        (\<exists>l. st_leaves t a = Some l \<and> leaf_rep c l x)) \<and>
     (\<forall>a. st_nodes t a = None \<or> st_leaves t a = None) \<and>
     (\<forall>a. st_fresh t \<le> a \<longrightarrow> st_nodes t a = None \<and> st_leaves t a = None)"

definition page_ok :: "scfg \<Rightarrow> (nat \<Rightarrow> sleaf option) \<Rightarrow> snode \<Rightarrow> bool" where
  "page_ok c leaves page \<longleftrightarrow> (\<exists>x. node_rep (sc_degree c) page x \<and> (\<forall>b \<in> set (c_kids x). leaves b \<noteq> None))"

definition caches_ok :: "scfg \<Rightarrow> stree \<Rightarrow> bool" where
  "caches_ok c t \<longleftrightarrow> (\<forall>a page. pages (st_index t) a = Some page \<longrightarrow> page_ok c (st_leaves t) page) \<and>
     (\<forall>e \<in> set (st_backup t). \<forall>p. e_ptr e = Some p \<longrightarrow> (\<exists>b. p = (b, False) \<and> st_nodes t b \<noteq> None))"

definition sh_ok :: "scfg \<Rightarrow> nat \<Rightarrow> nat \<Rightarrow> cells \<Rightarrow> stree \<Rightarrow> bool" where
  "sh_ok c h s A t \<longleftrightarrow> r_height (st_root t) = h \<and> r_start (st_root t) = live s \<and> tree_inv h s A \<and>
     heap_rel c t A \<and> caches_ok c t"

text \<open>The tree in memory holds the map \<open>M\<close>.\<close>

definition sh_map :: "scfg \<Rightarrow> stree \<Rightarrow> (int \<Rightarrow> int option) \<Rightarrow> bool" where
  "sh_map c t M \<longleftrightarrow> (\<exists>h s A. sh_ok c h s A t \<and> holds A M)"

lemma sh_okD:
  assumes "sh_ok c h s A t"
  shows "r_height (st_root t) = h" "r_start (st_root t) = live s" "tree_inv h s A" "heap_rel c t A" "caches_ok c t"
  using assms by (simp_all add: sh_ok_def)

section \<open>Cells in memory\<close>

lemma heap_relD:
  assumes "heap_rel c t A"
  shows "st_nodes t a = Some n \<Longrightarrow> \<not> sn_is_deleted n \<Longrightarrow> \<exists>x. A a = Some x \<and> node_rep (sc_degree c) n x"
    "st_leaves t a = Some l \<Longrightarrow> \<not> sl_is_deleted l \<Longrightarrow> \<exists>x. A a = Some x \<and> leaf_rep c l x"
    "A a = Some x \<Longrightarrow> (\<exists>n. st_nodes t a = Some n \<and> node_rep (sc_degree c) n x) \<or> (\<exists>l. st_leaves t a = Some l \<and> leaf_rep c l x)"
    "st_nodes t a = None \<or> st_leaves t a = None"
    "st_fresh t \<le> a \<Longrightarrow> st_nodes t a = None \<and> st_leaves t a = None"
proof -
  note H = assms [unfolded heap_rel_def]
  note H1 = H [THEN conjunct1] and H2 = H [THEN conjunct2, THEN conjunct1]
    and H3 = H [THEN conjunct2, THEN conjunct2, THEN conjunct1] and H4 = H [THEN conjunct2, THEN conjunct2, THEN conjunct2]
  show "st_nodes t a = Some n \<Longrightarrow> \<not> sn_is_deleted n \<Longrightarrow> \<exists>x. A a = Some x \<and> node_rep (sc_degree c) n x"
    using H1 by blast
  show "st_leaves t a = Some l \<Longrightarrow> \<not> sl_is_deleted l \<Longrightarrow> \<exists>x. A a = Some x \<and> leaf_rep c l x"
    using H2 by blast
  show "A a = Some x \<Longrightarrow> (\<exists>n. st_nodes t a = Some n \<and> node_rep (sc_degree c) n x) \<or> (\<exists>l. st_leaves t a = Some l \<and> leaf_rep c l x)"
    using H3 by (elim allE impE)
  show "st_nodes t a = None \<or> st_leaves t a = None"
    using H4 by simp
  show "st_fresh t \<le> a \<Longrightarrow> st_nodes t a = None \<and> st_leaves t a = None"
    using H4 by simp
qed

lemma node_cell:
  assumes "heap_rel c t A" "A a = Some x" "0 < c_level x"
  shows "\<exists>n. st_nodes t a = Some n \<and> node_rep (sc_degree c) n x" "st_leaves t a = None" "a < st_fresh t"
proof -
  show n: "\<exists>n. st_nodes t a = Some n \<and> node_rep (sc_degree c) n x"
    using heap_relD(3) [OF assms(1,2)] assms(3) leaf_repD(7) by fastforce
  then show "st_leaves t a = None" using heap_relD(4) [OF assms(1), of a] by auto
  show "a < st_fresh t" using n heap_relD(5) [OF assms(1), of a] by (cases "st_fresh t \<le> a") auto
qed

lemma leaf_cell:
  assumes "heap_rel c t A" "A a = Some x" "c_level x = 0"
  shows "\<exists>l. st_leaves t a = Some l \<and> leaf_rep c l x" "st_nodes t a = None" "a < st_fresh t"
proof -
  show n: "\<exists>l. st_leaves t a = Some l \<and> leaf_rep c l x"
    using heap_relD(3) [OF assms(1,2)] assms(3) node_repD(7) by fastforce
  then show "st_nodes t a = None" using heap_relD(4) [OF assms(1), of a] by auto
  show "a < st_fresh t" using n heap_relD(5) [OF assms(1), of a] by (cases "st_fresh t \<le> a") auto
qed

lemma fresh_cell: "heap_rel c t A \<Longrightarrow> st_fresh t \<le> a \<Longrightarrow> A a = None"
  using heap_relD(3) [of c t A a] heap_relD(5) [of c t A a] by (cases "A a") auto

lemma heap_rel_cong:
  "st_nodes t' = st_nodes t \<Longrightarrow> st_leaves t' = st_leaves t \<Longrightarrow> st_fresh t \<le> st_fresh t' \<Longrightarrow> heap_rel c t A \<Longrightarrow> heap_rel c t' A"
  unfolding heap_rel_def by auto

lemma put_simps [simp]:
  "st_nodes (put_node (live a) n t) = (st_nodes t)(a \<mapsto> n)" "st_leaves (put_node (live a) n t) = st_leaves t"
  "st_nodes (put_leaf (live a) l t) = st_nodes t" "st_leaves (put_leaf (live a) l t) = (st_leaves t)(a \<mapsto> l)"
  "st_root (put_node p n t) = st_root t" "st_root (put_leaf p l t) = st_root t"
  "st_fresh (put_node p n t) = st_fresh t" "st_fresh (put_leaf p l t) = st_fresh t"
  "st_index (put_node p n t) = st_index t" "st_index (put_leaf p l t) = st_index t"
  "st_backup (put_node p n t) = st_backup t" "st_backup (put_leaf p l t) = st_backup t"
  by (simp_all add: put_node_def put_leaf_def split: option.splits prod.splits)

lemma heap_rel_put_node:
  assumes H: "heap_rel c t A" and a: "a < st_fresh t" "st_leaves t a = None" and n: "node_rep (sc_degree c) n x"
  shows "heap_rel c (put_node (live a) n t) (A(a \<mapsto> x))"
  unfolding heap_rel_def
proof (intro conjI allI impI)
  note D = heap_relD [OF H]
  fix b m assume "st_nodes (put_node (live a) n t) b = Some m" "\<not> sn_is_deleted m"
  then show "\<exists>z. (A(a \<mapsto> x)) b = Some z \<and> node_rep (sc_degree c) m z" using D(1) [of b m] a n by (cases "b = a") auto
next
  note D = heap_relD [OF H]
  fix b m assume "st_leaves (put_node (live a) n t) b = Some m" "\<not> sl_is_deleted m"
  then show "\<exists>z. (A(a \<mapsto> x)) b = Some z \<and> leaf_rep c m z" using D(2) [of b m] a n by (cases "b = a") auto
next
  note D = heap_relD [OF H]
  fix b z assume "(A(a \<mapsto> x)) b = Some z"
  then show "(\<exists>m. st_nodes (put_node (live a) n t) b = Some m \<and> node_rep (sc_degree c) m z) \<or>
      (\<exists>m. st_leaves (put_node (live a) n t) b = Some m \<and> leaf_rep c m z)"
    using D(3) [of b z] a n by (cases "b = a") auto
next
  note D = heap_relD [OF H]
  fix b show "st_nodes (put_node (live a) n t) b = None \<or> st_leaves (put_node (live a) n t) b = None"
    using D(4) [of b] a by (cases "b = a") auto
next
  note D = heap_relD [OF H]
  fix b assume "st_fresh (put_node (live a) n t) \<le> b"
  then show "st_nodes (put_node (live a) n t) b = None" "st_leaves (put_node (live a) n t) b = None"
    using D(5) [of b] a by (cases "b = a"; auto)+
qed

lemma heap_rel_put_leaf:
  assumes H: "heap_rel c t A" and a: "a < st_fresh t" "st_nodes t a = None" and n: "leaf_rep c l x"
  shows "heap_rel c (put_leaf (live a) l t) (A(a \<mapsto> x))"
  unfolding heap_rel_def
proof (intro conjI allI impI)
  note D = heap_relD [OF H]
  fix b m assume "st_nodes (put_leaf (live a) l t) b = Some m" "\<not> sn_is_deleted m"
  then show "\<exists>z. (A(a \<mapsto> x)) b = Some z \<and> node_rep (sc_degree c) m z" using D(1) [of b m] a n by (cases "b = a") auto
next
  note D = heap_relD [OF H]
  fix b m assume "st_leaves (put_leaf (live a) l t) b = Some m" "\<not> sl_is_deleted m"
  then show "\<exists>z. (A(a \<mapsto> x)) b = Some z \<and> leaf_rep c m z" using D(2) [of b m] a n by (cases "b = a") auto
next
  note D = heap_relD [OF H]
  fix b z assume "(A(a \<mapsto> x)) b = Some z"
  then show "(\<exists>m. st_nodes (put_leaf (live a) l t) b = Some m \<and> node_rep (sc_degree c) m z) \<or>
      (\<exists>m. st_leaves (put_leaf (live a) l t) b = Some m \<and> leaf_rep c m z)"
    using D(3) [of b z] a n by (cases "b = a") auto
next
  note D = heap_relD [OF H]
  fix b show "st_nodes (put_leaf (live a) l t) b = None \<or> st_leaves (put_leaf (live a) l t) b = None"
    using D(4) [of b] a by (cases "b = a") auto
next
  note D = heap_relD [OF H]
  fix b assume "st_fresh (put_leaf (live a) l t) \<le> b"
  then show "st_nodes (put_leaf (live a) l t) b = None" "st_leaves (put_leaf (live a) l t) b = None"
    using D(5) [of b] a by (cases "b = a"; auto)+
qed

lemma heap_rel_kill_node:
  assumes H: "heap_rel c t A" and a: "a < st_fresh t" "st_leaves t a = None" and n: "sn_is_deleted n"
  shows "heap_rel c (put_node (live a) n t) (A(a := None))"
  unfolding heap_rel_def
proof (intro conjI allI impI)
  note D = heap_relD [OF H]
  fix b m assume "st_nodes (put_node (live a) n t) b = Some m" "\<not> sn_is_deleted m"
  then show "\<exists>z. (A(a := None)) b = Some z \<and> node_rep (sc_degree c) m z" using D(1) [of b m] a n by (cases "b = a") auto
next
  note D = heap_relD [OF H]
  fix b m assume "st_leaves (put_node (live a) n t) b = Some m" "\<not> sl_is_deleted m"
  then show "\<exists>z. (A(a := None)) b = Some z \<and> leaf_rep c m z" using D(2) [of b m] a n by (cases "b = a") auto
next
  note D = heap_relD [OF H]
  fix b z assume "(A(a := None)) b = Some z"
  then show "(\<exists>m. st_nodes (put_node (live a) n t) b = Some m \<and> node_rep (sc_degree c) m z) \<or>
      (\<exists>m. st_leaves (put_node (live a) n t) b = Some m \<and> leaf_rep c m z)"
    using D(3) [of b z] a n by (cases "b = a") auto
next
  note D = heap_relD [OF H]
  fix b show "st_nodes (put_node (live a) n t) b = None \<or> st_leaves (put_node (live a) n t) b = None"
    using D(4) [of b] a by (cases "b = a") auto
next
  note D = heap_relD [OF H]
  fix b assume "st_fresh (put_node (live a) n t) \<le> b"
  then show "st_nodes (put_node (live a) n t) b = None" "st_leaves (put_node (live a) n t) b = None"
    using D(5) [of b] a by (cases "b = a"; auto)+
qed

lemma heap_rel_kill_leaf:
  assumes H: "heap_rel c t A" and a: "a < st_fresh t" "st_nodes t a = None" and n: "sl_is_deleted l"
  shows "heap_rel c (put_leaf (live a) l t) (A(a := None))"
  unfolding heap_rel_def
proof (intro conjI allI impI)
  note D = heap_relD [OF H]
  fix b m assume "st_nodes (put_leaf (live a) l t) b = Some m" "\<not> sn_is_deleted m"
  then show "\<exists>z. (A(a := None)) b = Some z \<and> node_rep (sc_degree c) m z" using D(1) [of b m] a n by (cases "b = a") auto
next
  note D = heap_relD [OF H]
  fix b m assume "st_leaves (put_leaf (live a) l t) b = Some m" "\<not> sl_is_deleted m"
  then show "\<exists>z. (A(a := None)) b = Some z \<and> leaf_rep c m z" using D(2) [of b m] a n by (cases "b = a") auto
next
  note D = heap_relD [OF H]
  fix b z assume "(A(a := None)) b = Some z"
  then show "(\<exists>m. st_nodes (put_leaf (live a) l t) b = Some m \<and> node_rep (sc_degree c) m z) \<or>
      (\<exists>m. st_leaves (put_leaf (live a) l t) b = Some m \<and> leaf_rep c m z)"
    using D(3) [of b z] a n by (cases "b = a") auto
next
  note D = heap_relD [OF H]
  fix b show "st_nodes (put_leaf (live a) l t) b = None \<or> st_leaves (put_leaf (live a) l t) b = None"
    using D(4) [of b] a by (cases "b = a") auto
next
  note D = heap_relD [OF H]
  fix b assume "st_fresh (put_leaf (live a) l t) \<le> b"
  then show "st_nodes (put_leaf (live a) l t) b = None" "st_leaves (put_leaf (live a) l t) b = None"
    using D(5) [of b] a by (cases "b = a"; auto)+
qed

lemma heap_rel_same_node:
  assumes H: "heap_rel c t A" and "A a = Some x" and n: "node_rep (sc_degree c) n x"
  shows "heap_rel c (put_node (live a) n t) A"
  using heap_rel_put_node [OF H node_cell(3,2) [OF H assms(2)] n] node_repD(7) [OF n] assms(2)
  by (simp add: fun_upd_idem)

lemma heap_rel_same_leaf:
  assumes H: "heap_rel c t A" and "A a = Some x" and l: "leaf_rep c l x"
  shows "heap_rel c (put_leaf (live a) l t) A"
  using heap_rel_put_leaf [OF H leaf_cell(3,2) [OF H assms(2)] l] leaf_repD(7) [OF l] assms(2)
  by (simp add: fun_upd_idem)

lemma page_ok_mono: "page_ok c L page \<Longrightarrow> (\<And>b. L b \<noteq> None \<Longrightarrow> L' b \<noteq> None) \<Longrightarrow> page_ok c L' page"
  unfolding page_ok_def by blast

lemma caches_ok_mono:
  assumes "caches_ok c t" "st_index t' = st_index t" "st_backup t' = st_backup t"
    "\<And>b. st_nodes t b \<noteq> None \<Longrightarrow> st_nodes t' b \<noteq> None" "\<And>b. st_leaves t b \<noteq> None \<Longrightarrow> st_leaves t' b \<noteq> None"
  shows "caches_ok c t'"
  unfolding caches_ok_def
proof (intro conjI allI impI ballI)
  fix a page assume "pages (st_index t') a = Some page"
  then have "page_ok c (st_leaves t) page" using assms(1,2) by (simp add: caches_ok_def)
  then show "page_ok c (st_leaves t') page" by (rule page_ok_mono) (rule assms(5))
next
  fix e p assume "e \<in> set (st_backup t')" "e_ptr e = Some p"
  moreover have "\<forall>e \<in> set (st_backup t). \<forall>p. e_ptr e = Some p \<longrightarrow> (\<exists>b. p = (b, False) \<and> st_nodes t b \<noteq> None)"
    using assms(1) unfolding caches_ok_def by (rule conjunct2)
  ultimately obtain b where "p = (b, False)" "st_nodes t b \<noteq> None" unfolding assms(3) by blast
  then show "\<exists>b. p = (b, False) \<and> st_nodes t' b \<noteq> None" using assms(4) by blast
qed

section \<open>Results\<close>

text \<open>
  The errors that say nothing about the tree: it may stay locked, a lock may be lost too often,
  the fuel may run out, and the index may fail. A result is one of these or satisfies \<open>P\<close>; above
  all no null pointer is followed, no index is out of bounds and no assertion fails.
\<close>

definition benign :: "bt_error \<Rightarrow> bool" where
  "benign e \<longleftrightarrow> e \<in> {Spins, Too_many_retries, Out_of_fuel, Index_failed}"

definition ends :: "('a \<Rightarrow> bool) \<Rightarrow> bt_error + 'a \<Rightarrow> bool" where
  "ends P r = (case r of Inl e \<Rightarrow> benign e | Inr x \<Rightarrow> P x)"

lemma ends_simps [simp]: "ends P (Inl e) = benign e" "ends P (Inr x) = P x"
  by (simp_all add: ends_def)

lemma benign_simps [simp]: "benign Spins" "benign Too_many_retries" "benign Out_of_fuel" "benign Index_failed"
  by (simp_all add: benign_def)

lemma ends_then: "ends P x \<Longrightarrow> (\<And>y. P y \<Longrightarrow> ends Q (f y)) \<Longrightarrow> ends Q (then_do x f)"
  by (cases x) simp_all

lemma ends_mono: "ends P x \<Longrightarrow> (\<And>y. P y \<Longrightarrow> Q y) \<Longrightarrow> ends Q x"
  by (cases x) simp_all

section \<open>Reads\<close>

lemma read_node_any:
  assumes "st_nodes t a = Some n"
  shows "ends (\<lambda>m. m = n) (s_read_node c (live a) b t)"
  using assms by (auto simp: s_read_node_def s_reliable_read_def deref_def Let_def)

lemma read_leaf_any:
  assumes "st_leaves t a = Some n"
  shows "ends (\<lambda>m. m = n) (s_read_leaf c (live a) b t)"
  using assms by (auto simp: s_read_leaf_def s_reliable_read_def deref_def Let_def)

lemma read_node_cell:
  assumes "heap_rel c t A" "A a = Some x" "0 < c_level x"
  shows "ends (\<lambda>n. node_rep (sc_degree c) n x \<and> st_nodes t a = Some n) (s_read_node c (live a) b t)"
proof -
  obtain n where n: "st_nodes t a = Some n" "node_rep (sc_degree c) n x" using node_cell(1) [OF assms] by blast
  show ?thesis by (rule ends_mono [OF read_node_any [OF n(1)]]) (use n in simp)
qed

lemma read_leaf_cell:
  assumes "heap_rel c t A" "A a = Some x" "c_level x = 0"
  shows "ends (\<lambda>l. leaf_rep c l x \<and> st_leaves t a = Some l) (s_read_leaf c (live a) b t)"
proof -
  obtain l where l: "st_leaves t a = Some l" "leaf_rep c l x" using leaf_cell(1) [OF assms] by blast
  show ?thesis by (rule ends_mono [OF read_leaf_any [OF l(1)]]) (use l in simp)
qed

section \<open>Locks\<close>

text \<open>Taking or releasing a lock changes a version at most.\<close>

definition keeps :: "scfg \<Rightarrow> stree \<Rightarrow> stree \<Rightarrow> bool" where
  "keeps c t t' \<longleftrightarrow> (\<forall>A. heap_rel c t A \<longrightarrow> heap_rel c t' A) \<and> (caches_ok c t \<longrightarrow> caches_ok c t') \<and>
     r_height (st_root t') = r_height (st_root t) \<and> r_start (st_root t') = r_start (st_root t)"

lemma keepsD:
  assumes "keeps c t t'"
  shows "heap_rel c t A \<Longrightarrow> heap_rel c t' A" "sh_ok c h s A t \<Longrightarrow> sh_ok c h s A t'" "caches_ok c t \<Longrightarrow> caches_ok c t'"
    "r_height (st_root t') = r_height (st_root t)" "r_start (st_root t') = r_start (st_root t)"
  using assms by (auto simp: keeps_def sh_ok_def)

lemma keeps_refl [simp]: "keeps c t t"
  by (simp add: keeps_def)

lemma keeps_trans: "keeps c t t' \<Longrightarrow> keeps c t' t'' \<Longrightarrow> keeps c t t''"
  by (auto simp: keeps_def)

lemma keeps_other:
  "st_nodes t' = st_nodes t \<Longrightarrow> st_leaves t' = st_leaves t \<Longrightarrow> st_fresh t \<le> st_fresh t' \<Longrightarrow> st_index t' = st_index t \<Longrightarrow>
   st_backup t' = st_backup t \<Longrightarrow> r_height (st_root t') = r_height (st_root t) \<Longrightarrow> r_start (st_root t') = r_start (st_root t) \<Longrightarrow>
   keeps c t t'"
  by (auto simp: keeps_def intro: heap_rel_cong caches_ok_mono)

text \<open>Writing back a node with other versions.\<close>

lemma heap_rel_relock_node:
  assumes H: "heap_rel c t A" and n: "st_nodes t a = Some n" and same: "\<And>x. node_rep (sc_degree c) n x \<Longrightarrow> node_rep (sc_degree c) n' x"
    and del: "sn_is_deleted n' = sn_is_deleted n"
  shows "heap_rel c (put_node (live a) n' t) A"
proof -
  note D = heap_relD [OF H]
  have a: "a < st_fresh t" "st_leaves t a = None" using D(4,5) [of a] n by (auto simp: not_le [symmetric])
  show ?thesis
  proof (cases "sn_is_deleted n")
    case True
    have "A a = None"
    proof (rule ccontr)
      assume "A a \<noteq> None"
      then obtain x where x: "A a = Some x" by blast
      from D(3) [OF x] n a True node_repD(6) show False by auto
    qed
    then have "A(a := None) = A" by (simp add: fun_upd_idem)
    with heap_rel_kill_node [OF H a, of n'] True del show ?thesis by simp
  next
    case False
    then obtain x where x: "A a = Some x" "node_rep (sc_degree c) n x" using D(1) n by blast
    show ?thesis by (rule heap_rel_same_node [OF H x(1) same [OF x(2)]])
  qed
qed

lemma heap_rel_relock_leaf:
  assumes H: "heap_rel c t A" and n: "st_leaves t a = Some n" and same: "\<And>x. leaf_rep c n x \<Longrightarrow> leaf_rep c n' x"
    and del: "sl_is_deleted n' = sl_is_deleted n"
  shows "heap_rel c (put_leaf (live a) n' t) A"
proof -
  note D = heap_relD [OF H]
  have a: "a < st_fresh t" "st_nodes t a = None" using D(4,5) [of a] n by (auto simp: not_le [symmetric])
  show ?thesis
  proof (cases "sl_is_deleted n")
    case True
    have "A a = None"
    proof (rule ccontr)
      assume "A a \<noteq> None"
      then obtain x where x: "A a = Some x" by blast
      from D(3) [OF x] n a True leaf_repD(6) show False by auto
    qed
    then have "A(a := None) = A" by (simp add: fun_upd_idem)
    with heap_rel_kill_leaf [OF H a, of n'] True del show ?thesis by simp
  next
    case False
    then obtain x where x: "A a = Some x" "leaf_rep c n x" using D(2) n by blast
    show ?thesis by (rule heap_rel_same_leaf [OF H x(1) same [OF x(2)]])
  qed
qed

lemma keeps_put_node: "(\<And>A. heap_rel c t A \<Longrightarrow> heap_rel c (put_node (live a) n t) A) \<Longrightarrow> keeps c t (put_node (live a) n t)"
  by (auto simp: keeps_def intro: caches_ok_mono)

lemma keeps_put_leaf: "(\<And>A. heap_rel c t A \<Longrightarrow> heap_rel c (put_leaf (live a) n t) A) \<Longrightarrow> keeps c t (put_leaf (live a) n t)"
  by (auto simp: keeps_def intro: caches_ok_mono)

lemma keeps_lock_node:
  assumes "st_nodes t a = Some n"
  shows "keeps c t (put_node (live a) (n\<lparr>bn_keys := set_first_version v (bn_keys n)\<rparr>) t)"
  by (rule keeps_put_node, rule heap_rel_relock_node [OF _ assms])
    (simp_all add: node_rep_lock sn_is_deleted_def)

lemma keeps_lock_leaf:
  assumes "st_leaves t a = Some n"
  shows "keeps c t (put_leaf (live a) (n\<lparr>lf_keys := set_first_version v (lf_keys n)\<rparr>) t)"
  by (rule keeps_put_leaf, rule heap_rel_relock_leaf [OF _ assms])
    (simp_all add: leaf_rep_lock sl_is_deleted_def)

lemma cas_lost_keeps: "s_cas_lost t = (b, t') \<Longrightarrow> keeps c t t'"
  by (auto simp: s_cas_lost_def split: list.splits intro!: keeps_other)

lemma cas_lost_heap:
  "s_cas_lost t = (b, t') \<Longrightarrow> st_nodes t' = st_nodes t \<and> st_leaves t' = st_leaves t \<and> st_root t' = st_root t \<and> st_fresh t' = st_fresh t"
  by (auto simp: s_cas_lost_def split: list.splits)

lemma acquire_root_keeps:
  assumes "s_acquire_root v t = (b, t')"
  shows "keeps c t t'" "st_nodes t' = st_nodes t" "st_leaves t' = st_leaves t" "st_fresh t' = st_fresh t"
proof -
  obtain l t1 where l: "s_cas_lost t = (l, t1)" by (rule prod.exhaust)
  note K = cas_lost_keeps [OF l, of c] and H = cas_lost_heap [OF l]
  have "keeps c t1 t'" using assms l by (auto simp: s_acquire_root_def split: if_splits intro!: keeps_other)
  then show "keeps c t t'" by (rule keeps_trans [OF K])
  show "st_nodes t' = st_nodes t" "st_leaves t' = st_leaves t" "st_fresh t' = st_fresh t"
    using assms l H by (auto simp: s_acquire_root_def split: if_splits)
qed

lemma acquire_node_keeps:
  assumes "s_acquire_node (live a) v t = (b, t')"
  shows "keeps c t t'"
proof -
  obtain l t1 where l: "s_cas_lost t = (l, t1)" by (rule prod.exhaust)
  note K = cas_lost_keeps [OF l, of c]
  have "keeps c t1 t'" using assms l
    by (auto simp: s_acquire_node_def deref_def split: if_splits option.splits sum.splits intro!: keeps_lock_node)
  then show ?thesis by (rule keeps_trans [OF K])
qed

lemma acquire_leaf_keeps:
  assumes "s_acquire_leaf (live a) v t = (b, t')"
  shows "keeps c t t'"
proof -
  obtain l t1 where l: "s_cas_lost t = (l, t1)" by (rule prod.exhaust)
  note K = cas_lost_keeps [OF l, of c]
  have "keeps c t1 t'" using assms l
    by (auto simp: s_acquire_leaf_def deref_def split: if_splits option.splits sum.splits intro!: keeps_lock_leaf)
  then show ?thesis by (rule keeps_trans [OF K])
qed

text \<open>Steps of a proof that an operation ends well, whatever the locks give.\<close>

lemma ends_if: "(b \<Longrightarrow> ends Q x) \<Longrightarrow> (\<not> b \<Longrightarrow> ends Q y) \<Longrightarrow> ends Q (if b then x else y)"
  by simp

lemma acquire_node_case:
  "(\<And>b t'. keeps c t t' \<Longrightarrow> ends Q (f b t')) \<Longrightarrow> ends Q (case s_acquire_node (live a) v t of (b, t') \<Rightarrow> f b t')"
  by (cases "s_acquire_node (live a) v t") (simp add: acquire_node_keeps)

lemma acquire_leaf_case:
  "(\<And>b t'. keeps c t t' \<Longrightarrow> ends Q (f b t')) \<Longrightarrow> ends Q (case s_acquire_leaf (live a) v t of (b, t') \<Rightarrow> f b t')"
  by (cases "s_acquire_leaf (live a) v t") (simp add: acquire_leaf_keeps)

lemma acquire_root_case:
  "(\<And>b t'. keeps c t t' \<Longrightarrow> ends Q (f b t')) \<Longrightarrow> ends Q (case s_acquire_root v t of (b, t') \<Rightarrow> f b t')"
  by (cases "s_acquire_root v t") (simp add: acquire_root_keeps)

lemma release_keeps:
  "keeps c t (s_release_root v t)" "keeps c t (s_release_node (live a) v t)" "keeps c t (s_release_leaf (live a) v t)"
  by (auto simp: s_release_root_def s_release_node_def s_release_leaf_def deref_def split: option.splits sum.splits
      intro!: keeps_other keeps_lock_node keeps_lock_leaf)

lemma deallocate_keeps: "keeps c t (s_deallocate p t)"
  by (auto simp: s_deallocate_def split: option.splits intro!: keeps_other)

lemma allocate_keeps:
  assumes "s_allocate t = (p, t')"
  shows "p = live (st_fresh t)" "keeps c t t'" "st_fresh t' = st_fresh t + 1" "st_nodes t' = st_nodes t" "st_leaves t' = st_leaves t"
  using assms by (auto simp: s_allocate_def intro!: keeps_other)

section \<open>The caches\<close>

lemma find_entry_pages: "find_entry fuel k ic = Inr (r, ic') \<Longrightarrow> pages ic' = pages ic"
  by (auto simp: find_entry_def split: sum.splits prod.splits)

lemma remove_range_pages: "remove_range fuel lo hi ic = Inr (r, ic') \<Longrightarrow> pages ic' = pages ic"
  by (auto simp: remove_range_def split: sum.splits prod.splits option.splits if_splits)

lemma random_entry_pages: "get_a_random_entry fuel ks ic = Inr (p, f, ks', ic') \<Longrightarrow> pages ic' = pages ic"
proof (induction ks arbitrary: ic)
  case Nil
  then show ?case by simp
next
  case (Cons k ks)
  show ?case
  proof (cases "find_entry fuel (k mod (1000 * 1024 * 1024)) ic")
    case (Inl e)
    with Cons.prems show ?thesis by simp
  next
    case (Inr x)
    obtain r ic1 where x: "x = (r, ic1)" by (rule prod.exhaust)
    have "pages ic1 = pages ic" using find_entry_pages Inr x by blast
    with Cons.prems Cons.IH [of ic1] Inr x show ?thesis by (auto split: option.splits if_splits)
  qed
qed

lemma evict_one_pages: "evict_one po fuel ks ic = Inr ic' \<Longrightarrow> pages ic' = pages ic"
  by (auto simp: evict_one_def invalidate_page_def split: sum.splits prod.splits option.splits
      dest!: random_entry_pages remove_range_pages)

lemma add_to_cache_pages:
  assumes "add_to_cache po fuel ks page ic = Inr (r, ic')"
  shows "pages ic' = (pages ic)(page_fresh ic \<mapsto> page)"
proof -
  have a: "pages ic2 = pages ic1" if "add_entry f u v d ic1 = Inr (b, ic2)" for f u v d ic1 b ic2
    using that by (auto simp: add_entry_def split: sum.splits prod.splits)
  show ?thesis using assms
    by (auto simp: add_to_cache_def Let_def split: sum.splits prod.splits bool.splits if_splits
        dest!: a evict_one_pages)
qed

lemma search_from_cache_page:
  assumes "search_from_cache po d fuel k ic = Inr (r, ic')"
  shows "pages ic' = pages ic"
    "r = Some p \<Longrightarrow> \<exists>a page. pages ic a = Some page \<and> p = page_child po d page k"
proof -
  show "pages ic' = pages ic" using assms
    by (auto simp: search_from_cache_def split: sum.splits prod.splits option.splits if_splits dest!: find_entry_pages)
  show "\<exists>a page. pages ic a = Some page \<and> p = page_child po d page k" if "r = Some p"
    using assms that
    by (simp add: search_from_cache_def split: sum.splits prod.splits option.splits if_splits)
      (metis find_entry_pages)
qed

text \<open>The child a page has for a key is that of the descent.\<close>

lemma page_child_read_level: "page_child snode_ops d n k = read_level d n (search_ref d (bn_key_at n) k)"
proof -
  have e: "2 * d + 1 = SIZE d" by (simp add: SIZE_def)
  show ?thesis unfolding page_child_def search_ref_def read_level_def e snode_ops_def
    by (simp split: option.split)
qed

lemma page_child_ptr:
  assumes "node_rep d n x" "k < SENTINEL"
  shows "page_child snode_ops d n k = live (c_kids x ! rank k (c_keys x))" "rank k (c_keys x) < length (c_kids x)"
proof -
  show "page_child snode_ops d n k = live (c_kids x ! rank k (c_keys x))"
    using child_ptr [OF assms] search_node_spec [OF node_repD(8) [OF assms(1)] assms(2)]
    by (simp add: page_child_read_level)
  show "rank k (c_keys x) < length (c_kids x)" using rank_le [of k "c_keys x"] rep_lengths(2) [OF assms(1)] by simp
qed

text \<open>Operations on the caches leave the tree in memory alone.\<close>

definition same_heap :: "stree \<Rightarrow> stree \<Rightarrow> bool" where
  "same_heap t t' \<longleftrightarrow> st_nodes t' = st_nodes t \<and> st_leaves t' = st_leaves t \<and> st_fresh t' = st_fresh t \<and> st_root t' = st_root t"

lemma same_heap_ok:
  assumes "same_heap t t'" "caches_ok c t'" "sh_ok c h s A t"
  shows "sh_ok c h s A t'"
  using assms heap_rel_cong [of t' t] by (auto simp: same_heap_def sh_ok_def)

lemma caches_ok_index:
  assumes "caches_ok c t" "st_leaves t' = st_leaves t" "st_nodes t' = st_nodes t" "st_backup t' = st_backup t"
    "\<And>a page. pages (st_index t') a = Some page \<Longrightarrow> page_ok c (st_leaves t) page"
  shows "caches_ok c t'"
  using assms unfolding caches_ok_def by simp

lemma ix_search_ok:
  assumes C: "caches_ok c t" and k: "key < SENTINEL"
  shows "ends (\<lambda>(r, t'). same_heap t t' \<and> caches_ok c t' \<and> (\<forall>p. r = Some p \<longrightarrow> (\<exists>a. p = live a \<and> st_leaves t a \<noteq> None)))
     (ix_search c key t)"
proof (cases "search_from_cache snode_ops (sc_degree c) (sc_fuel c) key (st_index t)")
  case (Inl e)
  then show ?thesis by (simp add: ix_search_def with_index_def)
next
  case (Inr x)
  obtain r ic where x: "x = (r, ic)" by (rule prod.exhaust)
  note S = search_from_cache_page [OF Inr [unfolded x]]
  have "\<exists>a. p = live a \<and> st_leaves t a \<noteq> None" if p: "r = Some p" for p
  proof -
    obtain a page where a: "pages (st_index t) a = Some page" "p = page_child snode_ops (sc_degree c) page key"
      using S(2) [OF p] by blast
    then obtain y where y: "node_rep (sc_degree c) page y" "\<forall>b \<in> set (c_kids y). st_leaves t b \<noteq> None"
      using C unfolding caches_ok_def page_ok_def by blast
    from page_child_ptr [OF y(1) k] y(2) a(2) show ?thesis by auto
  qed
  moreover have "caches_ok c (t\<lparr>st_index := ic\<rparr>)"
    by (rule caches_ok_index [OF C]) (use C S(1) in \<open>auto simp: caches_ok_def\<close>)
  ultimately show ?thesis using Inr x by (simp add: ix_search_def with_index_def same_heap_def)
qed

lemma ix_invalidate_ok:
  assumes C: "caches_ok c t"
  shows "ends (\<lambda>(r, t'). same_heap t t' \<and> caches_ok c t') (ix_invalidate c key t)"
proof (cases "invalidate_key (sc_fuel c) key (st_index t)")
  case (Inl e)
  then show ?thesis by (simp add: ix_invalidate_def with_index_def)
next
  case (Inr x)
  obtain r ic where x: "x = (r, ic)" by (rule prod.exhaust)
  have "pages ic = pages (st_index t)" using Inr x remove_range_pages unfolding invalidate_key_def by blast
  then have "caches_ok c (t\<lparr>st_index := ic\<rparr>)"
    by (intro caches_ok_index [OF C]) (use C in \<open>auto simp: caches_ok_def\<close>)
  then show ?thesis using Inr x by (simp add: ix_invalidate_def with_index_def same_heap_def)
qed

lemma ix_add_ok:
  assumes C: "caches_ok c t" and p: "page_ok c (st_leaves t) page"
  shows "ends (\<lambda>(r, t'). same_heap t t' \<and> caches_ok c t') (ix_add c page t)"
proof -
  obtain ks rest where d: "(case st_draws t of [] \<Rightarrow> ([], []) | ks # rest \<Rightarrow> (ks, rest)) = (ks, rest)" by (rule prod.exhaust)
  show ?thesis
  proof (cases "add_to_cache snode_ops (sc_fuel c) ks page (st_index t)")
    case (Inl e)
    then show ?thesis using d by (simp add: ix_add_def with_index_def)
  next
    case (Inr x)
    obtain r ic where x: "x = (r, ic)" by (rule prod.exhaust)
    note P = add_to_cache_pages [OF Inr [unfolded x]]
    have "caches_ok c (t\<lparr>st_draws := rest, st_index := ic\<rparr>)"
      by (rule caches_ok_index [OF C]) (use C P p in \<open>auto simp: caches_ok_def split: if_splits\<close>)
    then show ?thesis using Inr x d by (simp add: ix_add_def with_index_def same_heap_def)
  qed
qed

lemma root_invalidate_ok: "caches_ok c t \<Longrightarrow> caches_ok c (t\<lparr>st_backup := root_invalidate key (st_backup t)\<rparr>)"
  by (auto simp: caches_ok_def root_invalidate_def split: if_splits)

lemma put_into_cache_set:
  "set (snd (put_into_cache lo hi p es)) \<subseteq> insert \<lparr>present = True, e_ptr = p, e_low = lo, e_high = hi\<rparr> (set es)"
  by (induction es) (auto split: prod.splits)

lemma note_root_child_ok:
  assumes C: "caches_ok c t" and a: "st_nodes t a \<noteq> None"
  shows "caches_ok c (note_root_child jr (live a) n t)" "same_heap t (note_root_child jr (live a) n t)"
proof -
  let ?t = "note_root_child jr (live a) n t"
  show S: "same_heap t ?t" by (simp add: note_root_child_def same_heap_def)
  have "\<exists>b. p = (b, False) \<and> st_nodes t b \<noteq> None" if e: "e \<in> set (st_backup ?t)" "e_ptr e = Some p" for e p
  proof (cases "e \<in> set (st_backup t)")
    case True
    with C e(2) show ?thesis unfolding caches_ok_def by blast
  next
    case False
    then have "e_ptr e = live a"
      using e(1) put_into_cache_set [of "fk_low (fency_key n)" "fk_high (fency_key n)" "live a" "st_backup t"]
      by (auto simp: note_root_child_def split: if_splits)
    with e(2) have "p = (a, False)" by simp
    with a show ?thesis by blast
  qed
  moreover have "st_index ?t = st_index t" "st_leaves ?t = st_leaves t" "st_nodes ?t = st_nodes t"
    by (simp_all add: note_root_child_def)
  ultimately show "caches_ok c ?t" using C unfolding caches_ok_def by auto
qed

end
