(* ===== verification/ShSplit.thy ===== *)
theory ShSplit
  imports ShState
begin

text \<open>
  The steps of the Sherman tree that change its shape are those of the abstract tree: each keeps
  the relation with a tree that holds the same map. Splits of inner nodes and leaves, at the root and
  below it, the lowering of the root, and merges.
\<close>

declare split_paired_All [simp del] split_paired_Ex [simp del]

section \<open>Parts of the state\<close>

lemma heap_rel_root [simp]: "heap_rel c (t\<lparr>st_root := r\<rparr>) A = heap_rel c t A"
  by (simp add: heap_rel_def)

lemma caches_root [simp]: "caches_ok c (t\<lparr>st_root := r\<rparr>) = caches_ok c t"
  by (simp add: caches_ok_def)

lemma caches_fresh [simp]: "caches_ok c (t\<lparr>st_fresh := m\<rparr>) = caches_ok c t"
  by (simp add: caches_ok_def)

lemma heap_rel_fresh: "heap_rel c t A \<Longrightarrow> st_fresh t \<le> m \<Longrightarrow> heap_rel c (t\<lparr>st_fresh := m\<rparr>) A"
  by (rule heap_rel_cong [of _ t]) simp_all

lemma caches_put: "caches_ok c t \<Longrightarrow> caches_ok c (put_node (live a) n t)" "caches_ok c t \<Longrightarrow> caches_ok c (put_leaf (live a) l t)"
  by (rule caches_ok_mono; auto)+

lemma put_root: "(put_node p n t)\<lparr>st_root := r\<rparr> = put_node p n (t\<lparr>st_root := r\<rparr>)"
  by (simp add: put_node_def split: option.splits prod.splits)

lemma fresh_none:
  assumes "heap_rel c t A" "st_fresh t \<le> a"
  shows "A a = None" "st_nodes t a = None" "st_leaves t a = None"
  using fresh_cell [OF assms] heap_relD(5) [OF assms] by simp_all

lemma sh_mapI: "sh_ok c h s A t \<Longrightarrow> holds A M \<Longrightarrow> sh_map c t M"
  unfolding sh_map_def by blast

section \<open>Splits at the root\<close>

lemma root_leaf_next:
  assumes "tree_inv 0 s A" "A s = Some x"
  shows "c_next x = None" "c_level x = 0"
proof -
  note T = tree_invD [OF assms(1)]
  have r: "c_level x = 0" "c_high x = SENTINEL" using ranges_Some [of A s, OF assms(2)] T(4) by (simp_all add: range_of_def)
  then show "c_level x = 0" by simp
  show "c_next x = None"
  proof (cases "c_next x")
    case (Some b)
    then obtain h' where "ranges A b = Some (0, SENTINEL, h')"
      using cell_ok_leaf [OF T(1) [OF assms(2)] r(1)] r(2) by (auto simp: leaf_ok_def)
    then obtain y where y: "A b = Some y" "c_low y = SENTINEL" by (auto elim: ranges_SomeE)
    with cell_low_high [OF T(1) [OF y(1)]] T(6) [OF y(1)] show ?thesis by simp
  qed
qed

lemma split_root_leaf_ok:
  assumes C: "cfg_ok c" and S: "sh_ok c 0 s A t" and H: "holds A M" and x: "A s = Some x"
    and L: "leaf_rep c l x" "length (c_pairs x) = SIZE (sc_degree c)" and rt: "r_height rt = 0"
  shows "sh_map c (s_split_root_leaf c rt (live s) l t) M"
proof -
  note O = sh_okD [OF S] and N = root_leaf_next [OF sh_okD(3) [OF S] x]
  let ?d = "sc_degree c" and ?z = "st_fresh t" and ?y = "st_fresh t + 1"
  let ?t0 = "t\<lparr>st_fresh := st_fresh t + 1 + 1\<rparr>"
  obtain m l' leaf where r: "split_leaf_off c l (live ?y) = (m, l', leaf)" by (rule prod_cases3)
  note P = split_leaf_off_rep [OF C L r]
  have d: "?d + 1 < length (c_pairs x)" using L(2) cfg_okD(1) [OF C] by (simp add: SIZE_def)
  have m: "m < SENTINEL"
    using leaf_halves(2) [OF cell_ok_leaf [OF tree_invD(1) [OF O(3) x] N(2)] d] P(1) tree_invD(6) [OF O(3) x] by simp
  note F = fresh_none [OF O(4)]
  have sy: "s \<noteq> ?y" "s \<noteq> ?z" using F(1) [of ?y] F(1) [of ?z] x by auto
  have H0: "heap_rel c ?t0 A" by (rule heap_rel_fresh [OF O(4)]) simp
  have H1: "heap_rel c (put_leaf (live ?y) leaf ?t0) (A(?y \<mapsto> upper_leaf ?d x))"
    by (rule heap_rel_put_leaf [OF H0]) (use F P(4) N in simp_all)
  have H2: "heap_rel c (put_node (live ?z) (new_parent_node ?d (int (0 + 1)) m (live s) (live ?y)) (put_leaf (live ?y) leaf ?t0))
      (A(?y \<mapsto> upper_leaf ?d x, ?z \<mapsto> new_root 0 m s ?y))" (is "heap_rel c ?t2 ?A2")
    by (rule heap_rel_put_node [OF H1 _ _ new_parent_rep [OF m]]) (use F in simp_all)
  have H3: "heap_rel c (put_leaf (live s) (lf_increment_version l') ?t2) (?A2(s \<mapsto> lower_leaf ?d ?y x))"
    by (rule heap_rel_put_leaf [OF H2]) (use leaf_cell [OF O(4) x N(2)] sy leaf_rep_increment [OF P(2)] in simp_all)
  let ?A = "A(s \<mapsto> lower_leaf ?d ?y x, ?y \<mapsto> upper_leaf ?d x, ?z \<mapsto> new_root 0 m s ?y)"
  have A: "?A2(s \<mapsto> lower_leaf ?d ?y x) = ?A" using sy by (auto simp: fun_eq_iff)
  have I: "tree_inv 1 ?z ?A"
    unfolding P(1) by (rule split_leaf_root [OF O(3) x d]) (use F in simp_all)
  have M: "holds ?A M"
    by (rule holds_split [OF H O(3) x N(2) d]) (simp add: new_root_def)
  have t': "s_split_root_leaf c rt (live s) l t =
      put_leaf (live s) (lf_increment_version l') (?t2\<lparr>st_root := root_increment_version (set_start_and_inc (live ?z) rt)\<rparr>)"
    using r rt by (simp add: s_split_root_leaf_def s_allocate_def set_start_and_inc_def)
  have "heap_rel c (s_split_root_leaf c rt (live s) l t) ?A"
    using H3 unfolding t' A [symmetric] by (rule heap_rel_cong [rotated 3]) simp_all
  moreover have "caches_ok c (s_split_root_leaf c rt (live s) l t)"
    unfolding t' by (intro caches_put) (simp add: caches_put O(5))
  ultimately have "sh_ok c 1 ?z ?A (s_split_root_leaf c rt (live s) l t)"
    using I rt by (simp add: sh_ok_def t' root_increment_version_def set_start_and_inc_def)
  then show ?thesis by (rule sh_mapI [OF _ M])
qed

lemma split_root_node_ok:
  assumes C: "cfg_ok c" and S: "sh_ok c h s A t" and H: "holds A M" and x: "A s = Some x"
    and L: "node_rep (sc_degree c) n x" "length (c_keys x) = SIZE (sc_degree c)" and rt: "r_height rt = h"
  shows "sh_map c (s_split_root_node c rt (live s) n t) M"
proof -
  note O = sh_okD [OF S]
  let ?d = "sc_degree c" and ?z = "st_fresh t" and ?y = "st_fresh t + 1"
  let ?t0 = "t\<lparr>st_fresh := st_fresh t + 1 + 1\<rparr>"
  have lv: "c_level x = h" "0 < h"
    using ranges_Some [of A s, OF x] tree_invD(4) [OF O(3)] node_repD(7) [OF L(1)] by (auto simp: range_of_def)
  obtain m n' t1 where r: "split_off c n (live ?y) ?t0 = (m, n', t1)" by (rule prod_cases3)
  note P = split_off_rep [OF C L r]
  then obtain n2 where n2: "t1 = put_node (live ?y) n2 ?t0" "node_rep ?d n2 (upper_half ?d x)" by blast
  have d: "?d < length (c_keys x)" using L(2) by (simp add: SIZE_def)
  have m: "m < SENTINEL"
    using inner_halves(2) [OF cell_ok_inner [OF tree_invD(1) [OF O(3) x]] d] lv P(1) tree_invD(6) [OF O(3) x] by simp
  note F = fresh_none [OF O(4)]
  have sy: "s \<noteq> ?y" "s \<noteq> ?z" using F(1) [of ?y] F(1) [of ?z] x by auto
  have H0: "heap_rel c ?t0 A" by (rule heap_rel_fresh [OF O(4)]) simp
  have H1: "heap_rel c t1 (A(?y \<mapsto> upper_half ?d x))"
    unfolding n2(1) by (rule heap_rel_put_node [OF H0]) (use F n2(2) in simp_all)
  have H2: "heap_rel c (put_node (live ?z) (new_parent_node ?d (int (h + 1)) m (live s) (live ?y)) t1)
      (A(?y \<mapsto> upper_half ?d x, ?z \<mapsto> new_root h m s ?y))" (is "heap_rel c ?t2 ?A2")
    by (rule heap_rel_put_node [OF H1 _ _ new_parent_rep [OF m]]) (use F n2(1) in simp_all)
  have H3: "heap_rel c (put_node (live s) (sn_increment_version n') ?t2) (?A2(s \<mapsto> lower_half ?d x))"
    by (rule heap_rel_put_node [OF H2 _ _ node_rep_increment [OF P(2)]])
      (use node_cell [OF O(4) x] lv n2(1) in simp_all)
  let ?A = "A(s \<mapsto> lower_half ?d x, ?y \<mapsto> upper_half ?d x, ?z \<mapsto> new_root h m s ?y)"
  have A: "?A2(s \<mapsto> lower_half ?d x) = ?A" using sy by (auto simp: fun_eq_iff)
  have I: "tree_inv (h + 1) ?z ?A"
    unfolding P(1) by (rule split_inner_root [OF O(3) x lv(2) d]) (use F in simp_all)
  have M: "holds ?A M"
    by (rule holds_inner [OF H])
      (use lv in \<open>auto simp: new_root_def lower_half_def upper_half_def split: if_splits\<close>)
  have t': "s_split_root_node c rt (live s) n t =
      put_node (live s) (sn_increment_version n') (?t2\<lparr>st_root := root_increment_version (set_start_and_inc (live ?z) rt)\<rparr>)"
    using r rt by (simp add: s_split_root_node_def s_allocate_def set_start_and_inc_def)
  have "heap_rel c (s_split_root_node c rt (live s) n t) ?A"
    using H3 unfolding t' A [symmetric] by (rule heap_rel_cong [rotated 3]) simp_all
  moreover have "caches_ok c (s_split_root_node c rt (live s) n t)"
    unfolding t' n2(1) by (intro caches_put) (simp add: caches_put O(5))
  ultimately have "sh_ok c (h + 1) ?z ?A (s_split_root_node c rt (live s) n t)"
    using I rt by (simp add: sh_ok_def t' root_increment_version_def set_start_and_inc_def)
  then show ?thesis by (rule sh_mapI [OF _ M])
qed

section \<open>Splits below the root\<close>

text \<open>The child of a key lies one level down and covers the key; cells of a level that share a key are the same.\<close>

lemma child_cell:
  assumes I: "tree_inv h s A" and p: "A p = Some P" "0 < c_level P" and key: "c_low P < key" "key \<le> c_high P"
  obtains x where "A (c_kids P ! rank key (c_keys P)) = Some x" "c_level x = c_level P - 1" "c_low x < key" "key \<le> c_high x"
    "rank key (c_keys P) < length (c_kids P)"
proof -
  note D = inner_okD [OF cell_ok_inner [OF tree_invD(1) [OF I p(1)] p(2)]]
  have ks: "sorted_wrt (<) (c_keys P)" using D(1) by (simp add: bounds_def sorted_wrt_append)
  note R = rank_bounds [OF ks key]
  have i: "rank key (c_keys P) < length (c_kids P)" using R(1) D(2) by simp
  from D(3) [OF i] R(2,3) i that show thesis by (auto elim!: ranges_SomeE)
qed

lemma same_cell:
  assumes I: "tree_inv h s A" and "A a = Some x" "A b = Some y" "c_level x = c_level y"
    "c_low x < k" "k \<le> c_high x" "c_low y < k" "k \<le> c_high y"
  shows "a = b"
  using disjoint_rangesD [OF tree_invD(3) [OF I], of a "c_level x" "c_low x" "c_high x" b "c_low y" "c_high y" k]
    ranges_Some [of A a, OF assms(2)] ranges_Some [of A b, OF assms(3)] assms(4-8) by (simp add: range_of_def)

lemma separator_rank:
  assumes I: "tree_inv h s A" and p: "A p = Some P" "0 < c_level P" and i: "i < length (c_kids P)"
    and x: "A (c_kids P ! i) = Some x" and m: "c_low x < m" "m < c_high x"
  shows "rank m (c_keys P) = i" "m \<notin> set (c_keys P)"
proof -
  note D = inner_okD [OF cell_ok_inner [OF tree_invD(1) [OF I p(1)] p(2)]]
  have r: "bounds P ! i < m" "m < bounds P ! (i + 1)"
    using D(3) [OF i] ranges_Some [of A "c_kids P ! i", OF x] m by (simp_all add: range_of_def)
  then show rk: "rank m (c_keys P) = i" using rank_between [OF D(1)] i D(2) by simp
  have ks: "sorted_wrt (<) (c_keys P)" using D(1) by (simp add: bounds_def sorted_wrt_append)
  have b: "c_keys P ! j = bounds P ! (j + 1)" if "j < length (c_keys P)" for j
    using that by (simp add: bounds_def nth_append)
  show "m \<notin> set (c_keys P)"
  proof
    assume "m \<in> set (c_keys P)"
    then obtain j where j: "j < length (c_keys P)" "c_keys P ! j = m" by (auto simp: in_set_conv_nth)
    then have "\<not> j < i" using rank_below [of j m "c_keys P"] rk by auto
    then have "bounds P ! (i + 1) \<le> bounds P ! (j + 1)"
      using bounds_less [OF D(1), of "i + 1" "j + 1"] j(1) by (cases "i = j") auto
    with b [OF j(1)] j(2) r(2) show False by simp
  qed
qed

lemma parent_bucket:
  assumes N: "node_rep d n P" and room: "length (c_keys P) < SIZE d" and m: "m < SENTINEL"
  shows "search_node d (bn_key_at n) m = Some (rank m (c_keys P))"
  by (rule child_bucket [OF N m room])

lemma split_inner_node_ok:
  assumes C: "cfg_ok c" and S: "sh_ok c h s A t" and H: "holds A M"
    and p: "A p = Some P" "node_rep (sc_degree c) parent P" "length (c_keys P) < SIZE (sc_degree c)"
    and i: "i < length (c_kids P)" "c_kids P ! i = a"
    and x: "A a = Some x" "node_rep (sc_degree c) n x" "length (c_keys x) = SIZE (sc_degree c)"
  shows "\<exists>y A' t'. s_split_inner_node c (live p) parent (live a) n t = Inr t' \<and> sh_ok c h s A' t' \<and> holds A' M \<and>
     A' a = Some (lower_half (sc_degree c) x) \<and> A' y = Some (upper_half (sc_degree c) x) \<and> ranges A' p = ranges A p"
proof -
  note O = sh_okD [OF S] and lp = node_repD(7) [OF p(2)] and lx = node_repD(7) [OF x(2)]
  let ?d = "sc_degree c" and ?y = "st_fresh t"
  let ?t0 = "t\<lparr>st_fresh := st_fresh t + 1\<rparr>"
  obtain m n' t1 where r: "split_off c n (live ?y) ?t0 = (m, n', t1)" by (rule prod_cases3)
  note R = split_off_rep [OF C x(2,3) r]
  then obtain n2 where n2: "t1 = put_node (live ?y) n2 ?t0" "node_rep ?d n2 (upper_half ?d x)" by blast
  have d: "?d < length (c_keys x)" using x(3) by (simp add: SIZE_def)
  note B = inner_halves(1,2) [OF cell_ok_inner [OF tree_invD(1) [OF O(3) x(1)] lx] d, folded R(1)]
  have m: "m < SENTINEL" using B(2) tree_invD(6) [OF O(3) x(1)] by simp
  note K = separator_rank [OF O(3) p(1) lp i(1) _ B, unfolded i(2), OF x(1)]
  note F = fresh_none [OF O(4)]
  have ne: "a \<noteq> ?y" "p \<noteq> ?y" "p \<noteq> a"
  proof -
    show "a \<noteq> ?y" "p \<noteq> ?y" using F(1) [of ?y] x(1) p(1) by auto
    have "ranges A a = Some (c_level P - 1, bounds P ! i, bounds P ! (i + 1))"
      using inner_okD(3) [OF cell_ok_inner [OF tree_invD(1) [OF O(3) p(1)] lp] i(1)] i(2) by simp
    then have "c_level x = c_level P - 1" using ranges_Some [of A a, OF x(1)] by (simp add: range_of_def)
    with p(1) x(1) lp show "p \<noteq> a" by auto
  qed
  have H0: "heap_rel c ?t0 A" by (rule heap_rel_fresh [OF O(4)]) simp
  have H1: "heap_rel c t1 (A(?y \<mapsto> upper_half ?d x))"
    unfolding n2(1) by (rule heap_rel_put_node [OF H0]) (use F n2(2) in simp_all)
  have H2: "heap_rel c (put_node (live p) (into_parent ?d i m (live ?y) parent) t1)
      (A(?y \<mapsto> upper_half ?d x, p \<mapsto> open_parent i m ?y P))" (is "heap_rel c ?t2 ?A2")
    by (rule heap_rel_put_node [OF H1 _ _ into_parent_rep [OF p(2,3) K(2) m K(1) [symmetric]]])
      (use node_cell [OF O(4) p(1) lp] n2(1) in simp_all)
  have H3: "heap_rel c (put_node (live a) (sn_increment_version n') ?t2) (?A2(a \<mapsto> lower_half ?d x))"
    by (rule heap_rel_put_node [OF H2 _ _ node_rep_increment [OF R(2)]])
      (use node_cell [OF O(4) x(1) lx] n2(1) in simp_all)
  let ?A = "A(a \<mapsto> lower_half ?d x, ?y \<mapsto> upper_half ?d x, p \<mapsto> open_parent i m ?y P)"
  have A: "?A2(a \<mapsto> lower_half ?d x) = ?A" using ne by (auto simp: fun_eq_iff)
  have I: "tree_inv h s ?A"
    unfolding R(1) by (rule split_inner_child [OF O(3) p(1) lp i x(1) lx d]) (use F in simp)
  have M: "holds ?A M"
    by (rule holds_inner [OF H]) (use lx lp in \<open>auto simp: lower_half_def upper_half_def split: if_splits\<close>)
  have t': "s_split_inner_node c (live p) parent (live a) n t = Inr (put_node (live a) (sn_increment_version n') ?t2)"
    using r parent_bucket [OF p(2,3) m] K(1) by (simp add: s_split_inner_node_def s_allocate_def)
  have "caches_ok c (put_node (live a) (sn_increment_version n') ?t2)"
    unfolding n2(1) by (intro caches_put) (simp add: O(5))
  then have "sh_ok c h s ?A (put_node (live a) (sn_increment_version n') ?t2)"
    using I H3 O(1,2) by (simp add: sh_ok_def A n2(1))
  moreover have "?A a = Some (lower_half ?d x)" "?A ?y = Some (upper_half ?d x)" "ranges ?A p = ranges A p"
    using ne ranges_Some [of A p, OF p(1)] by simp_all
  ultimately show ?thesis using t' M by blast
qed

section \<open>Effects\<close>

lemma leaf_bucket:
  assumes L: "leaf_rep c l x" and "length (c_pairs x) < SIZE (sc_degree c)" "key < SENTINEL"
  shows "search_node (sc_degree c) (lf_key_at l) key = Some (rank key (map fst (c_pairs x)))"
  using search_node_rank [OF leaf_repD(8) [OF L] assms(3)] rank_le [of key "map fst (c_pairs x)"] assms(2) by simp

lemma leaf_cell_range:
  assumes "tree_inv h s A" "A a = Some x" "c_level x = 0" "k \<in> fst ` set (c_pairs x)"
  shows "c_low x < k" "k \<le> c_high x"
  using leaf_okD(3,4) [OF cell_ok_leaf [OF tree_invD(1) [OF assms(1,2)] assms(3)] assms(4)] by simp_all

text \<open>An effect on the leaf of the key changes the map at the key.\<close>

lemma effect_step:
  assumes E: "effect_ok c key g rv eff" and L: "leaf_rep c l x" "length (c_pairs x) < SIZE (sc_degree c)"
    and e: "eff l (rank key (map fst (c_pairs x))) = (r, l')"
    and I: "tree_inv h s A" and H: "holds A M" and x: "A a = Some x" and key: "c_low x < key" "key \<le> c_high x"
  obtains x' where "r = rv (M key)" "leaf_rep c l' x'" "range_of x' = range_of x" "length (c_pairs x') \<le> length (c_pairs x) + 1"
    "tree_inv h s (A(a \<mapsto> x'))" "holds (A(a \<mapsto> x')) (M(key := g (M key)))"
proof -
  from effect_okD [OF E L e] obtain ps where ps: "r = rv (map_of (c_pairs x) key)" "leaf_rep c l' (x\<lparr>c_pairs := ps\<rparr>)"
    "map_of ps = (map_of (c_pairs x))(key := g (map_of (c_pairs x) key))"
    "length ps \<le> length (c_pairs x) + 1" "set (map fst ps) \<subseteq> insert key (set (map fst (c_pairs x)))" by blast
  note lv = leaf_repD(7) [OF L(1)]
  have v: "map_of (c_pairs x) k = M k" if "c_low x < k" "k \<le> c_high x" for k by (rule holdsD [OF H x lv that])
  have sorted: "sorted_wrt (<) (map fst ps)" using leaf_repD(8) [OF ps(2)] by (simp add: key_slots_def)
  have range: "c_low x < k \<and> k \<le> c_high x" if "k \<in> fst ` set ps" for k
    using ps(5) that leaf_cell_range [OF I x lv, of k] key by auto
  have I': "tree_inv h s (A(a \<mapsto> x\<lparr>c_pairs := ps\<rparr>))" by (rule leaf_update [OF I x lv sorted range])
  have H': "holds (A(a \<mapsto> x\<lparr>c_pairs := ps\<rparr>)) (M(key := g (M key)))"
    by (rule leaf_update_holds [OF I x lv H]) (use v ps(3) key in auto)
  show thesis
    by (rule that [OF _ ps(2) _ _ I' H']) (use ps(1,4) v key in \<open>simp_all add: range_of_def\<close>)
qed

text \<open>The results of an attempt. A leaf that was only read is a cell of the tree, the one that covers the key.\<close>

definition leaf_holds :: "scfg \<Rightarrow> int \<Rightarrow> (int \<Rightarrow> int option) \<Rightarrow> sleaf \<Rightarrow> stree \<Rightarrow> bool" where
  "leaf_holds c key M leaf t \<longleftrightarrow> (\<exists>h s A a x. sh_ok c h s A t \<and> holds A M \<and> A a = Some x \<and> leaf_rep c leaf x \<and>
     c_low x < key \<and> key \<le> c_high x)"

definition done_ok ::
  "scfg \<Rightarrow> int \<Rightarrow> bool \<Rightarrow> (int option \<Rightarrow> int option) \<Rightarrow> (int option \<Rightarrow> 'r) \<Rightarrow> (int \<Rightarrow> int option) \<Rightarrow> 'r s_outcome \<Rightarrow> stree \<Rightarrow> bool" where
  "done_ok c key modifiable g rv M res t = (case res of
     SDone r leaf \<Rightarrow>
       if modifiable then r = Some (rv (M key)) \<and> sh_map c t (M(key := g (M key)))
       else r = None \<and> sh_map c t M \<and> leaf_holds c key M leaf t
   | _ \<Rightarrow> sh_map c t M)"

lemma done_ok_simps [simp]:
  "done_ok c key True g rv M (SDone r leaf) t \<longleftrightarrow> r = Some (rv (M key)) \<and> sh_map c t (M(key := g (M key)))"
  "done_ok c key False g rv M (SDone r leaf) t \<longleftrightarrow> r = None \<and> sh_map c t M \<and> leaf_holds c key M leaf t"
  "done_ok c key modifiable g rv M SRestart t \<longleftrightarrow> sh_map c t M"
  "done_ok c key modifiable g rv M SRetry t \<longleftrightarrow> sh_map c t M"
  by (simp_all add: done_ok_def)

lemma put_leaf_ok:
  assumes S: "sh_ok c h s A t" and x: "A a = Some x" "c_level x = 0" and L: "leaf_rep c l x'"
    and I: "tree_inv h s (A(a \<mapsto> x'))"
  shows "sh_ok c h s (A(a \<mapsto> x')) (put_leaf (live a) l t)"
  using sh_okD [OF S] heap_rel_put_leaf [OF sh_okD(4) [OF S] leaf_cell(3,2) [OF sh_okD(4) [OF S] x] L] I
  by (simp add: sh_ok_def caches_put)

text \<open>The effect on a leaf of the tree with room, of which the thread has a copy.\<close>

lemma update_leaf_ok:
  assumes E: "effect_ok c key g rv eff" and k: "key < SENTINEL" and S: "sh_ok c h s A t" and H: "holds A M"
    and x: "A a = Some x" "leaf_rep c l x" "length (c_pairs x) < SIZE (sc_degree c)" "c_low x < key" "key \<le> c_high x"
  shows "ends (\<lambda>(r, l'). r = rv (M key) \<and> sh_map c (put_leaf (live a) (lf_increment_version l') t) (M(key := g (M key))) \<and>
       sh_map c (put_leaf (live a) l' t) (M(key := g (M key))))
     (s_apply_effect c key eff l)"
proof -
  obtain r l' where e: "eff l (rank key (map fst (c_pairs x))) = (r, l')" by (rule prod.exhaust)
  from effect_step [OF E x(2,3) e sh_okD(3) [OF S] H x(1,4,5)] obtain x'
    where x': "r = rv (M key)" "leaf_rep c l' x'" "tree_inv h s (A(a \<mapsto> x'))" "holds (A(a \<mapsto> x')) (M(key := g (M key)))" by blast
  note P = put_leaf_ok [OF S x(1) leaf_repD(7) [OF x(2)] _ x'(3)]
  have "s_apply_effect c key eff l = Inr (r, l')"
    using leaf_bucket [OF x(2,3) k] e by (simp add: s_apply_effect_def)
  then show ?thesis
    using x'(1) sh_mapI [OF P [OF leaf_rep_increment [OF x'(2)]] x'(4)] sh_mapI [OF P [OF x'(2)] x'(4)] by simp
qed

lemma s_update_leaf_ok:
  assumes "effect_ok c key g rv eff" "key < SENTINEL" "sh_ok c h s A t" "holds A M"
    "A a = Some x" "leaf_rep c l x" "length (c_pairs x) < SIZE (sc_degree c)" "c_low x < key" "key \<le> c_high x"
  shows "ends (\<lambda>(res, t'). done_ok c key True g rv M res t' \<and> (\<forall>q v. done_ok c key True g rv M res (s_release_node (live q) v t')))
     (s_update_leaf c key eff (live a) l t)"
  unfolding s_update_leaf_def
proof (rule ends_then [OF update_leaf_ok [OF assms]], clarsimp)
  fix l' q v assume "sh_map c (put_leaf (live a) (lf_increment_version l') t) (M(key := g (M key)))"
  then show "sh_map c (s_release_node (live q) v (put_leaf (live a) (lf_increment_version l') t)) (M(key := g (M key)))"
    unfolding sh_map_def using keepsD(2) [OF release_keeps(2)] by blast
qed

section \<open>Splitting a leaf\<close>

lemma leaf_in_range:
  "leaf_rep c l x \<Longrightarrow> sl_key_in_range l key \<longleftrightarrow> c_low x < key \<and> key \<le> c_high x"
  "node_rep d n y \<Longrightarrow> sn_key_in_range n key \<longleftrightarrow> c_low y < key \<and> key \<le> c_high y"
  using leaf_repD(3,4,6) node_repD(3,4,6) by (auto simp: sl_key_in_range_def sn_key_in_range_def)

text \<open>
  After \<open>split_leaf\<close> memory still has the leaf as it was, and everything else of the new tree.
\<close>

lemma split_leaf_ok:
  assumes C: "cfg_ok c" and S: "sh_ok c h s A t" and H: "holds A M"
    and p: "A p = Some P" "node_rep (sc_degree c) parent P" "length (c_keys P) < SIZE (sc_degree c)"
    and i: "i < length (c_kids P)" "c_kids P ! i = a"
    and x: "A a = Some x" "leaf_rep c l x" "length (c_pairs x) = SIZE (sc_degree c)"
  obtains y m updated t' where "s_split_leaf c (live p) parent l t = Inr (updated, t')"
    "leaf_rep c updated (lower_leaf (sc_degree c) y x)" "a \<noteq> y" "a \<noteq> p" "y \<noteq> p"
    "heap_rel c t' (A(y \<mapsto> upper_leaf (sc_degree c) x, p \<mapsto> open_parent i m y P))" "caches_ok c t'"
    "tree_inv h s (A(a \<mapsto> lower_leaf (sc_degree c) y x, y \<mapsto> upper_leaf (sc_degree c) x, p \<mapsto> open_parent i m y P))"
    "holds (A(a \<mapsto> lower_leaf (sc_degree c) y x, y \<mapsto> upper_leaf (sc_degree c) x, p \<mapsto> open_parent i m y P)) M"
    "r_height (st_root t') = h" "r_start (st_root t') = live s"
proof -
  note O = sh_okD [OF S] and lp = node_repD(7) [OF p(2)] and lx = leaf_repD(7) [OF x(2)]
  let ?d = "sc_degree c" and ?y = "st_fresh t"
  let ?t0 = "t\<lparr>st_fresh := st_fresh t + 1\<rparr>"
  obtain m l' leaf where r: "split_leaf_off c l (live ?y) = (m, l', leaf)" by (rule prod_cases3)
  note R = split_leaf_off_rep [OF C x(2,3) r]
  have d: "?d + 1 < length (c_pairs x)" using x(3) cfg_okD(1) [OF C] by (simp add: SIZE_def)
  note B = leaf_halves [OF cell_ok_leaf [OF tree_invD(1) [OF O(3) x(1)] lx] d, folded R(1)]
  have m: "m < SENTINEL" using B(2) tree_invD(6) [OF O(3) x(1)] by simp
  note K = separator_rank [OF O(3) p(1) lp i(1) _ B, unfolded i(2), OF x(1)]
  note F = fresh_none [OF O(4)]
  have ne: "a \<noteq> ?y" "a \<noteq> p" "?y \<noteq> p" using F(1) [of ?y] x(1) p(1) lx lp by auto
  have H0: "heap_rel c ?t0 A" by (rule heap_rel_fresh [OF O(4)]) simp
  have H1: "heap_rel c (put_leaf (live ?y) (lf_lock (set_next (get_next l) leaf)) ?t0) (A(?y \<mapsto> upper_leaf ?d x))"
    (is "heap_rel c ?t1 _")
    by (rule heap_rel_put_leaf [OF H0 _ _ leaf_rep_lf_lock [OF R(3)]]) (use F in simp_all)
  have H2: "heap_rel c (put_node (live p) (into_parent ?d i m (live ?y) parent) ?t1)
      (A(?y \<mapsto> upper_leaf ?d x, p \<mapsto> open_parent i m ?y P))" (is "heap_rel c ?t2 _")
    by (rule heap_rel_put_node [OF H1 _ _ into_parent_rep [OF p(2,3) K(2) m K(1) [symmetric]]])
      (use node_cell [OF O(4) p(1) lp] ne in simp_all)
  have I: "tree_inv h s (A(a \<mapsto> lower_leaf ?d ?y x, ?y \<mapsto> upper_leaf ?d x, p \<mapsto> open_parent i m ?y P))"
    unfolding R(1) by (rule split_leaf_child [OF O(3) p(1) lp i x(1) lx d]) (use F in simp)
  have M: "holds (A(a \<mapsto> lower_leaf ?d ?y x, ?y \<mapsto> upper_leaf ?d x, p \<mapsto> open_parent i m ?y P)) M"
    by (rule holds_split [OF H O(3) x(1) lx d]) (simp add: lp)
  have t': "s_split_leaf c (live p) parent l t = Inr (lf_increment_version l', ?t2)"
    using r parent_bucket [OF p(2,3) m] K(1) by (simp add: s_split_leaf_def s_allocate_def)
  have Q: "caches_ok c ?t2" by (intro caches_put) (simp add: O(5))
  show thesis by (rule that [OF t' leaf_rep_increment [OF R(2)] ne H2 Q I M]) (simp_all add: O(1,2))
qed

lemma split_and_update_ok:
  assumes C: "cfg_ok c" and E: "effect_ok c key g rv eff" and k: "key < SENTINEL"
    and S: "sh_ok c h s A t" and H: "holds A M"
    and p: "A p = Some P" "node_rep (sc_degree c) cur P" "length (c_keys P) < SIZE (sc_degree c)"
    and i: "i < length (c_kids P)" "c_kids P ! i = a"
    and x: "A a = Some x" "leaf_rep c l x" "length (c_pairs x) = SIZE (sc_degree c)" "c_low x < key" "key \<le> c_high x"
  shows "ends (\<lambda>(res, t'). done_ok c key True g rv M res t') (s_split_and_update c key eff (live p) cur (live a) l t)"
proof -
  let ?d = "sc_degree c"
  note O = sh_okD [OF S] and lx = leaf_repD(7) [OF x(2)]
  obtain y m updated t1 where s: "s_split_leaf c (live p) cur l t = Inr (updated, t1)"
    and u: "leaf_rep c updated (lower_leaf ?d y x)" and ne: "a \<noteq> y" "a \<noteq> p" "y \<noteq> p"
    and H1: "heap_rel c t1 (A(y \<mapsto> upper_leaf ?d x, p \<mapsto> open_parent i m y P))" and Q: "caches_ok c t1"
    and I: "tree_inv h s (A(a \<mapsto> lower_leaf ?d y x, y \<mapsto> upper_leaf ?d x, p \<mapsto> open_parent i m y P))"
    and M: "holds (A(a \<mapsto> lower_leaf ?d y x, y \<mapsto> upper_leaf ?d x, p \<mapsto> open_parent i m y P)) M"
    and rt: "r_height (st_root t1) = h" "r_start (st_root t1) = live s"
    by (rule split_leaf_ok [OF C S H p i x(1-3)])
  let ?A1 = "A(y \<mapsto> upper_leaf ?d x, p \<mapsto> open_parent i m y P)"
  let ?A2 = "A(a \<mapsto> lower_leaf ?d y x, y \<mapsto> upper_leaf ?d x, p \<mapsto> open_parent i m y P)"
  have room: "length (c_pairs (lower_leaf ?d y x)) < SIZE ?d" "length (c_pairs (upper_leaf ?d x)) < SIZE ?d"
    using x(3) cfg_okD(1) [OF C] by (simp_all add: lower_leaf_def upper_leaf_def SIZE_def)
  have nx: "get_next updated = live y" using leaf_repD(5) [OF u] by (simp add: lower_leaf_def)
  have A2: "?A2 a = Some (lower_leaf ?d y x)" "?A2 y = Some (upper_leaf ?d x)" using ne by simp_all
  have A1: "?A1 a = Some x" "\<And>z. ?A1(a \<mapsto> z) = ?A2(a \<mapsto> z)" using ne x(1) by (auto simp: fun_eq_iff)
  have W: "sh_ok c h s (?A2(a \<mapsto> z)) (put_leaf (live a) n t2)"
    if "heap_rel c t2 ?A1" "caches_ok c t2" "leaf_rep c n z" "tree_inv h s (?A2(a \<mapsto> z))"
      "r_height (st_root t2) = h" "r_start (st_root t2) = live s" for t2 n z
    using heap_rel_put_leaf [OF that(1) leaf_cell(3,2) [OF that(1) A1(1) lx] that(3)] caches_put(2) [OF that(2)] that(4-6)
    unfolding A1(2) by (simp add: sh_ok_def)
  show ?thesis
  proof (cases "sl_key_in_range updated key")
    case False
    let ?t2 = "put_leaf (live a) updated t1"
    have "?A2(a \<mapsto> lower_leaf ?d y x) = ?A2" using A2(1) by (rule fun_upd_idem)
    with W [OF H1 Q u _ rt] I have S2: "sh_ok c h s ?A2 ?t2" by simp
    have key: "c_low (upper_leaf ?d x) < key" "key \<le> c_high (upper_leaf ?d x)"
      using False leaf_in_range(1) [OF u] x(4,5) by (auto simp: lower_leaf_def upper_leaf_def)
    have "ends (\<lambda>(res, t'). done_ok c key True g rv M res t')
        (then_do (s_apply_effect c key eff n) (\<lambda>(r, n). Inr (SDone (Some r) l, put_leaf (live y) (lf_increment_version n) ?t2)))"
      if n: "leaf_rep c n (upper_leaf ?d x)" for n
      by (rule ends_then [OF update_leaf_ok [OF E k S2 M A2(2) n room(2) key]]) auto
    then have "ends (\<lambda>(res, t'). done_ok c key True g rv M res t')
        (then_do (s_read_leaf c (live y) IGNORE_LOCK ?t2) (\<lambda>n.
         then_do (s_apply_effect c key eff n) (\<lambda>(r, n). Inr (SDone (Some r) l, put_leaf (live y) (lf_increment_version n) ?t2))))"
      by (rule ends_then [OF read_leaf_cell [OF sh_okD(4) [OF S2] A2(2)], rotated]) (simp_all add: upper_leaf_def lx)
    then show ?thesis using s False nx by (simp add: s_split_and_update_def Let_def)
  next
    case True
    let ?t2 = "s_release_leaf (live y) 0 t1"
    note K = keepsD [OF release_keeps(3) [of c t1 y 0]]
    have key: "c_low (lower_leaf ?d y x) < key" "key \<le> c_high (lower_leaf ?d y x)"
      using True leaf_in_range(1) [OF u] by simp_all
    obtain r l' where e: "eff updated (rank key (map fst (c_pairs (lower_leaf ?d y x)))) = (r, l')" by (rule prod.exhaust)
    from effect_step [OF E u room(1) e I M A2(1) key] obtain x' where x': "r = rv (M key)" "leaf_rep c l' x'"
      "tree_inv h s (?A2(a \<mapsto> x'))" "holds (?A2(a \<mapsto> x')) (M(key := g (M key)))" by blast
    have "sh_ok c h s (?A2(a \<mapsto> x')) (put_leaf (live a) l' ?t2)"
      by (rule W [OF K(1) [OF H1] K(3) [OF Q] x'(2,3)]) (simp_all add: K(4,5) rt)
    then have "sh_map c (put_leaf (live a) l' ?t2) (M(key := g (M key)))" by (rule sh_mapI [OF _ x'(4)])
    moreover have "s_apply_effect c key eff updated = Inr (r, l')"
      using leaf_bucket [OF u room(1) k] e by (simp add: s_apply_effect_def)
    ultimately show ?thesis using s True nx x'(1) by (simp add: s_split_and_update_def Let_def)
  qed
qed

end
