(* ===== verification/ShMerge.thy ===== *)
theory ShMerge
  imports ShSplit
begin

text \<open>
  The steps of the Sherman tree that make it smaller keep the relation as well: an empty child of
  the root gives way to its only child, and an empty inner node or leaf merges with a neighbour.
\<close>

declare split_paired_All [simp del] split_paired_Ex [simp del]

lemma deallocate_simps [simp]:
  "st_nodes (s_deallocate p t) = st_nodes t" "st_leaves (s_deallocate p t) = st_leaves t"
  "st_fresh (s_deallocate p t) = st_fresh t" "st_root (s_deallocate p t) = st_root t"
  by (simp_all add: s_deallocate_def split: option.splits prod.splits)

lemma marked_node_deleted: "sn_is_deleted (sn_mark_deleted n)" "sn_is_deleted (sn_increment_version n) = sn_is_deleted n"
  by (simp_all add: sn_is_deleted_def sn_mark_deleted_def sn_increment_version_def LIVE_def)

lemma increment_leaf_deleted: "sl_is_deleted (lf_increment_version l) = sl_is_deleted l"
  by (simp add: sl_is_deleted_def lf_increment_version_def)

section \<open>The root\<close>

lemma lower_root_ok:
  assumes S: "sh_ok c h s A t" and H: "holds A M" and x: "A s = Some x" "node_rep (sc_degree c) n x" "c_keys x = []"
    and rt: "r_height rt = h"
  shows "sh_map c (s_deallocate (live s) (put_node (live s) (sn_increment_version (sn_mark_deleted n))
     (t\<lparr>st_root := root_increment_version (rt\<lparr>r_height := r_height rt - 1, r_start := ptr_at n 0\<rparr>)\<rparr>))) M"
proof -
  note O = sh_okD [OF S] and lx = node_repD(7) [OF x(2)]
  have lv: "c_level x = h" using ranges_Some [of A s, OF x(1)] tree_invD(4) [OF O(3)] by (simp add: range_of_def)
  obtain h' where h': "h = h' + 1" using lv lx by (cases h) auto
  obtain b where b: "c_kids x = [b]" using rep_lengths(2) [OF x(2)] x(3) by (auto simp: length_Suc_conv)
  have q: "ptr_at n 0 = live b" using node_slotsD(6) [OF node_repD(2) [OF x(2)], of 0] b by simp
  let ?t1 = "put_node (live s) (sn_increment_version (sn_mark_deleted n))
     (t\<lparr>st_root := root_increment_version (rt\<lparr>r_height := r_height rt - 1, r_start := ptr_at n 0\<rparr>)\<rparr>)"
  have "heap_rel c ?t1 (A(s := None))"
    by (rule heap_rel_kill_node) (use node_cell [OF O(4) x(1) lx] O(4) in \<open>simp_all add: marked_node_deleted\<close>)
  moreover have "caches_ok c ?t1" by (intro caches_put) (simp add: O(5))
  moreover have "tree_inv h' b (A(s := None))" by (rule lower_root_inv [OF O(3) [unfolded h'] x(1,3) b])
  ultimately have "sh_ok c h' b (A(s := None)) ?t1"
    using rt h' q by (simp add: sh_ok_def root_increment_version_def)
  moreover have "holds (A(s := None)) M" by (rule holds_inner [OF H]) (auto split: if_splits)
  ultimately show ?thesis by (rule sh_mapI [OF keepsD(2) [OF deallocate_keeps]])
qed

section \<open>Inner nodes\<close>

text \<open>Both ways of merging, left neighbour first: \<open>one\<close> takes \<open>two\<close>, which is the next child.\<close>

lemma merge_nodes_ok:
  assumes S: "sh_ok c h s A t" and H: "holds A M"
    and p: "A p = Some P" "node_rep (sc_degree c) parent P" "i + 1 < length (c_kids P)"
    and kids: "c_kids P ! i = a" "c_kids P ! (i + 1) = b"
    and x: "A a = Some x" "node_rep (sc_degree c) one x" and y: "A b = Some y" "node_rep (sc_degree c) two y"
    and len: "length (c_keys x) + 1 + length (c_keys y) \<le> SIZE (sc_degree c)"
    and r: "s_merge_into_left_node (sc_degree c) one i two parent = (left, right, parent')"
  defines "t1 \<equiv> put_node (live a) (sn_increment_version left) (put_node (live b) (sn_increment_version right) t)"
    and "t2 \<equiv> put_node (live b) (sn_increment_version right) (put_node (live a) (sn_increment_version left) t)"
  shows "\<exists>A'. sh_ok c h s A' (put_node (live p) (sn_increment_version parent') t1) \<and> holds A' M \<and>
       (\<exists>P'. A' p = Some P' \<and> range_of P' = range_of P \<and> length (c_keys P') < SIZE (sc_degree c))"
    "t2 = t1"
proof -
  let ?d = "sc_degree c" and ?k = "c_keys P ! i"
  note O = sh_okD [OF S] and lp = node_repD(7) [OF p(2)] and lx = node_repD(7) [OF x(2)] and ly = node_repD(7) [OF y(2)]
  note N = neighbours [OF O(3) p(1) lp p(3) kids x(1) y(1)]
  note X = inner_okD [OF cell_ok_inner [OF tree_invD(1) [OF O(3) x(1)] lx]]
    and Y = inner_okD [OF cell_ok_inner [OF tree_invD(1) [OF O(3) y(1)] ly]]
  have ik: "i < length (c_keys P)" using p(3) rep_lengths(2) [OF p(2)] by simp
  have sep: "\<forall>u \<in> set (c_keys x). u < ?k" "\<forall>v \<in> set (c_keys y). ?k < v"
    using X(1) Y(1) N(3,4) by (auto simp: bounds_def sorted_wrt_append)
  note R = merge_left_rep [OF x(2) y(2) p(2) ik sep len _ r]
  have lv: "c_level x = c_level y" using N(1,2) by simp
  have "c_level x \<noteq> c_level P" "c_level y \<noteq> c_level P" using N(1,2) lp by linarith+
  then have ne: "a \<noteq> b" "a \<noteq> p" "b \<noteq> p" using N(5) x(1) y(1) p(1) by auto
  show "t2 = t1" using ne(1) by (simp add: t1_def t2_def put_node_def fun_upd_twist [OF ne(1)])
  have H1: "heap_rel c (put_node (live b) (sn_increment_version right) t) (A(b := None))"
    by (rule heap_rel_kill_node [OF O(4)]) (use node_cell [OF O(4) y(1) ly] R(2) [OF lv] in \<open>simp_all add: marked_node_deleted\<close>)
  have H2: "heap_rel c t1 (A(b := None, a \<mapsto> join_inner ?k x y))"
    unfolding t1_def by (rule heap_rel_put_node [OF H1 _ _ node_rep_increment [OF R(1) [OF lv]]])
      (use node_cell [OF O(4) x(1) lx] in simp_all)
  have H3: "heap_rel c (put_node (live p) (sn_increment_version parent') t1)
      (A(b := None, a \<mapsto> join_inner ?k x y, p \<mapsto> close_parent i P))" (is "heap_rel c ?t3 ?A")
    by (rule heap_rel_put_node [OF H2 _ _ node_rep_increment [OF R(3) [OF lv]]])
      (use node_cell [OF O(4) p(1) lp] in \<open>simp_all add: t1_def\<close>)
  have "tree_inv h s ?A" by (rule merge_inner_children [OF O(3) p(1) lp p(3) kids x(1) lx y(1)])
  moreover have "caches_ok c ?t3" unfolding t1_def by (intro caches_put) (rule O(5))
  ultimately have "sh_ok c h s ?A ?t3" using H3 O(1,2) by (simp add: sh_ok_def t1_def)
  moreover have "holds ?A M"
    by (rule holds_inner [OF H]) (use lx lp in \<open>auto simp: join_inner_def split: if_splits\<close>)
  moreover have "?A p = Some (close_parent i P)" "length (c_keys (close_parent i P)) < SIZE ?d"
    using ik rep_lengths(1) [OF p(2)] by (simp_all add: close_parent_def)
  ultimately show "\<exists>A'. sh_ok c h s A' ?t3 \<and> holds A' M \<and>
       (\<exists>P'. A' p = Some P' \<and> range_of P' = range_of P \<and> length (c_keys P') < SIZE (sc_degree c))"
    by (intro exI [of _ ?A] conjI exI [of _ "close_parent i P"]) simp_all
qed

text \<open>The merge itself, whichever side the neighbour is on.\<close>

lemma merge_either_ok:
  assumes S: "sh_ok c h s A t" and H: "holds A M"
    and p: "A p = Some P" "node_rep (sc_degree c) parent P" "i < length (c_kids P)" "c_keys P \<noteq> []"
    and x: "A (c_kids P ! i) = Some x" "node_rep (sc_degree c) cur x" "c_keys x = []"
    and y: "A (c_kids P ! s_neighbor_bucket i) = Some y" "node_rep (sc_degree c) merging y" "length (c_keys y) < SIZE (sc_degree c)"
    and r: "s_merge_node (sc_degree c) cur i merging (s_neighbor_bucket i) parent = (gone, empty_node, merged_node, parent')"
  shows "\<exists>A'. sh_ok c h s A' (put_node (live p) (sn_increment_version parent')
       (put_node (live (c_kids P ! s_neighbor_bucket i)) (sn_increment_version merged_node)
         (put_node (live (c_kids P ! i)) (sn_increment_version empty_node) t))) \<and>
     holds A' M \<and> (\<exists>P'. A' p = Some P' \<and> range_of P' = range_of P \<and> length (c_keys P') < SIZE (sc_degree c))"
proof (cases i)
  case 0
  obtain l r' p' where m: "s_merge_into_left_node (sc_degree c) cur 0 merging parent = (l, r', p')" by (rule prod_cases3)
  have e: "empty_node = l" "merged_node = r'" "parent' = p'" using r 0 m by (simp_all add: s_merge_node_def)
  have "0 + 1 < length (c_kids P)" using p(3,4) rep_lengths(2) [OF p(2)] by (cases "c_keys P") auto
  note M = merge_nodes_ok [OF S H p(1,2) this refl refl x(1) [unfolded 0] x(2) _ y(2) _ m]
  show ?thesis using M y(1,3) x(3) 0 e by (simp add: s_neighbor_bucket_def)
next
  case (Suc j)
  obtain l r' p' where m: "s_merge_into_left_node (sc_degree c) merging j cur parent = (l, r', p')" by (rule prod_cases3)
  have e: "empty_node = r'" "merged_node = l" "parent' = p'" using r Suc m by (simp_all add: s_merge_node_def s_neighbor_bucket_def)
  have j: "j + 1 < length (c_kids P)" "s_neighbor_bucket i = j" using p(3) Suc by (simp_all add: s_neighbor_bucket_def)
  note M = merge_nodes_ok(1) [OF S H p(1,2) j(1) refl refl y(1) [unfolded j] y(2) _ x(2) _ m]
  show ?thesis using M y(3) x(1,3) Suc e j by simp
qed

lemma neighbor_cell:
  assumes I: "tree_inv h s A" and p: "A p = Some P" "0 < c_level P" "i < length (c_kids P)" "c_keys P \<noteq> []"
  obtains y where "A (c_kids P ! s_neighbor_bucket i) = Some y" "c_level y = c_level P - 1"
    "s_neighbor_bucket i < length (c_kids P)"
proof -
  note D = inner_okD [OF cell_ok_inner [OF tree_invD(1) [OF I p(1)] p(2)]]
  have j: "s_neighbor_bucket i < length (c_kids P)"
    using p(3,4) D(2) by (cases "c_keys P") (auto simp: s_neighbor_bucket_def)
  from D(3) [OF j] j that show thesis by (auto elim!: ranges_SomeE)
qed

lemma merge_child_ok:
  assumes S: "sh_ok c h s A t" and H: "holds A M"
    and p: "A p = Some P" "node_rep (sc_degree c) parent P" "i < length (c_kids P)" "c_keys P \<noteq> []"
    and x: "A (c_kids P ! i) = Some x" "node_rep (sc_degree c) cur x" "c_keys x = []"
  shows "ends (\<lambda>(merged, t'). \<exists>A'. sh_ok c h s A' t' \<and> holds A' M \<and> (\<not> merged \<longrightarrow> A' = A) \<and>
      (merged \<longrightarrow> (\<exists>P'. A' p = Some P' \<and> range_of P' = range_of P \<and> length (c_keys P') < SIZE (sc_degree c))))
     (s_merge_child c (live p) parent (live (c_kids P ! i)) cur i t)"
proof -
  note O = sh_okD [OF S] and lp = node_repD(7) [OF p(2)] and lx = node_repD(7) [OF x(2)]
  let ?a = "c_kids P ! i" and ?j = "s_neighbor_bucket i"
  obtain y where y: "A (c_kids P ! ?j) = Some y" "c_level y = c_level P - 1" "?j < length (c_kids P)"
    by (rule neighbor_cell [OF O(3) p(1) lp p(3,4)])
  have "c_level x = c_level P - 1"
    using inner_okD(3) [OF cell_ok_inner [OF tree_invD(1) [OF O(3) p(1)] lp] p(3)] ranges_Some [of A ?a, OF x(1)]
    by (simp add: range_of_def)
  then have ly: "0 < c_level y" using lx y(2) by simp
  have q: "read_level (sc_degree c) parent (Some ?j) = live (c_kids P ! ?j)" by (rule kid_ptr [OF p(2) y(3)])
  let ?post = "\<lambda>(merged, t'). \<exists>A'. sh_ok c h s A' t' \<and> holds A' M \<and> (\<not> merged \<longrightarrow> A' = A) \<and>
      (merged \<longrightarrow> (\<exists>P'. A' p = Some P' \<and> range_of P' = range_of P \<and> length (c_keys P') < SIZE (sc_degree c)))"
  have same: "?post (False, t')" if "keeps c t t'" for t' using keepsD(2) [OF that S] H by auto
  show ?thesis
    unfolding s_merge_child_def Let_def q
  proof (rule ends_then [OF read_node_cell [OF O(4) y(1) ly]])
    fix merging assume m: "node_rep (sc_degree c) merging y \<and> st_nodes t (c_kids P ! ?j) = Some merging"
    have R: "?post (True, put_node (live p) (sn_increment_version p') (put_node (live (c_kids P ! ?j)) (sn_increment_version n)
        (put_node (live ?a) (sn_increment_version e) (s_deallocate q t'))))"
      if "\<not> s_full_node c merging" "keeps c t t'" "s_merge_node (sc_degree c) cur i merging ?j parent = (g, e, n, p')" for t' q g e n p'
      using merge_either_ok [OF keepsD(2) [OF keeps_trans [OF that(2) deallocate_keeps] S] H p x y(1) _ _ that(3)] m that(1)
        full_node_rep [of c merging y] rep_lengths(1) [of _ merging y] by fastforce
    show "ends ?post
        (if s_full_node c merging then Inr (False, t)
         else case s_acquire_node (live p) (bn_version parent) t of (got_parent, t) \<Rightarrow>
           if \<not> got_parent then Inr (False, t)
           else case s_acquire_node (live ?a) (bn_version cur) t of (got_curr, t) \<Rightarrow>
             if \<not> got_curr then Inr (False, s_release_node (live p) (bn_version parent) t)
             else case s_acquire_node (live (c_kids P ! ?j)) (bn_version merging) t of (got_merging, t) \<Rightarrow>
               if \<not> got_merging then
                 Inr (False, s_release_node (live ?a) (bn_version cur) (s_release_node (live p) (bn_version parent) t))
               else case s_merge_node (sc_degree c) cur i merging ?j parent of
                 (curr_gone, empty_node, merged_node, parent_of_merge) \<Rightarrow>
                   Inr (True, put_node (live p) (sn_increment_version parent_of_merge)
                     (put_node (live (c_kids P ! ?j)) (sn_increment_version merged_node)
                       (put_node (live ?a) (sn_increment_version empty_node)
                         (s_deallocate (if curr_gone then live ?a else live (c_kids P ! ?j)) t)))))"
    proof (intro ends_if acquire_node_case [where c = c], goal_cases)
      case 1
      show ?case using same [OF keeps_refl] by simp
    next
      case (2 b t1)
      show ?case using same [OF 2(2)] by simp
    next
      case (3 b t1 b2 t2)
      then show ?case using same [OF keeps_trans [OF keeps_trans [OF 3(2,4)] release_keeps(2)]] by simp
    next
      case (4 b t1 b2 t2 b3 t3)
      then show ?case
        using same [OF keeps_trans [OF keeps_trans [OF keeps_trans [OF keeps_trans [OF 4(2,4)] 4(6)] release_keeps(2)] release_keeps(2)]]
        by simp
    next
      case (5 b t1 b2 t2 b3 t3)
      show ?case
        by (cases "s_merge_node (sc_degree c) cur i merging ?j parent" rule: prod_cases4)
          (use R [OF 5(1) keeps_trans [OF keeps_trans [OF 5(2,4)] 5(6)]] in simp)
    qed
  qed
qed

section \<open>Leaves\<close>

text \<open>
  Here the copies that merge may be ahead of memory: the effect has been applied to one of them.
  \<open>A\<close> is what memory holds and \<open>A1\<close> the tree of the copies.
\<close>

lemma merge_leaves_ok:
  assumes C: "cfg_ok c" and O: "heap_rel c t A" "caches_ok c t" "r_height (st_root t) = h" "r_start (st_root t) = live s"
    and I: "tree_inv h s A1" "holds A1 M" "\<And>z. z \<noteq> a \<Longrightarrow> z \<noteq> b \<Longrightarrow> A1 z = A z"
    and ab: "A a = Some xa" "c_level xa = 0" "A b = Some yb" "c_level yb = 0"
    and p: "A p = Some P" "node_rep (sc_degree c) parent P" "i + 1 < length (c_kids P)"
    and kids: "c_kids P ! i = a" "c_kids P ! (i + 1) = b"
    and x: "A1 a = Some x" "leaf_rep c one x" and y: "A1 b = Some y" "leaf_rep c two y"
    and len: "length (c_pairs x) + length (c_pairs y) \<le> SIZE (sc_degree c)"
    and r: "merge_into_left_leaf (sc_vs c) (sc_degree c) one i two parent = (left, parent')"
  shows "sh_map c (put_node (live p) (sn_increment_version parent')
     (put_leaf (live b) (lf_increment_version (sl_mark_deleted two)) (put_leaf (live a) (lf_increment_version left) t))) M"
proof -
  note lp = node_repD(7) [OF p(2)] and lx = leaf_repD(7) [OF x(2)] and ly = leaf_repD(7) [OF y(2)]
  have pne: "a \<noteq> p" "b \<noteq> p" using ab p(1) lp by auto
  have p1: "A1 p = Some P" using I(3) [of p] pne p(1) by simp
  note N = neighbours [OF I(1) p1 lp p(3) kids x(1) y(1)]
  have ik: "i < length (c_keys P)" using p(3) rep_lengths(2) [OF p(2)] by simp
  have sep: "\<forall>u \<in> fst ` set (c_pairs x). \<forall>v \<in> fst ` set (c_pairs y). u < v"
    using leaf_cell_range(2) [OF I(1) x(1) lx] leaf_cell_range(1) [OF I(1) y(1) ly] N(3,4) by fastforce
  note R = merge_left_leaf_rep [OF C x(2) y(2) p(2) ik sep len r]
  have H1: "heap_rel c (put_leaf (live a) (lf_increment_version left) t) (A(a \<mapsto> join_leaf x y))"
    by (rule heap_rel_put_leaf [OF O(1) _ _ leaf_rep_increment [OF R(1)]]) (use leaf_cell [OF O(1) ab(1,2)] in simp_all)
  have H2: "heap_rel c (put_leaf (live b) (lf_increment_version (sl_mark_deleted two)) (put_leaf (live a) (lf_increment_version left) t))
      (A(a \<mapsto> join_leaf x y, b := None))" (is "heap_rel c ?t2 _")
    by (rule heap_rel_kill_leaf [OF H1])
      (use leaf_cell [OF O(1) ab(3,4)] in \<open>simp_all add: increment_leaf_deleted marked_leaf_deleted\<close>)
  have H3: "heap_rel c (put_node (live p) (sn_increment_version parent') ?t2)
      (A(a \<mapsto> join_leaf x y, b := None, p \<mapsto> close_parent i P))" (is "heap_rel c ?t3 _")
    by (rule heap_rel_put_node [OF H2 _ _ node_rep_increment [OF R(2)]]) (use node_cell [OF O(1) p(1) lp] pne in auto)
  let ?A = "A1(b := None, a \<mapsto> join_leaf x y, p \<mapsto> close_parent i P)"
  have A: "A(a \<mapsto> join_leaf x y, b := None, p \<mapsto> close_parent i P) = ?A"
    using N(5) I(3) by (auto simp: fun_eq_iff)
  have T: "tree_inv h s ?A" by (rule merge_leaf_children [OF I(1) p1 lp p(3) kids x(1) lx y(1)])
  have M: "holds ?A M" by (rule holds_join [OF I(2,1) p1 lp p(3) kids x(1) lx y(1)])
  have "caches_ok c ?t3" by (intro caches_put) (rule O(2))
  then have "sh_ok c h s ?A ?t3" using H3 T O(3,4) by (simp add: sh_ok_def A)
  then show ?thesis by (rule sh_mapI [OF _ M])
qed

lemma acquire_neighbor_ok:
  assumes "heap_rel c t A" "A b = Some y" "c_level y = 0"
  shows "ends (\<lambda>(m, t'). keeps c t t' \<and> (\<forall>l. m = Some l \<longrightarrow> leaf_rep c l y \<and> length (c_pairs y) < SIZE (sc_degree c)))
     (s_acquire_neighbor fuel c (live b) t)"
  using assms(1)
proof (induction fuel arbitrary: t)
  case 0
  then show ?case by simp
next
  case (Suc fuel)
  show ?case
    unfolding s_acquire_neighbor.simps
  proof (rule ends_then [OF read_leaf_cell [OF Suc.prems assms(2,3)]])
    fix l assume l: "leaf_rep c l y \<and> st_leaves t b = Some l"
    show "ends (\<lambda>(m, t'). keeps c t t' \<and> (\<forall>l. m = Some l \<longrightarrow> leaf_rep c l y \<and> length (c_pairs y) < SIZE (sc_degree c)))
      (if s_full_leaf c l then Inr (None, t)
       else case s_acquire_leaf (live b) (lf_version l) t of (got, t) \<Rightarrow>
         if got then Inr (Some l, t) else s_acquire_neighbor fuel c (live b) t)"
    proof (intro ends_if acquire_leaf_case [where c = c], goal_cases)
      case 1
      show ?case by simp
    next
      case (2 got t')
      then show ?case using l full_leaf_rep [of c l y] rep_lengths(3) [of c l y] by fastforce
    next
      case (3 got t')
      show ?case
        by (rule ends_mono [OF Suc.IH [OF keepsD(1) [OF 3(2) Suc.prems]]]) (use keeps_trans [OF 3(2)] in auto)
    qed
  qed
qed

text \<open>The empty leaf, with the effect applied, merges with its neighbour.\<close>

lemma merge_either_leaf_ok:
  assumes C: "cfg_ok c" and E: "effect_ok c key g rv eff" and S: "sh_ok c h s A t" and H: "holds A M"
    and p: "A p = Some P" "node_rep (sc_degree c) cur P" "i < length (c_kids P)" "c_keys P \<noteq> []"
    and x: "A (c_kids P ! i) = Some x" "leaf_rep c l x" "c_pairs x = []" "c_low x < key" "key \<le> c_high x"
    and y: "A (c_kids P ! s_neighbor_bucket i) = Some y" "leaf_rep c merging y" "length (c_pairs y) < SIZE (sc_degree c)"
    and e: "eff l 0 = (r, l')"
    and m: "s_merge_leaf (sc_vs c) (sc_degree c) l' i merging (s_neighbor_bucket i) cur = (gone, empty_leaf, merged_leaf, parent')"
  defines "a \<equiv> live (c_kids P ! i)" and "b \<equiv> live (c_kids P ! s_neighbor_bucket i)"
  shows "r = rv (M key)"
    "sh_map c (put_node (live p) (sn_increment_version parent')
       (if gone then put_leaf a (lf_increment_version empty_leaf) (put_leaf b (lf_increment_version merged_leaf) t)
        else put_leaf b (lf_increment_version merged_leaf) (put_leaf a (lf_increment_version empty_leaf) t)))
     (M(key := g (M key)))"
proof -
  note O = sh_okD [OF S] and lp = node_repD(7) [OF p(2)] and lx = leaf_repD(7) [OF x(2)] and ly = leaf_repD(7) [OF y(2)]
  have e0: "eff l (rank key (map fst (c_pairs x))) = (r, l')" using e x(3) rank_le [of key "[]"] by simp
  have room: "length (c_pairs x) < SIZE (sc_degree c)" using x(3) by simp
  from effect_step [OF E x(2) room e0 O(3) H x(1,4,5)] obtain x' where x': "r = rv (M key)" "leaf_rep c l' x'"
    "length (c_pairs x') \<le> length (c_pairs x) + 1" "tree_inv h s (A(c_kids P ! i \<mapsto> x'))"
    "holds (A(c_kids P ! i \<mapsto> x')) (M(key := g (M key)))" by blast
  show "r = rv (M key)" by (rule x'(1))
  let ?A1 = "A(c_kids P ! i \<mapsto> x')"
  have n2: "1 < length (c_kids P)" using p(4) rep_lengths(2) [OF p(2)] by (cases "c_keys P") auto
  have ne: "c_kids P ! s_neighbor_bucket i \<noteq> c_kids P ! i"
  proof
    assume q: "c_kids P ! s_neighbor_bucket i = c_kids P ! i"
    have "s_neighbor_bucket i < length (c_kids P)" using p(3) n2 by (auto simp: s_neighbor_bucket_def)
    from kid_owner [OF O(3) p(1) lp this p(1) lp p(3) q] n2 show False by (auto simp: s_neighbor_bucket_def split: if_splits)
  qed
  have A1: "?A1 (c_kids P ! i) = Some x'" "?A1 (c_kids P ! s_neighbor_bucket i) = Some y" using ne y(1) by simp_all
  show "sh_map c (put_node (live p) (sn_increment_version parent')
       (if gone then put_leaf a (lf_increment_version empty_leaf) (put_leaf b (lf_increment_version merged_leaf) t)
        else put_leaf b (lf_increment_version merged_leaf) (put_leaf a (lf_increment_version empty_leaf) t)))
     (M(key := g (M key)))"
  proof (cases i)
    case 0
    obtain q p' where m0: "merge_into_left_leaf (sc_vs c) (sc_degree c) l' 0 merging cur = (q, p')" by (rule prod.exhaust)
    have f: "\<not> gone" "empty_leaf = q" "merged_leaf = sl_mark_deleted merging" "parent' = p'"
      using m 0 m0 by (simp_all add: s_merge_leaf_def)
    have b: "s_neighbor_bucket i = 0 + 1" using 0 by (simp add: s_neighbor_bucket_def)
    have i1: "0 + 1 < length (c_kids P)" using n2 by simp
    note M = merge_leaves_ok [OF C O(4,5,1,2) x'(4,5) [unfolded 0] _ x(1) [unfolded 0] lx y(1) [unfolded b] ly p(1,2) i1 refl refl
        A1(1) [unfolded 0] x'(2) A1(2) [unfolded b, unfolded 0] y(2) _ m0]
    show ?thesis unfolding f a_def b_def b 0 using M x'(3) x(3) y(3) 0 f(1) by (simp add: s_neighbor_bucket_def)
  next
    case (Suc j)
    have b: "s_neighbor_bucket i = j" using Suc by (simp add: s_neighbor_bucket_def)
    obtain q p' where m0: "merge_into_left_leaf (sc_vs c) (sc_degree c) merging j l' cur = (q, p')" by (rule prod.exhaust)
    have f: "gone" "empty_leaf = sl_mark_deleted l'" "merged_leaf = q" "parent' = p'"
      using m Suc m0 b by (simp_all add: s_merge_leaf_def)
    have i1: "j + 1 < length (c_kids P)" "i = j + 1" using p(3) Suc by simp_all
    note M = merge_leaves_ok [OF C O(4,5,1,2) x'(4,5) [unfolded i1(2)] _ y(1) [unfolded b] ly x(1) [unfolded i1(2)] lx p(1,2) i1(1) refl refl
        A1(2) [unfolded b, unfolded i1(2)] y(2) A1(1) [unfolded i1(2)] x'(2) _ m0]
    show ?thesis unfolding f a_def b_def b i1(2) using M x'(3) x(3) y(3) i1(2) f(1) by (simp add: s_neighbor_bucket_def)
  qed
qed

lemma merge_and_update_ok:
  assumes C: "cfg_ok c" and E: "effect_ok c key g rv eff" and k: "key < SENTINEL" and S: "sh_ok c h s A t" and H: "holds A M"
    and p: "A p = Some P" "node_rep (sc_degree c) cur P" "i < length (c_kids P)" "c_keys P \<noteq> []"
    and x: "A (c_kids P ! i) = Some x" "leaf_rep c l x" "c_pairs x = []" "c_low x < key" "key \<le> c_high x"
  shows "ends (\<lambda>(res, t'). done_ok c key True g rv M res t')
     (s_merge_and_update fuel c key eff (live p) cur i (live (c_kids P ! i)) l t)"
proof -
  note O = sh_okD [OF S] and lp = node_repD(7) [OF p(2)] and lx = leaf_repD(7) [OF x(2)]
  let ?j = "s_neighbor_bucket i"
  obtain y where y: "A (c_kids P ! ?j) = Some y" "c_level y = c_level P - 1" "?j < length (c_kids P)"
    by (rule neighbor_cell [OF O(3) p(1) lp p(3,4)])
  have "c_level x = c_level P - 1"
    using inner_okD(3) [OF cell_ok_inner [OF tree_invD(1) [OF O(3) p(1)] lp] p(3)] ranges_Some [of A "c_kids P ! i", OF x(1)]
    by (simp add: range_of_def)
  then have ly: "c_level y = 0" using lx y(2) by simp
  have q: "read_level (sc_degree c) cur (Some ?j) = live (c_kids P ! ?j)" by (rule kid_ptr [OF p(2) y(3)])
  show ?thesis
    unfolding s_merge_and_update_def Let_def q
  proof (rule ends_then [OF acquire_neighbor_ok [OF O(4) y(1) ly]], clarify, goal_cases)
    case (1 m t1)
    note K = 1(1) and M = 1(2)
    show ?case
    proof (cases m)
      case None
      have room: "length (c_pairs x) < SIZE (sc_degree c)" using x(3) by simp
      show ?thesis
        by (simp add: None, rule ends_then [OF s_update_leaf_ok [OF E k keepsD(2) [OF K S] H x(1,2) room x(4,5)]]) auto
    next
      case (Some merging)
      obtain r l' where e: "eff l 0 = (r, l')" by (rule prod.exhaust)
      obtain gone el ml p' where m: "s_merge_leaf (sc_vs c) (sc_degree c) l' i merging ?j cur = (gone, el, ml, p')"
        by (rule prod_cases4)
      have S1: "sh_ok c h s A (s_deallocate q t1)" for q by (rule keepsD(2) [OF keeps_trans [OF K deallocate_keeps] S])
      from M Some have y': "leaf_rep c merging y" "length (c_pairs y) < SIZE (sc_degree c)" by blast+
      note R = merge_either_leaf_ok [OF C E S1 H p x y(1) y' e m]
      show ?thesis using R by (simp add: Some e m)
    qed
  qed
qed

end
