(* ===== verification/ShDescend.thy ===== *)
theory ShDescend
  imports ShMerge
begin

text \<open>
  The descent of the Sherman tree. Wherever a traversal starts from, it holds a copy of a node of
  the tree whose range has the key; it ends at such a node right above the leaves, having split or
  merged on its way.
\<close>

declare split_paired_All [simp del] split_paired_Ex [simp del]

section \<open>Where a traversal is\<close>

text \<open>
  A thread that may change the tree has room in its node, or in the one below it: after a split
  the parent may be full, but the halves are not.
\<close>

definition room_below :: "nat \<Rightarrow> cells \<Rightarrow> int \<Rightarrow> cell \<Rightarrow> bool" where
  "room_below d A key P \<longleftrightarrow> length (c_keys P) < SIZE d \<or>
     (\<exists>x. A (c_kids P ! rank key (c_keys P)) = Some x \<and> 0 < c_level x \<and> c_keys x \<noteq> [] \<and> length (c_keys x) < SIZE d)"

definition ready :: "scfg \<Rightarrow> int \<Rightarrow> bool \<Rightarrow> (int \<Rightarrow> int option) \<Rightarrow> ptr \<Rightarrow> snode \<Rightarrow> int \<Rightarrow> stree \<Rightarrow> bool" where
  "ready c key modifiable M p cur height t \<longleftrightarrow> (\<exists>h s A a P. sh_ok c h s A t \<and> holds A M \<and> p = live a \<and> A a = Some P \<and>
     node_rep (sc_degree c) cur P \<and> height = int (c_level P) \<and> c_low P < key \<and> key \<le> c_high P \<and>
     (modifiable \<longrightarrow> room_below (sc_degree c) A key P))"

lemma readyI:
  "sh_ok c h s A t \<Longrightarrow> holds A M \<Longrightarrow> A a = Some P \<Longrightarrow> node_rep (sc_degree c) cur P \<Longrightarrow> height = int (c_level P) \<Longrightarrow>
   c_low P < key \<Longrightarrow> key \<le> c_high P \<Longrightarrow> (modifiable \<Longrightarrow> room_below (sc_degree c) A key P) \<Longrightarrow>
   ready c key modifiable M (live a) cur height t"
  unfolding ready_def by blast

lemma room_belowI: "length (c_keys P) < SIZE d \<Longrightarrow> room_below d A key P"
  by (simp add: room_below_def)

section \<open>Splitting the child\<close>

lemma split_child_ok:
  assumes C: "cfg_ok c" and S: "sh_ok c h s A t" and H: "holds A M"
    and p: "A a = Some P" "node_rep (sc_degree c) parent P" "length (c_keys P) < SIZE (sc_degree c)" "c_low P < key" "key \<le> c_high P"
    and x: "A (c_kids P ! rank key (c_keys P)) = Some x" "node_rep (sc_degree c) n x" "length (c_keys x) = SIZE (sc_degree c)"
  shows "ends (\<lambda>t'. \<exists>A' P'. sh_ok c h s A' t' \<and> holds A' M \<and> A' a = Some P' \<and> range_of P' = range_of P \<and>
       room_below (sc_degree c) A' key P')
     (s_split_child c (live a) parent (live (c_kids P ! rank key (c_keys P))) n t)"
proof -
  let ?b = "c_kids P ! rank key (c_keys P)" and ?d = "sc_degree c"
  let ?post = "\<lambda>t'. \<exists>A' P'. sh_ok c h s A' t' \<and> holds A' M \<and> A' a = Some P' \<and> range_of P' = range_of P \<and> room_below ?d A' key P'"
  note lp = node_repD(7) [OF p(2)] and lx = node_repD(7) [OF x(2)]
  note I = sh_okD(3) [OF S]
  have rk: "rank key (c_keys P) < length (c_kids P)" using rank_le [of key "c_keys P"] rep_lengths(2) [OF p(2)] by simp
  have same: "?post t'" if "keeps c t t'" for t'
    using keepsD(2) [OF that S] H p(1) room_belowI [OF p(3)] by blast
  have split: "ends ?post (s_split_inner_node c (live a) parent (live ?b) n t')" if K: "keeps c t t'" for t'
  proof -
    obtain y A' t2 where s: "s_split_inner_node c (live a) parent (live ?b) n t' = Inr t2" "sh_ok c h s A' t2" "holds A' M"
      "A' ?b = Some (lower_half ?d x)" "A' y = Some (upper_half ?d x)" "ranges A' a = ranges A a"
      using split_inner_node_ok [OF C keepsD(2) [OF K S] H p(1-3) rk refl x] by blast
    obtain P' where P': "A' a = Some P'" "range_of P' = range_of P"
      using s(6) ranges_Some [of A a, OF p(1)] by (auto simp: ranges_def)
    then have r: "c_level P' = c_level P" "c_low P' = c_low P" "c_high P' = c_high P" by (simp_all add: range_of_def)
    note I' = sh_okD(3) [OF s(2)]
    obtain z where z: "A' (c_kids P' ! rank key (c_keys P')) = Some z" "c_level z = c_level P' - 1" "c_low z < key" "key \<le> c_high z"
      by (rule child_cell [OF I' P'(1)]) (use r lp p(4,5) in simp_all)
    obtain x1 where x1: "A ?b = Some x1" "c_level x1 = c_level P - 1" "c_low x1 < key" "key \<le> c_high x1"
      by (rule child_cell [OF I p(1) lp p(4,5)])
    have xr: "c_level x = c_level P - 1" "c_low x < key" "key \<le> c_high x" using x1 x(1) by simp_all
    have d: "?d < length (c_keys x)" using x(3) by (simp add: SIZE_def)
    have "z = lower_half ?d x \<or> z = upper_half ?d x"
    proof (cases "key \<le> c_keys x ! ?d")
      case True
      have "c_kids P' ! rank key (c_keys P') = ?b"
        by (rule same_cell [OF I' z(1) s(4) _ z(3,4)]) (use z(2) r(1) xr True in \<open>simp_all add: lower_half_def\<close>)
      then show ?thesis using z(1) s(4) by simp
    next
      case False
      have "c_kids P' ! rank key (c_keys P') = y"
        by (rule same_cell [OF I' z(1) s(5) _ z(3,4)]) (use z(2) r(1) xr False in \<open>simp_all add: upper_half_def\<close>)
      then show ?thesis using z(1) s(5) by simp
    qed
    then have "c_keys z \<noteq> []" "length (c_keys z) < SIZE ?d" "0 < c_level z"
      using x(3) cfg_okD(1) [OF C] lx by (auto simp: lower_half_def upper_half_def SIZE_def)
    then have "room_below ?d A' key P'" unfolding room_below_def using z(1) by blast
    then show ?thesis using s(1-3) P' by auto
  qed
  show ?thesis
    unfolding s_split_child_def
  proof (intro ends_if acquire_node_case [where c = c], goal_cases)
    case (1 b t1)
    then show ?case using same by simp
  next
    case (2 b t1 b2 t2)
    show ?case using same [OF keeps_trans [OF keeps_trans [OF 2(1,3)] release_keeps(2)]] by simp
  next
    case (3 b t1 b2 t2)
    show ?case by (rule split [OF keeps_trans [OF 3(1,3)]])
  qed
qed

section \<open>The descent\<close>

text \<open>Reading a node again after its children have changed, and going on from it.\<close>

lemma read_ready:
  assumes S: "sh_ok c h s A t" "holds A M" and a: "A a = Some P" "0 < c_level P" "height = int (c_level P)" "c_low P < key" "key \<le> c_high P"
    and room: "modifiable \<Longrightarrow> room_below (sc_degree c) A key P"
    and go: "\<And>n. ready c key modifiable M (live a) n height t \<Longrightarrow> ends Q (f n)"
  shows "ends Q (then_do (s_read_node c (live a) bh t) f)"
proof (rule ends_then [OF read_node_cell [OF sh_okD(4) [OF S(1)] a(1,2)]])
  fix n assume "node_rep (sc_degree c) n P \<and> st_nodes t a = Some n"
  then show "ends Q (f n)" using S a room by (intro go readyI) auto
qed

text \<open>One step down to the child \<open>n\<close>, where \<open>go\<close> is how the descent goes on from a node.\<close>

lemma descend_merge_ok:
  assumes k: "key < SENTINEL" and S: "sh_ok c h s A t" "holds A M"
    and p: "A a = Some P" "node_rep (sc_degree c) cur P" "c_low P < key" "key \<le> c_high P" "room_below (sc_degree c) A key P"
    and x: "A (c_kids P ! rank key (c_keys P)) = Some x" "node_rep (sc_degree c) n x" "c_level x = c_level P - 1"
      "c_low x < key" "key \<le> c_high x" "rank key (c_keys P) < length (c_kids P)"
    and e: "c_keys x = []" "c_keys P \<noteq> []"
    and stay: "\<And>cur t. ready c key True M (live a) cur (int (c_level P)) t \<Longrightarrow> ends Q (f cur t)"
    and down: "\<And>t. ready c key True M (live (c_kids P ! rank key (c_keys P))) n (int (c_level P) - 1) t \<Longrightarrow> ends Q (g t)"
  shows "ends Q (case search_node (sc_degree c) (bn_key_at cur) key of
      None \<Rightarrow> Inl Index_out_of_bounds
    | Some bucket \<Rightarrow>
        then_do (s_merge_child c (live a) cur (live (c_kids P ! rank key (c_keys P))) n bucket t) (\<lambda>(merged, t).
          if merged then then_do (s_read_node c (live a) LOOK_FOR_SPLIT_MERGE t) (\<lambda>cur. f cur t) else g t))"
proof -
  note lp = node_repD(7) [OF p(2)] and lx = node_repD(7) [OF x(2)]
  have "length (c_keys P) < SIZE (sc_degree c)" using p(5) x(1) e(1) by (auto simp: room_below_def)
  then have b: "search_node (sc_degree c) (bn_key_at cur) key = Some (rank key (c_keys P))" by (rule child_bucket [OF p(2) k])
  show ?thesis unfolding b option.case
  proof (rule ends_then [OF merge_child_ok [OF S p(1,2) x(6) e(2) x(1,2) e(1)]], clarify, goal_cases)
    case (1 merged t' A')
    show ?case
    proof (cases merged)
      case True
      with 1(4) obtain P' where P': "A' a = Some P'" "range_of P' = range_of P" "length (c_keys P') < SIZE (sc_degree c)" by blast
      have "ends Q (then_do (s_read_node c (live a) LOOK_FOR_SPLIT_MERGE t') (\<lambda>cur. f cur t'))"
        by (rule read_ready [OF 1(1,2) P'(1) _ _ _ _ room_belowI [OF P'(3)] stay])
          (use P'(2) p(3,4) lp in \<open>simp_all add: range_of_def\<close>)
      with True show ?thesis by simp
    next
      case False
      then have "sh_ok c h s A t'" using 1 by simp
      then have "ready c key True M (live (c_kids P ! rank key (c_keys P))) n (int (c_level P) - 1) t'"
        using x e(1) lx by (intro readyI [OF _ S(2)] room_belowI) auto
      with False down show ?thesis by simp
    qed
  qed
qed

lemma descend_ok:
  assumes C: "cfg_ok c" and k: "key < SENTINEL" and R: "ready c key modifiable M p cur height t"
  shows "ends (\<lambda>(p', cur', t'). ready c key modifiable M p' cur' 1 t') (s_descend fuel c key modifiable jr height p cur t)"
  using R
proof (induction fuel arbitrary: jr height p cur t)
  case 0
  then show ?case by simp
next
  case (Suc fuel)
  let ?d = "sc_degree c" and ?post = "\<lambda>(p', cur', t'). ready c key modifiable M p' cur' 1 t'"
  let ?go = "\<lambda>height p cur t. s_descend fuel c key modifiable False height p cur t"
  obtain h s A a P where S: "sh_ok c h s A t" and H: "holds A M" and p: "p = live a" "A a = Some P" "node_rep ?d cur P"
    "height = int (c_level P)" "c_low P < key" "key \<le> c_high P" "modifiable \<Longrightarrow> room_below ?d A key P"
    using Suc.prems unfolding ready_def by blast
  show ?case
  proof (cases "height = 1")
    case True
    then show ?thesis using Suc.prems by simp
  next
    case False
    note O = sh_okD [OF S] and lp = node_repD(7) [OF p(3)]
    let ?b = "c_kids P ! rank key (c_keys P)"
    obtain x where x: "A ?b = Some x" "c_level x = c_level P - 1" "c_low x < key" "key \<le> c_high x"
      "rank key (c_keys P) < length (c_kids P)" by (rule child_cell [OF O(3) p(2) lp p(5,6)])
    have lx: "0 < c_level x" "int (c_level x) = height - 1" using x(2) p(4) lp False by auto
    have nl: "read_level ?d cur (search_node ?d (bn_key_at cur) key) = live ?b" by (rule child_ptr [OF p(3) k])
    let ?step = "\<lambda>bh n t.
        if modifiable \<and> s_full_node c n then
          then_do (s_split_child c p cur (live ?b) n t) (\<lambda>t. then_do (s_read_node c p bh t) (\<lambda>cur. ?go height p cur t))
        else if modifiable \<and> bn_key_at n 0 = SENTINEL \<and> bn_key_at cur 0 \<noteq> SENTINEL then
          (case search_node ?d (bn_key_at cur) key of
             None \<Rightarrow> Inl Index_out_of_bounds
           | Some bucket \<Rightarrow>
               then_do (s_merge_child c p cur (live ?b) n bucket t) (\<lambda>(merged, t).
                 if merged then then_do (s_read_node c p LOOK_FOR_SPLIT_MERGE t) (\<lambda>cur. ?go height p cur t)
                 else ?go (height - 1) (live ?b) n t))
        else ?go (height - 1) (live ?b) n t"
    have "ends ?post (then_do (s_read_node c (live ?b) bh t) (\<lambda>n. ?step bh n (note_root_child jr (live ?b) n t)))" for bh
    proof (rule ends_then [OF read_node_cell [OF O(4) x(1) lx(1)]])
      fix n assume n: "node_rep ?d n x \<and> st_nodes t ?b = Some n"
      let ?t = "note_root_child jr (live ?b) n t"
      have S': "sh_ok c h s A ?t" using note_root_child_ok [OF O(5), of ?b jr n] n same_heap_ok [OF _ _ S] by simp
      show "ends ?post (?step bh n ?t)"
      proof (intro ends_if, goal_cases)
        case 1
        have f: "length (c_keys x) = SIZE ?d" using 1 n full_node_rep [of c n x] by simp
        then have "length (c_keys P) < SIZE ?d" using p(7) 1 x(1) by (auto simp: room_below_def)
        note Q = split_child_ok [OF C S' H p(2,3) this p(5,6) x(1) n [THEN conjunct1] f, folded p(1)]
        show ?case
        proof (rule ends_then [OF Q], clarify, goal_cases)
          case (1 t' A' P')
          show ?case unfolding p(1)
            by (rule read_ready [OF 1(1-3) _ _ _ _ 1(5) Suc.IH]) (use 1(4) p(4-6) lp in \<open>simp_all add: range_of_def\<close>)
        qed
      next
        case 2
        have e: "c_keys x = []" "c_keys P \<noteq> []" using 2 n p(3) empty_node_rep by auto
        have rm: "room_below ?d A key P" using 2 p(7) by simp
        show ?case unfolding p(1)
          by (rule descend_merge_ok [OF k S' H p(2,3,5,6) rm x(1) n [THEN conjunct1] x(2-5) e]) (use 2 p(4) Suc.IH in simp_all)
      next
        case 3
        have "modifiable \<Longrightarrow> length (c_keys x) < SIZE ?d"
          using 3 n full_node_rep [of c n x] rep_lengths(1) [of ?d n x] by fastforce
        then show ?case using n x lx by (intro Suc.IH readyI [OF S' H x(1)]) (auto intro: room_belowI)
      qed
    qed
    then show ?thesis unfolding s_descend.simps Let_def nl using False by simp
  qed
qed

end
