(* ===== verification/ShRefine.thy ===== *)
theory ShRefine
  imports ShDescend
begin

text \<open>
  The operations of the Sherman tree are those of a map, whatever the client's caches hold and
  whichever locks are lost: an attempt of \<open>traverse\<close> ends at the leaf of the key or starts over
  with the tree still holding the map.
\<close>

declare split_paired_All [simp del] split_paired_Ex [simp del]

lemma sh_mapE:
  assumes "sh_map c t M"
  obtains h s A where "sh_ok c h s A t" "holds A M"
  using assms unfolding sh_map_def by blast

lemma keeps_map: "keeps c t t' \<Longrightarrow> sh_map c t M \<Longrightarrow> sh_map c t' M"
  unfolding sh_map_def using keepsD(2) by blast

lemma same_heap_map: "same_heap t t' \<Longrightarrow> caches_ok c t' \<Longrightarrow> sh_map c t M \<Longrightarrow> sh_map c t' M"
  unfolding sh_map_def using same_heap_ok by blast

lemma leaf_holdsI:
  assumes "sh_ok c h s A t" "holds A M" "A a = Some x" "leaf_rep c l x" "c_low x < key" "key \<le> c_high x"
  shows "leaf_holds c key M l t"
  unfolding leaf_holds_def using assms by blast

lemma leaf_holds_value:
  assumes "leaf_holds c key M l t"
  obtains x where "leaf_rep c l x" "map_of (c_pairs x) key = M key"
  using assms holdsD leaf_repD(7) unfolding leaf_holds_def by metis

section \<open>At the leaf\<close>

lemma leaf_stage_ok:
  assumes C: "cfg_ok c" and E: "effect_ok c key g rv eff" and k: "key < SENTINEL"
    and R: "ready c key modifiable M p cur 1 t"
  shows "ends (\<lambda>(res, t'). done_ok c key modifiable g rv M res t') (s_leaf_stage fuel c key modifiable eff p cur t)"
proof -
  let ?d = "sc_degree c" and ?post = "\<lambda>(res, t'). done_ok c key modifiable g rv M res t'"
  obtain h s A a P where S: "sh_ok c h s A t" and H: "holds A M" and p: "p = live a" "A a = Some P" "node_rep ?d cur P"
    "c_level P = 1" "c_low P < key" "key \<le> c_high P" "modifiable \<Longrightarrow> room_below ?d A key P"
    using R unfolding ready_def by auto
  note O = sh_okD [OF S] and lp = node_repD(7) [OF p(3)]
  let ?b = "c_kids P ! rank key (c_keys P)"
  obtain x where x: "A ?b = Some x" "c_level x = c_level P - 1" "c_low x < key" "key \<le> c_high x"
    "rank key (c_keys P) < length (c_kids P)" by (rule child_cell [OF O(3) p(2) lp p(5,6)])
  have lx: "c_level x = 0" using x(2) p(4) by simp
  have room: "modifiable \<Longrightarrow> length (c_keys P) < SIZE ?d" using p(7) x(1) lx by (auto simp: room_below_def)
  have nl: "read_level ?d cur (search_node ?d (bn_key_at cur) key) = live ?b" by (rule child_ptr [OF p(3) k])
  have page: "page_ok c (st_leaves t) cur" unfolding page_ok_def
  proof (intro exI conjI ballI)
    show "node_rep ?d cur P" by (rule p(3))
    fix b assume "b \<in> set (c_kids P)"
    from kid_range [OF tree_invD(1) [OF O(3) p(2)] lp this] p(4) obtain y where "A b = Some y" "c_level y = 0"
      by (auto elim: ranges_SomeE)
    from leaf_cell(1) [OF O(4) this] show "st_leaves t b \<noteq> None" by auto
  qed
  have "ends ?post (then_do (s_read_leaf c (live ?b) bh t) (\<lambda>leaf.
      if \<not> sl_key_in_range leaf key then Inr (SRetry, t)
      else then_do (ix_add c cur t) (\<lambda>(_, t).
      if \<not> modifiable then Inr (SDone None leaf, t)
      else case s_acquire_leaf (live ?b) (lf_version leaf) t of (got_leaf, t) \<Rightarrow>
        if \<not> got_leaf then Inr (SRetry, t)
        else if \<not> s_full_leaf c leaf \<and> (lf_key_at leaf 0 \<noteq> SENTINEL \<or> bn_key_at cur 0 = SENTINEL)
        then s_update_leaf c key eff (live ?b) leaf t
        else case s_acquire_node p (bn_version cur) t of (got_curr, t) \<Rightarrow>
          if \<not> got_curr then Inr (SRetry, s_release_leaf (live ?b) (lf_version leaf) t)
          else if s_full_leaf c leaf then s_split_and_update c key eff p cur (live ?b) leaf t
          else if lf_key_at leaf 0 = SENTINEL \<and> bn_key_at cur 0 \<noteq> SENTINEL then
            (case search_node ?d (bn_key_at cur) key of
               None \<Rightarrow> Inl Index_out_of_bounds
             | Some bucket \<Rightarrow> s_merge_and_update fuel c key eff p cur bucket (live ?b) leaf t)
          else Inl Assertion_failed)))" for bh
    unfolding p(1)
  proof (rule ends_then [OF read_leaf_cell [OF O(4) x(1) lx]], intro ends_if ends_then [OF ix_add_ok [OF O(5) page]],
      goal_cases)
    case (1 l)
    then show ?case using leaf_in_range(1) [of c l x] x by simp
  next
    case (2 l r)
    obtain r0 t1 where r: "r = (r0, t1)" by (rule prod.exhaust)
    have L: "leaf_rep c l x" using 2(1) by blast
    have S1: "sh_ok c h s A t1" using 2(3) r same_heap_ok [OF _ _ S] by simp
    have S2: "sh_ok c h s A t'" if "keeps c t1 t'" for t' by (rule keepsD(2) [OF that S1])
    have map: "sh_map c t' M" if "keeps c t1 t'" for t' by (rule sh_mapI [OF S2 [OF that] H])
    have len: "\<not> s_full_leaf c l \<Longrightarrow> length (c_pairs x) < SIZE ?d" "s_full_leaf c l \<Longrightarrow> length (c_pairs x) = SIZE ?d"
      using full_leaf_rep [OF L] rep_lengths(3) [OF L] by auto
    show ?case unfolding r prod.case
    proof (intro ends_if acquire_leaf_case [where c = c] acquire_node_case [where c = c], goal_cases)
      case 1
      then show ?case using sh_mapI [OF S1 H] leaf_holdsI [OF S1 H x(1) L x(3,4)] by simp
    next
      case (2 b1 t2)
      then show ?case using map by simp
    next
      case (3 b1 t2)
      show ?case
        by (rule ends_mono [OF s_update_leaf_ok [OF E k S2 [OF 3(2)] H x(1) L _ x(3,4)]]) (use 3 len in auto)
    next
      case (4 b1 t2 b2 t3)
      show ?case using map [OF keeps_trans [OF keeps_trans [OF 4(2,5)] release_keeps(3)]] by simp
    next
      case (5 b1 t2 b2 t3)
      have m: "modifiable = True" using 5(1) by simp
      show ?case unfolding m
        by (rule split_and_update_ok [OF C E k S2 [OF keeps_trans [OF 5(2,5)]] H p(2,3) room [unfolded m, OF TrueI] x(5) refl x(1) L
              len(2) [OF 5(7)] x(3,4)])
    next
      case (6 b1 t2 b2 t3)
      have m: "modifiable = True" using 6(1) by simp
      have e: "c_pairs x = []" "c_keys P \<noteq> []" using 6(8) empty_leaf_rep [OF L] empty_node_rep [OF p(3)] by auto
      show ?case unfolding m child_bucket [OF p(3) k room [unfolded m, OF TrueI]] option.case
        by (rule merge_and_update_ok [OF C E k S2 [OF keeps_trans [OF 6(2,5)]] H p(2,3) x(5) e(2) x(1) L e(1) x(3,4)])
    next
      case (7 b1 t2 b2 t3)
      then show ?case by simp
    qed
  qed
  then show ?thesis
    using leaf_in_range(2) [OF p(3)] p(5,6) unfolding s_leaf_stage_def Let_def nl by simp
qed

section \<open>Through the index\<close>

text \<open>
  The leaf the index names may be any leaf that ever was. If it is not deleted and its range has
  the key, it is the leaf of the key.
\<close>

lemma fast_path_ok:
  assumes E: "effect_ok c key g rv eff" and k: "key < SENTINEL" and T: "sh_map c t M"
  shows "ends (\<lambda>(res, t'). case res of None \<Rightarrow> sh_map c t' M | Some res \<Rightarrow> done_ok c key modifiable g rv M res t')
     (s_fast_path c key modifiable eff t)"
proof -
  let ?post = "\<lambda>(res, t'). case res of None \<Rightarrow> sh_map c t' M | Some res \<Rightarrow> done_ok c key modifiable g rv M res t'"
  obtain h s A where S0: "sh_ok c h s A t" and H: "holds A M" by (rule sh_mapE [OF T])
  show ?thesis
    unfolding s_fast_path_def
  proof (rule ends_then [OF ix_search_ok [OF sh_okD(5) [OF S0] k]], clarify, goal_cases)
    case (1 found t1)
    note S = same_heap_ok [OF 1(1,2) S0]
    note O = sh_okD [OF S]
    show ?case
    proof (cases found)
      case None
      then show ?thesis using sh_mapI [OF S H] by simp
    next
      case (Some p)
      with 1(1,3) obtain a l where a: "p = live a" "st_leaves t1 a = Some l" by (auto simp: same_heap_def)
      have "ends ?post (then_do (s_read_leaf c (live a) bh t1) (\<lambda>leaf.
             if sl_key_in_range leaf key then
               (if \<not> modifiable then Inr (Some (SDone None leaf), t1)
                else if s_full_leaf c leaf then Inr (None, t1)
                else case s_acquire_leaf (live a) (lf_version leaf) t1 of (got, t) \<Rightarrow>
                  if got then then_do (s_update_leaf c key eff (live a) leaf t) (\<lambda>(res, t). Inr (Some res, t))
                  else Inr (Some SRestart, t))
             else then_do (ix_invalidate c key t1) (\<lambda>(_, t). Inr (None, t))))" for bh
      proof (rule ends_then [OF read_leaf_any [OF a(2)]], hypsubst,
          intro ends_if acquire_leaf_case [where c = c], goal_cases)
        case 1
        then have r: "sl_key_in_range l key" by simp
        then have "\<not> sl_is_deleted l" by (simp add: sl_key_in_range_def)
        from heap_relD(2) [OF O(4) a(2) this] obtain x where x: "A a = Some x" "leaf_rep c l x" by blast
        have "leaf_holds c key M l t1" using leaf_holdsI [OF S H x] r leaf_in_range(1) [OF x(2)] by simp
        then show ?case using 1 sh_mapI [OF S H] by simp
      next
        case 2
        then show ?case using sh_mapI [OF S H] by simp
      next
        case (3 b t2)
        then have r: "sl_key_in_range l key" by simp
        then have "\<not> sl_is_deleted l" by (simp add: sl_key_in_range_def)
        from heap_relD(2) [OF O(4) a(2) this] obtain x where x: "A a = Some x" "leaf_rep c l x" by blast
        have room: "length (c_pairs x) < SIZE (sc_degree c)"
          using 3(3) full_leaf_rep [OF x(2)] rep_lengths(3) [OF x(2)] by fastforce
        have "modifiable = True" using 3(2) by simp
        then show ?case
          by simp (rule ends_then [OF s_update_leaf_ok [OF E k keepsD(2) [OF 3(4) S] H x room]];
            use r leaf_in_range(1) [OF x(2)] in auto)
      next
        case (4 b t2)
        then show ?case using sh_mapI [OF keepsD(2) [OF 4(4) S] H] by simp
      next
        case 5
        show ?case
          by (rule ends_then [OF ix_invalidate_ok [OF O(5)]]) (use same_heap_map sh_mapI [OF S H] in auto)
      qed
      then show ?thesis by (simp add: Some a(1))
    qed
  qed
qed

section \<open>From the table and from the root\<close>

lemma find_ptr_in: "find_ptr es key = Some p \<Longrightarrow> \<exists>e \<in> set es. e_ptr e = Some p"
  by (induction es) (auto split: if_splits)

lemma from_backup_ok:
  assumes T: "sh_map c t M"
  shows "ends (\<lambda>(start, t'). case start of None \<Rightarrow> sh_map c t' M | Some (p, cur, height) \<Rightarrow> ready c key modifiable M p cur height t')
     (s_from_backup c key modifiable t)"
proof -
  let ?post = "\<lambda>(start, t'). case start of None \<Rightarrow> sh_map c t' M | Some (p, cur, height) \<Rightarrow> ready c key modifiable M p cur height t'"
  obtain h s A where S: "sh_ok c h s A t" and H: "holds A M" by (rule sh_mapE [OF T])
  note O = sh_okD [OF S]
  show ?thesis
  proof (cases "find_ptr (st_backup t) key")
    case None
    then show ?thesis using T by (simp add: s_from_backup_def)
  next
    case (Some p)
    from find_ptr_in [OF Some] obtain e where "e \<in> set (st_backup t)" "e_ptr e = Some p" by blast
    with O(5) obtain a n where a: "p = (a, False)" "st_nodes t a = Some n" unfolding caches_ok_def by blast
    have "ends ?post (then_do (s_read_node c (live a) bh t) (\<lambda>curr.
            if \<not> sn_key_in_range curr key then Inr (None, t\<lparr>st_backup := root_invalidate key (st_backup t)\<rparr>)
            else if s_full_node c curr then Inr (None, t)
            else Inr (Some (live a, curr, sn_get_level curr), t)))" for bh
    proof (rule ends_then [OF read_node_any [OF a(2)]], hypsubst, intro ends_if, goal_cases)
      case 1
      have "same_heap t (t\<lparr>st_backup := root_invalidate key (st_backup t)\<rparr>)" by (simp add: same_heap_def)
      from same_heap_map [OF this root_invalidate_ok [OF O(5)] T] show ?case by simp
    next
      case 2
      then show ?case using T by simp
    next
      case 3
      then have "\<not> sn_is_deleted n" by (simp add: sn_key_in_range_def)
      from heap_relD(1) [OF O(4) a(2) this] obtain x where x: "A a = Some x" "node_rep (sc_degree c) n x" by blast
      have "length (c_keys x) < SIZE (sc_degree c)"
        using 3(2) full_node_rep [OF x(2)] rep_lengths(1) [OF x(2)] by fastforce
      then have "ready c key modifiable M (live a) n (sn_get_level n) t"
        using 3(1) leaf_in_range(2) [OF x(2)] node_repD(5) [OF x(2)]
        by (intro readyI [OF S H x] room_belowI) (simp_all add: sn_get_level_def)
      then show ?case by simp
    qed
    then show ?thesis using Some a(1) by (simp add: s_from_backup_def)
  qed
qed

lemma only_leaf_ok:
  assumes C: "cfg_ok c" and E: "effect_ok c key g rv eff" and k: "INT_MIN < key" "key < SENTINEL"
    and S: "sh_ok c 0 s A t" and H: "holds A M"
  shows "ends (\<lambda>(res, t'). done_ok c key modifiable g rv M res t') (s_only_leaf c key modifiable eff (st_root t) t)"
proof -
  let ?post = "\<lambda>(res, t'). done_ok c key modifiable g rv M res t'"
  note O = sh_okD [OF S]
  obtain x where x: "A s = Some x" "c_level x = 0" "c_low x = INT_MIN" "c_high x = SENTINEL"
    using tree_invD(4) [OF O(3)] by (auto elim: ranges_SomeE)
  have "ends ?post (then_do (s_read_leaf c (live s) bh t) (\<lambda>leaf.
        if \<not> modifiable then Inr (SDone None leaf, t)
        else case s_acquire_root (root_version (st_root t)) t of (got_root, t') \<Rightarrow>
          if \<not> got_root then Inr (SRestart, t')
          else case s_acquire_leaf (live s) (lf_version leaf) t' of (got_leaf, t') \<Rightarrow>
            if \<not> got_leaf then Inr (SRestart, s_release_root (root_version (st_root t)) t')
            else if s_full_leaf c leaf then Inr (SRestart, s_split_root_leaf c (st_root t) (live s) leaf t')
            else then_do (s_apply_effect c key eff leaf) (\<lambda>(r, updated).
              Inr (SDone (Some r) leaf, put_leaf (live s) (lf_increment_version updated) (s_release_root (root_version (st_root t)) t')))))" for bh
  proof (rule ends_then [OF read_leaf_cell [OF O(4) x(1,2)]],
      intro ends_if acquire_leaf_case [where c = c] acquire_root_case [where c = c], goal_cases)
    case (1 l)
    then show ?case using sh_mapI [OF S H] leaf_holdsI [OF S H x(1), of l key] x(3,4) k by simp
  next
    case (2 l b t1)
    then show ?case using sh_mapI [OF keepsD(2) [OF 2(3) S] H] by simp
  next
    case (3 l b t1 b2 t2)
    show ?case using sh_mapI [OF keepsD(2) [OF keeps_trans [OF keeps_trans [OF 3(3,5)] release_keeps(1)] S] H] by simp
  next
    case (4 l b t1 b2 t2)
    have "leaf_rep c l x" using 4(1) by blast
    with split_root_leaf_ok [OF C keepsD(2) [OF keeps_trans [OF 4(3,5)] S] H x(1) this] 4(7) full_leaf_rep [OF this] O(1)
    show ?case by simp
  next
    case (5 l b t1 b2 t2)
    have L: "leaf_rep c l x" using 5(1) by blast
    have room: "length (c_pairs x) < SIZE (sc_degree c)" using 5(7) full_leaf_rep [OF L] rep_lengths(3) [OF L] by fastforce
    have S2: "sh_ok c 0 s A (s_release_root (root_version (st_root t)) t2)"
      by (rule keepsD(2) [OF keeps_trans [OF keeps_trans [OF 5(3,5)] release_keeps(1)] S])
    have m: "modifiable = True" using 5(2) by simp
    show ?case unfolding m
      by (rule ends_then [OF update_leaf_ok [OF E k(2) S2 H x(1) L room]]) (use x(3,4) k in auto)
  qed
  then show ?thesis unfolding s_only_leaf_def Let_def O(2) by simp
qed

lemma from_root_ok:
  assumes C: "cfg_ok c" and E: "effect_ok c key g rv eff" and k: "INT_MIN < key" "key < SENTINEL" and T: "sh_map c t M"
  shows "ends (\<lambda>(res, t'). case res of Inl res \<Rightarrow> done_ok c key modifiable g rv M res t'
      | Inr (p, cur, height) \<Rightarrow> ready c key modifiable M p cur height t')
     (s_from_root c key modifiable eff t)"
proof -
  let ?post = "\<lambda>(res, t'). case res of Inl res \<Rightarrow> done_ok c key modifiable g rv M res t'
      | Inr (p, cur, height) \<Rightarrow> ready c key modifiable M p cur height t'"
  obtain h s A where S: "sh_ok c h s A t" and H: "holds A M" by (rule sh_mapE [OF T])
  note O = sh_okD [OF S]
  show ?thesis
  proof (cases "h = 0")
    case True
    have "ends ?post (then_do (s_only_leaf c key modifiable eff (st_root t) t) (\<lambda>(res, t). Inr (Inl res, t)))"
      by (rule ends_then [OF only_leaf_ok [OF C E k S [unfolded True] H]]) auto
    then show ?thesis using True O(1) by (simp add: s_from_root_def)
  next
    case False
    obtain x where x: "A s = Some x" "c_level x = h" "c_low x = INT_MIN" "c_high x = SENTINEL"
      using tree_invD(4) [OF O(3)] by (auto elim: ranges_SomeE)
    have lx: "0 < c_level x" using x(2) False by simp
    have "ends ?post (then_do (s_read_node c (live s) bh t) (\<lambda>curr.
          if modifiable \<and> s_full_node c curr then Inr (Inl SRestart, s_split_at_root c (st_root t) (live s) curr t)
          else if modifiable \<and> bn_key_at curr 0 = SENTINEL then Inr (Inl SRestart, s_lower_root (st_root t) (live s) curr t)
          else Inr (Inr (live s, curr, int (r_height (st_root t))), t)))" for bh
    proof (rule ends_then [OF read_node_cell [OF O(4) x(1) lx]], intro ends_if, goal_cases)
      case (1 n)
      then have N: "node_rep (sc_degree c) n x" "length (c_keys x) = SIZE (sc_degree c)" using full_node_rep [of c n x] by auto
      have "sh_map c (s_split_at_root c (st_root t) (live s) n t) M"
      proof -
        obtain b1 t1 where a1: "s_acquire_root (root_version (st_root t)) t = (b1, t1)" by (rule prod.exhaust)
        obtain b2 t2 where a2: "s_acquire_node (live s) (bn_version n) t1 = (b2, t2)" by (rule prod.exhaust)
        note K1 = acquire_root_keeps(1) [OF a1, of c] and K2 = keeps_trans [OF acquire_root_keeps(1) [OF a1] acquire_node_keeps [OF a2], of c]
        show ?thesis using keeps_map [OF K1 T] keeps_map [OF keeps_trans [OF K2 release_keeps(1)] T]
            split_root_node_ok [OF C keepsD(2) [OF K2 S] H x(1) N O(1)] by (simp add: s_split_at_root_def a1 a2)
      qed
      then show ?case by simp
    next
      case (2 n)
      then have N: "node_rep (sc_degree c) n x" "c_keys x = []" using empty_node_rep [of "sc_degree c" n x] by auto
      have "sh_map c (s_lower_root (st_root t) (live s) n t) M"
      proof -
        obtain b1 t1 where a1: "s_acquire_root (root_version (st_root t)) t = (b1, t1)" by (rule prod.exhaust)
        obtain b2 t2 where a2: "s_acquire_node (live s) (bn_version n) t1 = (b2, t2)" by (rule prod.exhaust)
        note K1 = acquire_root_keeps(1) [OF a1, of c] and K2 = keeps_trans [OF acquire_root_keeps(1) [OF a1] acquire_node_keeps [OF a2], of c]
        show ?thesis using keeps_map [OF K1 T] keeps_map [OF keeps_trans [OF K2 release_keeps(1)] T]
            lower_root_ok [OF keepsD(2) [OF K2 S] H x(1) N O(1)] by (simp add: s_lower_root_def Let_def a1 a2)
      qed
      then show ?case by simp
    next
      case (3 n)
      then have N: "node_rep (sc_degree c) n x" by blast
      have "modifiable \<Longrightarrow> length (c_keys x) < SIZE (sc_degree c)"
        using 3(2) full_node_rep [OF N] rep_lengths(1) [OF N] by fastforce
      then have "ready c key modifiable M (live s) n (int (r_height (st_root t))) t"
        using x k O(1) by (intro readyI [OF S H x(1) N] room_belowI) auto
      then show ?case by simp
    qed
    then show ?thesis using False by (simp only: s_from_root_def Let_def O(1,2) if_False)
  qed
qed

section \<open>The traversal\<close>

lemma from_tree_ok:
  assumes C: "cfg_ok c" and E: "effect_ok c key g rv eff" and k: "INT_MIN < key" "key < SENTINEL" and T: "sh_map c t M"
  shows "ends (\<lambda>(res, t'). done_ok c key modifiable g rv M res t') (s_from_tree fuel c key modifiable eff t)"
proof -
  let ?post = "\<lambda>(res, t'). done_ok c key modifiable g rv M res t'"
  let ?at = "\<lambda>(res, t'). case res of Inl res \<Rightarrow> done_ok c key modifiable g rv M res t'
      | Inr (just_read_root, p, cur, height) \<Rightarrow> ready c key modifiable M p cur height t'"
  show ?thesis
    unfolding s_from_tree_def
  proof (rule ends_then [OF from_backup_ok [OF T]], clarify, goal_cases)
    case (1 start t1)
    have start: "ends ?at (case start of
         Some start \<Rightarrow> Inr (Inr (False, start), t1)
       | None \<Rightarrow> then_do (s_from_root c key modifiable eff t1) (\<lambda>(res, t).
           Inr (case res of Inl res \<Rightarrow> Inl res | Inr start \<Rightarrow> Inr (True, start), t)))"
    proof (cases start)
      case None
      with 1 have "sh_map c t1 M" by simp
      from from_root_ok [OF C E k this] None show ?thesis
        by (auto intro!: ends_then split: sum.splits)
    next
      case (Some p)
      with 1 show ?thesis by (auto split: prod.splits)
    qed
    show ?case
    proof (rule ends_then [OF start], clarify, goal_cases)
      case (1 res t2)
      show ?case
      proof (cases res)
        case (Inl r)
        with 1 show ?thesis by simp
      next
        case (Inr y)
        obtain jr p cur height where y: "y = (jr, p, cur, height)" by (rule prod_cases4)
        with 1 Inr have R: "ready c key modifiable M p cur height t2" by simp
        have "ends ?post (then_do (s_descend fuel c key modifiable jr height p cur t2) (\<lambda>(p, cur, t).
            s_leaf_stage fuel c key modifiable eff p cur t))"
          by (rule ends_then [OF descend_ok [OF C k(2) R]]) (use leaf_stage_ok [OF C E k(2)] in auto)
        then show ?thesis by (simp add: Inr y)
      qed
    qed
  qed
qed

lemma traverse_once_ok:
  assumes C: "cfg_ok c" and E: "effect_ok c key g rv eff" and k: "INT_MIN < key" "key < SENTINEL" and T: "sh_map c t M"
  shows "ends (\<lambda>(res, t'). done_ok c key modifiable g rv M res t') (s_traverse_once fuel c key modifiable eff t)"
  unfolding s_traverse_once_def
proof (rule ends_then [OF fast_path_ok [OF E k(2) T]], clarify, goal_cases)
  case (1 res t')
  then show ?case using from_tree_ok [OF C E k] by (cases res) auto
qed

lemma traverse_ok:
  assumes C: "cfg_ok c" and E: "effect_ok c key g rv eff" and k: "INT_MIN < key" "key < SENTINEL" and T: "sh_map c t M"
  shows "ends (\<lambda>(r, leaf, t'). done_ok c key modifiable g rv M (SDone r leaf) t') (s_traverse fuel c key modifiable eff it t)"
  using T
proof (induction fuel arbitrary: it t)
  case 0
  then show ?case by simp
next
  case (Suc fuel)
  have "ends (\<lambda>(r, leaf, t'). done_ok c key modifiable g rv M (SDone r leaf) t')
      (then_do (s_traverse_once fuel c key modifiable eff t) (\<lambda>(res, t).
        case res of SDone r leaf \<Rightarrow> Inr (r, leaf, t)
        | SRestart \<Rightarrow> s_traverse fuel c key modifiable eff 0 t
        | SRetry \<Rightarrow> s_traverse fuel c key modifiable eff (it + 1) t))"
    by (rule ends_then [OF traverse_once_ok [OF C E k Suc.prems]])
      (use Suc.IH in \<open>auto split: s_outcome.splits\<close>)
  then show ?case by simp
qed

section \<open>The operations\<close>

lemma insert_ok:
  assumes "cfg_ok c" "INT_MIN < key" "key < SENTINEL" "sh_map c t M"
  shows "ends (\<lambda>(r, t'). r = M key \<and> sh_map c t' (map_insert M key val)) (s_insert fuel c t key val)"
  unfolding s_insert_def s_prev_value_def
  by (rule ends_then [OF traverse_ok [OF assms(1) insert_effect_ok [OF assms(1,3)] assms(2-4)]])
    (auto simp: map_insert_upd split: option.splits)

lemma remove_ok:
  assumes "cfg_ok c" "INT_MIN < key" "key < SENTINEL" "sh_map c t M"
  shows "ends (\<lambda>(r, t'). r = M key \<and> sh_map c t' (M(key := None))) (s_remove fuel c t key)"
  unfolding s_remove_def s_prev_value_def
  by (rule ends_then [OF traverse_ok [OF assms(1) remove_effect_ok [OF assms(1,3)] assms(2-4)]]) auto

text \<open>
  A lookup in a full leaf whose keys are all below the key finds no slot: the code then reads the slot
  before the first one. In all other cases it gives the value of the key.
\<close>

lemma leaf_lookup:
  assumes C: "cfg_ok c" and L: "leaf_rep c l x" and k: "key < SENTINEL"
  shows "case search_node (sc_degree c) (lf_key_at l) key of
      None \<Rightarrow> map_of (c_pairs x) key = None
    | Some b \<Rightarrow> (if lf_key_at l b = key then Some (value_at (sc_vs c) l b) else None) = map_of (c_pairs x) key"
proof -
  let ?ks = "map fst (c_pairs x)" and ?d = "sc_degree c"
  note D = leaf_repD [OF L]
  show ?thesis
  proof (cases "rank key ?ks < SIZE ?d")
    case True
    have b: "search_node ?d (lf_key_at l) key = Some (rank key ?ks)" by (rule search_node_rank [OF D(8) k True])
    obtain r l' where e: "remove_effect (sc_vs c) ?d key l (rank key ?ks) = (r, l')" by (rule prod.exhaust)
    have "r = map_of (c_pairs x) key" using leaf_remove_pairs [OF D(1) cfg_okD(2,3) [OF C] D(2) k True e] by blast
    moreover have "r = (if lf_key_at l (rank key ?ks) = key then Some (value_at (sc_vs c) l (rank key ?ks)) else None)"
      using e by (auto simp: remove_effect_def Let_def split: if_splits)
    ultimately show ?thesis unfolding b option.case by simp
  next
    case False
    then have r: "rank key ?ks = SIZE ?d" "length ?ks = SIZE ?d"
      using rank_le [of key ?ks] rep_lengths(3) [OF L] by simp_all
    have "?ks ! (SIZE ?d - 1) < key" using rank_below [of "SIZE ?d - 1" key ?ks] r by simp
    moreover have "lf_key_at l (SIZE ?d - 1) = ?ks ! (SIZE ?d - 1)" using D(8) r(2) by (simp add: key_slots_def)
    ultimately have b: "search_node ?d (lf_key_at l) key = None" by (simp add: search_node_def)
    have "sorted_wrt (<) ?ks" using D(8) by (simp add: key_slots_def)
    then have "key \<notin> set ?ks" using rank_mem [of ?ks key] r by simp
    then show ?thesis unfolding b option.case by (simp add: map_of_eq_None_iff)
  qed
qed

lemma contains_ok:
  assumes C: "cfg_ok c" and k: "INT_MIN < key" "key < SENTINEL" and T: "sh_map c t M"
  shows "case s_contains fuel c t key of
      Inr (r, t') \<Rightarrow> r = M key \<and> sh_map c t' M
    | Inl e \<Rightarrow> benign e \<or> e = Index_out_of_bounds \<and> M key = None"
proof -
  have "ends (\<lambda>(r, leaf, t'). done_ok c key False (\<lambda>v. v) (\<lambda>_. ()) M (SDone r leaf) t') (s_traverse fuel c key False (\<lambda>l _. ((), l)) 0 t)"
    by (rule traverse_ok [OF C no_effect_ok k T])
  then show ?thesis
  proof (cases "s_traverse fuel c key False (\<lambda>l _. ((), l)) 0 t")
    case (Inl e)
    then show ?thesis using \<open>ends _ _\<close> by (simp add: s_contains_def)
  next
    case (Inr y)
    obtain r leaf t' where y: "y = (r, leaf, t')" by (rule prod_cases3)
    with \<open>ends _ _\<close> Inr have F: "leaf_holds c key M leaf t'" and T': "sh_map c t' M" by auto
    from F obtain x where x: "leaf_rep c leaf x" "map_of (c_pairs x) key = M key" by (rule leaf_holds_value)
    show ?thesis using leaf_lookup [OF C x(1) k(2)] x(2) T'
      by (auto simp: s_contains_def Inr y split: option.splits)
  qed
qed

end
