(* ===== verification/Sherman.thy ===== *)
theory Sherman
  imports ShRefine
begin

text \<open>
  The properties of the Sherman tree: its operations are those of a map.
\<close>

declare split_paired_All [simp del] split_paired_Ex [simp del]

section \<open>A new tree\<close>

definition first_cell :: cell where
  "first_cell = \<lparr>c_level = 0, c_low = INT_MIN, c_high = SENTINEL, c_keys = [], c_kids = [], c_pairs = [], c_next = None\<rparr>"

lemma SLeaf_rep: "leaf_rep c (SLeaf (sc_vs c) (sc_hs c) (sc_degree c)) first_cell"
proof -
  have "lf_key_at (SLeaf (sc_vs c) (sc_hs c) (sc_degree c)) i = SENTINEL" if "i < SIZE (sc_degree c)" for i
    using key_slot [OF that] by (simp add: lf_key_at_def SLeaf_def kline0_def)
  then show ?thesis
    using SLeaf_shape by (simp add: leaf_rep_def first_cell_def leaf_pairs_def key_slots_def sl_is_deleted_def get_next_def)
      (simp add: SLeaf_def)
qed

lemma empty_table: "e \<in> set (ShermanRoot n) \<Longrightarrow> e_ptr e = None"
  by (simp add: ShermanRoot_def)

lemma new_caches: "pages (st_index t) = Map.empty \<Longrightarrow> st_backup t = ShermanRoot n \<Longrightarrow> caches_ok c t"
  unfolding caches_ok_def using empty_table by fastforce

lemma InitAsFirst_map:
  assumes "pages ix = Map.empty"
  shows "sh_map c (s_InitAsFirst c ix) Map.empty"
proof -
  have "tree_inv 0 0 [0 \<mapsto> first_cell]"
    by (auto simp: tree_inv_def cell_ok_def leaf_ok_def first_cell_def ranges_def range_of_def disjoint_ranges_def
        INT_MIN_def SENTINEL_def split: if_splits)
  moreover have "heap_rel c (s_InitAsFirst c ix) [0 \<mapsto> first_cell]"
    using SLeaf_rep by (auto simp: heap_rel_def s_InitAsFirst_def split: if_splits)
  moreover have "caches_ok c (s_InitAsFirst c ix)"
    by (rule new_caches) (simp_all add: s_InitAsFirst_def assms)
  ultimately have "sh_ok c 0 0 [0 \<mapsto> first_cell] (s_InitAsFirst c ix)"
    by (simp add: sh_ok_def s_InitAsFirst_def)
  then show ?thesis by (rule sh_mapI) (simp add: holds_def first_cell_def)
qed

text \<open>A further thread attaches to the tree with empty caches.\<close>

lemma InitFromPointer_map:
  assumes "pages ix = Map.empty" "sh_map c t M"
  shows "sh_map c (s_InitFromPointer c ix t) M"
proof -
  have "same_heap t (s_InitFromPointer c ix t)" by (simp add: same_heap_def s_InitFromPointer_def)
  moreover have "caches_ok c (s_InitFromPointer c ix t)"
    by (rule new_caches) (simp_all add: s_InitFromPointer_def assms)
  ultimately show ?thesis using assms(2) by (rule same_heap_map)
qed

text \<open>The first lookup in a new index finds nothing.\<close>

lemma new_skiplist: "sk_wf (heap (sk_init lo hi)) (\<lambda>_. [sk_head, sk_tail])" if "lo \<le> hi"
  using that by (auto simp: sk_wf_def sk_init_def get_link_def node_at_def Node_def sk_head_def sk_tail_def)

lemma new_index_search:
  assumes "lo < key" "key < hi" "2 < fuel"
  shows "search_from_cache po d fuel key (IndexCache lo hi a b) = Inr (None, IndexCache lo hi a b)"
proof -
  let ?h = "heap (sk_init lo hi)"
  have n: "key_low (node_at ?h sk_head) = lo" "key_high (node_at ?h sk_head) = lo"
    "key_low (node_at ?h sk_tail) = hi" "key_high (node_at ?h sk_tail) = hi"
    by (simp_all add: sk_init_def node_at_def Node_def sk_head_def sk_tail_def)
  have "sk_lookup ?h [sk_head, sk_tail] key = None" using assms n by (simp add: sk_lookup_def is_equal_def)
  then have "sk_get fuel key (sk_init lo hi) = Inr (None, sk_init lo hi)"
    using sk_get_lookup [OF new_skiplist, of lo hi key fuel] assms n by simp
  then show ?thesis by (simp add: search_from_cache_def find_entry_def IndexCache_def)
qed

lemma new_tree_insert:
  assumes C: "cfg_ok c" "2 < sc_fuel c" and k: "INT_MIN < key" "key < SENTINEL"
    and t: "t = s_InitAsFirst c (IndexCache INT_MIN SENTINEL a b)"
  shows "\<exists>r t'. s_insert (Suc fuel) c t key val = Inr (r, t')"
proof -
  let ?l = "SLeaf (sc_vs c) (sc_hs c) (sc_degree c)" and ?eff = "insert_effect (sc_vs c) (sc_degree c) key val"
  have ix: "ix_search c key t = Inr (None, t)"
    by (simp add: ix_search_def with_index_def t s_InitAsFirst_def new_index_search [OF k C(2)])
  have "find_ptr (st_backup t) key = None" by (simp add: t s_InitAsFirst_def find_ptr_none ShermanRoot_def in_entry_def)
  then have bk: "s_from_backup c key True t = Inr (None, t)" by (simp add: s_from_backup_def)
  have z: "replicate (KLINES (sc_degree c)) kline0 ! 0 = kline0" by (simp add: KLINES_def KLINE_SIZE_def)
  have v: "sl_is_valid ?l False" using z
    by (auto simp: sl_is_valid_def sl_is_deleted_def lf_is_valid_def SLeaf_def list_all_iff Let_def kline0_def)
  have ver: "lf_version ?l = 0" "kl_version (lf_keys ?l ! 0) = 0" using z by (simp_all add: lf_version_def SLeaf_def kline0_def)
  have rd: "s_read_leaf c (live 0) WILL_NEED_ACQUIRE t = Inr ?l"
    using v by (simp add: s_read_leaf_def s_reliable_read_def deref_def t s_InitAsFirst_def)
  have L: "leaf_rep c ?l first_cell" "length (c_pairs first_cell) < SIZE (sc_degree c)"
    using SLeaf_rep by (simp_all add: first_cell_def)
  have "\<not> s_full_leaf c ?l" using full_leaf_rep [OF L(1)] L(2) by simp
  moreover obtain r l' where "s_apply_effect c key ?eff ?l = Inr (r, l')"
    using leaf_bucket [OF L k(2)] by (cases "?eff ?l (rank key (map fst (c_pairs first_cell)))") (simp add: s_apply_effect_def)
  moreover have "r_start (st_root t) = live 0" "r_height (st_root t) = 0" "r_lock (st_root t) = 0" "st_lost t = []"
    "st_leaves t = [0 \<mapsto> ?l]" by (simp_all add: t s_InitAsFirst_def)
  ultimately have "\<exists>t'. s_only_leaf c key True ?eff (st_root t) t = Inr (SDone (Some r) ?l, t')"
    using rd ver by (simp add: s_only_leaf_def s_acquire_root_def s_acquire_leaf_def s_cas_lost_def deref_def root_version_def put_leaf_def)
  then show ?thesis using ix bk \<open>r_height (st_root t) = 0\<close>
    by (auto simp: s_insert_def s_prev_value_def s_traverse_once_def s_fast_path_def s_from_tree_def s_from_root_def Let_def)
qed

section \<open>The operations are those of a map\<close>


definition tiny_cfg :: scfg where
  "tiny_cfg = \<lparr>sc_degree = 1, sc_vs = 7, sc_hs = 5, sc_local = (\<lambda>_. True), sc_fuel = 5\<rparr>"

definition tiny_tree :: stree where
  "tiny_tree = s_InitAsFirst tiny_cfg (IndexCache INT_MIN SENTINEL 1 64)"


section \<open>A neighbor on another node\<close>

text \<open>C40: when an inner node splits and its new neighbor lies on another node, the neighbor is written before
  its range and level are set: memory has a node of level \<open>-1\<close> that claims every key, so a thread that
  looks at it takes it for the node of keys that it does not have.\<close>

theorem split_remote_unfenced:
  assumes "\<not> s_is_local c (live y)" and "split_off c node (live y) t = (m, node', t')"
  shows "\<exists>n. st_nodes t' y = Some n \<and> sn_get_level n = - 1 \<and> (\<forall>key. INT_MIN < key \<longrightarrow> key \<le> SENTINEL \<longrightarrow> sn_key_in_range n key)"
proof -
  let ?d = "sc_degree c"
  obtain k1 f1 e1 where k: "split_keys ?d bn_key_at bn_set_key True (node, SNode ?d) = (k1, f1, e1)" by (rule prod_cases3)
  obtain f2 e2 where q: "split_ptrs ?d (f1, e1) = (f2, e2)" by (rule prod.exhaust)
  have "fency_key e2 = fency_key (SNode ?d)" using split_keys_fency [OF k] split_ptrs_fency [OF q] by simp
  moreover have "t' = put_node (live y) e2 t" using assms k q by (auto simp: split_off_def Let_def)
  ultimately show ?thesis
    by (simp add: sn_get_level_def sn_key_in_range_def sn_is_deleted_def SNode_def)
qed

theorem split_remote_unfenced_witness:
  "\<exists>n. st_nodes (snd (snd (split_off (tiny_cfg\<lparr>sc_local := (\<lambda>_. False)\<rparr>) (SNode 1) (live 7) tiny_tree))) 7 = Some n \<and>
     sn_get_level n = - 1 \<and> sn_key_in_range n 12345"
proof -
  let ?c = "tiny_cfg\<lparr>sc_local := (\<lambda>_. False)\<rparr>"
  obtain m n' t' where s: "split_off ?c (SNode 1) (live 7) tiny_tree = (m, n', t')" by (rule prod_cases3)
  have "\<not> s_is_local ?c (live 7)" by (simp add: s_is_local_def)
  from split_remote_unfenced [OF this s] show ?thesis
    using s by (auto simp: INT_MIN_def SENTINEL_def)
qed

end
