(* ===== verification/ShChecks.thy ===== *)
theory ShChecks
  imports Sherman BTreeTraverse
begin

text \<open>
  What the Sherman tree says of itself: \<open>check_bounds\<close>, \<open>valid\<close> and \<open>count\<close> of \<open>sherman.h\<close>, and \<open>populate\<close>. On a
  tree that holds a map the checks find nothing and the count is the number of keys; so a new tree that was
  populated has as many keys as it was asked to take.
\<close>

declare split_paired_All [simp del] split_paired_Ex [simp del]

section \<open>The checks\<close>

text \<open>\<open>check_bounds\<close>: \<open>Assertion_failed\<close> stands for the abort.\<close>

fun s_check_leaf_bounds :: "stree \<Rightarrow> ptr list \<Rightarrow> int \<Rightarrow> bt_error + unit" where
  "s_check_leaf_bounds t [] last_upper_bound = Inr ()"
| "s_check_leaf_bounds t (p # ps) last_upper_bound =
     (if p = None then s_check_leaf_bounds t ps last_upper_bound
      else then_do (deref p (st_leaves t)) (\<lambda>leaf.
        if last_upper_bound \<noteq> hl_key_low (lf_last leaf) \<and> last_upper_bound \<noteq> INT_MIN then Inl Assertion_failed
        else s_check_leaf_bounds t ps (hl_key_high (lf_last leaf))))"

fun s_check_node_bounds :: "scfg \<Rightarrow> stree \<Rightarrow> nat \<Rightarrow> snode \<Rightarrow> bt_error + unit" where
  "s_check_node_bounds c t 0 n = Inl Null_pointer"
| "s_check_node_bounds c t (Suc h) n =
     (let ptrs = map (ptr_at n) [0 ..< SIZE (sc_degree c) + 1] in
      if h = 0 then s_check_leaf_bounds t ptrs INT_MIN
      else check_each (\<lambda>p. if p = None then Inr () else then_do (deref p (st_nodes t)) (s_check_node_bounds c t h)) ptrs)"

definition s_check_bounds :: "scfg \<Rightarrow> stree \<Rightarrow> bt_error + unit" where
  "s_check_bounds c t =
     (if r_height (st_root t) = 0 then Inr ()
      else then_do (deref (r_start (st_root t)) (st_nodes t)) (s_check_node_bounds c t (r_height (st_root t))))"

text \<open>\<open>is_valid\<close>, with the reasons of the cached tree.\<close>

definition s_leaf_is_valid :: "nat \<Rightarrow> stree \<Rightarrow> sleaf \<Rightarrow> int \<Rightarrow> int \<Rightarrow> reason option" where
  "s_leaf_is_valid d t l lower upper = first_reason [
     (case get_next l of
        None \<Rightarrow> if hl_key_high (lf_last l) \<noteq> SENTINEL then Some Key_high_is_not_SENTINEL else None
      | Some p \<Rightarrow> (case deref (Some p) (st_leaves t) of
          Inl _ \<Rightarrow> Some Bad_pointer
        | Inr nx \<Rightarrow> if hl_key_high (lf_last l) \<noteq> hl_key_low (lf_last nx) then Some Key_high_is_not_next_key_low else None)),
     first_reason (map (\<lambda>i. let k = lf_key_at l i in
       if k \<noteq> SENTINEL \<and> (k \<le> lower \<or> k > upper) then Some (Key_not_in_bounds_bleaf k) else None) [0 ..< SIZE d]),
     keys_in_order d (lf_key_at l) Not_sorted_in_bleaf Duplicate_in_bleaf]"

fun s_is_valid :: "nat \<Rightarrow> stree \<Rightarrow> nat \<Rightarrow> ptr \<Rightarrow> int \<Rightarrow> int \<Rightarrow> reason option" where
  "s_is_valid d t 0 p lower upper = (case deref p (st_leaves t) of
     Inl _ \<Rightarrow> Some Bad_pointer | Inr l \<Rightarrow> s_leaf_is_valid d t l lower upper)"
| "s_is_valid d t (Suc h) p lower upper = (case deref p (st_nodes t) of
     Inl _ \<Rightarrow> Some Bad_pointer
   | Inr n \<Rightarrow> first_reason [
       first_reason (map (\<lambda>i. let k = bn_key_at n i in
         if k \<noteq> SENTINEL \<and> (k \<le> lower \<or> k \<ge> upper) then Some (Key_not_in_bounds_bnode k) else None) [0 ..< SIZE d]),
       keys_in_order d (bn_key_at n) Not_sorted_in_bnode Duplicate_in_bnode,
       first_reason (map (\<lambda>i.
         if ptr_at n i = None then None
         else (let low_key = (if i = 0 then lower else bn_key_at n (i - 1));
                   high_key = (if i = SIZE d then upper else bn_key_at n i);
                   high_key = (if high_key = SENTINEL then upper else high_key)
               in s_is_valid d t h (ptr_at n i) low_key high_key)) [0 ..< SIZE d + 1])])"

definition s_valid :: "scfg \<Rightarrow> stree \<Rightarrow> reason option" where
  "s_valid c t = s_is_valid (sc_degree c) t (r_height (st_root t)) (r_start (st_root t)) INT_MIN SENTINEL"

definition s_populate :: "scfg \<Rightarrow> (int \<Rightarrow> int) \<Rightarrow> nat \<Rightarrow> (nat \<times> int) list \<Rightarrow> stree \<Rightarrow> stree option" where
  "s_populate c value op_count ks t =
     populate (\<lambda>fuel t key val. get_ok (s_insert fuel c t key val)) value op_count ks t"

section \<open>The checks find nothing\<close>

lemma first_reason_None: "(\<And>r. r \<in> set rs \<Longrightarrow> r = None) \<Longrightarrow> first_reason rs = None"
proof (cases "List.find (\<lambda>r. r \<noteq> None) rs")
  case (Some r)
  then have "r \<in> set rs" by (metis find_Some_iff nth_mem)
  moreover assume "\<And>r. r \<in> set rs \<Longrightarrow> r = None"
  ultimately show ?thesis using Some unfolding first_reason_def by simp
qed (simp add: first_reason_def)

lemma first_reason_simps [simp]: "first_reason [] = None" "first_reason (None # rs) = first_reason rs"
  by (simp_all add: first_reason_def)

lemma check_each_ok: "(\<And>x. x \<in> set xs \<Longrightarrow> f x = Inr ()) \<Longrightarrow> check_each f xs = Inr ()"
  by (induction xs) auto

lemma keys_in_order_slots:
  assumes "key_slots d key_at ks"
  shows "keys_in_order d key_at ns du = None"
  unfolding keys_in_order_def
proof (rule first_reason_None)
  fix r assume "r \<in> set (map (\<lambda>i. if key_at i < key_at (i - 1) then Some (ns (key_at i) (key_at (i - 1)))
     else if key_at i = key_at (i - 1) \<and> key_at i \<noteq> SENTINEL then Some (du (key_at i)) else None) [1 ..< SIZE d])"
  then obtain i where i: "i \<in> {1 ..< SIZE d}" and r: "r = (if key_at i < key_at (i - 1) then Some (ns (key_at i) (key_at (i - 1)))
     else if key_at i = key_at (i - 1) \<and> key_at i \<noteq> SENTINEL then Some (du (key_at i)) else None)" by auto
  from i orderedD [OF key_slots_ordered [OF assms], of "i - 1" i]
  have "key_at (i - 1) < key_at i \<or> key_at (i - 1) = SENTINEL \<and> key_at i = SENTINEL" by auto
  with r show "r = None" by auto
qed

text \<open>A pointer slot of a node is a child or null.\<close>

lemma slot_cases:
  assumes N: "node_rep d n x" and i: "i < SIZE d + 1"
  obtains "ptr_at n i = None" | "i < length (c_kids x)" "ptr_at n i = Some (c_kids x ! i, False)"
  using node_slotsD(6) [OF node_repD(2) [OF N] i] by (auto split: if_splits)

text \<open>The bounds that \<open>is_valid\<close> takes from the keys around a slot are those of the child.\<close>

lemma slot_bounds:
  assumes N: "node_rep d n x" and i: "i < length (c_kids x)"
  shows "(if i = 0 then c_low x else bn_key_at n (i - 1)) = bounds x ! i"
    and "(if (if i = SIZE d then c_high x else bn_key_at n i) = SENTINEL then c_high x
          else (if i = SIZE d then c_high x else bn_key_at n i)) = bounds x ! (i + 1)"
proof -
  note D = node_slotsD [OF node_repD(2) [OF N]] and L = rep_lengths(1,2) [OF N]
  have K: "i < length (c_keys x) \<Longrightarrow> c_keys x ! i \<noteq> SENTINEL" using D(2) [OF nth_mem, of i] by auto
  show "(if i = 0 then c_low x else bn_key_at n (i - 1)) = bounds x ! i"
    using i L D(5) [of "i - 1"] by (auto simp: bounds_def nth_Cons' nth_append)
  show "(if (if i = SIZE d then c_high x else bn_key_at n i) = SENTINEL then c_high x
          else (if i = SIZE d then c_high x else bn_key_at n i)) = bounds x ! (i + 1)"
    using i L D(5) [of i] K by (auto simp: bounds_def nth_Cons' nth_append)
qed

lemma leaf_valid_ok:
  assumes S: "sh_ok c h s A t" and x: "A a = Some x" "c_level x = 0"
  shows "s_is_valid (sc_degree c) t 0 (live a) (c_low x) (c_high x) = None"
proof -
  note O = sh_okD [OF S]
  obtain l where l: "st_leaves t a = Some l" "leaf_rep c l x" using leaf_cell(1) [OF O(4) x] by blast
  note R = leaf_repD [OF l(2)]
  have ok: "leaf_ok (ranges A) x" using tree_invD(1) [OF O(3) x(1)] x(2) by (rule cell_ok_leaf)
  have "(case get_next l of
        None \<Rightarrow> if hl_key_high (lf_last l) \<noteq> SENTINEL then Some Key_high_is_not_SENTINEL else None
      | Some p \<Rightarrow> (case deref (Some p) (st_leaves t) of
          Inl _ \<Rightarrow> Some Bad_pointer
        | Inr nx \<Rightarrow> if hl_key_high (lf_last l) \<noteq> hl_key_low (lf_last nx) then Some Key_high_is_not_next_key_low else None)) = None"
  proof (cases "c_next x")
    case None
    then show ?thesis using ok R(4,5) by (simp add: leaf_ok_def)
  next
    case (Some b)
    then obtain y where y: "A b = Some y" "c_level y = 0" "c_low y = c_high x"
      using ok by (auto simp: leaf_ok_def elim: ranges_SomeE)
    obtain l' where "st_leaves t b = Some l'" "leaf_rep c l' y" using leaf_cell(1) [OF O(4) y(1,2)] by blast
    then show ?thesis using Some R(4,5) leaf_repD(3) [of c l' y] y(3) by (simp add: deref_def)
  qed
  moreover have "first_reason (map (\<lambda>i. let k = lf_key_at l i in
       if k \<noteq> SENTINEL \<and> (k \<le> c_low x \<or> k > c_high x) then Some (Key_not_in_bounds_bleaf k) else None) [0 ..< SIZE (sc_degree c)]) = None"
  proof (rule first_reason_None)
    fix r assume "r \<in> set (map (\<lambda>i. let k = lf_key_at l i in
       if k \<noteq> SENTINEL \<and> (k \<le> c_low x \<or> k > c_high x) then Some (Key_not_in_bounds_bleaf k) else None) [0 ..< SIZE (sc_degree c)])"
    then obtain i where i: "i < SIZE (sc_degree c)" and r: "r = (let k = lf_key_at l i in
       if k \<noteq> SENTINEL \<and> (k \<le> c_low x \<or> k > c_high x) then Some (Key_not_in_bounds_bleaf k) else None)" by auto
    have "lf_key_at l i = SENTINEL \<or> lf_key_at l i \<in> fst ` set (c_pairs x)"
      using R(8) i by (auto simp: key_slots_def)
    then show "r = None" using r ok by (auto simp: leaf_ok_def Let_def)
  qed
  ultimately show ?thesis using keys_in_order_slots [OF R(8)] l(1)
    by (simp add: deref_def s_leaf_is_valid_def first_reason_None)
qed

lemma valid_ok:
  assumes S: "sh_ok c h s A t" and x: "A a = Some x"
  shows "s_is_valid (sc_degree c) t (c_level x) (live a) (c_low x) (c_high x) = None"
  using x
proof (induction "c_level x" arbitrary: a x)
  case 0
  then show ?case using leaf_valid_ok [OF S, of a x] by simp
next
  case (Suc l)
  note O = sh_okD [OF S]
  let ?d = "sc_degree c"
  have lx: "0 < c_level x" using Suc.hyps(2) by simp
  obtain n where n: "st_nodes t a = Some n" "node_rep ?d n x" using node_cell(1) [OF O(4) Suc.prems lx] by blast
  have I: "inner_ok (ranges A) x" using tree_invD(1) [OF O(3) Suc.prems] lx by (rule cell_ok_inner)
  note D = inner_okD [OF I]
  have keys: "first_reason (map (\<lambda>i. let k = bn_key_at n i in
      if k \<noteq> SENTINEL \<and> (k \<le> c_low x \<or> k \<ge> c_high x) then Some (Key_not_in_bounds_bnode k) else None) [0 ..< SIZE ?d]) = None"
  proof (rule first_reason_None)
    fix r assume "r \<in> set (map (\<lambda>i. let k = bn_key_at n i in
      if k \<noteq> SENTINEL \<and> (k \<le> c_low x \<or> k \<ge> c_high x) then Some (Key_not_in_bounds_bnode k) else None) [0 ..< SIZE ?d])"
    then obtain i where i: "i < SIZE ?d" and r: "r = (let k = bn_key_at n i in
      if k \<noteq> SENTINEL \<and> (k \<le> c_low x \<or> k \<ge> c_high x) then Some (Key_not_in_bounds_bnode k) else None)" by auto
    have "bn_key_at n i = SENTINEL \<or> bn_key_at n i \<in> set (c_keys x)"
      using node_slotsD(5) [OF node_repD(2) [OF n(2)] i] by auto
    moreover have "c_low x < k \<and> k < c_high x" if "k \<in> set (c_keys x)" for k
      using D(1) that by (auto simp: bounds_def sorted_wrt_append)
    ultimately have "\<not> (bn_key_at n i \<noteq> SENTINEL \<and> (bn_key_at n i \<le> c_low x \<or> bn_key_at n i \<ge> c_high x))" by (meson not_le)
    then show "r = None" using r by (auto simp: Let_def)
  qed
  have kids: "first_reason (map (\<lambda>i. if ptr_at n i = None then None
         else (let low_key = (if i = 0 then c_low x else bn_key_at n (i - 1));
                   high_key = (if i = SIZE ?d then c_high x else bn_key_at n i);
                   high_key = (if high_key = SENTINEL then c_high x else high_key)
               in s_is_valid ?d t l (ptr_at n i) low_key high_key)) [0 ..< SIZE ?d + 1]) = None"
  proof (rule first_reason_None, unfold Let_def set_map, elim imageE, hypsubst)
    fix i assume "i \<in> set [0 ..< SIZE ?d + 1]"
    then have i: "i < SIZE ?d + 1" by (simp only: set_upt atLeastLessThan_iff)
    from n(2) i show "(if ptr_at n i = None then None
         else s_is_valid ?d t l (ptr_at n i) (if i = 0 then c_low x else bn_key_at n (i - 1))
           (if (if i = SIZE ?d then c_high x else bn_key_at n i) = SENTINEL then c_high x
            else (if i = SIZE ?d then c_high x else bn_key_at n i))) = None"
    proof (cases rule: slot_cases)
      case 2
      have "ranges A (c_kids x ! i) = Some (l, bounds x ! i, bounds x ! (i + 1))" using D(3) [OF 2(1)] Suc.hyps(2) by simp
      then obtain y where y: "A (c_kids x ! i) = Some y" "c_level y = l" "c_low y = bounds x ! i" "c_high y = bounds x ! (i + 1)"
        by (rule ranges_SomeE)
      show ?thesis unfolding slot_bounds [OF n(2) 2(1)]
        using Suc.hyps(1) [OF y(2) [symmetric] y(1)] y 2(2) by simp
    qed simp
  qed
  show ?case unfolding Suc.hyps(2) [symmetric]
    using n(1) keys kids keys_in_order_slots [OF node_repD(8) [OF n(2)]] by (simp add: deref_def first_reason_None)
qed

text \<open>The leaves below a node have adjoining ranges, so the bounds check passes whatever bound it starts from.\<close>

lemma leaf_bounds_ok:
  assumes "\<And>i. i < length ps \<Longrightarrow> ps ! i = None \<or> (\<exists>b l. ps ! i = live b \<and> st_leaves t b = Some l \<and>
     hl_key_low (lf_last l) = f i \<and> hl_key_high (lf_last l) = f (i + 1))"
    and "\<And>i j. i < j \<Longrightarrow> j < length ps \<Longrightarrow> ps ! i = None \<Longrightarrow> ps ! j = None"
    and "b = INT_MIN \<or> b = f 0"
  shows "s_check_leaf_bounds t ps b = Inr ()"
  using assms
proof (induction ps arbitrary: f b)
  case (Cons p ps)
  have step: "i < length ps \<Longrightarrow> ps ! i = None \<or> (\<exists>b l. ps ! i = live b \<and> st_leaves t b = Some l \<and>
     hl_key_low (lf_last l) = f (i + 1) \<and> hl_key_high (lf_last l) = f (i + 1 + 1))" for i
    using Cons.prems(1) [of "i + 1"] by simp
  have none: "i < j \<Longrightarrow> j < length ps \<Longrightarrow> ps ! i = None \<Longrightarrow> ps ! j = None" for i j
    using Cons.prems(2) [of "i + 1" "j + 1"] by simp
  show ?case
  proof (cases p)
    case None
    then have "ps ! i = None" if "i < length ps" for i using Cons.prems(2) [of 0 "i + 1"] that by simp
    then have "s_check_leaf_bounds t ps INT_MIN = Inr ()" "\<forall>q \<in> set ps. q = None"
      using Cons.IH [of _ INT_MIN] by (auto simp: in_set_conv_nth)
    moreover have "\<forall>q \<in> set qs. q = None \<Longrightarrow> s_check_leaf_bounds t qs b = Inr ()" for qs b by (induction qs) auto
    ultimately show ?thesis using None by simp
  next
    case (Some q)
    then obtain a l where l: "p = live a" "st_leaves t a = Some l" "hl_key_low (lf_last l) = f 0" "hl_key_high (lf_last l) = f 1"
      using Cons.prems(1) [of 0] by auto
    have "s_check_leaf_bounds t ps (f 1) = Inr ()"
      by (rule Cons.IH [where f = "\<lambda>i. f (i + 1)"]) (use step none in auto)
    then show ?thesis using l Cons.prems(3) by (auto simp: deref_def)
  qed
qed simp

lemma node_bounds_ok:
  assumes S: "sh_ok c h s A t" and x: "A a = Some x" "0 < c_level x" and n: "st_nodes t a = Some n" "node_rep (sc_degree c) n x"
  shows "s_check_node_bounds c t (c_level x) n = Inr ()"
  using x n
proof (induction "c_level x" arbitrary: a x n)
  case (Suc l)
  note O = sh_okD [OF S]
  let ?d = "sc_degree c"
  have I: "inner_ok (ranges A) x" using tree_invD(1) [OF O(3) Suc.prems(1)] Suc.prems(2) by (rule cell_ok_inner)
  note D = inner_okD [OF I]
  have kid: "\<exists>y. A (c_kids x ! i) = Some y \<and> c_level y = l \<and> c_low y = bounds x ! i \<and> c_high y = bounds x ! (i + 1)"
    if "i < length (c_kids x)" for i
    using D(3) [OF that] Suc.hyps(2) by (auto elim!: ranges_SomeE)
  show ?case
  proof (cases l)
    case 0
    have slot: "ptr_at n i = None \<or> (\<exists>b l. ptr_at n i = live b \<and> st_leaves t b = Some l \<and>
         hl_key_low (lf_last l) = bounds x ! i \<and> hl_key_high (lf_last l) = bounds x ! (i + 1))" if i: "i < SIZE ?d + 1" for i
      using Suc.prems(4) i
    proof (cases rule: slot_cases)
      case 2
      obtain y where y: "A (c_kids x ! i) = Some y" "c_level y = 0" "c_low y = bounds x ! i" "c_high y = bounds x ! (i + 1)"
        using kid [OF 2(1)] 0 by auto
      obtain l' where "st_leaves t (c_kids x ! i) = Some l'" "leaf_rep c l' y" using leaf_cell(1) [OF O(4) y(1,2)] by blast
      then show ?thesis using 2(2) y leaf_repD(3,4) [of c l' y] by auto
    qed auto
    have "s_check_leaf_bounds t (map (ptr_at n) [0 ..< SIZE ?d + 1]) INT_MIN = Inr ()"
      by (rule leaf_bounds_ok [where f = "\<lambda>i. bounds x ! i"])
        (use slot node_slotsD(6) [OF node_repD(2) [OF Suc.prems(4)]] in \<open>auto simp del: upt_Suc split: if_splits\<close>)
    then show ?thesis using Suc.hyps(2) [symmetric] 0 by (simp add: Let_def del: upt_Suc)
  next
    case (Suc l')
    have each: "check_each (\<lambda>p. if p = None then Inr () else then_do (deref p (st_nodes t)) (s_check_node_bounds c t l))
        (map (ptr_at n) [0 ..< SIZE ?d + 1]) = Inr ()"
    proof (rule check_each_ok, unfold set_map, elim imageE, hypsubst)
      fix i assume "i \<in> set [0 ..< SIZE ?d + 1]"
      then have i: "i < SIZE ?d + 1" by (simp only: set_upt atLeastLessThan_iff)
      from \<open>node_rep ?d n x\<close> i show "(if ptr_at n i = None then Inr ()
          else then_do (deref (ptr_at n i) (st_nodes t)) (s_check_node_bounds c t l)) = Inr ()"
      proof (cases rule: slot_cases)
        case 2
        obtain y where y: "A (c_kids x ! i) = Some y" "c_level y = l" using kid [OF 2(1)] by auto
        have ly: "0 < c_level y" using y(2) Suc by simp
        obtain m where m: "st_nodes t (c_kids x ! i) = Some m" "node_rep ?d m y" using node_cell(1) [OF O(4) y(1) ly] by blast
        show ?thesis using Suc.hyps(1) [OF y(2) [symmetric] y(1) ly m] y(2) m(1) 2(2) by (simp add: deref_def)
      qed simp
    qed
    from each [unfolded Suc] \<open>Suc l = c_level x\<close> [symmetric] Suc show ?thesis by (simp add: Let_def del: upt_Suc)
  qed
qed simp

lemma checks_pass:
  assumes S: "sh_ok c h s A t"
  shows "s_check_bounds c t = Inr ()" "s_valid c t = None"
proof -
  note O = sh_okD [OF S]
  obtain x where x: "A s = Some x" "c_level x = h" "c_low x = INT_MIN" "c_high x = SENTINEL"
    using tree_invD(4) [OF O(3)] by (auto elim: ranges_SomeE)
  show "s_valid c t = None" using valid_ok [OF S x(1)] x O(1,2) by (simp add: s_valid_def)
  show "s_check_bounds c t = Inr ()"
  proof (cases "h = 0")
    case False
    then have "0 < c_level x" using x(2) by simp
    with node_cell(1) [OF O(4) x(1)] obtain n where "st_nodes t s = Some n" "node_rep (sc_degree c) n x" by blast
    with node_bounds_ok [OF S x(1) \<open>0 < c_level x\<close>] x(2) False O(1,2) show ?thesis by (simp add: s_check_bounds_def deref_def)
  qed (simp add: s_check_bounds_def O(1))
qed

section \<open>The count\<close>

text \<open>The keys above a bound that a map binds.\<close>

definition keys_above :: "(int \<Rightarrow> int option) \<Rightarrow> int \<Rightarrow> int set" where
  "keys_above M lo = {k. lo < k \<and> k < SENTINEL \<and> M k \<noteq> None}"

definition leaves_above :: "cells \<Rightarrow> int \<Rightarrow> nat set" where
  "leaves_above A lo = {b. \<exists>y. A b = Some y \<and> c_level y = 0 \<and> lo \<le> c_low y}"

lemma finite_keys_above [simp]: "finite (keys_above M lo)"
  by (rule finite_subset [of _ "{lo <..< SENTINEL}"]) (auto simp: keys_above_def)

lemma leaves_above_fresh:
  assumes "heap_rel c t A"
  shows "finite (leaves_above A lo)" "card (leaves_above A lo) \<le> st_fresh t"
proof -
  have "leaves_above A lo \<subseteq> {..< st_fresh t}" using leaf_cell(3) [OF assms] by (auto simp: leaves_above_def)
  then show "finite (leaves_above A lo)" "card (leaves_above A lo) \<le> st_fresh t"
    using finite_subset card_mono [of "{..< st_fresh t}"] by auto
qed

lemma filter_upt_less: "m \<le> n \<Longrightarrow> filter (\<lambda>i. i < m) [0 ..< n] = [0 ..< m]"
  by (induction n) (auto simp: le_Suc_eq)

lemma key_slots_count:
  assumes "key_slots d f ks"
  shows "length (filter (\<lambda>i. f i \<noteq> SENTINEL) [0 ..< SIZE d]) = length ks"
proof -
  have L: "length ks \<le> SIZE d" using assms by (simp add: key_slots_def)
  have "ks ! i \<noteq> SENTINEL" if "i < length ks" for i
    using assms nth_mem [OF that] by (force simp: key_slots_def)
  then have "f i \<noteq> SENTINEL \<longleftrightarrow> i < length ks" if "i < SIZE d" for i
    using assms that by (auto simp: key_slots_def)
  then have "filter (\<lambda>i. f i \<noteq> SENTINEL) [0 ..< SIZE d] = filter (\<lambda>i. i < length ks) [0 ..< SIZE d]"
    by (intro filter_cong) auto
  also have "\<dots> = [0 ..< length ks]" using filter_upt_less L by simp
  finally show ?thesis by simp
qed

text \<open>The keys above the lower bound of a leaf are those of the leaf and those above its upper bound.\<close>

lemma keys_above_leaf:
  assumes I: "tree_inv h s A" and H: "holds A M" and x: "A a = Some x" "c_level x = 0" and L: "leaf_rep c l x"
  shows "card (keys_above M (c_low x)) = length (c_pairs x) + card (keys_above M (c_high x))"
proof -
  have ok: "leaf_ok (ranges A) x" using tree_invD(1) [OF I x(1)] x(2) by (rule cell_ok_leaf)
  have ks: "distinct (map fst (c_pairs x))" "\<And>k. k \<in> fst ` set (c_pairs x) \<Longrightarrow> k < SENTINEL"
    using key_slots_distinct [OF leaf_repD(8) [OF L]] leaf_repD(8) [OF L] by (auto simp: key_slots_def)
  have "keys_above M (c_low x) = fst ` set (c_pairs x) \<union> keys_above M (c_high x)"
  proof (rule set_eqI)
    fix k
    have "c_low x < k \<Longrightarrow> k \<le> c_high x \<Longrightarrow> M k \<noteq> None \<longleftrightarrow> k \<in> fst ` set (c_pairs x)"
      using holdsD [OF H x, of k] map_of_eq_None_iff [of "c_pairs x" k] by auto
    moreover have "k \<in> fst ` set (c_pairs x) \<Longrightarrow> c_low x < k \<and> k \<le> c_high x" using ok by (auto simp: leaf_ok_def)
    moreover have "c_low x < c_high x" using ok by (simp add: leaf_ok_def)
    ultimately show "k \<in> keys_above M (c_low x) \<longleftrightarrow> k \<in> fst ` set (c_pairs x) \<union> keys_above M (c_high x)"
      using ks(2) [of k] by (cases "k \<le> c_high x") (auto simp: keys_above_def)
  qed
  moreover have "fst ` set (c_pairs x) \<inter> keys_above M (c_high x) = {}"
    using ok by (auto simp: leaf_ok_def keys_above_def)
  moreover have "card (fst ` set (c_pairs x)) = length (c_pairs x)"
    using distinct_card [OF ks(1)] by simp
  ultimately show ?thesis by (simp add: card_Un_disjoint)
qed

lemma count_leaves_ok:
  assumes S: "sh_ok c h s A t" and H: "holds A M" and x: "A a = Some x" "c_level x = 0" and L: "leaf_rep c l x"
    and fuel: "card (leaves_above A (c_low x)) \<le> fuel"
  shows "s_count_leaves fuel c t l n = Inr (n + card (keys_above M (c_low x)))"
  using x L fuel
proof (induction fuel arbitrary: a x l n)
  case 0
  have "a \<in> leaves_above A (c_low x)" using 0 by (auto simp: leaves_above_def)
  then show ?case using 0 leaves_above_fresh(1) [OF sh_okD(4) [OF S], of "c_low x"] by auto
next
  case (Suc fuel)
  note O = sh_okD [OF S] and K = keys_above_leaf [OF sh_okD(3) [OF S] H Suc.prems(1-3)]
  note R = leaf_repD [OF Suc.prems(3)]
  have ok: "leaf_ok (ranges A) x" using tree_invD(1) [OF O(3) Suc.prems(1)] Suc.prems(2) by (rule cell_ok_leaf)
  have len: "length (filter (\<lambda>i. lf_key_at l i \<noteq> SENTINEL) [0 ..< SIZE (sc_degree c)]) = length (c_pairs x)"
    using key_slots_count [OF R(8)] by simp
  show ?case
  proof (cases "c_next x")
    case None
    then have "keys_above M (c_high x) = {}" using ok by (auto simp: leaf_ok_def keys_above_def)
    then show ?thesis using None R(5) K len by (simp add: Let_def)
  next
    case (Some b)
    then obtain y where y: "A b = Some y" "c_level y = 0" "c_low y = c_high x"
      using ok by (auto simp: leaf_ok_def elim: ranges_SomeE)
    obtain l' where l': "st_leaves t b = Some l'" "leaf_rep c l' y" using leaf_cell(1) [OF O(4) y(1,2)] by blast
    have lt: "c_low x < c_high x" using ok by (simp add: leaf_ok_def)
    have "leaves_above A (c_low y) \<subset> leaves_above A (c_low x)"
      using Suc.prems(1,2) lt y(3) by (force simp: leaves_above_def)
    then have "card (leaves_above A (c_low y)) < card (leaves_above A (c_low x))"
      using leaves_above_fresh(1) [OF O(4)] by (rule psubset_card_mono [rotated])
    then have "card (leaves_above A (c_low y)) \<le> fuel" using Suc.prems(4) by simp
    from Suc.IH [OF y(1,2) l'(2) this] show ?thesis
      using Some R(5) K len l'(1) y(3) by (simp add: Let_def deref_def)
  qed
qed

lemma count_more_fuel:
  "s_count_leaves fuel c t l n = Inr r \<or> s_count_leaves fuel c t l n = Inl Out_of_fuel"
  if "s_count_leaves fuel' c t l n = Inr r"
  using that
proof (induction fuel arbitrary: fuel' l n)
  case (Suc fuel)
  then obtain f where f: "fuel' = Suc f" by (cases fuel') auto
  show ?case
  proof (cases "get_next l")
    case (Some p)
    with Suc.prems f show ?thesis using Suc.IH
      by (cases "deref (Some p) (st_leaves t)") (simp_all add: Let_def)
  qed (use Suc.prems f in \<open>simp add: Let_def\<close>)
qed simp

lemma count_ok:
  assumes C: "cfg_ok c" and T: "sh_map c t M"
  shows "ends (\<lambda>n. n = card (keys_above M INT_MIN)) (s_count fuel c t)"
proof -
  have k: "INT_MIN < INT_MIN + 1" "INT_MIN + 1 < SENTINEL" by (simp_all add: INT_MIN_def SENTINEL_def)
  show ?thesis unfolding s_count_def
  proof (rule ends_then [OF traverse_ok [OF C no_effect_ok k T]], clarify, goal_cases)
    case (1 r l t')
    then obtain h s A a x where S: "sh_ok c h s A t'" and H: "holds A M" and x: "A a = Some x" "leaf_rep c l x" "c_low x < INT_MIN + 1"
      by (auto simp: leaf_holds_def)
    have "c_low x = INT_MIN" using tree_invD(5) [OF sh_okD(3) [OF S] x(1)] x(3) by simp
    then show ?case
      using count_more_fuel [OF count_leaves_ok [OF S H x(1) leaf_repD(7) [OF x(2)] x(2) order_refl], of fuel 0] by auto
  qed
qed

lemma leftmost_leaf:
  assumes "tree_inv h s A" "A a = Some x"
  shows "\<exists>b y. A b = Some y \<and> c_level y = 0 \<and> c_low y = c_low x"
  using assms(2)
proof (induction "c_level x" arbitrary: a x)
  case (Suc l)
  have "0 < c_level x" using Suc.hyps(2) by simp
  note D = inner_okD [OF cell_ok_inner [OF tree_invD(1) [OF assms(1) Suc.prems] this]]
  have "ranges A (c_kids x ! 0) = Some (l, c_low x, bounds x ! 1)"
    using D(3) [of 0] D(2) Suc.hyps(2) bounds_ends(1) [of x] by simp
  then obtain y where "A (c_kids x ! 0) = Some y" "c_level y = l" "c_low y = c_low x" by (rule ranges_SomeE)
  with Suc.hyps(1) [of y] show ?case by metis
qed auto

section \<open>Populating a new tree\<close>

interpretation sherman_rel: kv_rel "\<lambda>t M. cfg_ok c \<and> sh_map c t M" "\<lambda>key. INT_MIN < key \<and> key < SENTINEL"
    "\<lambda>fuel t key val. get_ok (s_insert fuel c t key val)" for c
  by unfold_locales (use insert_ok in \<open>fastforce simp: get_ok_def ends_def split: sum.splits\<close>)

text \<open>C12: On a Sherman tree that holds a map, whatever stale contents the thread's caches have, the program's own checks find nothing to report:
  \<open>check_bounds\<close> does not abort and \<open>valid\<close> names no violation of the order of keys, the ranges of nodes or the
  chain of leaves. \<open>count\<close> gives the number of keys bound between the two sentinels, unless the thread gives
  up; the walk over the leaves itself ends, with as much fuel as nodes were allocated.\<close>

theorem sherman_checks_pass:
  assumes "cfg_ok c" "sh_map c t M"
  shows "s_check_bounds c t = Inr () \<and> s_valid c t = None \<and>
     (case s_count fuel c t of Inl e \<Rightarrow> benign e | Inr n \<Rightarrow> n = card {k. INT_MIN < k \<and> k < SENTINEL \<and> M k \<noteq> None}) \<and>
     (\<exists>leaf a. st_leaves t a = Some leaf \<and>
        s_count_leaves (st_fresh t) c t leaf 0 = Inr (card {k. INT_MIN < k \<and> k < SENTINEL \<and> M k \<noteq> None}))"
proof -
  obtain h s A where S: "sh_ok c h s A t" and H: "holds A M" using assms(2) by (rule sh_mapE)
  note O = sh_okD [OF S]
  obtain x where "A s = Some x" "c_low x = INT_MIN" using tree_invD(4) [OF O(3)] by (auto elim: ranges_SomeE)
  then obtain b y where y: "A b = Some y" "c_level y = 0" "c_low y = INT_MIN" using leftmost_leaf [OF O(3)] by metis
  then obtain l where l: "st_leaves t b = Some l" "leaf_rep c l y" using leaf_cell(1) [OF O(4)] by blast
  have "s_count_leaves (st_fresh t) c t l 0 = Inr (card (keys_above M INT_MIN))"
    using count_leaves_ok [OF S H y(1,2) l(2) leaves_above_fresh(2) [OF O(4)], of 0] y(3) by simp
  with checks_pass [OF S] count_ok [OF assms, of fuel] l(1) show ?thesis
    by (auto simp: ends_def keys_above_def split: sum.splits)
qed

theorem sherman_checks_pass_witness:
  "s_check_bounds tiny_cfg tiny_tree = Inr () \<and> s_valid tiny_cfg tiny_tree = None \<and>
     (\<exists>leaf a. st_leaves tiny_tree a = Some leaf \<and> s_count_leaves (st_fresh tiny_tree) tiny_cfg tiny_tree leaf 0 = Inr 0)"
proof -
  have C: "cfg_ok tiny_cfg" by (simp add: cfg_ok_def tiny_cfg_def)
  have T: "sh_map tiny_cfg tiny_tree Map.empty"
    unfolding tiny_tree_def by (rule InitAsFirst_map) (simp add: IndexCache_def)
  show ?thesis using sherman_checks_pass [OF C T] by simp
qed



end
