(* ===== verification/TunedIht.thy ===== *)
theory TunedIht
  imports LevelHash KvMap Prelude
begin

text \<open>
  \<open>iht/cached/ds/iht_ds.h\<close>: the interlocked hash table that keeps its own copies of P-lists
  (\<open>TunedRdmaIHT\<close>) instead of an object cache. Memory maps addresses, a node and an offset, to P-lists and E-lists; a client
  has up to three layers of P-lists it has copied. A P-list that is calcified, every bucket in use pointing to a P-list for
  ever, is copied when it is first read. An E-list is read into the client's landing spot \<open>temp_elist\<close>; what an
  operation does to it there is written back only if the E-list is on another node.
  Operations of the clients run one after the other. A null E-list does not occur: \<open>ctx.e\<close> is always the
  landing spot.
\<close>

section \<open>State\<close>

type_synonym addr = "nat \<times> nat"
type_synonym tplist = "(lock_state \<times> addr) list"

record ('k, 'v) tmem =
  t_plists :: "addr \<Rightarrow> tplist option"
  t_elists :: "addr \<Rightarrow> ('k, 'v) elist option"
  t_fresh :: nat

text \<open>
  The client: its node, the root, \<open>cache_depth_\<close>, the layers, and how many blocks of \<open>PList\<close> it
  holds that reads have allocated.
\<close>

record tclient =
  tc_self :: nat
  tc_root :: addr
  tc_depth :: nat
  tc_layers :: "nat \<Rightarrow> nat \<Rightarrow> tplist option"
  tc_held :: nat

text \<open>
  A bucket held by nobody the client can wait for; a path of more than eight levels; a layer that is not there; an
  address without a list; no fuel left.
\<close>

datatype tiht_error = Lock_spins | Path_overrun | Layer_overrun | Bad_pointer | No_fuel

definition t_is_local :: "nat \<Rightarrow> addr \<Rightarrow> bool" where
  "t_is_local self p \<longleftrightarrow> fst p = self"

text \<open>\<open>CachedRDMA\<close>: a P-list of a layer, or one that was read for this operation and must be returned.\<close>

datatype cached_plist = Cached tplist | Fetched tplist nat

fun cr_get :: "cached_plist \<Rightarrow> tplist" where
  "cr_get (Cached l) = l"
| "cr_get (Fetched l _) = l"

fun cr_deallocate :: "cached_plist \<Rightarrow> tclient \<Rightarrow> tclient" where
  "cr_deallocate (Cached _) c = c"
| "cr_deallocate (Fetched _ depth) c = c\<lparr>tc_held := tc_held c - 2 ^ depth\<rparr>"

section \<open>Memory\<close>

definition t_write_elist :: "addr \<Rightarrow> ('k, 'v) elist \<Rightarrow> ('k, 'v) tmem \<Rightarrow> ('k, 'v) tmem" where
  "t_write_elist x e m = m\<lparr>t_elists := (t_elists m)(x \<mapsto> e)\<rparr>"

text \<open>The two fields of a bucket; \<open>change_bucket_pointer\<close> writes one, \<open>acquire\<close> and \<open>unlock\<close> the other.\<close>

definition t_set_bucket :: "addr \<Rightarrow> nat \<Rightarrow> (lock_state \<times> addr \<Rightarrow> lock_state \<times> addr) \<Rightarrow> ('k, 'v) tmem \<Rightarrow> ('k, 'v) tmem" where
  "t_set_bucket a b f m = (case t_plists m a of None \<Rightarrow> m
     | Some l \<Rightarrow> m\<lparr>t_plists := (t_plists m)(a \<mapsto> l[b := f (l ! b)])\<rparr>)"

definition t_unlock :: "addr \<Rightarrow> nat \<Rightarrow> lock_state \<Rightarrow> ('k, 'v) tmem \<Rightarrow> ('k, 'v) tmem" where
  "t_unlock a b status = t_set_bucket a b (\<lambda>(_, base). (status, base))"

definition t_change_bucket_pointer :: "addr \<Rightarrow> nat \<Rightarrow> addr \<Rightarrow> ('k, 'v) tmem \<Rightarrow> ('k, 'v) tmem" where
  "t_change_bucket_pointer a b base = t_set_bucket a b (\<lambda>(lk, _). (lk, base))"

definition t_acquire :: "addr \<Rightarrow> nat \<Rightarrow> ('k, 'v) tmem \<Rightarrow> tiht_error + bool \<times> ('k, 'v) tmem" where
  "t_acquire a b m = (case t_plists m a of
     None \<Rightarrow> Inl Bad_pointer
   | Some l \<Rightarrow> if b < length l then
       (case acquire (fst (l ! b)) of
          None \<Rightarrow> Inl Lock_spins
        | Some (got, lk) \<Rightarrow> Inr (got, t_unlock a b lk m))
      else Inl Bad_pointer)"

definition t_alloc_elist :: "nat \<Rightarrow> ('k, 'v) tmem \<Rightarrow> addr \<times> ('k, 'v) tmem" where
  "t_alloc_elist self m = (let x = (self, t_fresh m) in (x, m\<lparr>t_elists := (t_elists m)(x \<mapsto> []), t_fresh := Suc (t_fresh m)\<rparr>))"

text \<open>\<open>InitPList\<close>: the buckets of a P-list, each with a new E-list.\<close>

fun t_init_buckets :: "nat \<Rightarrow> nat \<Rightarrow> ('k, 'v) tmem \<Rightarrow> tplist \<times> ('k, 'v) tmem" where
  "t_init_buckets self 0 m = ([], m)"
| "t_init_buckets self (Suc n) m = (case t_init_buckets self n m of (bs, m1) \<Rightarrow>
     (case t_alloc_elist self m1 of (x, m2) \<Rightarrow> (bs @ [(E_UNLOCKED, x)], m2)))"

definition t_InitPList :: "nat \<Rightarrow> nat \<Rightarrow> addr \<Rightarrow> ('k, 'v) tmem \<Rightarrow> ('k, 'v) tmem" where
  "t_InitPList self n p m = (case t_init_buckets self n m of (bs, m1) \<Rightarrow> m1\<lparr>t_plists := (t_plists m1)(p \<mapsto> bs)\<rparr>)"

text \<open>Allocating a P-list and filling it.\<close>

definition t_new_plist :: "nat \<Rightarrow> nat \<Rightarrow> ('k, 'v) tmem \<Rightarrow> addr \<times> ('k, 'v) tmem" where
  "t_new_plist self n m = (let p = (self, t_fresh m) in (p, t_InitPList self n p (m\<lparr>t_fresh := Suc (t_fresh m)\<rparr>)))"

text \<open>\<open>rehash\<close>: the pairs of the full E-list go to the E-lists of a new P-list of twice the buckets.\<close>

definition t_insert_at :: "addr \<Rightarrow> 'k \<times> 'v \<Rightarrow> ('k, 'v) tmem \<Rightarrow> ('k, 'v) tmem" where
  "t_insert_at x p m = (case t_elists m x of None \<Rightarrow> m | Some e \<Rightarrow> t_write_elist x (elist_insert (fst p) (snd p) e) m)"

definition t_rehash :: "('k \<Rightarrow> u64) \<Rightarrow> nat \<Rightarrow> tplist \<Rightarrow> nat \<Rightarrow> nat \<Rightarrow> nat \<Rightarrow> ('k, 'v) tmem \<Rightarrow> tiht_error + addr \<times> ('k, 'v) tmem" where
  "t_rehash h self parent pcnt pdepth pidx m =
     (case t_new_plist self (pcnt * 2) m of (new_p, m1) \<Rightarrow>
       (case (t_elists m1 (snd (parent ! pidx)), t_plists m1 new_p) of
          (Some source, Some bs) \<Rightarrow>
             Inr (new_p, fold (\<lambda>p. t_insert_at (snd (bs ! level_hash_rdma h (fst p) (pdepth + 1) (pcnt * 2))) p) source m1)
        | _ \<Rightarrow> Inl Bad_pointer))"

section \<open>The layers of the client\<close>

text \<open>
  The loop of \<open>fetch_cache\<close> and \<open>try_cache\<close>: which layer and which slot of it a path of buckets has.
  \<open>sizes[i]\<close> multiplies the slot on the way down; there are three layers.
\<close>

definition layer_size :: "nat \<Rightarrow> nat \<Rightarrow> nat" where
  "layer_size P i = [1, P, 2 * P * P] ! i"

fun cache_slot :: "nat \<Rightarrow> nat \<Rightarrow> nat \<Rightarrow> nat \<Rightarrow> nat list \<Rightarrow> tiht_error + (nat \<times> nat) option" where
  "cache_slot P depth i s path =
     (if i = depth then Inr None
      else if 3 \<le> i then Inl Layer_overrun
      else (case path of
          [] \<Rightarrow> Inr (Some (i, s))
        | b # bs \<Rightarrow> cache_slot P depth (i + 1) (s * layer_size P i + b) bs))"

declare cache_slot.simps [simp del]

definition fetch_cache :: "nat \<Rightarrow> tclient \<Rightarrow> nat list \<Rightarrow> tiht_error + tplist option" where
  "fetch_cache P c path = then_do (cache_slot P (tc_depth c) 0 0 path) (\<lambda>slot.
     (case slot of None \<Rightarrow> Inr None | Some (i, s) \<Rightarrow> Inr (tc_layers c i s)))"

text \<open>Every bucket but the last, which no key hashes to, is for ever a P-list.\<close>

definition calcified :: "nat \<Rightarrow> tplist \<Rightarrow> bool" where
  "calcified cnt l \<longleftrightarrow> list_all (\<lambda>i. fst (l ! i) = P_UNLOCKED) [0 ..< cnt - 1]"

definition try_cache :: "nat \<Rightarrow> tplist \<Rightarrow> nat list \<Rightarrow> tclient \<Rightarrow> tiht_error + bool \<times> tclient" where
  "try_cache P l path c = then_do (cache_slot P (tc_depth c) 0 0 path) (\<lambda>slot.
     (case slot of
        None \<Rightarrow> Inr (False, c)
      | Some (i, s) \<Rightarrow>
          if tc_layers c i s \<noteq> None then Inr (False, c)
          else if \<not> calcified (P * 2 ^ length path) l then Inr (False, c)
          else Inr (True, c\<lparr>tc_layers := (tc_layers c)(i := (tc_layers c i)(s \<mapsto> take (P * 2 ^ length path) l))\<rparr>)))"

text \<open>
  Getting at the P-list of a path: from a layer, or by a read, which may fill a layer. A read at depth \<open>k\<close> allocates
  \<open>1 << k\<close> blocks.
\<close>

definition t_read_plist :: "nat \<Rightarrow> addr \<Rightarrow> nat \<Rightarrow> ('k, 'v) tmem \<Rightarrow> tclient \<Rightarrow> tiht_error + cached_plist \<times> tclient" where
  "t_read_plist P a k m c = (case t_plists m a of
     None \<Rightarrow> Inl Bad_pointer
   | Some l \<Rightarrow> Inr (Fetched (take (P * 2 ^ k) l) k, c\<lparr>tc_held := tc_held c + 2 ^ k\<rparr>))"

definition t_view :: "nat \<Rightarrow> addr \<Rightarrow> nat list \<Rightarrow> ('k, 'v) tmem \<Rightarrow> tclient \<Rightarrow> tiht_error + cached_plist \<times> tclient" where
  "t_view P a path m c = then_do (fetch_cache P c path) (\<lambda>cache.
     (case cache of
        Some l \<Rightarrow> Inr (Cached l, c)
      | None \<Rightarrow> then_do (t_read_plist P a (length path) m c) (\<lambda>(cur, c).
          then_do (try_cache P (cr_get cur) path c) (\<lambda>(_, c). Inr (cur, c)))))"

section \<open>Descending\<close>

text \<open>\<open>descent_context\<close>; its \<open>e\<close> is the content of the landing spot.\<close>

record ('k, 'v) descent_context =
  dc_e :: "('k, 'v) elist"
  dc_base :: addr
  dc_depth :: nat
  dc_count :: nat
  dc_bucket :: nat
  dc_parent :: addr
  dc_curr :: cached_plist

type_synonym ('k, 'v) tapply =
  "('k, 'v) descent_context \<Rightarrow> ('k, 'v) tmem \<Rightarrow> tiht_error + bool \<times> 'v option \<times> ('k, 'v) tmem"

text \<open>
  \<open>do_with\<close>, one unit of fuel per iteration. \<open>path\<close> is what \<open>bucket_path\<close> holds above the current level.
  \<open>lockfree\<close> is \<open>sizeof(EList) == 64 && do_lock_free\<close>. A count above \<open>ELIST_SIZE + 1\<close>, or memory
  that is no E-list, is taken for a P-list: without the lock the operation goes on to acquire it, and with the lock it waits for itself.
\<close>

fun t_loop ::
  "('k \<Rightarrow> u64) \<Rightarrow> nat \<Rightarrow> nat \<Rightarrow> ('k, 'v) tapply \<Rightarrow> bool \<Rightarrow> 'k \<Rightarrow> nat \<Rightarrow> nat \<Rightarrow> nat \<Rightarrow> addr \<Rightarrow> cached_plist \<Rightarrow> nat list \<Rightarrow>
     tclient \<Rightarrow> ('k, 'v) tmem \<Rightarrow> tiht_error + 'v option \<times> tclient \<times> ('k, 'v) tmem" where
  "t_loop h P cap app lockfree key 0 depth cnt parent cur path c m = Inl No_fuel"
| "t_loop h P cap app lockfree key (Suc n) depth cnt parent cur path c m =
    (let b = level_hash_rdma h key depth cnt in
     if 8 < depth then Inl Path_overrun
     else if \<not> b < length (cr_get cur) then Inl Bad_pointer
     else
       (let (lk, base) = cr_get cur ! b;
            fetch = (\<lambda>c m. then_do (t_read_plist P parent (depth - 1) m c) (\<lambda>(cur, c).
              t_loop h P cap app lockfree key n depth cnt parent cur path c m));
            run = (\<lambda>locked e m.
              then_do (app \<lparr>dc_e = e, dc_base = base, dc_depth = depth, dc_count = cnt, dc_bucket = b,
                            dc_parent = parent, dc_curr = cur\<rparr> m) (\<lambda>(stop, r, m).
                if stop then Inr (r, cr_deallocate cur c, if locked then t_unlock parent b E_UNLOCKED m else m)
                else fetch c (t_unlock parent b P_UNLOCKED m)));
            by_acquire = (then_do (t_acquire parent b m) (\<lambda>(got, m).
              if \<not> got then fetch (cr_deallocate cur c) m
              else (case t_elists m base of
                  None \<Rightarrow> Inl Lock_spins
                | Some e \<Rightarrow> if cap + 1 < length e then Inl Lock_spins else run True e m)))
        in
        if lk = P_UNLOCKED then
          then_do (t_view P base (path @ [b]) m (cr_deallocate cur c)) (\<lambda>(cur, c).
            t_loop h P cap app lockfree key n (depth + 1) (cnt * 2) base cur (path @ [b]) c m)
        else if lockfree then
          (case t_elists m base of
             None \<Rightarrow> by_acquire
           | Some e \<Rightarrow> if cap + 1 < length e then by_acquire else run False e m)
        else by_acquire))"

declare t_loop.simps [simp del]

definition do_with ::
  "('k \<Rightarrow> u64) \<Rightarrow> nat \<Rightarrow> nat \<Rightarrow> ('k, 'v) tapply \<Rightarrow> bool \<Rightarrow> 'k \<Rightarrow> nat \<Rightarrow> tclient \<Rightarrow> ('k, 'v) tmem \<Rightarrow>
     tiht_error + 'v option \<times> tclient \<times> ('k, 'v) tmem" where
  "do_with h P cap app lockfree key n c m =
     then_do (t_view P (tc_root c) [] m c) (\<lambda>(cur, c).
       t_loop h P cap app lockfree key n 1 P (tc_root c) cur [] c m)"

section \<open>Operations\<close>

text \<open>Writing the landing spot back: only to another node.\<close>

definition write_back :: "nat \<Rightarrow> addr \<Rightarrow> ('k, 'v) elist \<Rightarrow> ('k, 'v) tmem \<Rightarrow> ('k, 'v) tmem" where
  "write_back self base e m = (if \<not> t_is_local self base then t_write_elist base e m else m)"

definition contains_apply :: "'k \<Rightarrow> ('k, 'v) tapply" where
  "contains_apply key ctx m = Inr (True, map_option (\<lambda>i. snd (dc_e ctx ! i)) (elist_find key (dc_e ctx)), m)"

definition insert_apply :: "('k \<Rightarrow> u64) \<Rightarrow> nat \<Rightarrow> nat \<Rightarrow> 'k \<Rightarrow> 'v \<Rightarrow> ('k, 'v) tapply" where
  "insert_apply h cap self key val ctx m =
     (case elist_find key (dc_e ctx) of
        Some i \<Rightarrow> Inr (True, Some (snd (dc_e ctx ! i)), m)
      | None \<Rightarrow>
          if length (dc_e ctx) < cap then
            Inr (True, None, write_back self (dc_base ctx) (elist_insert key val (dc_e ctx)) m)
          else
            then_do (t_rehash h self (cr_get (dc_curr ctx)) (dc_count ctx) (dc_depth ctx) (dc_bucket ctx) m) (\<lambda>(p, m).
              Inr (False, None, t_change_bucket_pointer (dc_parent ctx) (dc_bucket ctx) p m)))"

text \<open>The loop of \<open>remove\<close> goes on after a match, with the last pair in the slot of the removed one.\<close>

function remove_loop :: "nat \<Rightarrow> addr \<Rightarrow> 'k \<Rightarrow> nat \<Rightarrow> ('k, 'v) elist \<Rightarrow> 'v option \<Rightarrow> ('k, 'v) tmem \<Rightarrow> 'v option \<times> ('k, 'v) tmem" where
  "remove_loop self base key i e r m =
     (if i < length e then
        if fst (e ! i) = key then
          remove_loop self base key (Suc i) (elist_remove i e) (Some (snd (e ! i))) (write_back self base (elist_remove i e) m)
        else remove_loop self base key (Suc i) e r m
      else (r, m))"
  by pat_completeness auto
termination
  by (relation "measure (\<lambda>(self, base, key, i, e, r, m). length e - i)") auto

declare remove_loop.simps [simp del]

definition remove_apply :: "nat \<Rightarrow> 'k \<Rightarrow> ('k, 'v) tapply" where
  "remove_apply self key ctx m =
     (case remove_loop self (dc_base ctx) key 0 (dc_e ctx) None m of (r, m) \<Rightarrow> Inr (True, r, m))"

text \<open>\<open>one_line\<close>: an E-list fills one cache line, so that reading it is atomic.\<close>

definition t_contains ::
  "('k \<Rightarrow> u64) \<Rightarrow> nat \<Rightarrow> nat \<Rightarrow> bool \<Rightarrow> nat \<Rightarrow> tclient \<Rightarrow> ('k, 'v) tmem \<Rightarrow> 'k \<Rightarrow>
     tiht_error + 'v option \<times> tclient \<times> ('k, 'v) tmem" where
  "t_contains h P cap one_line n c m key = do_with h P cap (contains_apply key) one_line key n c m"

definition t_insert ::
  "('k \<Rightarrow> u64) \<Rightarrow> nat \<Rightarrow> nat \<Rightarrow> nat \<Rightarrow> tclient \<Rightarrow> ('k, 'v) tmem \<Rightarrow> 'k \<Rightarrow> 'v \<Rightarrow>
     tiht_error + 'v option \<times> tclient \<times> ('k, 'v) tmem" where
  "t_insert h P cap n c m key val = do_with h P cap (insert_apply h cap (tc_self c) key val) False key n c m"

definition t_remove ::
  "('k \<Rightarrow> u64) \<Rightarrow> nat \<Rightarrow> nat \<Rightarrow> nat \<Rightarrow> tclient \<Rightarrow> ('k, 'v) tmem \<Rightarrow> 'k \<Rightarrow>
     tiht_error + 'v option \<times> tclient \<times> ('k, 'v) tmem" where
  "t_remove h P cap n c m key = do_with h P cap (remove_apply (tc_self c) key) False key n c m"

section \<open>Creating tables and clients\<close>

text \<open>The constructor: empty layers. \<open>InitFromPointer\<close> only sets the root.\<close>

definition TunedRdmaIHT :: "nat \<Rightarrow> nat \<Rightarrow> tclient" where
  "TunedRdmaIHT self depth = \<lparr>tc_self = self, tc_root = (0, 0), tc_depth = depth, tc_layers = (\<lambda>_ _. None), tc_held = 0\<rparr>"

definition t_InitAsFirst :: "nat \<Rightarrow> tclient \<Rightarrow> ('k, 'v) tmem \<Rightarrow> tclient \<times> ('k, 'v) tmem" where
  "t_InitAsFirst P c m = (case t_new_plist (tc_self c) P m of (p, m) \<Rightarrow> (c\<lparr>tc_root := p\<rparr>, m))"

definition t_InitFromPointer :: "addr \<Rightarrow> tclient \<Rightarrow> tclient" where
  "t_InitFromPointer p c = c\<lparr>tc_root := p\<rparr>"

text \<open>\<open>populate\<close>, each insertion with its own fuel.\<close>

definition t_populate ::
  "('k \<Rightarrow> u64) \<Rightarrow> nat \<Rightarrow> nat \<Rightarrow> ('k \<Rightarrow> 'v) \<Rightarrow> nat \<Rightarrow> (nat \<times> 'k) list \<Rightarrow> tclient \<times> ('k, 'v) tmem \<Rightarrow> (tclient \<times> ('k, 'v) tmem) option" where
  "t_populate h P cap f op_count ks s =
     populate (\<lambda>n (c, m) key val. (case t_insert h P cap n c m key val of Inl _ \<Rightarrow> None | Inr (r, s) \<Rightarrow> Some (r, s))) f op_count ks s"

text \<open>\<open>destroy\<close>: the copies it frees.\<close>

definition t_destroy :: "nat \<Rightarrow> tclient \<Rightarrow> (nat \<times> nat) list" where
  "t_destroy P c = filter (\<lambda>(i, s). tc_layers c i s \<noteq> None)
     ((0, 0) # map (Pair 1) [0 ..< P] @ map (Pair 2) [0 ..< P * P * 2])"

end
