(* ===== verification/TunedMem.thy ===== *)
theory TunedMem
  imports TunedIht
begin

text \<open>
  The memory of the tuned table: when it is well-formed, the E-list each key leads to, the map it holds, and what
  writing an E-list and rehashing one do to it.
\<close>

declare split_paired_All [simp del] split_paired_Ex [simp del]

section \<open>Memory\<close>

definition tbucket_ok :: "('k, 'v) tmem \<Rightarrow> addr \<Rightarrow> nat \<Rightarrow> lock_state \<times> addr \<Rightarrow> bool" where
  "tbucket_ok m a len bk = (case bk of
     (E_LOCKED, _) \<Rightarrow> False
   | (E_UNLOCKED, x) \<Rightarrow> t_elists m x \<noteq> None
   | (P_UNLOCKED, x) \<Rightarrow> (\<exists>l. t_plists m x = Some l \<and> length l = 2 * len) \<and> snd a < snd x)"

definition mem_ok :: "nat \<Rightarrow> ('k, 'v) tmem \<Rightarrow> bool" where
  "mem_ok cap m \<longleftrightarrow>
     (\<forall>x e. t_elists m x = Some e \<longrightarrow> distinct (map fst e) \<and> length e \<le> cap \<and> snd x < t_fresh m) \<and>
     (\<forall>a l. t_plists m a = Some l \<longrightarrow> 1 < length l \<and> snd a < t_fresh m \<and> (\<forall>b < length l. tbucket_ok m a (length l) (l ! b)))"

lemma mem_okD:
  assumes "mem_ok cap m"
  shows "t_elists m x = Some e \<Longrightarrow> distinct (map fst e)" "t_elists m x = Some e \<Longrightarrow> length e \<le> cap"
    "t_elists m x = Some e \<Longrightarrow> snd x < t_fresh m"
    "t_plists m a = Some l \<Longrightarrow> 1 < length l" "t_plists m a = Some l \<Longrightarrow> snd a < t_fresh m"
    "t_plists m a = Some l \<Longrightarrow> b < length l \<Longrightarrow> tbucket_ok m a (length l) (l ! b)"
  using assms unfolding mem_ok_def by blast+

text \<open>The E-list of a key below a P-list, and how deep it is.\<close>

inductive t_leads :: "('k \<Rightarrow> u64) \<Rightarrow> ('k, 'v) tmem \<Rightarrow> 'k \<Rightarrow> nat \<Rightarrow> nat \<Rightarrow> addr \<Rightarrow> addr \<Rightarrow> nat \<Rightarrow> bool" for h m key where
  here: "\<lbrakk> t_plists m a = Some l; level_hash_rdma h key d cnt < length l; l ! level_hash_rdma h key d cnt = (E_UNLOCKED, x) \<rbrakk> \<Longrightarrow>
     t_leads h m key d cnt a x d"
| down: "\<lbrakk> t_plists m a = Some l; level_hash_rdma h key d cnt < length l; l ! level_hash_rdma h key d cnt = (P_UNLOCKED, a');
     t_leads h m key (d + 1) (cnt * 2) a' x D \<rbrakk> \<Longrightarrow> t_leads h m key d cnt a x D"

inductive_cases t_leadsE: "t_leads h m key d cnt a x D"

lemma t_leads_det: "t_leads h m key d cnt a x D \<Longrightarrow> t_leads h m key d cnt a y E \<Longrightarrow> x = y \<and> D = E"
proof (induction arbitrary: y E rule: t_leads.induct)
  case (here a l d cnt x)
  from here(4) here(1-3) show ?case by (auto elim: t_leadsE)
next
  case (down a l d cnt a' x D)
  from down(6) down(1-3) have "t_leads h m key (d + 1) (cnt * 2) a' y E" by (auto elim: t_leadsE)
  then show ?case by (rule down(5))
qed

lemma t_leads_depth: "t_leads h m key d cnt a x D \<Longrightarrow> d \<le> D"
  by (induction rule: t_leads.induct) auto

lemma t_leads_cong:
  assumes "t_leads h m key d cnt a x D" "t_plists m' = t_plists m"
  shows "t_leads h m' key d cnt a x D"
  using assms by (induction rule: t_leads.induct) (auto intro: t_leads.intros)

lemma t_leads_ex:
  assumes "mem_ok cap m" "t_plists m a = Some l" "length l = cnt"
  shows "\<exists>x D e. t_leads h m key d cnt a x D \<and> t_elists m x = Some e"
  using assms(2,3)
proof (induction "t_fresh m - snd a" arbitrary: a l d cnt rule: less_induct)
  case less
  note D = mem_okD [OF assms(1)]
  let ?b = "level_hash_rdma h key d cnt"
  have b: "?b < length l" using level_hash_rdma_less [of cnt h key d] D(4) [OF less(2)] less(3) by simp
  obtain lk x where x: "l ! ?b = (lk, x)" by (cases "l ! ?b")
  note B = D(6) [OF less(2) b, unfolded x tbucket_ok_def]
  show ?case
  proof (cases lk)
    case E_LOCKED
    with B show ?thesis by simp
  next
    case E_UNLOCKED
    with B x t_leads.here [OF less(2) b] show ?thesis by auto
  next
    case P_UNLOCKED
    with B obtain l' where l': "t_plists m x = Some l'" "length l' = 2 * length l" "snd a < snd x" by auto
    have "t_fresh m - snd x < t_fresh m - snd a" using l'(3) D(5) [OF l'(1)] by simp
    from less(1) [OF this l'(1), of "cnt * 2" "d + 1"] l'(2) less(3)
    obtain y D e where "t_leads h m key (d + 1) (cnt * 2) x y D" "t_elists m y = Some e" by auto
    with t_leads.down [OF less(2) b x [unfolded P_UNLOCKED]] show ?thesis by blast
  qed
qed

text \<open>The table with a given root holds a map.\<close>

definition t_holds :: "('k \<Rightarrow> u64) \<Rightarrow> nat \<Rightarrow> ('k, 'v) tmem \<Rightarrow> addr \<Rightarrow> ('k \<Rightarrow> 'v option) \<Rightarrow> bool" where
  "t_holds h P m r M \<longleftrightarrow> (\<forall>key. \<exists>x D e. t_leads h m key 1 P r x D \<and> t_elists m x = Some e \<and> M key = map_of e key)"

lemma t_holdsD:
  assumes "t_holds h P m r M" "t_leads h m key 1 P r x D" "t_elists m x = Some e"
  shows "M key = map_of e key"
proof -
  obtain y E e' where y: "t_leads h m key 1 P r y E" "t_elists m y = Some e'" "M key = map_of e' key"
    using assms(1) unfolding t_holds_def by blast
  then show ?thesis using t_leads_det [OF y(1) assms(2)] assms(3) by simp
qed

section \<open>Allocation\<close>

lemma t_init_buckets_eq:
  "t_init_buckets self n m =
     (map (\<lambda>i. (E_UNLOCKED, (self, t_fresh m + i))) [0 ..< n],
      m\<lparr>t_elists := (\<lambda>x. if fst x = self \<and> t_fresh m \<le> snd x \<and> snd x < t_fresh m + n then Some [] else t_elists m x),
        t_fresh := t_fresh m + n\<rparr>)"
proof (induction n)
  case 0
  have "(\<lambda>x. if fst x = self \<and> t_fresh m \<le> snd x \<and> snd x < t_fresh m then Some [] else t_elists m x) = t_elists m"
    by (intro ext) auto
  then show ?case by simp
next
  case (Suc n)
  have "(\<lambda>x. if fst x = self \<and> t_fresh m \<le> snd x \<and> snd x < t_fresh m + n then Some [] else t_elists m x)((self, t_fresh m + n) \<mapsto> []) =
    (\<lambda>x. if fst x = self \<and> t_fresh m \<le> snd x \<and> snd x < t_fresh m + Suc n then Some [] else t_elists m x)"
    by (auto simp: fun_eq_iff prod_eq_iff)
  with Suc show ?case by (simp add: t_alloc_elist_def Let_def)
qed

lemma t_new_plist_eq:
  "t_new_plist self n m = ((self, t_fresh m),
     \<lparr>t_plists = (t_plists m)((self, t_fresh m) \<mapsto> map (\<lambda>i. (E_UNLOCKED, (self, Suc (t_fresh m + i)))) [0 ..< n]),
      t_elists = (\<lambda>x. if fst x = self \<and> t_fresh m < snd x \<and> snd x \<le> t_fresh m + n then Some [] else t_elists m x),
      t_fresh = Suc (t_fresh m + n), \<dots> = tmem.more m\<rparr>)"
proof -
  have "(Suc (t_fresh m) \<le> k \<and> k < Suc (t_fresh m) + n) \<longleftrightarrow> (t_fresh m < k \<and> k \<le> t_fresh m + n)" for k by auto
  then show ?thesis
    by (intro prod_eqI tmem.equality) (simp_all add: t_new_plist_def t_InitPList_def Let_def t_init_buckets_eq cong: if_cong)
qed

lemma fold_insert_at:
  "fold (\<lambda>p. t_insert_at (X p) p) src m =
     m\<lparr>t_elists := (\<lambda>y. map_option (\<lambda>e. e @ filter (\<lambda>p. X p = y) src) (t_elists m y))\<rparr>"
proof (induction src arbitrary: m)
  case Nil
  show ?case by (simp add: map_option.identity [unfolded id_def] option.map_ident)
next
  case (Cons p src)
  have "t_insert_at (X p) p m = m\<lparr>t_elists := (\<lambda>y. map_option (\<lambda>e. e @ (if X p = y then [p] else [])) (t_elists m y))\<rparr>"
    by (auto simp: t_insert_at_def t_write_elist_def elist_insert_def fun_eq_iff option.map_ident intro!: tmem.equality split: option.splits)
  then have "fold (\<lambda>p. t_insert_at (X p) p) (p # src) m =
      m\<lparr>t_elists := (\<lambda>y. map_option (\<lambda>e. e @ (if X p = y then [p] else []) @ filter (\<lambda>p. X p = y) src) (t_elists m y))\<rparr>"
    by (simp add: Cons.IH option.map_comp comp_def)
  moreover have "(if X p = y then [p] else []) @ filter (\<lambda>p. X p = y) src = filter (\<lambda>p. X p = y) (p # src)" for y by simp
  ultimately show ?case by (simp only:)
qed

section \<open>Writing an E-list\<close>

text \<open>Buckets that point to a P-list stay as they are.\<close>

definition t_grows :: "('k, 'v) tmem \<Rightarrow> ('k, 'v) tmem \<Rightarrow> bool" where
  "t_grows m m' \<longleftrightarrow> (\<forall>a l. t_plists m a = Some l \<longrightarrow>
     (\<exists>l'. t_plists m' a = Some l' \<and> length l' = length l \<and> (\<forall>b < length l. fst (l ! b) = P_UNLOCKED \<longrightarrow> l' ! b = l ! b)))"

lemma t_growsD:
  assumes "t_grows m m'" "t_plists m a = Some l"
  obtains l' where "t_plists m' a = Some l'" "length l' = length l"
    "\<And>b. b < length l \<Longrightarrow> fst (l ! b) = P_UNLOCKED \<Longrightarrow> l' ! b = l ! b"
  using assms unfolding t_grows_def by blast

lemma t_grows_plists: "t_plists m' = t_plists m \<Longrightarrow> t_grows m m'"
  by (simp add: t_grows_def)

lemma t_grows_trans:
  assumes "t_grows m1 m2" "t_grows m2 m3" shows "t_grows m1 m3"
  unfolding t_grows_def
proof (intro allI impI)
  fix a l assume "t_plists m1 a = Some l"
  from t_growsD [OF assms(1) this] obtain l2 where 2: "t_plists m2 a = Some l2" "length l2 = length l"
    "\<And>b. b < length l \<Longrightarrow> fst (l ! b) = P_UNLOCKED \<Longrightarrow> l2 ! b = l ! b" by blast
  from t_growsD [OF assms(2) 2(1)] obtain l3 where 3: "t_plists m3 a = Some l3" "length l3 = length l2"
    "\<And>b. b < length l2 \<Longrightarrow> fst (l2 ! b) = P_UNLOCKED \<Longrightarrow> l3 ! b = l2 ! b" by blast
  show "\<exists>l'. t_plists m3 a = Some l' \<and> length l' = length l \<and> (\<forall>b < length l. fst (l ! b) = P_UNLOCKED \<longrightarrow> l' ! b = l ! b)"
    using 2 3 by auto
qed

lemma t_write_elist_simps [simp]:
  "t_plists (t_write_elist x e m) = t_plists m" "t_fresh (t_write_elist x e m) = t_fresh m"
  "t_elists (t_write_elist x e m) y = (if y = x then Some e else t_elists m y)"
  by (simp_all add: t_write_elist_def)

lemma t_write_elist_ok:
  assumes m: "mem_ok cap m" "t_elists m x = Some e" and e': "distinct (map fst e')" "length e' \<le> cap"
  shows "mem_ok cap (t_write_elist x e' m)" "t_grows m (t_write_elist x e' m)"
proof -
  note D = mem_okD [OF m(1)]
  have "tbucket_ok (t_write_elist x e' m) a n bk" if "tbucket_ok m a n bk" for a n bk
    using that by (auto simp: tbucket_ok_def split: lock_state.splits prod.splits)
  then show "mem_ok cap (t_write_elist x e' m)"
    unfolding mem_ok_def using D(4,5,6) D(1,2,3) e' D(3) [OF m(2)] by (simp split: if_splits)
  show "t_grows m (t_write_elist x e' m)" by (rule t_grows_plists) simp
qed

lemma t_write_elist_holds:
  assumes H: "t_holds h P m r M" and x: "t_leads h m key 1 P r x D" "t_elists m x = Some e"
    and e': "map_of e' = (map_of e)(key := v)"
  shows "t_holds h P (t_write_elist x e' m) r (M(key := v))"
  unfolding t_holds_def
proof
  fix k
  obtain y E f where y: "t_leads h m k 1 P r y E" "t_elists m y = Some f" "M k = map_of f k"
    using H unfolding t_holds_def by blast
  have "t_leads h (t_write_elist x e' m) k 1 P r y E" by (rule t_leads_cong [OF y(1)]) simp
  moreover have "(M(key := v)) k = map_of (if y = x then e' else f) k"
  proof (cases "k = key")
    case True
    then have "y = x" using t_leads_det [OF y(1)] x(1) by simp
    then show ?thesis using True e' by simp
  next
    case False
    then show ?thesis using y x(2) e' by auto
  qed
  ultimately show "\<exists>y D f. t_leads h (t_write_elist x e' m) k 1 P r y D \<and> t_elists (t_write_elist x e' m) y = Some f \<and>
      (M(key := v)) k = map_of f k"
    using y(2) by (intro exI conjI) auto
qed

section \<open>The lock of a bucket\<close>

lemma t_set_bucket_plists:
  "t_plists m a = Some l \<Longrightarrow> t_set_bucket a b f m = m\<lparr>t_plists := (t_plists m)(a \<mapsto> l[b := f (l ! b)])\<rparr>"
  by (simp add: t_set_bucket_def)

text \<open>Locking a bucket, changing E-lists and unlocking it changes the E-lists.\<close>

lemma lock_unlock:
  assumes "t_plists m a = Some l" "b < length l" "l ! b = (E_UNLOCKED, x)"
  shows "t_unlock a b E_UNLOCKED (t_unlock a b E_LOCKED m) = m"
    "t_unlock a b E_UNLOCKED (t_write_elist x e (t_unlock a b E_LOCKED m)) = t_write_elist x e m"
proof -
  have "l[b := (E_UNLOCKED, x)] = l" using assms(3) by (metis list_update_id)
  with assms show "t_unlock a b E_UNLOCKED (t_unlock a b E_LOCKED m) = m"
    "t_unlock a b E_UNLOCKED (t_write_elist x e (t_unlock a b E_LOCKED m)) = t_write_elist x e m"
    by (simp_all add: t_unlock_def t_set_bucket_plists t_write_elist_def fun_upd_idem)
qed

lemma t_unlock_simps [simp]: "t_elists (t_unlock a b s m) = t_elists m" "t_fresh (t_unlock a b s m) = t_fresh m"
  by (simp_all add: t_unlock_def t_set_bucket_def split: option.splits)

section \<open>Rehashing\<close>

definition rehashed :: "('k \<Rightarrow> u64) \<Rightarrow> nat \<Rightarrow> addr \<Rightarrow> nat \<Rightarrow> tplist \<Rightarrow> nat \<Rightarrow> nat \<Rightarrow> ('k, 'v) elist \<Rightarrow> ('k, 'v) tmem \<Rightarrow> ('k, 'v) tmem" where
  "rehashed h self a b l d cnt src m = m\<lparr>
     t_plists := (t_plists m)(a \<mapsto> l[b := (P_UNLOCKED, (self, t_fresh m))],
       (self, t_fresh m) \<mapsto> map (\<lambda>i. (E_UNLOCKED, (self, Suc (t_fresh m + i)))) [0 ..< cnt * 2]),
     t_elists := (\<lambda>x. if fst x = self \<and> t_fresh m < snd x \<and> snd x \<le> t_fresh m + cnt * 2
        then Some (filter (\<lambda>q. level_hash_rdma h (fst q) (d + 1) (cnt * 2) = snd x - Suc (t_fresh m)) src)
        else t_elists m x),
     t_fresh := Suc (t_fresh m + cnt * 2)\<rparr>"

lemma t_rehash_eq:
  fixes m :: "('k, 'v) tmem"
  assumes m: "mem_ok cap m" "t_plists m a = Some l" "b < length l" "l ! b = (E_UNLOCKED, x)" "t_elists m x = Some src"
    and cl: "snd (cl ! b) = x" and cnt: "0 < cnt"
  shows "\<exists>m1. t_rehash h self cl cnt d b (t_unlock a b E_LOCKED m) = Inr ((self, t_fresh m), m1) \<and>
     t_unlock a b P_UNLOCKED (t_change_bucket_pointer a b (self, t_fresh m) m1) = rehashed h self a b l d cnt src m"
proof -
  note D = mem_okD [OF m(1)]
  let ?F = "t_fresh m" and ?n = "cnt * 2"
  let ?bs = "map (\<lambda>i. (E_UNLOCKED, (self, Suc (?F + i)))) [0 ..< ?n]"
  let ?s = "\<lambda>p :: 'k \<times> 'v. level_hash_rdma h (fst p) (d + 1) ?n"
  let ?X = "\<lambda>p. snd (?bs ! ?s p)"
  have s: "?s p < ?n" for p using level_hash_rdma_less [of ?n h "fst p" "d + 1"] cnt by simp
  have X: "?X p = (self, Suc (?F + ?s p))" for p using s [of p] by simp
  have a: "(self, ?F) \<noteq> a" using D(5) [OF m(2)] by auto
  have x: "\<not> ?F < snd x" using D(3) [OF m(5)] by simp
  define m1 where "m1 = snd (t_new_plist self ?n (t_unlock a b E_LOCKED m))"
  have new: "t_new_plist self ?n (t_unlock a b E_LOCKED m) = ((self, ?F), m1)" unfolding m1_def by (simp add: t_new_plist_eq)
  have e: "t_elists m1 = (\<lambda>x. if fst x = self \<and> ?F < snd x \<and> snd x \<le> ?F + ?n then Some [] else t_elists m x)"
    and p: "t_plists m1 = (t_plists m)(a \<mapsto> l[b := (E_LOCKED, x)], (self, ?F) \<mapsto> ?bs)" and f: "t_fresh m1 = Suc (?F + ?n)"
    unfolding m1_def using m(2,4) by (simp_all add: t_new_plist_eq t_unlock_def t_set_bucket_plists cong: if_cong)
  have src: "t_elists m1 (snd (cl ! b)) = Some src" using x m(5) cl by (simp add: e)
  have "t_rehash h self cl cnt d b (t_unlock a b E_LOCKED m) =
      Inr ((self, ?F), fold (\<lambda>p. t_insert_at (?X p) p) src m1)"
    using src by (simp add: t_rehash_def new p)
  moreover have "t_unlock a b P_UNLOCKED (t_change_bucket_pointer a b (self, ?F) (fold (\<lambda>p. t_insert_at (?X p) p) src m1)) =
      rehashed h self a b l d cnt src m"
  proof (rule tmem.equality)
    show "t_plists (t_unlock a b P_UNLOCKED (t_change_bucket_pointer a b (self, ?F) (fold (\<lambda>p. t_insert_at (?X p) p) src m1))) =
        t_plists (rehashed h self a b l d cnt src m)"
      using a m(3) by (simp add: fold_insert_at t_unlock_def t_change_bucket_pointer_def t_set_bucket_def p rehashed_def fun_upd_twist)
    have "map_option (\<lambda>e. e @ filter (\<lambda>p. ?X p = y) src) (t_elists m1 y) = t_elists (rehashed h self a b l d cnt src m) y" for y
    proof (cases "fst y = self \<and> ?F < snd y \<and> snd y \<le> ?F + ?n")
      case True
      then have "?X p = y \<longleftrightarrow> ?s p = snd y - Suc ?F" for p unfolding X by (cases y) auto
      then have "filter (\<lambda>p. ?X p = y) src = filter (\<lambda>q. ?s q = snd y - Suc ?F) src" by (simp only:)
      then show ?thesis using True by (simp add: e rehashed_def)
    next
      case False
      then have "?X p \<noteq> y" for p unfolding X using s [of p] by auto
      moreover have "t_elists m1 y = t_elists m y" using False by (auto simp: e)
      ultimately show ?thesis using False by (auto simp: rehashed_def option.map_ident)
    qed
    then show "t_elists (t_unlock a b P_UNLOCKED (t_change_bucket_pointer a b (self, ?F) (fold (\<lambda>p. t_insert_at (?X p) p) src m1))) =
        t_elists (rehashed h self a b l d cnt src m)"
      by (simp add: fold_insert_at t_change_bucket_pointer_def t_set_bucket_def fun_eq_iff split: option.splits)
  qed (simp_all add: fold_insert_at t_unlock_def t_change_bucket_pointer_def t_set_bucket_def p f rehashed_def)
  ultimately show ?thesis by blast
qed

lemma rehashed_simps:
  "t_plists (rehashed h self a b l d cnt src m) = (t_plists m)(a \<mapsto> l[b := (P_UNLOCKED, (self, t_fresh m))],
     (self, t_fresh m) \<mapsto> map (\<lambda>i. (E_UNLOCKED, (self, Suc (t_fresh m + i)))) [0 ..< cnt * 2])"
  "t_fresh (rehashed h self a b l d cnt src m) = Suc (t_fresh m + cnt * 2)"
  "t_elists (rehashed h self a b l d cnt src m) x = (if fst x = self \<and> t_fresh m < snd x \<and> snd x \<le> t_fresh m + cnt * 2
     then Some (filter (\<lambda>q. level_hash_rdma h (fst q) (d + 1) (cnt * 2) = snd x - Suc (t_fresh m)) src) else t_elists m x)"
  by (simp_all add: rehashed_def)

lemma rehashed_ok:
  assumes m: "mem_ok cap m" "t_plists m a = Some l" "length l = cnt" "b < cnt" "t_elists m x = Some src"
    and b: "l ! b = (E_UNLOCKED, x)"
  shows "mem_ok cap (rehashed h self a b l d cnt src m)" "t_grows m (rehashed h self a b l d cnt src m)"
proof -
  note D = mem_okD [OF m(1)] and R = rehashed_simps [of h self a b l d cnt src m]
  let ?m = "rehashed h self a b l d cnt src m" and ?p = "(self, t_fresh m)"
  have new: "t_plists m ?p = None" "a \<noteq> ?p" using D(5) [of ?p] D(5) [OF m(2)] by (cases "t_plists m ?p"; auto)+
  have el: "t_elists ?m y \<noteq> None" if "t_elists m y \<noteq> None" for y using that by (simp add: R(3))
  have pl: "\<exists>l'. t_plists ?m y = Some l' \<and> length l' = n" if "\<exists>l'. t_plists m y = Some l' \<and> length l' = n" for y n
    using that new m(2) by (auto simp: R(1))
  have old: "tbucket_ok ?m c n bk" if "tbucket_ok m c n bk" for c n bk
    using that el pl unfolding tbucket_ok_def by (auto split: lock_state.splits prod.splits simp del: not_None_eq)
  have bs: "tbucket_ok ?m ?p (cnt * 2) (E_UNLOCKED, (self, Suc (t_fresh m + i)))" if "i < cnt * 2" for i
    using that by (simp add: tbucket_ok_def R(3))
  have up: "tbucket_ok ?m a cnt (P_UNLOCKED, ?p)" using D(5) [OF m(2)] by (simp add: tbucket_ok_def R(1))
  have e: "distinct (map fst f) \<and> length f \<le> cap \<and> snd y < t_fresh ?m" if "t_elists ?m y = Some f" for y f
  proof (cases "fst y = self \<and> t_fresh m < snd y \<and> snd y \<le> t_fresh m + cnt * 2")
    case True
    then have f: "f = filter (\<lambda>q. level_hash_rdma h (fst q) (d + 1) (cnt * 2) = snd y - Suc (t_fresh m)) src"
      using that by (simp add: R(3))
    have "length f \<le> cap" unfolding f using D(2) [OF m(5)] le_trans length_filter_le by blast
    moreover have "distinct (map fst f)" unfolding f by (rule distinct_map_filter [OF D(1) [OF m(5)]])
    ultimately show ?thesis using True by (simp add: R(2))
  next
    case False
    then have "t_elists m y = Some f" using that by (simp only: R(3) if_False)
    with D(1-3) show ?thesis by (fastforce simp: R(2))
  qed
  have p: "1 < length k \<and> snd c < t_fresh ?m \<and> (\<forall>i < length k. tbucket_ok ?m c (length k) (k ! i))"
    if k: "t_plists ?m c = Some k" for c k
  proof -
    consider "c = ?p" | "c = a" "c \<noteq> ?p" | "c \<noteq> a" "c \<noteq> ?p" by blast
    then show ?thesis
    proof cases
      case 1
      then have "k = map (\<lambda>i. (E_UNLOCKED, (self, Suc (t_fresh m + i)))) [0 ..< cnt * 2]" using k by (simp add: R(1))
      then show ?thesis using 1 bs m(4) by (simp add: R(2))
    next
      case 2
      then have "k = l[b := (P_UNLOCKED, ?p)]" using k by (simp add: R(1))
      moreover have "tbucket_ok ?m a (length l) (l[b := (P_UNLOCKED, ?p)] ! i)" if "i < length l" for i
        using that up old [OF D(6) [OF m(2) that]] m(3) by (cases "i = b") simp_all
      ultimately show ?thesis using 2(1) D(4,5) [OF m(2)] m(3) by (simp add: R(2))
    next
      case 3
      then have "t_plists m c = Some k" using k by (simp add: R(1))
      then show ?thesis using old D(4) D(5) [of c k] D(6) by (simp add: R(2))
    qed
  qed
  show "mem_ok cap ?m" unfolding mem_ok_def using e p by blast
  have "\<exists>l'. t_plists ?m c = Some l' \<and> length l' = length k \<and> (\<forall>i < length k. fst (k ! i) = P_UNLOCKED \<longrightarrow> l' ! i = k ! i)"
    if k: "t_plists m c = Some k" for c k
    using k new m(2,3,4) b by (cases "c = a") (auto simp: rehashed_simps nth_list_update)
  then show "t_grows m ?m" unfolding t_grows_def by blast
qed

text \<open>Every key finds the pairs it found before.\<close>

lemma rehashed_leads:
  assumes m: "mem_ok cap m" "t_plists m a = Some l" "b < length l" "l ! b = (E_UNLOCKED, x)" "t_elists m x = Some src"
    and cnt: "length l = P * 2 ^ (d - 1)" "1 \<le> d" "0 < P"
    and lead: "t_leads h m k i c a' y D"
    and at: "t_plists m a' = Some l'" "length l' = c" "c = P * 2 ^ (i - 1)" "1 \<le> i"
  shows "\<exists>z E f. t_leads h (rehashed h self a b l d (length l) src m) k i c a' z E \<and>
     t_elists (rehashed h self a b l d (length l) src m) z = Some f \<and> map_of f k = map_of (the (t_elists m y)) k"
  using lead at
proof (induction arbitrary: l' rule: t_leads.induct)
  note D = mem_okD [OF m(1)] and R = rehashed_simps [of h self a b l d "length l" src m]
  let ?m = "rehashed h self a b l d (length l) src m" and ?p = "(self, t_fresh m)"
  {
    case (here a' l1 i c y)
    have l': "l' = l1" using here(1,4) by simp
    have ne: "a' \<noteq> ?p" using D(5) [OF here(1)] by auto
    have y: "t_elists m y \<noteq> None" using D(6) [OF here(1,2)] here(3) by (simp add: tbucket_ok_def)
    show ?case
    proof (cases "a' = a \<and> level_hash_rdma h k i c = b")
      case False
      then have "t_plists ?m a' = Some (if a' = a then l1[b := (P_UNLOCKED, ?p)] else l1)"
        using here(1) m(2) ne by (auto simp: R(1))
      then have "t_leads h ?m k i c a' y i" by (rule t_leads.here) (use False here(2,3) in auto)
      moreover have "t_elists ?m y = t_elists m y" using D(3) y by (fastforce simp: R(3))
      ultimately show ?thesis using y by auto
    next
      case True
      then have ll: "l1 = l" and yx: "y = x" using here(1,3) m(2,4) by auto
      have "P * 2 ^ (d - 1) = P * 2 ^ (i - 1)" using here(5,6) cnt(1) l' ll by simp
      then have di: "d = i" using cnt(2,3) here(7) by simp
      have c: "c = length l" using here(5) l' ll by simp
      let ?s = "level_hash_rdma h k (i + 1) (c * 2)"
      have s: "?s < c * 2" using level_hash_rdma_less [of "c * 2" h k "i + 1"] D(4) [OF m(2)] c by simp
      have 1: "t_leads h ?m k (i + 1) (c * 2) ?p (self, Suc (t_fresh m + ?s)) (i + 1)"
        by (rule t_leads.here [where l = "map (\<lambda>i. (E_UNLOCKED, (self, Suc (t_fresh m + i)))) [0 ..< c * 2]"]) (use s c in \<open>simp_all add: R(1)\<close>)
      have 2: "t_leads h ?m k i c a' (self, Suc (t_fresh m + ?s)) (i + 1)"
        by (rule t_leads.down [OF _ _ _ 1, where l = "l[b := (P_UNLOCKED, ?p)]"]) (use True ne m(3) in \<open>simp_all add: R(1)\<close>)
      have 3: "t_elists ?m (self, Suc (t_fresh m + ?s)) = Some (filter (\<lambda>q. level_hash_rdma h (fst q) (i + 1) (c * 2) = ?s) src)"
        using s c di by (simp add: rehashed_simps)
      have "map_of (filter (\<lambda>q. level_hash_rdma h (fst q) (i + 1) (c * 2) = ?s) src) k = map_of src k"
        by (rule map_of_filter_slot) (rule refl)
      then have 4: "map_of (filter (\<lambda>q. level_hash_rdma h (fst q) (i + 1) (c * 2) = ?s) src) k = map_of (the (t_elists m y)) k"
        using m(5) yx by simp
      show ?thesis by (intro exI conjI) (rule 2, rule 3, rule 4)
    qed
  next
    case (down a1 l1 i c a2 y D')
    have l': "l' = l1" using down(1,6) by simp
    have ne: "a1 \<noteq> ?p" using D(5) [OF down(1)] by auto
    have "tbucket_ok m a1 (length l1) (P_UNLOCKED, a2)" using D(6) [OF down(1,2)] down(3) by simp
    then obtain l2 where l2: "t_plists m a2 = Some l2" "length l2 = 2 * length l1" by (auto simp: tbucket_ok_def)
    have "length l2 = c * 2" using l2(2) l' down(7) by simp
    moreover have "c * 2 = P * 2 ^ (i + 1 - 1)" using down(8,9) by (cases i) auto
    ultimately obtain z E f where z: "t_leads h ?m k (i + 1) (c * 2) a2 z E" "t_elists ?m z = Some f"
      "map_of f k = map_of (the (t_elists m y)) k" using down(5) [OF l2(1)] by auto
    have "\<exists>l3. t_plists ?m a1 = Some l3 \<and> level_hash_rdma h k i c < length l3 \<and> l3 ! level_hash_rdma h k i c = (P_UNLOCKED, a2)"
      using down(1-3) m(2,3,4) ne by (cases "a1 = a") (auto simp: rehashed_simps nth_list_update)
    with t_leads.down [OF _ _ _ z(1)] z(2,3) show ?case by blast
  }
qed

lemma rehashed_holds:
  assumes m: "mem_ok cap m" "t_plists m a = Some l" "b < length l" "l ! b = (E_UNLOCKED, x)" "t_elists m x = Some src"
    and cnt: "length l = P * 2 ^ (d - 1)" "1 \<le> d" "0 < P" and r: "t_plists m r = Some l0" "length l0 = P"
    and H: "t_holds h P m r M"
  shows "t_holds h P (rehashed h self a b l d (length l) src m) r M"
  unfolding t_holds_def
proof
  fix k
  obtain y E f where y: "t_leads h m k 1 P r y E" "t_elists m y = Some f" "M k = map_of f k"
    using H unfolding t_holds_def by blast
  from rehashed_leads [OF m cnt y(1) r, of self] y(2,3)
  show "\<exists>z E f. t_leads h (rehashed h self a b l d (length l) src m) k 1 P r z E \<and>
      t_elists (rehashed h self a b l d (length l) src m) z = Some f \<and> M k = map_of f k"
    by auto
qed

end
