(* ===== verification/TunedIhtProps.thy ===== *)
theory TunedIhtProps
  imports TunedMem
begin

text \<open>
  What the tuned table does as a map. A lookup reads the E-list a key leads to, through any
  layers the client has copied as long as it copies two at most. An insertion or removal changes it only if
  that list is on another node. With three layers two different paths share a slot.
\<close>

declare split_paired_All [simp del] split_paired_Ex [simp del]

section \<open>Paths and layers\<close>

inductive t_walk :: "('k, 'v) tmem \<Rightarrow> addr \<Rightarrow> nat list \<Rightarrow> addr \<Rightarrow> bool" for m r where
  root: "t_walk m r [] r"
| step: "\<lbrakk> t_walk m r p a; t_plists m a = Some l; b < length l; l ! b = (P_UNLOCKED, a') \<rbrakk> \<Longrightarrow> t_walk m r (p @ [b]) a'"

inductive_simps t_walk_Nil: "t_walk m r [] a"
inductive_simps t_walk_snoc: "t_walk m r (p @ [b]) a"

lemma t_walk_det: "t_walk m r p a \<Longrightarrow> t_walk m r p a' \<Longrightarrow> a = a'"
proof (induction p arbitrary: a a' rule: rev_induct)
  case Nil
  then show ?case by (simp add: t_walk_Nil)
next
  case (snoc b p)
  from snoc.prems obtain c l c' l' where
    c: "t_walk m r p c" "t_plists m c = Some l" "l ! b = (P_UNLOCKED, a)"
    "t_walk m r p c'" "t_plists m c' = Some l'" "l' ! b = (P_UNLOCKED, a')"
    by (auto simp: t_walk_snoc)
  from snoc.IH [OF c(1,4)] c show ?case by auto
qed

lemma t_walk_length:
  assumes "t_walk m r p a" "mem_ok cap m" "t_plists m r = Some l0" "length l0 = P"
  shows "\<exists>l. t_plists m a = Some l \<and> length l = P * 2 ^ length p"
  using assms(1)
proof (induction rule: t_walk.induct)
  case root
  with assms(3,4) show ?case by simp
next
  case (step p a l b a')
  have "tbucket_ok m a (length l) (P_UNLOCKED, a')" using mem_okD(6) [OF assms(2) step(2,3)] step(4) by simp
  then show ?case using step(2,5) by (auto simp: tbucket_ok_def)
qed

lemma t_walk_grows:
  assumes "t_walk m r p a" "t_grows m m'"
  shows "t_walk m' r p a"
  using assms(1)
proof (induction rule: t_walk.induct)
  case root
  show ?case by (rule t_walk.root)
next
  case (step p a l b a')
  from t_growsD [OF assms(2) step(2)] obtain l' where
    l': "t_plists m' a = Some l'" "length l' = length l" "\<And>b. b < length l \<Longrightarrow> fst (l ! b) = P_UNLOCKED \<Longrightarrow> l' ! b = l ! b"
    by blast
  show ?case by (rule t_walk.step [OF step(5) l'(1)]) (use l'(2,3) step(3,4) in simp_all)
qed

text \<open>The path of a key.\<close>

definition key_path :: "('k \<Rightarrow> u64) \<Rightarrow> nat \<Rightarrow> 'k \<Rightarrow> nat \<Rightarrow> nat list" where
  "key_path h P key n = map (\<lambda>i. level_hash_rdma h key (i + 1) (P * 2 ^ i)) [0 ..< n]"

lemma key_path_Suc: "key_path h P key (Suc n) = key_path h P key n @ [level_hash_rdma h key (n + 1) (P * 2 ^ n)]"
  by (simp add: key_path_def)

lemma key_path_simps [simp]: "length (key_path h P key n) = n" "key_path h P key 0 = []"
  by (simp_all add: key_path_def)

lemma key_path_leads:
  assumes "t_walk m r (key_path h P key n) a" "t_leads h m key (n + 1) (P * 2 ^ n) a x D"
  shows "t_leads h m key 1 P r x D"
  using assms
proof (induction n arbitrary: a)
  case 0
  then show ?case by (simp add: t_walk_Nil)
next
  case (Suc n)
  then obtain c l where c: "t_walk m r (key_path h P key n) c" "t_plists m c = Some l"
    "level_hash_rdma h key (n + 1) (P * 2 ^ n) < length l" "l ! level_hash_rdma h key (n + 1) (P * 2 ^ n) = (P_UNLOCKED, a)"
    by (auto simp: key_path_Suc t_walk_snoc)
  have "t_leads h m key (n + 1) (P * 2 ^ n) c x D"
    by (rule t_leads.down [OF c(2,3,4)]) (use Suc.prems(2) in \<open>simp add: ac_simps\<close>)
  then show ?case by (rule Suc.IH [OF c(1)])
qed

text \<open>With two layers at most a slot has one path, and no other layer is looked at.\<close>

lemma cache_slot_two:
  assumes "depth \<le> 2"
  shows "cache_slot P depth 0 0 p = Inr (case p of
     [] \<Rightarrow> if depth = 0 then None else Some (0, 0)
   | [b] \<Rightarrow> if depth = 2 then Some (1, b) else None
   | _ \<Rightarrow> None)"
proof -
  consider "depth = 0" | "depth = 1" | "depth = 2" using assms by linarith
  moreover have "cache_slot P d d s q = Inr None" for d s q by (simp add: cache_slot.simps)
  ultimately show ?thesis
    by cases (auto simp: cache_slot.simps [of P _ _ _ p] cache_slot.simps [of P _ "Suc 0"] numeral_2_eq_2 split: list.splits)
qed

lemma cache_slot_inj:
  assumes "depth \<le> 2" "cache_slot P depth 0 0 p = Inr (Some s)" "cache_slot P depth 0 0 q = Inr (Some s)"
  shows "p = q"
  using assms(2,3) by (auto simp: cache_slot_two [OF assms(1)] split: list.splits if_splits)

text \<open>What a client's layers hold: calcified P-lists as they are for ever.\<close>

definition layers_ok :: "nat \<Rightarrow> ('k, 'v) tmem \<Rightarrow> tclient \<Rightarrow> bool" where
  "layers_ok P m c \<longleftrightarrow> (\<forall>i s l. tc_layers c i s = Some l \<longrightarrow>
     (\<exists>p a l'. cache_slot P (tc_depth c) 0 0 p = Inr (Some (i, s)) \<and> t_walk m (tc_root c) p a \<and> t_plists m a = Some l' \<and>
        length l = length l' \<and> (\<forall>b < length l - 1. l ! b = l' ! b \<and> fst (l ! b) = P_UNLOCKED)))"

lemma layers_ok_grows:
  assumes "layers_ok P m c" "t_grows m m'"
  shows "layers_ok P m' c"
  unfolding layers_ok_def
proof (intro allI impI)
  fix i s l assume "tc_layers c i s = Some l"
  then obtain p a l' where p: "cache_slot P (tc_depth c) 0 0 p = Inr (Some (i, s))" "t_walk m (tc_root c) p a" "t_plists m a = Some l'"
     "length l = length l'" "\<forall>b < length l - 1. l ! b = l' ! b \<and> fst (l ! b) = P_UNLOCKED"
    using assms(1) unfolding layers_ok_def by blast
  from t_growsD [OF assms(2) p(3)] obtain l2 where
    l2: "t_plists m' a = Some l2" "length l2 = length l'" "\<And>b. b < length l' \<Longrightarrow> fst (l' ! b) = P_UNLOCKED \<Longrightarrow> l2 ! b = l' ! b"
    by blast
  show "\<exists>p a l'. cache_slot P (tc_depth c) 0 0 p = Inr (Some (i, s)) \<and> t_walk m' (tc_root c) p a \<and> t_plists m' a = Some l' \<and>
        length l = length l' \<and> (\<forall>b < length l - 1. l ! b = l' ! b \<and> fst (l ! b) = P_UNLOCKED)"
  proof (intro exI conjI)
    show "cache_slot P (tc_depth c) 0 0 p = Inr (Some (i, s))" by (rule p(1))
    show "t_walk m' (tc_root c) p a" by (rule t_walk_grows [OF p(2) assms(2)])
    show "t_plists m' a = Some l2" by (rule l2(1))
    show "length l = length l2" using p(4) l2(2) by simp
    show "\<forall>b < length l - 1. l ! b = l2 ! b \<and> fst (l ! b) = P_UNLOCKED" using p(4,5) l2(3) by fastforce
  qed
qed

text \<open>A client that may run on a memory.\<close>

definition client_ok :: "nat \<Rightarrow> ('k, 'v) tmem \<Rightarrow> tclient \<Rightarrow> bool" where
  "client_ok P m c \<longleftrightarrow> tc_depth c \<le> 2 \<and> layers_ok P m c \<and> (\<exists>l. t_plists m (tc_root c) = Some l \<and> length l = P)"

lemma client_ok_grows: "client_ok P m c \<Longrightarrow> t_grows m m' \<Longrightarrow> client_ok P m' c"
  unfolding client_ok_def t_grows_def using layers_ok_grows [of P m c m', unfolded t_grows_def] by fastforce

definition same_client :: "tclient \<Rightarrow> tclient \<Rightarrow> bool" where
  "same_client c c' \<longleftrightarrow> tc_self c' = tc_self c \<and> tc_root c' = tc_root c \<and> tc_depth c' = tc_depth c"

lemma same_client_simps [simp]:
  "same_client c c" "same_client c (c\<lparr>tc_held := n\<rparr>)" "same_client c (c\<lparr>tc_layers := L\<rparr>)" "same_client c (cr_deallocate cur c)"
  by (cases cur; simp add: same_client_def)+

lemma same_client_trans: "same_client c c' \<Longrightarrow> same_client c' c'' \<Longrightarrow> same_client c c''"
  by (simp add: same_client_def)

fun cr_size :: "cached_plist \<Rightarrow> nat" where
  "cr_size (Cached _) = 0"
| "cr_size (Fetched _ k) = 2 ^ k"

lemma cr_deallocate_simps [simp]:
  "tc_held (cr_deallocate cur c) = tc_held c - cr_size cur" "tc_layers (cr_deallocate cur c) = tc_layers c"
  "tc_root (cr_deallocate cur c) = tc_root c" "tc_depth (cr_deallocate cur c) = tc_depth c" "tc_self (cr_deallocate cur c) = tc_self c"
  by (cases cur; simp)+

lemma client_ok_deallocate [simp]: "client_ok P m (cr_deallocate cur c) = client_ok P m c"
  by (simp add: client_ok_def layers_ok_def)

lemma client_ok_held [simp]: "client_ok P m (c\<lparr>tc_held := n\<rparr>) = client_ok P m c"
  by (simp add: client_ok_def layers_ok_def)

text \<open>A view of a P-list agrees with it on the buckets keys hash to.\<close>

definition view_ok :: "cached_plist \<Rightarrow> tplist \<Rightarrow> bool" where
  "view_ok cur l \<longleftrightarrow> length (cr_get cur) = length l \<and> (\<forall>b < length l - 1. cr_get cur ! b = l ! b)"

lemma try_cache_ok:
  assumes c: "client_ok P m c" and a: "t_walk m (tc_root c) p a" "t_plists m a = Some l" "length l = P * 2 ^ length p"
  shows "\<exists>got c'. try_cache P l p c = Inr (got, c') \<and> client_ok P m c' \<and> same_client c c' \<and> tc_held c' = tc_held c"
proof -
  have d: "tc_depth c \<le> 2" using c by (simp add: client_ok_def)
  obtain s where s: "cache_slot P (tc_depth c) 0 0 p = Inr s" by (simp add: cache_slot_two [OF d])
  show ?thesis
  proof (cases "\<exists>i j. s = Some (i, j) \<and> tc_layers c i j = None \<and> calcified (P * 2 ^ length p) l")
    case False
    then have "try_cache P l p c = Inr (False, c)" using s by (auto simp: try_cache_def split: option.splits)
    then show ?thesis using c by (intro exI [of _ False] exI [of _ c]) simp
  next
    case True
    then obtain i j where ij: "s = Some (i, j)" "tc_layers c i j = None" "calcified (P * 2 ^ length p) l" by blast
    let ?c = "c\<lparr>tc_layers := (tc_layers c)(i := (tc_layers c i)(j \<mapsto> l))\<rparr>"
    have t: "try_cache P l p c = Inr (True, ?c)" using s ij a(3) by (simp add: try_cache_def)
    have "\<exists>p a l'. cache_slot P (tc_depth c) 0 0 p = Inr (Some (i', j')) \<and> t_walk m (tc_root c) p a \<and> t_plists m a = Some l' \<and>
        length k = length l' \<and> (\<forall>b < length k - 1. k ! b = l' ! b \<and> fst (k ! b) = P_UNLOCKED)"
      if "tc_layers ?c i' j' = Some k" for i' j' k
    proof (cases "i' = i \<and> j' = j")
      case True
      then have k: "k = l" using that by simp
      have "\<forall>b < length l - 1. fst (l ! b) = P_UNLOCKED" using ij(3) a(3) by (simp add: calcified_def list_all_iff)
      then show ?thesis using True s ij(1) a k by blast
    next
      case False
      then have "tc_layers c i' j' = Some k" using that by (auto split: if_splits)
      then show ?thesis using c unfolding client_ok_def layers_ok_def by blast
    qed
    then have "layers_ok P m ?c" unfolding layers_ok_def by simp
    then have "client_ok P m ?c" using c by (simp add: client_ok_def)
    with t show ?thesis by (intro exI [of _ True] exI [of _ ?c]) simp
  qed
qed

lemma t_read_plist_ok:
  assumes "t_plists m a = Some l" "length l = P * 2 ^ k"
  shows "t_read_plist P a k m c = Inr (Fetched l k, c\<lparr>tc_held := tc_held c + 2 ^ k\<rparr>)"
  using assms by (simp add: t_read_plist_def)

lemma t_view_ok:
  assumes m: "mem_ok cap m" and c: "client_ok P m c" and a: "t_walk m (tc_root c) p a"
  shows "\<exists>cur c' l. t_view P a p m c = Inr (cur, c') \<and> t_plists m a = Some l \<and> length l = P * 2 ^ length p \<and> view_ok cur l \<and>
     client_ok P m c' \<and> same_client c c' \<and> tc_held c' = tc_held c + cr_size cur"
proof -
  have d: "tc_depth c \<le> 2" and lay: "layers_ok P m c" using c by (simp_all add: client_ok_def)
  obtain l where l: "t_plists m a = Some l" "length l = P * 2 ^ length p"
    using t_walk_length [OF a m] c unfolding client_ok_def by blast
  obtain s where s: "cache_slot P (tc_depth c) 0 0 p = Inr s" by (simp add: cache_slot_two [OF d])
  show ?thesis
  proof (cases "\<exists>i j k. s = Some (i, j) \<and> tc_layers c i j = Some k")
    case True
    then obtain i j k where ij: "s = Some (i, j)" "tc_layers c i j = Some k" by blast
    then obtain q a' l' where q: "cache_slot P (tc_depth c) 0 0 q = Inr (Some (i, j))" "t_walk m (tc_root c) q a'"
      "t_plists m a' = Some l'" "length k = length l'" "\<forall>b < length k - 1. k ! b = l' ! b \<and> fst (k ! b) = P_UNLOCKED"
      using lay unfolding layers_ok_def by blast
    have "q = p" using cache_slot_inj [OF d q(1)] s ij(1) by simp
    then have "l' = l" using t_walk_det [OF a] q(2,3) l(1) by auto
    then have "view_ok (Cached k) l" using q(4,5) by (simp add: view_ok_def)
    moreover have "t_view P a p m c = Inr (Cached k, c)" using s ij by (simp add: t_view_def fetch_cache_def)
    ultimately show ?thesis using l c by (intro exI [of _ "Cached k"] exI [of _ c] exI [of _ l]) simp
  next
    case False
    let ?c = "c\<lparr>tc_held := tc_held c + 2 ^ length p\<rparr>"
    have f: "fetch_cache P c p = Inr None" using False s by (auto simp: fetch_cache_def split: option.splits)
    from try_cache_ok [of P m ?c p a l] c a l obtain got c' where
      t: "try_cache P l p ?c = Inr (got, c')" "client_ok P m c'" "same_client ?c c'" "tc_held c' = tc_held ?c"
      by auto
    have "t_view P a p m c = Inr (Fetched l (length p), c')"
      using f t(1) by (simp add: t_view_def t_read_plist_ok [OF l])
    moreover have "view_ok (Fetched l (length p)) l" by (simp add: view_ok_def)
    moreover have "same_client c c'" using t(3) by (simp add: same_client_def)
    ultimately show ?thesis using l t by (intro exI [of _ "Fetched l (length p)"] exI [of _ c'] exI [of _ l]) simp
  qed
qed

section \<open>The loop\<close>

text \<open>
  The state of \<open>do_with\<close> at the head of its loop: at the P-list the key's path leads to, with a view of it; \<open>H\<close> blocks were held
  when the operation began.
\<close>

definition at_head :: "('k \<Rightarrow> u64) \<Rightarrow> nat \<Rightarrow> nat \<Rightarrow> 'k \<Rightarrow> nat \<Rightarrow> nat \<Rightarrow> addr \<Rightarrow> cached_plist \<Rightarrow> tclient \<Rightarrow> ('k, 'v) tmem \<Rightarrow> bool" where
  "at_head h P cap key H n a cur c m \<longleftrightarrow> mem_ok cap m \<and> client_ok P m c \<and> t_walk m (tc_root c) (key_path h P key n) a \<and>
     (\<exists>l. t_plists m a = Some l \<and> length l = P * 2 ^ n \<and> view_ok cur l) \<and> tc_held c = H + cr_size cur"

text \<open>The loop at a bucket of the key.\<close>

lemma at_head_bucket:
  assumes "at_head h P cap key H n a cur c m"
  obtains l lk x where "t_plists m a = Some l" "length l = P * 2 ^ n" "level_hash_rdma h key (n + 1) (P * 2 ^ n) < length l"
    "cr_get cur ! level_hash_rdma h key (n + 1) (P * 2 ^ n) = (lk, x)" "l ! level_hash_rdma h key (n + 1) (P * 2 ^ n) = (lk, x)"
    "level_hash_rdma h key (n + 1) (P * 2 ^ n) < length (cr_get cur)" "tbucket_ok m a (length l) (lk, x)"
proof -
  obtain l where l: "t_plists m a = Some l" "length l = P * 2 ^ n" "view_ok cur l" and m: "mem_ok cap m"
    using assms unfolding at_head_def by blast
  let ?b = "level_hash_rdma h key (n + 1) (P * 2 ^ n)"
  have b: "?b < length l - 1" using level_hash_rdma_less [of "P * 2 ^ n" h key "n + 1"] mem_okD(4) [OF m l(1)] l(2) by simp
  obtain lk x where x: "l ! ?b = (lk, x)" by (cases "l ! ?b")
  show ?thesis
  proof (rule that [OF l(1,2)])
    show "?b < length l" using b by simp
    show "cr_get cur ! ?b = (lk, x)" "?b < length (cr_get cur)" using l(3) b x by (simp_all add: view_ok_def)
    show "l ! ?b = (lk, x)" by (rule x)
    show "tbucket_ok m a (length l) (lk, x)" using mem_okD(6) [OF m l(1), of ?b] b x by simp
  qed
qed

lemma loop_down:
  assumes "at_head h P cap key H n a cur c m" and "n < 8"
    and "cr_get cur ! level_hash_rdma h key (n + 1) (P * 2 ^ n) = (P_UNLOCKED, a')"
  shows "\<exists>cur' c'. t_loop h P cap app lockfree key (Suc k) (n + 1) (P * 2 ^ n) a cur (key_path h P key n) c m =
       t_loop h P cap app lockfree key k (n + 2) (P * 2 ^ (n + 1)) a' cur' (key_path h P key (n + 1)) c' m \<and>
     at_head h P cap key H (n + 1) a' cur' c' m \<and> same_client c c'"
proof -
  let ?b = "level_hash_rdma h key (n + 1) (P * 2 ^ n)" and ?c = "cr_deallocate cur c"
  from assms(1) obtain l lk x where l: "t_plists m a = Some l" "?b < length l" "cr_get cur ! ?b = (lk, x)" "l ! ?b = (lk, x)"
    "?b < length (cr_get cur)" by (rule at_head_bucket)
  have P: "lk = P_UNLOCKED" "x = a'" using l(3) assms(3) by simp_all
  have A: "mem_ok cap m" "client_ok P m c" "t_walk m (tc_root c) (key_path h P key n) a" "tc_held c = H + cr_size cur"
    using assms(1) unfolding at_head_def by blast+
  have path: "key_path h P key n @ [?b] = key_path h P key (n + 1)" by (simp add: key_path_Suc)
  have w: "t_walk m (tc_root ?c) (key_path h P key (n + 1)) a'"
    unfolding path [symmetric] using t_walk.step [OF A(3) l(1,2)] l(4) P by simp
  have ok: "client_ok P m ?c" using A(2) by simp
  from t_view_ok [OF A(1) ok w] obtain cur' c' l' where
    v: "t_view P a' (key_path h P key (n + 1)) m ?c = Inr (cur', c')" "t_plists m a' = Some l'" "length l' = P * 2 ^ (n + 1)"
      "view_ok cur' l'" "client_ok P m c'" "same_client ?c c'" "tc_held c' = tc_held ?c + cr_size cur'"
    unfolding key_path_simps by blast
  have s: "same_client c c'" using v(6) by (simp add: same_client_def)
  have "at_head h P cap key H (n + 1) a' cur' c' m"
    unfolding at_head_def using A(1,4) v w s by (simp add: same_client_def)
  moreover have "t_loop h P cap app lockfree key (Suc k) (n + 1) (P * 2 ^ n) a cur (key_path h P key n) c m =
      t_loop h P cap app lockfree key k (n + 2) (P * 2 ^ (n + 1)) a' cur' (key_path h P key (n + 1)) c' m"
    using assms(2,3) l(5) v(1) path by (simp add: t_loop.simps Let_def ac_simps)
  ultimately show ?thesis using s by blast
qed

text \<open>At an E-list: the landing spot, the action under the lock or without it, and what follows.\<close>

definition ctx_at :: "('k \<Rightarrow> u64) \<Rightarrow> nat \<Rightarrow> 'k \<Rightarrow> nat \<Rightarrow> addr \<Rightarrow> cached_plist \<Rightarrow> addr \<Rightarrow> ('k, 'v) elist \<Rightarrow> ('k, 'v) descent_context" where
  "ctx_at h P key n a cur x e = \<lparr>dc_e = e, dc_base = x, dc_depth = n + 1, dc_count = P * 2 ^ n,
     dc_bucket = level_hash_rdma h key (n + 1) (P * 2 ^ n), dc_parent = a, dc_curr = cur\<rparr>"

lemma loop_leaf:
  assumes at: "at_head h P cap key H n a cur c m" and n: "n < 8"
    and x: "cr_get cur ! level_hash_rdma h key (n + 1) (P * 2 ^ n) = (E_UNLOCKED, x)" "t_elists m x = Some e"
  defines "b \<equiv> level_hash_rdma h key (n + 1) (P * 2 ^ n)"
  shows
    "t_loop h P cap app False key (Suc k) (n + 1) (P * 2 ^ n) a cur (key_path h P key n) c m =
       then_do (app (ctx_at h P key n a cur x e) (t_unlock a b E_LOCKED m)) (\<lambda>(stop, r, m).
         if stop then Inr (r, cr_deallocate cur c, t_unlock a b E_UNLOCKED m)
         else then_do (t_read_plist P a n (t_unlock a b P_UNLOCKED m) c) (\<lambda>(cur, c).
           t_loop h P cap app False key k (n + 1) (P * 2 ^ n) a cur (key_path h P key n) c (t_unlock a b P_UNLOCKED m)))"
    "app (ctx_at h P key n a cur x e) m = Inr (True, r, m) \<Longrightarrow>
     t_loop h P cap app True key (Suc k) (n + 1) (P * 2 ^ n) a cur (key_path h P key n) c m = Inr (r, cr_deallocate cur c, m)"
proof -
  from at obtain l where l: "t_plists m a = Some l" "b < length l" "l ! b = (E_UNLOCKED, x)" "b < length (cr_get cur)"
    by (rule at_head_bucket) (use x(1) b_def in auto)
  have len: "length e \<le> cap" using mem_okD(2) [OF _ x(2)] at unfolding at_head_def by blast
  have acq: "t_acquire a b m = Inr (True, t_unlock a b E_LOCKED m)" using l by (simp add: t_acquire_def)
  have hb: "level_hash_rdma h key (Suc n) (P * 2 ^ n) = b" by (simp add: b_def)
  note L = t_loop.simps(2) [of h P cap app _ key k "n + 1" "P * 2 ^ n" a cur "key_path h P key n" c m, folded b_def]
  show "t_loop h P cap app False key (Suc k) (n + 1) (P * 2 ^ n) a cur (key_path h P key n) c m =
       then_do (app (ctx_at h P key n a cur x e) (t_unlock a b E_LOCKED m)) (\<lambda>(stop, r, m).
         if stop then Inr (r, cr_deallocate cur c, t_unlock a b E_UNLOCKED m)
         else then_do (t_read_plist P a n (t_unlock a b P_UNLOCKED m) c) (\<lambda>(cur, c).
           t_loop h P cap app False key k (n + 1) (P * 2 ^ n) a cur (key_path h P key n) c (t_unlock a b P_UNLOCKED m)))"
    unfolding L using n l(4) x(1) [folded b_def] x(2) acq len by (simp add: Let_def ctx_at_def hb cong: if_cong)
  show "t_loop h P cap app True key (Suc k) (n + 1) (P * 2 ^ n) a cur (key_path h P key n) c m = Inr (r, cr_deallocate cur c, m)"
    if "app (ctx_at h P key n a cur x e) m = Inr (True, r, m)"
    unfolding L using n l(4) x(1) [folded b_def] x(2) len that by (simp add: Let_def ctx_at_def hb cong: if_cong)
qed

text \<open>What an action that stops does to memory: nothing, or it writes the E-list.\<close>

definition put_elist :: "addr \<Rightarrow> ('k, 'v) elist option \<Rightarrow> ('k, 'v) tmem \<Rightarrow> ('k, 'v) tmem" where
  "put_elist x w m = (case w of None \<Rightarrow> m | Some e \<Rightarrow> t_write_elist x e m)"

lemma loop_stop:
  assumes "t_leads h m key (n + 1) (P * 2 ^ n) a x D" "at_head h P cap key H n a cur c m" "t_elists m x = Some e" "D \<le> 8" "D - n \<le> k"
    and app: "\<And>cx m'. dc_e cx = e \<Longrightarrow> dc_base cx = x \<Longrightarrow> app cx m' = Inr (True, r, put_elist x w m')" and lf: "lockfree \<Longrightarrow> w = None"
  shows "\<exists>c'. t_loop h P cap app lockfree key k (n + 1) (P * 2 ^ n) a cur (key_path h P key n) c m = Inr (r, c', put_elist x w m) \<and>
     client_ok P m c' \<and> same_client c c' \<and> tc_held c' = H"
  using assms(1,2,5)
proof (induction "D - n" arbitrary: n a cur c k)
  case 0
  then show ?case using t_leads_depth [OF 0(2)] by simp
next
  case (Suc j)
  note at = Suc(4)
  obtain k' where k: "k = Suc k'" using Suc(2,5) by (cases k) auto
  have n: "n < 8" using Suc(2) assms(4) by simp
  let ?b = "level_hash_rdma h key (n + 1) (P * 2 ^ n)"
  from at obtain l lk y where l: "t_plists m a = Some l" "length l = P * 2 ^ n" "?b < length l" "cr_get cur ! ?b = (lk, y)" "l ! ?b = (lk, y)"
    "?b < length (cr_get cur)" "tbucket_ok m a (length l) (lk, y)" by (rule at_head_bucket)
  have at': "client_ok P m c" "tc_held c = H + cr_size cur" using at unfolding at_head_def by blast+
  show ?case
  proof (cases lk)
    case E_LOCKED
    with l(7) show ?thesis by (simp add: tbucket_ok_def)
  next
    case E_UNLOCKED
    have x: "y = x" using t_leads_det [OF Suc(3)] t_leads.here [OF l(1,3) l(5) [unfolded E_UNLOCKED]] by simp
    have b: "cr_get cur ! ?b = (E_UNLOCKED, x)" "l ! ?b = (E_UNLOCKED, x)" using l(4,5) E_UNLOCKED x by simp_all
    have c: "client_ok P m (cr_deallocate cur c) \<and> same_client c (cr_deallocate cur c) \<and> tc_held (cr_deallocate cur c) = H"
      using at' by simp
    have "t_unlock a ?b E_UNLOCKED (put_elist x w (t_unlock a ?b E_LOCKED m)) = put_elist x w m"
      using lock_unlock [OF l(1,3) b(2)] by (simp add: put_elist_def split: option.splits)
    then have 1: "t_loop h P cap app False key k (n + 1) (P * 2 ^ n) a cur (key_path h P key n) c m = Inr (r, cr_deallocate cur c, put_elist x w m)"
      by (simp only: k loop_leaf(1) [OF at n b(1) assms(3)] app ctx_at_def descent_context.simps then_do_simps prod.case if_True)
    have 2: "t_loop h P cap app True key k (n + 1) (P * 2 ^ n) a cur (key_path h P key n) c m = Inr (r, cr_deallocate cur c, put_elist x w m)"
      if lockfree
    proof -
      have w: "w = None" using lf \<open>lockfree\<close> by simp
      show ?thesis unfolding k w
        by (rule trans [OF loop_leaf(2) [OF at n b(1) assms(3)]]) (simp_all add: app w ctx_at_def put_elist_def)
    qed
    show ?thesis using 1 2 c by (cases lockfree) auto
  next
    case P_UNLOCKED
    from loop_down [OF at n l(4) [unfolded P_UNLOCKED], of app lockfree k'] obtain cur' c' where
      d: "t_loop h P cap app lockfree key k (n + 1) (P * 2 ^ n) a cur (key_path h P key n) c m =
         t_loop h P cap app lockfree key k' (n + 2) (P * 2 ^ (n + 1)) y cur' (key_path h P key (n + 1)) c' m"
        "at_head h P cap key H (n + 1) y cur' c' m" "same_client c c'" unfolding k by blast
    have "t_leads h m key (n + 1 + 1) (P * 2 ^ (n + 1)) y x D"
      using Suc(3) l(1,3,5) P_UNLOCKED by (cases rule: t_leads.cases) (auto simp: ac_simps)
    moreover have "j = D - (n + 1)" "D - (n + 1) \<le> k'" using Suc(2,5) k by simp_all
    ultimately obtain c2 where c2:
      "t_loop h P cap app lockfree key k' (n + 1 + 1) (P * 2 ^ (n + 1)) y cur' (key_path h P key (n + 1)) c' m = Inr (r, c2, put_elist x w m)"
      "client_ok P m c2" "same_client c' c2" "tc_held c2 = H"
      using Suc(1) [of "n + 1", OF _ _ d(2)] by blast
    show ?thesis using d(1) c2 same_client_trans [OF d(3) c2(3)] by (intro exI [of _ c2]) simp
  qed
qed

section \<open>The actions\<close>

lemma remove_loop_none:
  assumes "key \<notin> fst ` set (drop i e)"
  shows "remove_loop self x key i e r m = (r, m)"
  using assms
proof (induction "length e - i" arbitrary: i)
  case 0
  then show ?case by (simp add: remove_loop.simps [of self x key i])
next
  case (Suc j)
  then have i: "i < length e" by simp
  then have "drop i e = e ! i # drop (Suc i) e" by (simp add: Cons_nth_drop_Suc)
  with Suc(3) have "fst (e ! i) \<noteq> key" "key \<notin> fst ` set (drop (Suc i) e)" by auto
  moreover have "j = length e - Suc i" using Suc(2) by simp
  ultimately show ?case using i Suc(1) by (simp add: remove_loop.simps [of self x key i])
qed

lemma remove_loop_find:
  assumes "elist_find key (drop i e) = Some j"
  shows "remove_loop self x key i e r m =
     remove_loop self x key (Suc (i + j)) (elist_remove (i + j) e) (Some (snd (e ! (i + j)))) (write_back self x (elist_remove (i + j) e) m)"
  using assms
proof (induction j arbitrary: i)
  case 0
  from elist_find_Some [OF 0] nth_drop [of i e 0] have "i < length e" "fst (e ! i) = key" by auto
  then show ?case by (simp add: remove_loop.simps [of self x key i])
next
  case (Suc j)
  have "Suc j < length e - i" using elist_find_Some [OF Suc.prems] by simp
  then have i: "i < length e" by linarith
  then have d: "drop i e = e ! i # drop (Suc i) e" by (simp add: Cons_nth_drop_Suc)
  from Suc.prems have "fst (e ! i) \<noteq> key" "elist_find key (drop (Suc i) e) = Some j"
    unfolding d by (auto split: if_splits)
  with Suc.IH [of "Suc i"] i show ?case by (simp add: remove_loop.simps [of self x key i])
qed

lemma remove_loop_eq:
  assumes "distinct (map fst e)"
  shows "remove_loop self x key 0 e None m = (case elist_find key e of
     None \<Rightarrow> (None, m)
   | Some i \<Rightarrow> (Some (snd (e ! i)), write_back self x (elist_remove i e) m))"
proof (cases "elist_find key e")
  case None
  then show ?thesis using elist_find_None [of key e] by (simp add: remove_loop_none)
next
  case (Some i)
  have "map_of (elist_remove i e) key = None" using map_of_elist_remove(1) [OF assms Some] by simp
  then have "key \<notin> fst ` set (drop (Suc i) (elist_remove i e))"
    by (auto simp: map_of_eq_None_iff dest: in_set_dropD)
  then show ?thesis using Some remove_loop_find [of key 0 e i] by (simp add: remove_loop_none)
qed

text \<open>Each as an action that stops, with what it writes.\<close>

definition written_back :: "nat \<Rightarrow> addr \<Rightarrow> ('k, 'v) elist \<Rightarrow> ('k, 'v) elist option" where
  "written_back self x e = (if t_is_local self x then None else Some e)"

lemma put_written_back: "put_elist x (written_back self x e) m = write_back self x e m"
  by (simp add: put_elist_def written_back_def write_back_def)

lemma contains_stops:
  "dc_e cx = e \<Longrightarrow> contains_apply key cx m = Inr (True, map_of e key, put_elist x None m)"
  using elist_find_map_of [where key = key and e = e] by (simp add: contains_apply_def put_elist_def split: option.splits)

lemma insert_stops:
  assumes "dc_e cx = e" "dc_base cx = x" "map_of e key \<noteq> None \<or> length e < cap"
  shows "insert_apply h cap self key val cx m = Inr (True, map_of e key,
     put_elist x (if map_of e key = None then written_back self x (elist_insert key val e) else None) m)"
proof (cases "elist_find key e")
  case None
  then show ?thesis using assms map_of_None_find [OF None] by (simp add: insert_apply_def put_written_back)
next
  case (Some i)
  then show ?thesis using assms elist_find_val [OF Some] by (simp add: insert_apply_def put_elist_def)
qed

lemma remove_stops:
  assumes "dc_e cx = e" "dc_base cx = x" "distinct (map fst e)"
  shows "remove_apply self key cx m = Inr (True, map_of e key,
     put_elist x (case elist_find key e of None \<Rightarrow> None | Some i \<Rightarrow> written_back self x (elist_remove i e)) m)"
proof (cases "elist_find key e")
  case None
  then show ?thesis using assms map_of_None_find [OF None] by (simp add: remove_apply_def remove_loop_eq put_elist_def)
next
  case (Some i)
  then show ?thesis using assms elist_find_val [OF Some]
    by (simp add: remove_apply_def remove_loop_eq put_written_back)
qed

lemma write_back_ok:
  assumes m: "mem_ok cap m" "t_elists m x = Some e" and e': "distinct (map fst e')" "length e' \<le> cap"
  shows "mem_ok cap (write_back self x e' m)" "t_grows m (write_back self x e' m)"
  using t_write_elist_ok [OF assms] m by (simp_all add: write_back_def t_grows_plists)

lemma write_back_holds:
  assumes "t_holds h P m r M" "t_leads h m key 1 P r x D" "t_elists m x = Some e" "map_of e' = (map_of e)(key := v)"
  shows "t_holds h P (write_back self x e' m) r (if t_is_local self x then M else M(key := v))"
  using t_write_elist_holds [OF assms] assms(1) by (simp add: write_back_def)

lemma write_back_leads:
  assumes "t_leads h m key 1 P r x D"
  shows "t_leads h (write_back self y e m) key 1 P r x D"
  by (rule t_leads_cong [OF assms]) (simp add: write_back_def)

lemma elist_remove_length: "length (elist_remove i e) \<le> length e"
  by simp

section \<open>The operations\<close>

text \<open>Where an operation begins.\<close>

lemma do_with_start:
  assumes m: "mem_ok cap m" and c: "client_ok P m c"
  shows "\<exists>cur c'. do_with h P cap app lockfree key k c m = t_loop h P cap app lockfree key k 1 P (tc_root c) cur [] c' m \<and>
     at_head h P cap key (tc_held c) 0 (tc_root c) cur c' m \<and> same_client c c'"
proof -
  from t_view_ok [OF m c t_walk.root] obtain cur c' l where
    v: "t_view P (tc_root c) [] m c = Inr (cur, c')" "t_plists m (tc_root c) = Some l" "length l = P" "view_ok cur l"
      "client_ok P m c'" "same_client c c'" "tc_held c' = tc_held c + cr_size cur" by auto
  have "at_head h P cap key (tc_held c) 0 (tc_root c) cur c' m"
    unfolding at_head_def using m v by (simp add: same_client_def t_walk.root)
  moreover have "do_with h P cap app lockfree key k c m = t_loop h P cap app lockfree key k 1 P (tc_root c) cur [] c' m"
    using v(1,6) by (simp add: do_with_def same_client_def)
  ultimately show ?thesis using v(6) by blast
qed

lemma do_with_stop:
  assumes m: "mem_ok cap m" and c: "client_ok P m c" and x: "t_leads h m key 1 P (tc_root c) x D" "t_elists m x = Some e"
    and n: "D \<le> 8" "D \<le> k"
    and app: "\<And>cx m'. dc_e cx = e \<Longrightarrow> dc_base cx = x \<Longrightarrow> app cx m' = Inr (True, r, put_elist x w m')" "lockfree \<Longrightarrow> w = None"
  shows "\<exists>c'. do_with h P cap app lockfree key k c m = Inr (r, c', put_elist x w m) \<and> client_ok P m c' \<and> same_client c c' \<and>
     tc_held c' = tc_held c"
proof -
  from do_with_start [OF m c] obtain cur c1 where s:
    "do_with h P cap app lockfree key k c m = t_loop h P cap app lockfree key k 1 P (tc_root c) cur [] c1 m"
    "at_head h P cap key (tc_held c) 0 (tc_root c) cur c1 m" "same_client c c1" by blast
  have "t_leads h m key (0 + 1) (P * 2 ^ 0) (tc_root c) x D" "D - 0 \<le> k" using x(1) n(2) by simp_all
  from loop_stop [where app = app and lockfree = lockfree and r = r and w = w, OF this(1) s(2) x(2) n(1) this(2) app] obtain c' where
    "t_loop h P cap app lockfree key k 1 P (tc_root c) cur [] c1 m = Inr (r, c', put_elist x w m)"
    "client_ok P m c'" "same_client c1 c'" "tc_held c' = tc_held c" by auto
  with s(1) same_client_trans [OF s(3)] show ?thesis by auto
qed

text \<open>The E-list of a key is known to the map.\<close>

lemma lead_of_key:
  assumes "mem_ok cap m" "client_ok P m c" "t_holds h P m (tc_root c) M"
  obtains x D e where "t_leads h m key 1 P (tc_root c) x D" "t_elists m x = Some e" "M key = map_of e key" "distinct (map fst e)" "length e \<le> cap"
  using assms(3) mem_okD(1,2) [OF assms(1)] unfolding t_holds_def by blast

text \<open>What a node would insert at a key is not written back: the E-list is its own, or a rehash will make it so.\<close>

definition unsaved :: "('k \<Rightarrow> u64) \<Rightarrow> nat \<Rightarrow> nat \<Rightarrow> nat \<Rightarrow> ('k, 'v) tmem \<Rightarrow> addr \<Rightarrow> 'k \<Rightarrow> bool" where
  "unsaved h P cap self m r key \<longleftrightarrow> (\<exists>x D e. t_leads h m key 1 P r x D \<and> t_elists m x = Some e \<and>
     (t_is_local self x \<or> map_of e key = None \<and> cap \<le> length e))"

lemma unsaved_lead:
  assumes "t_leads h m key 1 P r x D" "t_elists m x = Some e"
  shows "unsaved h P cap self m r key \<longleftrightarrow> t_is_local self x \<or> map_of e key = None \<and> cap \<le> length e"
proof
  assume "unsaved h P cap self m r key"
  then obtain y E f where y: "t_leads h m key 1 P r y E" "t_elists m y = Some f"
    "t_is_local self y \<or> map_of f key = None \<and> cap \<le> length f" unfolding unsaved_def by blast
  have "y = x" using t_leads_det [OF y(1) assms(1)] by simp
  with y(2,3) assms(2) show "t_is_local self x \<or> map_of e key = None \<and> cap \<le> length e" by simp
next
  assume "t_is_local self x \<or> map_of e key = None \<and> cap \<le> length e"
  with assms show "unsaved h P cap self m r key" unfolding unsaved_def by blast
qed

text \<open>How an insertion may end.\<close>

definition ins_post ::
  "('k \<Rightarrow> u64) \<Rightarrow> nat \<Rightarrow> nat \<Rightarrow> ('k \<Rightarrow> 'v option) \<Rightarrow> 'k \<Rightarrow> 'v \<Rightarrow> nat \<Rightarrow> tclient \<Rightarrow> ('k, 'v) tmem \<Rightarrow>
     tiht_error + 'v option \<times> tclient \<times> ('k, 'v) tmem \<Rightarrow> bool" where
  "ins_post h P cap M key val H c m res = (case res of
     Inl err \<Rightarrow> err = No_fuel \<or> err = Path_overrun
   | Inr (r, c', m') \<Rightarrow> r = M key \<and> mem_ok cap m' \<and> t_grows m m' \<and> client_ok P m' c' \<and> same_client c c' \<and> H \<le> tc_held c' \<and>
       t_holds h P m' (tc_root c) (if unsaved h P cap (tc_self c) m (tc_root c) key then M else map_insert M key val))"

lemma ins_post_trans:
  assumes "ins_post h P cap M key val H' c' m' res" "t_grows m m'" "same_client c c'" "H \<le> H'"
    "unsaved h P cap (tc_self c) m (tc_root c) key = unsaved h P cap (tc_self c) m' (tc_root c) key"
  shows "ins_post h P cap M key val H c m res"
  using assms t_grows_trans [OF assms(2)] same_client_trans [OF assms(3)]
  by (auto simp: ins_post_def same_client_def split: sum.splits prod.splits)

lemma insert_stopped_post:
  assumes at: "at_head h P cap key H n a cur c m" and H: "t_holds h P m (tc_root c) M"
    and x: "t_leads h m key 1 P (tc_root c) x D" "t_elists m x = Some e" and room: "map_of e key \<noteq> None \<or> length e < cap"
  shows "ins_post h P cap M key val H c m (Inr (map_of e key, cr_deallocate cur c,
     put_elist x (if map_of e key = None then written_back (tc_self c) x (elist_insert key val e) else None) m))"
proof -
  have A: "mem_ok cap m" "client_ok P m c" "tc_held c = H + cr_size cur" using at unfolding at_head_def by blast+
  have M: "M key = map_of e key" by (rule t_holdsD [OF H x])
  have own: "unsaved h P cap (tc_self c) m (tc_root c) key = t_is_local (tc_self c) x"
    unfolding unsaved_lead [OF x] using room by auto
  show ?thesis
  proof (cases "map_of e key")
    case (Some v)
    then have "map_insert M key val = M" using M by simp
    moreover have "put_elist x (if map_of e key = None then written_back (tc_self c) x (elist_insert key val e) else None) m = m"
      using Some by (simp add: put_elist_def)
    ultimately show ?thesis using A H M by (simp add: ins_post_def t_grows_plists)
  next
    case None
    let ?e = "elist_insert key val e" and ?m = "write_back (tc_self c) x (elist_insert key val e) m"
    have key: "key \<notin> fst ` set e" using None by (simp add: map_of_eq_None_iff)
    have e: "distinct (map fst ?e)" "length ?e \<le> cap"
      using mem_okD(1) [OF A(1) x(2)] key room None by (auto simp: elist_insert_def)
    note W = write_back_ok [OF A(1) x(2) e, of "tc_self c"]
    have "map_insert M key val = M(key \<mapsto> val)" using M None by simp
    then have "t_holds h P ?m (tc_root c) (if t_is_local (tc_self c) x then M else map_insert M key val)"
      using write_back_holds [OF H x map_of_elist_insert [OF key, of val], of "tc_self c"] by (simp only:)
    moreover have "put_elist x (if map_of e key = None then written_back (tc_self c) x ?e else None) m = ?m"
      using None by (simp add: put_written_back)
    ultimately show ?thesis using client_ok_grows [OF A(2) W(2)] A(3) W M own None
      by (simp add: ins_post_def)
  qed
qed

lemma insert_loop:
  assumes "at_head h P cap key H n a cur c m" "t_holds h P m (tc_root c) M"
  shows "ins_post h P cap M key val H c m
     (t_loop h P cap (insert_apply h cap (tc_self c) key val) False key k (n + 1) (P * 2 ^ n) a cur (key_path h P key n) c m)"
  using assms
proof (induction k arbitrary: H n a cur c m)
  case 0
  then show ?case by (simp add: t_loop.simps ins_post_def)
next
  case (Suc k)
  note at = Suc.prems(1) and holds = Suc.prems(2)
  let ?b = "level_hash_rdma h key (n + 1) (P * 2 ^ n)" and ?app = "insert_apply h cap (tc_self c) key val"
  have A: "mem_ok cap m" "client_ok P m c" "t_walk m (tc_root c) (key_path h P key n) a" "tc_held c = H + cr_size cur"
    using at unfolding at_head_def by blast+
  from at obtain l lk x where l: "t_plists m a = Some l" "length l = P * 2 ^ n" "?b < length l" "cr_get cur ! ?b = (lk, x)" "l ! ?b = (lk, x)"
    "?b < length (cr_get cur)" "tbucket_ok m a (length l) (lk, x)" by (rule at_head_bucket)
  show ?case
  proof (cases "n < 8")
    case False
    then show ?thesis by (simp add: t_loop.simps ins_post_def Let_def)
  next
    case n: True
    show ?thesis
    proof (cases lk)
      case E_LOCKED
      with l(7) show ?thesis by (simp add: tbucket_ok_def)
    next
      case P_UNLOCKED
      from loop_down [OF at n l(4) [unfolded P_UNLOCKED], of ?app False k] obtain cur' c' where
        d: "t_loop h P cap ?app False key (Suc k) (n + 1) (P * 2 ^ n) a cur (key_path h P key n) c m =
           t_loop h P cap ?app False key k (n + 1 + 1) (P * 2 ^ (n + 1)) x cur' (key_path h P key (n + 1)) c' m"
          "at_head h P cap key H (n + 1) x cur' c' m" "same_client c c'" by auto
      have s: "tc_self c' = tc_self c" "tc_root c' = tc_root c" using d(3) by (simp_all add: same_client_def)
      from Suc.IH [OF d(2)] holds have "ins_post h P cap M key val H c' m
          (t_loop h P cap ?app False key k (n + 1 + 1) (P * 2 ^ (n + 1)) x cur' (key_path h P key (n + 1)) c' m)"
        unfolding s by blast
      then show ?thesis unfolding d(1) by (rule ins_post_trans) (simp_all add: d(3) t_grows_plists)
    next
      case E_UNLOCKED
      obtain e where e: "t_elists m x = Some e" using l(7) E_UNLOCKED by (auto simp: tbucket_ok_def)
      note b = l(4,5) [unfolded E_UNLOCKED]
      have lead: "t_leads h m key 1 P (tc_root c) x (n + 1)"
        by (rule key_path_leads [OF A(3)]) (rule t_leads.here [OF l(1,3) b(2)])
      note L = loop_leaf(1) [OF at n b(1) e, of ?app k]
      show ?thesis
      proof (cases "map_of e key \<noteq> None \<or> length e < cap")
        case room: True
        let ?w = "if map_of e key = None then written_back (tc_self c) x (elist_insert key val e) else None"
        have "t_unlock a ?b E_UNLOCKED (put_elist x ?w (t_unlock a ?b E_LOCKED m)) = put_elist x ?w m"
          using lock_unlock [OF l(1,3) b(2)] by (simp add: put_elist_def split: option.splits)
        then have "t_loop h P cap ?app False key (Suc k) (n + 1) (P * 2 ^ n) a cur (key_path h P key n) c m =
            Inr (map_of e key, cr_deallocate cur c, put_elist x ?w m)"
          by (simp only: L insert_stops [OF _ _ room] ctx_at_def descent_context.simps then_do_simps prod.case if_True)
        then show ?thesis using insert_stopped_post [OF at holds lead e room] by simp
      next
        case full: False
        define m' where "m' = rehashed h (tc_self c) a ?b l (n + 1) (length l) e m"
        have len: "1 < length l" by (rule mem_okD(4) [OF A(1) l(1)])
        then have P: "0 < P" using l(2) by (cases P) auto
        have "0 < length l" using len by linarith
        then have "snd (cr_get cur ! ?b) = x" "0 < length l" using b(1) by simp_all
        from t_rehash_eq [OF A(1) l(1,3) b(2) e this, where h = h and self = "tc_self c" and d = "n + 1"]
        obtain m1 where R: "t_rehash h (tc_self c) (cr_get cur) (length l) (n + 1) ?b (t_unlock a ?b E_LOCKED m) = Inr ((tc_self c, t_fresh m), m1)"
          "t_unlock a ?b P_UNLOCKED (t_change_bucket_pointer a ?b (tc_self c, t_fresh m) m1) = m'" unfolding m'_def by blast
        have find: "elist_find key e = None" using full elist_find_val [of key e] by (cases "elist_find key e") auto
        have app: "?app (ctx_at h P key n a cur x e) (t_unlock a ?b E_LOCKED m) =
            Inr (False, None, t_change_bucket_pointer a ?b (tc_self c, t_fresh m) m1)"
          using find full R(1) l(2) by (simp add: insert_apply_def ctx_at_def)
        have ok: "mem_ok cap m'" "t_grows m m'" unfolding m'_def by (rule rehashed_ok [OF A(1) l(1) refl l(3) e b(2)])+
        obtain l0 where r: "t_plists m (tc_root c) = Some l0" "length l0 = P" using A(2) unfolding client_ok_def by blast
        have holds': "t_holds h P m' (tc_root c) M" unfolding m'_def
          by (rule rehashed_holds [OF A(1) l(1,3) b(2) e _ _ P r holds]) (use l(2) in simp_all)
        from t_growsD [OF ok(2) l(1)] obtain l' where l': "t_plists m' a = Some l'" "length l' = P * 2 ^ n" using l(2) by metis
        let ?c = "c\<lparr>tc_held := tc_held c + 2 ^ n\<rparr>"
        have at': "at_head h P cap key (tc_held c) n a (Fetched l' n) ?c m'"
          unfolding at_head_def using ok l' client_ok_grows [OF A(2) ok(2)] t_walk_grows [OF A(3) ok(2)] by (simp add: view_ok_def)
        have "t_loop h P cap ?app False key (Suc k) (n + 1) (P * 2 ^ n) a cur (key_path h P key n) c m =
            t_loop h P cap ?app False key k (n + 1) (P * 2 ^ n) a (Fetched l' n) (key_path h P key n) ?c m'"
          by (simp only: L app R(2) then_do_simps prod.case if_False t_read_plist_ok [OF l'])
        moreover have "ins_post h P cap M key val (tc_held c) ?c m'
            (t_loop h P cap ?app False key k (n + 1) (P * 2 ^ n) a (Fetched l' n) (key_path h P key n) ?c m')"
          using Suc.IH [OF at'] holds' by simp
        moreover have "unsaved h P cap (tc_self c) m' (tc_root c) key"
        proof -
          let ?p = "(tc_self c, t_fresh m)" and ?s = "level_hash_rdma h key (n + 2) (P * 2 ^ (n + 1))"
          have s: "?s < length l * 2" using level_hash_rdma_less [of "length l * 2" h key "n + 2"] len l(2) by (simp add: ac_simps)
          have ne: "a \<noteq> ?p" using mem_okD(5) [OF A(1) l(1)] by auto
          have "t_leads h m' key (n + 1 + 1) (P * 2 ^ n * 2) ?p (tc_self c, Suc (t_fresh m + ?s)) (n + 2)"
            using t_leads.here [of m' ?p "map (\<lambda>i. (E_UNLOCKED, (tc_self c, Suc (t_fresh m + i)))) [0 ..< length l * 2]" h key "n + 2" "P * 2 ^ (n + 1)"] s
            by (simp add: m'_def rehashed_simps ac_simps)
          then have "t_leads h m' key (n + 1) (P * 2 ^ n) a (tc_self c, Suc (t_fresh m + ?s)) (n + 2)"
            by (rule t_leads.down [rotated 3, where l = "l[?b := (P_UNLOCKED, ?p)]"]) (use ne l(3) in \<open>simp_all add: m'_def rehashed_simps\<close>)
          then have "t_leads h m' key 1 P (tc_root c) (tc_self c, Suc (t_fresh m + ?s)) (n + 2)"
            by (rule key_path_leads [OF t_walk_grows [OF A(3) ok(2)]])
          moreover have "t_elists m' (tc_self c, Suc (t_fresh m + ?s)) \<noteq> None" using s by (simp add: m'_def rehashed_simps)
          ultimately show ?thesis unfolding unsaved_def t_is_local_def by auto
        qed
        moreover have "unsaved h P cap (tc_self c) m (tc_root c) key" unfolding unsaved_lead [OF lead e] using full by auto
        ultimately show ?thesis using ins_post_trans [OF _ ok(2)] A(4) by simp
      qed
    qed
  qed
qed

section \<open>A new table\<close>

lemma t_InitAsFirst_ok:
  assumes m: "mem_ok cap m" and P: "1 < P" and c: "tc_depth c \<le> 2" "tc_layers c = (\<lambda>_ _. None)"
    and I: "t_InitAsFirst P c m = (c', m')"
  shows "mem_ok cap m'" "client_ok P m' c'" "t_holds h P m' (tc_root c') Map.empty" "tc_self c' = tc_self c" "tc_root c' = (tc_self c, t_fresh m)"
    "\<exists>x. t_leads h m' key 1 P (tc_root c') x 1 \<and> t_elists m' x = Some [] \<and> fst x = tc_self c"
proof -
  note D = mem_okD [OF m]
  let ?p = "(tc_self c, t_fresh m)"
  have c': "c' = c\<lparr>tc_root := ?p\<rparr>" and m': "m' = snd (t_new_plist (tc_self c) P m)"
    using I by (simp_all add: t_InitAsFirst_def t_new_plist_eq)
  have pl: "t_plists m' a = (if a = ?p then Some (map (\<lambda>i. (E_UNLOCKED, (tc_self c, Suc (t_fresh m + i)))) [0 ..< P]) else t_plists m a)"
    and el: "t_elists m' x = (if fst x = tc_self c \<and> t_fresh m < snd x \<and> snd x \<le> t_fresh m + P then Some [] else t_elists m x)"
    and fr: "t_fresh m' = Suc (t_fresh m + P)" for a x
    unfolding m' by (simp_all add: t_new_plist_eq)
  have old: "tbucket_ok m' a n bk" if "tbucket_ok m a n bk" for a n bk
    using that D(5) unfolding tbucket_ok_def by (fastforce simp: pl el split: lock_state.splits prod.splits)
  have p: "1 < length k \<and> snd a < t_fresh m' \<and> (\<forall>b < length k. tbucket_ok m' a (length k) (k ! b))" if "t_plists m' a = Some k" for a k
  proof (cases "a = ?p")
    case True
    then show ?thesis using that P by (auto simp: pl fr tbucket_ok_def el)
  next
    case False
    then have "t_plists m a = Some k" using that by (simp add: pl)
    with D(4) D(5) [of a k] D(6) old show ?thesis by (simp add: fr)
  qed
  have e: "distinct (map fst f) \<and> length f \<le> cap \<and> snd x < t_fresh m'" if "t_elists m' x = Some f" for x f
  proof (cases "t_elists m x = Some f")
    case True
    then show ?thesis using D(1-3) by (fastforce simp: fr)
  next
    case False
    then have "f = []" "snd x \<le> t_fresh m + P" using that by (auto simp: el split: if_splits)
    then show ?thesis by (simp add: fr)
  qed
  show "mem_ok cap m'" unfolding mem_ok_def using e p by blast
  show "client_ok P m' c'" using c by (simp add: client_ok_def c' layers_ok_def pl)
  show "tc_self c' = tc_self c" "tc_root c' = ?p" by (simp_all add: c')
  have lead: "\<exists>x. t_leads h m' k 1 P (tc_root c') x 1 \<and> t_elists m' x = Some [] \<and> fst x = tc_self c" for k
  proof -
    let ?b = "level_hash_rdma h k 1 P"
    have b: "?b < P" using level_hash_rdma_less [OF P, of h k 1] by simp
    then have "t_leads h m' k 1 P ?p (tc_self c, Suc (t_fresh m + ?b)) 1"
      by (intro t_leads.here [where l = "map (\<lambda>i. (E_UNLOCKED, (tc_self c, Suc (t_fresh m + i)))) [0 ..< P]"]) (simp_all add: pl)
    then show ?thesis using b by (intro exI [of _ "(tc_self c, Suc (t_fresh m + ?b))"]) (simp add: c' el)
  qed
  show "\<exists>x. t_leads h m' key 1 P (tc_root c') x 1 \<and> t_elists m' x = Some [] \<and> fst x = tc_self c" by (rule lead)
  show "t_holds h P m' (tc_root c') Map.empty" unfolding t_holds_def using lead by fastforce
qed

lemma t_InitFromPointer_ok:
  assumes "client_ok P m c" "tc_depth d \<le> 2" "tc_layers d = (\<lambda>_ _. None)"
  shows "client_ok P m (t_InitFromPointer (tc_root c) d)"
  using assms by (simp add: client_ok_def layers_ok_def t_InitFromPointer_def)

section \<open>The properties\<close>

text \<open>
  C14: On a well-formed memory, for a client that copies two layers at most: a lookup of a key whose E-list is at most eight
  levels down returns what the table holds there, changes nothing, and returns every block it read into; a removal returns
  what the table held and takes the key out, unless the E-list is on the client's own node, when it takes nothing out;
  an insertion returns what the table held and inserts as into a map, unless the list is on the client's own node or is full
  (so that a rehash makes new lists on that node), when it reports the same and puts nothing in; it returns when the list
  has room or the key is there, and otherwise fails only for want of fuel or of levels. All three
  keep memory well-formed and every other client's copies right.
\<close>

theorem tuned_operations:
  assumes m: "mem_ok cap m" and c: "client_ok P m c" and H: "t_holds h P m (tc_root c) M"
    and x: "t_leads h m key 1 P (tc_root c) x D" "D \<le> 8" "D \<le> n"
  shows
    "(\<exists>c'. t_contains h P cap one_line n c m key = Inr (M key, c', m) \<and> client_ok P m c' \<and> same_client c c' \<and> tc_held c' = tc_held c) \<and>
     (\<exists>c' m'. t_remove h P cap n c m key = Inr (M key, c', m') \<and> mem_ok cap m' \<and> client_ok P m' c' \<and> same_client c c' \<and>
        tc_held c' = tc_held c \<and> t_grows m m' \<and>
        t_holds h P m' (tc_root c) (if t_is_local (tc_self c) x then M else M(key := None))) \<and>
     ins_post h P cap M key val (tc_held c) c m (t_insert h P cap n c m key val) \<and>
     (M key \<noteq> None \<or> length (the (t_elists m x)) < cap \<longrightarrow> (\<exists>res. t_insert h P cap n c m key val = Inr res)) \<and>
     (\<forall>d m'. client_ok P m d \<longrightarrow> t_grows m m' \<longrightarrow> client_ok P m' d)"
proof (intro conjI)
  obtain e where e: "t_elists m x = Some e" "M key = map_of e key" "distinct (map fst e)" "length e \<le> cap"
  proof -
    obtain y E e where y: "t_leads h m key 1 P (tc_root c) y E" "t_elists m y = Some e" "M key = map_of e key"
      "distinct (map fst e)" "length e \<le> cap" by (rule lead_of_key [OF m c H])
    with t_leads_det [OF y(1) x(1)] that show ?thesis by blast
  qed
  note stop = do_with_stop [OF m c x(1) e(1) x(2,3)]
  have "\<And>cx m'. dc_e cx = e \<Longrightarrow> dc_base cx = x \<Longrightarrow> contains_apply key cx m' = Inr (True, map_of e key, put_elist x None m')"
    by (rule contains_stops)
  from stop [where lockfree = one_line, OF this]
  show "\<exists>c'. t_contains h P cap one_line n c m key = Inr (M key, c', m) \<and> client_ok P m c' \<and> same_client c c' \<and> tc_held c' = tc_held c"
    unfolding t_contains_def by (simp add: e(2) put_elist_def)
  show "\<exists>c' m'. t_remove h P cap n c m key = Inr (M key, c', m') \<and> mem_ok cap m' \<and> client_ok P m' c' \<and> same_client c c' \<and>
      tc_held c' = tc_held c \<and> t_grows m m' \<and> t_holds h P m' (tc_root c) (if t_is_local (tc_self c) x then M else M(key := None))"
  proof (cases "elist_find key e")
    case None
    have "M(key := None) = M" using map_of_None_find [OF None] e(2) by (simp add: fun_upd_idem)
    moreover obtain c' where "t_remove h P cap n c m key = Inr (M key, c', m)" "client_ok P m c'" "same_client c c'" "tc_held c' = tc_held c"
      using stop [where app = "remove_apply (tc_self c) key" and r = "map_of e key" and w = None and lockfree = False] None e(2,3)
      unfolding t_remove_def by (auto simp: remove_stops put_elist_def)
    ultimately show ?thesis using m H by (auto simp: t_grows_plists)
  next
    case (Some i)
    let ?e = "elist_remove i e" and ?m = "write_back (tc_self c) x (elist_remove i e) m"
    note R = map_of_elist_remove [OF e(3) Some]
    have "length ?e \<le> cap" using e(4) elist_remove_length [of i e] by linarith
    note W = write_back_ok [OF m e(1) R(2) this, of "tc_self c"]
    obtain c' where c': "t_remove h P cap n c m key = Inr (M key, c', ?m)" "client_ok P m c'" "same_client c c'" "tc_held c' = tc_held c"
      using stop [where app = "remove_apply (tc_self c) key" and r = "map_of e key" and w = "written_back (tc_self c) x ?e" and lockfree = False] Some e(2,3)
      unfolding t_remove_def by (auto simp: remove_stops put_written_back)
    then show ?thesis using W client_ok_grows [OF c'(2) W(2)] write_back_holds [OF H x(1) e(1) R(1), of "tc_self c"] by blast
  qed
  from do_with_start [OF m c, where app = "insert_apply h cap (tc_self c) key val" and lockfree = False and k = n and h = h and key = key]
  obtain cur c1 where s: "t_insert h P cap n c m key val = t_loop h P cap (insert_apply h cap (tc_self c) key val) False key n 1 P (tc_root c) cur [] c1 m"
    "at_head h P cap key (tc_held c) 0 (tc_root c) cur c1 m" "same_client c c1" unfolding t_insert_def by blast
  have "tc_self c1 = tc_self c" "tc_root c1 = tc_root c" using s(3) by (simp_all add: same_client_def)
  with insert_loop [OF s(2), of M val n] H have "ins_post h P cap M key val (tc_held c) c1 m (t_insert h P cap n c m key val)"
    unfolding s(1) by simp
  then show "ins_post h P cap M key val (tc_held c) c m (t_insert h P cap n c m key val)"
    by (rule ins_post_trans) (use s(3) in \<open>simp_all add: t_grows_plists same_client_def\<close>)
  show "M key \<noteq> None \<or> length (the (t_elists m x)) < cap \<longrightarrow> (\<exists>res. t_insert h P cap n c m key val = Inr res)"
  proof
    assume "M key \<noteq> None \<or> length (the (t_elists m x)) < cap"
    then have room: "map_of e key \<noteq> None \<or> length e < cap" using e(1,2) by simp
    from stop [where app = "insert_apply h cap (tc_self c) key val" and lockfree = False, OF insert_stops [OF _ _ room]]
    show "\<exists>res. t_insert h P cap n c m key val = Inr res" unfolding t_insert_def by blast
  qed
  show "\<forall>d m'. client_ok P m d \<longrightarrow> t_grows m m' \<longrightarrow> client_ok P m' d" using client_ok_grows by blast
qed

text \<open>
  With three layers or more, the P-list below buckets 0 and \<open>P\<close> and the one below buckets 1 and 0 share a slot: once the first has been
  copied, a client on its way through the second, wherever it is and whatever it holds, goes on in the first. With a fourth layer
  (\<open>UpToLayer3\<close>) every path of three buckets or more looks past the end of the array of layers.
\<close>

theorem tuned_layers_collide:
  assumes "3 \<le> tc_depth c" "try_cache P l [0, P] c = Inr (True, c')"
  shows "t_view P a [1, 0] m c' = Inr (Cached (take (P * 4) l), c') \<and>
     (tc_depth c = 4 \<longrightarrow> t_view P a (b1 # b2 # b3 # bs) m c' = Inl Layer_overrun)"
proof -
  have slot: "cache_slot P (tc_depth c) 0 0 [0, P] = Inr (Some (2, P))" "cache_slot P (tc_depth c) 0 0 [1, 0] = Inr (Some (2, P))"
    using assms(1) by (simp_all add: cache_slot.simps layer_size_def)
  then have c': "c' = c\<lparr>tc_layers := (tc_layers c)(2 := (tc_layers c 2)(P \<mapsto> take (P * 4) l))\<rparr>"
    using assms(2) by (auto simp: try_cache_def split: if_splits)
  have "cache_slot P 4 0 0 (b1 # b2 # b3 # bs) = Inl Layer_overrun" by (simp add: cache_slot.simps)
  then show ?thesis using slot c' by (simp add: t_view_def fetch_cache_def)
qed

section \<open>Witnesses\<close>

text \<open>Node 0 makes a table of two buckets for lists of one pair; node 1 uses it.\<close>

definition first_node :: tclient where "first_node = fst (t_InitAsFirst 2 (TunedRdmaIHT 0 2) (\<lparr>t_plists = \<lambda>_. None, t_elists = \<lambda>_. None, t_fresh = 0\<rparr> :: (int, int) tmem))"
definition first_mem :: "(int, int) tmem" where "first_mem = snd (t_InitAsFirst 2 (TunedRdmaIHT 0 2) \<lparr>t_plists = \<lambda>_. None, t_elists = \<lambda>_. None, t_fresh = 0\<rparr>)"
definition second_node :: tclient where "second_node = t_InitFromPointer (tc_root first_node) (TunedRdmaIHT 1 2)"

lemma first_table:
  "mem_ok 1 first_mem" "client_ok 2 first_mem first_node" "t_holds of_int 2 first_mem (tc_root first_node) Map.empty"
  "tc_self first_node = 0" "\<exists>x. t_leads of_int first_mem 7 1 2 (tc_root first_node) x 1 \<and> t_elists first_mem x = Some [] \<and> fst x = 0"
  "client_ok 2 first_mem second_node" "tc_root second_node = tc_root first_node" "tc_self second_node = 1"
proof -
  let ?c = "TunedRdmaIHT 0 2" and ?m = "\<lparr>t_plists = \<lambda>_. None, t_elists = \<lambda>_. None, t_fresh = 0\<rparr> :: (int, int) tmem"
  have m: "mem_ok 1 ?m" by (simp add: mem_ok_def)
  have c: "tc_depth ?c \<le> 2" "tc_layers ?c = (\<lambda>_ _. None)" "(1::nat) < 2" by (simp_all add: TunedRdmaIHT_def)
  have I: "t_InitAsFirst 2 ?c ?m = (first_node, first_mem)" by (simp add: first_node_def first_mem_def)
  note F = t_InitAsFirst_ok [OF m c(3,1,2) I]
  show "mem_ok 1 first_mem" "client_ok 2 first_mem first_node" "t_holds of_int 2 first_mem (tc_root first_node) Map.empty"
    by (rule F)+
  show "tc_self first_node = 0" using F(4) by (simp add: TunedRdmaIHT_def)
  show "\<exists>x. t_leads of_int first_mem 7 1 2 (tc_root first_node) x 1 \<and> t_elists first_mem x = Some [] \<and> fst x = 0"
    using F(6) [of of_int 7] by (simp add: TunedRdmaIHT_def)
  show "client_ok 2 first_mem second_node" unfolding second_node_def
    by (rule t_InitFromPointer_ok [OF F(2)]) (simp_all add: TunedRdmaIHT_def)
  show "tc_root second_node = tc_root first_node" "tc_self second_node = 1" by (simp_all add: second_node_def t_InitFromPointer_def TunedRdmaIHT_def)
qed

theorem tuned_operations_witness:
  "(\<exists>c' m'. t_insert of_int 2 1 1 second_node first_mem (7 :: int) 70 = Inr (None, c', m') \<and> t_holds of_int 2 m' (tc_root second_node) [7 \<mapsto> 70]) \<and>
   (\<exists>c' m'. t_insert of_int 2 1 1 first_node first_mem (7 :: int) 70 = Inr (None, c', m') \<and> t_holds of_int 2 m' (tc_root first_node) Map.empty)"
proof -
  obtain x where x: "t_leads of_int first_mem 7 1 2 (tc_root first_node) x 1" "t_elists first_mem x = Some []" "fst x = 0"
    using first_table(5) by auto
  have u: "unsaved of_int 2 1 1 first_mem (tc_root first_node) 7 = False" "unsaved of_int 2 1 0 first_mem (tc_root first_node) 7 = True"
    using x(3) by (simp_all add: unsaved_lead [OF x(1,2)] t_is_local_def)
  note 2 = tuned_operations [OF first_table(1,6) first_table(3) [folded first_table(7)] x(1) [folded first_table(7)], of 1 False 70]
  note 1 = tuned_operations [OF first_table(1,2,3) x(1), of 1 False 70]
  note p2 = 2 [OF _ order_refl, simplified, THEN conjunct2, THEN conjunct2] and p1 = 1 [OF _ order_refl, simplified, THEN conjunct2, THEN conjunct2]
  have "\<exists>res. t_insert of_int 2 1 1 second_node first_mem 7 70 = Inr res" using p2 x(2) by simp
  then obtain r c' m' where i: "t_insert of_int 2 1 1 second_node first_mem 7 70 = Inr (r, c', m')" by (metis prod_cases3)
  have "\<exists>res. t_insert of_int 2 1 1 first_node first_mem 7 70 = Inr res" using p1 x(2) by simp
  then obtain r1 c1 m1 where j: "t_insert of_int 2 1 1 first_node first_mem 7 70 = Inr (r1, c1, m1)" by (metis prod_cases3)
  have "r = None \<and> t_holds of_int 2 m' (tc_root second_node) [7 \<mapsto> 70]"
    using p2 [THEN conjunct1] i u first_table(7,8) by (simp add: ins_post_def)
  moreover have "r1 = None \<and> t_holds of_int 2 m1 (tc_root first_node) Map.empty"
    using p1 [THEN conjunct1] j u first_table(4) by (simp add: ins_post_def)
  ultimately show ?thesis using i j by blast
qed

theorem tuned_layers_collide_witness:
  "\<exists>c'. try_cache 2 (replicate 8 (P_UNLOCKED, (0, 5))) [0, 2] (TunedRdmaIHT 0 3) = Inr (True, c') \<and>
     t_view 2 (0, 9) [1, 0] first_mem c' = Inr (Cached (replicate 8 (P_UNLOCKED, (0, 5))), c')"
proof -
  let ?c = "TunedRdmaIHT 0 3" and ?l = "replicate 8 (P_UNLOCKED, (0, 5))"
  have "\<exists>c'. try_cache 2 ?l [0, 2] ?c = Inr (True, c')"
    by (simp add: try_cache_def cache_slot.simps layer_size_def TunedRdmaIHT_def calcified_def list_all_iff)
  then obtain c' where c': "try_cache 2 ?l [0, 2] ?c = Inr (True, c')" by blast
  moreover have "3 \<le> tc_depth ?c" by (simp add: TunedRdmaIHT_def)
  ultimately show ?thesis using tuned_layers_collide [of ?c 2 ?l c' "(0, 9)" first_mem 0 0 0 "[]"] by simp
qed

end
