(* ===== verification/RdmaSk.thy ===== *)
theory RdmaSk
  imports Prelude
begin

text \<open>
  \<open>rdmask_cached.h\<close> and \<open>skiplist_shared.h\<close>: the skip list over RDMA. Clients look keys up, link new nodes at the bottom
  level and delete by writing a sentinel into the value; helper threads raise nodes to their height, claim deleted
  nodes (a second sentinel), mark their links and unlink them. All threads are interleaved, each
  step one access to memory: a read of a node, a compare-and-swap or the writing of a new node. A node is the list of its
  versions, newest first, and a read may return any of them, since reads go through caches that are invalidated
  only after the compare-and-swap. A pointer is an address; its deletion mark is next to it, and its cache mark, the same wherever the
  node is linked, is left out. Addresses are not reused: that is what the epochs (\<open>Ebr\<close>) are for.
\<close>

section \<open>State\<close>

type_synonym link = "nat option \<times> bool"

record rsnode =
  rn_key :: int
  rn_value :: u64
  rn_height :: nat
  rn_link_level :: nat
  rn_next :: "link list"

text \<open>
  \<open>MAX_HEIGHT\<close>, \<open>MINKEY\<close>, the two sentinels, the root under which a key is looked for, and the roots
  in the order a helper visits them (one, here). The lists of \<open>multi_list.h\<close> are this code with many roots; where
  they differ otherwise is configured too: how often \<open>unlink_node\<close> tries again (without end, there), and whether \<open>find\<close> asks
  for the sentinel in a marked node (there it asserts it).
\<close>

record rscfg =
  rc_max :: nat
  rc_minkey :: int
  rc_del :: u64
  rc_unl :: u64
  rc_root :: "int \<Rightarrow> nat"
  rc_roots :: "nat list"
  rc_retries :: "nat option"
  rc_asks :: bool

type_synonym rsmem = "nat \<Rightarrow> rsnode list"
type_synonym snap = "nat \<times> rsnode"

text \<open>\<open>get_rand_level\<close>: xorshift, then one more than the number of ones after the lowest bit, at most \<open>MAX_HEIGHT\<close>.\<close>

definition rand_next :: "u32 \<Rightarrow> u32" where
  "rand_next y = (let y = y XOR push_bit 13 y; y = y XOR drop_bit 17 y in y XOR push_bit 5 y)"

fun rand_ones :: "nat \<Rightarrow> u32 \<Rightarrow> nat" where
  "rand_ones 0 x = 0"
| "rand_ones (Suc n) x = (let x = drop_bit 1 x in if bit x 0 then Suc (rand_ones n x) else 0)"

definition get_rand_level :: "nat \<Rightarrow> u32 \<Rightarrow> nat" where
  "get_rand_level max_height y = (let level = 1 + rand_ones 32 (rand_next y) in if max_height < level then max_height else level)"

text \<open>The constructor of a node, its level given.\<close>

definition rs_node :: "rscfg \<Rightarrow> int \<Rightarrow> u64 \<Rightarrow> nat \<Rightarrow> rsnode" where
  "rs_node c key value level = \<lparr>rn_key = key, rn_value = value, rn_height = level, rn_link_level = 0,
     rn_next = replicate (rc_max c) (None, False)\<rparr>"

text \<open>A read gets one of the versions (the oldest, beyond the last); none of a node that is not there.\<close>

definition read_at :: "rsmem \<Rightarrow> nat \<Rightarrow> nat \<Rightarrow> rsnode option" where
  "read_at m p ver = (if m p = [] then None else Some (m p ! min ver (length (m p) - 1)))"

text \<open>
  A compare-and-swap on a link, on the value or on the link level of a node: what was there, and memory after it. \<open>None\<close>
  if there is no such node.
\<close>

definition put_version :: "nat \<Rightarrow> rsnode \<Rightarrow> rsmem \<Rightarrow> rsmem" where
  "put_version p n m = m(p := n # m p)"

definition cas_next :: "nat \<Rightarrow> nat \<Rightarrow> link \<Rightarrow> link \<Rightarrow> rsmem \<Rightarrow> (link \<times> rsmem) option" where
  "cas_next p h old new m = (case m p of [] \<Rightarrow> None
     | n # _ \<Rightarrow> Some (rn_next n ! h, if rn_next n ! h = old then put_version p (n\<lparr>rn_next := (rn_next n)[h := new]\<rparr>) m else m))"

definition cas_value :: "nat \<Rightarrow> u64 \<Rightarrow> u64 \<Rightarrow> rsmem \<Rightarrow> (u64 \<times> rsmem) option" where
  "cas_value p old new m = (case m p of [] \<Rightarrow> None
     | n # _ \<Rightarrow> Some (rn_value n, if rn_value n = old then put_version p (n\<lparr>rn_value := new\<rparr>) m else m))"

definition cas_link_level :: "nat \<Rightarrow> nat \<Rightarrow> nat \<Rightarrow> rsmem \<Rightarrow> (nat \<times> rsmem) option" where
  "cas_link_level p old new m = (case m p of [] \<Rightarrow> None
     | n # _ \<Rightarrow> Some (rn_link_level n, if rn_link_level n = old then put_version p (n\<lparr>rn_link_level := new\<rparr>) m else m))"

section \<open>Program counters\<close>

datatype rs_op = Rs_contains int | Rs_insert int u64 | Rs_remove int

fun op_key :: "rs_op \<Rightarrow> int" where
  "op_key (Rs_contains k) = k"
| "op_key (Rs_insert k _) = k"
| "op_key (Rs_remove k) = k"

fun is_insert :: "rs_op \<Rightarrow> bool" where
  "is_insert (Rs_insert _ _) = True"
| "is_insert _ = False"

text \<open>
  The locals of \<open>fill\<close>: the key, how many levels are still to do, \<open>curr\<close>, \<open>next_curr\<close>, and the four arrays, by level.
\<close>

record fillst =
  fl_key :: int
  fl_todo :: nat
  fl_cur :: snap
  fl_node :: "snap option"
  fl_pred :: "nat \<Rightarrow> nat"
  fl_prev_key :: "nat \<Rightarrow> int"
  fl_succ :: "nat \<Rightarrow> link"
  fl_found :: "nat \<Rightarrow> bool"

text \<open>
  Where a thread is. Client: in \<open>find\<close>, after it, about to link a new node, in \<open>nonblock_unlink_node\<close>. Helper (all with the branch it is on):
  at a node whose successor it goes to, looking at a node, in \<open>unlink_node\<close> or in \<open>raise_node\<close>
  (for a node it has claimed, at a level, with the locals of \<open>fill\<close>), and reading that node again afterwards.
\<close>

datatype rs_pc =
    Idle
  | Start rs_op
  | Find rs_op nat snap
  | Found rs_op snap
  | Link rs_op snap nat
  | Nonblock rs_op int
  | Nb_fill rs_op fillst
  | Done rs_op "u64 option"
  | H_start nat
  | H_at nat snap
  | H_look nat snap
  | Unlink nat nat int "nat option"
  | U_fill nat nat "nat option" fillst
  | U_level nat nat "nat option" nat fillst
  | U_phys nat nat "nat option" nat fillst
  | Raise nat nat int nat
  | R_fill nat nat nat fillst
  | R_level nat nat nat nat fillst
  | R_pred nat nat nat nat fillst
  | H_refresh nat nat bool
  | Aborted

record rsk =
  rs_mem :: rsmem
  rs_fresh :: nat
  rs_limbo :: "nat list"
  rs_pc :: "nat \<Rightarrow> rs_pc"

section \<open>fill\<close>

definition fill_start :: "int \<Rightarrow> nat \<Rightarrow> snap \<Rightarrow> fillst" where
  "fill_start key levels root = \<lparr>fl_key = key, fl_todo = levels, fl_cur = root, fl_node = None,
     fl_pred = (\<lambda>_. 0), fl_prev_key = (\<lambda>_. 0), fl_succ = (\<lambda>_. (None, False)), fl_found = (\<lambda>_. False)\<rparr>"

text \<open>What is noted about a level before going down.\<close>

definition fill_note :: "link \<Rightarrow> bool \<Rightarrow> fillst \<Rightarrow> fillst" where
  "fill_note succ found fs = (let h = fl_todo fs - 1 in
     fs\<lparr>fl_todo := h, fl_pred := (fl_pred fs)(h := fst (fl_cur fs)), fl_prev_key := (fl_prev_key fs)(h := rn_key (snd (fl_cur fs))),
       fl_succ := (fl_succ fs)(h := succ), fl_found := (fl_found fs)(h := found)\<rparr>)"

text \<open>One round of its loop; \<open>None\<close> where a pointer leads nowhere.\<close>

definition fill_step :: "rsmem \<Rightarrow> nat \<Rightarrow> fillst \<Rightarrow> fillst option" where
  "fill_step m ver fs =
     (case fst (rn_next (snd (fl_cur fs)) ! (fl_todo fs - 1)) of
        None \<Rightarrow> Some (fill_note (None, False) False fs)
      | Some p \<Rightarrow>
          (case read_at m p ver of
             None \<Rightarrow> None
           | Some n \<Rightarrow>
               if rn_key n < fl_key fs then Some (fs\<lparr>fl_cur := (p, n), fl_node := None\<rparr>)
               else if rn_key n = fl_key fs then Some (fill_note (rn_next n ! (fl_todo fs - 1)) True (fs\<lparr>fl_node := Some (p, n)\<rparr>))
               else Some (fill_note (Some p, False) False (fs\<lparr>fl_node := Some (p, n)\<rparr>))))"

section \<open>The operations of a client\<close>

text \<open>A step is given the version a read returns (0 is the newest) and the level of a new node.\<close>

type_synonym rs_res = "rs_pc \<times> rsmem"

text \<open>\<open>find\<close>: a round of its loop, at a level counted from 1; \<open>find\<close> returns when no level is left.\<close>

definition find_step :: "rscfg \<Rightarrow> nat \<Rightarrow> rs_op \<Rightarrow> nat \<Rightarrow> snap \<Rightarrow> rsmem \<Rightarrow> rs_pc" where
  "find_step c ver op todo cur m =
     (case cur of (a, n) \<Rightarrow>
        if todo = 0 \<or> rn_key n = op_key op then Found op (a, n)
        else (case fst (rn_next n ! (todo - 1)) of
           None \<Rightarrow> Find op (todo - 1) (a, n)
         | Some p \<Rightarrow>
             (case read_at m p ver of
                None \<Rightarrow> Aborted
              | Some n' \<Rightarrow>
                  if is_insert op \<and> todo = 1 \<and> snd (rn_next n ! 0) \<and> op_key op \<le> rn_key n' \<and> (rc_asks c \<longrightarrow> rn_value n = rc_unl c)
                  then if rn_value n = rc_unl c then Nonblock op (rn_key n) else Aborted
                  else if rn_key n' \<le> op_key op then Find op todo (p, n')
                  else Find op (todo - 1) (a, n))))"

text \<open>\<open>contains\<close>, \<open>insert\<close> and \<open>remove\<close> after \<open>find\<close>, up to and with their first access to memory.\<close>

definition contains_found :: "rscfg \<Rightarrow> rs_op \<Rightarrow> snap \<Rightarrow> rsmem \<Rightarrow> rs_res" where
  "contains_found c op cur m =
     (if op_key op = rn_key (snd cur) \<and> rn_value (snd cur) \<noteq> rc_del c \<and> rn_value (snd cur) \<noteq> rc_unl c
      then (Done op (Some (rn_value (snd cur))), m) else (Done op None, m))"

definition insert_found :: "rscfg \<Rightarrow> nat \<Rightarrow> nat \<Rightarrow> rs_op \<Rightarrow> u64 \<Rightarrow> snap \<Rightarrow> rsmem \<Rightarrow> rs_res" where
  "insert_found c fresh level op value cur m =
     (if rn_key (snd cur) = op_key op then
        if rn_value (snd cur) = rc_unl c then (Start op, m)
        else if rn_value (snd cur) = rc_del c then
          (case cas_value (fst cur) (rc_del c) value m of
             None \<Rightarrow> (Aborted, m)
           | Some (old, m') \<Rightarrow>
               if old = rc_del c then (Done op None, m')
               else if old = rc_unl c then (Start op, m')
               else (Done op (Some old), m'))
        else (Done op (Some (rn_value (snd cur))), m)
      else
        (let n = rs_node c (op_key op) value level
         in (Link op cur fresh, put_version fresh (n\<lparr>rn_next := (rn_next n)[0 := rn_next (snd cur) ! 0]\<rparr>) m)))"

definition insert_link :: "rs_op \<Rightarrow> snap \<Rightarrow> nat \<Rightarrow> rsmem \<Rightarrow> rs_res" where
  "insert_link op cur new m =
     (let expected = (fst (rn_next (snd cur) ! 0), False) in
      case cas_next (fst cur) 0 expected (Some new, False) m of
        None \<Rightarrow> (Aborted, m)
      | Some (old, m') \<Rightarrow> if old = expected then (Done op None, m') else (Start op, m'))"

definition remove_found :: "rscfg \<Rightarrow> rs_op \<Rightarrow> snap \<Rightarrow> rsmem \<Rightarrow> rs_res" where
  "remove_found c op cur m =
     (if rn_key (snd cur) \<noteq> op_key op then (Done op None, m)
      else if rn_value (snd cur) = rc_del c \<or> rn_value (snd cur) = rc_unl c then (Done op None, m)
      else
        (case cas_value (fst cur) (rn_value (snd cur)) (rc_del c) m of
           None \<Rightarrow> (Aborted, m)
         | Some (old, m') \<Rightarrow>
             if old = rn_value (snd cur) then (Done op (Some (rn_value (snd cur))), m') else (Done op None, m')))"

definition op_found :: "rscfg \<Rightarrow> nat \<Rightarrow> nat \<Rightarrow> rs_op \<Rightarrow> snap \<Rightarrow> rsmem \<Rightarrow> rs_res" where
  "op_found c fresh level op cur m = (case op of
     Rs_contains _ \<Rightarrow> contains_found c op cur m
   | Rs_insert _ value \<Rightarrow> insert_found c fresh level op value cur m
   | Rs_remove _ \<Rightarrow> remove_found c op cur m)"

text \<open>\<open>nonblock_unlink_node\<close> after its \<open>fill\<close>: it does not look whether the node is marked.\<close>

definition nonblock_unlink_node :: "rscfg \<Rightarrow> rs_op \<Rightarrow> fillst \<Rightarrow> rsmem \<Rightarrow> rs_res" where
  "nonblock_unlink_node c op fs m =
     (case fl_node fs of
        None \<Rightarrow> (if fl_found fs 0 then Aborted else Start op, m)
      | Some (p, n) \<Rightarrow>
          if \<not> fl_found fs 1 \<and> fl_found fs 0 \<and> rn_value n = rc_unl c then
            (case cas_next (fl_pred fs 0) 0 (Some p, False) (fst (fl_succ fs 0), False) m of
               None \<Rightarrow> (Aborted, m)
             | Some (old, m') \<Rightarrow>
                 if old = (Some p, False) then (Start op, m')
                 else if old = (Some p, True) then (Nonblock op (fl_prev_key fs 0), m')
                 else (Start op, m'))
          else (Start op, m))"

section \<open>The helper\<close>

text \<open>
  \<open>helper_thread\<close> at a node: unlink it, skip it, raise it, or count it as raised (the node of height 1).
\<close>

definition helper_look :: "rscfg \<Rightarrow> nat \<Rightarrow> snap \<Rightarrow> rsmem \<Rightarrow> rs_res" where
  "helper_look c b cur m = (case cur of (p, n) \<Rightarrow>
     if rn_value n = rc_del c \<and> rn_link_level n = rn_height n then
       (case cas_value p (rc_del c) (rc_unl c) m of
          None \<Rightarrow> (Aborted, m)
        | Some (old, m') \<Rightarrow> if old \<noteq> rc_del c then (H_at b cur, m') else (Unlink b p (rn_key n) (rc_retries c), m'))
     else if rn_value n = rc_unl c then (H_at b cur, m)
     else if rn_link_level n = 0 \<and> 1 < rn_height n then
       (case cas_link_level p 0 1 m of
          None \<Rightarrow> (Aborted, m)
        | Some (old, m') \<Rightarrow> if old = 0 then (Raise b p (rn_key n) (rn_height n), m') else (H_at b cur, m'))
     else
       (case cas_link_level p 0 1 m of
          None \<Rightarrow> (Aborted, m)
        | Some (_, m') \<Rightarrow> (H_at b cur, m')))"

text \<open>
  \<open>unlink_node\<close> from the top level down: mark the node's link unless the mark was seen, then take it out of its predecessor; a lost
  compare-and-swap starts again from \<open>fill\<close>, with one retry less.
\<close>

definition unlink_level :: "nat \<Rightarrow> nat \<Rightarrow> nat option \<Rightarrow> nat \<Rightarrow> fillst \<Rightarrow> rsmem \<Rightarrow> rs_res" where
  "unlink_level b p retries todo fs m =
     (if todo = 0 then (H_refresh b p True, m)
      else if \<not> fl_found fs (todo - 1) then (U_level b p retries (todo - 1) fs, m)
      else if \<not> snd (fl_succ fs (todo - 1)) then
        (case fl_node fs of
           None \<Rightarrow> (Aborted, m)
         | Some (a, _) \<Rightarrow>
             (case cas_next a (todo - 1) (fl_succ fs (todo - 1)) (fst (fl_succ fs (todo - 1)), True) m of
                None \<Rightarrow> (Aborted, m)
              | Some (old, m') \<Rightarrow>
                  if old \<noteq> fl_succ fs (todo - 1) then (Unlink b p (fl_key fs) (map_option (\<lambda>r. r - 1) retries), m')
                  else (U_phys b p retries todo fs, m')))
      else (U_phys b p retries todo fs, m))"

definition unlink_phys :: "nat \<Rightarrow> nat \<Rightarrow> nat option \<Rightarrow> nat \<Rightarrow> fillst \<Rightarrow> rsmem \<Rightarrow> rs_res" where
  "unlink_phys b p retries todo fs m =
     (case fl_node fs of
        None \<Rightarrow> (Aborted, m)
      | Some (a, _) \<Rightarrow>
          (case cas_next (fl_pred fs (todo - 1)) (todo - 1) (Some a, False) (fst (fl_succ fs (todo - 1)), False) m of
             None \<Rightarrow> (Aborted, m)
           | Some (old, m') \<Rightarrow>
               if old \<noteq> (Some a, False) then (Unlink b p (fl_key fs) (map_option (\<lambda>r. r - 1) retries), m')
               else (U_level b p retries (todo - 1) fs, m')))"

text \<open>
  \<open>raise_node\<close> from the bottom up: at a level where the key was not found, point the node to the successor, then the predecessor to
  the node; at the end the link level becomes the height.
\<close>

definition raise_level :: "nat \<Rightarrow> nat \<Rightarrow> nat \<Rightarrow> nat \<Rightarrow> fillst \<Rightarrow> rsmem \<Rightarrow> rs_res" where
  "raise_level b p goal h fs m =
     (case fl_node fs of
        None \<Rightarrow> (Aborted, m)
      | Some (a, n) \<Rightarrow>
          if goal \<le> h then
            (case cas_link_level a 1 goal m of None \<Rightarrow> (Aborted, m) | Some (_, m') \<Rightarrow> (H_refresh b p False, m'))
          else if fl_found fs h then (R_level b p goal (h + 1) fs, m)
          else if snd (rn_next n ! h) then (Aborted, m)
          else (case cas_next a h (rn_next n ! h) (fl_succ fs h) m of
             None \<Rightarrow> (Aborted, m)
           | Some (old, m') \<Rightarrow>
               if old \<noteq> rn_next n ! h then (Raise b p (fl_key fs) goal, m') else (R_pred b p goal h fs, m')))"

definition raise_pred :: "nat \<Rightarrow> nat \<Rightarrow> nat \<Rightarrow> nat \<Rightarrow> fillst \<Rightarrow> rsmem \<Rightarrow> rs_res" where
  "raise_pred b p goal h fs m =
     (case fl_node fs of
        None \<Rightarrow> (Aborted, m)
      | Some (a, _) \<Rightarrow>
          (case cas_next (fl_pred fs h) h (fst (fl_succ fs h), False) (Some a, False) m of
             None \<Rightarrow> (Aborted, m)
           | Some (old, m') \<Rightarrow>
               if old \<noteq> (fst (fl_succ fs h), False) then (Raise b p (fl_key fs) goal, m')
               else (R_level b p goal (h + 1) fs, m')))"

section \<open>Steps\<close>

text \<open>A thread reads the root it starts from, and goes on.\<close>

definition read_then :: "rsmem \<Rightarrow> nat \<Rightarrow> nat \<Rightarrow> (snap \<Rightarrow> rs_pc) \<Rightarrow> rs_res" where
  "read_then m p ver f = (case read_at m p ver of None \<Rightarrow> (Aborted, m) | Some n \<Rightarrow> (f (p, n), m))"

definition fill_then :: "rsmem \<Rightarrow> nat \<Rightarrow> fillst \<Rightarrow> (fillst \<Rightarrow> rs_pc) \<Rightarrow> rs_res" where
  "fill_then m ver fs f = (case fill_step m ver fs of None \<Rightarrow> (Aborted, m) | Some fs' \<Rightarrow> (f fs', m))"

text \<open>The next access of a thread.\<close>

fun rs_next :: "rscfg \<Rightarrow> nat \<Rightarrow> nat \<Rightarrow> nat \<Rightarrow> rs_pc \<Rightarrow> rsmem \<Rightarrow> rs_res" where
  "rs_next c fresh ver level Idle m = (Idle, m)"
| "rs_next c fresh ver level (Start op) m = read_then m (rc_root c (op_key op)) ver (Find op (rc_max c))"
| "rs_next c fresh ver level (Find op todo cur) m = (find_step c ver op todo cur m, m)"
| "rs_next c fresh ver level (Found op cur) m = op_found c fresh level op cur m"
| "rs_next c fresh ver level (Link op cur new) m = insert_link op cur new m"
| "rs_next c fresh ver level (Nonblock op key) m =
     read_then m (rc_root c key) ver (\<lambda>root. Nb_fill op (fill_start key (rc_max c) root))"
| "rs_next c fresh ver level (Nb_fill op fs) m =
     (if fl_todo fs = 0 then nonblock_unlink_node c op fs m else fill_then m ver fs (Nb_fill op))"
| "rs_next c fresh ver level (Done op r) m = (Done op r, m)"
| "rs_next c fresh ver level (H_start b) m = read_then m (rc_roots c ! b) ver (H_at b)"
| "rs_next c fresh ver level (H_at b cur) m =
     (case fst (rn_next (snd cur) ! 0) of
        None \<Rightarrow> (H_start ((b + 1) mod length (rc_roots c)), m)
      | Some p \<Rightarrow> read_then m p ver (H_look b))"
| "rs_next c fresh ver level (H_look b cur) m = helper_look c b cur m"
| "rs_next c fresh ver level (Unlink b p key retries) m =
     (if retries = Some 0 \<or> key = rc_minkey c then (H_refresh b p True, m)
      else read_then m (rc_root c key) ver (\<lambda>root. U_fill b p retries (fill_start key (rc_max c) root)))"
| "rs_next c fresh ver level (U_fill b p retries fs) m =
     (if fl_todo fs = 0 then (U_level b p retries (rc_max c) fs, m) else fill_then m ver fs (U_fill b p retries))"
| "rs_next c fresh ver level (U_level b p retries todo fs) m = unlink_level b p retries todo fs m"
| "rs_next c fresh ver level (U_phys b p retries todo fs) m = unlink_phys b p retries todo fs m"
| "rs_next c fresh ver level (Raise b p key goal) m =
     read_then m (rc_root c key) ver (\<lambda>root. R_fill b p goal (fill_start key (rc_max c) root))"
| "rs_next c fresh ver level (R_fill b p goal fs) m =
     (if fl_todo fs = 0 then (R_level b p goal 0 fs, m) else fill_then m ver fs (R_fill b p goal))"
| "rs_next c fresh ver level (R_level b p goal h fs) m = raise_level b p goal h fs m"
| "rs_next c fresh ver level (R_pred b p goal h fs) m = raise_pred b p goal h fs m"
| "rs_next c fresh ver level (H_refresh b p unlinked) m = read_then m p ver (H_at b)"
| "rs_next c fresh ver level Aborted m = (Aborted, m)"

text \<open>
  What happens: a client calls an operation, a thread becomes a helper, or a thread makes its next access, with the version it
  reads and the level a new node gets. The helper puts a node it has unlinked, or given up, into limbo.
\<close>

datatype rs_act = Call nat rs_op | Help nat nat | Go nat nat nat

fun frees :: "rs_pc \<Rightarrow> nat list" where
  "frees (H_refresh b p True) = [p]"
| "frees _ = []"

definition rs_step :: "rscfg \<Rightarrow> rs_act \<Rightarrow> rsk \<Rightarrow> rsk option" where
  "rs_step c act s = (case act of
     Call t op \<Rightarrow> (case rs_pc s t of
         Idle \<Rightarrow> Some (s\<lparr>rs_pc := (rs_pc s)(t := Start op)\<rparr>)
       | Done _ _ \<Rightarrow> Some (s\<lparr>rs_pc := (rs_pc s)(t := Start op)\<rparr>)
       | _ \<Rightarrow> None)
   | Help t b \<Rightarrow> (case rs_pc s t of
         Idle \<Rightarrow> if b < length (rc_roots c) then Some (s\<lparr>rs_pc := (rs_pc s)(t := H_start b)\<rparr>) else None
       | _ \<Rightarrow> None)
   | Go t ver level \<Rightarrow>
       if 1 \<le> level \<and> level \<le> rc_max c then
         (case rs_next c (rs_fresh s) ver level (rs_pc s t) (rs_mem s) of
            (pc, m) \<Rightarrow> Some \<lparr>rs_mem = m, rs_fresh = Suc (rs_fresh s), rs_limbo = frees (rs_pc s t) @ rs_limbo s, rs_pc = (rs_pc s)(t := pc)\<rparr>)
       else None)"

text \<open>\<open>InitAsFirst\<close>: the roots, nodes with the least key and no successors.\<close>

definition rs_init :: "rscfg \<Rightarrow> rsk" where
  "rs_init c = \<lparr>rs_mem = (\<lambda>p. if p \<in> set (rc_roots c) then [(rs_node c (rc_minkey c) 0 0)] else []),
     rs_fresh = Suc (Max (set (rc_roots c))), rs_limbo = [], rs_pc = (\<lambda>_. Idle)\<rparr>"

fun rs_run :: "rscfg \<Rightarrow> rs_act list \<Rightarrow> rsk \<Rightarrow> rsk option" where
  "rs_run c [] s = Some s"
| "rs_run c (act # acts) s = (case rs_step c act s of None \<Rightarrow> None | Some s' \<Rightarrow> rs_run c acts s')"

text \<open>A run of one thread until its operation has returned; a new node gets a given level.\<close>

fun rs_finish :: "rscfg \<Rightarrow> nat \<Rightarrow> nat \<Rightarrow> nat \<Rightarrow> rsk \<Rightarrow> rsk option" where
  "rs_finish c t level 0 s = None"
| "rs_finish c t level (Suc k) s = (case rs_pc s t of
     Done _ _ \<Rightarrow> Some s
   | _ \<Rightarrow> (case rs_step c (Go t 0 level) s of None \<Rightarrow> None | Some s' \<Rightarrow> rs_finish c t level k s'))"

fun pc_result :: "rs_pc \<Rightarrow> u64 option option" where
  "pc_result (Done _ r) = Some r"
| "pc_result _ = None"

text \<open>\<open>populate\<close>, on the keys that are drawn, each with the level its node would get, until enough insertions have succeeded.\<close>

fun rs_populate :: "rscfg \<Rightarrow> nat \<Rightarrow> nat \<Rightarrow> (int \<Rightarrow> u64) \<Rightarrow> nat \<Rightarrow> (int \<times> nat) list \<Rightarrow> rsk \<Rightarrow> rsk option" where
  "rs_populate c t fuel value 0 draws s = Some s"
| "rs_populate c t fuel value (Suc todo) [] s = None"
| "rs_populate c t fuel value (Suc todo) ((k, level) # draws) s =
     (case rs_step c (Call t (Rs_insert k (value k))) s of None \<Rightarrow> None | Some s1 \<Rightarrow>
       (case rs_finish c t level fuel s1 of None \<Rightarrow> None | Some s2 \<Rightarrow>
         rs_populate c t fuel value (if pc_result (rs_pc s2 t) = Some None then todo else Suc todo) draws s2))"

text \<open>What \<open>destroy\<close> gives back: the scratch nodes, and the roots if it is told so.\<close>

definition rs_destroy :: "rscfg \<Rightarrow> nat list \<Rightarrow> bool \<Rightarrow> nat list" where
  "rs_destroy c prealloc delete_as_first = prealloc @ (if delete_as_first then rc_roots c else [])"

text \<open>\<open>count\<close>: the nodes of the bottom level that are not deleted, with fuel for the walk; it expects that no helper is at work and no link
  is marked.\<close>

fun rs_walk :: "nat \<Rightarrow> rsmem \<Rightarrow> nat \<Rightarrow> rsnode list" where
  "rs_walk 0 m p = []"
| "rs_walk (Suc k) m p = (case m p of [] \<Rightarrow> []
     | n # _ \<Rightarrow> n # (case fst (rn_next n ! 0) of None \<Rightarrow> [] | Some q \<Rightarrow> rs_walk k m q))"

definition rs_live :: "rscfg \<Rightarrow> rsnode \<Rightarrow> bool" where
  "rs_live c n \<longleftrightarrow> rn_value n \<noteq> rc_del c \<and> rn_value n \<noteq> rc_unl c"

definition rs_count :: "rscfg \<Rightarrow> nat \<Rightarrow> rsk \<Rightarrow> nat" where
  "rs_count c root s = length (filter (rs_live c) (tl (rs_walk (rs_fresh s) (rs_mem s) root)))"

end
