(* ===== verification/RdmaSkInv.thy ===== *)
theory RdmaSkInv
  imports RdmaSk
begin

text \<open>
  What holds of the nodes of the RDMA skip list in every run, helpers and stale reads included: keys never change,
  every link of every version of a node leads to a node with a greater key, and a marked link stays as it
  is. Threads know only versions of nodes, so what they conclude from them is still so when they act.
\<close>

declare split_paired_All [simp del] split_paired_Ex [simp del]

section \<open>Memory\<close>

abbreviation key_at :: "rsmem \<Rightarrow> nat \<Rightarrow> int" where
  "key_at m p \<equiv> rn_key (hd (m p))"

text \<open>A link leads to a node with a key above a given one.\<close>

definition link_above :: "rsmem \<Rightarrow> int \<Rightarrow> link \<Rightarrow> bool" where
  "link_above m k l \<longleftrightarrow> (\<forall>q. fst l = Some q \<longrightarrow> m q \<noteq> [] \<and> k < key_at m q)"

definition version_ok :: "rscfg \<Rightarrow> rsmem \<Rightarrow> nat \<Rightarrow> rsnode \<Rightarrow> bool" where
  "version_ok c m p n \<longleftrightarrow> rn_key n = key_at m p \<and> length (rn_next n) = rc_max c \<and> rc_minkey c \<le> rn_key n \<and> rn_height n \<le> rc_max c \<and>
     (\<forall>h < rc_max c. link_above m (rn_key n) (rn_next n ! h))"

text \<open>A newer version has the marked links of an older one.\<close>

definition frozen :: "rscfg \<Rightarrow> rsnode \<Rightarrow> rsnode \<Rightarrow> bool" where
  "frozen c new old \<longleftrightarrow> (\<forall>h < rc_max c. snd (rn_next old ! h) \<longrightarrow> rn_next new ! h = rn_next old ! h)"

definition links_ok :: "rscfg \<Rightarrow> nat \<Rightarrow> rsmem \<Rightarrow> bool" where
  "links_ok c fresh m \<longleftrightarrow> (\<forall>p. (\<forall>n \<in> set (m p). version_ok c m p n) \<and> sorted_wrt (frozen c) (m p) \<and> (m p \<noteq> [] \<longrightarrow> p < fresh))"

lemma links_okD:
  assumes "links_ok c fresh m"
  shows "n \<in> set (m p) \<Longrightarrow> version_ok c m p n" "sorted_wrt (frozen c) (m p)" "m p \<noteq> [] \<Longrightarrow> p < fresh" "m fresh = []"
  using assms unfolding links_ok_def by blast+

lemma version_okD:
  assumes "version_ok c m p n"
  shows "rn_key n = key_at m p" "length (rn_next n) = rc_max c" "rc_minkey c \<le> rn_key n"
    "h < rc_max c \<Longrightarrow> link_above m (rn_key n) (rn_next n ! h)" "rn_height n \<le> rc_max c"
  using assms unfolding version_ok_def by blast+

text \<open>How memory grows: every node keeps its versions, below newer ones, and its key.\<close>

definition grown :: "rsmem \<Rightarrow> rsmem \<Rightarrow> bool" where
  "grown m m' \<longleftrightarrow> (\<forall>p. set (m p) \<subseteq> set (m' p) \<and> (m p \<noteq> [] \<longrightarrow> key_at m' p = key_at m p))"

lemma grownD: "grown m m' \<Longrightarrow> n \<in> set (m p) \<Longrightarrow> n \<in> set (m' p)" "grown m m' \<Longrightarrow> m p \<noteq> [] \<Longrightarrow> m' p \<noteq> []"
  "grown m m' \<Longrightarrow> m p \<noteq> [] \<Longrightarrow> key_at m' p = key_at m p"
  unfolding grown_def by auto

lemma grown_refl [simp]: "grown m m"
  by (simp add: grown_def)

lemma link_above_grown: "link_above m k l \<Longrightarrow> grown m m' \<Longrightarrow> link_above m' k l"
  unfolding link_above_def using grownD(2,3) by metis

lemma link_above_mono: "link_above m k l \<Longrightarrow> k' \<le> k \<Longrightarrow> link_above m k' l"
  unfolding link_above_def by fastforce

lemma link_above_None [simp]: "link_above m k (None, b)"
  by (simp add: link_above_def)

lemma link_above_fst: "link_above m k l \<Longrightarrow> link_above m k (fst l, b)"
  by (simp add: link_above_def)

lemma version_ok_grown: "version_ok c m p n \<Longrightarrow> m p \<noteq> [] \<Longrightarrow> grown m m' \<Longrightarrow> version_ok c m' p n"
  unfolding version_ok_def using grownD(3) link_above_grown by metis

lemma links_ok_fresh: "links_ok c fresh m \<Longrightarrow> fresh \<le> fresh' \<Longrightarrow> links_ok c fresh' m"
  unfolding links_ok_def by force

text \<open>A new version of a node.\<close>

lemma grown_put: "m p \<noteq> [] \<Longrightarrow> rn_key n = key_at m p \<Longrightarrow> grown m (put_version p n m)"
  by (auto simp: grown_def put_version_def)

lemma links_ok_put:
  assumes m: "links_ok c fresh m" and p: "m p \<noteq> []" and n: "rn_key n = key_at m p" "length (rn_next n) = rc_max c" "rn_height n \<le> rc_max c"
    and links: "\<And>h. h < rc_max c \<Longrightarrow> rn_next n ! h = rn_next (hd (m p)) ! h \<or>
        \<not> snd (rn_next (hd (m p)) ! h) \<and> link_above m (rn_key n) (rn_next n ! h)"
  shows "links_ok c fresh (put_version p n m)"
proof -
  note D = links_okD [OF m]
  have g: "grown m (put_version p n m)" by (rule grown_put [of m p n, OF p n(1)])
  have hd: "hd (m p) \<in> set (m p)" using p by simp
  note V = version_okD [OF D(1) [OF hd]]
  have new: "version_ok c (put_version p n m) p n" unfolding version_ok_def
  proof (intro conjI allI impI)
    show "rn_key n = key_at (put_version p n m) p" by (simp add: put_version_def)
    show "rc_minkey c \<le> rn_key n" using V(3) n(1) by simp
    fix h assume h: "h < rc_max c"
    have "link_above m (rn_key n) (rn_next n ! h)" using links [OF h] V(4) [OF h] n(1) by auto
    then show "link_above (put_version p n m) (rn_key n) (rn_next n ! h)" by (rule link_above_grown [OF _ g])
  qed (rule n(2), rule n(3))
  have fr: "frozen c n old" if "old \<in> set (m p)" for old unfolding frozen_def
  proof (intro allI impI)
    fix h assume h: "h < rc_max c" "snd (rn_next old ! h)"
    have "rn_next (hd (m p)) ! h = rn_next old ! h"
    proof (cases "old = hd (m p)")
      case False
      then have "frozen c (hd (m p)) old" using D(2) [of p] that p by (cases "m p") auto
      then show ?thesis using h by (simp add: frozen_def)
    qed simp
    then show "rn_next n ! h = rn_next old ! h" using links [OF h(1)] h(2) by auto
  qed
  have "(\<forall>n' \<in> set (put_version p n m q). version_ok c (put_version p n m) q n') \<and> sorted_wrt (frozen c) (put_version p n m q) \<and>
      (put_version p n m q \<noteq> [] \<longrightarrow> q < fresh)" for q
  proof (cases "q = p")
    case True
    have "version_ok c (put_version p n m) p n'" if "n' \<in> set (m p)" for n'
      by (rule version_ok_grown [OF D(1) [OF that] p g])
    then show ?thesis using True new fr D(2,3) p by (auto simp: put_version_def)
  next
    case False
    have "version_ok c (put_version p n m) q n'" if "n' \<in> set (m q)" for n'
      using version_ok_grown [OF D(1) [OF that] _ g] that by force
    then show ?thesis using False D(2,3) by (auto simp: put_version_def)
  qed
  then show ?thesis unfolding links_ok_def by blast
qed

text \<open>The three compare-and-swaps.\<close>

lemma cas_next_ok:
  assumes m: "links_ok c fresh m" and cas: "cas_next p h old new m = Some (was, m')" and h: "h < rc_max c"
    and new: "\<not> snd old" "m p \<noteq> [] \<Longrightarrow> link_above m (key_at m p) new"
  shows "links_ok c fresh m' \<and> grown m m'"
proof -
  from cas obtain n ns where n: "m p = n # ns" by (auto simp: cas_next_def split: list.splits)
  show ?thesis
  proof (cases "rn_next n ! h = old")
    case False
    then show ?thesis using cas n m by (auto simp: cas_next_def)
  next
    case True
    let ?n = "n\<lparr>rn_next := (rn_next n)[h := new]\<rparr>"
    have m': "m' = put_version p ?n m" using cas n True by (simp add: cas_next_def)
    have "version_ok c m p n" using links_okD(1) [OF m] n by simp
    note V = version_okD [OF this]
    have "links_ok c fresh (put_version p ?n m)"
    proof (rule links_ok_put [OF m])
      show "m p \<noteq> []" "rn_key ?n = key_at m p" "length (rn_next ?n) = rc_max c" "rn_height ?n \<le> rc_max c" using n V(2,5) by simp_all
      fix j assume "j < rc_max c"
      then show "rn_next ?n ! j = rn_next (hd (m p)) ! j \<or> \<not> snd (rn_next (hd (m p)) ! j) \<and> link_above m (rn_key ?n) (rn_next ?n ! j)"
        using n V(2) True new by (cases "j = h") auto
    qed
    then show ?thesis using m' grown_put [of m p ?n] n by simp
  qed
qed

lemma cas_value_ok:
  assumes "links_ok c fresh m" "cas_value p old new m = Some (was, m')"
  shows "links_ok c fresh m' \<and> grown m m'"
proof -
  from assms(2) obtain n ns where n: "m p = n # ns" by (auto simp: cas_value_def split: list.splits)
  have "version_ok c m p n" using links_okD(1) [OF assms(1)] n by simp
  then have "links_ok c fresh (put_version p (n\<lparr>rn_value := new\<rparr>) m)"
    by (intro links_ok_put [OF assms(1)]) (use n in \<open>simp_all add: version_ok_def\<close>)
  then show ?thesis using assms n grown_put [of m p "n\<lparr>rn_value := new\<rparr>"] by (auto simp: cas_value_def split: if_splits)
qed

lemma cas_link_level_ok:
  assumes "links_ok c fresh m" "cas_link_level p old new m = Some (was, m')"
  shows "links_ok c fresh m' \<and> grown m m'"
proof -
  from assms(2) obtain n ns where n: "m p = n # ns" by (auto simp: cas_link_level_def split: list.splits)
  have "version_ok c m p n" using links_okD(1) [OF assms(1)] n by simp
  then have "links_ok c fresh (put_version p (n\<lparr>rn_link_level := new\<rparr>) m)"
    by (intro links_ok_put [OF assms(1)]) (use n in \<open>simp_all add: version_ok_def\<close>)
  then show ?thesis using assms n grown_put [of m p "n\<lparr>rn_link_level := new\<rparr>"] by (auto simp: cas_link_level_def split: if_splits)
qed

text \<open>A new node.\<close>

lemma links_ok_new:
  assumes m: "links_ok c fresh m" and n: "length (rn_next n) = rc_max c" "rc_minkey c \<le> rn_key n" "rn_height n \<le> rc_max c"
    "\<And>h. h < rc_max c \<Longrightarrow> link_above m (rn_key n) (rn_next n ! h)"
  shows "links_ok c (Suc fresh) (put_version fresh n m) \<and> grown m (put_version fresh n m)"
proof
  note D = links_okD [OF m]
  show g: "grown m (put_version fresh n m)" using D(4) by (auto simp: grown_def put_version_def)
  have "version_ok c (put_version fresh n m) fresh n"
    using n link_above_grown [OF _ g] D(4) by (auto simp: version_ok_def put_version_def)
  moreover have "version_ok c (put_version fresh n m) q n'" if "n' \<in> set (m q)" for q n'
    using version_ok_grown [OF D(1) [OF that] _ g] that by force
  ultimately have "(\<forall>n' \<in> set (put_version fresh n m q). version_ok c (put_version fresh n m) q n') \<and>
      sorted_wrt (frozen c) (put_version fresh n m q) \<and> (put_version fresh n m q \<noteq> [] \<longrightarrow> q < Suc fresh)" for q
    using D(2) [of q] D(3) [of q] D(4) by (cases "q = fresh") (auto simp: put_version_def)
  then show "links_ok c (Suc fresh) (put_version fresh n m)" unfolding links_ok_def by blast
qed

lemma read_at_version:
  assumes "read_at m p ver = Some n" shows "n \<in> set (m p)"
proof -
  have "m p \<noteq> []" "n = m p ! min ver (length (m p) - 1)" using assms by (auto simp: read_at_def split: if_splits)
  moreover from this(1) have "min ver (length (m p) - 1) < length (m p)" by (cases "m p") auto
  ultimately show ?thesis by simp
qed

section \<open>Threads\<close>

definition snap_ok :: "rsmem \<Rightarrow> snap \<Rightarrow> bool" where
  "snap_ok m cur \<longleftrightarrow> snd cur \<in> set (m (fst cur))"

lemma snap_ok_simp [simp]: "snap_ok m (a, n) \<longleftrightarrow> n \<in> set (m a)"
  by (simp add: snap_ok_def)

lemma snap_ok_grown: "snap_ok m cur \<Longrightarrow> grown m m' \<Longrightarrow> snap_ok m' cur"
  unfolding snap_ok_def using grownD(1) by blast

text \<open>The locals of \<open>fill\<close>: predecessors below the key (or a root), successors above it, at the levels that are done.\<close>

definition low :: "rscfg \<Rightarrow> int \<Rightarrow> int \<Rightarrow> bool" where
  "low c key k \<longleftrightarrow> k < key \<or> k = rc_minkey c"

definition level_ok :: "rscfg \<Rightarrow> rsmem \<Rightarrow> fillst \<Rightarrow> nat \<Rightarrow> bool" where
  "level_ok c m fs h \<longleftrightarrow> m (fl_pred fs h) \<noteq> [] \<and> low c (fl_key fs) (key_at m (fl_pred fs h)) \<and>
     fl_prev_key fs h = key_at m (fl_pred fs h) \<and> link_above m (fl_key fs) (fl_succ fs h) \<and> (\<not> fl_found fs h \<longrightarrow> \<not> snd (fl_succ fs h))"

definition fill_ok :: "rscfg \<Rightarrow> rsmem \<Rightarrow> fillst \<Rightarrow> bool" where
  "fill_ok c m fs \<longleftrightarrow> rc_minkey c \<le> fl_key fs \<and> fl_todo fs \<le> rc_max c \<and> snap_ok m (fl_cur fs) \<and> low c (fl_key fs) (rn_key (snd (fl_cur fs))) \<and>
     (\<forall>cur. fl_node fs = Some cur \<longrightarrow> snap_ok m cur \<and> fl_key fs \<le> rn_key (snd cur)) \<and>
     (\<forall>h. fl_todo fs \<le> h \<longrightarrow> h < rc_max c \<longrightarrow> level_ok c m fs h) \<and>
     (fl_todo fs = 0 \<longrightarrow> fl_found fs 0 \<longrightarrow> (\<exists>cur. fl_node fs = Some cur \<and> rn_key (snd cur) = fl_key fs))"

lemma fill_okD:
  assumes "fill_ok c m fs"
  shows "rc_minkey c \<le> fl_key fs" "fl_todo fs \<le> rc_max c" "snap_ok m (fl_cur fs)" "low c (fl_key fs) (rn_key (snd (fl_cur fs)))"
    "fl_node fs = Some cur \<Longrightarrow> snap_ok m cur" "fl_node fs = Some cur \<Longrightarrow> fl_key fs \<le> rn_key (snd cur)"
    "fl_todo fs \<le> h \<Longrightarrow> h < rc_max c \<Longrightarrow> level_ok c m fs h"
    "fl_todo fs = 0 \<Longrightarrow> fl_found fs 0 \<Longrightarrow> \<exists>cur. fl_node fs = Some cur \<and> rn_key (snd cur) = fl_key fs"
  using assms unfolding fill_ok_def by blast+

lemma fill_ok_grown:
  assumes "fill_ok c m fs" "grown m m'"
  shows "fill_ok c m' fs"
proof -
  have "level_ok c m fs h \<Longrightarrow> level_ok c m' fs h" for h
    unfolding level_ok_def using link_above_grown [OF _ assms(2)] grownD(2,3) [OF assms(2)] by simp
  then show ?thesis using assms(1) snap_ok_grown [OF _ assms(2)] unfolding fill_ok_def by blast
qed

lemma fill_start_key [simp]: "fl_key (fill_start key l root) = key"
  by (simp add: fill_start_def)

lemma fill_start_ok:
  assumes "snap_ok m root" "rn_key (snd root) = rc_minkey c" "rc_minkey c \<le> key"
  shows "fill_ok c m (fill_start key (rc_max c) root)"
  using assms by (simp add: fill_ok_def fill_start_def low_def)

lemma fill_note_ok:
  assumes fs: "fill_ok c m fs" and m: "links_ok c fresh m" and todo: "0 < fl_todo fs" and succ: "link_above m (fl_key fs) succ" "\<not> found \<Longrightarrow> \<not> snd succ"
    and node: "found \<Longrightarrow> \<exists>cur. fl_node fs = Some cur \<and> rn_key (snd cur) = fl_key fs"
  shows "fill_ok c m (fill_note succ found fs)"
proof -
  note F = fill_okD [OF fs]
  obtain a n where cur: "fl_cur fs = (a, n)" by (cases "fl_cur fs")
  have "n \<in> set (m a)" using F(3) cur by simp
  then have a: "m a \<noteq> []" "rn_key n = key_at m a" using links_okD(1) [OF m] version_okD(1) by force+
  let ?fs = "fill_note succ found fs" and ?h = "fl_todo fs - 1"
  have S: "fl_key ?fs = fl_key fs" "fl_todo ?fs = ?h" "fl_cur ?fs = fl_cur fs" "fl_node ?fs = fl_node fs"
    by (simp_all add: fill_note_def Let_def)
  have "level_ok c m ?fs h" if "?h \<le> h" "h < rc_max c" for h
  proof (cases "h = ?h")
    case True
    then show ?thesis using a F(4) cur succ by (simp add: level_ok_def fill_note_def Let_def)
  next
    case False
    then have "fl_todo fs \<le> h" using that by linarith
    from F(7) [OF this that(2)] False show ?thesis by (simp add: level_ok_def fill_note_def Let_def)
  qed
  moreover have "fl_found ?fs 0 \<Longrightarrow> ?h = 0 \<Longrightarrow> found" by (simp add: fill_note_def Let_def)
  ultimately show ?thesis unfolding fill_ok_def S using F(1-6) node by auto
qed

lemma fill_step_ok:
  assumes fs: "fill_ok c m fs" and m: "links_ok c fresh m" and todo: "0 < fl_todo fs" and step: "fill_step m ver fs = Some fs'"
  shows "fill_ok c m fs' \<and> fl_key fs' = fl_key fs"
proof -
  note F = fill_okD [OF fs]
  obtain a n where cur: "fl_cur fs = (a, n)" by (cases "fl_cur fs")
  have n: "n \<in> set (m a)" using F(3) cur by simp
  let ?h = "fl_todo fs - 1"
  have h: "?h < rc_max c" using F(2) todo by simp
  note V = version_okD [OF links_okD(1) [OF m n]]
  show ?thesis
  proof (cases "fst (rn_next n ! ?h)")
    case None
    then have "fs' = fill_note (None, False) False fs" using step cur by (simp add: fill_step_def)
    then show ?thesis using fill_note_ok [OF fs m todo, of "(None, False)" False] by (simp add: fill_note_def Let_def)
  next
    case (Some p)
    have p: "m p \<noteq> []" "rn_key n < key_at m p" using V(4) [OF h] Some by (simp_all add: link_above_def)
    from step cur Some obtain n' where n': "read_at m p ver = Some n'"
      by (auto simp: fill_step_def split: option.splits)
    note r = read_at_version [OF n']
    note V' = version_okD [OF links_okD(1) [OF m r]]
    consider "rn_key n' < fl_key fs" | "rn_key n' = fl_key fs" | "fl_key fs < rn_key n'" by linarith
    then show ?thesis
    proof cases
      case 1
      then have "fs' = fs\<lparr>fl_cur := (p, n'), fl_node := None\<rparr>" using step cur Some n' by (simp add: fill_step_def)
      then show ?thesis using F r 1 todo unfolding fill_ok_def by (auto simp: low_def level_ok_def)
    next
      case 2
      let ?fs = "fs\<lparr>fl_node := Some (p, n')\<rparr>"
      have "fill_ok c m ?fs" using F r 2 todo unfolding fill_ok_def by (auto simp: level_ok_def)
      moreover have "fs' = fill_note (rn_next n' ! ?h) True ?fs" using step cur Some n' 2 by (simp add: fill_step_def)
      moreover have "link_above m (fl_key fs) (rn_next n' ! ?h)" using V'(4) [OF h] 2 by simp
      ultimately show ?thesis using fill_note_ok [of c m ?fs fresh "rn_next n' ! ?h" True] m todo 2
        by (simp add: fill_note_def Let_def)
    next
      case 3
      let ?fs = "fs\<lparr>fl_node := Some (p, n')\<rparr>"
      have "fill_ok c m ?fs" using F r 3 todo unfolding fill_ok_def by (auto simp: level_ok_def)
      moreover have "fs' = fill_note (Some p, False) False ?fs" using step cur Some n' 3 by (simp add: fill_step_def)
      moreover have "link_above m (fl_key fs) (Some p, False)" using V'(1) p(1) 3 by (simp add: link_above_def)
      ultimately show ?thesis using fill_note_ok [of c m ?fs fresh "(Some p, False)" False] m todo
        by (simp add: fill_note_def Let_def)
    qed
  qed
qed

section \<open>Steps\<close>

definition cfg_ok :: "rscfg \<Rightarrow> bool" where
  "cfg_ok c \<longleftrightarrow> 2 \<le> rc_max c \<and> rc_roots c \<noteq> [] \<and> (\<forall>k. rc_root c k \<in> set (rc_roots c)) \<and> rc_del c \<noteq> rc_unl c"

definition roots_ok :: "rscfg \<Rightarrow> rsmem \<Rightarrow> bool" where
  "roots_ok c m \<longleftrightarrow> (\<forall>r \<in> set (rc_roots c). m r \<noteq> [] \<and> key_at m r = rc_minkey c)"

lemma roots_ok_grown: "roots_ok c m \<Longrightarrow> grown m m' \<Longrightarrow> roots_ok c m'"
  unfolding roots_ok_def using grownD(2,3) by metis

text \<open>What a thread knows where it is.\<close>

definition at_key :: "rscfg \<Rightarrow> rsmem \<Rightarrow> int \<Rightarrow> snap \<Rightarrow> bool" where
  "at_key c m k cur \<longleftrightarrow> rc_minkey c < k \<and> snap_ok m cur \<and> rn_key (snd cur) \<le> k"

fun pc_ok :: "rscfg \<Rightarrow> rsmem \<Rightarrow> rs_pc \<Rightarrow> bool" where
  "pc_ok c m (Start op) = (rc_minkey c < op_key op)"
| "pc_ok c m (Find op todo cur) = (at_key c m (op_key op) cur \<and> todo \<le> rc_max c \<and> (todo = 0 \<longrightarrow> link_above m (op_key op) (rn_next (snd cur) ! 0)))"
| "pc_ok c m (Found op cur) = (at_key c m (op_key op) cur \<and> (rn_key (snd cur) \<noteq> op_key op \<longrightarrow> link_above m (op_key op) (rn_next (snd cur) ! 0)))"
| "pc_ok c m (Link op cur new) = (at_key c m (op_key op) cur \<and> rn_key (snd cur) \<noteq> op_key op \<and> m new \<noteq> [] \<and> key_at m new = op_key op)"
| "pc_ok c m (Nonblock op key) = (rc_minkey c < op_key op \<and> rc_minkey c \<le> key)"
| "pc_ok c m (Nb_fill op fs) = (rc_minkey c < op_key op \<and> fill_ok c m fs)"
| "pc_ok c m (H_start b) = (b < length (rc_roots c))"
| "pc_ok c m (H_at b cur) = snap_ok m cur"
| "pc_ok c m (H_look b cur) = (snap_ok m cur \<and> rc_minkey c < rn_key (snd cur))"
| "pc_ok c m (Unlink b p key r) = (m p \<noteq> [] \<and> rc_minkey c < key)"
| "pc_ok c m (U_fill b p r fs) = (m p \<noteq> [] \<and> fill_ok c m fs \<and> rc_minkey c < fl_key fs)"
| "pc_ok c m (U_level b p r todo fs) = (m p \<noteq> [] \<and> fill_ok c m fs \<and> rc_minkey c < fl_key fs \<and> fl_todo fs = 0 \<and> todo \<le> rc_max c)"
| "pc_ok c m (U_phys b p r todo fs) = (m p \<noteq> [] \<and> fill_ok c m fs \<and> rc_minkey c < fl_key fs \<and> fl_todo fs = 0 \<and> 0 < todo \<and> todo \<le> rc_max c)"
| "pc_ok c m (Raise b p key goal) = (m p \<noteq> [] \<and> rc_minkey c < key \<and> goal \<le> rc_max c)"
| "pc_ok c m (R_fill b p goal fs) = (m p \<noteq> [] \<and> fill_ok c m fs \<and> rc_minkey c < fl_key fs \<and> goal \<le> rc_max c)"
| "pc_ok c m (R_level b p goal h fs) = (m p \<noteq> [] \<and> fill_ok c m fs \<and> rc_minkey c < fl_key fs \<and> fl_todo fs = 0 \<and> goal \<le> rc_max c)"
| "pc_ok c m (R_pred b p goal h fs) = (m p \<noteq> [] \<and> fill_ok c m fs \<and> rc_minkey c < fl_key fs \<and> fl_todo fs = 0 \<and> goal \<le> rc_max c \<and> h < goal)"
| "pc_ok c m (H_refresh b p f) = (m p \<noteq> [])"
| "pc_ok c m pc = True"

text \<open>A thread that raises a node its \<open>fill\<close> did not find.\<close>

fun stray :: "rs_pc \<Rightarrow> bool" where
  "stray (R_level b p goal h fs) = (\<not> fl_found fs 0)"
| "stray _ = False"

lemma at_key_grown: "at_key c m k cur \<Longrightarrow> grown m m' \<Longrightarrow> at_key c m' k cur"
  unfolding at_key_def using snap_ok_grown by blast

lemma pc_ok_grown:
  assumes "pc_ok c m pc" "grown m m'"
  shows "pc_ok c m' pc"
  using assms(1) at_key_grown [OF _ assms(2)] fill_ok_grown [OF _ assms(2)] grownD(2,3) [OF assms(2)] snap_ok_grown [OF _ assms(2)]
    link_above_grown [OF _ assms(2)]
  by (cases pc) auto

text \<open>Reading a root, and a round of \<open>fill\<close>.\<close>

lemma root_read:
  assumes "roots_ok c m" "links_ok c fresh m" "r \<in> set (rc_roots c)"
  shows "\<exists>n. read_at m r ver = Some n \<and> snap_ok m (r, n) \<and> rn_key n = rc_minkey c"
proof -
  have "m r \<noteq> []" "key_at m r = rc_minkey c" using assms(1,3) unfolding roots_ok_def by blast+
  moreover from this(1) obtain n where n: "read_at m r ver = Some n" by (simp add: read_at_def)
  ultimately show ?thesis using read_at_version [OF n] version_okD(1) [OF links_okD(1) [OF assms(2)]] by auto
qed

lemma next_read:
  assumes "links_ok c fresh m" "n \<in> set (m a)" "h < rc_max c" "fst (rn_next n ! h) = Some p"
  shows "\<exists>n'. read_at m p ver = Some n' \<and> snap_ok m (p, n') \<and> rn_key n < rn_key n'"
proof -
  have "link_above m (rn_key n) (rn_next n ! h)" by (rule version_okD(4) [OF links_okD(1) [OF assms(1,2)] assms(3)])
  then have p: "m p \<noteq> []" "rn_key n < key_at m p" using assms(4) by (simp_all add: link_above_def)
  then obtain n' where n': "read_at m p ver = Some n'" by (simp add: read_at_def)
  then show ?thesis using p(2) read_at_version [OF n'] version_okD(1) [OF links_okD(1) [OF assms(1)]] by auto
qed

text \<open>The invariant of a step: memory stays well-formed and grows, and the thread knows what it must.\<close>

definition step_ok :: "rscfg \<Rightarrow> nat \<Rightarrow> rsmem \<Rightarrow> rs_res \<Rightarrow> bool" where
  "step_ok c fresh m res \<longleftrightarrow> links_ok c (Suc fresh) (snd res) \<and> grown m (snd res) \<and> pc_ok c (snd res) (fst res)"

lemma step_ok_same: "links_ok c fresh m \<Longrightarrow> pc_ok c m pc \<Longrightarrow> step_ok c fresh m (pc, m)"
  unfolding step_ok_def using links_ok_fresh by simp

lemma step_ok_cas:
  assumes "links_ok c fresh m' \<and> grown m m'" "pc_ok c m pc"
  shows "step_ok c fresh m (pc, m')"
  using assms pc_ok_grown unfolding step_ok_def by (auto intro: links_ok_fresh)

lemma find_step_ok:
  assumes c: "cfg_ok c" and m: "links_ok c fresh m" and pc: "pc_ok c m (Find op todo cur)"
  shows "pc_ok c m (find_step c ver op todo cur m)"
proof -
  obtain a n where cur: "cur = (a, n)" by (cases cur)
  have A: "rc_minkey c < op_key op" "n \<in> set (m a)" "rn_key n \<le> op_key op" "todo \<le> rc_max c"
    "todo = 0 \<Longrightarrow> link_above m (op_key op) (rn_next n ! 0)"
    using pc cur by (auto simp: at_key_def)
  show ?thesis
  proof (cases "todo = 0 \<or> rn_key n = op_key op")
    case True
    then show ?thesis using A cur by (auto simp: find_step_def at_key_def)
  next
    case False
    then have h: "todo - 1 < rc_max c" using A(4) by linarith
    show ?thesis
    proof (cases "fst (rn_next n ! (todo - 1))")
      case None
      then show ?thesis using A False cur by (auto simp: find_step_def at_key_def link_above_def)
    next
      case (Some p)
      from next_read [OF m A(2) h Some] obtain n' where n': "read_at m p ver = Some n'" "snap_ok m (p, n')" "rn_key n < rn_key n'"
        by blast
      have key: "rn_key n' = key_at m p" "m p \<noteq> []" using n'(2) version_okD(1) [OF links_okD(1) [OF m]] by auto
      have up: "link_above m (op_key op) (rn_next n ! 0)" if "op_key op < rn_key n'" "todo - 1 = 0"
        using that Some key by (simp add: link_above_def)
      have minkey: "rc_minkey c \<le> rn_key n" by (rule version_okD(3) [OF links_okD(1) [OF m A(2)]])
      show ?thesis using A False Some n' up minkey cur
        by (auto simp: find_step_def at_key_def)
    qed
  qed
qed

lemma insert_found_ok:
  assumes c: "cfg_ok c" and m: "links_ok c fresh m" and pc: "pc_ok c m (Found op cur)" and level: "level \<le> rc_max c"
  shows "step_ok c fresh m (insert_found c fresh level op value cur m)"
proof -
  obtain a n where cur: "cur = (a, n)" by (cases cur)
  have A: "rc_minkey c < op_key op" "n \<in> set (m a)" "rn_key n \<le> op_key op"
    "rn_key n \<noteq> op_key op \<Longrightarrow> link_above m (op_key op) (rn_next n ! 0)"
    using pc cur by (auto simp: at_key_def)
  show ?thesis
  proof (cases "rn_key n = op_key op")
    case True
    show ?thesis
    proof (cases "rn_value n = rc_del c \<and> rn_value n \<noteq> rc_unl c")
      case False
      then show ?thesis using True cur A(1) by (auto simp: insert_found_def intro: step_ok_same [OF m])
    next
      case del: True
      obtain old m' where cas: "cas_value a (rc_del c) value m = Some (old, m')"
        using A(2) by (cases "m a") (auto simp: cas_value_def)
      note C = step_ok_cas [OF cas_value_ok [OF m cas]]
      have "rc_del c \<noteq> rc_unl c" using c by (simp add: cfg_ok_def)
      then show ?thesis using True del cur cas A(1) C by (simp add: insert_found_def)
    qed
  next
    case False
    let ?n = "(rs_node c (op_key op) value level)\<lparr>rn_next := (rn_next (rs_node c (op_key op) value level))[0 := rn_next n ! 0]\<rparr>"
    have "0 < rc_max c" using c by (simp add: cfg_ok_def)
    then have "links_ok c (Suc fresh) (put_version fresh ?n m) \<and> grown m (put_version fresh ?n m)"
      using A(1) A(4) [OF False] level
      by (intro links_ok_new [OF m]) (auto simp: rs_node_def nth_list_update)
    then show ?thesis using False cur A at_key_grown [of c m "op_key op" cur "put_version fresh ?n m"]
      by (auto simp: insert_found_def step_ok_def Let_def at_key_def put_version_def rs_node_def)
  qed
qed

lemma remove_found_ok:
  assumes m: "links_ok c fresh m" and pc: "pc_ok c m (Found op cur)"
  shows "step_ok c fresh m (remove_found c op cur m)"
proof -
  obtain a n where cur: "cur = (a, n)" by (cases cur)
  have "n \<in> set (m a)" using pc cur by (auto simp: at_key_def)
  then obtain old m' where cas: "cas_value a (rn_value n) (rc_del c) m = Some (old, m')"
    by (cases "m a") (auto simp: cas_value_def)
  show ?thesis using cur cas step_ok_cas [OF cas_value_ok [OF m cas]] step_ok_same [OF m] by (simp add: remove_found_def)
qed

lemma insert_link_ok:
  assumes c: "cfg_ok c" and m: "links_ok c fresh m" and pc: "pc_ok c m (Link op cur new)"
  shows "step_ok c fresh m (insert_link op cur new m)"
proof -
  obtain a n where cur: "cur = (a, n)" by (cases cur)
  have A: "rc_minkey c < op_key op" "n \<in> set (m a)" "rn_key n < op_key op" "m new \<noteq> []" "key_at m new = op_key op"
    using pc cur by (auto simp: at_key_def)
  let ?e = "(fst (rn_next n ! 0), False)"
  obtain old m' where cas: "cas_next a 0 ?e (Some new, False) m = Some (old, m')"
    using A(2) by (cases "m a") (auto simp: cas_next_def)
  have "rn_key n = key_at m a" by (rule version_okD(1) [OF links_okD(1) [OF m A(2)]])
  then have "links_ok c fresh m' \<and> grown m m'" using A c
    by (intro cas_next_ok [OF m cas]) (auto simp: cfg_ok_def link_above_def)
  note C = step_ok_cas [OF this]
  show ?thesis using cur cas C A(1) by (simp add: insert_link_def Let_def)
qed

lemma nonblock_ok:
  assumes c: "cfg_ok c" and m: "links_ok c fresh m" and pc: "pc_ok c m (Nb_fill op fs)" and todo: "fl_todo fs = 0"
  shows "step_ok c fresh m (nonblock_unlink_node c op fs m)"
proof -
  have k: "rc_minkey c < op_key op" and fs: "fill_ok c m fs" using pc by simp_all
  have "0 < rc_max c" using c by (simp add: cfg_ok_def)
  then have L: "level_ok c m fs 0" using fill_okD(7) [OF fs] todo by simp
  show ?thesis
  proof (cases "\<exists>p n. fl_node fs = Some (p, n) \<and> \<not> fl_found fs 1 \<and> fl_found fs 0 \<and> rn_value n = rc_unl c")
    case False
    have "nonblock_unlink_node c op fs m = (Start op, m)"
      using False fill_okD(8) [OF fs todo] by (auto simp: nonblock_unlink_node_def split: option.split)
    moreover have "step_ok c fresh m (Start op, m)" using k by (intro step_ok_same [OF m]) simp
    ultimately show ?thesis by simp
  next
    case True
    then obtain p n where p: "fl_node fs = Some (p, n)" "\<not> fl_found fs 1" "fl_found fs 0" "rn_value n = rc_unl c" by blast
    let ?a = "fl_pred fs 0"
    obtain old m' where cas: "cas_next ?a 0 (Some p, False) (fst (fl_succ fs 0), False) m = Some (old, m')"
      using L by (cases "m ?a") (auto simp: cas_next_def level_ok_def)
    have "link_above m (key_at m ?a) (fst (fl_succ fs 0), False)"
      using L fill_okD(1) [OF fs] by (auto simp: level_ok_def low_def intro: link_above_mono link_above_fst)
    then have "links_ok c fresh m' \<and> grown m m'" using c by (intro cas_next_ok [OF m cas]) (auto simp: cfg_ok_def)
    note C = step_ok_cas [OF this]
    have "rc_minkey c \<le> fl_prev_key fs 0"
      using L version_okD(3) [OF links_okD(1) [OF m, of "hd (m ?a)" ?a]] by (simp add: level_ok_def)
    then show ?thesis using p cas C k by (simp add: nonblock_unlink_node_def)
  qed
qed

lemma helper_look_ok:
  assumes m: "links_ok c fresh m" and pc: "pc_ok c m (H_look b cur)"
  shows "step_ok c fresh m (helper_look c b cur m)"
proof -
  obtain p n where cur: "cur = (p, n)" by (cases cur)
  have A: "n \<in> set (m p)" "rc_minkey c < rn_key n" using pc cur by simp_all
  then have p: "m p \<noteq> []" by auto
  have h: "rn_height n \<le> rc_max c" by (rule version_okD(5) [OF links_okD(1) [OF m A(1)]])
  obtain v m1 where v: "cas_value p (rc_del c) (rc_unl c) m = Some (v, m1)" using p by (cases "m p") (auto simp: cas_value_def)
  obtain l m2 where l: "cas_link_level p 0 1 m = Some (l, m2)" using p by (cases "m p") (auto simp: cas_link_level_def)
  note V = step_ok_cas [OF cas_value_ok [OF m v]] and L = step_ok_cas [OF cas_link_level_ok [OF m l]]
  have "step_ok c fresh m (H_at b cur, m)" using A cur by (intro step_ok_same [OF m]) simp
  then show ?thesis using V L A p h v l cur by (simp add: helper_look_def)
qed

lemma unlink_level_ok:
  assumes c: "cfg_ok c" and m: "links_ok c fresh m" and pc: "pc_ok c m (U_level b p r todo fs)"
  shows "step_ok c fresh m (unlink_level b p r todo fs m)"
proof -
  have A: "m p \<noteq> []" "fill_ok c m fs" "rc_minkey c < fl_key fs" "fl_todo fs = 0" "todo \<le> rc_max c" using pc by simp_all
  note F = fill_okD [OF A(2)]
  let ?h = "todo - 1"
  have S: "step_ok c fresh m (q, m)" if "pc_ok c m q" for q by (rule step_ok_same [OF m that])
  consider "todo = 0" | "0 < todo" "\<not> fl_found fs ?h" | "0 < todo" "fl_found fs ?h" "snd (fl_succ fs ?h)"
    | "0 < todo" "fl_found fs ?h" "\<not> snd (fl_succ fs ?h)" "fl_node fs = None"
    | a n where "0 < todo" "fl_found fs ?h" "\<not> snd (fl_succ fs ?h)" "fl_node fs = Some (a, n)"
    by (cases "fl_node fs") force+
  then show ?thesis
  proof cases
    case (5 a n)
    have h: "?h < rc_max c" using A(5) 5(1) by linarith
    have "n \<in> set (m a)" using F(5) [OF 5(4)] by simp
    then have a: "m a \<noteq> []" by auto
    let ?new = "(fst (fl_succ fs ?h), True)"
    obtain old m' where cas: "cas_next a ?h (fl_succ fs ?h) ?new m = Some (old, m')"
      using a by (cases "m a") (auto simp: cas_next_def)
    have "links_ok c fresh m' \<and> grown m m'"
    proof (cases "rn_next (hd (m a)) ! ?h = fl_succ fs ?h")
      case False
      then show ?thesis using cas a m by (cases "m a") (auto simp: cas_next_def)
    next
      case True
      have "link_above m (key_at m a) (rn_next (hd (m a)) ! ?h)"
        using version_okD(4) [OF links_okD(1) [OF m] h, of "hd (m a)" a] a by simp
      then have "link_above m (key_at m a) ?new" unfolding True by (rule link_above_fst)
      then show ?thesis using cas_next_ok [OF m cas h 5(3)] by blast
    qed
    note C = step_ok_cas [OF this]
    have "pc_ok c m (Unlink b p (fl_key fs) r')" "pc_ok c m (U_phys b p r todo fs)" for r' using A 5(1) by simp_all
    then show ?thesis using 5 cas C by (simp add: unlink_level_def)
  qed (use A S in \<open>simp_all add: unlink_level_def\<close>)
qed

lemma unlink_phys_ok:
  assumes c: "cfg_ok c" and m: "links_ok c fresh m" and pc: "pc_ok c m (U_phys b p r todo fs)"
  shows "step_ok c fresh m (unlink_phys b p r todo fs m)"
proof -
  have A: "m p \<noteq> []" "fill_ok c m fs" "rc_minkey c < fl_key fs" "fl_todo fs = 0" "0 < todo" "todo \<le> rc_max c" using pc by simp_all
  note F = fill_okD [OF A(2)]
  let ?h = "todo - 1" let ?a = "fl_pred fs ?h"
  have h: "?h < rc_max c" using A(5,6) by linarith
  have L: "level_ok c m fs ?h" using F(7) [OF _ h] A(4) by simp
  show ?thesis
  proof (cases "fl_node fs")
    case None
    have "step_ok c fresh m (Aborted, m)" by (rule step_ok_same [OF m]) simp
    then show ?thesis using None by (simp add: unlink_phys_def)
  next
    case (Some x)
    obtain q n where x: "x = (q, n)" by (cases x)
    obtain old m' where cas: "cas_next ?a ?h (Some q, False) (fst (fl_succ fs ?h), False) m = Some (old, m')"
      using L by (cases "m ?a") (auto simp: cas_next_def level_ok_def)
    have "link_above m (key_at m ?a) (fst (fl_succ fs ?h), False)"
      using L A(3) by (auto simp: level_ok_def low_def intro: link_above_mono link_above_fst)
    then have "links_ok c fresh m' \<and> grown m m'" by (intro cas_next_ok [OF m cas h]) auto
    note C = step_ok_cas [OF this]
    have "pc_ok c m (Unlink b p (fl_key fs) r')" "pc_ok c m (U_level b p r (todo - 1) fs)" for r' using A by simp_all
    then show ?thesis using Some x cas C by (simp add: unlink_phys_def)
  qed
qed

lemma raise_level_ok:
  assumes m: "links_ok c fresh m" and pc: "pc_ok c m (R_level b p goal h fs)" and found: "fl_found fs 0"
  shows "step_ok c fresh m (raise_level b p goal h fs m)"
proof -
  have A: "m p \<noteq> []" "fill_ok c m fs" "rc_minkey c < fl_key fs" "fl_todo fs = 0" "goal \<le> rc_max c" using pc by simp_all
  note F = fill_okD [OF A(2)]
  obtain a n where n: "fl_node fs = Some (a, n)" "rn_key n = fl_key fs" using F(8) [OF A(4) found] by auto
  have a: "n \<in> set (m a)" using F(5) [OF n(1)] by simp
  then have ne: "m a \<noteq> []" by auto
  have key: "key_at m a = fl_key fs" using version_okD(1) [OF links_okD(1) [OF m a]] n(2) by simp
  have S: "step_ok c fresh m (q, m)" if "pc_ok c m q" for q by (rule step_ok_same [OF m that])
  consider "goal \<le> h" | "h < goal" "fl_found fs h" | "h < goal" "\<not> fl_found fs h" "snd (rn_next n ! h)"
    | "h < goal" "\<not> fl_found fs h" "\<not> snd (rn_next n ! h)" by linarith
  then show ?thesis
  proof cases
    case 1
    obtain l m' where l: "cas_link_level a 1 goal m = Some (l, m')" using ne by (cases "m a") (auto simp: cas_link_level_def)
    show ?thesis using step_ok_cas [OF cas_link_level_ok [OF m l]] A(1) 1 n(1) l by (simp add: raise_level_def)
  next
    case 4
    then have h: "h < rc_max c" using A(5) by simp
    have L: "level_ok c m fs h" using F(7) [OF _ h] A(4) by simp
    obtain old m' where cas: "cas_next a h (rn_next n ! h) (fl_succ fs h) m = Some (old, m')"
      using ne by (cases "m a") (auto simp: cas_next_def)
    have "links_ok c fresh m' \<and> grown m m'" using L key by (intro cas_next_ok [OF m cas h 4(3)]) (simp add: level_ok_def)
    note C = step_ok_cas [OF this]
    have "pc_ok c m (Raise b p (fl_key fs) goal)" "pc_ok c m (R_pred b p goal h fs)" using A 4 by simp_all
    then show ?thesis using 4 n(1) cas C by (simp add: raise_level_def)
  qed (use A S n(1) in \<open>simp_all add: raise_level_def\<close>)
qed

lemma raise_pred_ok:
  assumes m: "links_ok c fresh m" and pc: "pc_ok c m (R_pred b p goal h fs)"
  shows "step_ok c fresh m (raise_pred b p goal h fs m)"
proof -
  have A: "m p \<noteq> []" "fill_ok c m fs" "rc_minkey c < fl_key fs" "fl_todo fs = 0" "goal \<le> rc_max c" "h < goal" using pc by simp_all
  note F = fill_okD [OF A(2)]
  let ?a = "fl_pred fs h"
  have h: "h < rc_max c" using A(5,6) by linarith
  have L: "level_ok c m fs h" using F(7) [OF _ h] A(4) by simp
  show ?thesis
  proof (cases "fl_node fs")
    case None
    have "step_ok c fresh m (Aborted, m)" by (rule step_ok_same [OF m]) simp
    then show ?thesis using None by (simp add: raise_pred_def)
  next
    case (Some x)
    obtain q n where x: "x = (q, n)" by (cases x)
    have n: "n \<in> set (m q)" "fl_key fs \<le> rn_key n" using F(5,6) Some x by auto
    then have q: "m q \<noteq> []" "fl_key fs \<le> key_at m q" using version_okD(1) [OF links_okD(1) [OF m n(1)]] by auto
    let ?e = "(fst (fl_succ fs h), False)"
    obtain old m' where cas: "cas_next ?a h ?e (Some q, False) m = Some (old, m')"
      using L by (cases "m ?a") (auto simp: cas_next_def level_ok_def)
    have "key_at m ?a < fl_key fs" using L A(3) by (auto simp: level_ok_def low_def)
    then have "links_ok c fresh m' \<and> grown m m'"
      using q by (intro cas_next_ok [OF m cas h]) (auto simp: link_above_def)
    note C = step_ok_cas [OF this]
    have "pc_ok c m (Raise b p (fl_key fs) goal)" "pc_ok c m (R_level b p goal (h + 1) fs)" using A by simp_all
    then show ?thesis using Some x cas C by (simp add: raise_pred_def)
  qed
qed

lemma fill_then_ok:
  assumes m: "links_ok c fresh m" and fs: "fill_ok c m fs" "0 < fl_todo fs"
    and f: "\<And>fs'. fill_ok c m fs' \<Longrightarrow> fl_key fs' = fl_key fs \<Longrightarrow> pc_ok c m (f fs')"
  shows "step_ok c fresh m (fill_then m ver fs f)"
proof (cases "fill_step m ver fs")
  case None
  have "step_ok c fresh m (Aborted, m)" by (rule step_ok_same [OF m]) simp
  then show ?thesis using None by (simp add: fill_then_def)
next
  case (Some fs')
  then show ?thesis using step_ok_same [OF m f] fill_step_ok [OF fs(1) m fs(2) Some] by (simp add: fill_then_def)
qed

lemma root_then_ok:
  assumes c: "cfg_ok c" and m: "links_ok c fresh m" "roots_ok c m"
    and f: "\<And>n. snap_ok m (rc_root c k, n) \<Longrightarrow> rn_key n = rc_minkey c \<Longrightarrow> pc_ok c m (f (rc_root c k, n))"
  shows "step_ok c fresh m (read_then m (rc_root c k) ver f)"
proof -
  have "rc_root c k \<in> set (rc_roots c)" using c by (simp add: cfg_ok_def)
  from root_read [OF m(2,1) this] obtain n where n: "read_at m (rc_root c k) ver = Some n" "snap_ok m (rc_root c k, n)" "rn_key n = rc_minkey c"
    by blast
  from step_ok_same [OF m(1) f [OF n(2,3)]] n(1) show ?thesis by (simp add: read_then_def)
qed

text \<open>Any step of a thread that has not gone astray.\<close>

lemma rs_next_ok:
  assumes c: "cfg_ok c" and m: "links_ok c fresh m" "roots_ok c m" and pc: "pc_ok c m pc" "\<not> stray pc" and level: "level \<le> rc_max c"
  shows "step_ok c fresh m (rs_next c fresh ver level pc m)"
proof (cases pc)
  case (Start op)
  have "rc_max c \<noteq> 0" using c by (simp add: cfg_ok_def)
  then show ?thesis using pc(1) Start by (auto simp: at_key_def intro!: root_then_ok [OF c m])
next
  case (Find op todo cur)
  then show ?thesis using step_ok_same [OF m(1) find_step_ok [OF c m(1), of op todo cur]] pc(1) by simp
next
  case (Found op cur)
  have "step_ok c fresh m (contains_found c op cur m)" by (auto simp: contains_found_def intro: step_ok_same [OF m(1)])
  then show ?thesis
    using Found pc(1) insert_found_ok [OF c m(1) _ level] remove_found_ok [OF m(1)] by (cases op) (simp_all add: op_found_def)
next
  case (Link op cur new)
  then show ?thesis using insert_link_ok [OF c m(1)] pc(1) by simp
next
  case (Nonblock op key)
  then show ?thesis using pc(1) by (auto intro!: root_then_ok [OF c m] fill_start_ok)
next
  case (Nb_fill op fs)
  then show ?thesis using pc(1) nonblock_ok [OF c m(1)] by (auto intro!: fill_then_ok [OF m(1)])
next
  case (H_start b)
  then have "rc_roots c ! b \<in> set (rc_roots c)" using pc(1) by simp
  from root_read [OF m(2,1) this] obtain n where n: "read_at m (rc_roots c ! b) ver = Some n" "snap_ok m (rc_roots c ! b, n)" by blast
  have "step_ok c fresh m (H_at b (rc_roots c ! b, n), m)" by (rule step_ok_same [OF m(1)]) (use n(2) in simp)
  then show ?thesis using n(1) H_start by (simp add: read_then_def)
next
  case (H_at b cur)
  obtain a n where cur: "cur = (a, n)" by (cases cur)
  have n: "n \<in> set (m a)" using pc(1) H_at cur by simp
  have z: "0 < rc_max c" "0 < length (rc_roots c)" using c by (auto simp: cfg_ok_def)
  show ?thesis
  proof (cases "fst (rn_next n ! 0)")
    case None
    have "step_ok c fresh m (H_start ((b + 1) mod length (rc_roots c)), m)" by (rule step_ok_same [OF m(1)]) (use z(2) in simp)
    then show ?thesis using None H_at cur by simp
  next
    case (Some p)
    from next_read [OF m(1) n z(1) Some] obtain n' where n': "read_at m p ver = Some n'" "snap_ok m (p, n')" "rn_key n < rn_key n'" by blast
    have "step_ok c fresh m (H_look b (p, n'), m)"
      by (rule step_ok_same [OF m(1)]) (use n' version_okD(3) [OF links_okD(1) [OF m(1) n]] in simp)
    then show ?thesis using Some H_at cur n'(1) by (simp add: read_then_def)
  qed
next
  case (H_look b cur)
  then show ?thesis using helper_look_ok [OF m(1)] pc(1) by simp
next
  case (Unlink b p key r)
  have "step_ok c fresh m (H_refresh b p True, m)" by (rule step_ok_same [OF m(1)]) (use pc(1) Unlink in simp)
  moreover have "step_ok c fresh m (read_then m (rc_root c key) ver (\<lambda>root. U_fill b p r (fill_start key (rc_max c) root)))"
    using pc(1) Unlink by (auto intro!: root_then_ok [OF c m] fill_start_ok)
  ultimately show ?thesis using Unlink by simp
next
  case (U_fill b p r fs)
  have "step_ok c fresh m (U_level b p r (rc_max c) fs, m)" if "fl_todo fs = 0"
    by (rule step_ok_same [OF m(1)]) (use pc(1) U_fill that in simp)
  moreover have "step_ok c fresh m (fill_then m ver fs (U_fill b p r))" if "fl_todo fs \<noteq> 0"
    by (rule fill_then_ok [OF m(1)]) (use pc(1) U_fill that in simp_all)
  ultimately show ?thesis using U_fill by simp
next
  case (U_level b p r todo fs)
  then show ?thesis using unlink_level_ok [OF c m(1)] pc(1) by simp
next
  case (U_phys b p r todo fs)
  then show ?thesis using unlink_phys_ok [OF c m(1)] pc(1) by simp
next
  case (Raise b p key goal)
  then show ?thesis using pc(1) by (auto intro!: root_then_ok [OF c m] fill_start_ok)
next
  case (R_fill b p goal fs)
  have "step_ok c fresh m (R_level b p goal 0 fs, m)" if "fl_todo fs = 0"
    by (rule step_ok_same [OF m(1)]) (use pc(1) R_fill that in simp)
  moreover have "step_ok c fresh m (fill_then m ver fs (R_fill b p goal))" if "fl_todo fs \<noteq> 0"
    by (rule fill_then_ok [OF m(1)]) (use pc(1) R_fill that in simp_all)
  ultimately show ?thesis using R_fill by simp
next
  case (R_level b p goal h fs)
  then show ?thesis using raise_level_ok [OF m(1)] pc by simp
next
  case (R_pred b p goal h fs)
  then show ?thesis using raise_pred_ok [OF m(1)] pc(1) by simp
next
  case (H_refresh b p f)
  then have "m p \<noteq> []" using pc(1) by simp
  then obtain n where n: "read_at m p ver = Some n" by (simp add: read_at_def)
  have "step_ok c fresh m (H_at b (p, n), m)" by (rule step_ok_same [OF m(1)]) (use read_at_version [OF n] in simp)
  then show ?thesis using n H_refresh by (simp add: read_then_def)
qed (auto intro: step_ok_same [OF m(1)])

end
