(* ===== verification/RdmaSkProps.thy ===== *)
theory RdmaSkProps
  imports RdmaSkInv
begin

text \<open>
  Properties of the RDMA skip list: its links are sorted and marked links frozen in every run; and runs in which
  a helper unlinks a node that nobody removed.
\<close>

declare split_paired_All [simp del] split_paired_Ex [simp del]

section \<open>Runs\<close>

text \<open>Keys are above the root's.\<close>

fun act_ok :: "rscfg \<Rightarrow> rs_act \<Rightarrow> bool" where
  "act_ok c (Call t op) = (rc_minkey c < op_key op)"
| "act_ok c _ = True"

inductive rs_reach :: "rscfg \<Rightarrow> rsk \<Rightarrow> bool" for c where
  init: "rs_reach c (rs_init c)"
| step: "\<lbrakk> rs_reach c s; \<And>t. \<not> stray (rs_pc s t); act_ok c act; rs_step c act s = Some s' \<rbrakk> \<Longrightarrow> rs_reach c s'"

definition sys_ok :: "rscfg \<Rightarrow> rsk \<Rightarrow> bool" where
  "sys_ok c s \<longleftrightarrow> links_ok c (rs_fresh s) (rs_mem s) \<and> roots_ok c (rs_mem s) \<and> (\<forall>t. pc_ok c (rs_mem s) (rs_pc s t))"

lemma sys_ok_init:
  assumes "cfg_ok c" shows "sys_ok c (rs_init c)"
proof -
  have V: "version_ok c (rs_mem (rs_init c)) p (rs_node c (rc_minkey c) 0 0)" if "p \<in> set (rc_roots c)" for p
    using that by (simp add: version_ok_def rs_init_def rs_node_def)
  have "p < Suc (Max (set (rc_roots c)))" if "p \<in> set (rc_roots c)" for p using that by (simp add: le_imp_less_Suc)
  then have "links_ok c (rs_fresh (rs_init c)) (rs_mem (rs_init c))"
    using V unfolding links_ok_def by (auto simp: rs_init_def)
  then show ?thesis by (simp add: sys_ok_def roots_ok_def rs_init_def rs_node_def)
qed

lemma sys_ok_step:
  assumes c: "cfg_ok c" and s: "sys_ok c s" "\<And>t. \<not> stray (rs_pc s t)" and act: "act_ok c act" and step: "rs_step c act s = Some s'"
  shows "sys_ok c s'"
proof -
  have S: "links_ok c (rs_fresh s) (rs_mem s)" "roots_ok c (rs_mem s)" "\<And>t. pc_ok c (rs_mem s) (rs_pc s t)"
    using s(1) unfolding sys_ok_def by blast+
  show ?thesis
  proof (cases act)
    case (Call t op)
    then have "s' = s\<lparr>rs_pc := (rs_pc s)(t := Start op)\<rparr>" using step by (auto simp: rs_step_def split: rs_pc.splits)
    then show ?thesis using S act Call by (simp add: sys_ok_def)
  next
    case (Help t b)
    then have "s' = s\<lparr>rs_pc := (rs_pc s)(t := H_start b)\<rparr>" "b < length (rc_roots c)"
      using step by (auto simp: rs_step_def split: rs_pc.splits if_splits)
    then show ?thesis using S by (simp add: sys_ok_def)
  next
    case (Go t ver level)
    obtain pc m where n: "rs_next c (rs_fresh s) ver level (rs_pc s t) (rs_mem s) = (pc, m)" by fastforce
    have l: "level \<le> rc_max c" and s': "rs_mem s' = m" "rs_fresh s' = Suc (rs_fresh s)" "rs_pc s' = (rs_pc s)(t := pc)"
      using step Go n by (auto simp: rs_step_def split: if_splits)
    have "step_ok c (rs_fresh s) (rs_mem s) (pc, m)" using rs_next_ok [OF c S(1,2,3) s(2) l, where ver = ver] n by metis
    then have N: "links_ok c (Suc (rs_fresh s)) m" "grown (rs_mem s) m" "pc_ok c m pc" by (simp_all add: step_ok_def)
    then show ?thesis using roots_ok_grown [OF S(2) N(2)] pc_ok_grown [OF S(3) N(2)] by (simp add: sys_ok_def s')
  qed
qed

lemma rs_reach_ok: "rs_reach c s \<Longrightarrow> cfg_ok c \<Longrightarrow> sys_ok c s"
  by (induction rule: rs_reach.induct) (blast intro: sys_ok_init sys_ok_step)+


text \<open>Threads that are clients stay clients, and never go astray: every run of clients alone is one of these runs.\<close>

fun client :: "rs_pc \<Rightarrow> bool" where
  "client Idle = True"
| "client (Start _) = True"
| "client (Find _ _ _) = True"
| "client (Found _ _) = True"
| "client (Link _ _ _) = True"
| "client (Nonblock _ _) = True"
| "client (Nb_fill _ _) = True"
| "client (Done _ _) = True"
| "client Aborted = True"
| "client _ = False"

lemma client_next: "client pc \<Longrightarrow> client (fst (rs_next c fresh ver level pc m))"
  by (cases pc) (auto simp: read_then_def fill_then_def find_step_def op_found_def contains_found_def insert_found_def
    remove_found_def insert_link_def nonblock_unlink_node_def Let_def split: option.splits rs_op.splits if_splits prod.splits)

fun client_act :: "rscfg \<Rightarrow> rs_act \<Rightarrow> bool" where
  "client_act c (Help t b) = False"
| "client_act c act = act_ok c act"

lemma client_step:
  assumes "rs_step c act s = Some s'" "client_act c act" "\<And>t. client (rs_pc s t)"
  shows "client (rs_pc s' t) \<and> act_ok c act"
proof (cases act)
  case (Call t' op)
  then show ?thesis using assms by (auto simp: rs_step_def split: rs_pc.splits)
next
  case (Go t' ver level)
  then show ?thesis using assms client_next [OF assms(3), of c "rs_fresh s" ver level t' "rs_mem s"]
    by (auto simp: rs_step_def split: if_splits prod.splits)
qed (use assms in simp)

lemma client_run:
  assumes "rs_reach c s" "\<And>t. client (rs_pc s t)" "rs_run c acts s = Some s'" "\<forall>act \<in> set acts. client_act c act"
  shows "rs_reach c s'"
  using assms
proof (induction acts arbitrary: s)
  case (Cons act acts)
  obtain s1 where s1: "rs_step c act s = Some s1" "rs_run c acts s1 = Some s'" using Cons.prems(3) by (auto split: option.splits)
  have C: "client (rs_pc s1 t) \<and> act_ok c act" for t using client_step [OF s1(1)] Cons.prems(2,4) by simp
  have "\<not> stray (rs_pc s t)" for t using Cons.prems(2) [of t] by (cases "rs_pc s t") simp_all
  then have "rs_reach c s1" using rs_reach.step Cons.prems(1) C s1(1) by blast
  then show ?case using Cons.IH C s1(2) Cons.prems(4) by simp
qed simp

section \<open>Races of the helper\<close>

definition one_list :: rscfg where
  "one_list = \<lparr>rc_max = 2, rc_minkey = 0, rc_del = 1, rc_unl = 2, rc_root = (\<lambda>_. 0), rc_roots = [0], rc_retries = Some 10000, rc_asks = True\<rparr>"

abbreviation goes :: "nat \<Rightarrow> nat \<Rightarrow> nat \<Rightarrow> rs_act list" where
  "goes t level k \<equiv> replicate k (Go t 0 level)"

text \<open>
  Thread 0 inserts 10 and 20; the helper, thread 1, passes; thread 0 removes 10; the helper claims the node and marks it. Then thread 0 inserts
  15, taking the marked node out on its way, and 10. At the end the helper goes on.
\<close>

definition race_start :: "rs_act list" where
  "race_start = Call 0 (Rs_insert 10 100) # goes 0 1 8 @ Call 0 (Rs_insert 20 200) # goes 0 1 8 @ Help 1 0 # goes 1 1 3 @
     Call 0 (Rs_remove 10) # goes 0 1 8 @ goes 1 1 12 @ Call 0 (Rs_insert 15 150) # goes 0 1 24 @ Call 0 (Rs_insert 10 101) # goes 0 1 8"

definition race_end :: "rs_act list" where
  "race_end = goes 1 1 10 @ Call 0 (Rs_contains 10) # goes 0 1 8"

text \<open>The rules that compute a run.\<close>

lemma one_list_simps: "rc_max one_list = 2" "rc_minkey one_list = 0" "rc_del one_list = 1" "rc_unl one_list = 2"
  "rc_root one_list k = 0" "rc_roots one_list = [0]" "rc_retries one_list = Some 10000" "rc_asks one_list"
  by (simp_all add: one_list_def)

lemma init_one_list: "rs_init one_list = \<lparr>rs_mem = (\<lambda>_. [])(0 := [\<lparr>rn_key = 0, rn_value = 0, rn_height = 0,
     rn_link_level = 0, rn_next = [(None, False), (None, False)]\<rparr>]), rs_fresh = 1, rs_limbo = [], rs_pc = (\<lambda>_. Idle)\<rparr>"
  by (auto simp: rs_init_def one_list_simps rs_node_def numeral_2_eq_2)

lemma rs_run_goes: "rs_run c (replicate (numeral k) a) s =
     (case rs_step c a s of None \<Rightarrow> None | Some s' \<Rightarrow> rs_run c (replicate (pred_numeral k) a) s')"
  "rs_run c (replicate (numeral k) a @ as) s =
     (case rs_step c a s of None \<Rightarrow> None | Some s' \<Rightarrow> rs_run c (replicate (pred_numeral k) a @ as) s')"
  by (simp_all add: numeral_eq_Suc)

lemma small_nats: "Suc 0 = 1" "Suc 1 = 2" "replicate 1 a = [a]" "replicate 2 a = [a, a]" by (simp_all add: numeral_2_eq_2)

lemmas run_simps = one_list_simps rs_run_goes list_update_Cons' nth_Cons' small_nats Let_def rs_step_def read_then_def
  fill_then_def read_at_def rs_node_def put_version_def cas_next_def cas_value_def cas_link_level_def fill_start_def
  fill_step_def fill_note_def find_step_def op_found_def contains_found_def insert_found_def remove_found_def
  insert_link_def nonblock_unlink_node_def helper_look_def unlink_level_def unlink_phys_def raise_level_def raise_pred_def

lemma cfg_ok_one_list: "cfg_ok one_list" by (simp add: cfg_ok_def one_list_def)

lemma rs_run_append: "rs_run c (xs @ ys) s = (case rs_run c xs s of None \<Rightarrow> None | Some s' \<Rightarrow> rs_run c ys s')"
  by (induction xs arbitrary: s) (auto split: option.splits)

text \<open>
  C19: A helper can unlink a node that nobody removed. From an empty list there is a run in which the insertion
  of 10 into a list without it succeeds; then nothing happens but steps of the helper and a lookup of 10, which does
  not find it. \<open>unlink_node\<close> looks the node it has claimed up again by its key and takes what it finds.
\<close>

theorem rsk_unlinks_live:
  "\<exists>s s'. rs_run one_list race_start (rs_init one_list) = Some s \<and> rs_pc s 0 = Done (Rs_insert 10 101) None \<and>
     rs_run one_list race_end s = Some s' \<and> rs_pc s' 0 = Done (Rs_contains 10) None"
proof -
  have "\<exists>s. rs_run one_list race_start (rs_init one_list) = Some s \<and> rs_pc s 0 = Done (Rs_insert 10 101) None"
    unfolding init_one_list race_start_def by (simp add: run_simps del: replicate.simps One_nat_def)
  then obtain s where s: "rs_run one_list race_start (rs_init one_list) = Some s" "rs_pc s 0 = Done (Rs_insert 10 101) None"
    by blast
  have "\<exists>s'. rs_run one_list (race_start @ race_end) (rs_init one_list) = Some s' \<and> rs_pc s' 0 = Done (Rs_contains 10) None"
    unfolding init_one_list race_start_def race_end_def by (simp add: run_simps del: replicate.simps One_nat_def)
  then have "\<exists>s'. rs_run one_list race_end s = Some s' \<and> rs_pc s' 0 = Done (Rs_contains 10) None"
    by (simp add: rs_run_append s(1))
  then show ?thesis using s by blast
qed

text \<open>
  One stale read is enough for \<open>raise_node\<close> to link a node to itself. Thread 0 inserts 20 and then 10, with a height of 2; the helper
  claims 10, and the search of \<open>raise_node\<close> for it starts at a copy of the root from before the second insertion. It does not
  meet 10; \<open>fill\<close> returns the node of 20, as the successor and as the node, and \<open>raise_node\<close> sets the link of 20 to 20.
\<close>

definition stray_run :: "rs_act list" where
  "stray_run = Call 0 (Rs_insert 20 200) # goes 0 1 6 @ Call 0 (Rs_insert 10 100) # goes 0 2 6 @
     Help 1 0 # goes 1 1 3 @ [Go 1 1 1] @ goes 1 1 4"

theorem rsk_stray_self_link:
  "\<exists>s q n older. rs_run one_list stray_run (rs_init one_list) = Some s \<and> rs_mem s q = n # older \<and> rn_key n = 20 \<and>
     fst (rn_next n ! 0) = Some q"
  unfolding init_one_list stray_run_def
  by (simp add: run_simps del: replicate.simps One_nat_def) (rule exI [of _ 5], simp)

text \<open>The links of a list of two nodes.\<close>

definition two_nodes :: "rs_act list" where
  "two_nodes = Call 0 (Rs_insert 20 200) # goes 0 1 6 @ Call 1 (Rs_insert 10 100) # goes 1 2 6"


end
