(* ===== verification/RdmaSkLists.thy ===== *)
theory RdmaSkLists
  imports RdmaSkInv
begin

text \<open>
  The bottom lists of the RDMA skip list as a reference sees them: which nodes are linked under a root, the map the
  lists hold, computed by walking them, and what the changes of memory do to both as long as nothing is unlinked.
\<close>

declare split_paired_All [simp del] split_paired_Ex [simp del]

section \<open>Linked nodes\<close>

definition edges :: "rsmem \<Rightarrow> (nat \<times> nat) set" where
  "edges m = {(a, b). m a \<noteq> [] \<and> fst (rn_next (hd (m a)) ! 0) = Some b}"

definition linked :: "rsmem \<Rightarrow> nat \<Rightarrow> nat \<Rightarrow> bool" where
  "linked m r p \<longleftrightarrow> (r, p) \<in> (edges m)\<^sup>*"

lemma linked_refl [simp]: "linked m r r"
  by (simp add: linked_def)

lemma linked_step: "linked m r a \<Longrightarrow> (a, b) \<in> edges m \<Longrightarrow> linked m r b"
  unfolding linked_def by (rule rtrancl_into_rtrancl)

lemma linked_trans: "linked m r a \<Longrightarrow> linked m a b \<Longrightarrow> linked m r b"
  unfolding linked_def by (rule rtrancl_trans)

lemma linked_cases: "linked m a b \<Longrightarrow> a = b \<or> (\<exists>c. (a, c) \<in> edges m \<and> linked m c b)"
  unfolding linked_def by (metis converse_rtranclE)

lemma linked_mono:
  assumes "linked m r p" "\<And>a b. (a, b) \<in> edges m \<Longrightarrow> linked m r a \<Longrightarrow> linked m' a b"
  shows "linked m' r p"
  using assms(1) unfolding linked_def
proof (induction rule: rtrancl_induct)
  case (step a b)
  then have "linked m' a b" using assms(2) by (simp add: linked_def)
  then show ?case using step.IH by (meson rtrancl_trans linked_def)
qed simp

lemma linked_chain: "linked m r a \<Longrightarrow> linked m r b \<Longrightarrow> linked m a b \<or> linked m b a"
  unfolding linked_def by (rule single_valued_confluent) (auto simp: single_valued_def edges_def)

text \<open>Along a list nodes are there and keys grow.\<close>

lemma edge_above:
  assumes "links_ok c fresh m" "0 < rc_max c" "(a, b) \<in> edges m"
  shows "m b \<noteq> []" "key_at m a < key_at m b"
proof -
  have a: "m a \<noteq> []" "fst (rn_next (hd (m a)) ! 0) = Some b" using assms(3) by (simp_all add: edges_def)
  then have "link_above m (rn_key (hd (m a))) (rn_next (hd (m a)) ! 0)"
    using version_okD(4) [OF links_okD(1) [OF assms(1)] assms(2), of "hd (m a)" a] by simp
  then show "m b \<noteq> []" "key_at m a < key_at m b" using a(2) by (simp_all add: link_above_def)
qed

lemma linked_above:
  assumes "links_ok c fresh m" "0 < rc_max c" "linked m a b"
  shows "key_at m a \<le> key_at m b \<and> (a \<noteq> b \<longrightarrow> key_at m a < key_at m b) \<and> (m a \<noteq> [] \<longrightarrow> m b \<noteq> [])"
  using assms(3) unfolding linked_def
proof (induction rule: rtrancl_induct)
  case (step b d)
  then show ?case using edge_above [OF assms(1,2) step.hyps(2)] by force
qed simp

lemma linked_key_unique:
  assumes "links_ok c fresh m" "0 < rc_max c" "linked m r a" "linked m r b" "key_at m a = key_at m b"
  shows "a = b"
  using linked_chain [OF assms(3,4)] linked_above [OF assms(1,2), of a b] linked_above [OF assms(1,2), of b a] assms(5) by force

text \<open>Past a node whose successor is beyond a key there is no node with that key.\<close>

lemma linked_gap:
  assumes m: "links_ok c fresh m" "0 < rc_max c" and a: "linked m r a" "m a \<noteq> []" "key_at m a < k"
    and gap: "link_above m k (rn_next (hd (m a)) ! 0)" and p: "linked m r p" "key_at m p = k"
  shows False
  using linked_chain [OF a(1) p(1)]
proof
  assume "linked m a p"
  then obtain b where b: "(a, b) \<in> edges m" "linked m b p" using linked_cases a(3) p(2) by blast
  have "k < key_at m b" using b(1) gap by (auto simp: edges_def link_above_def)
  then show False using linked_above [OF m b(2)] p(2) by simp
next
  assume "linked m p a"
  then show False using linked_above [OF m] a(3) p(2) by fastforce
qed

section \<open>The map a list holds\<close>

definition value_of :: "rscfg \<Rightarrow> rsnode \<Rightarrow> u64 option" where
  "value_of c n = (if rs_live c n then Some (rn_value n) else None)"

text \<open>What a walk along the bottom list of a key finds for it.\<close>

definition rs_lookup :: "rscfg \<Rightarrow> nat \<Rightarrow> rsmem \<Rightarrow> int \<Rightarrow> u64 option" where
  "rs_lookup c fresh m k = (case find (\<lambda>n. rn_key n = k) (tl (rs_walk fresh m (rc_root c k))) of
     None \<Rightarrow> None | Some n \<Rightarrow> value_of c n)"

lemma rs_walk_set:
  assumes m: "links_ok c fresh m" "0 < rc_max c" and p: "m p \<noteq> []" and k: "card {q. linked m p q} \<le> k"
  shows "set (rs_walk k m p) = (\<lambda>q. hd (m q)) ` {q. linked m p q}"
  using p k
proof (induction k arbitrary: p)
  have fin: "finite {q. linked m p q}" if "m p \<noteq> []" for p
  proof (rule finite_subset)
    show "{q. linked m p q} \<subseteq> {..<fresh}" using linked_above [OF m] that links_okD(3) [OF m(1)] by blast
  qed simp
  {
    case 0
    then show ?case using fin [OF 0(1)] linked_refl [of m p] by force
  next
    case (Suc k)
    obtain n ns where n: "m p = n # ns" using Suc.prems(1) by (cases "m p") auto
    show ?case
    proof (cases "fst (rn_next n ! 0)")
      case None
      then have "{q. linked m p q} = {p}" using n linked_cases by (force simp: edges_def)
      then show ?thesis using n None by simp
    next
      case (Some b)
      then have e: "(p, b) \<in> edges m" using n by (simp add: edges_def)
      have b: "m b \<noteq> []" "key_at m p < key_at m b" using edge_above [OF m e] by auto
      have "b' = b" if "(p, b') \<in> edges m" for b' using that e by (simp add: edges_def)
      then have R: "{q. linked m p q} = insert p {q. linked m b q}"
        using linked_cases [of m p] linked_trans [OF linked_step [OF linked_refl e]] by auto
      have "p \<notin> {q. linked m b q}" using linked_above [OF m, of b p] b(2) by auto
      then have "card {q. linked m b q} \<le> k" using Suc.prems(2) fin [OF b(1)] unfolding R by simp
      then show ?thesis using Suc.IH [OF b(1)] n Some R by simp
    qed
  }
qed

lemma rs_walk_tl_set:
  assumes m: "links_ok c fresh m" "0 < rc_max c" and r: "m r \<noteq> []"
  shows "set (tl (rs_walk fresh m r)) = (\<lambda>q. hd (m q)) ` {q. linked m r q \<and> q \<noteq> r}"
proof -
  have sub: "{q. linked m p q} \<subseteq> {..<fresh}" if "m p \<noteq> []" for p using linked_above [OF m] that links_okD(3) [OF m(1)] by blast
  obtain n ns where n: "m r = n # ns" using r by (cases "m r") auto
  have "0 < fresh" using links_okD(3) [OF m(1)] r by fastforce
  then obtain k where k: "fresh = Suc k" using not0_implies_Suc by blast
  show ?thesis
  proof (cases "fst (rn_next n ! 0)")
    case None
    then have "{q. linked m r q \<and> q \<noteq> r} = {}" using n linked_cases by (force simp: edges_def)
    then show ?thesis using n None k by simp
  next
    case (Some b)
    then have e: "(r, b) \<in> edges m" using n by (simp add: edges_def)
    have b: "m b \<noteq> []" "key_at m r < key_at m b" using edge_above [OF m e] by auto
    have "b' = b" if "(r, b') \<in> edges m" for b' using that e by (simp add: edges_def)
    moreover have nr: "\<not> linked m b r" using linked_above [OF m, of b r] b(2) by auto
    ultimately have R: "{q. linked m r q \<and> q \<noteq> r} = {q. linked m b q}"
      using linked_cases [of m r] linked_trans [OF linked_step [OF linked_refl e]] by blast
    have "{q. linked m b q} \<subseteq> {..<fresh} - {r}" using sub [OF b(1)] nr by blast
    then have "card {q. linked m b q} \<le> card ({..<fresh} - {r})" by (intro card_mono) auto
    also have "\<dots> = k" using links_okD(3) [OF m(1) r] k by simp
    finally show ?thesis using rs_walk_set [OF m b(1)] n Some k R by simp
  qed
qed

lemma find_unique: "x \<in> set xs \<Longrightarrow> P x \<Longrightarrow> (\<And>y. y \<in> set xs \<Longrightarrow> P y \<Longrightarrow> y = x) \<Longrightarrow> find P xs = Some x"
proof (induction xs)
  case (Cons a xs)
  show ?case
  proof (cases "P a")
    case True
    then show ?thesis using Cons.prems(3) [of a] by simp
  next
    case False
    then have "x \<in> set xs" using Cons.prems(1,2) by force
    then show ?thesis using Cons.IH [OF _ Cons.prems(2)] Cons.prems(3) False by simp
  qed
qed simp

text \<open>The node that stands for a key.\<close>

definition stands :: "rscfg \<Rightarrow> rsmem \<Rightarrow> int \<Rightarrow> nat \<Rightarrow> bool" where
  "stands c m k p \<longleftrightarrow> linked m (rc_root c k) p \<and> p \<noteq> rc_root c k \<and> key_at m p = k"

lemma rs_lookup_stands:
  assumes m: "links_ok c fresh m" "0 < rc_max c" and r: "m (rc_root c k) \<noteq> []" and p: "stands c m k p"
  shows "rs_lookup c fresh m k = value_of c (hd (m p))"
proof -
  have P: "linked m (rc_root c k) p" "p \<noteq> rc_root c k" "key_at m p = k" using p by (simp_all add: stands_def)
  have "find (\<lambda>n. rn_key n = k) (tl (rs_walk fresh m (rc_root c k))) = Some (hd (m p))"
  proof (rule find_unique)
    show "hd (m p) \<in> set (tl (rs_walk fresh m (rc_root c k)))" unfolding rs_walk_tl_set [OF m r] using P by blast
    fix n assume n: "n \<in> set (tl (rs_walk fresh m (rc_root c k)))" "rn_key n = k"
    from n(1) obtain q where q: "n = hd (m q)" "linked m (rc_root c k) q" unfolding rs_walk_tl_set [OF m r] by blast
    then have "q = p" using linked_key_unique [OF m q(2) P(1)] n(2) P(3) by simp
    then show "n = hd (m p)" using q(1) by simp
  qed (rule P(3))
  then show ?thesis by (simp add: rs_lookup_def)
qed

lemma rs_lookup_none:
  assumes m: "links_ok c fresh m" "0 < rc_max c" and r: "m (rc_root c k) \<noteq> []" and p: "\<And>p. \<not> stands c m k p"
  shows "rs_lookup c fresh m k = None"
proof -
  have "find (\<lambda>n. rn_key n = k) (tl (rs_walk fresh m (rc_root c k))) = None"
    unfolding find_None_iff rs_walk_tl_set [OF m r] using p by (force simp: stands_def)
  then show ?thesis by (simp add: rs_lookup_def)
qed

lemma rs_lookup_same:
  assumes m: "links_ok c fresh m" "links_ok c fresh' m'" "0 < rc_max c" and r: "m (rc_root c k) \<noteq> []" "m' (rc_root c k) \<noteq> []"
    and p: "\<And>p. stands c m' k p \<longleftrightarrow> stands c m k p" "\<And>p. stands c m k p \<Longrightarrow> value_of c (hd (m' p)) = value_of c (hd (m p))"
  shows "rs_lookup c fresh' m' k = rs_lookup c fresh m k"
proof (cases "\<exists>p. stands c m k p")
  case True
  then obtain p where "stands c m k p" by blast
  then show ?thesis using rs_lookup_stands [OF m(1,3) r(1)] rs_lookup_stands [OF m(2,3) r(2)] p by metis
next
  case False
  then show ?thesis using rs_lookup_none [OF m(1,3) r(1)] rs_lookup_none [OF m(2,3) r(2)] p(1) by metis
qed

section \<open>How the lists change\<close>

text \<open>A thread has seen a version of a node of a list, whose links lead into the list.\<close>

definition seen :: "rscfg \<Rightarrow> rsmem \<Rightarrow> nat \<Rightarrow> snap \<Rightarrow> bool" where
  "seen c m r cur \<longleftrightarrow> linked m r (fst cur) \<and> snd cur \<in> set (m (fst cur)) \<and>
     (\<forall>h < rc_max c. \<forall>q. fst (rn_next (snd cur) ! h) = Some q \<longrightarrow> linked m r q)"

lemma seenD:
  assumes "seen c m r (a, n)"
  shows "linked m r a" "n \<in> set (m a)" "h < rc_max c \<Longrightarrow> fst (rn_next n ! h) = Some q \<Longrightarrow> linked m r q"
  using assms unfolding seen_def by auto

definition lists_ok :: "rscfg \<Rightarrow> rsmem \<Rightarrow> bool" where
  "lists_ok c m \<longleftrightarrow> (\<forall>r \<in> set (rc_roots c). \<forall>p. linked m r p \<longrightarrow>
     (p = r \<or> rc_root c (key_at m p) = r) \<and> seen c m r (p, hd (m p)))"

lemma lists_okD:
  assumes "lists_ok c m" "r \<in> set (rc_roots c)" "linked m r p"
  shows "p = r \<or> rc_root c (key_at m p) = r" "seen c m r (p, hd (m p))" "m p \<noteq> []"
proof -
  show "p = r \<or> rc_root c (key_at m p) = r" and s: "seen c m r (p, hd (m p))" using assms unfolding lists_ok_def by blast+
  show "m p \<noteq> []" using seenD(2) [OF s] by auto
qed

definition unmarked :: "rscfg \<Rightarrow> rsmem \<Rightarrow> bool" where
  "unmarked c m \<longleftrightarrow> (\<forall>p. \<forall>n \<in> set (m p). \<forall>h < rc_max c. \<not> snd (rn_next n ! h))"

definition base :: "rscfg \<Rightarrow> nat \<Rightarrow> rsmem \<Rightarrow> bool" where
  "base c fresh m \<longleftrightarrow> links_ok c fresh m \<and> roots_ok c m \<and> lists_ok c m \<and> unmarked c m \<and> cfg_ok c"

lemma baseD:
  assumes "base c fresh m"
  shows "links_ok c fresh m" "roots_ok c m" "lists_ok c m" "unmarked c m" "cfg_ok c" "0 < rc_max c" "rc_root c k \<in> set (rc_roots c)"
    "r \<in> set (rc_roots c) \<Longrightarrow> m r \<noteq> []" "r \<in> set (rc_roots c) \<Longrightarrow> key_at m r = rc_minkey c"
  using assms by (auto simp: base_def cfg_ok_def roots_ok_def)

lemma linked_one_root:
  assumes b: "base c fresh m" and r: "r \<in> set (rc_roots c)" "r' \<in> set (rc_roots c)" and l: "linked m r p" "linked m r' p"
  shows "r = r'"
proof (rule ccontr)
  assume ne: "r \<noteq> r'"
  note A = linked_above [OF baseD(1,6) [OF b]] and K = baseD(9) [OF b]
  have "\<not> linked m r r'" "\<not> linked m r' r" using A [of r r'] A [of r' r] K [OF r(1)] K [OF r(2)] ne by auto
  then have "p \<noteq> r" "p \<noteq> r'" using l by auto
  then show False using lists_okD(1) [OF baseD(3) [OF b] r(1) l(1)] lists_okD(1) [OF baseD(3) [OF b] r(2) l(2)] ne by simp
qed

lemma seen_mono:
  assumes "seen c m r cur" "grown m m'" "\<And>p. linked m r p \<Longrightarrow> linked m' r p"
  shows "seen c m' r cur"
  using assms grownD(1) [OF assms(2)] unfolding seen_def by blast

text \<open>A new version of a listed node, with the same successor at the bottom.\<close>

lemma edges_touch: "m p \<noteq> [] \<Longrightarrow> fst (rn_next n ! 0) = fst (rn_next (hd (m p)) ! 0) \<Longrightarrow> edges (put_version p n m) = edges m"
  by (auto simp: edges_def put_version_def split: if_splits)

lemma linked_touch: "m p \<noteq> [] \<Longrightarrow> fst (rn_next n ! 0) = fst (rn_next (hd (m p)) ! 0) \<Longrightarrow> linked (put_version p n m) = linked m"
  by (intro ext) (simp add: linked_def edges_touch)

lemma lists_touch:
  assumes b: "base c fresh m" and r: "r \<in> set (rc_roots c)" and p: "linked m r p" and n: "rn_key n = key_at m p"
      "fst (rn_next n ! 0) = fst (rn_next (hd (m p)) ! 0)"
    and up: "\<And>h q. h < rc_max c \<Longrightarrow> fst (rn_next n ! h) = Some q \<Longrightarrow> linked m r q"
  shows "lists_ok c (put_version p n m)"
proof -
  note L = lists_okD [OF baseD(3) [OF b]]
  have ne: "m p \<noteq> []" by (rule L(3) [OF r p])
  note T = linked_touch [of m p n, OF ne n(2)]
  have g: "grown m (put_version p n m)" by (rule grown_put [of m p n, OF ne n(1)])
  show ?thesis unfolding lists_ok_def
  proof (intro ballI allI impI)
    fix r' q assume r': "r' \<in> set (rc_roots c)" and "linked (put_version p n m) r' q"
    then have q: "linked m r' q" by (simp add: T)
    have "q = r' \<or> rc_root c (key_at (put_version p n m) q) = r'"
      using L(1) [OF r' q] n(1) by (auto simp: put_version_def)
    moreover have "seen c (put_version p n m) r' (q, hd (put_version p n m q))"
    proof (cases "q = p")
      case True
      then have "r' = r" using linked_one_root [OF b r' r] q p by simp
      then show ?thesis using True p up by (simp add: seen_def T) (simp add: put_version_def)
    next
      case False
      then show ?thesis using seen_mono [OF L(2) [OF r' q] g] by (simp add: T) (simp add: put_version_def)
    qed
    ultimately show "(q = r' \<or> rc_root c (key_at (put_version p n m) q) = r') \<and>
        seen c (put_version p n m) r' (q, hd (put_version p n m q))" ..
  qed
qed

text \<open>A node is written that no link leads to yet.\<close>

lemma linked_new:
  assumes b: "base c fresh m" and r: "r \<in> set (rc_roots c)"
  shows "linked (put_version fresh n m) r p \<longleftrightarrow> linked m r p"
proof
  have f: "m fresh = []" by (rule links_okD(4) [OF baseD(1) [OF b]])
  have e: "(a, b) \<in> edges (put_version fresh n m) \<longleftrightarrow> (a, b) \<in> edges m" if "a \<noteq> fresh" for a b
    using that by (simp add: edges_def put_version_def)
  assume "linked (put_version fresh n m) r p"
  then have "linked m r p \<and> p \<noteq> fresh" unfolding linked_def [of "put_version fresh n m"]
  proof (induction rule: rtrancl_induct)
    case base
    then show ?case using baseD(8) [OF b r] f by auto
  next
    case (step x y)
    then have "linked m r y" using e linked_step by blast
    then show ?case using lists_okD(3) [OF baseD(3) [OF b] r] f by fastforce
  qed
  then show "linked m r p" ..
next
  have f: "m fresh = []" by (rule links_okD(4) [OF baseD(1) [OF b]])
  assume p: "linked m r p"
  then show "linked (put_version fresh n m) r p"
  proof (rule linked_mono)
    fix x y assume "(x, y) \<in> edges m"
    then have "(x, y) \<in> edges (put_version fresh n m)" using f by (auto simp: edges_def put_version_def)
    then show "linked (put_version fresh n m) x y" using linked_step linked_refl by blast
  qed
qed

lemma lists_new:
  assumes b: "base c fresh m"
  shows "lists_ok c (put_version fresh n m)"
proof -
  have f: "m fresh = []" by (rule links_okD(4) [OF baseD(1) [OF b]])
  note L = lists_okD [OF baseD(3) [OF b]]
  show ?thesis unfolding lists_ok_def
  proof (intro ballI allI impI)
    fix r q assume r: "r \<in> set (rc_roots c)" and "linked (put_version fresh n m) r q"
    then have q: "linked m r q" by (simp add: linked_new [OF b])
    then have "q \<noteq> fresh" using L(3) [OF r] f by auto
    then show "(q = r \<or> rc_root c (key_at (put_version fresh n m) q) = r) \<and>
        seen c (put_version fresh n m) r (q, hd (put_version fresh n m q))"
      using L(1,2) [OF r q] by (simp add: seen_def linked_new [OF b r]) (simp add: put_version_def)
  qed
qed

text \<open>A written node is linked behind its predecessor.\<close>

lemma insert_edges:
  assumes "m a = na # ns" "rn_next na \<noteq> []"
  shows "edges (put_version a (na\<lparr>rn_next := (rn_next na)[0 := (Some new, f)]\<rparr>) m) = {(x, y) \<in> edges m. x \<noteq> a} \<union> {(a, new)}"
  using assms by (auto simp: edges_def put_version_def split: if_splits)

lemma linked_insert:
  assumes b: "base c fresh m" and r: "r \<in> set (rc_roots c)" and a: "linked m r a" "m a = na # ns"
    and new: "m new = [n]" "fst (rn_next n ! 0) = fst (rn_next na ! 0)" "\<And>r. r \<in> set (rc_roots c) \<Longrightarrow> \<not> linked m r new"
    and r': "r' \<in> set (rc_roots c)"
  shows "linked (put_version a (na\<lparr>rn_next := (rn_next na)[0 := (Some new, f)]\<rparr>) m) r' p \<longleftrightarrow> linked m r' p \<or> r' = r \<and> p = new"
    (is "linked ?m r' p \<longleftrightarrow> _")
proof
  have "length (rn_next na) = rc_max c" using version_okD(2) [OF links_okD(1) [OF baseD(1) [OF b], of na a]] a(2) by simp
  then have "rn_next na \<noteq> []" using baseD(6) [OF b] by auto
  note E = insert_edges [of m a na ns new f, OF a(2) this]
  have ne: "new \<noteq> a" using new(3) [OF r] a(1) by auto
  assume "linked ?m r' p"
  then show "linked m r' p \<or> r' = r \<and> p = new" unfolding linked_def [of ?m]
  proof (induction rule: rtrancl_induct)
    case (step x y)
    consider "x = a" "y = new" | "x \<noteq> a" "(x, y) \<in> edges m" using step.hyps(2) unfolding E by blast
    then show ?case
    proof cases
      case 1
      then have "linked m r' a" using step.IH ne by auto
      then show ?thesis using 1(2) linked_one_root [OF b r' r _ a(1)] by blast
    next
      case 2
      show ?thesis using step.IH
      proof
        assume "linked m r' x"
        then show ?thesis using linked_step 2(2) by blast
      next
        assume x: "r' = r \<and> x = new"
        then have "(a, y) \<in> edges m" using 2(2) new(1,2) a(2) by (simp add: edges_def)
        then show ?thesis using linked_step [OF a(1)] x by blast
      qed
    qed
  qed simp
next
  have "length (rn_next na) = rc_max c" using version_okD(2) [OF links_okD(1) [OF baseD(1) [OF b], of na a]] a(2) by simp
  then have "rn_next na \<noteq> []" using baseD(6) [OF b] by auto
  note E = insert_edges [of m a na ns new f, OF a(2) this]
  have ne: "new \<noteq> a" using new(3) [OF r] a(1) by auto
  have mono: "linked ?m r' q" if "linked m r' q" for r' q using that
  proof (rule linked_mono)
    fix x y assume e: "(x, y) \<in> edges m"
    show "linked ?m x y"
    proof (cases "x = a")
      case True
      then have "(new, y) \<in> edges m" using e new(1,2) a(2) by (simp add: edges_def)
      then have "(new, y) \<in> edges ?m" "(a, new) \<in> edges ?m" unfolding E using ne by blast+
      then show ?thesis using linked_step [OF linked_step [OF linked_refl]] True by blast
    next
      case False
      then have "(x, y) \<in> edges ?m" unfolding E using e by blast
      then show ?thesis using linked_step [OF linked_refl] by blast
    qed
  qed
  assume "linked m r' p \<or> r' = r \<and> p = new"
  then show "linked ?m r' p"
  proof
    assume "r' = r \<and> p = new"
    moreover have "(a, new) \<in> edges ?m" unfolding E by blast
    ultimately show ?thesis using linked_step [OF mono [OF a(1)]] by blast
  qed (rule mono)
qed

lemma lists_insert:
  assumes b: "base c fresh m" and r: "r \<in> set (rc_roots c)" and a: "linked m r a" "m a = na # ns"
    and new: "m new = [n]" "fst (rn_next n ! 0) = fst (rn_next na ! 0)" "\<And>r. r \<in> set (rc_roots c) \<Longrightarrow> \<not> linked m r new"
      "rc_root c (rn_key n) = r" "\<And>h. 0 < h \<Longrightarrow> h < rc_max c \<Longrightarrow> fst (rn_next n ! h) = None"
  shows "lists_ok c (put_version a (na\<lparr>rn_next := (rn_next na)[0 := (Some new, f)]\<rparr>) m)" (is "lists_ok c ?m")
proof -
  note L = lists_okD [OF baseD(3) [OF b]]
  have I: "linked ?m r' p \<longleftrightarrow> linked m r' p \<or> r' = r \<and> p = new" if "r' \<in> set (rc_roots c)" for r' p
    by (rule linked_insert [OF b r a new(1,2) _ that]) (rule new(3))
  have ne: "new \<noteq> a" using new(3) [OF r] a(1) by auto
  have len: "length (rn_next na) = rc_max c" using version_okD(2) [OF links_okD(1) [OF baseD(1) [OF b], of na a]] a(2) by simp
  have key: "key_at ?m q = key_at m q" for q using a(2) by (simp add: put_version_def)
  show ?thesis unfolding lists_ok_def
  proof (intro ballI allI impI)
    fix r' q assume r': "r' \<in> set (rc_roots c)" and "linked ?m r' q"
    then consider (old) "linked m r' q" | (new) "r' = r" "q = new" using I [OF r'] by blast
    then show "(q = r' \<or> rc_root c (key_at ?m q) = r') \<and> seen c ?m r' (q, hd (?m q))"
    proof cases
      case old
      have S: "seen c m r' (q, hd (m q))" by (rule L(2) [OF r' old])
      have "seen c ?m r' (q, hd (?m q))"
      proof (cases "q = a")
        case True
        have "r' = r" using linked_one_root [OF b r' r] old a(1) True by blast
        then show ?thesis unfolding seen_def
        proof (intro conjI allI impI)
          fix h y assume h: "h < rc_max c" and y: "fst (rn_next (snd (q, hd (?m q))) ! h) = Some y"
          then have "y = new \<or> linked m r' y"
            using seenD(3) [OF S h] True a(2) len by (cases "h = 0") (auto simp: put_version_def)
          then show "linked ?m r' y" unfolding I [OF r'] using \<open>r' = r\<close> by blast
        next
          show "linked ?m r' (fst (q, hd (?m q)))" unfolding I [OF r'] using old by simp
          show "snd (q, hd (?m q)) \<in> set (?m (fst (q, hd (?m q))))" using True by (simp add: put_version_def)
        qed
      next
        case False
        then show ?thesis using S by (simp add: seen_def I [OF r']) (simp add: put_version_def)
      qed
      then show ?thesis using L(1) [OF r' old] key by simp
    next
      case new
      have "(a, y) \<in> edges m" if "fst (rn_next n ! 0) = Some y" for y using that new(2) assms(6) a(2) by (simp add: edges_def)
      then have "linked m r y" if "fst (rn_next n ! h) = Some y" "h < rc_max c" for h y
        using that assms(9) [of h] linked_step [OF a(1)] by (cases "h = 0") auto
      then have "seen c ?m r' (q, hd (?m q))"
        unfolding seen_def I [OF r'] using new assms(5) ne by (auto simp: put_version_def)
      then show ?thesis using new assms(5,8) key by simp
    qed
  qed
qed

section \<open>What the changes do to the map\<close>

lemma lookup_touch:
  assumes b: "base c fresh m" "links_ok c fresh' (put_version p n m)" and p: "linked m (rc_root c k) p" "p \<noteq> rc_root c k" "key_at m p = k"
    and n: "rn_key n = k" "fst (rn_next n ! 0) = fst (rn_next (hd (m p)) ! 0)"
  shows "rs_lookup c fresh' (put_version p n m) = (rs_lookup c fresh m)(k := value_of c n)"
proof
  fix j
  note B = baseD [OF b(1)]
  have ne: "m p \<noteq> []" using lists_okD(3) [OF B(3,7) p(1)] .
  note T = linked_touch [of m p n, OF ne n(2)]
  have key: "key_at (put_version p n m) q = key_at m q" for q using n(1) p(3) by (simp add: put_version_def)
  then have S: "stands c (put_version p n m) i q \<longleftrightarrow> stands c m i q" for i q by (simp add: stands_def T)
  have R: "m (rc_root c i) \<noteq> []" "put_version p n m (rc_root c i) \<noteq> []" for i
    using B(8) [OF B(7)] by (simp_all add: put_version_def)
  show "rs_lookup c fresh' (put_version p n m) j = ((rs_lookup c fresh m)(k := value_of c n)) j"
  proof (cases "j = k")
    case True
    have "stands c (put_version p n m) k p" using p by (simp add: S) (simp add: stands_def)
    from rs_lookup_stands [OF b(2) B(6) R(2) this] True show ?thesis by (simp add: put_version_def)
  next
    case False
    have "rs_lookup c fresh' (put_version p n m) j = rs_lookup c fresh m j"
    proof (rule rs_lookup_same [OF B(1) b(2) B(6) R S])
      fix q assume "stands c m j q"
      then have "q \<noteq> p" using False p(3) by (auto simp: stands_def)
      then show "value_of c (hd (put_version p n m q)) = value_of c (hd (m q))" by (simp add: put_version_def)
    qed
    then show ?thesis using False by simp
  qed
qed

lemma lookup_touch_same:
  assumes b: "base c fresh m" "links_ok c fresh' (put_version p n m)" and p: "r \<in> set (rc_roots c)" "linked m r p"
    and n: "rn_key n = key_at m p" "fst (rn_next n ! 0) = fst (rn_next (hd (m p)) ! 0)" "value_of c n = value_of c (hd (m p))"
  shows "rs_lookup c fresh' (put_version p n m) = rs_lookup c fresh m"
proof
  fix j
  note B = baseD [OF b(1)]
  have ne: "m p \<noteq> []" using lists_okD(3) [OF B(3) p] .
  note T = linked_touch [of m p n, OF ne n(2)]
  have "key_at (put_version p n m) q = key_at m q" for q using n(1) by (simp add: put_version_def)
  then show "rs_lookup c fresh' (put_version p n m) j = rs_lookup c fresh m j"
    using B(8) [OF B(7)] n(3) by (intro rs_lookup_same [OF B(1) b(2) B(6)]) (simp_all add: stands_def T, simp_all add: put_version_def)
qed

lemma lookup_new:
  assumes b: "base c fresh m" "links_ok c fresh' (put_version fresh n m)"
  shows "rs_lookup c fresh' (put_version fresh n m) = rs_lookup c fresh m"
proof
  fix j
  note B = baseD [OF b(1)]
  have f: "m fresh = []" by (rule links_okD(4) [OF B(1)])
  have nf: "linked m (rc_root c j) q \<Longrightarrow> q \<noteq> fresh" for q using lists_okD(3) [OF B(3,7)] f by blast
  then have S: "stands c (put_version fresh n m) j q \<longleftrightarrow> stands c m j q" for q
    unfolding stands_def linked_new [OF b(1) B(7)] by (auto simp: put_version_def)
  show "rs_lookup c fresh' (put_version fresh n m) j = rs_lookup c fresh m j"
  proof (rule rs_lookup_same [OF B(1) b(2) B(6) _ _ S])
    fix q assume "stands c m j q"
    then have "q \<noteq> fresh" using nf by (simp add: stands_def)
    then show "value_of c (hd (put_version fresh n m q)) = value_of c (hd (m q))" by (simp add: put_version_def)
  qed (use B(8) [OF B(7)] in \<open>simp_all add: put_version_def\<close>)
qed

lemma lookup_insert:
  assumes b: "base c fresh m" and a: "linked m (rc_root c k) a" "m a = na # ns" "rn_key na < k"
    and new: "m new = [n]" "fst (rn_next n ! 0) = fst (rn_next na ! 0)" "\<And>r. r \<in> set (rc_roots c) \<Longrightarrow> \<not> linked m r new" "rn_key n = k"
    and ok: "links_ok c fresh' (put_version a (na\<lparr>rn_next := (rn_next na)[0 := (Some new, f)]\<rparr>) m)" (is "links_ok c fresh' ?m")
  shows "rs_lookup c fresh m k = None \<and> rs_lookup c fresh' ?m = (rs_lookup c fresh m)(k := value_of c n)"
proof
  note B = baseD [OF b]
  have "version_ok c m new n" using links_okD(1) [OF B(1)] new(1) by simp
  then have "link_above m k (rn_next na ! 0)" using version_okD(4) [OF _ B(6)] new(2,4) by (metis link_above_def)
  then have gap: "\<not> stands c m k p" for p
    using linked_gap [OF B(1,6) a(1), of k p] a(2,3) by (auto simp: stands_def)
  show none: "rs_lookup c fresh m k = None" by (rule rs_lookup_none [OF B(1,6) B(8) [OF B(7)] gap])
  have I: "linked ?m r' p \<longleftrightarrow> linked m r' p \<or> r' = rc_root c k \<and> p = new" if "r' \<in> set (rc_roots c)" for r' p
    by (rule linked_insert [OF b B(7) a(1,2) new(1,2) _ that]) (rule new(3))
  have ne: "new \<noteq> a" using new(3) [OF B(7)] a(1) by auto
  have key: "key_at ?m q = key_at m q" for q using a(2) by (simp add: put_version_def)
  have nr: "new \<noteq> rc_root c i" for i using new(3) [OF B(7)] linked_refl by metis
  have R: "?m (rc_root c i) \<noteq> []" for i using B(8) [OF B(7)] by (simp add: put_version_def)
  show "rs_lookup c fresh' ?m = (rs_lookup c fresh m)(k := value_of c n)"
  proof
    fix j
    show "rs_lookup c fresh' ?m j = ((rs_lookup c fresh m)(k := value_of c n)) j"
    proof (cases "j = k")
      case True
      have "linked ?m (rc_root c k) new" unfolding I [OF B(7)] by simp
      then have "stands c ?m k new" using nr [of k] key [of new] new(1,4) by (simp add: stands_def)
      moreover have "?m new = [n]" using new(1) ne by (simp add: put_version_def)
      ultimately show ?thesis using rs_lookup_stands [OF ok B(6) R] True by simp
    next
      case False
      have "stands c ?m j q \<longleftrightarrow> stands c m j q" for q
        unfolding stands_def I [OF B(7)] key using False new(1,4) by auto
      moreover have "value_of c (hd (?m q)) = value_of c (hd (m q))" for q using a(2) by (simp add: put_version_def value_of_def rs_live_def)
      ultimately have "rs_lookup c fresh' ?m j = rs_lookup c fresh m j"
        by (intro rs_lookup_same [OF B(1) ok B(6) B(8) [OF B(7)] R]) blast+
      then show ?thesis using False by simp
    qed
  qed
qed

end
