(* ===== verification/RdmaSkLin.thy ===== *)
theory RdmaSkLin
  imports RdmaSkProps RdmaSkLists
begin

text \<open>
  The RDMA skip list is linearizable while no node is unlinked: any number of clients and of helpers that raise nodes, every
  read current. What a step changes of the map is what the operation it completes announces, and a result that is not announced by a change is
  one the map had during the operation.
\<close>

declare split_paired_All [simp del] split_paired_Ex [simp del]

section \<open>What a thread knows\<close>

text \<open>A version of a node, read during an operation on a key, and the values the key has had during it.\<close>

definition just :: "rscfg \<Rightarrow> rsmem \<Rightarrow> u64 option set \<Rightarrow> int \<Rightarrow> snap \<Rightarrow> bool" where
  "just c m obs k cur \<longleftrightarrow>
     (rn_key (snd cur) = k \<longrightarrow> value_of c (snd cur) \<in> obs \<and>
        (rs_live c (snd cur) \<longrightarrow> rn_value (hd (m (fst cur))) = rn_value (snd cur) \<or> None \<in> obs)) \<and>
     (rn_key (snd cur) < k \<longrightarrow> link_above m k (rn_next (snd cur) ! 0) \<longrightarrow> None \<in> obs)"

fun val_ok :: "rscfg \<Rightarrow> rs_op \<Rightarrow> bool" where
  "val_ok c (Rs_insert _ v) = (v \<noteq> rc_del c \<and> v \<noteq> rc_unl c)"
| "val_ok c _ = True"

text \<open>A written node that is not linked yet.\<close>

definition ready :: "rscfg \<Rightarrow> rsmem \<Rightarrow> rs_op \<Rightarrow> snap \<Rightarrow> nat \<Rightarrow> bool" where
  "ready c m op cur new \<longleftrightarrow> (\<forall>r \<in> set (rc_roots c). \<not> linked m r new) \<and>
     (\<exists>n v. op = Rs_insert (rn_key n) v \<and> m new = [n] \<and> rn_value n = v \<and> fst (rn_next n ! 0) = fst (rn_next (snd cur) ! 0) \<and>
        (\<forall>h. 0 < h \<longrightarrow> h < rc_max c \<longrightarrow> fst (rn_next n ! h) = None))"

text \<open>A helper that raises a linked node.\<close>

definition raising :: "rscfg \<Rightarrow> rsmem \<Rightarrow> nat \<Rightarrow> int \<Rightarrow> bool" where
  "raising c m p key \<longleftrightarrow> linked m (rc_root c key) p \<and> key_at m p = key \<and> p \<noteq> rc_root c key"

definition filling :: "rscfg \<Rightarrow> rsmem \<Rightarrow> fillst \<Rightarrow> bool" where
  "filling c m fs \<longleftrightarrow> seen c m (rc_root c (fl_key fs)) (fl_cur fs) \<and> rn_key (snd (fl_cur fs)) < fl_key fs \<and>
     (\<exists>q. fst (rn_next (snd (fl_cur fs)) ! 0) = Some q \<and> key_at m q \<le> fl_key fs) \<and>
     (\<forall>cur. fl_node fs = Some cur \<longrightarrow> seen c m (rc_root c (fl_key fs)) cur) \<and>
     (\<forall>h. fl_todo fs \<le> h \<longrightarrow> h < rc_max c \<longrightarrow> linked m (rc_root c (fl_key fs)) (fl_pred fs h) \<and>
        (\<forall>q. fst (fl_succ fs h) = Some q \<longrightarrow> linked m (rc_root c (fl_key fs)) q)) \<and>
     (fl_todo fs = 0 \<longrightarrow> fl_found fs 0)"

fun lin_pc :: "rscfg \<Rightarrow> rsmem \<Rightarrow> u64 option set \<Rightarrow> rs_pc \<Rightarrow> bool" where
  "lin_pc c m obs (Start op) = val_ok c op"
| "lin_pc c m obs (Find op todo cur) = (val_ok c op \<and> seen c m (rc_root c (op_key op)) cur \<and> just c m obs (op_key op) cur)"
| "lin_pc c m obs (Found op cur) = (val_ok c op \<and> seen c m (rc_root c (op_key op)) cur \<and> just c m obs (op_key op) cur)"
| "lin_pc c m obs (Link op cur new) = (val_ok c op \<and> seen c m (rc_root c (op_key op)) cur \<and> ready c m op cur new)"
| "lin_pc c m obs (Nonblock op key) = False"
| "lin_pc c m obs (Nb_fill op fs) = False"
| "lin_pc c m obs (H_at b cur) = (\<exists>r \<in> set (rc_roots c). seen c m r cur)"
| "lin_pc c m obs (H_look b cur) = (\<exists>r \<in> set (rc_roots c). seen c m r cur)"
| "lin_pc c m obs (U_fill b p r fs) = False"
| "lin_pc c m obs (U_level b p r todo fs) = False"
| "lin_pc c m obs (U_phys b p r todo fs) = False"
| "lin_pc c m obs (Raise b p key goal) = raising c m p key"
| "lin_pc c m obs (R_fill b p goal fs) = (raising c m p (fl_key fs) \<and> filling c m fs)"
| "lin_pc c m obs (R_level b p goal h fs) = (raising c m p (fl_key fs) \<and> filling c m fs \<and> fl_todo fs = 0)"
| "lin_pc c m obs (R_pred b p goal h fs) = (raising c m p (fl_key fs) \<and> filling c m fs \<and> fl_todo fs = 0 \<and> 0 < h)"
| "lin_pc c m obs (H_refresh b p f) = (\<exists>r \<in> set (rc_roots c). linked m r p)"
| "lin_pc c m obs pc = True"

fun pc_key :: "rs_pc \<Rightarrow> int option" where
  "pc_key (Start op) = Some (op_key op)"
| "pc_key (Find op _ _) = Some (op_key op)"
| "pc_key (Found op _) = Some (op_key op)"
| "pc_key (Link op _ _) = Some (op_key op)"
| "pc_key _ = None"

text \<open>The node a thread is about to link.\<close>

fun pc_new :: "rs_pc \<Rightarrow> nat option" where
  "pc_new (Link _ _ new) = Some new"
| "pc_new _ = None"

section \<open>What a step does\<close>

text \<open>
  What another thread, which holds one node unlinked at most, can rely on: nodes stay listed, nodes that are not listed stay as they are, and a
  value only changes by way of the sentinel.
\<close>

definition frame :: "rscfg \<Rightarrow> nat option \<Rightarrow> rsmem \<Rightarrow> rsmem \<Rightarrow> bool" where
  "frame c own m m' \<longleftrightarrow> grown m m' \<and> (\<forall>r \<in> set (rc_roots c). \<forall>p. linked m r p \<longrightarrow> linked m' r p) \<and>
     (\<forall>q. m q \<noteq> [] \<longrightarrow> own \<noteq> Some q \<longrightarrow> (\<forall>r \<in> set (rc_roots c). \<not> linked m r q) \<longrightarrow>
        m' q = m q \<and> (\<forall>r \<in> set (rc_roots c). \<not> linked m' r q)) \<and>
     (\<forall>p. m p \<noteq> [] \<longrightarrow> rn_value (hd (m' p)) = rn_value (hd (m p)) \<or> \<not> rs_live c (hd (m p)) \<or> \<not> rs_live c (hd (m' p)))"

lemma frameD:
  assumes "frame c own m m'"
  shows "grown m m'" "r \<in> set (rc_roots c) \<Longrightarrow> linked m r p \<Longrightarrow> linked m' r p"
    "m q \<noteq> [] \<Longrightarrow> own \<noteq> Some q \<Longrightarrow> \<forall>r \<in> set (rc_roots c). \<not> linked m r q \<Longrightarrow> m' q = m q \<and> (\<forall>r \<in> set (rc_roots c). \<not> linked m' r q)"
    "m p \<noteq> [] \<Longrightarrow> rn_value (hd (m' p)) = rn_value (hd (m p)) \<or> \<not> rs_live c (hd (m p)) \<or> \<not> rs_live c (hd (m' p))"
  using assms unfolding frame_def by blast+

lemma frame_refl [simp]: "frame c own m m"
  by (simp add: frame_def)

text \<open>What the result of an operation announces: the map before and after the step, and the values of the key so far.\<close>

fun answers :: "rs_op \<Rightarrow> u64 option \<Rightarrow> (int \<Rightarrow> u64 option) \<Rightarrow> (int \<Rightarrow> u64 option) \<Rightarrow> u64 option set \<Rightarrow> bool" where
  "answers (Rs_contains k) r M M' obs \<longleftrightarrow> M' = M \<and> r \<in> obs"
| "answers (Rs_insert k v) r M M' obs \<longleftrightarrow>
     r = None \<and> M k = None \<and> M' = M(k := Some v) \<or> r \<noteq> None \<and> r \<in> obs \<and> M' = M"
| "answers (Rs_remove k) r M M' obs \<longleftrightarrow>
     r \<noteq> None \<and> M k = r \<and> M' = M(k := None) \<or> r = None \<and> None \<in> obs \<and> M' = M"

text \<open>A step of a thread: where it is afterwards, and what it has announced.\<close>

definition lin_ok :: "rscfg \<Rightarrow> nat \<Rightarrow> u64 option set \<Rightarrow> rs_pc \<Rightarrow> rsmem \<Rightarrow> rs_res \<Rightarrow> bool" where
  "lin_ok c fresh obs pc m res \<longleftrightarrow> (case res of (pc', m') \<Rightarrow>
     base c (Suc fresh) m' \<and> frame c (pc_new pc) m m' \<and> lin_pc c m' obs pc' \<and>
     (\<forall>k. pc_key pc' = Some k \<longrightarrow> pc_key pc = Some k) \<and> (\<forall>q. pc_new pc' = Some q \<longrightarrow> q = fresh) \<and>
     (if \<exists>op r. pc' = Done op r then \<forall>op r. pc' = Done op r \<longrightarrow> answers op r (rs_lookup c fresh m) (rs_lookup c (Suc fresh) m') obs
      else rs_lookup c (Suc fresh) m' = rs_lookup c fresh m))"

section \<open>Changes of memory\<close>

lemma lookup_fresh:
  assumes b: "base c fresh m"
  shows "rs_lookup c (Suc fresh) m = rs_lookup c fresh m"
proof
  fix k
  note B = baseD [OF b]
  have "links_ok c (Suc fresh) m" by (rule links_ok_fresh [OF B(1)]) simp
  then show "rs_lookup c (Suc fresh) m k = rs_lookup c fresh m k"
    using B(8) [OF B(7)] by (intro rs_lookup_same [OF B(1) _ B(6)]) simp_all
qed

lemma base_fresh: "base c fresh m \<Longrightarrow> base c (Suc fresh) m"
  unfolding base_def using links_ok_fresh [of c fresh m "Suc fresh"] by simp

text \<open>A new version of a listed node.\<close>

lemma touch_ok:
  assumes b: "base c fresh m" and r: "r \<in> set (rc_roots c)" and p: "linked m r p" "m p = na # ns" and n: "rn_key n = rn_key na"
    and links: "\<And>h. h < rc_max c \<Longrightarrow> rn_next n ! h = rn_next na ! h \<or>
        0 < h \<and> \<not> snd (rn_next n ! h) \<and> (\<forall>q. fst (rn_next n ! h) = Some q \<longrightarrow> linked m r q)"
    and v: "rn_value n = rn_value na \<or> \<not> rs_live c na \<or> \<not> rs_live c n" and ok: "links_ok c (Suc fresh) (put_version p n m)"
  shows "base c (Suc fresh) (put_version p n m) \<and> frame c own m (put_version p n m)"
proof
  note B = baseD [OF b]
  have n0: "rn_key n = key_at m p" "fst (rn_next n ! 0) = fst (rn_next (hd (m p)) ! 0)" using n p(2) links [OF B(6)] by auto
  have ne: "m p \<noteq> []" using p(2) by simp
  have g: "grown m (put_version p n m)" by (rule grown_put [of m p n, OF ne n0(1)])
  note T = linked_touch [of m p n, OF ne n0(2)]
  note S = lists_okD(2) [OF B(3) r p(1)]
  have up: "linked m r q" if "h < rc_max c" "fst (rn_next n ! h) = Some q" for h q
    using links [OF that(1)] seenD(3) [OF S that(1)] that(2) p(2) by auto
  have old: "\<not> snd (rn_next n' ! h)" if "n' \<in> set (m q)" "h < rc_max c" for n' q h
    using B(4) that unfolding unmarked_def by blast
  have "\<not> snd (rn_next n ! h)" if "h < rc_max c" for h using links [OF that] old [of na p h] that p(2) by auto
  then have "unmarked c (put_version p n m)" using old unfolding unmarked_def by (auto simp: put_version_def)
  then show "base c (Suc fresh) (put_version p n m)"
    using B(5) ok roots_ok_grown [OF B(2) g] lists_touch [OF b r p(1) n0 up] by (simp add: base_def)
  have nl: "\<forall>r \<in> set (rc_roots c). \<not> linked m r q \<Longrightarrow> q \<noteq> p" for q using r p(1) by blast
  then have "put_version p n m q = m q" if "\<forall>r \<in> set (rc_roots c). \<not> linked m r q" for q
    using that by (simp add: put_version_def)
  then show "frame c own m (put_version p n m)" unfolding frame_def T using g v p(2) by (auto simp: put_version_def)
qed

lemma new_ok:
  assumes b: "base c fresh m" and n: "\<And>h. h < rc_max c \<Longrightarrow> \<not> snd (rn_next n ! h)" and ok: "links_ok c (Suc fresh) (put_version fresh n m)"
  shows "base c (Suc fresh) (put_version fresh n m) \<and> frame c own m (put_version fresh n m)"
proof
  note B = baseD [OF b]
  have f: "m fresh = []" by (rule links_okD(4) [OF B(1)])
  then have g: "grown m (put_version fresh n m)" by (auto simp: grown_def put_version_def)
  have "unmarked c (put_version fresh n m)" using B(4) n unfolding unmarked_def by (auto simp: put_version_def)
  then show "base c (Suc fresh) (put_version fresh n m)"
    using B(5) ok roots_ok_grown [OF B(2) g] lists_new [OF b] by (simp add: base_def)
  have "put_version fresh n m q = m q" if "m q \<noteq> []" for q using that f by (auto simp: put_version_def)
  then show "frame c own m (put_version fresh n m)" unfolding frame_def using g linked_new [OF b] by simp
qed

lemma linking_ok:
  assumes b: "base c fresh m" and a: "linked m (rc_root c k) a" "m a = na # ns"
    and new: "m new = [n]" "fst (rn_next n ! 0) = fst (rn_next na ! 0)" "\<forall>r \<in> set (rc_roots c). \<not> linked m r new"
      "rn_key n = k" "\<forall>h. 0 < h \<longrightarrow> h < rc_max c \<longrightarrow> fst (rn_next n ! h) = None"
    and ok: "links_ok c (Suc fresh) (put_version a (na\<lparr>rn_next := (rn_next na)[0 := (Some new, False)]\<rparr>) m)"
      (is "links_ok c _ ?m")
  shows "base c (Suc fresh) ?m \<and> frame c (Some new) m ?m"
proof
  note B = baseD [OF b]
  have I: "linked ?m r p \<longleftrightarrow> linked m r p \<or> r = rc_root c k \<and> p = new" if "r \<in> set (rc_roots c)" for r p
    by (rule linked_insert [OF b B(7) a new(1,2) _ that]) (use new(3) in blast)
  have ne: "m a \<noteq> []" "rn_key (na\<lparr>rn_next := (rn_next na)[0 := (Some new, False)]\<rparr>) = key_at m a" using a(2) by simp_all
  have g: "grown m ?m" by (rule grown_put [of m a "na\<lparr>rn_next := (rn_next na)[0 := (Some new, False)]\<rparr>", OF ne])
  have "lists_ok c ?m"
    by (rule lists_insert [OF b B(7) a new(1,2)]) (use new(3-5) in auto)
  moreover have "unmarked c ?m" unfolding unmarked_def
  proof (intro allI ballI impI)
    fix q n' h assume q: "n' \<in> set (?m q)" and h: "h < rc_max c"
    have old: "\<not> snd (rn_next n'' ! h)" if "n'' \<in> set (m q)" for n'' q using B(4) that h unfolding unmarked_def by blast
    have len: "length (rn_next na) = rc_max c" using version_okD(2) [OF links_okD(1) [OF B(1), of na a]] a(2) by simp
    show "\<not> snd (rn_next n' ! h)"
      using q old [of n' q] old [of na a] a(2) len h by (cases "h = 0") (auto simp: put_version_def split: if_splits)
  qed
  ultimately show "base c (Suc fresh) ?m" using B(5) ok roots_ok_grown [OF B(2) g] by (simp add: base_def)
  have "?m q = m q \<and> (\<forall>r \<in> set (rc_roots c). \<not> linked ?m r q)" if "\<forall>r \<in> set (rc_roots c). \<not> linked m r q" "Some new \<noteq> Some q" for q
  proof -
    have "q \<noteq> a" using that(1) B(7) a(1) by blast
    then show ?thesis using that I by (simp add: put_version_def)
  qed
  moreover have "rn_value (hd (?m p)) = rn_value (hd (m p))" for p using a(2) by (simp add: put_version_def)
  ultimately show "frame c (Some new) m ?m" unfolding frame_def using g I by blast
qed

section \<open>Steps that read\<close>

lemma lin_same:
  assumes "base c fresh m" "lin_pc c m obs pc'" "\<And>k. pc_key pc' = Some k \<Longrightarrow> pc_key pc = Some k" "pc_new pc' = None" "\<And>op r. pc' \<noteq> Done op r"
  shows "lin_ok c fresh obs pc m (pc', m)"
  using assms base_fresh lookup_fresh [OF assms(1)] by (simp add: lin_ok_def)

lemma lin_answer:
  assumes "base c fresh m" "answers op r (rs_lookup c fresh m) (rs_lookup c fresh m) obs"
  shows "lin_ok c fresh obs pc m (Done op r, m)"
  using assms base_fresh lookup_fresh [OF assms(1)] by (simp add: lin_ok_def)

text \<open>What a read of a listed node tells.\<close>

lemma read_current: "m p \<noteq> [] \<Longrightarrow> read_at m p 0 = Some (hd (m p))"
  by (cases "m p") (simp_all add: read_at_def)

lemma read_listed:
  assumes b: "base c fresh m" and r: "r \<in> set (rc_roots c)" and p: "linked m r p"
  shows "read_at m p 0 = Some (hd (m p))" "seen c m r (p, hd (m p))"
proof -
  note L = lists_okD [OF baseD(3) [OF b] r p]
  show "read_at m p 0 = Some (hd (m p))" by (rule read_current) (rule L(3))
  show "seen c m r (p, hd (m p))" by (rule L(2))
qed

lemma read_just:
  assumes b: "base c fresh m" and p: "linked m (rc_root c k) p" and k: "rc_minkey c < k" "rs_lookup c fresh m k \<in> obs"
  shows "just c m obs k (p, hd (m p))"
proof -
  note B = baseD [OF b]
  have ne: "m p \<noteq> []" by (rule lists_okD(3) [OF B(3,7) p])
  have "value_of c (hd (m p)) \<in> obs" if "key_at m p = k"
  proof -
    have "p \<noteq> rc_root c k" using that k(1) B(9) [OF B(7) [of k]] by auto
    then have "stands c m k p" using p that by (simp add: stands_def)
    from rs_lookup_stands [OF B(1,6) B(8) [OF B(7)] this] k(2) show ?thesis by simp
  qed
  moreover have "None \<in> obs" if "key_at m p < k" "link_above m k (rn_next (hd (m p)) ! 0)"
  proof -
    have "\<not> stands c m k q" for q using linked_gap [OF B(1,6) p ne that, of q] by (auto simp: stands_def)
    from rs_lookup_none [OF B(1,6) B(8) [OF B(7)] this] k(2) show ?thesis by simp
  qed
  ultimately show ?thesis by (simp add: just_def)
qed

lemma read_near:
  assumes b: "base c fresh m" and r: "r \<in> set (rc_roots c)" and a: "linked m r a" "key_at m a < k" and p: "linked m r p" "key_at m p = k"
  shows "\<exists>q. fst (rn_next (hd (m a)) ! 0) = Some q \<and> key_at m q \<le> k"
proof -
  note B = baseD [OF b]
  have ne: "m a \<noteq> []" by (rule lists_okD(3) [OF B(3) r a(1)])
  have "\<not> link_above m k (rn_next (hd (m a)) ! 0)" using linked_gap [OF B(1,6) a(1) ne a(2) _ p] by blast
  then obtain q where q: "fst (rn_next (hd (m a)) ! 0) = Some q" "m q \<noteq> [] \<longrightarrow> key_at m q \<le> k" by (force simp: link_above_def)
  have "(a, q) \<in> edges m" using q(1) ne by (simp add: edges_def)
  from edge_above(1) [OF B(1,6) this] show ?thesis using q by blast
qed

section \<open>Steps of a client\<close>

lemma lin_start:
  assumes b: "base c fresh m" and op: "val_ok c op" "rc_minkey c < op_key op" "rs_lookup c fresh m (op_key op) \<in> obs"
  shows "lin_ok c fresh obs (Start op) m (read_then m (rc_root c (op_key op)) 0 (Find op (rc_max c)))"
proof -
  note R = read_listed [OF b baseD(7) [OF b] linked_refl, of "op_key op"]
  have "lin_ok c fresh obs (Start op) m (Find op (rc_max c) (rc_root c (op_key op), hd (m (rc_root c (op_key op)))), m)"
    using op R(2) read_just [OF b linked_refl op(2,3)] by (intro lin_same [OF b]) simp_all
  then show ?thesis by (simp add: read_then_def R(1))
qed

lemma lin_find:
  assumes b: "base c fresh m" and pc: "lin_pc c m obs (Find op todo cur)" "pc_ok c m (Find op todo cur)"
    and k: "rs_lookup c fresh m (op_key op) \<in> obs"
  shows "lin_ok c fresh obs (Find op todo cur) m (find_step c 0 op todo cur m, m)"
proof -
  note B = baseD [OF b]
  obtain a n where cur: "cur = (a, n)" by (cases cur)
  let ?r = "rc_root c (op_key op)"
  have A: "val_ok c op" "seen c m ?r (a, n)" "just c m obs (op_key op) (a, n)" "rc_minkey c < op_key op" "todo \<le> rc_max c"
    using pc cur by (simp_all add: at_key_def)
  have S: "lin_ok c fresh obs (Find op todo cur) m (pc', m)" if "pc' = Found op (a, n) \<or> (\<exists>t. pc' = Find op t (a, n))" for pc'
    using that A by (intro lin_same [OF b]) auto
  show ?thesis
  proof (cases "todo = 0 \<or> rn_key n = op_key op")
    case True
    then show ?thesis using S cur by (simp add: find_step_def)
  next
    case False
    then have h: "todo - 1 < rc_max c" using A(5) by linarith
    show ?thesis
    proof (cases "fst (rn_next n ! (todo - 1))")
      case None
      then show ?thesis using False S cur by (auto simp: find_step_def)
    next
      case (Some p)
      have p: "linked m ?r p" by (rule seenD(3) [OF A(2) h Some])
      note R = read_listed [OF b B(7) p]
      have "\<not> snd (rn_next n ! 0)" using B(4,6) seenD(2) [OF A(2)] unfolding unmarked_def by blast
      moreover have "lin_ok c fresh obs (Find op todo cur) m (Find op todo (p, hd (m p)), m)"
        using A(1) R(2) read_just [OF b p A(4) k] by (intro lin_same [OF b]) simp_all
      ultimately show ?thesis using False Some R(1) S cur by (auto simp: find_step_def)
    qed
  qed
qed

lemma lin_contains:
  assumes b: "base c fresh m" and pc: "lin_pc c m obs (Found (Rs_contains k) cur)" "pc_ok c m (Found (Rs_contains k) cur)"
  shows "lin_ok c fresh obs (Found (Rs_contains k) cur) m (contains_found c (Rs_contains k) cur m)"
proof -
  obtain a n where cur: "cur = (a, n)" by (cases cur)
  have J: "just c m obs k (a, n)" "rn_key n \<le> k" "rn_key n \<noteq> k \<Longrightarrow> link_above m k (rn_next n ! 0)"
    using pc cur by (simp_all add: at_key_def)
  then have "rn_key n = k \<Longrightarrow> value_of c n \<in> obs" "rn_key n \<noteq> k \<Longrightarrow> None \<in> obs" by (simp_all add: just_def)
  then show ?thesis using lin_answer [OF b, of "Rs_contains k"] cur
    by (cases "rn_key n = k") (auto simp: contains_found_def value_of_def rs_live_def)
qed

text \<open>A change of the value of the node that stands for a key.\<close>

lemma lin_value:
  assumes b: "base c fresh m" and a: "linked m (rc_root c k) a" "m a = na # ns" "rn_key na = k" "rc_minkey c < k"
    and v: "rs_live c na \<longrightarrow> v = rc_del c" and ok: "links_ok c (Suc fresh) (put_version a (na\<lparr>rn_value := v\<rparr>) m)"
  shows "base c (Suc fresh) (put_version a (na\<lparr>rn_value := v\<rparr>) m) \<and> frame c own m (put_version a (na\<lparr>rn_value := v\<rparr>) m) \<and>
    rs_lookup c (Suc fresh) (put_version a (na\<lparr>rn_value := v\<rparr>) m) = (rs_lookup c fresh m)(k := value_of c (na\<lparr>rn_value := v\<rparr>))"
proof -
  note B = baseD [OF b]
  have "a \<noteq> rc_root c k" using B(9) [OF B(7) [of k]] a(2-4) by auto
  then show ?thesis using touch_ok [OF b B(7) a(1,2) _ _ _ ok] lookup_touch [OF b ok a(1)] a v by (auto simp: rs_live_def)
qed

lemma lookup_node:
  assumes b: "base c fresh m" and a: "linked m (rc_root c k) a" "m a = na # ns" "rn_key na = k" "rc_minkey c < k"
  shows "rs_lookup c fresh m k = value_of c na"
proof -
  note B = baseD [OF b]
  have "a \<noteq> rc_root c k" using B(9) [OF B(7) [of k]] a(2-4) by auto
  then have "stands c m k a" using a by (simp add: stands_def)
  from rs_lookup_stands [OF B(1,6) B(8) [OF B(7)] this] show ?thesis using a(2) by simp
qed

text \<open>The node a client has found, as it is now.\<close>

lemma found_now:
  assumes b: "base c fresh m" and pc: "lin_pc c m obs (Found op (a, n))" "pc_ok c m (Found op (a, n))"
  obtains na ns where "linked m (rc_root c (op_key op)) a" "m a = na # ns" "rn_key na = rn_key n"
proof -
  have s: "seen c m (rc_root c (op_key op)) (a, n)" using pc by simp
  obtain na ns where na: "m a = na # ns" using seenD(2) [OF s] by (cases "m a") auto
  have "rn_key n = key_at m a" by (rule version_okD(1) [OF links_okD(1) [OF baseD(1) [OF b] seenD(2) [OF s]]])
  then show ?thesis using that [OF seenD(1) [OF s] na] na by simp
qed

lemma lin_remove:
  assumes b: "base c fresh m" and pc: "lin_pc c m obs (Found (Rs_remove k) cur)" "pc_ok c m (Found (Rs_remove k) cur)"
    and ok: "step_ok c fresh m (remove_found c (Rs_remove k) cur m)"
  shows "lin_ok c fresh obs (Found (Rs_remove k) cur) m (remove_found c (Rs_remove k) cur m)"
proof -
  obtain a n where cur: "cur = (a, n)" by (cases cur)
  have A: "just c m obs k (a, n)" "rc_minkey c < k" "rn_key n \<noteq> k \<Longrightarrow> link_above m k (rn_next n ! 0)" "rn_key n \<le> k"
    using pc cur by (simp_all add: at_key_def)
  have none: "lin_ok c fresh obs (Found (Rs_remove k) cur) m (Done (Rs_remove k) None, m)" if "None \<in> obs"
    using that by (intro lin_answer [OF b]) simp
  obtain na ns where na: "linked m (rc_root c k) a" "m a = na # ns" "rn_key na = rn_key n"
    using found_now [OF b] pc cur by (metis op_key.simps(3))
  consider "rn_key n \<noteq> k" | "rn_key n = k" "\<not> rs_live c n" | "rn_key n = k" "rs_live c n" "rn_value na \<noteq> rn_value n"
    | "rn_key n = k" "rs_live c n" "rn_value na = rn_value n" by blast
  then show ?thesis
  proof cases
    case 1
    then show ?thesis using none A cur by (simp add: remove_found_def just_def)
  next
    case 2
    then show ?thesis using none A(1) cur by (auto simp: remove_found_def just_def value_of_def rs_live_def)
  next
    case 3
    then show ?thesis using none A(1) cur na(2) by (auto simp: remove_found_def just_def rs_live_def cas_value_def)
  next
    case 4
    let ?m = "put_version a (na\<lparr>rn_value := rc_del c\<rparr>) m"
    have res: "remove_found c (Rs_remove k) cur m = (Done (Rs_remove k) (Some (rn_value n)), ?m)"
      using 4 cur na(2) by (simp add: remove_found_def cas_value_def rs_live_def)
    have "links_ok c (Suc fresh) ?m" using ok unfolding res by (simp add: step_ok_def)
    from lin_value [OF b na(1,2) _ A(2) _ this] 4 na(3)
    have V: "base c (Suc fresh) ?m" "frame c own m ?m" "rs_lookup c (Suc fresh) ?m = (rs_lookup c fresh m)(k := None)" for own
      by (simp_all add: value_of_def rs_live_def)
    have "rs_lookup c fresh m k = Some (rn_value n)"
      using lookup_node [OF b na(1,2) _ A(2)] 4 na(3) by (simp add: value_of_def rs_live_def)
    then show ?thesis using V unfolding res by (simp add: lin_ok_def)
  qed
qed

lemma lin_insert:
  assumes b: "base c fresh m" and pc: "lin_pc c m obs (Found (Rs_insert k v) cur)" "pc_ok c m (Found (Rs_insert k v) cur)"
    and k: "rs_lookup c fresh m k \<in> obs" and ok: "step_ok c fresh m (insert_found c fresh level (Rs_insert k v) v cur m)"
  shows "lin_ok c fresh obs (Found (Rs_insert k v) cur) m (insert_found c fresh level (Rs_insert k v) v cur m)"
proof -
  note B = baseD [OF b]
  let ?op = "Rs_insert k v"
  obtain a n where cur: "cur = (a, n)" by (cases cur)
  have A: "just c m obs k (a, n)" "rc_minkey c < k" "v \<noteq> rc_del c" "v \<noteq> rc_unl c" "seen c m (rc_root c k) (a, n)"
    using pc cur by (simp_all add: at_key_def)
  have start: "lin_ok c fresh obs (Found ?op cur) m (Start ?op, m)" using A by (intro lin_same [OF b]) simp_all
  have some: "lin_ok c fresh obs (Found ?op cur) m (Done ?op (Some w), m)" if "Some w \<in> obs" for w
    using that by (intro lin_answer [OF b]) simp
  obtain na ns where na: "linked m (rc_root c k) a" "m a = na # ns" "rn_key na = rn_key n"
    using found_now [OF b] pc cur by (metis op_key.simps(2))
  have len: "length (rn_next n) = rc_max c"
    by (rule version_okD(2) [OF links_okD(1) [OF B(1) seenD(2) [OF A(5)]]])
  consider (new) "rn_key n \<noteq> k" | (unl) "rn_key n = k" "rn_value n = rc_unl c"
    | (there) "rn_key n = k" "rs_live c n"
    | (del) "rn_key n = k" "rn_value n = rc_del c" "rc_del c \<noteq> rc_unl c" unfolding rs_live_def by metis
  then show ?thesis
  proof cases
    case new
    let ?n = "(rs_node c k v level)\<lparr>rn_next := (rn_next (rs_node c k v level))[0 := rn_next n ! 0]\<rparr>"
    have res: "insert_found c fresh level ?op v cur m = (Link ?op cur fresh, put_version fresh ?n m)"
      using new cur by (simp add: insert_found_def Let_def)
    have l: "links_ok c (Suc fresh) (put_version fresh ?n m)" using ok unfolding res by (simp add: step_ok_def)
    have N: "rn_next ?n ! 0 = rn_next n ! 0" "0 < h \<Longrightarrow> h < rc_max c \<Longrightarrow> rn_next ?n ! h = (None, False)" for h
      using B(6) by (simp_all add: rs_node_def)
    have "\<not> snd (rn_next n ! 0)" using B(4,6) seenD(2) [OF A(5)] unfolding unmarked_def by blast
    then have "\<not> snd (rn_next ?n ! h)" if "h < rc_max c" for h using N that by (cases "h = 0") auto
    from new_ok [OF b this l] have M: "base c (Suc fresh) (put_version fresh ?n m)" "frame c own m (put_version fresh ?n m)" for own by simp_all
    have f: "m fresh = []" by (rule links_okD(4) [OF B(1)])
    have "\<not> linked m r fresh" if "r \<in> set (rc_roots c)" for r using lists_okD(3) [OF B(3) that] f by blast
    then have "ready c (put_version fresh ?n m) ?op cur fresh"
      using N f cur unfolding ready_def by (simp add: linked_new [OF b]) (simp add: put_version_def rs_node_def)
    moreover have "seen c (put_version fresh ?n m) (rc_root c k) cur"
      using seen_mono [OF A(5) frameD(1) [OF M(2)]] linked_new [OF b B(7)] cur by blast
    ultimately show ?thesis using M A lookup_new [OF b l] unfolding res by (simp add: lin_ok_def)
  next
    case unl
    then show ?thesis using start cur by (simp add: insert_found_def)
  next
    case there
    then show ?thesis using some A(1) cur by (simp add: insert_found_def just_def value_of_def rs_live_def)
  next
    case del
    show ?thesis
    proof (cases "rn_value na = rc_del c")
      case False
      have "rs_lookup c fresh m k = value_of c na" using lookup_node [OF b na(1,2) _ A(2)] del na(3) by simp
      then have "Some (rn_value na) \<in> obs" if "rn_value na \<noteq> rc_unl c" using k that False by (simp add: value_of_def rs_live_def)
      then show ?thesis using start some False del cur na(2) by (simp add: insert_found_def cas_value_def)
    next
      case True
      let ?m = "put_version a (na\<lparr>rn_value := v\<rparr>) m"
      have res: "insert_found c fresh level ?op v cur m = (Done ?op None, ?m)"
        using True del cur na(2) by (simp add: insert_found_def cas_value_def)
      have "links_ok c (Suc fresh) ?m" using ok unfolding res by (simp add: step_ok_def)
      from lin_value [OF b na(1,2) _ A(2) _ this] True del na(3)
      have V: "base c (Suc fresh) ?m" "frame c own m ?m" "rs_lookup c (Suc fresh) ?m = (rs_lookup c fresh m)(k := Some v)" for own
        using A by (simp_all add: value_of_def rs_live_def)
      have "rs_lookup c fresh m k = None"
        using lookup_node [OF b na(1,2) _ A(2)] True del na(3) by (simp add: value_of_def rs_live_def)
      then show ?thesis using V unfolding res by (simp add: lin_ok_def)
    qed
  qed
qed

lemma lin_link:
  assumes b: "base c fresh m" and pc: "lin_pc c m obs (Link op cur new)" "pc_ok c m (Link op cur new)"
    and ok: "step_ok c fresh m (insert_link op cur new m)"
  shows "lin_ok c fresh obs (Link op cur new) m (insert_link op cur new m)"
proof -
  note B = baseD [OF b]
  obtain a n0 where cur: "cur = (a, n0)" by (cases cur)
  have R: "val_ok c op" "seen c m (rc_root c (op_key op)) (a, n0)" "ready c m op (a, n0) new" "rn_key n0 < op_key op"
    using pc cur by (simp_all add: at_key_def)
  obtain n v where n: "op = Rs_insert (rn_key n) v" "m new = [n]" "rn_value n = v" "fst (rn_next n ! 0) = fst (rn_next n0 ! 0)"
      "\<forall>h. 0 < h \<longrightarrow> h < rc_max c \<longrightarrow> fst (rn_next n ! h) = None" and nl: "\<forall>r \<in> set (rc_roots c). \<not> linked m r new"
    using R(3) by (auto simp: ready_def)
  obtain na ns where na: "m a = na # ns" using seenD(2) [OF R(2)] by (cases "m a") auto
  have key: "rn_key na < rn_key n"
    using version_okD(1) [OF links_okD(1) [OF B(1) seenD(2) [OF R(2)]]] R(4) n(1) na by simp
  have a: "linked m (rc_root c (rn_key n)) a" using seenD(1) [OF R(2)] n(1) by simp
  show ?thesis
  proof (cases "rn_next na ! 0 = (fst (rn_next n0 ! 0), False)")
    case False
    have "lin_ok c fresh obs (Link op cur new) m (Start op, m)" using R(1) by (intro lin_same [OF b]) simp_all
    then show ?thesis using False cur na by (simp add: insert_link_def Let_def cas_next_def)
  next
    case True
    let ?m = "put_version a (na\<lparr>rn_next := (rn_next na)[0 := (Some new, False)]\<rparr>) m"
    have res: "insert_link op cur new m = (Done op None, ?m)"
      using True cur na by (simp add: insert_link_def Let_def cas_next_def)
    have l: "links_ok c (Suc fresh) ?m" using ok unfolding res by (simp add: step_ok_def)
    have e: "fst (rn_next n ! 0) = fst (rn_next na ! 0)" using True n(4) by simp
    have M: "base c (Suc fresh) ?m \<and> frame c (Some new) m ?m"
      by (rule linking_ok [OF b a na n(2) e nl refl n(5) l])
    have "value_of c n = Some v" using R(1) n(1,3) by (simp add: value_of_def rs_live_def)
    moreover have "rs_lookup c fresh m (rn_key n) = None \<and> rs_lookup c (Suc fresh) ?m = (rs_lookup c fresh m)(rn_key n := value_of c n)"
      by (rule lookup_insert [OF b a na key n(2) e _ refl l]) (use nl in blast)
    ultimately show ?thesis using M n(1) unfolding res by (simp add: lin_ok_def)
  qed
qed

section \<open>Steps of a helper\<close>

text \<open>The helper's threads are in no operation.\<close>

fun helping :: "rs_pc \<Rightarrow> bool" where
  "helping (H_start _) = True"
| "helping (H_at _ _) = True"
| "helping (H_look _ _) = True"
| "helping (Unlink _ _ _ _) = True"
| "helping (Raise _ _ _ _) = True"
| "helping (R_fill _ _ _ _) = True"
| "helping (R_level _ _ _ _ _) = True"
| "helping (R_pred _ _ _ _ _) = True"
| "helping (H_refresh _ _ _) = True"
| "helping Aborted = True"
| "helping _ = False"

lemma helpingD: "helping pc \<Longrightarrow> pc_key pc = None \<and> pc_new pc = None \<and> (\<forall>op r. pc \<noteq> Done op r)"
  by (cases pc) simp_all

lemma lin_help: "base c fresh m \<Longrightarrow> lin_pc c m obs pc' \<Longrightarrow> helping pc' \<Longrightarrow> lin_ok c fresh obs pc m (pc', m)"
  using lin_same helpingD by force

lemma lin_touch:
  assumes b: "base c fresh m" and r: "r \<in> set (rc_roots c)" and p: "linked m r p" "m p = na # ns" and n: "rn_key n = rn_key na"
    and links: "\<And>h. h < rc_max c \<Longrightarrow> rn_next n ! h = rn_next na ! h \<or>
        0 < h \<and> \<not> snd (rn_next n ! h) \<and> (\<forall>q. fst (rn_next n ! h) = Some q \<longrightarrow> linked m r q)"
    and v: "value_of c n = value_of c na" and ok: "step_ok c fresh m (pc', put_version p n m)"
    and pc: "frame c None m (put_version p n m) \<Longrightarrow> lin_pc c (put_version p n m) obs pc'" "helping pc'"
  shows "lin_ok c fresh obs pc m (pc', put_version p n m)"
proof -
  have l: "links_ok c (Suc fresh) (put_version p n m)" using ok by (simp add: step_ok_def)
  have "rn_value n = rn_value na \<or> \<not> rs_live c na \<or> \<not> rs_live c n" using v by (auto simp: value_of_def split: if_splits)
  note T = touch_ok [OF b r p n links this l]
  have "fst (rn_next n ! 0) = fst (rn_next (hd (m p)) ! 0)" using links [OF baseD(6) [OF b]] p(2) by auto
  then have "rs_lookup c (Suc fresh) (put_version p n m) = rs_lookup c fresh m"
    using lookup_touch_same [OF b l r p(1)] n v p(2) by simp
  then show ?thesis using T pc helpingD [OF pc(2)] by (simp add: lin_ok_def)
qed

lemma lin_look:
  assumes b: "base c fresh m" and pc: "lin_pc c m obs (H_look bb cur)" "pc_ok c m (H_look bb cur)"
    and ok: "step_ok c fresh m (helper_look c bb cur m)"
  shows "lin_ok c fresh obs (H_look bb cur) m (helper_look c bb cur m)"
proof -
  note B = baseD [OF b]
  obtain p n where cur: "cur = (p, n)" by (cases cur)
  obtain r where r: "r \<in> set (rc_roots c)" "seen c m r (p, n)" using pc(1) cur by auto
  note S = seenD [OF r(2)]
  obtain na ns where na: "m p = na # ns" using S(2) by (cases "m p") auto
  have key: "rn_key na = rn_key n" using version_okD(1) [OF links_okD(1) [OF B(1) S(2)]] na by simp
  have "p \<noteq> r" using B(9) [OF r(1)] key na pc(2) cur by auto
  then have root: "rc_root c (rn_key n) = r" using lists_okD(1) [OF B(3) r(1) S(1)] key na by simp
  have at: "lin_ok c fresh obs (H_look bb cur) m (H_at bb cur, m)" using r cur by (intro lin_help [OF b]) auto
  have atf: "lin_pc c m' obs (H_at bb cur)" if "frame c None m m'" for m'
    using seen_mono [OF r(2) frameD(1) [OF that]] frameD(2) [OF that r(1)] r(1) cur by auto
  have raise: "lin_pc c m' obs (Raise bb p (rn_key n) h)" if "frame c None m m'" for m' h
    using frameD(2) [OF that r(1) S(1)] grownD(3) [OF frameD(1) [OF that], of p] key na root \<open>p \<noteq> r\<close> by (simp add: raising_def)
  have ll: "lin_ok c fresh obs (H_look bb cur) m (pc', put_version p (na\<lparr>rn_link_level := 1\<rparr>) m)"
    if "pc' = H_at bb cur \<or> (\<exists>h. pc' = Raise bb p (rn_key n) h)" "step_ok c fresh m (pc', put_version p (na\<lparr>rn_link_level := 1\<rparr>) m)" for pc'
    by (rule lin_touch [OF b r(1) S(1) na _ _ _ that(2)]) (use that(1) atf raise in \<open>auto simp: value_of_def rs_live_def\<close>)
  consider (claim) "rn_value n = rc_del c \<and> rn_link_level n = rn_height n"
    | (unl) "\<not> (rn_value n = rc_del c \<and> rn_link_level n = rn_height n)" "rn_value n = rc_unl c"
    | (level) "\<not> (rn_value n = rc_del c \<and> rn_link_level n = rn_height n)" "rn_value n \<noteq> rc_unl c" by blast
  then show ?thesis
  proof cases
    case claim
    show ?thesis
    proof (cases "rn_value na = rc_del c")
      case True
      let ?m = "put_version p (na\<lparr>rn_value := rc_unl c\<rparr>) m"
      have res: "helper_look c bb cur m = (Unlink bb p (rn_key n) (rc_retries c), ?m)"
        using claim True na cur by (simp add: helper_look_def cas_value_def)
      show ?thesis unfolding res
        by (rule lin_touch [OF b r(1) S(1) na _ _ _ ok [unfolded res]]) (use True in \<open>auto simp: value_of_def rs_live_def\<close>)
    next
      case False
      then show ?thesis using claim at na cur by (simp add: helper_look_def cas_value_def)
    qed
  next
    case unl
    then have "helper_look c bb cur m = (H_at bb cur, m)" using cur by (auto simp: helper_look_def)
    then show ?thesis using at by simp
  next
    case level
    then show ?thesis using at ll ok na cur by (auto simp: helper_look_def cas_link_level_def split: if_splits)
  qed
qed

lemma lin_at:
  assumes b: "base c fresh m" and pc: "lin_pc c m obs (H_at bb cur)"
  shows "lin_ok c fresh obs (H_at bb cur) m (rs_next c fresh 0 level (H_at bb cur) m)"
proof -
  obtain p n where cur: "cur = (p, n)" by (cases cur)
  obtain r where r: "r \<in> set (rc_roots c)" "seen c m r (p, n)" using pc cur by auto
  show ?thesis
  proof (cases "fst (rn_next n ! 0)")
    case None
    then show ?thesis using cur lin_help [OF b, of obs "H_start ((bb + 1) mod length (rc_roots c))"] by simp
  next
    case (Some q)
    note R = read_listed [OF b r(1) seenD(3) [OF r(2) baseD(6) [OF b] Some]]
    have "lin_ok c fresh obs (H_at bb cur) m (H_look bb (q, hd (m q)), m)" using r(1) R(2) by (intro lin_help [OF b]) auto
    then show ?thesis using Some cur R(1) by (simp add: read_then_def)
  qed
qed

subsection \<open>Raising a node\<close>

lemma raising_frame:
  assumes "base c fresh m" "raising c m p key" "frame c own m m'"
  shows "raising c m' p key"
proof -
  note B = baseD [OF assms(1)]
  have r: "linked m (rc_root c key) p" using assms(2) by (simp add: raising_def)
  have "m p \<noteq> []" by (rule lists_okD(3) [OF B(3,7) r])
  then show ?thesis using assms(2) frameD(2) [OF assms(3) B(7) r] grownD(3) [OF frameD(1) [OF assms(3)]] by (simp add: raising_def)
qed

lemma filling_frame:
  assumes b: "base c fresh m" and fs: "filling c m fs" and f: "frame c own m m'"
  shows "filling c m' fs"
proof -
  note B = baseD [OF b]
  have s: "seen c m (rc_root c (fl_key fs)) cur \<Longrightarrow> seen c m' (rc_root c (fl_key fs)) cur" for cur
    using seen_mono [OF _ frameD(1) [OF f]] frameD(2) [OF f B(7)] by blast
  have "\<exists>q. fst (rn_next (snd (fl_cur fs)) ! 0) = Some q \<and> key_at m' q \<le> fl_key fs"
  proof -
    obtain q where q: "fst (rn_next (snd (fl_cur fs)) ! 0) = Some q" "key_at m q \<le> fl_key fs" using fs by (auto simp: filling_def)
    have "linked m (rc_root c (fl_key fs)) q" using fs q(1) B(6) unfolding filling_def seen_def by blast
    then have "m q \<noteq> []" by (rule lists_okD(3) [OF B(3,7)])
    then show ?thesis using q grownD(3) [OF frameD(1) [OF f]] by simp
  qed
  then show ?thesis using fs s frameD(2) [OF f B(7)] unfolding filling_def by blast
qed

lemma filling_start:
  assumes b: "base c fresh m" and p: "raising c m p key" and k: "rc_minkey c < key"
  shows "filling c m (fill_start key (rc_max c) (rc_root c key, hd (m (rc_root c key))))"
proof -
  note B = baseD [OF b]
  have root: "key_at m (rc_root c key) < key" using k B(9) [OF B(7)] by simp
  have "linked m (rc_root c key) p" "key_at m p = key" using p by (simp_all add: raising_def)
  from read_near [OF b B(7) linked_refl root this] show ?thesis
    using root read_listed(2) [OF b B(7) linked_refl, of key] B(6) by (simp add: filling_def fill_start_def)
qed

lemma filling_note:
  assumes fs: "filling c m fs" and todo: "0 < fl_todo fs"
    and succ: "\<And>q. fst succ = Some q \<Longrightarrow> linked m (rc_root c (fl_key fs)) q" and found: "fl_todo fs = 1 \<Longrightarrow> found"
  shows "filling c m (fill_note succ found fs)"
proof -
  let ?r = "rc_root c (fl_key fs)" and ?fs = "fill_note succ found fs"
  have S: "fl_key ?fs = fl_key fs" "fl_cur ?fs = fl_cur fs" "fl_node ?fs = fl_node fs" "fl_todo ?fs = fl_todo fs - 1"
    by (simp_all add: fill_note_def Let_def)
  have cur: "linked m ?r (fst (fl_cur fs))" using fs by (simp add: filling_def seen_def)
  have "linked m ?r (fl_pred ?fs h) \<and> (\<forall>q. fst (fl_succ ?fs h) = Some q \<longrightarrow> linked m ?r q)"
    if h: "fl_todo fs - 1 \<le> h" "h < rc_max c" for h
  proof (cases "h = fl_todo fs - 1")
    case True
    then show ?thesis using cur succ by (simp add: fill_note_def Let_def)
  next
    case False
    then have "fl_todo fs \<le> h" using h(1) by linarith
    then have "linked m ?r (fl_pred fs h) \<and> (\<forall>q. fst (fl_succ fs h) = Some q \<longrightarrow> linked m ?r q)"
      using fs h(2) unfolding filling_def by blast
    then show ?thesis using False by (simp add: fill_note_def Let_def)
  qed
  moreover have "fl_found ?fs 0" if "fl_todo fs - 1 = 0" using that todo found by (simp add: fill_note_def Let_def)
  ultimately show ?thesis using fs unfolding filling_def S by blast
qed

lemma filling_step:
  assumes b: "base c fresh m" and p: "raising c m p (fl_key fs)" and fs: "filling c m fs" "0 < fl_todo fs" "fl_todo fs \<le> rc_max c"
    and step: "fill_step m 0 fs = Some fs'"
  shows "filling c m fs' \<and> fl_key fs' = fl_key fs"
proof -
  note B = baseD [OF b]
  let ?r = "rc_root c (fl_key fs)" and ?h = "fl_todo fs - 1"
  obtain a n where cur: "fl_cur fs = (a, n)" by (cases "fl_cur fs")
  have s: "seen c m ?r (a, n)" "rn_key n < fl_key fs" and near: "\<exists>q. fst (rn_next n ! 0) = Some q \<and> key_at m q \<le> fl_key fs"
    using fs(1) cur by (simp_all add: filling_def)
  have h: "?h < rc_max c" using fs(2,3) by linarith
  have key: "fl_key (fill_note succ found fs) = fl_key fs" for succ found fs by (simp add: fill_note_def Let_def)
  show ?thesis
  proof (cases "fst (rn_next n ! ?h)")
    case None
    then have "fs' = fill_note (None, False) False fs" using step cur by (simp add: fill_step_def)
    moreover have "fl_todo fs \<noteq> 1" using None near by auto
    ultimately show ?thesis using filling_note [OF fs(1,2), of "(None, False)" False] key by simp
  next
    case (Some q)
    have q: "linked m ?r q" by (rule seenD(3) [OF s(1) h Some])
    note R = read_listed [OF b B(7) q]
    let ?n = "hd (m q)" and ?fs = "fs\<lparr>fl_node := Some (q, hd (m q))\<rparr>"
    have F: "filling c m ?fs" using fs(1) R(2) by (simp add: filling_def)
    consider "rn_key ?n < fl_key fs" | "rn_key ?n = fl_key fs" | "fl_key fs < rn_key ?n" by linarith
    then show ?thesis
    proof cases
      case 1
      have "linked m ?r p" "key_at m p = fl_key fs" using p by (simp_all add: raising_def)
      from read_near [OF b B(7) q 1 this] show ?thesis
        using step cur Some R 1 fs(1,2) by (auto simp: fill_step_def filling_def)
    next
      case 2
      have fs': "fs' = fill_note (rn_next ?n ! ?h) True ?fs" using step cur Some R(1) 2 by (simp add: fill_step_def)
      have "filling c m (fill_note (rn_next ?n ! ?h) True ?fs)"
        using filling_note [OF F] fs(2) seenD(3) [OF R(2) h] by simp
      then show ?thesis unfolding fs' key by simp
    next
      case 3
      then have "fl_todo fs \<noteq> 1" using near Some by auto
      then have "filling c m (fill_note (Some q, False) False ?fs)"
        using filling_note [OF F, of "(Some q, False)" False] fs(2) q by simp
      moreover have fs': "fs' = fill_note (Some q, False) False ?fs" using step cur Some R(1) 3 by (simp add: fill_step_def)
      ultimately show ?thesis unfolding fs' key by simp
    qed
  qed
qed

lemma lin_raise:
  assumes b: "base c fresh m" and pc: "lin_pc c m obs (Raise bb p key goal)" "pc_ok c m (Raise bb p key goal)"
  shows "lin_ok c fresh obs (Raise bb p key goal) m (rs_next c fresh 0 level (Raise bb p key goal) m)"
proof -
  note R = read_listed(1) [OF b baseD(7) [OF b] linked_refl, of key]
  have "lin_ok c fresh obs (Raise bb p key goal) m (R_fill bb p goal (fill_start key (rc_max c) (rc_root c key, hd (m (rc_root c key)))), m)"
    using pc filling_start [OF b] by (intro lin_help [OF b]) simp_all
  then show ?thesis by (simp add: read_then_def R)
qed

lemma lin_fill:
  assumes b: "base c fresh m" and pc: "lin_pc c m obs (R_fill bb p goal fs)" "pc_ok c m (R_fill bb p goal fs)"
  shows "lin_ok c fresh obs (R_fill bb p goal fs) m (rs_next c fresh 0 level (R_fill bb p goal fs) m)"
proof (cases "fl_todo fs = 0")
  case True
  then show ?thesis using pc(1) lin_help [OF b, of obs "R_level bb p goal 0 fs"] by simp
next
  case False
  have A: "raising c m p (fl_key fs)" "filling c m fs" "fl_todo fs \<le> rc_max c" using pc fill_okD(2) by auto
  show ?thesis
  proof (cases "fill_step m 0 fs")
    case None
    then show ?thesis using False lin_help [OF b, of obs Aborted] by (simp add: fill_then_def)
  next
    case (Some fs')
    have "filling c m fs' \<and> fl_key fs' = fl_key fs" using filling_step [OF b A(1,2) _ A(3) Some] False by simp
    then show ?thesis using Some False A(1) lin_help [OF b, of obs "R_fill bb p goal fs'"] by (simp add: fill_then_def)
  qed
qed

lemma lin_level:
  assumes b: "base c fresh m" and pc: "lin_pc c m obs (R_level bb p goal h fs)" "pc_ok c m (R_level bb p goal h fs)"
    and ok: "step_ok c fresh m (raise_level bb p goal h fs m)"
  shows "lin_ok c fresh obs (R_level bb p goal h fs) m (raise_level bb p goal h fs m)"
proof -
  note B = baseD [OF b]
  let ?r = "rc_root c (fl_key fs)" and ?pc = "R_level bb p goal h fs"
  have A: "raising c m p (fl_key fs)" "filling c m fs" "fl_todo fs = 0" "fill_ok c m fs" "goal \<le> rc_max c" using pc by simp_all
  have pl: "linked m ?r p" using A(1) by (simp add: raising_def)
  have f0: "fl_found fs 0" using A(2,3) by (simp add: filling_def)
  obtain a n where n: "fl_node fs = Some (a, n)" using fill_okD(8) [OF A(4,3) f0] by auto
  have s: "seen c m ?r (a, n)" using A(2) n by (simp add: filling_def)
  note S = seenD [OF s]
  obtain na ns where na: "m a = na # ns" using S(2) by (cases "m a") auto
  consider "goal \<le> h" "rn_link_level na = 1" | "goal \<le> h" "rn_link_level na \<noteq> 1" | "h < goal" "fl_found fs h"
    | "h < goal" "\<not> fl_found fs h" "snd (rn_next n ! h)"
    | "h < goal" "\<not> fl_found fs h" "\<not> snd (rn_next n ! h)" "rn_next na ! h \<noteq> rn_next n ! h"
    | "h < goal" "\<not> fl_found fs h" "\<not> snd (rn_next n ! h)" "rn_next na ! h = rn_next n ! h" by linarith
  then show ?thesis
  proof cases
    case 1
    then have res: "raise_level bb p goal h fs m = (H_refresh bb p False, put_version a (na\<lparr>rn_link_level := goal\<rparr>) m)"
      using n na by (simp add: raise_level_def cas_link_level_def)
    show ?thesis unfolding res
      by (rule lin_touch [OF b B(7) S(1) na _ _ _ ok [unfolded res]])
        (use frameD(2) [OF _ B(7) pl] B(7) in \<open>auto simp: value_of_def rs_live_def\<close>)
  next
    case 2
    then show ?thesis using n na pl B(7) lin_help [OF b, of obs "H_refresh bb p False"]
      by (auto simp: raise_level_def cas_link_level_def)
  next
    case 3
    then show ?thesis using n A lin_help [OF b, of obs "R_level bb p goal (h + 1) fs"] by (simp add: raise_level_def)
  next
    case 4
    then show ?thesis using n lin_help [OF b, of obs Aborted] by (simp add: raise_level_def)
  next
    case 5
    then show ?thesis using n na A(1) lin_help [OF b, of obs "Raise bb p (fl_key fs) goal"]
      by (simp add: raise_level_def cas_next_def)
  next
    case 6
    have h: "0 < h" "h < rc_max c" using f0 6(1,2) A(5) by (auto intro: gr0I)
    have succ: "\<not> snd (fl_succ fs h)" "\<forall>q. fst (fl_succ fs h) = Some q \<longrightarrow> linked m ?r q"
      using fill_okD(7) [OF A(4) _ h(2)] 6(2) A(2,3) h(2) by (simp_all add: level_ok_def filling_def)
    have len: "length (rn_next na) = rc_max c" using version_okD(2) [OF links_okD(1) [OF B(1), of na a]] na by simp
    let ?n = "na\<lparr>rn_next := (rn_next na)[h := fl_succ fs h]\<rparr>"
    have res: "raise_level bb p goal h fs m = (R_pred bb p goal h fs, put_version a ?n m)"
      using 6 n na by (simp add: raise_level_def cas_next_def)
    show ?thesis unfolding res
    proof (rule lin_touch [OF b B(7) S(1) na _ _ _ ok [unfolded res]])
      fix j assume "j < rc_max c"
      then show "rn_next ?n ! j = rn_next na ! j \<or> 0 < j \<and> \<not> snd (rn_next ?n ! j) \<and> (\<forall>q. fst (rn_next ?n ! j) = Some q \<longrightarrow> linked m ?r q)"
        using h succ len by (cases "j = h") auto
    qed (use raising_frame [OF b A(1)] filling_frame [OF b A(2)] A(3) h(1) in \<open>simp_all add: value_of_def rs_live_def\<close>)
  qed
qed

lemma lin_pred:
  assumes b: "base c fresh m" and pc: "lin_pc c m obs (R_pred bb p goal h fs)" "pc_ok c m (R_pred bb p goal h fs)"
    and ok: "step_ok c fresh m (raise_pred bb p goal h fs m)"
  shows "lin_ok c fresh obs (R_pred bb p goal h fs) m (raise_pred bb p goal h fs m)"
proof -
  note B = baseD [OF b]
  let ?r = "rc_root c (fl_key fs)" and ?a = "fl_pred fs h"
  have A: "raising c m p (fl_key fs)" "filling c m fs" "fl_todo fs = 0" "0 < h" "h < rc_max c" using pc by simp_all
  have pl: "linked m ?r ?a" using A(2,3,5) by (simp add: filling_def)
  obtain na ns where na: "m ?a = na # ns" using lists_okD(3) [OF B(3,7) pl] by (cases "m ?a") auto
  show ?thesis
  proof (cases "fl_node fs")
    case None
    then show ?thesis using lin_help [OF b, of obs Aborted] by (simp add: raise_pred_def)
  next
    case (Some x)
    obtain q n where x: "x = (q, n)" by (cases x)
    have ql: "linked m ?r q" using A(2) Some x by (simp add: filling_def seen_def)
    show ?thesis
    proof (cases "rn_next na ! h = (fst (fl_succ fs h), False)")
      case False
      then show ?thesis using Some x na A(1) lin_help [OF b, of obs "Raise bb p (fl_key fs) goal"]
        by (simp add: raise_pred_def cas_next_def)
    next
      case True
      have len: "length (rn_next na) = rc_max c" using version_okD(2) [OF links_okD(1) [OF B(1), of na ?a]] na by simp
      let ?n = "na\<lparr>rn_next := (rn_next na)[h := (Some q, False)]\<rparr>"
      have res: "raise_pred bb p goal h fs m = (R_level bb p goal (h + 1) fs, put_version ?a ?n m)"
        using True Some x na by (simp add: raise_pred_def cas_next_def)
      show ?thesis unfolding res
      proof (rule lin_touch [OF b B(7) pl na _ _ _ ok [unfolded res]])
        fix j assume "j < rc_max c"
        then show "rn_next ?n ! j = rn_next na ! j \<or> 0 < j \<and> \<not> snd (rn_next ?n ! j) \<and> (\<forall>q. fst (rn_next ?n ! j) = Some q \<longrightarrow> linked m ?r q)"
          using A(4) ql len by (cases "j = h") auto
      qed (use raising_frame [OF b A(1)] filling_frame [OF b A(2)] A(3) in \<open>simp_all add: value_of_def rs_live_def\<close>)
    qed
  qed
qed

section \<open>Any step\<close>

fun unlinking :: "rs_pc \<Rightarrow> bool" where
  "unlinking (Unlink _ _ _ _) = True"
| "unlinking _ = False"

fun is_done :: "rs_pc \<Rightarrow> bool" where
  "is_done (Done _ _) = True"
| "is_done _ = False"

lemma lin_not_stray: "lin_pc c m obs pc \<Longrightarrow> \<not> stray pc"
  by (cases pc) (auto simp: filling_def)

lemma lin_next:
  assumes b: "base c fresh m" and pc: "lin_pc c m obs pc" "pc_ok c m pc" "\<not> unlinking pc" "\<not> is_done pc"
    and k: "\<And>k. pc_key pc = Some k \<Longrightarrow> rs_lookup c fresh m k \<in> obs" and level: "level \<le> rc_max c"
  shows "lin_ok c fresh obs pc m (rs_next c fresh 0 level pc m)"
proof -
  note B = baseD [OF b]
  have ok: "step_ok c fresh m (rs_next c fresh 0 level pc m)"
    by (rule rs_next_ok [OF B(5,1,2) pc(2) lin_not_stray [OF pc(1)] level])
  show ?thesis
  proof (cases pc)
    case Idle
    then show ?thesis using lin_same [OF b, of obs Idle Idle] by simp
  next
    case (Start op)
    then show ?thesis using lin_start [OF b] pc k by simp
  next
    case (Find op todo cur)
    then show ?thesis using lin_find [OF b, of obs op todo cur] pc k by simp
  next
    case (Found op cur)
    show ?thesis
    proof (cases op)
      case (Rs_contains x)
      then show ?thesis using Found lin_contains [OF b, of obs x cur] pc by (simp add: op_found_def)
    next
      case (Rs_insert x v)
      then show ?thesis using Found lin_insert [OF b, of obs x v cur level] pc k ok by (simp add: op_found_def)
    next
      case (Rs_remove x)
      then show ?thesis using Found lin_remove [OF b, of obs x cur] pc ok by (simp add: op_found_def)
    qed
  next
    case (Link op cur new)
    then show ?thesis using lin_link [OF b, of obs op cur new] pc ok by simp
  next
    case (H_start bb)
    then have r: "rc_roots c ! bb \<in> set (rc_roots c)" using pc(2) by simp
    note R = read_listed [OF b r linked_refl]
    have "lin_ok c fresh obs pc m (H_at bb (rc_roots c ! bb, hd (m (rc_roots c ! bb))), m)" using r R(2) by (intro lin_help [OF b]) auto
    then show ?thesis using H_start R(1) by (simp add: read_then_def)
  next
    case (H_at bb cur)
    then show ?thesis using lin_at [OF b, of obs bb cur level] pc by simp
  next
    case (H_look bb cur)
    then show ?thesis using lin_look [OF b, of obs bb cur] pc ok by simp
  next
    case (Raise bb p key goal)
    then show ?thesis using lin_raise [OF b, of obs bb p key goal level] pc by simp
  next
    case (R_fill bb p goal fs)
    then show ?thesis using lin_fill [OF b, of obs bb p goal fs level] pc by simp
  next
    case (R_level bb p goal h fs)
    then show ?thesis using lin_level [OF b, of obs bb p goal h fs] pc ok by simp
  next
    case (R_pred bb p goal h fs)
    then show ?thesis using lin_pred [OF b, of obs bb p goal h fs] pc ok by simp
  next
    case (H_refresh bb p f)
    then obtain r where r: "r \<in> set (rc_roots c)" "linked m r p" using pc(1) by auto
    note R = read_listed [OF b r]
    have "lin_ok c fresh obs pc m (H_at bb (p, hd (m p)), m)" using r R(2) by (intro lin_help [OF b]) auto
    then show ?thesis using H_refresh R(1) by (simp add: read_then_def)
  next
    case Aborted
    then show ?thesis using lin_help [OF b, of obs Aborted] by simp
  qed (use pc in simp_all)
qed

text \<open>What the other threads know after the step.\<close>

lemma just_frame:
  assumes b: "base c fresh m" "base c fresh' m'" and j: "just c m obs k (a, n)" and a: "seen c m (rc_root c k) (a, n)" "rc_minkey c < k"
    and f: "frame c own m m'" and obs: "obs \<subseteq> obs'" "rs_lookup c fresh' m' k \<in> obs'"
  shows "just c m' obs' k (a, n)"
proof -
  note B = baseD [OF b(1)]
  note S = seenD [OF a(1)]
  obtain na ns where na: "m a = na # ns" using S(2) by (cases "m a") auto
  have key: "rn_key na = rn_key n" using version_okD(1) [OF links_okD(1) [OF B(1) S(2)]] na by simp
  obtain na' ns' where na': "m' a = na' # ns'" using grownD(2) [OF frameD(1) [OF f], of a] na by (cases "m' a") auto
  have key': "rn_key na' = rn_key n" using grownD(3) [OF frameD(1) [OF f], of a] na na' key by simp
  have l: "linked m' (rc_root c k) a" using frameD(2) [OF f B(7) S(1)] .
  have "rn_value na' = rn_value n \<or> None \<in> obs'" if "rn_key n = k" "rs_live c n" "rn_value na = rn_value n"
  proof -
    have "rn_value na' = rn_value na \<or> \<not> rs_live c na'"
      using frameD(4) [OF f, of a] na na' that(2,3) by (auto simp: rs_live_def)
    moreover have "rs_lookup c fresh' m' k = value_of c na'" using lookup_node [OF b(2) l na' _ a(2)] key' that(1) by simp
    ultimately show ?thesis using obs(2) that(3) by (auto simp: value_of_def)
  qed
  moreover have "link_above m k (rn_next n ! 0)" if "link_above m' k (rn_next n ! 0)"
    unfolding link_above_def
  proof (intro allI impI)
    fix q assume q: "fst (rn_next n ! 0) = Some q"
    have "m q \<noteq> []" by (rule lists_okD(3) [OF B(3,7) S(3) [OF B(6) q]])
    moreover from this have "key_at m q = key_at m' q" using grownD(3) [OF frameD(1) [OF f]] by simp
    ultimately show "m q \<noteq> [] \<and> k < key_at m q" using that q by (simp add: link_above_def)
  qed
  ultimately show ?thesis using j obs(1) na na' unfolding just_def by auto
qed

lemma ready_frame:
  assumes "ready c m op cur new" "frame c own m m'" "own \<noteq> Some new"
  shows "ready c m' op cur new"
proof -
  have "m new \<noteq> []" "\<forall>r \<in> set (rc_roots c). \<not> linked m r new" using assms(1) by (auto simp: ready_def)
  then have "m' new = m new \<and> (\<forall>r \<in> set (rc_roots c). \<not> linked m' r new)" using frameD(3) [OF assms(2)] assms(3) by blast
  then show ?thesis using assms(1) by (simp add: ready_def)
qed

lemma lin_pc_frame:
  assumes b: "base c fresh m" "base c fresh' m'" and pc: "lin_pc c m obs pc" "pc_ok c m pc" and f: "frame c own m m'"
    and new: "own = None \<or> own \<noteq> pc_new pc" and obs: "obs \<subseteq> obs'" "\<And>k. pc_key pc = Some k \<Longrightarrow> rs_lookup c fresh' m' k \<in> obs'"
  shows "lin_pc c m' obs' pc"
proof -
  note B = baseD [OF b(1)]
  have S: "seen c m r cur \<Longrightarrow> r \<in> set (rc_roots c) \<Longrightarrow> seen c m' r cur" for r cur
    using seen_mono [OF _ frameD(1) [OF f]] frameD(2) [OF f] by blast
  have J: "just c m' obs' k cur" if "just c m obs k cur" "seen c m (rc_root c k) cur" "rc_minkey c < k" "pc_key pc = Some k" for k cur
    using just_frame [OF b _ _ that(3) f obs(1) obs(2) [OF that(4)], of "fst cur" "snd cur"] that by simp
  note K = raising_frame [OF b(1) _ f] filling_frame [OF b(1) _ f] frameD(2) [OF f]
  show ?thesis
  proof (cases pc)
    case (Link op cur x)
    then have "ready c m' op cur x" using ready_frame [of c m op cur x own m', OF _ f] pc(1) new by auto
    then show ?thesis using Link pc(1) S B(7) by simp
  next
    case (H_refresh b p f)
    then show ?thesis using pc(1) K(3) by (metis lin_pc.simps(16))
  qed (use pc S J K B(7) in \<open>auto simp: at_key_def\<close>)
qed

section \<open>Runs\<close>

definition rs_map :: "rscfg \<Rightarrow> rsk \<Rightarrow> int \<Rightarrow> u64 option" where
  "rs_map c s = rs_lookup c (rs_fresh s) (rs_mem s)"

text \<open>Keys above the root's, values that are no sentinels, and current reads.\<close>

fun lin_act :: "rscfg \<Rightarrow> rs_act \<Rightarrow> bool" where
  "lin_act c (Call t op) = (rc_minkey c < op_key op \<and> val_ok c op)"
| "lin_act c (Help t b) = True"
| "lin_act c (Go t ver level) = (ver = 0)"

text \<open>For every thread the values its key has had in the map since it called its operation.\<close>

definition observe :: "rscfg \<Rightarrow> rs_act \<Rightarrow> rsk \<Rightarrow> (nat \<Rightarrow> u64 option set) \<Rightarrow> nat \<Rightarrow> u64 option set" where
  "observe c act s' obs t = (case act of Call t' _ \<Rightarrow> if t' = t then {} else obs t | _ \<Rightarrow> obs t) \<union>
     (case pc_key (rs_pc s' t) of None \<Rightarrow> {} | Some k \<Rightarrow> {rs_map c s' k})"

inductive lin_run :: "rscfg \<Rightarrow> rsk \<Rightarrow> (nat \<Rightarrow> u64 option set) \<Rightarrow> bool" for c where
  init: "lin_run c (rs_init c) (\<lambda>_. {})"
| step: "\<lbrakk> lin_run c s obs; \<And>t. \<not> unlinking (rs_pc s t); lin_act c act; rs_step c act s = Some s' \<rbrakk> \<Longrightarrow> lin_run c s' (observe c act s' obs)"

text \<open>The operation a step completes.\<close>

fun completes :: "rs_act \<Rightarrow> rsk \<Rightarrow> rsk \<Rightarrow> (nat \<times> rs_op \<times> u64 option) option" where
  "completes (Go t ver level) s s' = (if is_done (rs_pc s t) then None
     else case rs_pc s' t of Done op r \<Rightarrow> Some (t, op, r) | _ \<Rightarrow> None)"
| "completes _ s s' = None"

definition lin_inv :: "rscfg \<Rightarrow> rsk \<Rightarrow> (nat \<Rightarrow> u64 option set) \<Rightarrow> bool" where
  "lin_inv c s obs \<longleftrightarrow> base c (rs_fresh s) (rs_mem s) \<and>
     (\<forall>t. pc_ok c (rs_mem s) (rs_pc s t) \<and> lin_pc c (rs_mem s) (obs t) (rs_pc s t) \<and>
        (\<forall>k. pc_key (rs_pc s t) = Some k \<longrightarrow> rs_map c s k \<in> obs t)) \<and>
     (\<forall>t t' q. pc_new (rs_pc s t) = Some q \<longrightarrow> pc_new (rs_pc s t') = Some q \<longrightarrow> t = t')"

lemma lin_invD:
  assumes "lin_inv c s obs"
  shows "base c (rs_fresh s) (rs_mem s)" "pc_ok c (rs_mem s) (rs_pc s t)" "lin_pc c (rs_mem s) (obs t) (rs_pc s t)"
    "pc_key (rs_pc s t) = Some k \<Longrightarrow> rs_map c s k \<in> obs t"
    "pc_new (rs_pc s t) = Some q \<Longrightarrow> pc_new (rs_pc s t') = Some q \<Longrightarrow> t = t'"
  using assms unfolding lin_inv_def by blast+

lemma lin_invI:
  assumes "base c (rs_fresh s) (rs_mem s)" "\<And>t. pc_ok c (rs_mem s) (rs_pc s t)" "\<And>t. lin_pc c (rs_mem s) (obs t) (rs_pc s t)"
    "\<And>t k. pc_key (rs_pc s t) = Some k \<Longrightarrow> rs_map c s k \<in> obs t"
    "\<And>t t' q. pc_new (rs_pc s t) = Some q \<Longrightarrow> pc_new (rs_pc s t') = Some q \<Longrightarrow> t = t'"
  shows "lin_inv c s obs"
  using assms unfolding lin_inv_def by blast

lemma lin_inv_init:
  assumes c: "cfg_ok c"
  shows "lin_inv c (rs_init c) (\<lambda>_. {})"
proof -
  let ?m = "rs_mem (rs_init c)"
  have s: "sys_ok c (rs_init c)" by (rule sys_ok_init [OF c])
  have n: "?m p = [rs_node c (rc_minkey c) 0 0]" if "p \<in> set (rc_roots c)" for p using that by (simp add: rs_init_def)
  have "0 < rc_max c" using c by (simp add: cfg_ok_def)
  then have e: "edges ?m = {}" by (auto simp: edges_def rs_init_def rs_node_def split: if_splits)
  then have "linked ?m r p \<longleftrightarrow> p = r" for r p by (auto simp: linked_def)
  then have "lists_ok c ?m" using n by (auto simp: lists_ok_def seen_def rs_node_def)
  moreover have "unmarked c ?m" by (auto simp: unmarked_def rs_init_def rs_node_def)
  ultimately have "base c (rs_fresh (rs_init c)) ?m" using s c by (simp add: base_def sys_ok_def)
  then show ?thesis by (simp add: lin_inv_def) (simp add: rs_init_def)
qed

text \<open>A thread that becomes busy changes nothing in memory.\<close>

lemma lin_inv_enter:
  assumes i: "lin_inv c s obs" and pc: "\<And>os. lin_pc c (rs_mem s) os pc'" "pc_ok c (rs_mem s) pc'" "pc_new pc' = None"
    and obs: "\<And>t'. t' \<noteq> t \<Longrightarrow> obs t' \<subseteq> obs' t'" "\<And>k. pc_key pc' = Some k \<Longrightarrow> rs_map c s k \<in> obs' t"
  shows "lin_inv c (s\<lparr>rs_pc := (rs_pc s)(t := pc')\<rparr>) obs'" (is "lin_inv c ?s obs'")
proof (rule lin_invI)
  note I = lin_invD [OF i]
  show "base c (rs_fresh ?s) (rs_mem ?s)" using I(1) by simp
  fix t'
  show "pc_ok c (rs_mem ?s) (rs_pc ?s t')" using I(2) [of t'] pc(2) by simp
  show "lin_pc c (rs_mem ?s) (obs' t') (rs_pc ?s t')"
  proof (cases "t' = t")
    case False
    have "lin_pc c (rs_mem s) (obs' t') (rs_pc s t')"
      using I(4) [of t'] obs(1) [OF False] by (intro lin_pc_frame [OF I(1,1) I(3,2) frame_refl [of c None]]) (auto simp: rs_map_def)
    then show ?thesis using False by simp
  qed (use pc(1) in simp)
  fix k assume k: "pc_key (rs_pc ?s t') = Some k"
  show "rs_map c ?s k \<in> obs' t'"
  proof (cases "t' = t")
    case True
    then show ?thesis using obs(2) [of k] k by (simp add: rs_map_def)
  next
    case False
    then have "rs_map c s k \<in> obs t'" using I(4) [of t' k] k by simp
    then show ?thesis using obs(1) [OF False] by (auto simp: rs_map_def)
  qed
next
  fix t1 t2 q assume "pc_new (rs_pc ?s t1) = Some q" "pc_new (rs_pc ?s t2) = Some q"
  then show "t1 = t2" using lin_invD(5) [OF i, of t1 q t2] pc(3) by (cases "t1 = t"; cases "t2 = t") simp_all
qed

lemma lin_inv_step:
  assumes i: "lin_inv c s obs" and u: "\<And>t. \<not> unlinking (rs_pc s t)" and act: "lin_act c act" and step: "rs_step c act s = Some s'"
  shows "lin_inv c s' (observe c act s' obs) \<and>
    (case completes act s s' of None \<Rightarrow> rs_map c s' = rs_map c s | Some (t, op, r) \<Rightarrow> answers op r (rs_map c s) (rs_map c s') (obs t))"
proof (cases act)
  case (Call t op)
  then have s': "s' = s\<lparr>rs_pc := (rs_pc s)(t := Start op)\<rparr>" using step by (auto simp: rs_step_def split: rs_pc.splits)
  have "lin_inv c s' (observe c act s' obs)" unfolding s'
    by (rule lin_inv_enter [OF i]) (use act Call in \<open>auto simp: observe_def rs_map_def\<close>)
  then show ?thesis using Call s' by (simp add: rs_map_def)
next
  case (Help t bb)
  then have s': "s' = s\<lparr>rs_pc := (rs_pc s)(t := H_start bb)\<rparr>" "bb < length (rc_roots c)"
    using step by (auto simp: rs_step_def split: rs_pc.splits if_splits)
  have "lin_inv c s' (observe c act s' obs)" unfolding s'(1)
    by (rule lin_inv_enter [OF i]) (use s'(2) Help in \<open>auto simp: observe_def\<close>)
  then show ?thesis using Help s' by (simp add: rs_map_def)
next
  case (Go t ver level)
  note I = lin_invD [OF i]
  let ?fresh = "rs_fresh s" and ?m = "rs_mem s" and ?pc = "rs_pc s t"
  obtain pc' m' where n: "rs_next c ?fresh 0 level ?pc ?m = (pc', m')" by fastforce
  have l: "level \<le> rc_max c" and s': "rs_mem s' = m'" "rs_fresh s' = Suc ?fresh" "rs_pc s' = (rs_pc s)(t := pc')"
    using step act Go n by (auto simp: rs_step_def split: if_splits)
  have M: "rs_map c s' = rs_lookup c (Suc ?fresh) m'" "rs_map c s = rs_lookup c ?fresh ?m" by (simp_all add: rs_map_def s')
  define obs' where "obs' = observe c act s' obs"
  have O: "obs t' \<subseteq> obs' t'" "pc_key (rs_pc s' t') = Some k \<Longrightarrow> rs_map c s' k \<in> obs' t'" for t' k
    by (auto simp: obs'_def observe_def Go)
  have main: "base c (Suc ?fresh) m' \<and> frame c (pc_new ?pc) ?m m' \<and> lin_pc c m' (obs t) pc' \<and>
      (\<forall>q. pc_new pc' = Some q \<longrightarrow> q = ?fresh) \<and>
      (case completes act s s' of None \<Rightarrow> rs_map c s' = rs_map c s | Some (t, op, r) \<Rightarrow> answers op r (rs_map c s) (rs_map c s') (obs t))"
  proof (cases "is_done ?pc")
    case True
    then obtain op r where d: "?pc = Done op r" by (cases ?pc) simp_all
    have same: "pc' = ?pc" "m' = ?m" using n unfolding d by simp_all
    have none: "pc_new ?pc = None" unfolding d by simp
    have "completes act s s' = None" using True Go by simp
    moreover have "rs_map c s' = rs_map c s" unfolding M same(2) by (rule lookup_fresh [OF I(1)])
    ultimately show ?thesis using base_fresh [OF I(1)] I(3) [of t] unfolding same none by simp
  next
    case False
    have "lin_ok c ?fresh (obs t) ?pc ?m (pc', m')"
      using lin_next [OF I(1) I(3,2) u False _ l] I(4) [of t] n by (simp add: M)
    then have L: "base c (Suc ?fresh) m'" "frame c (pc_new ?pc) ?m m'" "lin_pc c m' (obs t) pc'" "\<forall>q. pc_new pc' = Some q \<longrightarrow> q = ?fresh"
      "if \<exists>op r. pc' = Done op r then \<forall>op r. pc' = Done op r \<longrightarrow> answers op r (rs_map c s) (rs_map c s') (obs t) else rs_map c s' = rs_map c s"
      unfolding lin_ok_def M prod.case by blast+
    have "completes act s s' = (case pc' of Done op r \<Rightarrow> Some (t, op, r) | _ \<Rightarrow> None)" using False Go s'(3) by simp
    then show ?thesis using L by (cases pc') simp_all
  qed
  have old: "lin_pc c m' (obs' t') (rs_pc s t')" if "t' \<noteq> t" for t'
  proof (rule lin_pc_frame [OF I(1) conjunct1 [OF main] I(3,2) main [THEN conjunct2, THEN conjunct1] _ O(1)])
    show "pc_new ?pc = None \<or> pc_new ?pc \<noteq> pc_new (rs_pc s t')" using I(5) [of t _ t'] that by (cases "pc_new ?pc") auto
  qed (use O(2) [of t'] that s'(3) in \<open>simp_all add: M\<close>)
  note B = baseD [OF I(1)]
  have ok: "pc_ok c m' pc'"
    using rs_next_ok [OF B(5,1,2) I(2) [of t] lin_not_stray [OF I(3) [of t]] l, where ver = 0] n by (simp add: step_ok_def)
  have "pc_ok c m' (rs_pc s' t')" for t'
    using ok pc_ok_grown [OF I(2) frameD(1) [OF conjunct1 [OF conjunct2 [OF main]]], of t'] s'(3) by simp
  moreover have "lin_pc c m' (obs' t') (rs_pc s' t')" for t'
  proof (cases "t' = t")
    case True
    have "lin_pc c m' (obs' t) pc'"
      using main O(2) [of t] s'(3)
      by (intro lin_pc_frame [OF conjunct1 [OF main] conjunct1 [OF main] _ ok frame_refl [of c None] _ O(1)]) (simp_all add: M)
    then show ?thesis using True s'(3) by simp
  qed (use old s'(3) in simp)
  moreover have "t1 = t2" if t: "pc_new (rs_pc s' t1) = Some q" "pc_new (rs_pc s' t2) = Some q" for t1 t2 q
  proof -
    have less: "q < ?fresh" if "pc_new (rs_pc s t') = Some q" for t'
    proof -
      have "?m q \<noteq> []" using I(2) [of t'] that by (cases "rs_pc s t'") auto
      then show ?thesis by (rule links_okD(3) [OF B(1)])
    qed
    have "q = ?fresh" if "pc_new pc' = Some q" using main that by blast
    then show ?thesis using t less [of t1] less [of t2] I(5) [of t1 q t2] s'(3) by (auto split: if_splits)
  qed
  ultimately have "lin_inv c s' obs'" using main O(2) unfolding lin_inv_def s' by blast
  then show ?thesis using main unfolding obs'_def by blast
qed

lemma lin_run_inv: "lin_run c s obs \<Longrightarrow> cfg_ok c \<Longrightarrow> lin_inv c s obs"
proof (induction rule: lin_run.induct)
  case init
  then show ?case by (rule lin_inv_init)
next
  case (step s obs act s')
  then show ?case using lin_inv_step by blast
qed

text \<open>
  C15: The RDMA skip list is linearizable as long as no helper has claimed a node for unlinking. In a run of any number of clients
  and of helpers, interleaved access by access and with current reads, let the map be what a walk along the
  bottom lists finds. A step that completes no operation leaves the map as it is. A step that completes one changes
  it as the result announces: an insertion that returns nothing finds its key unbound and binds it, a removal that returns a value unbinds
  the key that had it, and any other result changes nothing and is a value the key had in the map at some time
  since the operation was called.
\<close>

theorem rsk_linearizable:
  assumes "cfg_ok c" "lin_run c s obs" "\<forall>t. \<not> unlinking (rs_pc s t)" "lin_act c act" "rs_step c act s = Some s'"
  shows "case completes act s s' of None \<Rightarrow> rs_map c s' = rs_map c s
    | Some (t, op, r) \<Rightarrow> answers op r (rs_map c s) (rs_map c s') (obs t)"
  using lin_inv_step [OF lin_run_inv [OF assms(2,1)] _ assms(4,5)] assms(3) by blast

text \<open>Two clients insert; the last access of the second one links its node.\<close>

lemma client_lin_run:
  assumes "lin_run c s obs" "\<And>t. client (rs_pc s t)" "rs_run c acts s = Some s'" "\<forall>act \<in> set acts. client_act c act \<and> lin_act c act"
  shows "\<exists>obs'. lin_run c s' obs' \<and> (\<forall>t. client (rs_pc s' t))"
  using assms
proof (induction acts arbitrary: s obs)
  case (Cons act acts)
  obtain s1 where s1: "rs_step c act s = Some s1" "rs_run c acts s1 = Some s'" using Cons.prems(3) by (auto split: option.splits)
  have C: "client (rs_pc s1 t)" for t using client_step [OF s1(1)] Cons.prems(2,4) by simp
  have "\<not> unlinking (rs_pc s t)" for t using Cons.prems(2) [of t] by (cases "rs_pc s t") simp_all
  then have "lin_run c s1 (observe c act s1 obs)" using lin_run.step [OF Cons.prems(1) _ _ s1(1)] Cons.prems(4) by simp
  then show ?case using Cons.IH C s1(2) Cons.prems(4) by simp
qed auto

definition before_link :: "rs_act list" where
  "before_link = Call 0 (Rs_insert 20 200) # goes 0 1 6 @ Call 1 (Rs_insert 10 100) # goes 1 2 5"

lemma rsk_linearizable_witness:
  "\<exists>s obs s'. lin_run one_list s obs \<and> rs_step one_list (Go 1 0 2) s = Some s' \<and>
     completes (Go 1 0 2) s s' = Some (1, Rs_insert 10 100, None) \<and>
     rs_map one_list s 10 = None \<and> rs_map one_list s' = (rs_map one_list s)(10 := Some 100)"
proof -
  have "\<exists>s s'. rs_run one_list before_link (rs_init one_list) = Some s \<and> rs_step one_list (Go 1 0 2) s = Some s' \<and>
      completes (Go 1 0 2) s s' = Some (1, Rs_insert 10 100, None)"
    unfolding init_one_list before_link_def by (simp add: run_simps del: replicate.simps One_nat_def)
  then obtain s s' where s: "rs_run one_list before_link (rs_init one_list) = Some s" "rs_step one_list (Go 1 0 2) s = Some s'"
    "completes (Go 1 0 2) s s' = Some (1, Rs_insert 10 100, None)" by blast
  have "\<exists>obs. lin_run one_list s obs \<and> (\<forall>t. client (rs_pc s t))"
    by (rule client_lin_run [OF lin_run.init _ s(1)]) (auto simp: rs_init_def before_link_def one_list_simps)
  then obtain obs where o: "lin_run one_list s obs" "\<And>t. client (rs_pc s t)" by blast
  have "\<not> unlinking (rs_pc s t)" for t using o(2) [of t] by (cases "rs_pc s t") simp_all
  then show ?thesis using rsk_linearizable [OF cfg_ok_one_list o(1) _ _ s(2)] s(2,3) o(1) by auto
qed

end
