(* ===== verification/MultiList.thy ===== *)
theory MultiList
  imports RdmaSkLin Zipf "HOL-Library.Signed_Division"
begin

text \<open>
  \<open>multi_list.h\<close>: the key range cut into slices, one skip list each. Its operations and helper are those of \<open>rdmask_cached.h\<close>, line for
  line but for the root they start from, the retries without end and the assertion in \<open>find\<close>: they are the model of
  \<open>RdmaSk\<close> with a configuration of its own. Added are the choice of the list for a key and the array of roots; shown is that a walk over
  the lists in their order meets the keys in theirs, and that \<open>count\<close> counts the keys of the map.
\<close>

declare split_paired_All [simp del] split_paired_Ex [simp del]

section \<open>The array of roots\<close>

record mlist =
  ml_branch_n :: nat
  ml_key_lb :: int
  ml_key_ub :: int
  ml_start :: "nat option list"

definition RdmaMultiList :: "int \<Rightarrow> nat \<Rightarrow> mlist" where
  "RdmaMultiList minkey degree = \<lparr>ml_branch_n = 2 ^ degree, ml_key_lb = minkey, ml_key_ub = minkey + 1,
     ml_start = replicate (2 ^ degree) None\<rparr>"

definition set_key_range :: "int \<Rightarrow> int \<Rightarrow> mlist \<Rightarrow> mlist" where
  "set_key_range new_key_lb new_key_ub m = m\<lparr>ml_key_lb := new_key_lb, ml_key_ub := new_key_ub\<rparr>"

definition list_n :: "mlist \<Rightarrow> nat" where
  "list_n m = ml_branch_n m"

text \<open>
  \<open>get_root\<close>: integer divisions drop the fraction; the quotient of doubles is idealised as a real and then loses its fraction too. \<open>None\<close> is the
  division by zero, when the range has fewer keys than there are lists.
\<close>

definition ml_distance :: "mlist \<Rightarrow> int" where
  "ml_distance m = ml_key_ub m sdiv int (ml_branch_n m) - ml_key_lb m sdiv int (ml_branch_n m)"

definition root_index :: "mlist \<Rightarrow> int \<Rightarrow> nat option" where
  "root_index m key =
     (if ml_branch_n m = 1 then Some 0
      else if ml_distance m = 0 then None
      else (let index = Zipf.truncate (real_of_int key / real_of_int (ml_distance m) - real_of_int (ml_key_lb m sdiv ml_distance m));
                index = (if index < 0 then 0 else index);
                index = (if int (ml_branch_n m) \<le> index then int (ml_branch_n m) - 1 else index)
            in Some (nat index)))"

definition get_root :: "mlist \<Rightarrow> int \<Rightarrow> nat option" where
  "get_root m key = (case root_index m key of None \<Rightarrow> None | Some i \<Rightarrow> ml_start m ! i)"

text \<open>\<open>InitAsFirst\<close> writes the roots the pool gives it to both arrays; \<open>InitFromPointer\<close> reads the shared one.\<close>

definition ml_InitAsFirst :: "nat list \<Rightarrow> mlist \<Rightarrow> mlist \<times> nat list" where
  "ml_InitAsFirst addrs m = (m\<lparr>ml_start := map Some (take (ml_branch_n m) addrs)\<rparr>, take (ml_branch_n m) addrs)"

definition ml_InitFromPointer :: "nat list \<Rightarrow> mlist \<Rightarrow> mlist option" where
  "ml_InitFromPointer roots m = (if length roots < ml_branch_n m then None
     else Some (m\<lparr>ml_start := map Some (take (ml_branch_n m) roots)\<rparr>))"

text \<open>\<open>destroy\<close>: what is given back; and the lists as a configuration of the skip list.\<close>

definition ml_destroy :: "nat list \<Rightarrow> bool \<Rightarrow> mlist \<Rightarrow> nat list" where
  "ml_destroy prealloc delete_as_first m = prealloc @ (if delete_as_first then map the (ml_start m) else [])"

definition ml_cfg :: "nat \<Rightarrow> int \<Rightarrow> u64 \<Rightarrow> u64 \<Rightarrow> mlist \<Rightarrow> rscfg" where
  "ml_cfg max_height minkey del unl m = \<lparr>rc_max = max_height, rc_minkey = minkey, rc_del = del, rc_unl = unl,
     rc_root = (\<lambda>k. the (get_root m k)), rc_roots = map the (ml_start m), rc_retries = None, rc_asks = False\<rparr>"

definition ml_count :: "rscfg \<Rightarrow> rsk \<Rightarrow> nat" where
  "ml_count c s = sum_list (map (\<lambda>r. rs_count c r s) (rc_roots c))"

section \<open>The slices\<close>

text \<open>A list that is ready: the roots are there and the slices are not empty.\<close>

definition ml_ready :: "mlist \<Rightarrow> bool" where
  "ml_ready m \<longleftrightarrow> 0 < ml_branch_n m \<and> (1 < ml_branch_n m \<longrightarrow> 0 < ml_distance m) \<and>
     length (ml_start m) = ml_branch_n m \<and> None \<notin> set (ml_start m) \<and> distinct (ml_start m)"

lemma truncate_mono:
  assumes "x \<le> y"
  shows "Zipf.truncate x \<le> Zipf.truncate y"
proof (cases "0 \<le> x \<or> y < 0")
  case True
  then show ?thesis using assms by (auto simp: Zipf.truncate_def floor_mono ceiling_mono)
next
  case False
  then have "\<lceil>x\<rceil> \<le> 0" "0 \<le> \<lfloor>y\<rfloor>" by (simp_all add: ceiling_le_zero)
  then have "\<lceil>x\<rceil> \<le> \<lfloor>y\<rfloor>" by (rule order.trans)
  then show ?thesis using False by (simp add: Zipf.truncate_def)
qed

lemma root_index_mono:
  assumes "ml_ready m" "k \<le> k'"
  shows "\<exists>i j. root_index m k = Some i \<and> root_index m k' = Some j \<and> i \<le> j \<and> j < ml_branch_n m"
proof (cases "ml_branch_n m = 1")
  case True
  then show ?thesis by (simp add: root_index_def)
next
  case False
  then have d: "0 < ml_distance m" "0 < ml_branch_n m" using assms(1) by (auto simp: ml_ready_def)
  let ?f = "\<lambda>k. Zipf.truncate (real_of_int k / real_of_int (ml_distance m) - real_of_int (ml_key_lb m sdiv ml_distance m))"
  have "real_of_int k / real_of_int (ml_distance m) \<le> real_of_int k' / real_of_int (ml_distance m)"
    using assms(2) d(1) by (simp add: divide_right_mono)
  then have "?f k \<le> ?f k'" by (intro truncate_mono) simp
  then show ?thesis using False d by (auto simp: root_index_def Let_def)
qed

section \<open>Walks over lists\<close>

text \<open>Along a walk keys grow.\<close>

lemma rs_walk_sorted:
  assumes m: "links_ok c fresh m" "0 < rc_max c"
  shows "m p \<noteq> [] \<Longrightarrow> sorted_wrt (<) (map rn_key (rs_walk k m p)) \<and> (\<forall>n \<in> set (rs_walk k m p). key_at m p \<le> rn_key n)"
proof (induction k arbitrary: p)
  case (Suc k)
  obtain n ns where n: "m p = n # ns" using Suc.prems by (cases "m p") auto
  show ?case
  proof (cases "fst (rn_next n ! 0)")
    case (Some b)
    then have "(p, b) \<in> edges m" using n by (simp add: edges_def)
    note e = edge_above [OF m this]
    from Suc.IH [OF e(1)] e(2) show ?thesis using n Some by fastforce
  qed (use n in simp)
qed simp

lemma sorted_wrt_concat:
  assumes "\<And>xs. xs \<in> set xss \<Longrightarrow> sorted_wrt P xs" "sorted_wrt (\<lambda>xs ys. \<forall>x \<in> set xs. \<forall>y \<in> set ys. P x y) xss"
  shows "sorted_wrt P (concat xss)"
  using assms by (induction xss) (auto simp: sorted_wrt_append)

text \<open>The nodes of a list, the root left out.\<close>

definition list_nodes :: "rsk \<Rightarrow> nat \<Rightarrow> rsnode list" where
  "list_nodes s r = tl (rs_walk (rs_fresh s) (rs_mem s) r)"

lemma list_nodes_sorted:
  assumes "base c (rs_fresh s) (rs_mem s)" "r \<in> set (rc_roots c)"
  shows "sorted_wrt (<) (map rn_key (list_nodes s r))"
proof -
  note B = baseD [OF assms(1)]
  have "sorted_wrt (<) (map rn_key (rs_walk (rs_fresh s) (rs_mem s) r))"
    using rs_walk_sorted [OF B(1,6) B(8) [OF assms(2)]] by blast
  then show ?thesis unfolding list_nodes_def by (cases "rs_walk (rs_fresh s) (rs_mem s) r") auto
qed

lemma list_nodes_in:
  assumes "base c (rs_fresh s) (rs_mem s)" "r \<in> set (rc_roots c)" "n \<in> set (list_nodes s r)"
  shows "rc_root c (rn_key n) = r"
proof -
  note B = baseD [OF assms(1)]
  obtain q where q: "n = hd (rs_mem s q)" "linked (rs_mem s) r q" "q \<noteq> r"
    using assms(3) rs_walk_tl_set [OF B(1,6) B(8) [OF assms(2)]] by (auto simp: list_nodes_def)
  then show ?thesis using lists_okD(1) [OF B(3) assms(2) q(2)] by simp
qed

lemma ml_cfg_ok:
  assumes "ml_ready m" "2 \<le> mh" "del \<noteq> unl"
  shows "cfg_ok (ml_cfg mh mk del unl m)"
proof -
  have "the (get_root m k) \<in> the ` set (ml_start m)" for k
    using root_index_mono [OF assms(1), of k k] assms(1) by (auto simp: get_root_def ml_ready_def)
  then show ?thesis using assms by (auto simp: cfg_ok_def ml_cfg_def ml_ready_def)
qed

lemma ml_lists_sorted:
  assumes "ml_ready m" "2 \<le> mh" "del \<noteq> unl" "lin_run (ml_cfg mh mk del unl m) s obs"
  shows "sorted_wrt (<) (map rn_key (concat (map (list_nodes s) (rc_roots (ml_cfg mh mk del unl m)))))"
proof -
  let ?c = "ml_cfg mh mk del unl m"
  note b = lin_invD(1) [OF lin_run_inv [OF assms(4) ml_cfg_ok [OF assms(1-3)]]]
  have "rn_key x < rn_key y" if ij: "i < j" "j < length (rc_roots ?c)" and xy: "x \<in> set (list_nodes s (rc_roots ?c ! i))" "y \<in> set (list_nodes s (rc_roots ?c ! j))"
    for i j x y
  proof (rule ccontr)
    assume "\<not> rn_key x < rn_key y"
    then have le: "rn_key y \<le> rn_key x" by simp
    have len: "length (ml_start m) = ml_branch_n m" "length (rc_roots ?c) = ml_branch_n m" and nn: "None \<notin> set (ml_start m)" and d: "distinct (ml_start m)"
      using assms(1) by (simp_all add: ml_ready_def ml_cfg_def)
    obtain i' j' where r: "root_index m (rn_key y) = Some j'" "root_index m (rn_key x) = Some i'" "j' \<le> i'" "i' < ml_branch_n m"
      using root_index_mono [OF assms(1) le] by blast
    have "rc_root ?c (rn_key x) = rc_roots ?c ! i" "rc_root ?c (rn_key y) = rc_roots ?c ! j"
      using list_nodes_in [OF b] xy ij by simp_all
    then have "the (ml_start m ! i') = the (ml_start m ! i)" "the (ml_start m ! j') = the (ml_start m ! j)"
      using r ij len by (simp_all add: ml_cfg_def get_root_def)
    moreover have "a = b" if "the (ml_start m ! a) = the (ml_start m ! b)" "a < ml_branch_n m" "b < ml_branch_n m" for a b
      using that nn d len(1) by (metis nth_eq_iff_index_eq nth_mem option.expand)
    ultimately have "i' = i" "j' = j" using r(3,4) ij len by simp_all
    then show False using ij(1) r(3) by simp
  qed
  then have "sorted_wrt (\<lambda>xs ys. \<forall>x \<in> set xs. \<forall>y \<in> set ys. x < y) (map (map rn_key) (map (list_nodes s) (rc_roots ?c)))"
    by (simp add: sorted_wrt_iff_nth_less)
  then show ?thesis unfolding map_concat by (intro sorted_wrt_concat) (use list_nodes_sorted [OF b] in auto)
qed


text \<open>What is in the lists is in the map.\<close>

lemma map_nodes:
  assumes b: "base c (rs_fresh s) (rs_mem s)"
  shows "dom (rs_map c s) = rn_key ` set (filter (rs_live c) (concat (map (list_nodes s) (rc_roots c))))"
proof -
  note B = baseD [OF b]
  let ?m = "rs_mem s"
  have nodes: "set (list_nodes s r) = (\<lambda>q. hd (?m q)) ` {q. linked ?m r q \<and> q \<noteq> r}" if "r \<in> set (rc_roots c)" for r
    unfolding list_nodes_def by (rule rs_walk_tl_set [OF B(1,6) B(8) [OF that]])
  have "k \<in> rn_key ` set (filter (rs_live c) (concat (map (list_nodes s) (rc_roots c))))" if k: "rs_map c s k \<noteq> None" for k
  proof -
    have "\<exists>p. stands c ?m k p"
    proof (rule ccontr)
      assume "\<nexists>p. stands c ?m k p"
      then have "rs_lookup c (rs_fresh s) ?m k = None" using rs_lookup_none [OF B(1,6) B(8) [OF B(7)]] by blast
      then show False using k by (simp add: rs_map_def)
    qed
    then obtain p where p: "stands c ?m k p" by blast
    have "rs_live c (hd (?m p))" using k rs_lookup_stands [OF B(1,6) B(8) [OF B(7)] p] by (auto simp: rs_map_def value_of_def split: if_splits)
    moreover have "hd (?m p) \<in> set (list_nodes s (rc_root c k))" unfolding nodes [OF B(7)] using p by (auto simp: stands_def)
    ultimately show ?thesis using p B(7) by (force simp: stands_def)
  qed
  moreover have "rs_map c s (rn_key n) \<noteq> None" if n: "r \<in> set (rc_roots c)" "n \<in> set (list_nodes s r)" "rs_live c n" for r n
  proof -
    obtain q where q: "n = hd (?m q)" "linked ?m r q" "q \<noteq> r" using n(2) nodes [OF n(1)] by auto
    have "rc_root c (rn_key n) = r" by (rule list_nodes_in [OF b n(1,2)])
    then have "stands c ?m (rn_key n) q" using q by (simp add: stands_def)
    from rs_lookup_stands [OF B(1,6) B(8) [OF B(7)] this] show ?thesis using n(3) q(1) by (simp add: rs_map_def value_of_def)
  qed
  ultimately show ?thesis by (auto simp: dom_def)
qed

lemma count_nodes: "ml_count c s = length (filter (rs_live c) (concat (map (list_nodes s) (rc_roots c))))"
  by (simp add: ml_count_def rs_count_def list_nodes_def length_concat filter_concat comp_def)


section \<open>Two lists\<close>

definition two_lists :: mlist where
  "two_lists = fst (ml_InitAsFirst [0, 1] (set_key_range 0 100 (RdmaMultiList (- 1) 1)))"

definition two_cfg :: rscfg where
  "two_cfg = ml_cfg 2 (- 1) 1 2 two_lists"

definition two_inserts :: "rs_act list" where
  "two_inserts = Call 0 (Rs_insert 70 700) # goes 0 1 8 @ Call 1 (Rs_insert 10 100) # goes 1 2 8"

lemma two_lists_ready: "ml_ready two_lists"
  by (simp add: two_lists_def ml_ready_def ml_InitAsFirst_def set_key_range_def RdmaMultiList_def ml_distance_def)

lemma two_lists_root: "get_root two_lists 70 = Some 1" "get_root two_lists 10 = Some 0"
  by (simp_all add: two_lists_def get_root_def root_index_def ml_InitAsFirst_def set_key_range_def RdmaMultiList_def ml_distance_def
    Zipf.truncate_def Let_def)

lemma two_cfg_simps: "rc_max two_cfg = 2" "rc_minkey two_cfg = - 1" "rc_del two_cfg = 1" "rc_unl two_cfg = 2"
  "rc_root two_cfg 70 = 1" "rc_root two_cfg 10 = 0" "rc_roots two_cfg = [0, 1]" "rc_retries two_cfg = None" "\<not> rc_asks two_cfg"
  by (simp_all add: two_cfg_def ml_cfg_def two_lists_root) (simp add: two_lists_def ml_InitAsFirst_def set_key_range_def RdmaMultiList_def)

lemma init_two_lists: "rs_init two_cfg = \<lparr>rs_mem = (\<lambda>_. [])
     (0 := [\<lparr>rn_key = - 1, rn_value = 0, rn_height = 0, rn_link_level = 0, rn_next = [(None, False), (None, False)]\<rparr>],
      1 := [\<lparr>rn_key = - 1, rn_value = 0, rn_height = 0, rn_link_level = 0, rn_next = [(None, False), (None, False)]\<rparr>]),
     rs_fresh = 2, rs_limbo = [], rs_pc = (\<lambda>_. Idle)\<rparr>"
  by (auto simp: rs_init_def two_cfg_simps rs_node_def numeral_2_eq_2)

lemma rs_walk_numeral: "rs_walk (numeral k) m p = (case m p of [] \<Rightarrow> []
     | n # _ \<Rightarrow> n # (case fst (rn_next n ! 0) of None \<Rightarrow> [] | Some q \<Rightarrow> rs_walk (pred_numeral k) m q))"
  by (simp add: numeral_eq_Suc)

lemma two_inserts_run: "\<exists>s. rs_run two_cfg two_inserts (rs_init two_cfg) = Some s \<and> rs_pc s 0 = Done (Rs_insert 70 700) None \<and>
    rs_pc s 1 = Done (Rs_insert 10 100) None \<and> rs_fresh s = 18 \<and> map rn_key (list_nodes s 0) = [10] \<and> map rn_key (list_nodes s 1) = [70] \<and>
    ml_count two_cfg s = 2"
  unfolding init_two_lists two_inserts_def
  by (simp add: two_cfg_simps run_simps rs_walk_numeral list_nodes_def ml_count_def rs_count_def rs_live_def del: replicate.simps One_nat_def)

lemma two_inserts_lin:
  assumes "rs_run two_cfg two_inserts (rs_init two_cfg) = Some s"
  shows "\<exists>obs. lin_run two_cfg s obs"
proof -
  have "\<exists>obs. lin_run two_cfg s obs \<and> (\<forall>t. client (rs_pc s t))"
    by (rule client_lin_run [OF lin_run.init _ assms]) (auto simp: rs_init_def two_inserts_def two_cfg_simps)
  then show ?thesis by blast
qed



end
