(* ===== verification/Spec2Isabelle.thy ===== *)
theory Spec2Isabelle
  imports MarkPtr ObjectPool Metrics Hashing MemPool CacheTransparency CacheTeardown CoherenceProps
    IhtLocal IhtClient Zipf Rpc BTreeProps BTreeRun EbrProps LocalEbr WRLock IndexCache Sherman ShChecks TunedIhtProps RdmaSkLin MultiList
begin

text \<open>
  A verification library of the distributed object cache and of the data structures built on it.

  THE PROGRAM. A cluster of nodes shares memory over RDMA. Each node has an object cache
  (\<open>src/dcache\<close>) that keeps copies of remote objects whose pointers carry a cache mark; a write
  invalidates the line of the object on every node. On it stand the structures of \<open>src/iht\<close>: an interlocked
  hash table (one for one process, one over RDMA, and a two-sided one that sends requests to the owner of a
  key), a B+ tree, Sherman's tree with its client-side index, and skip lists. Nodes of the trees and
  lists are reclaimed by epochs. A benchmark client draws keys and operations and checks the results.

  THE THEORIES.
  \<^item> Prelude: generic lemmas. KvMap: the interface of a key/value store (\<open>kv_map\<close>, \<open>kv_store\<close>), with \<open>populate\<close>.
  \<^item> MarkPtr (\<open>mark_ptr.h\<close> and the deletion tags of \<open>rdmask_cached.h\<close> and \<open>lockfree_sk.h\<close>), ObjectPool
    (\<open>object_pool.h\<close>), Metrics (\<open>metrics.h\<close>), Hashing (the mixer of \<open>cache_store.h\<close>), MemPool
    (\<open>faux_mempool.h\<close>): the parts the cache is made of. Pointers are 64-bit words, as in the code.
  \<^item> CachedObject (\<open>cached_ptr.h\<close>) and CacheStore (\<open>cache_store.h\<close>): the cache of a node as one thread runs it,
    over any memory pool (\<open>capability\<close>, a record of operations). CacheSafety states the invariant of lines,
    handles, reference counts and the pool; CacheProps, CacheTransparency and CacheTeardown hold its
    properties.
  \<^item> Coherence, CoherenceInv, CoherenceProps: the protocol of \<open>ExtendedRead\<close>, \<open>Write\<close> and \<open>invalidate\<close> between
    threads and nodes, every access to a line, a lock or memory a step.
  \<^item> LevelHash, IhtLocal (\<open>iht_local.h\<close>), IhtRdma (\<open>iht_ds_cached.h\<close>) with IhtRdmaProps and IhtClient; TunedIht
    (\<open>iht_ds.h\<close>), over memory by addresses and the client's own copies, with TunedMem and TunedIhtProps; Rpc
    (\<open>rpc.h\<close>). Workload (\<open>role_client.h\<close>, \<open>common.h\<close>, the run of \<open>iht_bench.h\<close>) and Zipf
    (\<open>zipfian_int_distribution.h\<close>): the client, generic over the store (\<open>int_store\<close>).
  \<^item> BNodes, BTreeOps, BTree, BTreeTraverse (\<open>btree_cached.h\<close>): nodes as versioned cache lines, the operations
    on them, splits, locks and the traversal. BTreeOpsProps and BTreeNodeProps see nodes as lists of keys,
    values and children; BTreeProps holds the properties, and BTreeRun computes whole runs, one of which loses a key.
  \<^item> Ebr, EbrProps (\<open>ebr.h\<close>) and LocalEbr (\<open>LocalEBR\<close> in \<open>lockfree_sk.h\<close>): reclamation by epochs, all threads
    interleaved. WRLock (\<open>WRLock.h\<close>): the reader-writer lock, likewise.
  \<^item> LockFreeSk, LockFreeSkProps (\<open>lockfree_sk.h\<close>) and IndexCache (\<open>sherman_cache.h\<close>, \<open>sherman_root.h\<close>).
  \<^item> ShNodes, ShTree, ShTraverse (\<open>sherman.h\<close>): nodes with fence keys, the memory and locks of the tree, splits and
    merges, the traversal and the operations. FenceTree and FenceSteps are the abstract tree: cells with ranges, its
    invariant, and what splits and merges do. ShCells and ShState relate nodes and memory to cells, ShSplit and
    ShMerge show that each change of shape keeps the relation, ShDescend and ShRefine carry it through the traversal,
    and Sherman holds the properties. ShChecks has the checks and the count the program makes of the whole tree, and \<open>populate\<close>.
  \<^item> RdmaSk (\<open>rdmask_cached.h\<close>, \<open>skiplist_shared.h\<close>): the skip list over RDMA, clients and helper threads
    interleaved access by access. A node is the list of its versions, so that a read can be as old as the cache
    makes it. RdmaSkInv is what holds of all versions and of what threads know; RdmaSkProps holds its properties and a race.
    RdmaSkLists describes the bottom lists and the map they hold, and RdmaSkLin shows that they are linearizable.
    MultiList (\<open>multi_list.h\<close>): many such lists, one for each slice of the keys, as a configuration of RdmaSk.

  WHAT THE LEMMAS SHOW. For the cache: memory safety of any script of operations, transparency of
  reads, the accounting of the counters, and the teardown; between nodes, that a read that starts after a write
  has returned sees it, that lines are coherent when nothing is in flight, and that reads are not
  linearizable. For the hash tables: refinement of a map for any staleness of the cached snapshots, when an
  insertion returns and when it does not, that a client's run finds no wrong result, that the local table loses
  keys in a rehash, and that the tuned table is a map for lists on other nodes and loses changes
  to its own. For the B+ tree: the search, the effects on a leaf, splits and merges,
  what the line versions protect, traversals that go wrong, and a run that loses a key. For reclamation: exclusive allocation, the
  grace period on one node, the skew around the ring, and the runs that break the promise. For the
  lock: exclusion below 32768 threads, and the overflow. For the index: lookups against linear ones. For the
  Sherman tree: its operations are those of a map for any stale contents of the thread's two caches and any locks
  it loses, because a node's own range says which keys it has; its own checks pass and its count is right; and where a neighbor on another node is written without
  its range. For the RDMA skip list: links are sorted and marked links frozen in every run; with current reads and
  nothing unlinked it is linearizable, and the multi-list made of it is sorted as a whole and counted right; and a helper
  can unlink a node nobody removed.

  INTERFACES. \<open>kv_rel\<close>, a store that stands for a map by a relation, follows from \<open>kv_map\<close> and is interpreted by the
  Sherman tree (ShChecks). \<open>kv_map\<close> and \<open>kv_store\<close> are interpreted by the RDMA table (IhtRdmaProps), \<open>int_store\<close> by the
  client's view of it (IhtClient), and \<open>slots\<close>, an array behind a getter and a setter, by the keys, pointers and values of
  the tree's nodes (BNodes).

  BOUNDS AND FUEL. Loops that may not end take fuel and give an error or \<open>None\<close> without it: the rehashes of an insertion
  (\<open>iht_insert_returns\<close> says how many suffice), the retries and the descent of the tree's traversal, the walks
  of the skip list (longer than the list suffices, \<open>sk_get_lookup\<close>). Outcomes that other threads decide are arguments:
  what a snapshot misses, which compare-and-swaps are lost, the version a read returns. The walk of a skip list has as fuel the
  number of addresses given out, which no sorted list exceeds (\<open>rs_walk_set\<close>). Versions and locks keep their width (64 and 16 bits); epochs are natural
  numbers; C++ \<open>int\<close> keys are integers, with the sentinel values of the code, and 64-bit words where they are hashed.

  NOT MODELLED. Remus (RDMA verbs, connections, its allocator) is not in the repository: the memory pool is a
  parameter. Of the repository: the command line and its parsing, printing, sockets and barriers between
  processes, timing, the skip list of LevelDB in \<open>sherman/skiplist.cc\<close>, of which only a size is printed. Of
  the RDMA skip list the epochs that keep an address from being reused are those of Ebr and are not joined with it, and
  linearizability is shown up to the first node a helper claims, since after that \<open>rsk_unlinks_live\<close> breaks it.
\<close>

end
